(* ===== verification/V2xPrelude.thy ===== *)
theory V2xPrelude
  imports Complex_Main "HOL-Library.Word" "HOL-Library.Multiset"
    "HOL-Library.List_Lexorder" "HOL-Library.Char_ord" "HOL-Library.Product_Lexorder"
begin

text \<open>
  What every theory of the development shares: the machine types of the code, its failures as
  values, the ordered associative containers of the C++ library, and generic facts on lists.

  \<^item> \<open>uint32_t\<close> and \<open>uint64_t\<close> are \<open>u32\<close> and \<open>u64\<close> words where their width or wrap-around
    matters; sizes of containers are \<open>nat\<close>.
  \<^item> \<open>double\<close> is the type of real numbers: rounding is not modelled. A \<open>NaN\<close> or an infinity that
    the code uses as a marker is the \<open>None\<close> of an option.
  \<^item> \<open>NS_ABORT_MSG_IF\<close>, \<open>NS_FATAL_ERROR\<close> and the exceptions of \<open>std::stod\<close> and
    \<open>std::stoul\<close> end the process: they are \<open>Inl\<close> values.
  \<^item> \<open>std::map\<close> is an association list in increasing order of its keys, so that iteration is the
    order of the code; \<open>std::set\<close> with an iteration is an increasing list.
\<close>

type_synonym u8 = "8 word"
type_synonym u16 = "16 word"
type_synonym u32 = "32 word"
type_synonym u64 = "64 word"
type_synonym double = real

section \<open>Failures as values\<close>

datatype ns_error =
    Abort string
  | Fatal string
  | InvalidArgument
  | OutOfRange

type_synonym 'a result = "ns_error + 'a"

definition and_then :: "'a result \<Rightarrow> ('a \<Rightarrow> 'b result) \<Rightarrow> 'b result" where
  "and_then r f = (case r of Inl e \<Rightarrow> Inl e | Inr x \<Rightarrow> f x)"

definition abort_if :: "bool \<Rightarrow> string \<Rightarrow> unit result" where
  "abort_if c msg = (if c then Inl (Abort msg) else Inr ())"

definition is_ok :: "'a result \<Rightarrow> bool" where
  "is_ok r = (case r of Inl _ \<Rightarrow> False | Inr _ \<Rightarrow> True)"

lemma and_then_simps [simp]:
  "and_then (Inl e) f = Inl e"
  "and_then (Inr x) f = f x"
  by (simp_all add: and_then_def)

lemma and_then_eq_Inr [simp]:
  "and_then r f = Inr y \<longleftrightarrow> (\<exists>x. r = Inr x \<and> f x = Inr y)"
  by (cases r) auto

lemma abort_if_simps [simp]:
  "abort_if True msg = Inl (Abort msg)"
  "abort_if False msg = Inr ()"
  by (simp_all add: abort_if_def)

lemma abort_if_eq_Inr [simp]: "abort_if c msg = Inr u \<longleftrightarrow> \<not> c"
  by (simp add: abort_if_def)

lemma is_ok_simps [simp]: "is_ok (Inl e) = False" "is_ok (Inr x) = True"
  by (simp_all add: is_ok_def)

lemma is_ok_iff: "is_ok r \<longleftrightarrow> (\<exists>x. r = Inr x)"
  by (cases r) auto

section \<open>Ordered maps and sets of the C++ library\<close>

fun omap_put :: "'k::linorder \<Rightarrow> 'v \<Rightarrow> ('k \<times> 'v) list \<Rightarrow> ('k \<times> 'v) list" where
  "omap_put k v [] = [(k, v)]"
| "omap_put k v ((k', v') # m) =
     (if k < k' then (k, v) # (k', v') # m
      else if k = k' then (k, v) # m
      else (k', v') # omap_put k v m)"

definition omap_ok :: "('k::linorder \<times> 'v) list \<Rightarrow> bool" where
  "omap_ok m \<longleftrightarrow> sorted_wrt (<) (map fst m)"

definition omap_get :: "'v \<Rightarrow> ('k \<times> 'v) list \<Rightarrow> 'k \<Rightarrow> 'v" where
  \<comment> \<open>\<open>m[k]\<close> when the key may be absent: the value-initialised default\<close>
  "omap_get d m k = (case map_of m k of None \<Rightarrow> d | Some v \<Rightarrow> v)"

lemma map_of_omap_put [simp]: "map_of (omap_put k v m) = (map_of m)(k \<mapsto> v)"
  by (induction k v m rule: omap_put.induct) (auto simp: fun_eq_iff)

lemma set_keys_omap_put [simp]: "fst ` set (omap_put k v m) = insert k (fst ` set m)"
  by (induction k v m rule: omap_put.induct) auto

lemma set_omap_put: "set (omap_put k v m) \<subseteq> insert (k, v) (set m)"
  by (induction k v m rule: omap_put.induct) auto

lemma omap_ok_Nil [simp]: "omap_ok []"
  by (simp add: omap_ok_def)

lemma omap_ok_put [simp]: "omap_ok m \<Longrightarrow> omap_ok (omap_put k v m)"
  unfolding omap_ok_def
proof (induction k v m rule: omap_put.induct)
  case (2 k v k' v' m)
  have "\<forall>x \<in> fst ` set m. k' < x"
    using "2.prems" by auto
  then have "\<forall>x \<in> fst ` set (omap_put k v m). k' < x" if "k' < k"
    using that by simp
  with 2 show ?case by (auto simp: not_less order.order_iff_strict)
qed simp

lemma omap_ok_distinct: "omap_ok m \<Longrightarrow> distinct (map fst m)"
  unfolding omap_ok_def by (metis strict_sorted_iff)

lemma omap_ok_map_of: "omap_ok m \<Longrightarrow> (k, v) \<in> set m \<longleftrightarrow> map_of m k = Some v"
  by (simp add: omap_ok_distinct)

text \<open>\<open>std::set\<close> as an increasing list: inserting an element that is there changes nothing.\<close>

definition oset_insert :: "'a::linorder \<Rightarrow> 'a list \<Rightarrow> 'a list" where
  "oset_insert x xs = (if x \<in> set xs then xs else insort x xs)"

definition oset_of :: "'a::linorder list \<Rightarrow> 'a list" where
  "oset_of xs = fold oset_insert xs []"

lemma set_oset_insert [simp]: "set (oset_insert x xs) = insert x (set xs)"
  by (auto simp: oset_insert_def set_insort_key)

lemma distinct_oset_insert [simp]: "distinct (oset_insert x xs) = distinct xs"
  by (auto simp: oset_insert_def distinct_insort)

lemma sorted_oset_insert [simp]: "sorted xs \<Longrightarrow> sorted (oset_insert x xs)"
  by (simp add: oset_insert_def sorted_insort)

lemma fold_oset_insert:
  "set (fold oset_insert xs ys) = set xs \<union> set ys"
  "distinct ys \<Longrightarrow> distinct (fold oset_insert xs ys)"
  "sorted ys \<Longrightarrow> sorted (fold oset_insert xs ys)"
  by (induction xs arbitrary: ys) auto

lemma oset_of_props [simp]:
  "set (oset_of xs) = set xs" "distinct (oset_of xs)" "sorted (oset_of xs)"
  by (simp_all add: oset_of_def fold_oset_insert)

lemma length_oset_of: "length (oset_of xs) = card (set xs)"
  using distinct_card [of "oset_of xs"] by simp

section \<open>Generic facts\<close>

lemma unat_u32_less: "unat (x :: u32) < 4294967296"
  using unsigned_less [of x] by simp

lemma unat_u64_less: "unat (x :: u64) < 18446744073709551616"
  using unsigned_less [of x] by simp

lemma unat_of_nat_u64: "n < 18446744073709551616 \<Longrightarrow> unat (of_nat n :: u64) = n"
  by (simp add: unsigned_of_nat take_bit_nat_eq_self)

lemma unat_of_nat_u32: "n < 4294967296 \<Longrightarrow> unat (of_nat n :: u32) = n"
  by (simp add: unsigned_of_nat take_bit_nat_eq_self)

lemma unat_ucast_u32_u64: "unat (ucast (x :: u32) :: u64) = unat x"
  using unat_u32_less [of x] by (simp add: unsigned_ucast_eq take_bit_nat_eq_self)

lemma dropWhile_subset: "set (dropWhile P xs) \<subseteq> set xs"
  by (auto dest: set_dropWhileD)

lemma sorted_wrt_dropWhile: "sorted_wrt R xs \<Longrightarrow> sorted_wrt R (dropWhile P xs)"
  by (induction xs) auto

lemma sorted_dropWhile_filter:
  fixes f :: "'a \<Rightarrow> 'b::linorder"
  assumes "sorted (map f xs)"
  shows "dropWhile (\<lambda>x. f x < c) xs = filter (\<lambda>x. c \<le> f x) xs"
  using assms
proof (induction xs)
  case Nil
  then show ?case by simp
next
  case (Cons x xs)
  show ?case
  proof (cases "f x < c")
    case True
    with Cons show ?thesis by auto
  next
    case False
    have "\<forall>y \<in> set xs. c \<le> f y"
      using False Cons.prems by (auto simp: not_less intro: order_trans)
    with False show ?thesis by (simp add: filter_id_conv not_less)
  qed
qed

lemma ucast_of_nat_unat: "(ucast (of_nat (unat (n :: u32)) :: u64) :: u32) = n"
proof (rule word_unat_eq_iff [THEN iffD2])
  have "unat n < 2 ^ 64"
    using unsigned_less [of n] by (auto intro: less_trans)
  then have "unat (of_nat (unat n) :: u64) = unat n"
    by (simp only: unsigned_of_nat) (simp add: take_bit_nat_eq_self)
  moreover have "unat n < 2 ^ 32"
    using unsigned_less [of n] by simp
  ultimately show "unat (ucast (of_nat (unat n) :: u64) :: u32) = unat n"
    by (simp only: unsigned_ucast_eq) (simp add: take_bit_nat_eq_self)
qed

lemma sum_list_bounds:
  fixes f :: "'a \<Rightarrow> real"
  assumes "\<forall>x \<in> set xs. 0 \<le> f x \<and> f x \<le> 1"
  shows "0 \<le> (\<Sum>x\<leftarrow>xs. f x) \<and> (\<Sum>x\<leftarrow>xs. f x) \<le> real (length xs)"
  using assms by (induction xs) auto

end
