(* ===== verification/EventList.thy ===== *)
theory EventList
  imports V2xPrelude
begin

text \<open>
  The interface \<open>Scheduler\<close> of \<open>src/core/model/scheduler.h\<close>: keys, events, their order, and the
  contract every event list promises its client, the simulator, as two locales. \<open>event_list\<close> is the
  contract of \<open>Insert\<close>, \<open>IsEmpty\<close>, \<open>PeekNext\<close> and \<open>RemoveNext\<close>; \<open>event_list_remove\<close> adds
  \<open>Remove\<close>. An operation whose assertion fails or whose behaviour the code leaves undefined is
  \<open>None\<close>.
\<close>

section \<open>Keys and events\<close>

record event_key =
  m_ts :: u64
  m_uid :: u32
  m_context :: u32

record event =
  ev_impl :: nat
  ev_key :: event_key

definition key_less :: "event_key \<Rightarrow> event_key \<Rightarrow> bool" where
  "key_less a b \<longleftrightarrow> m_ts a < m_ts b \<or> (m_ts a = m_ts b \<and> m_uid a < m_uid b)"

definition key_greater :: "event_key \<Rightarrow> event_key \<Rightarrow> bool" where
  "key_greater a b \<longleftrightarrow> m_ts a > m_ts b \<or> (m_ts a = m_ts b \<and> m_uid a > m_uid b)"

definition key_eq :: "event_key \<Rightarrow> event_key \<Rightarrow> bool" where
  "key_eq a b \<longleftrightarrow> m_uid a = m_uid b"

definition event_less :: "event \<Rightarrow> event \<Rightarrow> bool" where
  "event_less a b \<longleftrightarrow> key_less (ev_key a) (ev_key b)"

text \<open>The order of the keys is that of the pairs of time stamp and unique id.\<close>

definition rank :: "event \<Rightarrow> u64 \<times> u32" where
  "rank e = (m_ts (ev_key e), m_uid (ev_key e))"

abbreviation uid_of :: "event \<Rightarrow> u32" where
  "uid_of e \<equiv> m_uid (ev_key e)"

abbreviation ts_of :: "event \<Rightarrow> u64" where
  "ts_of e \<equiv> m_ts (ev_key e)"

lemma event_less_rank: "event_less a b \<longleftrightarrow> rank a < rank b"
  by (auto simp: event_less_def key_less_def rank_def less_prod_def)

lemma key_less_rank: "key_less (ev_key a) (ev_key b) \<longleftrightarrow> rank a < rank b"
  by (auto simp: key_less_def rank_def less_prod_def)

lemma rank_le_ts: "rank a \<le> rank b \<Longrightarrow> ts_of a \<le> ts_of b"
  by (auto simp: rank_def)

lemma key_less_antisym: "key_less a b \<Longrightarrow> \<not> key_less b a"
  by (auto simp: key_less_def)

text \<open>Events with different ids have different keys, so that a sorted arrangement of them is unique.\<close>

definition uids_distinct :: "event multiset \<Rightarrow> bool" where
  "uids_distinct M \<longleftrightarrow> (\<forall>e \<in># M. count M e = 1 \<and> (\<forall>f \<in># M. uid_of e = uid_of f \<longrightarrow> e = f))"

lemma uids_distinct_rank_inj:
  "uids_distinct M \<Longrightarrow> e \<in># M \<Longrightarrow> f \<in># M \<Longrightarrow> rank e = rank f \<Longrightarrow> e = f"
  by (auto simp: uids_distinct_def rank_def)

lemma sorted_rank_unique:
  assumes "mset xs = mset ys" "uids_distinct (mset xs)" "sorted (map rank xs)" "sorted (map rank ys)"
  shows "xs = ys"
proof -
  have "mset (map rank xs) = mset (map rank ys)"
    using assms(1) by simp
  from properties_for_sort [OF this assms(3)] have eq: "map rank xs = map rank ys"
    using assms(4) by (simp add: sorted_sort_id)
  have "set xs = set ys"
    using assms(1) by (rule mset_eq_setD)
  then have "inj_on rank (set xs \<union> set ys)"
    using uids_distinct_rank_inj [OF assms(2)] by (auto simp: inj_on_def)
  with eq show ?thesis by (rule map_inj_on)
qed

lemma uids_distinct_empty [simp]: "uids_distinct {#}"
  by (simp add: uids_distinct_def)

lemma uids_distinct_add:
  assumes "uids_distinct M" "\<forall>e \<in># M. uid_of e \<noteq> uid_of ev"
  shows "uids_distinct (add_mset ev M)"
  using assms by (fastforce simp: uids_distinct_def not_in_iff)

lemma uids_distinct_mset: "distinct (map uid_of evs) \<Longrightarrow> uids_distinct (mset evs)"
proof (induction evs)
  case (Cons e evs)
  have "\<forall>f \<in># mset evs. uid_of f \<noteq> uid_of e"
  proof
    fix f assume "f \<in># mset evs"
    then have "uid_of f \<in> set (map uid_of evs)" by simp
    with Cons.prems show "uid_of f \<noteq> uid_of e" by auto
  qed
  with Cons show ?case by (simp add: uids_distinct_add)
qed simp

lemma uids_distinct_remove:
  assumes "uids_distinct M"
  shows "uids_distinct (M - {#e#})"
proof (cases "e \<in># M")
  case True
  then have "e \<notin># M - {#e#}"
    using assms by (auto simp: uids_distinct_def in_diff_count)
  then show ?thesis
    using assms by (auto simp: uids_distinct_def dest: in_diffD)
next
  case False
  then show ?thesis using assms by (simp add: diff_single_trivial)
qed

section \<open>The contract of an event list\<close>

text \<open>Two loops over an event list, whatever its implementation: inserting a sequence of events, and
  removing the next event \<open>n\<close> times, as \<open>DefaultSimulatorImpl::SetScheduler\<close> does until the list
  is empty.\<close>

primrec insert_events :: "(event \<Rightarrow> 'q \<Rightarrow> 'q option) \<Rightarrow> event list \<Rightarrow> 'q \<Rightarrow> 'q option" where
  "insert_events ins [] q = Some q"
| "insert_events ins (ev # evs) q =
     (case ins ev q of None \<Rightarrow> None | Some q' \<Rightarrow> insert_events ins evs q')"

lemma insert_events_total: "insert_events (\<lambda>ev q. Some (f ev q)) evs q = Some (fold f evs q)"
  by (induction evs arbitrary: q) auto

primrec drain :: "('q \<Rightarrow> (event \<times> 'q) option) \<Rightarrow> nat \<Rightarrow> 'q \<Rightarrow> event list" where
  "drain rm 0 q = []"
| "drain rm (Suc n) q = (case rm q of None \<Rightarrow> [] | Some (ev, q') \<Rightarrow> ev # drain rm n q')"

locale event_list =
  fixes empty :: "'q"
    and insert_ev :: "event \<Rightarrow> 'q \<Rightarrow> 'q option"
    and is_empty :: "'q \<Rightarrow> bool"
    and peek_next :: "'q \<Rightarrow> event option"
    and remove_next :: "'q \<Rightarrow> (event \<times> 'q) option"
    and events :: "'q \<Rightarrow> event multiset"
    and invar :: "'q \<Rightarrow> bool"
  assumes invar_empty: "invar empty"
    and events_empty: "events empty = {#}"
    and insert_Some:
      "invar q \<Longrightarrow> insert_ev ev q = Some q' \<Longrightarrow> invar q' \<and> events q' = add_mset ev (events q)"
    and insert_fresh:
      "invar q \<Longrightarrow> \<forall>e \<in># events q. uid_of e \<noteq> uid_of ev \<Longrightarrow> insert_ev ev q \<noteq> None"
    and is_empty_iff: "invar q \<Longrightarrow> is_empty q \<longleftrightarrow> events q = {#}"
    and remove_next_total: "invar q \<Longrightarrow> events q \<noteq> {#} \<Longrightarrow> remove_next q \<noteq> None"
    and remove_next_Some:
      "invar q \<Longrightarrow> remove_next q = Some (ev, q') \<Longrightarrow>
         invar q' \<and> events q = add_mset ev (events q') \<and> (\<forall>e \<in># events q. rank ev \<le> rank e)"
    and peek_next_eq:
      "invar q \<Longrightarrow> events q \<noteq> {#} \<Longrightarrow> peek_next q = map_option fst (remove_next q)"
begin

lemma drain_mset: "invar q \<Longrightarrow> size (events q) = n \<Longrightarrow> mset (drain remove_next n q) = events q"
proof (induction n arbitrary: q)
  case (Suc n)
  then have "remove_next q \<noteq> None"
    by (intro remove_next_total) auto
  then obtain ev q' where r: "remove_next q = Some (ev, q')" by auto
  from remove_next_Some [OF Suc.prems(1) r] Suc show ?case by (simp add: r)
qed simp

lemma drain_subset: "invar q \<Longrightarrow> e \<in> set (drain remove_next n q) \<Longrightarrow> e \<in># events q"
proof (induction n arbitrary: q)
  case (Suc n)
  then obtain ev q' where r: "remove_next q = Some (ev, q')"
    by (cases "remove_next q") auto
  from remove_next_Some [OF Suc.prems(1) r] Suc r show ?case by auto
qed simp

lemma drain_sorted: "invar q \<Longrightarrow> sorted (map rank (drain remove_next n q))"
proof (induction n arbitrary: q)
  case (Suc n)
  show ?case
  proof (cases "remove_next q")
    case (Some p)
    then obtain ev q' where r: "remove_next q = Some (ev, q')" by (cases p) auto
    note f = remove_next_Some [OF Suc.prems r]
    then have "sorted (map rank (drain remove_next n q'))"
      using Suc.IH by blast
    moreover have "\<forall>e \<in> set (drain remove_next n q'). rank ev \<le> rank e"
      using drain_subset [of q'] f by auto
    ultimately show ?thesis by (simp add: r)
  qed simp
qed simp

text \<open>A sequence of events with distinct new ids can be inserted, and is then what is pending.\<close>

lemma insert_events_mset:
  assumes "invar q" "distinct (map uid_of evs)"
    "\<forall>e \<in># events q. \<forall>f \<in> set evs. uid_of e \<noteq> uid_of f"
  shows "\<exists>q'. insert_events insert_ev evs q = Some q' \<and> invar q' \<and> events q' = mset evs + events q"
  using assms
proof (induction evs arbitrary: q)
  case (Cons ev evs)
  from insert_fresh [OF Cons.prems(1)] Cons.prems(3) obtain q1 where
    q1: "insert_ev ev q = Some q1" by auto
  from insert_Some [OF Cons.prems(1) this] have i: "invar q1" "events q1 = add_mset ev (events q)"
    by auto
  have "\<forall>e \<in># events q1. \<forall>f \<in> set evs. uid_of e \<noteq> uid_of f"
    using Cons.prems(2,3) i(2) by auto
  then show ?case
    using Cons.IH [OF i(1)] Cons.prems(2) q1 i(2) by auto
qed simp

text \<open>With distinct ids the order in which events come out is determined by which events are
  pending, whatever the implementation.\<close>

lemma drain_determined:
  assumes "invar q" "mset xs = events q" "sorted (map rank xs)" "uids_distinct (events q)"
  shows "drain remove_next (size (events q)) q = xs"
proof (rule sorted_rank_unique)
  show "mset (drain remove_next (size (events q)) q) = mset xs"
    using assms(1,2) drain_mset by simp
  then show "uids_distinct (mset (drain remove_next (size (events q)) q))"
    using assms(2,4) by simp
qed (use assms drain_sorted in simp_all)

lemma insert_events_drain:
  assumes "distinct (map uid_of evs)"
  shows "\<exists>q. insert_events insert_ev evs empty = Some q
    \<and> drain remove_next (length evs) q = sort_key rank evs"
proof -
  obtain q where q: "insert_events insert_ev evs empty = Some q" "invar q" "events q = mset evs"
    using insert_events_mset [OF invar_empty assms] by (auto simp: events_empty)
  have "drain remove_next (size (events q)) q = sort_key rank evs"
    using q(2,3) uids_distinct_mset [OF assms] by (intro drain_determined) auto
  with q show ?thesis by auto
qed

lemma remove_next_least:
  assumes "invar q" "remove_next q = Some (ev, q')" "uids_distinct (events q)"
    "e \<in># events q" "\<forall>f \<in># events q. rank e \<le> rank f"
  shows "ev = e"
proof -
  have "ev \<in># events q" "rank ev \<le> rank e"
    using remove_next_Some [OF assms(1,2)] assms(4) by auto
  moreover have "rank e \<le> rank ev"
    using assms(5) calculation(1) by blast
  ultimately show ?thesis
    using uids_distinct_rank_inj [OF assms(3) _ assms(4)] by simp
qed

end

locale event_list_remove =
  event_list where empty = empty for empty :: "'q" +
  fixes remove :: "event \<Rightarrow> 'q \<Rightarrow> 'q option"
  assumes remove_Some:
      "invar q \<Longrightarrow> remove ev q = Some q' \<Longrightarrow>
         invar q' \<and> (\<exists>e. uid_of e = uid_of ev \<and> events q = add_mset e (events q'))"
    and remove_present:
      "invar q \<Longrightarrow> ev \<in># events q \<Longrightarrow> uids_distinct (events q) \<Longrightarrow> remove ev q \<noteq> None"
begin

lemma remove_exact:
  assumes "invar q" "ev \<in># events q" "uids_distinct (events q)"
  shows "\<exists>q'. remove ev q = Some q' \<and> invar q' \<and> events q = add_mset ev (events q')"
proof -
  obtain q' where r: "remove ev q = Some q'"
    using remove_present [OF assms] by auto
  from remove_Some [OF assms(1) r] obtain e where
    "invar q'" "uid_of e = uid_of ev" "events q = add_mset e (events q')" by blast
  moreover from this have "e = ev"
    using assms(2,3) unfolding uids_distinct_def by (metis union_single_eq_member)
  ultimately show ?thesis using r by blast
qed

end

section \<open>The contract the simulator relies on\<close>

text \<open>A weaker contract: events are inserted only at or after the time of the last event removed
  (\<open>floor\<close>) and within the range of \<open>Time\<close>. It is what the calendar queue can promise, and every
  \<open>event_list\<close> fulfils it.\<close>

locale timed_event_list =
  fixes empty :: "'q"
    and insert_ev :: "event \<Rightarrow> 'q \<Rightarrow> 'q option"
    and is_empty :: "'q \<Rightarrow> bool"
    and remove_next :: "'q \<Rightarrow> (event \<times> 'q) option"
    and events :: "'q \<Rightarrow> event multiset"
    and invar :: "'q \<Rightarrow> bool"
    and floor :: "'q \<Rightarrow> u64"
  assumes empty_ok: "invar empty \<and> events empty = {#} \<and> floor empty = 0"
    and insert_ok:
      "invar q \<Longrightarrow> floor q \<le> ts_of ev \<Longrightarrow> unat (ts_of ev) < 2 ^ 63 \<Longrightarrow>
       \<forall>e \<in># events q. uid_of e \<noteq> uid_of ev \<Longrightarrow>
         \<exists>q'. insert_ev ev q = Some q' \<and> invar q' \<and> events q' = add_mset ev (events q) \<and> floor q' = floor q"
    and empty_iff: "invar q \<Longrightarrow> is_empty q \<longleftrightarrow> events q = {#}"
    and remove_next_ok:
      "invar q \<Longrightarrow> events q \<noteq> {#} \<Longrightarrow>
         \<exists>ev q'. remove_next q = Some (ev, q') \<and> invar q' \<and> events q = add_mset ev (events q')
           \<and> (\<forall>e \<in># events q. rank ev \<le> rank e) \<and> floor q' \<le> ts_of ev"
begin

lemma insert_events_ok:
  assumes "invar q" "\<forall>e \<in> set evs. floor q \<le> ts_of e \<and> unat (ts_of e) < 2 ^ 63"
    "distinct (map uid_of evs)" "\<forall>e \<in># events q. \<forall>f \<in> set evs. uid_of e \<noteq> uid_of f"
  shows "\<exists>q'. insert_events insert_ev evs q = Some q' \<and> invar q' \<and> events q' = mset evs + events q \<and> floor q' = floor q"
  using assms
proof (induction evs arbitrary: q)
  case (Cons ev evs)
  have "\<forall>e \<in># events q. uid_of e \<noteq> uid_of ev" using Cons.prems(4) by simp
  with insert_ok [OF Cons.prems(1)] Cons.prems(2) obtain q1 where q1: "insert_ev ev q = Some q1" "invar q1"
    "events q1 = add_mset ev (events q)" "floor q1 = floor q" by fastforce
  have "\<forall>e \<in># events q1. \<forall>f \<in> set evs. uid_of e \<noteq> uid_of f"
    using Cons.prems(3,4) q1(3) by auto
  with Cons.IH [OF q1(2)] Cons.prems(2,3) q1 show ?case by simp
qed simp

lemma timed_drain:
  assumes "invar q" "uids_distinct (events q)" "mset xs = events q" "sorted (map rank xs)"
  shows "drain remove_next (length xs) q = xs"
  using assms
proof (induction xs arbitrary: q)
  case (Cons x xs)
  then have "events q \<noteq> {#}" by (metis add_mset_not_empty mset.simps(2))
  from remove_next_ok [OF Cons.prems(1) this] obtain ev q' where r: "remove_next q = Some (ev, q')" "invar q'"
    "events q = add_mset ev (events q')" "\<forall>e \<in># events q. rank ev \<le> rank e" by blast
  have "x \<in># events q" "ev \<in> set (x # xs)"
    using Cons.prems(3) r(3) by (metis list.set_intros(1) set_mset_mset, metis set_mset_mset union_single_eq_member)
  then have "rank ev = rank x" using r(4) Cons.prems(4) by (auto intro: antisym)
  then have ev: "ev = x" using uids_distinct_rank_inj [OF Cons.prems(2)] \<open>x \<in># events q\<close> r(3) by simp
  have "uids_distinct (events q')"
    using uids_distinct_remove [OF Cons.prems(2), of ev] r(3) by simp
  with Cons.IH [OF r(2)] Cons.prems(3,4) r ev show ?case by simp
qed simp

end

sublocale event_list \<subseteq> timed_event_list empty insert_ev is_empty remove_next events invar "\<lambda>_. 0"
proof (unfold_locales, goal_cases)
  case 1 show ?case by (simp add: invar_empty events_empty)
next
  case (2 q ev) then show ?case using insert_fresh insert_Some by fastforce
next
  case (3 q) then show ?case by (rule is_empty_iff)
next
  case (4 q) then show ?case using remove_next_total remove_next_Some by fastforce
qed

locale timed_event_list_remove =
  timed_event_list where empty = empty for empty :: "'q" +
  fixes remove :: "event \<Rightarrow> 'q \<Rightarrow> 'q option"
  assumes remove_ok:
      "invar q \<Longrightarrow> ev \<in># events q \<Longrightarrow> uids_distinct (events q) \<Longrightarrow>
         \<exists>q'. remove ev q = Some q' \<and> invar q' \<and> events q = add_mset ev (events q') \<and> floor q' = floor q"

sublocale event_list_remove \<subseteq> timed_event_list_remove insert_ev is_empty remove_next events invar "\<lambda>_. 0" empty remove
proof (unfold_locales, goal_cases)
  case (1 q ev) then show ?case using remove_exact by blast
qed

end
