(* ===== verification/ListScheduler.thy ===== *)
theory ListScheduler
  imports EventList
begin

text \<open>
  \<open>src/core/model/list-scheduler.cc\<close>: the event list as a \<open>std::list\<close> kept in key order. It
  provides the full contract \<open>event_list_remove\<close>.
\<close>

type_synonym list_scheduler = "event list"

fun list_Insert :: "event \<Rightarrow> list_scheduler \<Rightarrow> list_scheduler" where
  "list_Insert ev [] = [ev]"
| "list_Insert ev (e # es) =
     (if key_less (ev_key ev) (ev_key e) then ev # e # es else e # list_Insert ev es)"

definition list_IsEmpty :: "list_scheduler \<Rightarrow> bool" where
  "list_IsEmpty q \<longleftrightarrow> q = []"

definition list_PeekNext :: "list_scheduler \<Rightarrow> event option" where
  "list_PeekNext q = (case q of [] \<Rightarrow> None | e # _ \<Rightarrow> Some e)"

definition list_RemoveNext :: "list_scheduler \<Rightarrow> (event \<times> list_scheduler) option" where
  "list_RemoveNext q = (case q of [] \<Rightarrow> None | e # es \<Rightarrow> Some (e, es))"

text \<open>\<open>Remove\<close> erases the first event with the id; it asserts that the implementation pointers
  agree and that there is such an event.\<close>

fun list_Remove :: "event \<Rightarrow> list_scheduler \<Rightarrow> list_scheduler option" where
  "list_Remove ev [] = None"
| "list_Remove ev (e # es) =
     (if m_uid (ev_key e) = m_uid (ev_key ev)
      then if ev_impl ev = ev_impl e then Some es else None
      else map_option (\<lambda>es'. e # es') (list_Remove ev es))"

definition list_invar :: "list_scheduler \<Rightarrow> bool" where
  "list_invar q \<longleftrightarrow> sorted (map rank q)"

lemma mset_list_Insert [simp]: "mset (list_Insert ev q) = add_mset ev (mset q)"
  by (induction ev q rule: list_Insert.induct) auto

lemma set_list_Insert [simp]: "set (list_Insert ev q) = insert ev (set q)"
  by (induction ev q rule: list_Insert.induct) auto

lemma list_invar_Insert: "list_invar q \<Longrightarrow> list_invar (list_Insert ev q)"
  unfolding list_invar_def
  by (induction ev q rule: list_Insert.induct) (auto simp: key_less_rank not_less)

lemma list_Remove_Some:
  "list_Remove ev q = Some q' \<Longrightarrow> \<exists>e. uid_of e = uid_of ev \<and> mset q = add_mset e (mset q')"
  by (induction ev q arbitrary: q' rule: list_Remove.induct) (fastforce split: if_splits)+

lemma list_Remove_sorted:
  "list_Remove ev q = Some q' \<Longrightarrow> list_invar q \<Longrightarrow> list_invar q'"
proof (induction ev q arbitrary: q' rule: list_Remove.induct)
  case (2 ev e es)
  show ?case
  proof (cases "uid_of e = uid_of ev")
    case True
    with 2 show ?thesis by (auto simp: list_invar_def split: if_splits)
  next
    case False
    with 2 obtain es' where es': "list_Remove ev es = Some es'" "q' = e # es'" by auto
    with 2 False have "list_invar es'" by (simp add: list_invar_def)
    moreover have "set es' \<subseteq> set es"
      using list_Remove_Some [OF es'(1)] by (metis set_mset_mset set_mset_add_mset_insert subset_insertI)
    ultimately show ?thesis
      using 2 es' by (auto simp: list_invar_def)
  qed
qed simp

lemma list_Remove_present:
  "ev \<in> set q \<Longrightarrow> uids_distinct (mset q) \<Longrightarrow> list_Remove ev q \<noteq> None"
proof (induction ev q rule: list_Remove.induct)
  case (2 ev e es)
  show ?case
  proof (cases "uid_of e = uid_of ev")
    case True
    with 2 have "e = ev" by (auto simp: uids_distinct_def)
    then show ?thesis by simp
  next
    case False
    moreover have "uids_distinct (mset es)"
      using uids_distinct_remove [OF "2.prems"(2), of e] by simp
    ultimately show ?thesis using 2 by auto
  qed
qed simp

interpretation list_sched: event_list_remove "\<lambda>ev q. Some (list_Insert ev q)" list_IsEmpty
  list_PeekNext list_RemoveNext mset list_invar "[]" list_Remove
proof (unfold_locales, goal_cases)
  case 1 show ?case by (simp add: list_invar_def)
next
  case 2 show ?case by simp
next
  case (3 q ev q') then show ?case by (auto simp: list_invar_Insert)
next
  case (4 q ev) show ?case by simp
next
  case (5 q) show ?case by (simp add: list_IsEmpty_def)
next
  case (6 q) then show ?case by (auto simp: list_RemoveNext_def split: list.splits)
next
  case (7 q ev q') then show ?case by (auto simp: list_RemoveNext_def list_invar_def split: list.splits)
next
  case (8 q) then show ?case
    by (auto simp: list_RemoveNext_def list_PeekNext_def split: list.splits)
next
  case (9 q ev q') then show ?case using list_Remove_Some list_Remove_sorted by blast
next
  case (10 q ev) then show ?case by (simp add: list_Remove_present)
qed

end
