(* ===== verification/MapScheduler.thy ===== *)
theory MapScheduler
  imports EventList
begin

text \<open>
  \<open>src/core/model/map-scheduler.cc\<close>: the event list as a \<open>std::map\<close> from keys to event
  implementations. The map is the list of its entries in increasing key order; two keys are the same
  key of the map when neither is less than the other, so the context does not count. It provides the
  full contract \<open>event_list_remove\<close>.
\<close>

type_synonym map_scheduler = "(event_key \<times> nat) list"

definition event_of :: "event_key \<times> nat \<Rightarrow> event" where
  "event_of p = \<lparr>ev_impl = snd p, ev_key = fst p\<rparr>"

text \<open>\<open>std::map::insert\<close>: the flag says whether an entry was added.\<close>

fun map_insert_entry :: "event_key \<Rightarrow> nat \<Rightarrow> map_scheduler \<Rightarrow> map_scheduler \<times> bool" where
  "map_insert_entry k i [] = ([(k, i)], True)"
| "map_insert_entry k i ((k', i') # m) =
     (if key_less k k' then ((k, i) # (k', i') # m, True)
      else if key_less k' k
      then let (m', b) = map_insert_entry k i m in ((k', i') # m', b)
      else ((k', i') # m, False))"

definition map_Insert :: "event \<Rightarrow> map_scheduler \<Rightarrow> map_scheduler option" where
  "map_Insert ev m =
     (let (m', added) = map_insert_entry (ev_key ev) (ev_impl ev) m in if added then Some m' else None)"

definition map_IsEmpty :: "map_scheduler \<Rightarrow> bool" where
  "map_IsEmpty m \<longleftrightarrow> m = []"

definition map_PeekNext :: "map_scheduler \<Rightarrow> event option" where
  "map_PeekNext m = (case m of [] \<Rightarrow> None | p # _ \<Rightarrow> Some (event_of p))"

definition map_RemoveNext :: "map_scheduler \<Rightarrow> (event \<times> map_scheduler) option" where
  "map_RemoveNext m = (case m of [] \<Rightarrow> None | p # m' \<Rightarrow> Some (event_of p, m'))"

text \<open>\<open>find\<close>, the assertion on the implementation, \<open>erase\<close>.\<close>

fun map_Remove :: "event \<Rightarrow> map_scheduler \<Rightarrow> map_scheduler option" where
  "map_Remove ev [] = None"
| "map_Remove ev ((k, i) # m) =
     (if \<not> key_less k (ev_key ev) \<and> \<not> key_less (ev_key ev) k
      then if i = ev_impl ev then Some m else None
      else map_option (\<lambda>m'. (k, i) # m') (map_Remove ev m))"

definition map_events :: "map_scheduler \<Rightarrow> event list" where
  "map_events m = map event_of m"

definition map_invar :: "map_scheduler \<Rightarrow> bool" where
  "map_invar m \<longleftrightarrow> sorted_wrt (<) (map rank (map_events m))"

lemma event_of_simps [simp]: "ev_impl (event_of p) = snd p" "ev_key (event_of p) = fst p"
  "event_of (ev_key e, ev_impl e) = e"
  by (simp_all add: event_of_def)

lemma key_less_event_of: "key_less (fst p) (fst q) \<longleftrightarrow> rank (event_of p) < rank (event_of q)"
  using key_less_rank [of "event_of p" "event_of q"] by simp

lemma map_insert_entry_events:
  "map_insert_entry k i m = (m', True) \<Longrightarrow>
     mset (map_events m') = add_mset (event_of (k, i)) (mset (map_events m))"
  by (induction k i m arbitrary: m' rule: map_insert_entry.induct)
    (fastforce simp: map_events_def split: if_splits prod.splits)+

lemma map_insert_entry_same:
  "map_insert_entry k i m = (m', False) \<Longrightarrow>
     m' = m \<and> (\<exists>p \<in> set m. rank (event_of p) = rank (event_of (k, i)))"
proof (induction k i m arbitrary: m' rule: map_insert_entry.induct)
  case (2 k i k' i' m)
  then show ?case
    using key_less_event_of [of "(k, i)" "(k', i')"] key_less_event_of [of "(k', i')" "(k, i)"]
    by (force split: if_splits prod.splits)
qed simp

lemma map_insert_entry_sorted:
  "map_insert_entry k i m = (m', b) \<Longrightarrow> map_invar m \<Longrightarrow> map_invar m'"
proof (induction k i m arbitrary: m' b rule: map_insert_entry.induct)
  case (2 k i k' i' m)
  note kl = key_less_event_of [of "(k, i)" "(k', i')"] key_less_event_of [of "(k', i')" "(k, i)"]
  show ?case
  proof (cases "\<not> key_less k k' \<and> key_less k' k")
    case True
    then obtain m1 b1 where m1: "map_insert_entry k i m = (m1, b1)"
      and m': "m' = (k', i') # m1" "b = b1"
      using "2.prems"(1) by (auto split: prod.splits)
    have inv: "map_invar m1"
      using 2 True m1 by (simp add: map_invar_def map_events_def)
    have "mset (map_events m1) \<subseteq># add_mset (event_of (k, i)) (mset (map_events m))"
      using map_insert_entry_events [of k i m m1] map_insert_entry_same [of k i m m1] m1
      by (cases b1) auto
    then have "set (map_events m1) \<subseteq> insert (event_of (k, i)) (set (map_events m))"
      by (metis set_mset_add_mset_insert set_mset_mono set_mset_mset)
    with inv True kl "2.prems"(2) m' show ?thesis
      by (fastforce simp: map_invar_def map_events_def)
  next
    case False
    with 2 kl show ?thesis
      by (fastforce simp: map_invar_def map_events_def split: if_splits intro: less_trans)
  qed
qed (auto simp: map_invar_def map_events_def)

lemma map_Remove_Some:
  "map_Remove ev m = Some m' \<Longrightarrow>
     \<exists>e. uid_of e = uid_of ev \<and> mset (map_events m) = add_mset e (mset (map_events m'))"
proof (induction ev m arbitrary: m' rule: map_Remove.induct)
  case (2 ev k i m)
  have "rank (event_of (k, i)) = rank ev \<Longrightarrow> m_uid k = uid_of ev"
    by (simp add: rank_def)
  then show ?case
    using 2 key_less_event_of [of "(k, i)" "(ev_key ev, ev_impl ev)"]
      key_less_event_of [of "(ev_key ev, ev_impl ev)" "(k, i)"]
    by (fastforce simp: map_events_def split: if_splits)
qed simp

lemma map_Remove_sorted: "map_Remove ev m = Some m' \<Longrightarrow> map_invar m \<Longrightarrow> map_invar m'"
proof (induction ev m arbitrary: m' rule: map_Remove.induct)
  case (2 ev k i m)
  show ?case
  proof (cases "\<not> key_less k (ev_key ev) \<and> \<not> key_less (ev_key ev) k")
    case True
    with 2 show ?thesis by (auto simp: map_invar_def map_events_def split: if_splits)
  next
    case False
    with 2 obtain m1 where m1: "map_Remove ev m = Some m1" "m' = (k, i) # m1" by auto
    have "set (map_events m1) \<subseteq> set (map_events m)"
      using map_Remove_Some [OF m1(1)] by (metis set_mset_mset set_mset_add_mset_insert subset_insertI)
    moreover have "map_invar m1"
      using 2 False m1 by (simp add: map_invar_def map_events_def)
    ultimately show ?thesis
      using "2.prems"(2) m1(2) by (fastforce simp: map_invar_def map_events_def)
  qed
qed simp

lemma map_Remove_present:
  "ev \<in> set (map_events m) \<Longrightarrow> map_invar m \<Longrightarrow> map_Remove ev m \<noteq> None"
proof (induction ev m rule: map_Remove.induct)
  case (2 ev k i m)
  show ?case
  proof (cases "event_of (k, i) = ev")
    case True
    then have "ev_key ev = k" "ev_impl ev = i" by auto
    then show ?thesis by (simp add: key_less_def)
  next
    case False
    then have "ev \<in> set (map_events m)"
      using "2.prems"(1) by (auto simp: map_events_def)
    moreover from this have "key_less k (ev_key ev)"
      using "2.prems"(2) key_less_event_of [of "(k, i)" "(ev_key ev, ev_impl ev)"]
      by (auto simp: map_invar_def map_events_def)
    ultimately show ?thesis
      using 2 by (auto simp: map_invar_def map_events_def)
  qed
qed (simp add: map_events_def)

interpretation map_sched: event_list_remove map_Insert map_IsEmpty map_PeekNext map_RemoveNext
  "\<lambda>m. mset (map_events m)" map_invar "[]" map_Remove
proof (unfold_locales, goal_cases)
  case 1 show ?case by (simp add: map_invar_def map_events_def)
next
  case 2 show ?case by (simp add: map_events_def)
next
  case (3 q ev q')
  then have m: "map_insert_entry (ev_key ev) (ev_impl ev) q = (q', True)"
    by (auto simp: map_Insert_def split: prod.splits if_splits)
  show ?case
    using map_insert_entry_sorted [OF m 3(1)] map_insert_entry_events [OF m] by simp
next
  case (4 q ev)
  obtain m' b where m: "map_insert_entry (ev_key ev) (ev_impl ev) q = (m', b)" by fastforce
  have b
  proof (rule ccontr)
    assume "\<not> b"
    with m obtain p where "p \<in> set q" "rank (event_of p) = rank ev"
      using map_insert_entry_same [of "ev_key ev" "ev_impl ev" q m'] by auto
    with 4(2) show False by (auto simp: map_events_def rank_def)
  qed
  with m show ?case by (simp add: map_Insert_def)
next
  case (5 q) show ?case by (simp add: map_IsEmpty_def map_events_def)
next
  case (6 q) then show ?case by (auto simp: map_RemoveNext_def map_events_def split: list.splits)
next
  case (7 q ev q') then show ?case
    by (auto simp: map_RemoveNext_def map_invar_def map_events_def less_imp_le split: list.splits)
next
  case (8 q) then show ?case
    by (auto simp: map_RemoveNext_def map_PeekNext_def map_events_def split: list.splits)
next
  case (9 q ev q') then show ?case using map_Remove_Some map_Remove_sorted by blast
next
  case (10 q ev) then show ?case using map_Remove_present by simp
qed

end
