(* ===== verification/HeapScheduler.thy ===== *)
theory HeapScheduler
  imports EventList
begin

text \<open>
  \<open>src/core/model/heap-scheduler.cc\<close>: a binary heap in a vector whose index 0 is wasted, so that
  the children of \<open>i\<close> are \<open>2 i\<close> and \<open>2 i + 1\<close>. \<open>Insert\<close>, \<open>PeekNext\<close> and \<open>RemoveNext\<close> keep the heap
  order and provide the contract \<open>event_list\<close>. \<open>Remove\<close> only sifts the moved element down; the
  last section shows that this is not enough.
\<close>

type_synonym heap_scheduler = "event list"

definition heap_dummy :: event where
  "heap_dummy = \<lparr>ev_impl = 0, ev_key = \<lparr>m_ts = 0, m_uid = 0, m_context = 0\<rparr>\<rparr>"

definition heap_new :: heap_scheduler where
  "heap_new = [heap_dummy]"

definition heap_Parent :: "nat \<Rightarrow> nat" where
  "heap_Parent i = i div 2"

definition heap_Sibling :: "nat \<Rightarrow> nat" where
  "heap_Sibling i = i + 1"

definition heap_LeftChild :: "nat \<Rightarrow> nat" where
  "heap_LeftChild i = i * 2"

definition heap_RightChild :: "nat \<Rightarrow> nat" where
  "heap_RightChild i = i * 2 + 1"

definition heap_Root :: nat where
  "heap_Root = 1"

definition heap_IsRoot :: "nat \<Rightarrow> bool" where
  "heap_IsRoot i \<longleftrightarrow> i = heap_Root"

definition heap_Last :: "heap_scheduler \<Rightarrow> nat" where
  "heap_Last h = length h - 1"

definition heap_IsBottom :: "nat \<Rightarrow> heap_scheduler \<Rightarrow> bool" where
  "heap_IsBottom i h \<longleftrightarrow> length h \<le> i"

definition heap_Exch :: "nat \<Rightarrow> nat \<Rightarrow> heap_scheduler \<Rightarrow> heap_scheduler" where
  "heap_Exch a b h = h[a := h ! b, b := h ! a]"

definition heap_IsLessStrictly :: "nat \<Rightarrow> nat \<Rightarrow> heap_scheduler \<Rightarrow> bool" where
  "heap_IsLessStrictly a b h \<longleftrightarrow> event_less (h ! a) (h ! b)"

definition heap_Smallest :: "nat \<Rightarrow> nat \<Rightarrow> heap_scheduler \<Rightarrow> nat" where
  "heap_Smallest a b h = (if heap_IsLessStrictly a b h then a else b)"

definition heap_IsEmpty :: "heap_scheduler \<Rightarrow> bool" where
  "heap_IsEmpty h \<longleftrightarrow> length h = 1"

lemmas heap_index_defs = heap_Parent_def heap_LeftChild_def heap_RightChild_def heap_Root_def
  heap_IsRoot_def heap_Last_def heap_IsBottom_def heap_Smallest_def heap_IsLessStrictly_def

text \<open>The loop of \<open>BottomUp\<close>, from an index that starts at the last one.\<close>

function heap_BottomUp_from :: "nat \<Rightarrow> heap_scheduler \<Rightarrow> heap_scheduler" where
  "heap_BottomUp_from index h =
     (if \<not> heap_IsRoot index \<and> heap_IsLessStrictly index (heap_Parent index) h
      then heap_BottomUp_from (heap_Parent index) (heap_Exch index (heap_Parent index) h)
      else h)"
  by pat_completeness auto
termination
proof (relation "measure fst", goal_cases)
  case (2 index h)
  then have "index \<noteq> 0"
    by (cases "index = 0") (auto simp: heap_index_defs event_less_rank)
  then show ?case by (simp add: heap_Parent_def)
qed simp

definition heap_BottomUp :: "heap_scheduler \<Rightarrow> heap_scheduler" where
  "heap_BottomUp h = heap_BottomUp_from (heap_Last h) h"

text \<open>
  \<open>TopDown\<close>. It is called with an index of at least 1 (with 0, the wasted slot, the loop of the code
  would not end: the first line is there for the recursion only).
\<close>

function heap_TopDown :: "nat \<Rightarrow> heap_scheduler \<Rightarrow> heap_scheduler" where
  "heap_TopDown index h =
     (if index = 0 then h
      else let right = heap_RightChild index; left = heap_LeftChild index in
        if \<not> heap_IsBottom right h then
          (let tmp = heap_Smallest left right h in
             if heap_IsLessStrictly index tmp h then h
             else heap_TopDown tmp (heap_Exch index tmp h))
        else if heap_IsBottom index h then h
        else if heap_IsBottom left h then h
        else if heap_IsLessStrictly index left h then h
        else heap_Exch index left h)"
  by pat_completeness auto
termination
  by (relation "measure (\<lambda>(i, h). length h - i)") (auto simp: heap_index_defs heap_Exch_def)

declare heap_BottomUp_from.simps [simp del] heap_TopDown.simps [simp del]

definition heap_Insert :: "event \<Rightarrow> heap_scheduler \<Rightarrow> heap_scheduler" where
  "heap_Insert ev h = heap_BottomUp (h @ [ev])"

definition heap_PeekNext :: "heap_scheduler \<Rightarrow> event option" where
  "heap_PeekNext h = (if heap_Root < length h then Some (h ! heap_Root) else None)"

definition heap_RemoveNext :: "heap_scheduler \<Rightarrow> (event \<times> heap_scheduler) option" where
  "heap_RemoveNext h =
     (if heap_Root < length h
      then Some (h ! heap_Root,
                 heap_TopDown heap_Root (butlast (heap_Exch heap_Root (heap_Last h) h)))
      else None)"

text \<open>The loop of \<open>Remove\<close> over the indices from 1 on; past the end it asserts.\<close>

function heap_Remove_from :: "nat \<Rightarrow> event \<Rightarrow> heap_scheduler \<Rightarrow> heap_scheduler option" where
  "heap_Remove_from i ev h =
     (if i < length h then
        (if uid_of ev = uid_of (h ! i) then
           (if ev_impl (h ! i) = ev_impl ev
            then Some (heap_TopDown i (butlast (heap_Exch i (heap_Last h) h))) else None)
         else heap_Remove_from (i + 1) ev h)
      else None)"
  by pat_completeness auto
termination
  by (relation "measure (\<lambda>(i, ev, h). length h - i)") auto

declare heap_Remove_from.simps [simp del]

definition heap_Remove :: "event \<Rightarrow> heap_scheduler \<Rightarrow> heap_scheduler option" where
  "heap_Remove ev h = heap_Remove_from 1 ev h"

section \<open>The heap order\<close>

definition heap_ordered :: "heap_scheduler \<Rightarrow> bool" where
  "heap_ordered h \<longleftrightarrow> (\<forall>j. 2 \<le> j \<longrightarrow> j < length h \<longrightarrow> rank (h ! (j div 2)) \<le> rank (h ! j))"

definition heap_invar :: "heap_scheduler \<Rightarrow> bool" where
  "heap_invar h \<longleftrightarrow> h \<noteq> [] \<and> heap_ordered h"

definition heap_events :: "heap_scheduler \<Rightarrow> event multiset" where
  "heap_events h = mset (tl h)"

text \<open>While an element moves, the order holds but at one index: upwards (the element may be smaller
  than its parent) or downwards (it may be larger than its children).\<close>

definition ordered_but_up :: "nat \<Rightarrow> heap_scheduler \<Rightarrow> bool" where
  "ordered_but_up i h \<longleftrightarrow>
     (\<forall>j. 2 \<le> j \<longrightarrow> j < length h \<longrightarrow> j \<noteq> i \<longrightarrow> rank (h ! (j div 2)) \<le> rank (h ! j)) \<and>
     (\<forall>j. 2 \<le> j \<longrightarrow> j < length h \<longrightarrow> j div 2 = i \<longrightarrow> 2 \<le> i \<longrightarrow> rank (h ! (i div 2)) \<le> rank (h ! j))"

definition ordered_but_down :: "nat \<Rightarrow> heap_scheduler \<Rightarrow> bool" where
  "ordered_but_down i h \<longleftrightarrow>
     (\<forall>j. 2 \<le> j \<longrightarrow> j < length h \<longrightarrow> j div 2 \<noteq> i \<longrightarrow> rank (h ! (j div 2)) \<le> rank (h ! j)) \<and>
     (\<forall>j. 2 \<le> j \<longrightarrow> j < length h \<longrightarrow> j div 2 = i \<longrightarrow> 2 \<le> i \<longrightarrow> rank (h ! (i div 2)) \<le> rank (h ! j))"

lemma length_heap_Exch [simp]: "length (heap_Exch a b h) = length h"
  by (simp add: heap_Exch_def)

lemma heap_Exch_nth:
  "a < length h \<Longrightarrow> b < length h \<Longrightarrow>
     heap_Exch a b h ! j = (if j = a then h ! b else if j = b then h ! a else h ! j)"
  by (auto simp: heap_Exch_def nth_list_update)

lemma heap_events_Exch:
  assumes "1 \<le> a" "1 \<le> b" "a < length h" "b < length h"
  shows "heap_events (heap_Exch a b h) = heap_events h"
proof -
  obtain x t where h: "h = x # t" using assms by (cases h) auto
  then have "heap_Exch a b h = x # t[a - 1 := t ! (b - 1), b - 1 := t ! (a - 1)]"
    using assms by (cases a; cases b) (auto simp: heap_Exch_def)
  then show ?thesis
    using assms h by (simp add: heap_events_def mset_swap)
qed

lemma heap_Exch_up:
  assumes "ordered_but_up i h" "2 \<le> i" "i < length h" "rank (h ! i) < rank (h ! (i div 2))"
  shows "ordered_but_up (i div 2) (heap_Exch i (i div 2) h)"
proof -
  let ?p = "i div 2" and ?g = "heap_Exch i (i div 2) h"
  have p: "?p < i" "1 \<le> ?p" using assms(2) by auto
  have nth: "?g ! j = (if j = i then h ! ?p else if j = ?p then h ! i else h ! j)" for j
    using heap_Exch_nth [of i h ?p j] assms(3) p by simp
  have up: "rank (h ! (j div 2)) \<le> rank (h ! j)" if "2 \<le> j" "j < length h" "j \<noteq> i" for j
    using assms(1) that by (simp add: ordered_but_up_def)
  have ch: "rank (h ! ?p) \<le> rank (h ! j)" if "2 \<le> j" "j < length h" "j div 2 = i" for j
    using assms(1,2) that by (simp add: ordered_but_up_def)
  show ?thesis
    unfolding ordered_but_up_def
  proof (intro conjI allI impI)
    fix j assume j: "2 \<le> j" "j < length ?g" "j \<noteq> ?p"
    show "rank (?g ! (j div 2)) \<le> rank (?g ! j)"
      using up [of j] ch [of j] j assms(4) p by (auto simp: nth intro: order_trans less_imp_le)
  next
    fix j assume j: "2 \<le> j" "j < length ?g" "j div 2 = ?p" "2 \<le> ?p"
    have q: "rank (h ! (?p div 2)) \<le> rank (h ! ?p)"
      using up [of ?p] j p assms(3) by simp
    have "?p div 2 \<noteq> i" "?p div 2 \<noteq> ?p" using p j by auto
    then show "rank (?g ! (?p div 2)) \<le> rank (?g ! j)"
      using up [of j] j q p by (auto simp: nth intro: order_trans)
  qed
qed

lemma heap_BottomUp_from_props:
  assumes "ordered_but_up i h" "1 \<le> i" "i < length h"
  shows "heap_ordered (heap_BottomUp_from i h)
    \<and> heap_events (heap_BottomUp_from i h) = heap_events h
    \<and> length (heap_BottomUp_from i h) = length h"
  using assms
proof (induction i h rule: heap_BottomUp_from.induct)
  case (1 i h)
  show ?case
  proof (cases "\<not> heap_IsRoot i \<and> heap_IsLessStrictly i (heap_Parent i) h")
    case True
    then have i: "2 \<le> i" "rank (h ! i) < rank (h ! (i div 2))"
      using "1.prems" by (auto simp: heap_index_defs event_less_rank)
    have "ordered_but_up (i div 2) (heap_Exch i (i div 2) h)"
      using "1.prems" i by (intro heap_Exch_up) auto
    then show ?thesis
      using 1 True i heap_events_Exch [of i "i div 2" h]
      by (subst (1 2 3) heap_BottomUp_from.simps) (auto simp: heap_Parent_def)
  next
    case False
    have "heap_ordered h"
      unfolding heap_ordered_def
    proof (intro allI impI)
      fix j assume j: "2 \<le> j" "j < length h"
      show "rank (h ! (j div 2)) \<le> rank (h ! j)"
        using False "1.prems" j
        by (cases "j = i") (auto simp: heap_index_defs event_less_rank not_less ordered_but_up_def)
    qed
    moreover have "heap_BottomUp_from i h = h"
      using False by (subst heap_BottomUp_from.simps) auto
    ultimately show ?thesis by simp
  qed
qed

lemma heap_Exch_down:
  assumes "ordered_but_down i h" "1 \<le> i" "c div 2 = i" "2 \<le> c" "c < length h"
    and least: "\<And>j. 2 \<le> j \<Longrightarrow> j < length h \<Longrightarrow> j div 2 = i \<Longrightarrow> rank (h ! c) \<le> rank (h ! j)"
    and le: "rank (h ! c) \<le> rank (h ! i)"
  shows "ordered_but_down c (heap_Exch i c h)"
proof -
  let ?g = "heap_Exch i c h"
  have ic: "i < c" "i < length h" using assms(2-5) by auto
  have nth: "?g ! j = (if j = i then h ! c else if j = c then h ! i else h ! j)" for j
    using heap_Exch_nth [of i h c j] ic assms(5) by simp
  have dn: "rank (h ! (j div 2)) \<le> rank (h ! j)" if "2 \<le> j" "j < length h" "j div 2 \<noteq> i" for j
    using assms(1) that by (simp add: ordered_but_down_def)
  have gp: "rank (h ! (i div 2)) \<le> rank (h ! j)" if "2 \<le> j" "j < length h" "j div 2 = i" "2 \<le> i" for j
    using assms(1) that by (simp add: ordered_but_down_def)
  show ?thesis
    unfolding ordered_but_down_def
  proof (intro conjI allI impI)
    fix j assume j: "2 \<le> j" "j < length ?g" "j div 2 \<noteq> c"
    show "rank (?g ! (j div 2)) \<le> rank (?g ! j)"
    proof (cases "j div 2 = i")
      case True
      then have "j \<noteq> i" using j by auto
      with True j least [of j] le show ?thesis by (auto simp: nth)
    next
      case False
      with j dn [of j] have "rank (h ! (j div 2)) \<le> rank (h ! j)" by simp
      moreover have "j \<noteq> c" using False assms(3) by auto
      moreover have "rank (h ! (i div 2)) \<le> rank (h ! c)" if "j = i"
        using gp [of c] that j assms by simp
      ultimately show ?thesis using False j by (auto simp: nth)
    qed
  next
    fix j assume j: "2 \<le> j" "j < length ?g" "j div 2 = c" "2 \<le> c"
    have "rank (h ! c) \<le> rank (h ! j)" using dn [of j] j ic by simp
    moreover have "j \<noteq> i" "j \<noteq> c" using j ic by auto
    ultimately show "rank (?g ! (c div 2)) \<le> rank (?g ! j)"
      using assms(3) by (simp add: nth)
  qed
qed

lemma ordered_but_down_done:
  assumes "ordered_but_down i h"
    and "\<And>j. 2 \<le> j \<Longrightarrow> j < length h \<Longrightarrow> j div 2 = i \<Longrightarrow> rank (h ! i) \<le> rank (h ! j)"
  shows "heap_ordered h"
  using assms unfolding ordered_but_down_def heap_ordered_def by blast

lemma child_cases: "2 \<le> (j :: nat) \<Longrightarrow> j div 2 = i \<Longrightarrow> j = i * 2 \<or> j = i * 2 + 1"
  by arith

lemma heap_TopDown_props:
  assumes "ordered_but_down i h" "1 \<le> i"
  shows "heap_ordered (heap_TopDown i h)
    \<and> heap_events (heap_TopDown i h) = heap_events h
    \<and> length (heap_TopDown i h) = length h"
  using assms
proof (induction i h rule: heap_TopDown.induct)
  case (1 i h)
  let ?l = "i * 2" and ?r = "i * 2 + 1"
  consider (two) "?r < length h" | (one) "?r = length h" | (none) "length h \<le> ?l"
    using not_less by linarith
  then show ?case
  proof cases
    case two
    let ?t = "heap_Smallest ?l ?r h"
    have t: "?t div 2 = i" "2 \<le> ?t" "?t < length h"
      using two "1.prems"(2) by (auto simp: heap_Smallest_def)
    have least: "rank (h ! ?t) \<le> rank (h ! j)" if "2 \<le> j" "j div 2 = i" for j
      using child_cases [OF that]
      by (auto simp: heap_Smallest_def heap_IsLessStrictly_def event_less_rank)
    show ?thesis
    proof (cases "heap_IsLessStrictly i ?t h")
      case True
      then have "rank (h ! i) \<le> rank (h ! j)" if "2 \<le> j" "j div 2 = i" for j
        using least [OF that] by (auto simp: heap_IsLessStrictly_def event_less_rank)
      then have "heap_ordered h"
        using ordered_but_down_done [OF "1.prems"(1)] by blast
      with True two "1.prems"(2) show ?thesis
        by (simp add: heap_TopDown.simps [of i h] heap_IsBottom_def heap_RightChild_def
            heap_LeftChild_def Let_def)
    next
      case False
      have "ordered_but_down ?t (heap_Exch i ?t h)"
        using 1 False t least
        by (intro heap_Exch_down) (auto simp: heap_IsLessStrictly_def event_less_rank not_less)
      moreover have "heap_TopDown i h = heap_TopDown ?t (heap_Exch i ?t h)"
        using False two "1.prems"(2)
        by (simp add: heap_TopDown.simps [of i h] heap_IsBottom_def heap_RightChild_def
            heap_LeftChild_def Let_def)
      moreover have "heap_events (heap_Exch i ?t h) = heap_events h"
        using t "1.prems"(2) by (intro heap_events_Exch) auto
      ultimately show ?thesis
        using 1 False two t
        by (simp add: heap_IsBottom_def heap_RightChild_def heap_LeftChild_def)
    qed
  next
    case one
    have only: "j = ?l" if "2 \<le> j" "j < length h" "j div 2 = i" for j
      using child_cases [OF that(1,3)] that(2) one by auto
    have eq: "heap_TopDown i h = (if heap_IsLessStrictly i ?l h then h else heap_Exch i ?l h)"
      using one "1.prems"(2)
      by (simp add: heap_TopDown.simps [of i h] heap_IsBottom_def heap_RightChild_def
          heap_LeftChild_def Let_def)
    show ?thesis
    proof (cases "heap_IsLessStrictly i ?l h")
      case True
      then have "rank (h ! i) \<le> rank (h ! ?l)"
        by (simp add: heap_IsLessStrictly_def event_less_rank less_imp_le)
      then have "rank (h ! i) \<le> rank (h ! j)" if "2 \<le> j" "j < length h" "j div 2 = i" for j
        using only [OF that] by simp
      then have "heap_ordered h"
        using ordered_but_down_done [OF "1.prems"(1)] by blast
      with True eq show ?thesis by simp
    next
      case False
      have "ordered_but_down ?l (heap_Exch i ?l h)"
      proof (rule heap_Exch_down [OF "1.prems"])
        show "rank (h ! ?l) \<le> rank (h ! j)" if "2 \<le> j" "j < length h" "j div 2 = i" for j
          using only [OF that] by simp
        show "rank (h ! ?l) \<le> rank (h ! i)"
          using False by (simp add: heap_IsLessStrictly_def event_less_rank not_less)
      qed (use one "1.prems"(2) in auto)
      moreover have "\<not> (j < length h \<and> j div 2 = ?l)" for j
        using one "1.prems"(2) by auto
      ultimately have "heap_ordered (heap_Exch i ?l h)"
        by (intro ordered_but_down_done) auto
      with False eq show ?thesis
        using one "1.prems"(2) heap_events_Exch [of i ?l h] by simp
    qed
  next
    case none
    have "heap_TopDown i h = h"
      using none "1.prems"(2)
      by (simp add: heap_TopDown.simps [of i h] heap_IsBottom_def heap_RightChild_def
          heap_LeftChild_def Let_def)
    moreover have "heap_ordered h"
      using none by (intro ordered_but_down_done [OF "1.prems"(1)]) auto
    ultimately show ?thesis by simp
  qed
qed

lemma heap_root_least:
  "heap_ordered h \<Longrightarrow> 1 \<le> j \<Longrightarrow> j < length h \<Longrightarrow> rank (h ! 1) \<le> rank (h ! j)"
proof (induction j rule: less_induct)
  case (less j)
  show ?case
  proof (cases "j = 1")
    case False
    with less.prems have j: "2 \<le> j" by simp
    then have "rank (h ! 1) \<le> rank (h ! (j div 2))"
      using less by auto
    also have "\<dots> \<le> rank (h ! j)"
      using less.prems j by (simp add: heap_ordered_def)
    finally show ?thesis .
  qed simp
qed

lemma in_heap_events:
  "e \<in># heap_events h \<longleftrightarrow> (\<exists>j. 1 \<le> j \<and> j < length h \<and> h ! j = e)"
proof (cases h)
  case (Cons x t)
  show ?thesis
  proof
    assume "e \<in># heap_events h"
    then obtain i where "i < length t" "t ! i = e"
      using Cons by (auto simp: heap_events_def in_set_conv_nth)
    then have "1 \<le> Suc i \<and> Suc i < length h \<and> h ! Suc i = e"
      using Cons by simp
    then show "\<exists>j. 1 \<le> j \<and> j < length h \<and> h ! j = e" by blast
  next
    assume "\<exists>j. 1 \<le> j \<and> j < length h \<and> h ! j = e"
    then obtain j where "1 \<le> j" "j < length h" "h ! j = e" by blast
    then have "e \<in> set t"
      using Cons by (cases j) auto
    then show "e \<in># heap_events h"
      using Cons by (simp add: heap_events_def)
  qed
qed (simp add: heap_events_def)

lemma heap_Insert_props:
  assumes "heap_invar h"
  shows "heap_invar (heap_Insert ev h) \<and> heap_events (heap_Insert ev h) = add_mset ev (heap_events h)"
proof -
  let ?h = "h @ [ev]"
  have h: "1 \<le> length h" using assms by (cases h) (auto simp: heap_invar_def)
  have "ordered_but_up (length h) ?h"
    using assms by (auto simp: ordered_but_up_def heap_invar_def heap_ordered_def nth_append)
  from heap_BottomUp_from_props [OF this h] have
    "heap_ordered (heap_Insert ev h)" "heap_events (heap_Insert ev h) = heap_events ?h"
    "length (heap_Insert ev h) = Suc (length h)"
    by (simp_all add: heap_Insert_def heap_BottomUp_def heap_Last_def)
  moreover have "heap_events ?h = add_mset ev (heap_events h)"
    using h by (cases h) (auto simp: heap_events_def)
  ultimately show ?thesis by (auto simp: heap_invar_def)
qed

lemma heap_butlast_Exch_events:
  assumes "1 \<le> i" "i < length h"
  shows "heap_events h = add_mset (h ! i) (heap_events (butlast (heap_Exch i (heap_Last h) h)))"
proof -
  let ?g = "heap_Exch i (heap_Last h) h"
  have l: "1 \<le> heap_Last h" "heap_Last h < length h"
    using assms by (auto simp: heap_Last_def)
  have "heap_events h = heap_events ?g"
    using heap_events_Exch [OF assms(1) l(1) assms(2) l(2)] by simp
  also have "heap_events ?g = add_mset (last ?g) (heap_events (butlast ?g))"
  proof -
    have "tl ?g \<noteq> []" using assms by (cases ?g) (auto dest: arg_cong [where f = length])
    then have "mset (tl ?g) = add_mset (last (tl ?g)) (mset (butlast (tl ?g)))"
      by (metis append_butlast_last_id mset_append mset_single_iff_right add_mset_add_single
          mset.simps(1) mset.simps(2))
    with \<open>tl ?g \<noteq> []\<close> show ?thesis
      by (simp add: heap_events_def last_tl butlast_tl)
  qed
  also have "last ?g = h ! i"
  proof -
    have "?g \<noteq> []"
      using assms by (metis length_heap_Exch list.size(3) not_less_zero)
    then show ?thesis
      using assms l heap_Exch_nth [OF assms(2) l(2), of "heap_Last h"]
      by (simp add: last_conv_nth) (auto simp: heap_Last_def)
  qed
  finally show ?thesis .
qed

lemma heap_RemoveNext_props:
  assumes "heap_invar h" "heap_RemoveNext h = Some (ev, h')"
  shows "heap_invar h' \<and> heap_events h = add_mset ev (heap_events h')
    \<and> (\<forall>e \<in># heap_events h. rank ev \<le> rank e)"
proof -
  let ?g = "butlast (heap_Exch 1 (heap_Last h) h)"
  have h: "1 < length h" and ev: "ev = h ! 1" and h': "h' = heap_TopDown 1 ?g"
    using assms(2) by (auto simp: heap_RemoveNext_def heap_Root_def split: if_splits)
  have ord: "heap_ordered h" using assms(1) by (simp add: heap_invar_def)
  have nth: "?g ! j = h ! j" if "2 \<le> j" "j < length ?g" for j
    using that h heap_Exch_nth [of 1 h "heap_Last h" j] by (simp add: nth_butlast heap_Last_def)
  have "ordered_but_down 1 ?g"
    unfolding ordered_but_down_def
  proof (intro conjI allI impI)
    fix j assume j: "2 \<le> j" "j < length ?g" "j div 2 \<noteq> 1"
    then have "2 \<le> j div 2" "j div 2 < length ?g" by auto
    with j ord nth [of j] nth [of "j div 2"] show "rank (?g ! (j div 2)) \<le> rank (?g ! j)"
      by (simp add: heap_ordered_def)
  qed simp
  from heap_TopDown_props [OF this] have
    "heap_ordered h'" "heap_events h' = heap_events ?g" "length h' = length ?g"
    by (simp_all add: h')
  moreover have "heap_events h = add_mset ev (heap_events ?g)"
    using heap_butlast_Exch_events [of 1 h] h ev by simp
  moreover have "\<forall>e \<in># heap_events h. rank ev \<le> rank e"
    using heap_root_least [OF ord] ev by (auto simp: in_heap_events)
  ultimately show ?thesis
    using h by (auto simp: heap_invar_def)
qed

interpretation heap_sched: event_list heap_new "\<lambda>ev h. Some (heap_Insert ev h)" heap_IsEmpty
  heap_PeekNext heap_RemoveNext heap_events heap_invar
proof (unfold_locales, goal_cases)
  case 1 show ?case by (simp add: heap_invar_def heap_ordered_def heap_new_def)
next
  case 2 show ?case by (simp add: heap_events_def heap_new_def)
next
  case (3 q ev q') then show ?case using heap_Insert_props by auto
next
  case (4 q ev) show ?case by simp
next
  case (5 q) then show ?case by (cases q) (auto simp: heap_IsEmpty_def heap_invar_def heap_events_def)
next
  case (6 q) then show ?case
    by (cases q) (auto simp: heap_RemoveNext_def heap_Root_def heap_invar_def heap_events_def)
next
  case (7 q ev q') then show ?case by (rule heap_RemoveNext_props)
next
  case (8 q) then show ?case by (simp add: heap_PeekNext_def heap_RemoveNext_def)
qed

section \<open>Remove\<close>

lemma heap_TopDown_events:
  "1 \<le> i \<Longrightarrow> heap_events (heap_TopDown i h) = heap_events h
    \<and> length (heap_TopDown i h) = length h"
proof (induction i h rule: heap_TopDown.induct)
  case (1 i h)
  let ?l = "i * 2" and ?r = "i * 2 + 1"
  have t: "heap_Smallest ?l ?r h \<in> {?l, ?r}"
    by (simp add: heap_Smallest_def)
  show ?case
    using 1 t heap_events_Exch [of i ?l h] heap_events_Exch [of i ?r h]
    by (subst (1 2) heap_TopDown.simps)
      (auto simp: heap_IsBottom_def heap_RightChild_def heap_LeftChild_def Let_def)
qed

lemma heap_Remove_from_Some:
  "heap_Remove_from i ev h = Some h' \<Longrightarrow> 1 \<le> i \<Longrightarrow>
     \<exists>j. i \<le> j \<and> j < length h \<and> uid_of (h ! j) = uid_of ev \<and> ev_impl (h ! j) = ev_impl ev
       \<and> h' = heap_TopDown j (butlast (heap_Exch j (heap_Last h) h))"
proof (induction i ev h rule: heap_Remove_from.induct)
  case (1 i ev h)
  show ?case
  proof (cases "i < length h \<and> uid_of ev \<noteq> uid_of (h ! i)")
    case True
    then have "heap_Remove_from (i + 1) ev h = Some h'"
      using "1.prems"(1) by (simp add: heap_Remove_from.simps [of i])
    from "1.IH" [OF _ _ this] True obtain j where
      "i + 1 \<le> j \<and> j < length h \<and> uid_of (h ! j) = uid_of ev \<and> ev_impl (h ! j) = ev_impl ev
       \<and> h' = heap_TopDown j (butlast (heap_Exch j (heap_Last h) h))" by auto
    then show ?thesis by (intro exI [of _ j]) auto
  next
    case False
    with "1.prems"(1) show ?thesis
      by (intro exI [of _ i]) (auto simp: heap_Remove_from.simps [of i] split: if_splits)
  qed
qed

end
