(* ===== verification/SchedulerChoice.thy ===== *)
theory SchedulerChoice
  imports ListScheduler MapScheduler HeapScheduler
begin

text \<open>
  What the three event lists promise together: the choice of \<open>SchedulerType\<close> does not change the
  order of a simulation, except through \<open>HeapScheduler::Remove\<close>.
\<close>

text \<open>Whatever the order in which events with distinct ids are inserted, the list, the map and
  the heap scheduler accept them all and give them back in the same order: by time stamp, and by id
  among events of the same time.\<close>

theorem schedulers_same_order:
  assumes "distinct (map uid_of evs)"
  shows "(\<exists>q. insert_events (\<lambda>ev q. Some (list_Insert ev q)) evs [] = Some q
            \<and> drain list_RemoveNext (length evs) q = sort_key rank evs)
    \<and> (\<exists>q. insert_events map_Insert evs [] = Some q
            \<and> drain map_RemoveNext (length evs) q = sort_key rank evs)
    \<and> (\<exists>q. insert_events (\<lambda>ev q. Some (heap_Insert ev q)) evs heap_new = Some q
            \<and> drain heap_RemoveNext (length evs) q = sort_key rank evs)"
  using list_sched.insert_events_drain [OF assms] map_sched.insert_events_drain [OF assms]
    heap_sched.insert_events_drain [OF assms] by blast

definition mk_event :: "u64 \<Rightarrow> u32 \<Rightarrow> event" where
  "mk_event ts uid = \<lparr>ev_impl = unat uid, ev_key = \<lparr>m_ts = ts, m_uid = uid, m_context = 0\<rparr>\<rparr>"

theorem schedulers_same_order_witness:
  "\<exists>q. insert_events map_Insert [mk_event 7 4, mk_event 3 5, mk_event 3 6] [] = Some q
     \<and> drain map_RemoveNext 3 q = [mk_event 3 5, mk_event 3 6, mk_event 7 4]"
proof -
  have "sort_key rank [mk_event 7 4, mk_event 3 5, mk_event 3 6]
      = [mk_event 3 5, mk_event 3 6, mk_event 7 4]"
    by (simp add: rank_def mk_event_def)
  moreover have "distinct (map uid_of [mk_event 7 4, mk_event 3 5, mk_event 3 6])"
    by (simp add: mk_event_def)
  ultimately show ?thesis
    using schedulers_same_order [of "[mk_event 7 4, mk_event 3 5, mk_event 3 6]"]
    by (simp add: numeral_3_eq_3 del: insert_events.simps drain.simps)
qed

text \<open>\<open>HeapScheduler::Remove\<close> takes out exactly one event with the id it was given and loses or
  duplicates no other.\<close>

theorem heap_Remove_contents:
  assumes "heap_Remove ev h = Some h'"
  shows "\<exists>e. uid_of e = uid_of ev \<and> ev_impl e = ev_impl ev \<and> heap_events h = add_mset e (heap_events h')"
proof -
  obtain j where j: "1 \<le> j" "j < length h" "uid_of (h ! j) = uid_of ev" "ev_impl (h ! j) = ev_impl ev"
    and h': "h' = heap_TopDown j (butlast (heap_Exch j (heap_Last h) h))"
    using heap_Remove_from_Some [of 1 ev h h'] assms by (auto simp: heap_Remove_def)
  have "heap_events h' = heap_events (butlast (heap_Exch j (heap_Last h) h))"
    unfolding h' using heap_TopDown_events j(1) by blast
  then show ?thesis
    using heap_butlast_Exch_events [OF j(1,2)] j(3,4) by auto
qed

text \<open>Seven events in an order of insertion that moves nothing; the fourth is then removed.\<close>

definition heap_sample_events :: "event list" where
  "heap_sample_events =
     [mk_event 1 4, mk_event 10 5, mk_event 2 6, mk_event 11 7, mk_event 12 8, mk_event 5 9, mk_event 4 10]"

definition heap_sample :: heap_scheduler where
  "heap_sample = fold heap_Insert heap_sample_events heap_new"

definition heap_sample_removed :: heap_scheduler where
  "heap_sample_removed = [heap_dummy, mk_event 1 4, mk_event 10 5, mk_event 2 6, mk_event 4 10,
     mk_event 12 8, mk_event 5 9]"

lemma heap_sample_Remove: "heap_Remove (mk_event 11 7) heap_sample = Some heap_sample_removed"
  by code_simp

theorem heap_Remove_contents_witness:
  "\<exists>e. uid_of e = 7 \<and> ev_impl e = 7
     \<and> heap_events heap_sample = add_mset e (heap_events heap_sample_removed)"
  using heap_Remove_contents [OF heap_sample_Remove] by (simp add: mk_event_def)

text \<open>C24: \<open>HeapScheduler::Remove\<close> does not keep the heap order: it moves the last event into the
  hole and only sifts it down, so an event that is earlier than its new parent stays below it. Here
  the heap is built by seven insertions and one event is removed; the events that remain then come
  out as 1, 2, 5, 4, 10, 12: the event of time 4 after the event of time 5, where the list scheduler
  gives them in order.\<close>

theorem heap_Remove_breaks_order:
  "\<exists>evs ev h h' l'. distinct (map uid_of evs) \<and> ev \<in> set evs
     \<and> insert_events (\<lambda>ev h. Some (heap_Insert ev h)) evs heap_new = Some h \<and> heap_invar h
     \<and> heap_Remove ev h = Some h' \<and> \<not> heap_invar h'
     \<and> list_Remove ev (fold list_Insert evs []) = Some l'
     \<and> map (unat \<circ> ts_of) (drain list_RemoveNext 6 l') = [1, 2, 4, 5, 10, 12]
     \<and> map (unat \<circ> ts_of) (drain heap_RemoveNext 6 h') = [1, 2, 5, 4, 10, 12]"
proof -
  let ?evs = heap_sample_events and ?ev = "mk_event 11 7" and ?h' = heap_sample_removed
  define l' where "l' = [mk_event 1 4, mk_event 2 6, mk_event 4 10, mk_event 5 9, mk_event 10 5,
    mk_event 12 8]"
  have "distinct (map uid_of ?evs) \<and> ?ev \<in> set ?evs"
    by (simp add: heap_sample_events_def mk_event_def)
  moreover have ins: "insert_events (\<lambda>ev h. Some (heap_Insert ev h)) ?evs heap_new = Some heap_sample"
    by (simp add: insert_events_total heap_sample_def)
  moreover have "heap_invar heap_sample"
    using heap_sched.insert_events_mset [OF heap_sched.invar_empty, of ?evs] calculation
    by (auto simp: heap_sched.events_empty)
  moreover have "\<not> heap_invar ?h'"
  proof
    assume "heap_invar ?h'"
    then have "4 < length ?h' \<Longrightarrow> rank (?h' ! (4 div 2)) \<le> rank (?h' ! 4)"
      unfolding heap_invar_def heap_ordered_def by (elim conjE allE [of _ 4]) simp
    then show False
      by (simp add: heap_sample_removed_def rank_def mk_event_def)
  qed
  moreover have "list_Remove ?ev (fold list_Insert ?evs []) = Some l'"
    unfolding l'_def by code_simp
  moreover have "map (unat \<circ> ts_of) (drain list_RemoveNext 6 l') = [1, 2, 4, 5, 10, 12]"
    unfolding l'_def by code_simp
  moreover have "map (unat \<circ> ts_of) (drain heap_RemoveNext 6 ?h') = [1, 2, 5, 4, 10, 12]"
    by code_simp
  ultimately show ?thesis
    using heap_sample_Remove
    by (intro exI [of _ ?evs] exI [of _ ?ev] exI [of _ heap_sample] exI [of _ ?h'] exI [of _ l'])
      (elim conjE, intro conjI, assumption+)
qed

end
