(* ===== verification/PriorityQueueScheduler.thy ===== *)
theory PriorityQueueScheduler
  imports EventList
begin

text \<open>
  \<open>src/core/model/priority-queue-scheduler.cc\<close>: the event list as a \<open>std::priority_queue\<close> over a
  vector, ordered by \<open>std::greater<>\<close>, with a \<open>remove\<close> of its own. The standard fixes which element
  is on top, not how the vector is arranged below it: the model keeps the elements in the order of
  insertion and looks for the least one. The contract \<open>event_list_remove\<close> is proved except that
  \<open>Remove\<close> of an absent event is silent here.
\<close>

type_synonym pq_scheduler = "event list"

definition pq_Insert :: "event \<Rightarrow> pq_scheduler \<Rightarrow> pq_scheduler" where
  "pq_Insert ev q = q @ [ev]"

definition pq_IsEmpty :: "pq_scheduler \<Rightarrow> bool" where
  "pq_IsEmpty q \<longleftrightarrow> q = []"

text \<open>\<open>top\<close>: an element than which no other is smaller; calling it on an empty queue is undefined.\<close>

fun pq_top :: "pq_scheduler \<Rightarrow> event option" where
  "pq_top [] = None"
| "pq_top (e # q) =
     (case pq_top q of None \<Rightarrow> Some e | Some f \<Rightarrow> Some (if event_less f e then f else e))"

definition pq_PeekNext :: "pq_scheduler \<Rightarrow> event option" where
  "pq_PeekNext q = pq_top q"

definition pq_RemoveNext :: "pq_scheduler \<Rightarrow> (event \<times> pq_scheduler) option" where
  "pq_RemoveNext q = (case pq_top q of None \<Rightarrow> None | Some e \<Rightarrow> Some (e, remove1 e q))"

text \<open>\<open>EventPriorityQueue::remove\<close>: \<open>std::find\<close> compares events by their unique id; the flag tells
  whether one was found.\<close>

fun pq_remove :: "event \<Rightarrow> pq_scheduler \<Rightarrow> bool \<times> pq_scheduler" where
  "pq_remove ev [] = (False, [])"
| "pq_remove ev (e # q) =
     (if key_eq (ev_key e) (ev_key ev) then (True, q)
      else let (found, q') = pq_remove ev q in (found, e # q'))"

definition pq_Remove :: "event \<Rightarrow> pq_scheduler \<Rightarrow> pq_scheduler" where
  "pq_Remove ev q = snd (pq_remove ev q)"

lemma pq_top_least:
  "pq_top q = Some e \<Longrightarrow> e \<in> set q \<and> (\<forall>f \<in> set q. rank e \<le> rank f)"
proof (induction q arbitrary: e)
  case (Cons f q)
  show ?case
  proof (cases "pq_top q")
    case None
    then have "q = []" by (cases q) (auto split: option.splits)
    with Cons.prems show ?thesis by simp
  next
    case (Some g)
    with Cons.IH [OF Some] Cons.prems show ?thesis
      by (auto simp: event_less_rank not_less intro: order_trans less_imp_le split: if_splits)
  qed
qed simp

lemma pq_top_None [simp]: "pq_top q = None \<longleftrightarrow> q = []"
  by (cases q) (auto split: option.splits)

lemma pq_remove_found:
  "pq_remove ev q = (True, q') \<Longrightarrow> \<exists>e. uid_of e = uid_of ev \<and> mset q = add_mset e (mset q')"
proof (induction q arbitrary: q')
  case (Cons e q)
  obtain b r where r: "pq_remove ev q = (b, r)" by fastforce
  with Cons show ?case by (auto simp: key_eq_def split: if_splits)
qed simp

lemma pq_remove_absent:
  "pq_remove ev q = (False, q') \<Longrightarrow> q' = q \<and> (\<forall>e \<in> set q. uid_of e \<noteq> uid_of ev)"
proof (induction q arbitrary: q')
  case (Cons e q)
  obtain b r where r: "pq_remove ev q = (b, r)" by fastforce
  with Cons show ?case by (auto simp: key_eq_def split: if_splits)
qed simp

text \<open>The operation as the client uses it, on an event that is in the queue.\<close>

definition pq_Remove_found :: "event \<Rightarrow> pq_scheduler \<Rightarrow> pq_scheduler option" where
  "pq_Remove_found ev q = (if fst (pq_remove ev q) then Some (pq_Remove ev q) else None)"

interpretation pq_sched: event_list_remove "\<lambda>ev q. Some (pq_Insert ev q)" pq_IsEmpty pq_PeekNext
  pq_RemoveNext mset "\<lambda>_. True" "[]" pq_Remove_found
proof (unfold_locales, goal_cases)
  case (3 q ev q') then show ?case by (auto simp: pq_Insert_def)
next
  case (7 q ev q')
  then have "pq_top q = Some ev" "q' = remove1 ev q"
    by (auto simp: pq_RemoveNext_def split: option.splits)
  with pq_top_least [of q ev] show ?case by simp
next
  case (8 q) then show ?case
    by (auto simp: pq_PeekNext_def pq_RemoveNext_def split: option.splits)
next
  case (9 q ev q')
  then have "pq_remove ev q = (True, q')"
    by (cases "pq_remove ev q") (auto simp: pq_Remove_found_def pq_Remove_def split: if_splits)
  from pq_remove_found [OF this] show ?case by blast
next
  case (10 q ev)
  then show ?case
    using pq_remove_absent [of ev q] by (cases "pq_remove ev q") (auto simp: pq_Remove_found_def)
qed (auto simp: pq_IsEmpty_def pq_RemoveNext_def split: option.splits)

lemma pq_Remove_found_eq:
  assumes "ev \<in> set q"
  shows "pq_Remove_found ev q = Some (pq_Remove ev q)"
  using assms pq_remove_absent [of ev q] by (cases "pq_remove ev q") (auto simp: pq_Remove_found_def)

end
