(* ===== verification/CalendarScheduler.thy ===== *)
theory CalendarScheduler
  imports EventList
begin

text \<open>
  \<open>src/core/model/calendar-scheduler.cc\<close>: the calendar queue. Time is divided into slots of
  \<open>m_width\<close>; the events of a slot are in the bucket with the index of the slot modulo the number of
  buckets, in key order (or in reverse key order with the attribute \<open>Reverse\<close>). The search for the
  next event starts in the bucket of the last event removed. Indices and sizes are \<open>nat\<close>; times, the
  width and the arithmetic on them are 64-bit words.

  Unlike the other event lists this one is correct only for events that are not earlier than the last
  one removed, which is what the simulator promises.
\<close>

section \<open>State and operations\<close>

record calendar =
  cal_buckets :: "event list list"
  cal_width :: u64
  cal_lastBucket :: nat
  cal_bucketTop :: u64
  cal_lastPrio :: u64
  cal_qSize :: nat
  cal_reverse :: bool

abbreviation cal_nBuckets :: "calendar \<Rightarrow> nat" where
  "cal_nBuckets c \<equiv> length (cal_buckets c)"

definition cal_Hash :: "calendar \<Rightarrow> u64 \<Rightarrow> nat" where
  "cal_Hash c ts = unat (ts div cal_width c) mod cal_nBuckets c"

definition cal_Init :: "nat \<Rightarrow> u64 \<Rightarrow> u64 \<Rightarrow> calendar \<Rightarrow> calendar" where
  "cal_Init nBuckets width startPrio c =
     (let c' = c\<lparr>cal_buckets := replicate nBuckets [], cal_width := width, cal_lastPrio := startPrio\<rparr>
      in c'\<lparr>cal_lastBucket := cal_Hash c' startPrio, cal_bucketTop := (startPrio div width + 1) * width\<rparr>)"

definition cal_new :: "bool \<Rightarrow> calendar" where
  "cal_new reverse = cal_Init 2 1 0 \<lparr>cal_buckets = [], cal_width = 0, cal_lastBucket = 0,
     cal_bucketTop = 0, cal_lastPrio = 0, cal_qSize = 0, cal_reverse = reverse\<rparr>"

text \<open>The three functions \<open>SetReverse\<close> chooses.\<close>

definition cal_NextEvent :: "calendar \<Rightarrow> event list \<Rightarrow> event" where
  "cal_NextEvent c bucket = (if cal_reverse c then last bucket else hd bucket)"

definition cal_Order :: "calendar \<Rightarrow> event_key \<Rightarrow> event_key \<Rightarrow> bool" where
  "cal_Order c a b = (if cal_reverse c then key_greater a b else key_less a b)"

definition cal_Pop :: "calendar \<Rightarrow> event list \<Rightarrow> event list" where
  "cal_Pop c bucket = (if cal_reverse c then butlast bucket else tl bucket)"

fun cal_bucket_insert :: "calendar \<Rightarrow> event \<Rightarrow> event list \<Rightarrow> event list" where
  "cal_bucket_insert c ev [] = [ev]"
| "cal_bucket_insert c ev (e # es) =
     (if cal_Order c (ev_key ev) (ev_key e) then ev # e # es else e # cal_bucket_insert c ev es)"

definition cal_DoInsert :: "event \<Rightarrow> calendar \<Rightarrow> calendar" where
  "cal_DoInsert ev c =
     (let bucket = cal_Hash c (ts_of ev)
      in c\<lparr>cal_buckets := (cal_buckets c)[bucket := cal_bucket_insert c ev (cal_buckets c ! bucket)]\<rparr>)"

definition cal_IsEmpty :: "calendar \<Rightarrow> bool" where
  "cal_IsEmpty c \<longleftrightarrow> cal_qSize c = 0"

text \<open>The loop over the buckets of \<open>PeekNext\<close> and \<open>DoRemoveNext\<close>: it visits every bucket once, beginning
  with the last one used, and ends early at an event of the slot it has come to. Otherwise it has the
  least key seen and its bucket and event, if there is one below the initial key.\<close>

datatype cal_found = InSlot nat u64 event | Least event_key "(nat \<times> event) option"

fun cal_scan :: "calendar \<Rightarrow> nat \<Rightarrow> nat \<Rightarrow> u64 \<Rightarrow> event_key \<Rightarrow> (nat \<times> event) option \<Rightarrow> cal_found" where
  "cal_scan c 0 i bucketTop minKey minBucket = Least minKey minBucket"
| "cal_scan c (Suc left) i bucketTop minKey minBucket =
     (let bucket = cal_buckets c ! i;
          next = cal_NextEvent c bucket;
          i' = (i + 1) mod cal_nBuckets c
      in if bucket = [] then cal_scan c left i' (bucketTop + cal_width c) minKey minBucket
         else if ts_of next < bucketTop then InSlot i bucketTop next
         else if key_less (ev_key next) minKey
         then cal_scan c left i' (bucketTop + cal_width c) (ev_key next) (Some (i, next))
         else cal_scan c left i' (bucketTop + cal_width c) minKey minBucket)"

definition cal_PeekNext :: "calendar \<Rightarrow> event option" where
  "cal_PeekNext c =
     (if cal_IsEmpty c then None
      else case cal_scan c (cal_nBuckets c) (cal_lastBucket c) (cal_bucketTop c)
                  \<lparr>m_ts = - 1, m_uid = - 1, m_context = 0\<rparr> None of
             InSlot i slotTop ev \<Rightarrow> Some ev
           | Least k None \<Rightarrow> None
           | Least k (Some (i, ev)) \<Rightarrow> Some ev)"

definition cal_pop_bucket :: "nat \<Rightarrow> calendar \<Rightarrow> calendar" where
  "cal_pop_bucket i c = c\<lparr>cal_buckets := (cal_buckets c)[i := cal_Pop c (cal_buckets c ! i)]\<rparr>"

definition cal_DoRemoveNext :: "calendar \<Rightarrow> (event \<times> calendar) option" where
  "cal_DoRemoveNext c =
     (if cal_IsEmpty c then None
      else case cal_scan c (cal_nBuckets c) (cal_lastBucket c) (cal_bucketTop c)
                  \<lparr>m_ts = - 1, m_uid = 0, m_context = 0xffffffff\<rparr> None of
             InSlot i slotTop ev \<Rightarrow>
               Some (ev, cal_pop_bucket i (c\<lparr>cal_lastBucket := i, cal_lastPrio := ts_of ev, cal_bucketTop := slotTop\<rparr>))
           | Least k None \<Rightarrow> None
           | Least k (Some (i, ev)) \<Rightarrow>
               Some (ev, cal_pop_bucket i (c\<lparr>cal_lastBucket := cal_Hash c (m_ts k), cal_lastPrio := m_ts k,
                                             cal_bucketTop := (m_ts k div cal_width c + 1) * cal_width c\<rparr>)))"

section \<open>Resizing\<close>

definition cal_nSamples :: "calendar \<Rightarrow> nat" where
  "cal_nSamples c = min 25 (if cal_qSize c \<le> 5 then cal_qSize c else 5 + cal_qSize c div 10)"

fun cal_gather :: "nat \<Rightarrow> calendar \<Rightarrow> (event list \<times> calendar) option" where
  "cal_gather 0 c = Some ([], c)"
| "cal_gather (Suc n) c =
     (case cal_DoRemoveNext c of
        None \<Rightarrow> None
      | Some (ev, c') \<Rightarrow> map_option (\<lambda>(evs, c''). (ev # evs, c'')) (cal_gather n c'))"

definition cal_separations :: "event list \<Rightarrow> u64 list" where
  "cal_separations samples = map (\<lambda>(cur, next). ts_of next - ts_of cur) (zip samples (tl samples))"

definition cal_width_of :: "nat \<Rightarrow> event list \<Rightarrow> u64" where
  "cal_width_of nSamples samples =
     (let twiceAvg = sum_list (cal_separations samples) div of_nat (nSamples - 1) * 2;
          total = sum_list (filter (\<lambda>diff. diff \<le> twiceAvg) (cal_separations samples))
      in max (total * 3) 1)"

definition cal_CalculateNewWidth :: "calendar \<Rightarrow> (u64 \<times> calendar) option" where
  "cal_CalculateNewWidth c =
     (if cal_qSize c < 2 then Some (1, c)
      else case cal_gather (cal_nSamples c) c of
             None \<Rightarrow> None
           | Some (samples, c') \<Rightarrow>
               Some (cal_width_of (cal_nSamples c) samples,
                     (fold cal_DoInsert samples c')\<lparr>cal_lastBucket := cal_lastBucket c,
                        cal_bucketTop := cal_bucketTop c, cal_lastPrio := cal_lastPrio c\<rparr>))"

definition cal_DoResize :: "nat \<Rightarrow> u64 \<Rightarrow> calendar \<Rightarrow> calendar" where
  "cal_DoResize newSize newWidth c =
     fold cal_DoInsert (concat (cal_buckets c)) (cal_Init newSize newWidth (cal_lastPrio c) c)"

definition cal_Resize :: "nat \<Rightarrow> calendar \<Rightarrow> calendar option" where
  "cal_Resize newSize c =
     map_option (\<lambda>(newWidth, c'). cal_DoResize newSize newWidth c') (cal_CalculateNewWidth c)"

definition cal_ResizeUp :: "calendar \<Rightarrow> calendar option" where
  "cal_ResizeUp c =
     (if cal_qSize c > cal_nBuckets c * 2 \<and> cal_nBuckets c < 32768
      then cal_Resize (cal_nBuckets c * 2) c else Some c)"

definition cal_ResizeDown :: "calendar \<Rightarrow> calendar option" where
  "cal_ResizeDown c =
     (if cal_qSize c < cal_nBuckets c div 2 then cal_Resize (cal_nBuckets c div 2) c else Some c)"

section \<open>The operations of the interface\<close>

definition cal_Insert :: "event \<Rightarrow> calendar \<Rightarrow> calendar option" where
  "cal_Insert ev c =
     (let c' = cal_DoInsert ev c in cal_ResizeUp (c'\<lparr>cal_qSize := cal_qSize c' + 1\<rparr>))"

definition cal_RemoveNext :: "calendar \<Rightarrow> (event \<times> calendar) option" where
  "cal_RemoveNext c =
     (if cal_IsEmpty c then None
      else case cal_DoRemoveNext c of
             None \<Rightarrow> None
           | Some (ev, c') \<Rightarrow>
               map_option (\<lambda>c''. (ev, c'')) (cal_ResizeDown (c'\<lparr>cal_qSize := cal_qSize c' - 1\<rparr>)))"

fun cal_bucket_remove :: "event \<Rightarrow> event list \<Rightarrow> event list option" where
  "cal_bucket_remove ev [] = None"
| "cal_bucket_remove ev (e # es) =
     (if m_uid (ev_key e) = m_uid (ev_key ev)
      then if ev_impl ev = ev_impl e then Some es else None
      else map_option (\<lambda>es'. e # es') (cal_bucket_remove ev es))"

definition cal_Remove :: "event \<Rightarrow> calendar \<Rightarrow> calendar option" where
  "cal_Remove ev c =
     (if cal_IsEmpty c then None
      else let bucket = cal_Hash c (ts_of ev)
           in case cal_bucket_remove ev (cal_buckets c ! bucket) of
                None \<Rightarrow> None
              | Some b \<Rightarrow>
                  cal_ResizeDown (c\<lparr>cal_buckets := (cal_buckets c)[bucket := b], cal_qSize := cal_qSize c - 1\<rparr>))"

section \<open>Buckets\<close>

definition cal_sorted :: "calendar \<Rightarrow> event list \<Rightarrow> bool" where
  "cal_sorted c b \<longleftrightarrow> (if cal_reverse c then sorted_wrt (\<lambda>x y. rank y \<le> rank x) b
                      else sorted_wrt (\<lambda>x y. rank x \<le> rank y) b)"

lemma key_greater_rank: "key_greater (ev_key a) (ev_key b) \<longleftrightarrow> rank b < rank a"
  by (auto simp: key_greater_def rank_def less_prod_def)

lemma mset_cal_bucket_insert [simp]: "mset (cal_bucket_insert c ev b) = add_mset ev (mset b)"
  by (induction c ev b rule: cal_bucket_insert.induct) auto

lemma set_cal_bucket_insert [simp]: "set (cal_bucket_insert c ev b) = insert ev (set b)"
  using mset_cal_bucket_insert by (metis set_mset_mset set_mset_add_mset_insert)

lemma cal_sorted_insert: "cal_sorted c b \<Longrightarrow> cal_sorted c (cal_bucket_insert c ev b)"
  unfolding cal_sorted_def
  by (induction c ev b rule: cal_bucket_insert.induct)
    (auto simp: cal_Order_def key_less_rank key_greater_rank not_less intro: order_trans less_imp_le
      split: if_splits)

lemma cal_NextEvent_all:
  assumes "cal_sorted c b" "b \<noteq> []"
  shows "cal_NextEvent c b \<in> set b \<and> (\<forall>e \<in> set b. rank (cal_NextEvent c b) \<le> rank e)
    \<and> mset b = add_mset (cal_NextEvent c b) (mset (cal_Pop c b)) \<and> cal_sorted c (cal_Pop c b)"
proof (cases "cal_reverse c")
  case True
  obtain b' e' where "b = b' @ [e']" using assms(2) by (metis append_butlast_last_id)
  with True assms(1) show ?thesis
    by (auto simp: cal_sorted_def cal_NextEvent_def cal_Pop_def sorted_wrt_append)
next
  case False
  obtain b' e' where "b = e' # b'" using assms(2) by (cases b) auto
  with False assms(1) show ?thesis
    by (auto simp: cal_sorted_def cal_NextEvent_def cal_Pop_def)
qed

lemma cal_NextEvent_facts:
  assumes "cal_sorted c b" "b \<noteq> []"
  shows "cal_NextEvent c b \<in> set b" "e \<in> set b \<Longrightarrow> rank (cal_NextEvent c b) \<le> rank e"
    "mset b = add_mset (cal_NextEvent c b) (mset (cal_Pop c b))" "cal_sorted c (cal_Pop c b)"
  using cal_NextEvent_all [OF assms] by blast+

lemma mset_concat_update:
  assumes "i < length bs"
  shows "mset (concat (bs[i := b])) + mset (bs ! i) = mset (concat bs) + mset b"
  using assms
proof (induction bs arbitrary: i)
  case (Cons x bs)
  then show ?case by (cases i) (auto simp: union_assoc union_commute union_lcomm)
qed simp

section \<open>The invariant\<close>

definition cal_events :: "calendar \<Rightarrow> event multiset" where
  "cal_events c = mset (concat (cal_buckets c))"

definition cal_slot :: "calendar \<Rightarrow> u64 \<Rightarrow> nat" where
  "cal_slot c ts = unat ts div unat (cal_width c)"

text \<open>Every event is in the bucket of its slot, the buckets are ordered, and times are below \<open>2 ^ 63\<close>,
  the range of \<open>Time\<close>.\<close>

definition cal_shape :: "calendar \<Rightarrow> bool" where
  "cal_shape c \<longleftrightarrow> 0 < cal_nBuckets c \<and> cal_width c \<noteq> 0
     \<and> (\<forall>i < cal_nBuckets c. cal_sorted c (cal_buckets c ! i)
          \<and> (\<forall>e \<in> set (cal_buckets c ! i). cal_slot c (ts_of e) mod cal_nBuckets c = i \<and> unat (ts_of e) < 2 ^ 63))"

text \<open>The search starts in the slot of the last event removed, before which there is no event.\<close>

definition cal_start :: "calendar \<Rightarrow> bool" where
  "cal_start c \<longleftrightarrow> cal_lastBucket c = cal_slot c (cal_lastPrio c) mod cal_nBuckets c
     \<and> cal_bucketTop c = (cal_lastPrio c div cal_width c + 1) * cal_width c
     \<and> (\<forall>e \<in># cal_events c. cal_lastPrio c \<le> ts_of e)"

lemma cal_Hash_slot: "cal_Hash c ts = cal_slot c ts mod cal_nBuckets c"
  by (simp add: cal_Hash_def cal_slot_def unat_div_distrib)

lemma in_cal_events: "e \<in># cal_events c \<longleftrightarrow> (\<exists>i < cal_nBuckets c. e \<in> set (cal_buckets c ! i))"
  by (auto simp: cal_events_def) (metis in_set_conv_nth)

lemma cal_shapeD:
  assumes "cal_shape c" "i < cal_nBuckets c"
  shows "cal_sorted c (cal_buckets c ! i)"
    "e \<in> set (cal_buckets c ! i) \<Longrightarrow> cal_slot c (ts_of e) mod cal_nBuckets c = i \<and> unat (ts_of e) < 2 ^ 63"
  using assms by (auto simp: cal_shape_def)

lemma cal_events_update:
  assumes "i < cal_nBuckets c" "mset b = add_mset ev (mset (cal_buckets c ! i))"
  shows "mset (concat ((cal_buckets c)[i := b])) = add_mset ev (cal_events c)"
  using mset_concat_update [OF assms(1), of b] assms(2) unfolding cal_events_def
  by (metis add_right_imp_eq union_mset_add_mset_left union_mset_add_mset_right)

lemma cal_events_update_remove:
  assumes "i < cal_nBuckets c" "mset (cal_buckets c ! i) = add_mset ev (mset b)"
  shows "cal_events c = add_mset ev (mset (concat ((cal_buckets c)[i := b])))"
  using mset_concat_update [OF assms(1), of b] assms(2) unfolding cal_events_def
  by (metis add_right_imp_eq union_mset_add_mset_left union_mset_add_mset_right)

lemma cal_DoInsert_simps [simp]:
  "cal_width (cal_DoInsert ev c) = cal_width c" "cal_nBuckets (cal_DoInsert ev c) = cal_nBuckets c"
  "cal_lastBucket (cal_DoInsert ev c) = cal_lastBucket c" "cal_bucketTop (cal_DoInsert ev c) = cal_bucketTop c"
  "cal_lastPrio (cal_DoInsert ev c) = cal_lastPrio c" "cal_qSize (cal_DoInsert ev c) = cal_qSize c"
  "cal_reverse (cal_DoInsert ev c) = cal_reverse c"
  by (simp_all add: cal_DoInsert_def Let_def)

lemma cal_DoInsert_shape:
  assumes "cal_shape c" "unat (ts_of ev) < 2 ^ 63"
  shows "cal_shape (cal_DoInsert ev c)" "cal_events (cal_DoInsert ev c) = add_mset ev (cal_events c)"
proof -
  let ?i = "cal_Hash c (ts_of ev)"
  have i: "?i < cal_nBuckets c"
    using assms(1) by (simp add: cal_Hash_def cal_shape_def)
  show "cal_events (cal_DoInsert ev c) = add_mset ev (cal_events c)"
    using cal_events_update [OF i, of "cal_bucket_insert c ev (cal_buckets c ! ?i)" ev]
    by (simp add: cal_DoInsert_def cal_events_def Let_def)
  have "cal_sorted c (cal_bucket_insert c ev (cal_buckets c ! ?i))"
    using cal_shapeD(1) [OF assms(1) i] by (rule cal_sorted_insert)
  moreover have "cal_sorted (cal_DoInsert ev c) b = cal_sorted c b" for b
    by (simp add: cal_sorted_def)
  moreover have "cal_slot (cal_DoInsert ev c) ts = cal_slot c ts" for ts
    by (simp add: cal_slot_def)
  ultimately show "cal_shape (cal_DoInsert ev c)"
    using assms i unfolding cal_shape_def
    by (auto simp: cal_DoInsert_def Let_def nth_list_update cal_Hash_slot)
qed

lemma fold_cal_DoInsert:
  assumes "cal_shape c" "\<forall>e \<in> set evs. unat (ts_of e) < 2 ^ 63"
  shows "cal_shape (fold cal_DoInsert evs c)" "cal_events (fold cal_DoInsert evs c) = mset evs + cal_events c"
    "cal_width (fold cal_DoInsert evs c) = cal_width c" "cal_nBuckets (fold cal_DoInsert evs c) = cal_nBuckets c"
    "cal_lastBucket (fold cal_DoInsert evs c) = cal_lastBucket c" "cal_bucketTop (fold cal_DoInsert evs c) = cal_bucketTop c"
    "cal_lastPrio (fold cal_DoInsert evs c) = cal_lastPrio c" "cal_qSize (fold cal_DoInsert evs c) = cal_qSize c"
    "cal_reverse (fold cal_DoInsert evs c) = cal_reverse c"
  using assms by (induction evs arbitrary: c) (simp_all add: cal_DoInsert_shape)

section \<open>The search\<close>

lemma slot_offset:
  fixes n :: nat
  assumes "s mod n = (s0 + k) mod n" "s0 \<le> s" "k < n"
  shows "\<exists>m. s = s0 + k + m * n"
proof -
  have "int s mod int n = int (s0 + k) mod int n"
    using assms(1) by (metis zmod_int)
  from mod_diff_cong [OF this refl, of "int s0"] have "int (s - s0) mod int n = int k mod int n"
    using assms(2) by (simp add: of_nat_diff)
  then have "(s - s0) mod n = k mod n"
    by (metis of_nat_eq_iff zmod_int)
  then have "s - s0 = k + (s - s0) div n * n"
    using assms(3) by (metis add.commute div_mult_mod_eq mod_less)
  then show ?thesis using assms(2) by (intro exI [of _ "(s - s0) div n"]) linarith
qed

lemma slot_less_ts: "cal_slot c a < cal_slot c b \<Longrightarrow> a < b"
  unfolding cal_slot_def word_less_nat_alt by (meson div_le_mono linorder_not_less)

lemma ts_less_rank: "ts_of a < ts_of b \<Longrightarrow> rank a \<le> rank b"
  by (simp add: rank_def less_eq_prod_def)

lemma slot_top:
  assumes "cal_width c \<noteq> 0" "unat ts < 2 ^ 63" "k \<le> cal_slot c ts"
  shows "ts < of_nat ((k + 1) * unat (cal_width c)) \<longleftrightarrow> cal_slot c ts = k"
proof -
  let ?w = "unat (cal_width c)"
  have w: "0 < ?w" "?w < 2 ^ 64"
    using assms(1) unsigned_less [of "cal_width c"] by (simp_all add: unat_gt_0)
  have "k * ?w \<le> cal_slot c ts * ?w" using assms(3) by simp
  also have "\<dots> \<le> unat ts" by (simp add: cal_slot_def)
  finally have kw: "k * ?w < 2 ^ 63" using assms(2) by simp
  have "(k + 1) * ?w < 2 ^ 64"
  proof (cases "?w \<le> 2 ^ 63")
    case True
    with kw show ?thesis by simp
  next
    case False
    with kw have "k = 0" by (cases k) auto
    with w show ?thesis by simp
  qed
  then have "unat (of_nat ((k + 1) * ?w) :: u64) = (k + 1) * ?w"
    by (intro unat_of_nat_u64) simp
  then have "ts < of_nat ((k + 1) * ?w) \<longleftrightarrow> unat ts < (k + 1) * ?w"
    by (simp add: word_less_nat_alt)
  also have "\<dots> \<longleftrightarrow> cal_slot c ts < k + 1"
    using w(1) by (simp add: cal_slot_def less_mult_imp_div_less div_less_iff_less_mult)
  finally show ?thesis using assms(3) by auto
qed

lemma slot_top_word: "of_nat ((cal_slot c ts + 1) * unat (cal_width c)) = (ts div cal_width c + 1) * cal_width c"
proof -
  have "of_nat (cal_slot c ts) = ts div cal_width c"
    by (simp add: cal_slot_def flip: unat_div_distrib)
  then show ?thesis by (simp add: distrib_right)
qed

text \<open>Where the search is: before offset \<open>k\<close> no event of the current year has been seen.\<close>

definition cal_offset :: "calendar \<Rightarrow> nat \<Rightarrow> event list" where
  "cal_offset c k = cal_buckets c ! ((cal_slot c (cal_lastPrio c) + k) mod cal_nBuckets c)"

definition cal_least_upto :: "calendar \<Rightarrow> nat \<Rightarrow> event_key \<Rightarrow> (nat \<times> event) option \<Rightarrow> bool" where
  "cal_least_upto c k minKey mb \<longleftrightarrow>
     (\<forall>j < k. \<forall>e \<in> set (cal_offset c j). cal_slot c (cal_lastPrio c) + cal_nBuckets c \<le> cal_slot c (ts_of e))
     \<and> (case mb of
          None \<Rightarrow> m_ts minKey = - 1 \<and> (\<forall>j < k. cal_offset c j = [])
        | Some (b, ev) \<Rightarrow> minKey = ev_key ev \<and> b < cal_nBuckets c \<and> cal_buckets c ! b \<noteq> []
            \<and> ev = cal_NextEvent c (cal_buckets c ! b) \<and> (\<forall>j < k. \<forall>e \<in> set (cal_offset c j). rank ev \<le> rank e))"

definition cal_found_ok :: "calendar \<Rightarrow> cal_found \<Rightarrow> bool" where
  "cal_found_ok c r \<longleftrightarrow>
     (case r of
        InSlot i t ev \<Rightarrow> i < cal_nBuckets c \<and> cal_buckets c ! i \<noteq> [] \<and> ev = cal_NextEvent c (cal_buckets c ! i)
          \<and> t = (ts_of ev div cal_width c + 1) * cal_width c \<and> (\<forall>e \<in># cal_events c. rank ev \<le> rank e)
      | Least k None \<Rightarrow> cal_events c = {#}
      | Least k (Some (b, ev)) \<Rightarrow> k = ev_key ev \<and> b < cal_nBuckets c \<and> cal_buckets c ! b \<noteq> []
          \<and> ev = cal_NextEvent c (cal_buckets c ! b) \<and> (\<forall>e \<in># cal_events c. rank ev \<le> rank e))"

lemma cal_offset_cover:
  assumes "cal_shape c" "e \<in># cal_events c"
  shows "\<exists>j < cal_nBuckets c. e \<in> set (cal_offset c j)"
proof -
  let ?n = "cal_nBuckets c" and ?s = "cal_slot c (cal_lastPrio c)"
  from assms(2) obtain i where i: "i < ?n" "e \<in> set (cal_buckets c ! i)" by (auto simp: in_cal_events)
  let ?j = "(i + (?n - ?s mod ?n)) mod ?n"
  have "(?s + ?j) mod ?n = (?s mod ?n + (i + (?n - ?s mod ?n))) mod ?n"
    by (simp add: mod_simps)
  also have "\<dots> = (i + ?n) mod ?n"
  proof -
    have "?s mod ?n \<le> ?n" using i(1) by (intro less_imp_le mod_less_divisor) linarith
    then show ?thesis by (simp add: add.assoc)
  qed
  also have "\<dots> = i" using i(1) by simp
  finally have "(?s + ?j) mod ?n = i" .
  moreover have "?j < ?n" using i(1) by (intro mod_less_divisor) linarith
  ultimately show ?thesis using i(2) unfolding cal_offset_def by metis
qed

lemma cal_offset_facts:
  assumes "cal_shape c" "cal_start c" "e \<in> set (cal_offset c k)" "k < cal_nBuckets c"
  shows "unat (ts_of e) < 2 ^ 63" "\<exists>m. cal_slot c (ts_of e) = cal_slot c (cal_lastPrio c) + k + m * cal_nBuckets c"
    "e \<in># cal_events c"
proof -
  let ?i = "(cal_slot c (cal_lastPrio c) + k) mod cal_nBuckets c"
  have i: "?i < cal_nBuckets c" using assms(4) by (intro mod_less_divisor) linarith
  have e: "e \<in> set (cal_buckets c ! ?i)" using assms(3) by (simp add: cal_offset_def)
  from cal_shapeD(2) [OF assms(1) i e] show "unat (ts_of e) < 2 ^ 63" by blast
  from i e show ev: "e \<in># cal_events c" by (auto simp: in_cal_events)
  then have "cal_lastPrio c \<le> ts_of e" using assms(2) by (simp add: cal_start_def)
  then have "cal_slot c (cal_lastPrio c) \<le> cal_slot c (ts_of e)"
    by (simp add: cal_slot_def word_le_nat_alt div_le_mono)
  with cal_shapeD(2) [OF assms(1) i e] assms(4)
  show "\<exists>m. cal_slot c (ts_of e) = cal_slot c (cal_lastPrio c) + k + m * cal_nBuckets c"
    by (intro slot_offset) auto
qed

lemma cal_scan_found:
  assumes "cal_shape c" "cal_start c" "k < cal_nBuckets c" "cal_offset c k \<noteq> []"
    "cal_least_upto c k minKey mb"
  defines "ev \<equiv> cal_NextEvent c (cal_offset c k)"
  shows "cal_slot c (ts_of ev) = cal_slot c (cal_lastPrio c) + k \<Longrightarrow> \<forall>e \<in># cal_events c. rank ev \<le> rank e"
    "cal_slot c (ts_of ev) \<noteq> cal_slot c (cal_lastPrio c) + k \<Longrightarrow>
       \<forall>e \<in> set (cal_offset c k). cal_slot c (cal_lastPrio c) + cal_nBuckets c \<le> cal_slot c (ts_of e)"
proof -
  let ?n = "cal_nBuckets c" and ?s = "cal_slot c (cal_lastPrio c)"
  have srt: "cal_sorted c (cal_offset c k)"
    unfolding cal_offset_def using assms(3) by (intro cal_shapeD(1) [OF assms(1)] mod_less_divisor) linarith
  note next_ev = cal_NextEvent_facts [OF srt assms(4), folded ev_def]
  show "\<forall>e \<in># cal_events c. rank ev \<le> rank e" if sl: "cal_slot c (ts_of ev) = ?s + k"
  proof
    fix e assume "e \<in># cal_events c"
    then obtain j where j: "j < ?n" "e \<in> set (cal_offset c j)"
      using cal_offset_cover [OF assms(1)] by blast
    show "rank ev \<le> rank e"
    proof (cases "j = k")
      case True
      with next_ev(2) j show ?thesis by simp
    next
      case False
      have "?s + k < cal_slot c (ts_of e)"
      proof (cases "j < k")
        case True
        with assms(5) j(2) have "?s + ?n \<le> cal_slot c (ts_of e)" by (auto simp: cal_least_upto_def)
        with assms(3) show ?thesis by linarith
      next
        case False
        with \<open>j \<noteq> k\<close> cal_offset_facts(2) [OF assms(1,2) j(2,1)] show ?thesis by auto
      qed
      with sl show ?thesis by (intro ts_less_rank slot_less_ts [of c]) simp
    qed
  qed
  show "\<forall>e \<in> set (cal_offset c k). ?s + ?n \<le> cal_slot c (ts_of e)" if ns: "cal_slot c (ts_of ev) \<noteq> ?s + k"
  proof
    fix e assume e: "e \<in> set (cal_offset c k)"
    obtain m where m: "cal_slot c (ts_of ev) = ?s + k + m * ?n"
      using cal_offset_facts(2) [OF assms(1,2) next_ev(1) assms(3)] by blast
    with ns have "?n \<le> m * ?n" by (cases m) auto
    with m have "?s + ?n \<le> cal_slot c (ts_of ev)" by linarith
    also have "\<dots> \<le> cal_slot c (ts_of e)"
      using rank_le_ts [OF next_ev(2) [OF e]] by (simp add: cal_slot_def word_le_nat_alt div_le_mono)
    finally show "?s + ?n \<le> cal_slot c (ts_of e)" .
  qed
qed

lemma key_less_max:
  assumes "unat (ts_of ev) < 2 ^ 63" "m_ts k = - 1"
  shows "key_less (ev_key ev) k"
proof -
  have "ts_of ev < - 1"
    using assms(1) by (simp add: word_less_nat_alt unsigned_minus_1_eq_mask mask_eq_exp_minus_1)
  then show ?thesis using assms(2) by (simp add: key_less_def)
qed

lemma cal_least_upto_step:
  assumes "cal_shape c" "cal_start c" "k < cal_nBuckets c" "cal_least_upto c k minKey mb"
    "cal_offset c k \<noteq> []" "\<not> ts_of (cal_NextEvent c (cal_offset c k)) < of_nat ((cal_slot c (cal_lastPrio c) + k + 1) * unat (cal_width c))"
  defines "i \<equiv> (cal_slot c (cal_lastPrio c) + k) mod cal_nBuckets c" and "ev \<equiv> cal_NextEvent c (cal_offset c k)"
  shows "if key_less (ev_key ev) minKey then cal_least_upto c (Suc k) (ev_key ev) (Some (i, ev))
    else cal_least_upto c (Suc k) minKey mb"
proof -
  let ?n = "cal_nBuckets c" and ?s = "cal_slot c (cal_lastPrio c)"
  have i: "i < ?n" using assms(3) unfolding i_def by (intro mod_less_divisor) linarith
  have off: "cal_offset c k = cal_buckets c ! i" by (simp add: cal_offset_def i_def)
  have srt: "cal_sorted c (cal_offset c k)" unfolding off by (rule cal_shapeD(1) [OF assms(1) i])
  note nx = cal_NextEvent_facts [OF srt assms(5), folded ev_def]
  note facts = cal_offset_facts [OF assms(1,2) nx(1) assms(3)]
  have "cal_slot c (ts_of ev) \<noteq> ?s + k"
    using slot_top [where c = c and k = "?s + k", OF _ facts(1)] facts(2) assms(1,6) by (auto simp: cal_shape_def ev_def)
  from cal_scan_found(2) [OF assms(1-3,5,4), folded ev_def, OF this]
  have later: "\<forall>j < Suc k. \<forall>e \<in> set (cal_offset c j). ?s + ?n \<le> cal_slot c (ts_of e)"
    using assms(4) by (auto simp: cal_least_upto_def less_Suc_eq)
  show ?thesis
  proof (cases mb)
    case None
    then have "key_less (ev_key ev) minKey" "\<forall>j < k. cal_offset c j = []"
      using key_less_max [OF facts(1)] assms(4) by (auto simp: cal_least_upto_def)
    with later i off assms(5) nx(2) show ?thesis
      by (auto simp: cal_least_upto_def less_Suc_eq ev_def)
  next
    case (Some p)
    obtain b e0 where p: "p = (b, e0)" by (cases p)
    with Some assms(4) have m: "minKey = ev_key e0" "b < ?n" "cal_buckets c ! b \<noteq> []"
      "e0 = cal_NextEvent c (cal_buckets c ! b)" "\<forall>j < k. \<forall>e \<in> set (cal_offset c j). rank e0 \<le> rank e"
      by (auto simp: cal_least_upto_def)
    show ?thesis
    proof (cases "rank ev < rank e0")
      case True
      then have "\<forall>j < Suc k. \<forall>e \<in> set (cal_offset c j). rank ev \<le> rank e"
        using m(5) nx(2) by (auto simp: less_Suc_eq intro: order_trans less_imp_le)
      with True later i off assms(5) m(1) show ?thesis
        by (simp add: cal_least_upto_def key_less_rank ev_def)
    next
      case False
      then have "\<forall>j < Suc k. \<forall>e \<in> set (cal_offset c j). rank e0 \<le> rank e"
        using m(5) nx(2) by (auto simp: less_Suc_eq not_less intro: order_trans)
      with False later m show ?thesis
        by (simp add: cal_least_upto_def key_less_rank Some p)
    qed
  qed
qed

lemma cal_scan_ok:
  assumes "cal_shape c" "cal_start c" "left + k = cal_nBuckets c" "cal_least_upto c k minKey mb"
  shows "cal_found_ok c (cal_scan c left ((cal_slot c (cal_lastPrio c) + k) mod cal_nBuckets c)
     (of_nat ((cal_slot c (cal_lastPrio c) + k + 1) * unat (cal_width c))) minKey mb)"
  using assms(3,4)
proof (induction left arbitrary: k minKey mb)
  case 0
  have all: "\<exists>j < k. e \<in> set (cal_offset c j)" if "e \<in># cal_events c" for e
    using cal_offset_cover [OF assms(1) that] 0(1) by simp
  show ?case
  proof (cases mb)
    case None
    with 0(2) have "\<forall>j < k. cal_offset c j = []" by (simp add: cal_least_upto_def)
    with all have "cal_events c = {#}" by (metis empty_iff list.set(1) multiset_nonemptyE)
    with None show ?thesis by (simp add: cal_found_ok_def)
  next
    case (Some p)
    with 0(2) all show ?thesis by (cases p) (fastforce simp: cal_found_ok_def cal_least_upto_def)
  qed
next
  case (Suc left)
  let ?n = "cal_nBuckets c" and ?s = "cal_slot c (cal_lastPrio c)" and ?w = "unat (cal_width c)"
  let ?i = "(?s + k) mod ?n" and ?top = "of_nat ((?s + k + 1) * ?w) :: u64"
  have k: "k < ?n" "left + Suc k = ?n" using Suc.prems(1) by simp_all
  have i: "?i < ?n" using k(1) by (intro mod_less_divisor) linarith
  have i': "(?i + 1) mod ?n = (?s + Suc k) mod ?n" by (simp add: mod_simps)
  have top': "?top + cal_width c = of_nat ((?s + Suc k + 1) * ?w)" by (simp add: distrib_right)
  note IH = Suc.IH [OF k(2), folded i' top']
  have off: "cal_offset c k = cal_buckets c ! ?i" by (simp add: cal_offset_def)
  show ?case
  proof (cases "cal_buckets c ! ?i = []")
    case True
    have "cal_least_upto c (Suc k) minKey mb"
      using Suc.prems(2) True off by (auto simp: cal_least_upto_def less_Suc_eq split: option.splits)
    from IH [OF this] True show ?thesis by (simp add: Let_def)
  next
    case False
    let ?ev = "cal_NextEvent c (cal_buckets c ! ?i)"
    have ne: "cal_offset c k \<noteq> []" using False off by simp
    have srt: "cal_sorted c (cal_offset c k)" unfolding off by (rule cal_shapeD(1) [OF assms(1) i])
    note facts = cal_offset_facts [OF assms(1,2) cal_NextEvent_facts(1) [OF srt ne] k(1)]
    show ?thesis
    proof (cases "ts_of ?ev < ?top")
      case True
      then have sl: "cal_slot c (ts_of ?ev) = ?s + k"
        using slot_top [where c = c and k = "?s + k", OF _ facts(1)] facts(2) assms(1) by (auto simp: cal_shape_def off)
      from cal_scan_found(1) [OF assms(1,2) k(1) ne Suc.prems(2)] sl
      have "\<forall>e \<in># cal_events c. rank ?ev \<le> rank e" by (simp add: off)
      moreover have "?top = (ts_of ?ev div cal_width c + 1) * cal_width c"
        using slot_top_word [of c "ts_of ?ev"] by (simp add: sl)
      ultimately show ?thesis
        using True False i by (simp add: cal_found_ok_def Let_def)
    next
      case ge: False
      have "if key_less (ev_key ?ev) minKey then cal_least_upto c (Suc k) (ev_key ?ev) (Some (?i, ?ev))
        else cal_least_upto c (Suc k) minKey mb"
        by (rule cal_least_upto_step [OF assms(1,2) k(1) Suc.prems(2) ne, unfolded off, OF ge])
      with IH ge False show ?thesis by (simp add: Let_def split: if_splits)
    qed
  qed
qed

section \<open>Removing the next event\<close>

lemma cal_pop_bucket_ok:
  assumes "cal_shape c" "i < cal_nBuckets c" "cal_buckets c ! i \<noteq> []"
  defines "ev \<equiv> cal_NextEvent c (cal_buckets c ! i)"
  shows "cal_shape (cal_pop_bucket i c)" "cal_events c = add_mset ev (cal_events (cal_pop_bucket i c))"
proof -
  note nx = cal_NextEvent_facts [OF cal_shapeD(1) [OF assms(1,2)] assms(3), folded ev_def]
  show "cal_events c = add_mset ev (cal_events (cal_pop_bucket i c))"
    using cal_events_update_remove [OF assms(2) nx(3)] by (simp add: cal_events_def cal_pop_bucket_def)
  have sub: "set (cal_Pop c (cal_buckets c ! i)) \<subseteq> set (cal_buckets c ! i)"
    using nx(3) by (metis set_mset_mset set_mset_add_mset_insert subset_insertI)
  have "cal_sorted (cal_pop_bucket i c) b = cal_sorted c b" "cal_slot (cal_pop_bucket i c) ts = cal_slot c ts" for b ts
    by (simp_all add: cal_sorted_def cal_slot_def cal_pop_bucket_def)
  with assms(1,2) nx(4) sub show "cal_shape (cal_pop_bucket i c)"
    unfolding cal_shape_def by (auto simp: cal_pop_bucket_def nth_list_update)
qed

lemma cal_shape_update [simp]:
  "cal_shape (c\<lparr>cal_lastBucket := x, cal_lastPrio := p, cal_bucketTop := t\<rparr>) = cal_shape c"
  "cal_shape (c\<lparr>cal_lastPrio := p, cal_lastBucket := x, cal_bucketTop := t\<rparr>) = cal_shape c"
  "cal_shape (c\<lparr>cal_lastBucket := x, cal_bucketTop := t, cal_lastPrio := p\<rparr>) = cal_shape c"
  "cal_shape (c\<lparr>cal_qSize := n\<rparr>) = cal_shape c"
  by (simp_all add: cal_shape_def cal_sorted_def cal_slot_def)

lemma cal_DoRemoveNext_ok:
  assumes "cal_shape c" "cal_start c" "cal_events c \<noteq> {#}" "cal_qSize c \<noteq> 0"
  obtains ev c' where "cal_DoRemoveNext c = Some (ev, c')" "cal_shape c'" "cal_start c'"
    "cal_events c = add_mset ev (cal_events c')" "\<forall>e \<in># cal_events c. rank ev \<le> rank e"
    "cal_lastPrio c' = ts_of ev" "cal_qSize c' = cal_qSize c" "cal_nBuckets c' = cal_nBuckets c"
    "cal_width c' = cal_width c" "cal_reverse c' = cal_reverse c"
proof -
  let ?k = "\<lparr>m_ts = - 1, m_uid = 0, m_context = 0xffffffff\<rparr> :: event_key"
  let ?scan = "cal_scan c (cal_nBuckets c) (cal_lastBucket c) (cal_bucketTop c) ?k None"
  have "cal_found_ok c ?scan"
    using cal_scan_ok [OF assms(1,2), of "cal_nBuckets c" 0 ?k None] assms(2)
    by (simp add: cal_least_upto_def cal_start_def slot_top_word [symmetric, simplified])
  then obtain i x p t ev where r: "cal_DoRemoveNext c = Some (ev, cal_pop_bucket i (c\<lparr>cal_lastBucket := x, cal_lastPrio := p, cal_bucketTop := t\<rparr>))"
    "i < cal_nBuckets c" "cal_buckets c ! i \<noteq> []" "ev = cal_NextEvent c (cal_buckets c ! i)"
    "\<forall>e \<in># cal_events c. rank ev \<le> rank e" "p = ts_of ev" "x = cal_Hash c p"
    "t = (p div cal_width c + 1) * cal_width c"
  proof (cases ?scan)
    case (InSlot i t ev)
    with \<open>cal_found_ok c ?scan\<close> have f: "i < cal_nBuckets c" "cal_buckets c ! i \<noteq> []" "ev = cal_NextEvent c (cal_buckets c ! i)"
      "t = (ts_of ev div cal_width c + 1) * cal_width c" "\<forall>e \<in># cal_events c. rank ev \<le> rank e"
      by (auto simp: cal_found_ok_def)
    have h: "cal_Hash c (ts_of ev) = i"
      using cal_shapeD(2) [OF assms(1) f(1)] cal_NextEvent_facts(1) [OF cal_shapeD(1) [OF assms(1) f(1)] f(2)]
      by (simp add: cal_Hash_slot f(3))
    have eq: "cal_DoRemoveNext c = Some (ev, cal_pop_bucket i (c\<lparr>cal_lastBucket := i, cal_lastPrio := ts_of ev, cal_bucketTop := t\<rparr>))"
      using InSlot assms(4) by (simp add: cal_DoRemoveNext_def cal_IsEmpty_def)
    show ?thesis by (rule that [OF eq]) (use f h in simp_all)
  next
    case (Least k mb)
    with \<open>cal_found_ok c ?scan\<close> assms(3) obtain b ev where f: "mb = Some (b, ev)" "k = ev_key ev" "b < cal_nBuckets c" "cal_buckets c ! b \<noteq> []"
      "ev = cal_NextEvent c (cal_buckets c ! b)" "\<forall>e \<in># cal_events c. rank ev \<le> rank e"
      by (cases mb) (auto simp: cal_found_ok_def)
    have eq: "cal_DoRemoveNext c = Some (ev, cal_pop_bucket b (c\<lparr>cal_lastBucket := cal_Hash c (ts_of ev), cal_lastPrio := ts_of ev,
        cal_bucketTop := (ts_of ev div cal_width c + 1) * cal_width c\<rparr>))"
      using Least f(1,2) assms(4) by (simp add: cal_DoRemoveNext_def cal_IsEmpty_def)
    show ?thesis by (rule that [OF eq]) (use f in simp_all)
  qed
  let ?c1 = "c\<lparr>cal_lastBucket := x, cal_lastPrio := p, cal_bucketTop := t\<rparr>"
  have c1: "cal_shape ?c1" "cal_events ?c1 = cal_events c" "ev = cal_NextEvent ?c1 (cal_buckets ?c1 ! i)"
    using assms(1) r(4) by (simp_all add: cal_events_def cal_NextEvent_def)
  note pop = cal_pop_bucket_ok [OF c1(1), of i, simplified, OF r(2,3)]
  show ?thesis
  proof (rule that [OF r(1)])
    show "cal_shape (cal_pop_bucket i ?c1)" by (rule pop(1))
    show ev: "cal_events c = add_mset ev (cal_events (cal_pop_bucket i ?c1))"
      using pop(2) c1 by simp
    have "\<forall>e \<in># cal_events (cal_pop_bucket i ?c1). ts_of ev \<le> ts_of e"
      using ev r(5) rank_le_ts by auto
    then show "cal_start (cal_pop_bucket i ?c1)"
      using r(6-8) by (simp add: cal_start_def cal_pop_bucket_def cal_Hash_slot cal_slot_def)
  qed (use r(5,6) in \<open>simp_all add: cal_pop_bucket_def\<close>)
qed

lemma cal_PeekNext_DoRemoveNext:
  assumes "cal_shape c" "cal_start c" "cal_events c \<noteq> {#}" "cal_qSize c \<noteq> 0" "uids_distinct (cal_events c)"
  shows "cal_PeekNext c = map_option fst (cal_DoRemoveNext c)"
proof -
  let ?k = "\<lparr>m_ts = - 1, m_uid = - 1, m_context = 0\<rparr> :: event_key"
  let ?scan = "cal_scan c (cal_nBuckets c) (cal_lastBucket c) (cal_bucketTop c) ?k None"
  have ok: "cal_found_ok c ?scan"
    using cal_scan_ok [OF assms(1,2), of "cal_nBuckets c" 0 ?k None] assms(2)
    by (simp add: cal_least_upto_def cal_start_def slot_top_word [symmetric, simplified])
  have nx: "cal_NextEvent c (cal_buckets c ! i) \<in># cal_events c" if "i < cal_nBuckets c" "cal_buckets c ! i \<noteq> []" for i
    using cal_NextEvent_facts(1) [OF cal_shapeD(1) [OF assms(1) that(1)] that(2)] that(1) by (auto simp: in_cal_events)
  obtain e where e: "cal_PeekNext c = Some e" "e \<in># cal_events c" "\<forall>f \<in># cal_events c. rank e \<le> rank f"
  proof (cases ?scan)
    case (InSlot i t ev)
    with ok nx [of i] assms(4) that [of ev] show ?thesis by (auto simp: cal_found_ok_def cal_PeekNext_def cal_IsEmpty_def)
  next
    case (Least k mb)
    with ok assms(3) obtain b ev where f: "mb = Some (b, ev)" "b < cal_nBuckets c" "cal_buckets c ! b \<noteq> []"
      "ev = cal_NextEvent c (cal_buckets c ! b)" "\<forall>e \<in># cal_events c. rank ev \<le> rank e"
      by (cases mb) (auto simp: cal_found_ok_def)
    with Least nx [of b] assms(4) that [of ev] show ?thesis by (simp add: cal_PeekNext_def cal_IsEmpty_def)
  qed
  from assms(1-4) obtain ev c' where r: "cal_DoRemoveNext c = Some (ev, c')"
    "cal_events c = add_mset ev (cal_events c')" "\<forall>f \<in># cal_events c. rank ev \<le> rank f"
    by (rule cal_DoRemoveNext_ok)
  have "ev \<in># cal_events c" using r(2) by simp
  then have "rank e = rank ev" using e r(3) by (intro antisym) auto
  with uids_distinct_rank_inj [OF assms(5) e(2) \<open>ev \<in># _\<close>] show ?thesis
    by (simp add: e(1) r(1))
qed

section \<open>Resizing\<close>

definition cal_invar :: "calendar \<Rightarrow> bool" where
  "cal_invar c \<longleftrightarrow> cal_shape c \<and> cal_start c \<and> cal_qSize c = size (cal_events c)"

lemma cal_gather_ok:
  assumes "cal_shape c" "cal_start c" "n \<le> size (cal_events c)" "cal_qSize c \<noteq> 0"
  shows "\<exists>evs c'. cal_gather n c = Some (evs, c') \<and> cal_shape c' \<and> cal_events c = mset evs + cal_events c'
    \<and> cal_qSize c' = cal_qSize c \<and> cal_nBuckets c' = cal_nBuckets c \<and> cal_width c' = cal_width c
    \<and> cal_reverse c' = cal_reverse c"
  using assms
proof (induction n arbitrary: c)
  case (Suc n)
  from Suc.prems(1,2) _ Suc.prems(4) obtain ev c' where r: "cal_DoRemoveNext c = Some (ev, c')" "cal_shape c'" "cal_start c'"
    "cal_events c = add_mset ev (cal_events c')" "cal_qSize c' = cal_qSize c" "cal_nBuckets c' = cal_nBuckets c"
    "cal_width c' = cal_width c" "cal_reverse c' = cal_reverse c"
    by (rule cal_DoRemoveNext_ok) (use Suc.prems(3) in auto)
  have "n \<le> size (cal_events c')" using Suc.prems(3) r(4) by simp
  from Suc.IH [OF r(2,3) this] Suc.prems(4) r show ?case by fastforce
qed simp

lemma cal_events_ts: "cal_shape c \<Longrightarrow> e \<in># cal_events c \<Longrightarrow> unat (ts_of e) < 2 ^ 63"
  using cal_shapeD(2) by (auto simp: in_cal_events)

lemma cal_nSamples_le: "cal_nSamples c \<le> cal_qSize c"
  by (auto simp: cal_nSamples_def)

lemma cal_width_of_pos: "cal_width_of n samples \<noteq> 0"
proof -
  have "(1 :: u64) \<le> max x 1" for x by simp
  moreover have "\<not> (1 :: u64) \<le> 0" by simp
  ultimately show ?thesis unfolding cal_width_of_def Let_def by metis
qed

lemma cal_CalculateNewWidth_ok:
  assumes "cal_invar c"
  shows "\<exists>w c'. cal_CalculateNewWidth c = Some (w, c') \<and> w \<noteq> 0 \<and> cal_invar c' \<and> cal_events c' = cal_events c
    \<and> cal_nBuckets c' = cal_nBuckets c \<and> cal_lastPrio c' = cal_lastPrio c"
proof (cases "cal_qSize c < 2")
  case True
  with assms show ?thesis by (simp add: cal_CalculateNewWidth_def)
next
  case False
  have c: "cal_shape c" "cal_start c" "cal_qSize c = size (cal_events c)" using assms by (simp_all add: cal_invar_def)
  have "cal_nSamples c \<le> size (cal_events c)" "cal_qSize c \<noteq> 0"
    using False c(3) cal_nSamples_le [of c] by auto
  from cal_gather_ok [OF c(1,2) this] obtain evs c1 where g: "cal_gather (cal_nSamples c) c = Some (evs, c1)" "cal_shape c1"
    "cal_events c = mset evs + cal_events c1" "cal_qSize c1 = cal_qSize c" "cal_nBuckets c1 = cal_nBuckets c"
    "cal_width c1 = cal_width c" "cal_reverse c1 = cal_reverse c" by blast
  have "\<forall>e \<in> set evs. unat (ts_of e) < 2 ^ 63"
    using cal_events_ts [OF c(1)] g(3) by simp
  note f = fold_cal_DoInsert [OF g(2) this]
  let ?c' = "(fold cal_DoInsert evs c1)\<lparr>cal_lastBucket := cal_lastBucket c, cal_bucketTop := cal_bucketTop c, cal_lastPrio := cal_lastPrio c\<rparr>"
  have e: "cal_events ?c' = cal_events c" using f(2) g(3) by (simp add: cal_events_def)
  have "cal_start ?c'"
    using c(2) e f g by (simp add: cal_start_def cal_slot_def)
  moreover have "cal_shape ?c'" using f(1) by simp
  ultimately show ?thesis
    using False g f c(3) e cal_width_of_pos by (simp add: cal_CalculateNewWidth_def cal_invar_def)
qed

lemma cal_DoResize_ok:
  assumes "cal_invar c" "0 < newSize" "w \<noteq> 0"
  shows "cal_invar (cal_DoResize newSize w c)" "cal_events (cal_DoResize newSize w c) = cal_events c"
    "cal_lastPrio (cal_DoResize newSize w c) = cal_lastPrio c"
proof -
  let ?c0 = "cal_Init newSize w (cal_lastPrio c) c"
  have s0: "cal_shape ?c0" "cal_events ?c0 = {#}" "cal_nBuckets ?c0 = newSize" "cal_width ?c0 = w"
    "cal_lastPrio ?c0 = cal_lastPrio c" "cal_qSize ?c0 = cal_qSize c"
    "cal_lastBucket ?c0 = cal_slot ?c0 (cal_lastPrio c) mod newSize"
    "cal_bucketTop ?c0 = (cal_lastPrio c div w + 1) * w"
    using assms(2,3)
    by (simp_all add: cal_Init_def Let_def cal_shape_def cal_events_def cal_sorted_def cal_Hash_def cal_slot_def
        unat_div_distrib)
  have ts: "\<forall>e \<in> set (concat (cal_buckets c)). unat (ts_of e) < 2 ^ 63"
    using cal_events_ts [of c] assms(1) by (simp add: cal_invar_def cal_events_def)
  note f = fold_cal_DoInsert [OF s0(1) ts, folded cal_DoResize_def]
  show e: "cal_events (cal_DoResize newSize w c) = cal_events c"
    using f(2) s0(2) by (simp add: cal_events_def)
  show "cal_lastPrio (cal_DoResize newSize w c) = cal_lastPrio c" using f(7) s0(5) by simp
  show "cal_invar (cal_DoResize newSize w c)"
    using assms(1) f s0 e by (simp add: cal_invar_def cal_start_def cal_slot_def)
qed

lemma cal_Resize_ok:
  assumes "cal_invar c" "0 < newSize"
  shows "\<exists>c'. cal_Resize newSize c = Some c' \<and> cal_invar c' \<and> cal_events c' = cal_events c \<and> cal_lastPrio c' = cal_lastPrio c"
proof -
  from cal_CalculateNewWidth_ok [OF assms(1)] obtain w c1 where "cal_CalculateNewWidth c = Some (w, c1)" "w \<noteq> 0" "cal_invar c1"
    "cal_events c1 = cal_events c" "cal_lastPrio c1 = cal_lastPrio c" by blast
  with cal_DoResize_ok [of c1 newSize w] assms(2) show ?thesis by (simp add: cal_Resize_def)
qed

lemma cal_ResizeUp_ok:
  assumes "cal_invar c"
  shows "\<exists>c'. cal_ResizeUp c = Some c' \<and> cal_invar c' \<and> cal_events c' = cal_events c \<and> cal_lastPrio c' = cal_lastPrio c"
  using cal_Resize_ok [OF assms, of "cal_nBuckets c * 2"] assms
  by (auto simp: cal_ResizeUp_def cal_invar_def cal_shape_def)

lemma cal_ResizeDown_ok:
  assumes "cal_invar c"
  shows "\<exists>c'. cal_ResizeDown c = Some c' \<and> cal_invar c' \<and> cal_events c' = cal_events c \<and> cal_lastPrio c' = cal_lastPrio c"
  using cal_Resize_ok [OF assms, of "cal_nBuckets c div 2"] assms
  by (cases "cal_qSize c < cal_nBuckets c div 2") (auto simp: cal_ResizeDown_def)

section \<open>The contract\<close>

lemma cal_qSize_update [simp]:
  "cal_events (c\<lparr>cal_qSize := n\<rparr>) = cal_events c" "cal_start (c\<lparr>cal_qSize := n\<rparr>) = cal_start c"
  by (simp_all add: cal_events_def cal_start_def cal_slot_def)

lemma cal_new_ok: "cal_invar (cal_new r) \<and> cal_events (cal_new r) = {#} \<and> cal_lastPrio (cal_new r) = 0"
  by (simp add: cal_new_def cal_invar_def cal_Init_def Let_def cal_shape_def cal_start_def cal_events_def
      cal_sorted_def cal_Hash_def cal_slot_def less_Suc_eq numeral_2_eq_2)

lemma cal_Insert_ok:
  assumes "cal_invar c" "cal_lastPrio c \<le> ts_of ev" "unat (ts_of ev) < 2 ^ 63"
  shows "\<exists>c'. cal_Insert ev c = Some c' \<and> cal_invar c' \<and> cal_events c' = add_mset ev (cal_events c)
    \<and> cal_lastPrio c' = cal_lastPrio c"
proof -
  let ?c = "cal_DoInsert ev c"
  have c: "cal_shape c" "cal_start c" "cal_qSize c = size (cal_events c)" using assms(1) by (simp_all add: cal_invar_def)
  note s = cal_DoInsert_shape [OF c(1) assms(3)]
  have "cal_start ?c"
    using c(2) s(2) assms(2) by (simp add: cal_start_def cal_slot_def)
  then have i: "cal_invar (?c\<lparr>cal_qSize := cal_qSize ?c + 1\<rparr>)"
    using s c(3) by (simp add: cal_invar_def)
  from cal_ResizeUp_ok [OF this] s(2) show ?thesis
    by (simp add: cal_Insert_def Let_def)
qed

lemma cal_IsEmpty_iff: "cal_invar c \<Longrightarrow> cal_IsEmpty c \<longleftrightarrow> cal_events c = {#}"
  by (simp add: cal_invar_def cal_IsEmpty_def)

lemma cal_RemoveNext_ok:
  assumes "cal_invar c" "cal_events c \<noteq> {#}"
  shows "\<exists>ev c'. cal_RemoveNext c = Some (ev, c') \<and> cal_invar c' \<and> cal_events c = add_mset ev (cal_events c')
    \<and> (\<forall>e \<in># cal_events c. rank ev \<le> rank e) \<and> cal_lastPrio c' = ts_of ev"
proof -
  have c: "cal_shape c" "cal_start c" "cal_qSize c = size (cal_events c)" using assms(1) by (simp_all add: cal_invar_def)
  with assms(2) have q: "cal_qSize c \<noteq> 0" by simp
  from c(1,2) assms(2) q obtain ev c1 where r: "cal_DoRemoveNext c = Some (ev, c1)" "cal_shape c1" "cal_start c1"
    "cal_events c = add_mset ev (cal_events c1)" "\<forall>e \<in># cal_events c. rank ev \<le> rank e"
    "cal_lastPrio c1 = ts_of ev" "cal_qSize c1 = cal_qSize c" by (rule cal_DoRemoveNext_ok)
  have "cal_invar (c1\<lparr>cal_qSize := cal_qSize c1 - 1\<rparr>)"
    using r c(3) by (simp add: cal_invar_def)
  from cal_ResizeDown_ok [OF this] obtain c2 where c2: "cal_ResizeDown (c1\<lparr>cal_qSize := cal_qSize c1 - 1\<rparr>) = Some c2"
    "cal_invar c2" "cal_events c2 = cal_events c1" "cal_lastPrio c2 = cal_lastPrio c1" by auto
  from c2 r q show ?thesis
    by (intro exI [of _ ev] exI [of _ c2]) (simp add: cal_RemoveNext_def cal_IsEmpty_def)
qed

lemma cal_bucket_remove_present:
  "ev \<in> set b \<Longrightarrow> (\<forall>e \<in> set b. uid_of e = uid_of ev \<longrightarrow> e = ev) \<Longrightarrow>
     \<exists>b'. cal_bucket_remove ev b = Some b' \<and> mset b = add_mset ev (mset b')"
  by (induction ev b rule: cal_bucket_remove.induct) auto

lemma cal_bucket_remove_sorted: "cal_bucket_remove ev b = Some b' \<Longrightarrow> cal_sorted c b \<Longrightarrow> cal_sorted c b' \<and> set b' \<subseteq> set b"
proof (induction ev b arbitrary: b' rule: cal_bucket_remove.induct)
  case (2 ev e es)
  show ?case
  proof (cases "uid_of e = uid_of ev")
    case True
    with 2 show ?thesis by (auto simp: cal_sorted_def split: if_splits)
  next
    case False
    with 2 obtain es' where es': "cal_bucket_remove ev es = Some es'" "b' = e # es'" by auto
    moreover have "cal_sorted c es" using 2 by (simp add: cal_sorted_def split: if_splits)
    ultimately show ?thesis using 2 False by (auto simp: cal_sorted_def subset_iff split: if_splits)
  qed
qed simp

lemma cal_Remove_ok:
  assumes "cal_invar c" "ev \<in># cal_events c" "uids_distinct (cal_events c)"
  shows "\<exists>c'. cal_Remove ev c = Some c' \<and> cal_invar c' \<and> cal_events c = add_mset ev (cal_events c')
    \<and> cal_lastPrio c' = cal_lastPrio c"
proof -
  have c: "cal_shape c" "cal_start c" "cal_qSize c = size (cal_events c)" using assms(1) by (simp_all add: cal_invar_def)
  let ?i = "cal_Hash c (ts_of ev)"
  from assms(2) obtain j where j: "j < cal_nBuckets c" "ev \<in> set (cal_buckets c ! j)" by (auto simp: in_cal_events)
  with cal_shapeD(2) [OF c(1) j] have i: "?i = j" by (simp add: cal_Hash_slot)
  have "\<forall>e \<in> set (cal_buckets c ! j). uid_of e = uid_of ev \<longrightarrow> e = ev"
  proof (intro ballI impI)
    fix e assume "e \<in> set (cal_buckets c ! j)" "uid_of e = uid_of ev"
    moreover from this j(1) have "e \<in># cal_events c" by (auto simp: in_cal_events)
    ultimately show "e = ev" using assms(2,3) by (simp add: uids_distinct_def)
  qed
  from cal_bucket_remove_present [OF j(2) this] obtain b where b: "cal_bucket_remove ev (cal_buckets c ! j) = Some b"
    "mset (cal_buckets c ! j) = add_mset ev (mset b)" by blast
  let ?c = "c\<lparr>cal_buckets := (cal_buckets c)[j := b], cal_qSize := cal_qSize c - 1\<rparr>"
  have e: "cal_events c = add_mset ev (cal_events (c\<lparr>cal_buckets := (cal_buckets c)[j := b]\<rparr>))"
    using cal_events_update_remove [OF j(1) b(2)] by (simp add: cal_events_def)
  have "cal_sorted c b" "set b \<subseteq> set (cal_buckets c ! j)"
    using cal_bucket_remove_sorted [OF b(1) cal_shapeD(1) [OF c(1) j(1)]] by blast+
  then have "cal_shape ?c"
    using c(1) j(1) by (auto simp: cal_shape_def cal_sorted_def cal_slot_def nth_list_update)
  moreover have "cal_start ?c"
    using c(2) e by (simp add: cal_start_def cal_slot_def)
  ultimately have "cal_invar ?c" using c(3) e by (simp add: cal_invar_def)
  from cal_ResizeDown_ok [OF this] obtain c2 where c2: "cal_ResizeDown ?c = Some c2" "cal_invar c2"
    "cal_events c2 = cal_events (c\<lparr>cal_buckets := (cal_buckets c)[j := b]\<rparr>)" "cal_lastPrio c2 = cal_lastPrio c" by auto
  moreover have "\<not> cal_IsEmpty c" using cal_IsEmpty_iff [OF assms(1)] assms(2) by auto
  ultimately have "cal_Remove ev c = Some c2" using b(1) i by (simp add: cal_Remove_def)
  with c2 e show ?thesis by metis
qed

interpretation cal_sched: timed_event_list_remove cal_Insert cal_IsEmpty cal_RemoveNext cal_events cal_invar
  cal_lastPrio "cal_new reverse" cal_Remove for reverse
proof (unfold_locales, goal_cases)
  case 1 show ?case using cal_new_ok by simp
next
  case (2 q ev) then show ?case using cal_Insert_ok by blast
next
  case (3 q) then show ?case by (rule cal_IsEmpty_iff)
next
  case (4 q) then show ?case using cal_RemoveNext_ok by fastforce
next
  case (5 q ev) then show ?case using cal_Remove_ok by blast
qed

end
