(* ===== verification/SchedulerDispatch.thy ===== *)
theory SchedulerDispatch
  imports ListScheduler MapScheduler HeapScheduler PriorityQueueScheduler CalendarScheduler
begin

text \<open>
  The object behind a \<open>Ptr<Scheduler>\<close>: one of the five implementations, and the calls of the virtual
  operations. \<open>sched_kind\<close> is what the object factory of \<open>SetScheduler\<close> creates.

  All five fulfil the contract of the simulator, \<open>timed_event_list\<close>; all but the heap, whose
  \<open>Remove\<close> does not keep its order, also that of \<open>Remove\<close>.
\<close>

datatype scheduler =
    ListSched list_scheduler
  | MapSched map_scheduler
  | HeapSched heap_scheduler
  | PqSched pq_scheduler
  | CalSched calendar

datatype sched_kind = ListKind | MapKind | HeapKind | PqKind | CalKind bool

fun sched_Create :: "sched_kind \<Rightarrow> scheduler" where
  "sched_Create ListKind = ListSched []"
| "sched_Create MapKind = MapSched []"
| "sched_Create HeapKind = HeapSched heap_new"
| "sched_Create PqKind = PqSched []"
| "sched_Create (CalKind reverse) = CalSched (cal_new reverse)"

fun sched_Insert :: "event \<Rightarrow> scheduler \<Rightarrow> scheduler option" where
  "sched_Insert ev (ListSched q) = Some (ListSched (list_Insert ev q))"
| "sched_Insert ev (MapSched q) = map_option MapSched (map_Insert ev q)"
| "sched_Insert ev (HeapSched q) = Some (HeapSched (heap_Insert ev q))"
| "sched_Insert ev (PqSched q) = Some (PqSched (pq_Insert ev q))"
| "sched_Insert ev (CalSched q) = map_option CalSched (cal_Insert ev q)"

fun sched_IsEmpty :: "scheduler \<Rightarrow> bool" where
  "sched_IsEmpty (ListSched q) = list_IsEmpty q"
| "sched_IsEmpty (MapSched q) = map_IsEmpty q"
| "sched_IsEmpty (HeapSched q) = heap_IsEmpty q"
| "sched_IsEmpty (PqSched q) = pq_IsEmpty q"
| "sched_IsEmpty (CalSched q) = cal_IsEmpty q"

fun sched_RemoveNext :: "scheduler \<Rightarrow> (event \<times> scheduler) option" where
  "sched_RemoveNext (ListSched q) = map_option (\<lambda>(ev, q'). (ev, ListSched q')) (list_RemoveNext q)"
| "sched_RemoveNext (MapSched q) = map_option (\<lambda>(ev, q'). (ev, MapSched q')) (map_RemoveNext q)"
| "sched_RemoveNext (HeapSched q) = map_option (\<lambda>(ev, q'). (ev, HeapSched q')) (heap_RemoveNext q)"
| "sched_RemoveNext (PqSched q) = map_option (\<lambda>(ev, q'). (ev, PqSched q')) (pq_RemoveNext q)"
| "sched_RemoveNext (CalSched q) = map_option (\<lambda>(ev, q'). (ev, CalSched q')) (cal_RemoveNext q)"

fun sched_Remove :: "event \<Rightarrow> scheduler \<Rightarrow> scheduler option" where
  "sched_Remove ev (ListSched q) = map_option ListSched (list_Remove ev q)"
| "sched_Remove ev (MapSched q) = map_option MapSched (map_Remove ev q)"
| "sched_Remove ev (HeapSched q) = map_option HeapSched (heap_Remove ev q)"
| "sched_Remove ev (PqSched q) = Some (PqSched (pq_Remove ev q))"
| "sched_Remove ev (CalSched q) = map_option CalSched (cal_Remove ev q)"

section \<open>The contract\<close>

fun sched_events :: "scheduler \<Rightarrow> event multiset" where
  "sched_events (ListSched q) = mset q"
| "sched_events (MapSched q) = mset (map_events q)"
| "sched_events (HeapSched q) = heap_events q"
| "sched_events (PqSched q) = mset q"
| "sched_events (CalSched q) = cal_events q"

fun sched_invar :: "scheduler \<Rightarrow> bool" where
  "sched_invar (ListSched q) = list_invar q"
| "sched_invar (MapSched q) = map_invar q"
| "sched_invar (HeapSched q) = heap_invar q"
| "sched_invar (PqSched q) = True"
| "sched_invar (CalSched q) = cal_invar q"

fun sched_floor :: "scheduler \<Rightarrow> u64" where
  "sched_floor (CalSched q) = cal_lastPrio q"
| "sched_floor _ = 0"

fun sched_removes :: "scheduler \<Rightarrow> bool" where
  "sched_removes (HeapSched q) = False"
| "sched_removes _ = True"

lemma sched_Create_ok: "sched_invar (sched_Create k) \<and> sched_events (sched_Create k) = {#} \<and> sched_floor (sched_Create k) = 0"
  by (cases k) (use list_sched.empty_ok map_sched.empty_ok heap_sched.empty_ok cal_sched.empty_ok in auto)

lemma sched_Insert_ok:
  assumes "sched_invar q" "sched_floor q \<le> ts_of ev" "unat (ts_of ev) < 2 ^ 63"
    "\<forall>e \<in># sched_events q. uid_of e \<noteq> uid_of ev"
  shows "\<exists>q'. sched_Insert ev q = Some q' \<and> sched_invar q' \<and> sched_events q' = add_mset ev (sched_events q)
    \<and> sched_floor q' = sched_floor q \<and> sched_removes q' = sched_removes q"
proof (cases q)
  case (ListSched x) with assms list_sched.insert_ok [of x ev] show ?thesis by auto
next
  case (MapSched x) with assms map_sched.insert_ok [of x ev] show ?thesis by auto
next
  case (HeapSched x) with assms heap_sched.insert_ok [of x ev] show ?thesis by auto
next
  case (PqSched x) with assms pq_sched.insert_ok [where q = x and ev = ev] show ?thesis by auto
next
  case (CalSched x) with assms cal_sched.insert_ok [of x ev] show ?thesis by auto
qed

lemma sched_IsEmpty_iff: "sched_invar q \<Longrightarrow> sched_IsEmpty q \<longleftrightarrow> sched_events q = {#}"
  by (cases q) (simp_all add: list_sched.empty_iff map_sched.empty_iff heap_sched.empty_iff
      pq_sched.empty_iff cal_sched.empty_iff)

lemma sched_RemoveNext_ok:
  assumes "sched_invar q" "sched_events q \<noteq> {#}"
  shows "\<exists>ev q'. sched_RemoveNext q = Some (ev, q') \<and> sched_invar q' \<and> sched_events q = add_mset ev (sched_events q')
    \<and> (\<forall>e \<in># sched_events q. rank ev \<le> rank e) \<and> sched_floor q' \<le> ts_of ev \<and> sched_removes q' = sched_removes q"
proof (cases q)
  case (ListSched x) with assms list_sched.remove_next_ok [of x] show ?thesis by auto
next
  case (MapSched x) with assms map_sched.remove_next_ok [of x] show ?thesis by auto
next
  case (HeapSched x) with assms heap_sched.remove_next_ok [of x] show ?thesis by auto
next
  case (PqSched x) with assms pq_sched.remove_next_ok [of x] show ?thesis by auto
next
  case (CalSched x) with assms cal_sched.remove_next_ok [of x] show ?thesis by auto
qed

lemma sched_Remove_ok:
  assumes "sched_invar q" "sched_removes q" "ev \<in># sched_events q" "uids_distinct (sched_events q)"
  shows "\<exists>q'. sched_Remove ev q = Some q' \<and> sched_invar q' \<and> sched_events q = add_mset ev (sched_events q')
    \<and> sched_floor q' = sched_floor q \<and> sched_removes q'"
proof (cases q)
  case (ListSched x) with assms list_sched.remove_ok [of x ev] show ?thesis by auto
next
  case (MapSched x) with assms map_sched.remove_ok [of x ev] show ?thesis by auto
next
  case (HeapSched x) with assms show ?thesis by simp
next
  case (PqSched x) with assms pq_sched.remove_ok [where q = x and ev = ev] pq_Remove_found_eq [of ev x] show ?thesis by auto
next
  case (CalSched x) with assms cal_sched.remove_ok [of x ev] show ?thesis by auto
qed

interpretation sched: timed_event_list "sched_Create k" sched_Insert sched_IsEmpty sched_RemoveNext
  sched_events sched_invar sched_floor for k
proof (unfold_locales, goal_cases)
  case 1 show ?case by (rule sched_Create_ok)
next
  case (2 q ev) then show ?case using sched_Insert_ok by blast
next
  case (3 q) then show ?case by (rule sched_IsEmpty_iff)
next
  case (4 q) then show ?case using sched_RemoveNext_ok by blast
qed

text \<open>C9: each of the five event lists accepts any sequence of events with distinct ids and times in the
  range of \<open>Time\<close>, and gives them back ordered by time, and by id among events of the same time; where the
  list implements removal, taking out one event first leaves the others in that order.\<close>

theorem every_scheduler_sorts:
  assumes "distinct (map uid_of evs)" "\<forall>e \<in> set evs. unat (ts_of e) < 2 ^ 63"
  shows "\<exists>q. insert_events sched_Insert evs (sched_Create k) = Some q
    \<and> drain sched_RemoveNext (length evs) q = sort_key rank evs
    \<and> (\<forall>ev \<in> set evs. sched_removes q \<longrightarrow>
        (\<exists>q'. sched_Remove ev q = Some q' \<and> drain sched_RemoveNext (length evs - 1) q' = sort_key rank (remove1 ev evs)))"
proof -
  have "\<exists>q. insert_events sched_Insert evs (sched_Create k) = Some q \<and> sched_invar q \<and> sched_events q = mset evs + {#} \<and> sched_floor q = 0"
    using sched.insert_events_ok [of "sched_Create k" evs] sched_Create_ok [of k] assms by auto
  then obtain q where q: "insert_events sched_Insert evs (sched_Create k) = Some q" "sched_invar q" "sched_events q = mset evs" by auto
  have u: "uids_distinct (sched_events q)" using q(3) uids_distinct_mset [OF assms(1)] by simp
  have "drain sched_RemoveNext (length evs) q = sort_key rank evs"
    using sched.timed_drain [OF q(2) u, of "sort_key rank evs"] q(3) by simp
  moreover have "\<exists>q'. sched_Remove ev q = Some q' \<and> drain sched_RemoveNext (length evs - 1) q' = sort_key rank (remove1 ev evs)"
    if ev: "ev \<in> set evs" and rm: "sched_removes q" for ev
  proof -
    from sched_Remove_ok [OF q(2) rm _ u] ev q(3) obtain q' where q': "sched_Remove ev q = Some q'" "sched_invar q'"
      "sched_events q = add_mset ev (sched_events q')" by auto
    have e: "sched_events q' = mset (sort_key rank (remove1 ev evs))" using q'(3) q(3) by simp
    have "uids_distinct (sched_events q')" using uids_distinct_remove [OF u, of ev] q'(3) by simp
    from sched.timed_drain [OF q'(2) this e [symmetric]] q'(1) ev show ?thesis by (simp add: length_remove1)
  qed
  ultimately show ?thesis using q(1) by blast
qed

definition sample_pair :: "event list" where
  "sample_pair = [\<lparr>ev_impl = 0, ev_key = \<lparr>m_ts = 7, m_uid = 4, m_context = 0\<rparr>\<rparr>,
     \<lparr>ev_impl = 1, ev_key = \<lparr>m_ts = 3, m_uid = 5, m_context = 0\<rparr>\<rparr>]"

theorem every_scheduler_sorts_witness:
  "\<exists>q. insert_events sched_Insert sample_pair (sched_Create (CalKind False)) = Some q
     \<and> drain sched_RemoveNext 2 q = rev sample_pair"
proof -
  have "distinct (map uid_of sample_pair)" "\<forall>e \<in> set sample_pair. unat (ts_of e) < 2 ^ 63" "length sample_pair = 2"
    by (simp_all add: sample_pair_def)
  moreover have "sort_key rank sample_pair = rev sample_pair" by (simp add: sample_pair_def rank_def)
  ultimately show ?thesis
    using every_scheduler_sorts [of sample_pair "CalKind False"] by auto
qed

end
