(* ===== verification/DefaultSimulator.thy ===== *)
theory DefaultSimulator
  imports SchedulerDispatch
begin

text \<open>
  \<open>src/core/model/default-simulator-impl.cc\<close>: the simulator core, with \<open>EventId\<close>
  (\<open>event-id.cc\<close>) and the cancel flag of \<open>EventImpl\<close> (\<open>event-impl.cc\<close>).

  \<^item> An event implementation is a pointer, a \<open>nat\<close>; the simulator state holds the cancel flag of each.
    What its \<open>Notify\<close> does is client code: a program that makes calls of the simulator and goes on
    with their answers (\<open>prog\<close>), as a function of the pointer and of the state \<open>'w\<close> of the client.
  \<^item> \<open>Time\<close> values are 64-bit words read as signed numbers; the sum of two is undefined when it leaves
    the signed range. Failed assertions and undefined behaviour are \<open>None\<close>.
  \<^item> \<open>m_uid\<close> is a \<open>nat\<close>, truncated to 32 bits where it is stored in a key; \<open>m_unscheduledEvents\<close> is an
    \<open>int\<close>. \<open>PreEventHook\<close> does nothing in this class and the logging calls are left out.
  \<^item> \<open>ScheduleWithContext\<close> is two operations, for the main thread and for another one.
\<close>

section \<open>Event ids and state\<close>

record event_id =
  id_impl :: "nat option"
  id_ts :: u64
  id_context :: u32
  id_uid :: u32

definition id_new :: event_id where
  "id_new = \<lparr>id_impl = None, id_ts = 0, id_context = 0, id_uid = 0\<rparr>"

definition id_eq :: "event_id \<Rightarrow> event_id \<Rightarrow> bool" where
  "id_eq a b \<longleftrightarrow> id_uid a = id_uid b \<and> id_context a = id_context b \<and> id_ts a = id_ts b \<and> id_impl a = id_impl b"

definition id_less :: "event_id \<Rightarrow> event_id \<Rightarrow> bool" where
  "id_less a b \<longleftrightarrow> id_ts a < id_ts b"

abbreviation UID_INVALID :: u32 where "UID_INVALID \<equiv> 0"
abbreviation UID_DESTROY :: u32 where "UID_DESTROY \<equiv> 2"
abbreviation UID_VALID :: nat where "UID_VALID \<equiv> 4"
abbreviation NO_CONTEXT :: u32 where "NO_CONTEXT \<equiv> 0xffffffff"

record event_with_context =
  ewc_context :: u32
  ewc_timestamp :: u64
  ewc_event :: nat

record simulator =
  sm_eventsWithContext :: "event_with_context list"
  sm_eventsWithContextEmpty :: bool
  sm_destroyEvents :: "event_id list"
  sm_stop :: bool
  sm_events :: "scheduler option"
  sm_uid :: nat
  sm_currentUid :: u32
  sm_currentTs :: u64
  sm_currentContext :: u32
  sm_eventCount :: u64
  sm_unscheduledEvents :: int
  sm_cancelled :: "nat \<Rightarrow> bool"

definition sim_new :: simulator where
  "sim_new = \<lparr>sm_eventsWithContext = [], sm_eventsWithContextEmpty = True, sm_destroyEvents = [],
     sm_stop = False, sm_events = None, sm_uid = UID_VALID, sm_currentUid = UID_INVALID, sm_currentTs = 0,
     sm_currentContext = NO_CONTEXT, sm_eventCount = 0, sm_unscheduledEvents = 0, sm_cancelled = (\<lambda>_. False)\<rparr>"

section \<open>Event implementations\<close>

definition impl_Cancel :: "nat \<Rightarrow> simulator \<Rightarrow> simulator" where
  "impl_Cancel i s = s\<lparr>sm_cancelled := (sm_cancelled s)(i := True)\<rparr>"

definition impl_IsCancelled :: "nat \<Rightarrow> simulator \<Rightarrow> bool" where
  "impl_IsCancelled i s = sm_cancelled s i"

section \<open>Scheduling\<close>

definition time_plus :: "u64 \<Rightarrow> u64 \<Rightarrow> u64 option" where
  "time_plus a b = (let t = sint a + sint b in if - (2 ^ 63) \<le> t \<and> t < 2 ^ 63 then Some (word_of_int t) else None)"

definition sim_insert :: "event \<Rightarrow> simulator \<Rightarrow> simulator option" where
  \<comment> \<open>\<open>m_uid++; m_unscheduledEvents++; m_events->Insert(ev)\<close>\<close>
  "sim_insert ev s =
     (case sm_events s of
        None \<Rightarrow> None
      | Some q \<Rightarrow>
          map_option (\<lambda>q'. s\<lparr>sm_events := Some q', sm_uid := sm_uid s + 1,
                            sm_unscheduledEvents := sm_unscheduledEvents s + 1\<rparr>) (sched_Insert ev q))"

definition sim_new_event :: "nat \<Rightarrow> u64 \<Rightarrow> u32 \<Rightarrow> simulator \<Rightarrow> event" where
  "sim_new_event impl ts context s =
     \<lparr>ev_impl = impl, ev_key = \<lparr>m_ts = ts, m_uid = of_nat (sm_uid s), m_context = context\<rparr>\<rparr>"

definition id_of :: "event \<Rightarrow> event_id" where
  "id_of ev = \<lparr>id_impl = Some (ev_impl ev), id_ts = ts_of ev, id_context = m_context (ev_key ev), id_uid = uid_of ev\<rparr>"

definition sim_GetContext :: "simulator \<Rightarrow> u32" where
  "sim_GetContext s = sm_currentContext s"

definition sim_Schedule :: "u64 \<Rightarrow> nat \<Rightarrow> simulator \<Rightarrow> (event_id \<times> simulator) option" where
  "sim_Schedule delay impl s =
     (if sint delay < 0 then None
      else case time_plus delay (sm_currentTs s) of
             None \<Rightarrow> None
           | Some ts \<Rightarrow>
               (let ev = sim_new_event impl ts (sim_GetContext s) s
                in map_option (\<lambda>s'. (id_of ev, s')) (sim_insert ev s)))"

definition sim_ScheduleWithContext :: "u32 \<Rightarrow> u64 \<Rightarrow> nat \<Rightarrow> simulator \<Rightarrow> simulator option" where
  "sim_ScheduleWithContext context delay impl s =
     (case time_plus delay (sm_currentTs s) of
        None \<Rightarrow> None
      | Some ts \<Rightarrow> sim_insert (sim_new_event impl ts context s) s)"

definition sim_ScheduleWithContext_other :: "u32 \<Rightarrow> u64 \<Rightarrow> nat \<Rightarrow> simulator \<Rightarrow> simulator" where
  "sim_ScheduleWithContext_other context delay impl s =
     s\<lparr>sm_eventsWithContext := sm_eventsWithContext s @
         [\<lparr>ewc_context = context, ewc_timestamp = delay, ewc_event = impl\<rparr>],
       sm_eventsWithContextEmpty := False\<rparr>"

definition sim_ScheduleNow :: "nat \<Rightarrow> simulator \<Rightarrow> (event_id \<times> simulator) option" where
  "sim_ScheduleNow impl s = sim_Schedule 0 impl s"

definition sim_ScheduleDestroy :: "nat \<Rightarrow> simulator \<Rightarrow> event_id \<times> simulator" where
  "sim_ScheduleDestroy impl s =
     (let i = \<lparr>id_impl = Some impl, id_ts = sm_currentTs s, id_context = 0xffffffff, id_uid = UID_DESTROY\<rparr>
      in (i, s\<lparr>sm_destroyEvents := sm_destroyEvents s @ [i], sm_uid := sm_uid s + 1\<rparr>))"

primrec process_ewc :: "event_with_context list \<Rightarrow> simulator \<Rightarrow> simulator option" where
  "process_ewc [] s = Some s"
| "process_ewc (x # xs) s =
     (case sim_insert (sim_new_event (ewc_event x) (sm_currentTs s + ewc_timestamp x) (ewc_context x) s) s of
        None \<Rightarrow> None
      | Some s' \<Rightarrow> process_ewc xs s')"

definition sim_ProcessEventsWithContext :: "simulator \<Rightarrow> simulator option" where
  "sim_ProcessEventsWithContext s =
     (if sm_eventsWithContextEmpty s then Some s
      else process_ewc (sm_eventsWithContext s)
             (s\<lparr>sm_eventsWithContext := [], sm_eventsWithContextEmpty := True\<rparr>))"

section \<open>Queries, removal and cancellation\<close>

definition sim_IsExpired :: "event_id \<Rightarrow> simulator \<Rightarrow> bool" where
  "sim_IsExpired i s =
     (if id_uid i = UID_DESTROY then
        (case id_impl i of
           None \<Rightarrow> True
         | Some p \<Rightarrow> if impl_IsCancelled p s then True else \<not> list_ex (\<lambda>j. id_eq j i) (sm_destroyEvents s))
      else
        (case id_impl i of
           None \<Rightarrow> True
         | Some p \<Rightarrow> id_ts i < sm_currentTs s \<or> (id_ts i = sm_currentTs s \<and> id_uid i \<le> sm_currentUid s)
             \<or> impl_IsCancelled p s))"

definition sim_Now :: "simulator \<Rightarrow> u64" where
  "sim_Now s = sm_currentTs s"

definition sim_GetDelayLeft :: "event_id \<Rightarrow> simulator \<Rightarrow> u64" where
  "sim_GetDelayLeft i s = (if sim_IsExpired i s then 0 else id_ts i - sm_currentTs s)"

fun erase_id :: "event_id \<Rightarrow> event_id list \<Rightarrow> event_id list" where
  "erase_id i [] = []"
| "erase_id i (j # js) = (if id_eq j i then js else j # erase_id i js)"

definition sim_Remove :: "event_id \<Rightarrow> simulator \<Rightarrow> simulator option" where
  "sim_Remove i s =
     (if id_uid i = UID_DESTROY then Some (s\<lparr>sm_destroyEvents := erase_id i (sm_destroyEvents s)\<rparr>)
      else if sim_IsExpired i s then Some s
      else case (id_impl i, sm_events s) of
             (Some p, Some q) \<Rightarrow>
               map_option (\<lambda>q'. (impl_Cancel p (s\<lparr>sm_events := Some q'\<rparr>))
                                  \<lparr>sm_unscheduledEvents := sm_unscheduledEvents s - 1\<rparr>)
                 (sched_Remove \<lparr>ev_impl = p, ev_key = \<lparr>m_ts = id_ts i, m_uid = id_uid i, m_context = id_context i\<rparr>\<rparr> q)
           | _ \<Rightarrow> None)"

definition sim_Cancel :: "event_id \<Rightarrow> simulator \<Rightarrow> simulator" where
  "sim_Cancel i s =
     (if sim_IsExpired i s then s
      else case id_impl i of None \<Rightarrow> s | Some p \<Rightarrow> impl_Cancel p s)"

definition sim_Stop :: "simulator \<Rightarrow> simulator" where
  "sim_Stop s = s\<lparr>sm_stop := True\<rparr>"

text \<open>\<open>Stop(delay)\<close> schedules an event whose function calls \<open>Stop\<close>; \<open>stopper\<close> is its implementation.\<close>

definition sim_Stop_after :: "u64 \<Rightarrow> nat \<Rightarrow> simulator \<Rightarrow> (event_id \<times> simulator) option" where
  "sim_Stop_after d stopper s = sim_Schedule d stopper s"

definition id_IsPending :: "event_id \<Rightarrow> simulator \<Rightarrow> bool" where
  "id_IsPending i s \<longleftrightarrow> \<not> sim_IsExpired i s"

definition sim_IsFinished :: "simulator \<Rightarrow> bool option" where
  "sim_IsFinished s = (case sm_events s of None \<Rightarrow> None | Some q \<Rightarrow> Some (sched_IsEmpty q \<or> sm_stop s))"

definition sim_GetEventCount :: "simulator \<Rightarrow> u64" where
  "sim_GetEventCount s = sm_eventCount s"

definition sim_GetMaximumSimulationTime :: u64 where
  "sim_GetMaximumSimulationTime = 0x7fffffffffffffff"

definition sim_GetSystemId :: u32 where
  "sim_GetSystemId = 0"

section \<open>Client code\<close>

datatype sim_call =
    CallSchedule u64 nat
  | CallScheduleNow nat
  | CallScheduleWithContext u32 u64 nat
  | CallScheduleDestroy nat
  | CallRemove event_id
  | CallCancel event_id
  | CallStop
  | CallIsExpired event_id
  | CallGetDelayLeft event_id
  | CallNow
  | CallGetContext
  | CallGetEventCount

datatype sim_answer = NoAnswer | AnswerId event_id | AnswerBool bool | AnswerTime u64 | AnswerContext u32

fun do_call :: "sim_call \<Rightarrow> simulator \<Rightarrow> (sim_answer \<times> simulator) option" where
  "do_call (CallSchedule d i) s = map_option (\<lambda>(x, s'). (AnswerId x, s')) (sim_Schedule d i s)"
| "do_call (CallScheduleNow i) s = map_option (\<lambda>(x, s'). (AnswerId x, s')) (sim_ScheduleNow i s)"
| "do_call (CallScheduleWithContext c d i) s = map_option (Pair NoAnswer) (sim_ScheduleWithContext c d i s)"
| "do_call (CallScheduleDestroy i) s = (case sim_ScheduleDestroy i s of (x, s') \<Rightarrow> Some (AnswerId x, s'))"
| "do_call (CallRemove i) s = map_option (Pair NoAnswer) (sim_Remove i s)"
| "do_call (CallCancel i) s = Some (NoAnswer, sim_Cancel i s)"
| "do_call CallStop s = Some (NoAnswer, sim_Stop s)"
| "do_call (CallIsExpired i) s = Some (AnswerBool (sim_IsExpired i s), s)"
| "do_call (CallGetDelayLeft i) s = Some (AnswerTime (sim_GetDelayLeft i s), s)"
| "do_call CallNow s = Some (AnswerTime (sim_Now s), s)"
| "do_call CallGetContext s = Some (AnswerContext (sim_GetContext s), s)"
| "do_call CallGetEventCount s = Some (AnswerTime (sim_GetEventCount s), s)"

datatype 'w prog = Done 'w | Do sim_call "sim_answer \<Rightarrow> 'w prog"

primrec run_prog :: "'w prog \<Rightarrow> simulator \<Rightarrow> ('w \<times> simulator) option" where
  "run_prog (Done w) s = Some (w, s)"
| "run_prog (Do c k) s =
     (case do_call c s of None \<Rightarrow> None | Some p \<Rightarrow> run_prog (k (fst p)) (snd p))"

definition impl_Invoke :: "(nat \<Rightarrow> 'w \<Rightarrow> 'w prog) \<Rightarrow> nat \<Rightarrow> 'w \<Rightarrow> simulator \<Rightarrow> ('w \<times> simulator) option" where
  "impl_Invoke notify i w s = (if impl_IsCancelled i s then Some (w, s) else run_prog (notify i w) s)"

section \<open>Running\<close>

definition sim_begin_event :: "event \<Rightarrow> scheduler \<Rightarrow> simulator \<Rightarrow> simulator" where
  "sim_begin_event ev q s =
     s\<lparr>sm_events := Some q, sm_unscheduledEvents := sm_unscheduledEvents s - 1,
       sm_eventCount := sm_eventCount s + 1, sm_currentTs := ts_of ev,
       sm_currentContext := m_context (ev_key ev), sm_currentUid := uid_of ev\<rparr>"

definition sim_ProcessOneEvent :: "(nat \<Rightarrow> 'w \<Rightarrow> 'w prog) \<Rightarrow> 'w \<Rightarrow> simulator \<Rightarrow> ('w \<times> simulator) option" where
  "sim_ProcessOneEvent notify w s =
     (case sm_events s of
        None \<Rightarrow> None
      | Some q \<Rightarrow>
          (case sched_RemoveNext q of
             None \<Rightarrow> None
           | Some (ev, q') \<Rightarrow>
               if ts_of ev < sm_currentTs s then None
               else case impl_Invoke notify (ev_impl ev) w (sim_begin_event ev q' s) of
                      None \<Rightarrow> None
                    | Some (w', s') \<Rightarrow> map_option (Pair w') (sim_ProcessEventsWithContext s')))"

text \<open>The loops that may run forever: not ending is \<open>None\<close>, a failed assertion is \<open>Some None\<close>.\<close>

partial_function (option) sim_Run_loop ::
    "(nat \<Rightarrow> 'w \<Rightarrow> 'w prog) \<Rightarrow> 'w \<Rightarrow> simulator \<Rightarrow> ('w \<times> simulator) option option" where
  "sim_Run_loop notify w s =
     (case sim_IsFinished s of
        None \<Rightarrow> Some None
      | Some finished \<Rightarrow>
          if finished then Some (Some (w, s))
          else case sim_ProcessOneEvent notify w s of
                 None \<Rightarrow> Some None
               | Some p \<Rightarrow> sim_Run_loop notify (fst p) (snd p))"

definition sim_Run :: "(nat \<Rightarrow> 'w \<Rightarrow> 'w prog) \<Rightarrow> 'w \<Rightarrow> simulator \<Rightarrow> ('w \<times> simulator) option option" where
  "sim_Run notify w s =
     (case sim_ProcessEventsWithContext s of
        None \<Rightarrow> Some None
      | Some s1 \<Rightarrow>
          (case sim_Run_loop notify w (s1\<lparr>sm_stop := False\<rparr>) of
             None \<Rightarrow> None
           | Some None \<Rightarrow> Some None
           | Some (Some (w', s')) \<Rightarrow>
               (case sm_events s' of
                  None \<Rightarrow> Some None
                | Some q \<Rightarrow> if sched_IsEmpty q \<and> sm_unscheduledEvents s' \<noteq> 0 then Some None else Some (Some (w', s')))))"

partial_function (option) sim_Destroy ::
    "(nat \<Rightarrow> 'w \<Rightarrow> 'w prog) \<Rightarrow> 'w \<Rightarrow> simulator \<Rightarrow> ('w \<times> simulator) option option" where
  "sim_Destroy notify w s =
     (case sm_destroyEvents s of
        [] \<Rightarrow> Some (Some (w, s))
      | i # is \<Rightarrow>
          (case id_impl i of
             None \<Rightarrow> Some None
           | Some p \<Rightarrow>
               (case impl_Invoke notify p w (s\<lparr>sm_destroyEvents := is\<rparr>) of
                  None \<Rightarrow> Some None
                | Some r \<Rightarrow> sim_Destroy notify (fst r) (snd r))))"

partial_function (option) transfer_events :: "scheduler \<Rightarrow> scheduler \<Rightarrow> scheduler option option" where
  "transfer_events old new =
     (if sched_IsEmpty old then Some (Some new)
      else case sched_RemoveNext old of
             None \<Rightarrow> Some None
           | Some p \<Rightarrow>
               (case sched_Insert (fst p) new of
                  None \<Rightarrow> Some None
                | Some new' \<Rightarrow> transfer_events (snd p) new'))"

definition sim_SetScheduler :: "sched_kind \<Rightarrow> simulator \<Rightarrow> simulator option option" where
  "sim_SetScheduler kind s =
     (case sm_events s of
        None \<Rightarrow> Some (Some (s\<lparr>sm_events := Some (sched_Create kind)\<rparr>))
      | Some q \<Rightarrow> map_option (map_option (\<lambda>q'. s\<lparr>sm_events := Some q'\<rparr>)) (transfer_events q (sched_Create kind)))"

text \<open>\<open>DoDispose\<close> releases the pending events.\<close>

partial_function (option) drop_events :: "scheduler \<Rightarrow> unit option option" where
  "drop_events q =
     (if sched_IsEmpty q then Some (Some ())
      else case sched_RemoveNext q of None \<Rightarrow> Some None | Some p \<Rightarrow> drop_events (snd p))"

definition sim_DoDispose :: "simulator \<Rightarrow> simulator option option" where
  "sim_DoDispose s =
     (case sim_ProcessEventsWithContext s of
        None \<Rightarrow> Some None
      | Some s1 \<Rightarrow>
          (case sm_events s1 of
             None \<Rightarrow> Some None
           | Some q \<Rightarrow> map_option (map_option (\<lambda>_. s1\<lparr>sm_events := None\<rparr>)) (drop_events q)))"

section \<open>Sums of times\<close>

lemma int_unat_u64: "int (unat (x :: u64)) < 2 ^ 64"
proof -
  have "int (unat x) < int 18446744073709551616"
    unfolding of_nat_less_iff by (rule unat_u64_less)
  then show ?thesis by simp
qed

lemma sint_u64: "sint (x :: u64) = (if unat x < 2 ^ 63 then int (unat x) else int (unat x) - 2 ^ 64)"
proof -
  define n where "n = int (unat x)"
  have n: "0 \<le> n" "n < 2 ^ 64"
    using int_unat_u64 [of x] by (simp_all only: n_def of_nat_0_le_iff)
  have "sint x = (n + 2 ^ 63) mod 2 ^ 64 - 2 ^ 63"
    unfolding sint_uint n_def by (simp add: signed_take_bit_eq_take_bit_shift take_bit_eq_mod)
  also have "(n + 2 ^ 63) mod 2 ^ 64 = (if n < 2 ^ 63 then n + 2 ^ 63 else n - 2 ^ 63)"
  proof (cases "n < 2 ^ 63")
    case True
    with n show ?thesis by (simp add: mod_pos_pos_trivial)
  next
    case False
    have "(n + 2 ^ 63) mod 2 ^ 64 = (n - 2 ^ 63 + 2 ^ 64) mod 2 ^ 64"
      by (simp add: algebra_simps)
    also have "\<dots> = (n - 2 ^ 63) mod 2 ^ 64" by (rule mod_add_self2)
    also have "\<dots> = n - 2 ^ 63" using n False by (intro mod_pos_pos_trivial) simp_all
    finally show ?thesis using False by simp
  qed
  finally have "sint x = (if n < 2 ^ 63 then n else n - 2 ^ 64)"
    by (simp split: if_splits)
  moreover have "n < 2 ^ 63 \<longleftrightarrow> unat x < 2 ^ 63"
    unfolding n_def by (metis of_nat_less_iff of_nat_numeral of_nat_power)
  ultimately show ?thesis by (simp only: n_def)
qed

lemma time_plus_nonneg:
  assumes "0 \<le> sint d" "unat t < 2 ^ 63"
  shows "time_plus d t = (if unat d + unat t < 2 ^ 63 then Some (d + t) else None)"
proof -
  have "unat d < 2 ^ 63"
  proof (rule ccontr)
    assume "\<not> unat d < 2 ^ 63"
    then have "sint d = int (unat d) - 2 ^ 64" by (simp only: sint_u64 if_False)
    then show False using assms(1) int_unat_u64 [of d] by linarith
  qed
  then have "sint d + sint t = int (unat d + unat t)"
    using assms(2) by (simp only: sint_u64 if_True of_nat_add)
  moreover have "(word_of_int (int (unat d + unat t)) :: u64) = d + t"
    by (metis of_int_of_nat_eq word_arith_nat_add)
  moreover have "(- (2 ^ 63) \<le> int N \<and> int N < 2 ^ 63) \<longleftrightarrow> N < 2 ^ 63" for N
    by auto
  ultimately show ?thesis
    unfolding time_plus_def Let_def by (simp only:)
qed

section \<open>The invariant\<close>

definition pending :: "simulator \<Rightarrow> event multiset" where
  "pending s = (case sm_events s of None \<Rightarrow> {#} | Some q \<Rightarrow> sched_events q)"

definition now_key :: "simulator \<Rightarrow> u64 \<times> u32" where
  "now_key s = (sm_currentTs s, sm_currentUid s)"

text \<open>The event list is well formed and not ahead of the clock, the pending events have different ids
  below the counter and come after the current event, and the counter of unscheduled events is their
  number.\<close>

definition event_due :: "simulator \<Rightarrow> event \<Rightarrow> bool" where
  "event_due s e \<longleftrightarrow> unat (ts_of e) < 2 ^ 63 \<and> unat (uid_of e) < sm_uid s \<and> now_key s < rank e"

definition sim_ok :: "simulator \<Rightarrow> bool" where
  "sim_ok s \<longleftrightarrow> (\<exists>q. sm_events s = Some q \<and> sched_invar q \<and> sched_floor q \<le> sm_currentTs s)
     \<and> uids_distinct (pending s) \<and> sm_unscheduledEvents s = int (size (pending s))
     \<and> (\<forall>e \<in># pending s. event_due s e) \<and> unat (sm_currentTs s) < 2 ^ 63
     \<and> unat (sm_currentUid s) < sm_uid s
     \<and> sm_eventsWithContextEmpty s = (sm_eventsWithContext s = [])"

text \<open>An id that was given out: it is expired, or its event is pending.\<close>

definition event_of_id :: "event_id \<Rightarrow> nat \<Rightarrow> event" where
  "event_of_id i p = \<lparr>ev_impl = p, ev_key = \<lparr>m_ts = id_ts i, m_uid = id_uid i, m_context = id_context i\<rparr>\<rparr>"

definition genuine :: "event_id \<Rightarrow> simulator \<Rightarrow> bool" where
  "genuine i s \<longleftrightarrow> id_uid i = UID_DESTROY \<or> sim_IsExpired i s \<or> (\<exists>p. id_impl i = Some p \<and> event_of_id i p \<in># pending s)"

text \<open>What an operation of the main thread between events leaves unchanged.\<close>

definition same_moment :: "simulator \<Rightarrow> simulator \<Rightarrow> bool" where
  "same_moment s s' \<longleftrightarrow> sm_currentTs s' = sm_currentTs s \<and> sm_currentUid s' = sm_currentUid s
     \<and> sm_currentContext s' = sm_currentContext s \<and> sm_eventCount s' = sm_eventCount s \<and> sm_uid s \<le> sm_uid s'
     \<and> (\<forall>i. sm_cancelled s i \<longrightarrow> sm_cancelled s' i)
     \<and> sm_eventsWithContext s' = sm_eventsWithContext s \<and> sm_eventsWithContextEmpty s' = sm_eventsWithContextEmpty s
     \<and> (\<forall>q q'. sm_events s = Some q \<longrightarrow> sm_events s' = Some q' \<longrightarrow> sched_removes q' = sched_removes q)"

lemma sim_insert_ok:
  assumes "sim_ok s" "sm_currentTs s \<le> ts_of ev" "unat (ts_of ev) < 2 ^ 63"
    "uid_of ev = of_nat (sm_uid s)" "sm_uid s < 2 ^ 32"
  shows "\<exists>s'. sim_insert ev s = Some s' \<and> sim_ok s' \<and> pending s' = add_mset ev (pending s)
    \<and> sm_uid s' = sm_uid s + 1 \<and> same_moment s s' \<and> sm_stop s' = sm_stop s \<and> sm_cancelled s' = sm_cancelled s"
proof -
  obtain q where q: "sm_events s = Some q" "sched_invar q" "sched_floor q \<le> sm_currentTs s"
    using assms(1) by (auto simp: sim_ok_def)
  have pend: "pending s = sched_events q" by (simp add: pending_def q(1))
  have uid: "unat (uid_of ev) = sm_uid s"
    using assms(4,5) by (simp add: unat_of_nat_u32)
  have fresh: "\<forall>e \<in># sched_events q. uid_of e \<noteq> uid_of ev"
  proof
    fix e assume "e \<in># sched_events q"
    then have "unat (uid_of e) < sm_uid s" using assms(1) by (auto simp: sim_ok_def event_due_def pend)
    then show "uid_of e \<noteq> uid_of ev" using uid by auto
  qed
  from sched_Insert_ok [OF q(2) order_trans [OF q(3) assms(2)] assms(3) fresh]
  obtain q' where q': "sched_Insert ev q = Some q'" "sched_invar q'" "sched_events q' = add_mset ev (sched_events q)"
    "sched_floor q' = sched_floor q" "sched_removes q' = sched_removes q" by blast
  let ?s = "s\<lparr>sm_events := Some q', sm_uid := sm_uid s + 1, sm_unscheduledEvents := sm_unscheduledEvents s + 1\<rparr>"
  have p': "pending ?s = add_mset ev (pending s)" using q'(3) by (simp add: pending_def q(1))
  have old: "\<forall>e \<in># pending s. event_due s e" "uids_distinct (pending s)" "unat (sm_currentUid s) < sm_uid s"
    using assms(1) by (simp_all add: sim_ok_def)
  have "now_key s < rank ev"
    using assms(2) old(3) uid by (auto simp: now_key_def rank_def less_prod_def word_less_nat_alt)
  then have "\<forall>e \<in># pending ?s. event_due ?s e"
    using old(1) assms(3) uid p' by (auto simp: event_due_def now_key_def)
  moreover have "uids_distinct (pending ?s)"
    unfolding p' using uids_distinct_add [OF old(2)] fresh by (simp add: pend)
  ultimately have "sim_ok ?s"
    using assms(1) q' q(3) p' unfolding sim_ok_def by simp
  then show ?thesis
    using q(1) q'(1,5) p' by (simp add: sim_insert_def same_moment_def)
qed

lemma expired_mono:
  assumes "sim_IsExpired i s" "id_uid i \<noteq> UID_DESTROY" "now_key s \<le> now_key s'" "\<And>p. sm_cancelled s p \<Longrightarrow> sm_cancelled s' p"
  shows "sim_IsExpired i s'"
  using assms by (auto simp: sim_IsExpired_def impl_IsCancelled_def now_key_def less_eq_prod_def split: option.splits)

lemma genuine_insert:
  assumes "genuine i s" "same_moment s s'" "pending s \<subseteq># pending s'"
  shows "genuine i s'"
proof -
  have "now_key s' = now_key s" using assms(2) by (simp add: same_moment_def now_key_def)
  with assms expired_mono [of i s s'] show ?thesis
    unfolding genuine_def same_moment_def by (auto dest: mset_subset_eqD)
qed

section \<open>Calls of the main thread\<close>

fun answer_ids :: "sim_answer \<Rightarrow> event_id set" where
  "answer_ids (AnswerId i) = {i}"
| "answer_ids _ = {}"

text \<open>What is asked of the client: no negative delays, and removal only of ids it was given (and only if
  the event list supports it, \<open>rm\<close>). \<open>known\<close> are the ids stored in the state of the client.\<close>

fun call_safe :: "bool \<Rightarrow> event_id set \<Rightarrow> sim_call \<Rightarrow> bool" where
  "call_safe rm K (CallSchedule d i) = (0 \<le> sint d)"
| "call_safe rm K (CallScheduleWithContext c d i) = (0 \<le> sint d)"
| "call_safe rm K (CallRemove i) = (rm \<and> i \<in> K)"
| "call_safe rm K _ = True"

primrec prog_safe :: "bool \<Rightarrow> ('w \<Rightarrow> event_id set) \<Rightarrow> 'w prog \<Rightarrow> event_id set \<Rightarrow> bool" where
  "prog_safe rm known (Done w) K = (known w \<subseteq> K)"
| "prog_safe rm known (Do c k) K = (call_safe rm K c \<and> (\<forall>a. prog_safe rm known (k a) (K \<union> answer_ids a)))"

definition client_safe :: "bool \<Rightarrow> ('w \<Rightarrow> event_id set) \<Rightarrow> (nat \<Rightarrow> 'w \<Rightarrow> 'w prog) \<Rightarrow> bool" where
  "client_safe rm known notify \<longleftrightarrow> (\<forall>i w. prog_safe rm known (notify i w) (known w))"

lemma same_moment_refl [simp]: "same_moment s s"
  by (simp add: same_moment_def)

lemma same_moment_trans:
  assumes "same_moment s t" "same_moment t u" "sm_events t \<noteq> None"
  shows "same_moment s u"
  using assms by (auto simp: same_moment_def)

lemma sim_ok_frame:
  assumes "sim_ok s" "sm_events s' = sm_events s" "sm_currentTs s' = sm_currentTs s" "sm_currentUid s' = sm_currentUid s"
    "sm_uid s \<le> sm_uid s'" "sm_unscheduledEvents s' = sm_unscheduledEvents s"
    "sm_eventsWithContextEmpty s' = sm_eventsWithContextEmpty s" "sm_eventsWithContext s' = sm_eventsWithContext s"
  shows "sim_ok s'"
proof -
  have "pending s' = pending s" "now_key s' = now_key s"
    using assms(2-4) by (simp_all add: pending_def now_key_def)
  with assms show ?thesis by (auto simp: sim_ok_def event_due_def)
qed

lemma event_of_id_id_of [simp]: "event_of_id (id_of ev) (ev_impl ev) = ev"
proof -
  obtain x k where "ev = \<lparr>ev_impl = x, ev_key = k\<rparr>" by (cases ev)
  moreover obtain t u c where "k = \<lparr>m_ts = t, m_uid = u, m_context = c\<rparr>" by (cases k)
  ultimately show ?thesis by (simp add: event_of_id_def id_of_def)
qed

lemma id_impl_id_of [simp]: "id_impl (id_of ev) = Some (ev_impl ev)"
  by (simp add: id_of_def)

lemma genuine_id_of: "ev \<in># pending s \<Longrightarrow> genuine (id_of ev) s"
  unfolding genuine_def by (rule disjI2, rule disjI2, rule exI [of _ "ev_impl ev"]) simp

lemma schedule_ok:
  fixes s :: simulator and impl :: nat and ctx :: u32
  assumes "sim_ok s" "0 \<le> sint d" "time_plus d (sm_currentTs s) = Some ts" "sm_uid s < 2 ^ 32"
  defines "ev \<equiv> sim_new_event impl ts ctx s"
  shows "\<exists>s'. sim_insert ev s = Some s' \<and> sim_ok s' \<and> pending s' = add_mset ev (pending s)
    \<and> sm_uid s' = sm_uid s + 1 \<and> same_moment s s' \<and> sm_stop s' = sm_stop s \<and> sm_cancelled s' = sm_cancelled s"
proof -
  have now: "unat (sm_currentTs s) < 2 ^ 63" using assms(1) by (simp add: sim_ok_def)
  have ts: "unat d + unat (sm_currentTs s) < 2 ^ 63" "ts = d + sm_currentTs s"
    using assms(3) unfolding time_plus_nonneg [OF assms(2) now] by (simp_all split: if_splits)
  have "unat ts = unat d + unat (sm_currentTs s)"
    unfolding ts(2) using ts(1) by (intro unat_add_lem [THEN iffD1]) simp
  then show ?thesis
    using assms(1,4) ts(1) by (intro sim_insert_ok) (simp_all add: ev_def sim_new_event_def word_le_nat_alt)
qed

lemma sim_insert_uid: "sim_insert ev s = Some s' \<Longrightarrow> sm_uid s' = sm_uid s + 1"
  by (auto simp: sim_insert_def split: option.splits)

lemma genuine_remove:
  assumes "genuine i s" "id_uid i \<noteq> UID_DESTROY" "pending s = add_mset (event_of_id j p) (pending s')"
    "now_key s' = now_key s" "\<And>x. sm_cancelled s x \<Longrightarrow> sm_cancelled s' x" "sm_cancelled s' p"
  shows "genuine i s'"
proof (cases "sim_IsExpired i s")
  case True
  with assms expired_mono [of i s s'] show ?thesis by (simp add: genuine_def)
next
  case False
  with assms(1,2) obtain x where x: "id_impl i = Some x" "event_of_id i x \<in># pending s" by (auto simp: genuine_def)
  show ?thesis
  proof (cases "event_of_id i x = event_of_id j p")
    case True
    then have "x = p" by (simp add: event_of_id_def)
    with x(1) assms(2,6) show ?thesis by (simp add: genuine_def sim_IsExpired_def impl_IsCancelled_def)
  next
    case False
    with x assms(3) show ?thesis by (auto simp: genuine_def)
  qed
qed

lemma sim_Remove_ok:
  assumes "sim_ok s" "genuine i s" "sm_events s = Some q" "sched_removes q"
  shows "\<exists>s'. sim_Remove i s = Some s' \<and> sim_ok s' \<and> same_moment s s' \<and> (\<forall>j. genuine j s \<longrightarrow> genuine j s')
    \<and> sm_uid s' = sm_uid s \<and> sm_stop s' = sm_stop s
    \<and> pending s' = pending s - (if id_uid i = UID_DESTROY \<or> sim_IsExpired i s then {#} else {#event_of_id i (the (id_impl i))#})"
proof (cases "id_uid i = UID_DESTROY \<or> sim_IsExpired i s")
  case True
  let ?s = "if id_uid i = UID_DESTROY then s\<lparr>sm_destroyEvents := erase_id i (sm_destroyEvents s)\<rparr> else s"
  have "sim_Remove i s = Some ?s" using True by (auto simp: sim_Remove_def)
  moreover have "sim_ok ?s" by (rule sim_ok_frame [OF assms(1)]) simp_all
  moreover have "genuine j ?s" if "genuine j s" for j
    using that by (auto simp: genuine_def sim_IsExpired_def impl_IsCancelled_def pending_def split: option.splits if_splits)
  ultimately show ?thesis using True by (auto simp: same_moment_def pending_def)
next
  case False
  with assms(2) obtain p where p: "id_impl i = Some p" "event_of_id i p \<in># pending s" by (auto simp: genuine_def)
  have pend: "pending s = sched_events q" by (simp add: pending_def assms(3))
  have inv: "sched_invar q" "uids_distinct (sched_events q)" "sched_floor q \<le> sm_currentTs s"
    using assms(1,3) by (auto simp: sim_ok_def pend)
  from sched_Remove_ok [OF inv(1) assms(4) p(2) [unfolded pend] inv(2)] obtain q' where
    q': "sched_Remove (event_of_id i p) q = Some q'" "sched_invar q'" "sched_events q = add_mset (event_of_id i p) (sched_events q')"
    "sched_floor q' = sched_floor q" "sched_removes q'" by blast
  define t where "t = (impl_Cancel p (s\<lparr>sm_events := Some q'\<rparr>))\<lparr>sm_unscheduledEvents := sm_unscheduledEvents s - 1\<rparr>"
  have t: "sm_events t = Some q'" "sm_currentTs t = sm_currentTs s" "sm_currentUid t = sm_currentUid s"
    "sm_currentContext t = sm_currentContext s" "sm_eventCount t = sm_eventCount s"
    "sm_uid t = sm_uid s" "sm_unscheduledEvents t = sm_unscheduledEvents s - 1" "sm_stop t = sm_stop s"
    "sm_eventsWithContextEmpty t = sm_eventsWithContextEmpty s" "sm_eventsWithContext t = sm_eventsWithContext s"
    "sm_cancelled t = (sm_cancelled s)(p := True)"
    by (simp_all add: t_def impl_Cancel_def)
  have r: "sim_Remove i s = Some t"
    using False p(1) assms(3) q'(1) by (simp add: sim_Remove_def event_of_id_def t_def)
  have pend': "pending s = add_mset (event_of_id i p) (pending t)"
    unfolding pend by (simp add: pending_def t(1) q'(3))
  have "uids_distinct (pending t)"
    using uids_distinct_remove [OF inv(2), of "event_of_id i p"] pend' pend by (metis add_mset_remove_trivial)
  then have ok: "sim_ok t"
    using assms(1) q' inv(3) pend' t unfolding sim_ok_def event_due_def by (simp add: now_key_def)
  have gen: "genuine j t" if "genuine j s" for j
  proof (cases "id_uid j = UID_DESTROY")
    case False
    show ?thesis
      by (rule genuine_remove [OF that False pend']) (simp_all add: now_key_def t)
  qed (simp add: genuine_def)
  show ?thesis
    using r ok gen pend' q'(5) assms(3,4) t p(1) False by (intro exI [of _ t]) (simp add: same_moment_def)
qed

lemma do_call_ok:
  assumes "sim_ok s" "\<forall>i \<in> K. genuine i s" "call_safe rm K c" "rm \<longrightarrow> sched_removes (the (sm_events s))"
    "do_call c s = Some (a, s')" "sm_uid s' \<le> 2 ^ 32"
  shows "sim_ok s' \<and> same_moment s s' \<and> (\<forall>i \<in> K \<union> answer_ids a. genuine i s')"
proof -
  have sched: ?thesis if "sim_insert ev s = Some s'" "0 \<le> sint d" "time_plus d (sm_currentTs s) = Some ts"
    "ev = sim_new_event impl ts ctx s" "a = AnswerId (id_of ev) \<or> a = NoAnswer" for ev d ts impl ctx
  proof -
    have "sm_uid s < 2 ^ 32" using sim_insert_uid [OF that(1)] assms(6) by simp
    from schedule_ok [OF assms(1) that(2,3) this, of impl ctx] that(1,4)
    have s': "sim_ok s'" "pending s' = add_mset ev (pending s)" "same_moment s s'" by auto
    then have "\<forall>i \<in> K. genuine i s'" using genuine_insert assms(2) by auto
    moreover have "genuine (id_of ev) s'" using s'(2) by (intro genuine_id_of) simp
    ultimately show ?thesis using s' that(5) by auto
  qed
  have frame: ?thesis if "same_moment s s'" "sm_events s' = sm_events s" "sm_unscheduledEvents s' = sm_unscheduledEvents s"
    "\<forall>i \<in> answer_ids a. id_uid i = UID_DESTROY"
  proof -
    have "sim_ok s'"
      by (rule sim_ok_frame [OF assms(1)]) (use that in \<open>simp_all add: same_moment_def\<close>)
    moreover have "genuine i s'" if "i \<in> K" for i
      using assms(2) that \<open>same_moment s s'\<close> \<open>sm_events s' = sm_events s\<close>
      by (intro genuine_insert [of i s s']) (simp_all add: pending_def)
    ultimately show ?thesis using that by (auto simp: genuine_def)
  qed
  show ?thesis
  proof (cases c)
    case (CallSchedule d i)
    with assms(3,5) obtain ts where "0 \<le> sint d" "time_plus d (sm_currentTs s) = Some ts"
      "sim_insert (sim_new_event i ts (sim_GetContext s) s) s = Some s'" "a = AnswerId (id_of (sim_new_event i ts (sim_GetContext s) s))"
      by (auto simp: sim_Schedule_def Let_def split: option.splits if_splits)
    then show ?thesis by (intro sched [OF _ _ _ refl]) auto
  next
    case (CallScheduleNow i)
    with assms(5) obtain ts where "time_plus 0 (sm_currentTs s) = Some ts"
      "sim_insert (sim_new_event i ts (sim_GetContext s) s) s = Some s'" "a = AnswerId (id_of (sim_new_event i ts (sim_GetContext s) s))"
      by (auto simp: sim_ScheduleNow_def sim_Schedule_def Let_def split: option.splits if_splits)
    then show ?thesis by (intro sched [OF _ _ _ refl, where d = 0]) auto
  next
    case (CallScheduleWithContext x d i)
    with assms(3,5) obtain ts where "0 \<le> sint d" "time_plus d (sm_currentTs s) = Some ts"
      "sim_insert (sim_new_event i ts x s) s = Some s'" "a = NoAnswer"
      by (auto simp: sim_ScheduleWithContext_def split: option.splits)
    then show ?thesis by (intro sched [OF _ _ _ refl]) auto
  next
    case (CallScheduleDestroy i)
    with assms(5) show ?thesis
      by (intro frame) (auto simp: sim_ScheduleDestroy_def Let_def same_moment_def)
  next
    case (CallRemove i)
    obtain q where q: "sm_events s = Some q" using assms(1) by (auto simp: sim_ok_def)
    from CallRemove assms(2-4) q have "genuine i s" "sched_removes q" by auto
    from sim_Remove_ok [OF assms(1) this(1) q this(2)] CallRemove assms(2,5) show ?thesis by auto
  next
    case (CallCancel i)
    with assms(5) show ?thesis
      by (intro frame) (auto simp: sim_Cancel_def impl_Cancel_def same_moment_def split: option.splits if_splits)
  next
    case CallStop
    with assms(5) show ?thesis by (intro frame) (auto simp: sim_Stop_def same_moment_def)
  qed (use assms(1,2,5) in auto)
qed

lemma do_call_uid: "do_call c s = Some (a, s') \<Longrightarrow> sm_uid s \<le> sm_uid s'"
  by (cases c) (auto simp: sim_Schedule_def sim_ScheduleNow_def sim_ScheduleWithContext_def sim_ScheduleDestroy_def
      sim_Remove_def sim_Cancel_def sim_Stop_def impl_Cancel_def Let_def sim_insert_def split: option.splits if_splits)

lemma run_prog_uid: "run_prog p s = Some (w, s') \<Longrightarrow> sm_uid s \<le> sm_uid s'"
proof (induction p arbitrary: s)
  case (Do c k)
  then obtain a s1 where "do_call c s = Some (a, s1)" "run_prog (k a) s1 = Some (w, s')"
    by (auto split: option.splits)
  with Do.IH [of "k a" s1] do_call_uid [of c s a s1] show ?case by auto
qed simp

lemma run_prog_ok:
  assumes "sim_ok s" "\<forall>i \<in> K. genuine i s" "prog_safe rm known p K" "rm \<longrightarrow> sched_removes (the (sm_events s))"
    "run_prog p s = Some (w, s')" "sm_uid s' \<le> 2 ^ 32"
  shows "sim_ok s' \<and> same_moment s s' \<and> (\<forall>i \<in> known w. genuine i s')"
  using assms(1-5)
proof (induction p arbitrary: s K)
  case (Done x)
  then show ?case by auto
next
  case (Do c k)
  then obtain a s1 where c: "do_call c s = Some (a, s1)" "run_prog (k a) s1 = Some (w, s')"
    by (auto split: option.splits)
  have "sm_uid s1 \<le> 2 ^ 32" using run_prog_uid [OF c(2)] assms(6) by simp
  with do_call_ok [OF Do.prems(1,2) _ Do.prems(4) c(1)] Do.prems(3)
  have s1: "sim_ok s1" "same_moment s s1" "\<forall>i \<in> K \<union> answer_ids a. genuine i s1" by auto
  obtain q q1 where q: "sm_events s = Some q" "sm_events s1 = Some q1"
    using Do.prems(1) s1(1) by (auto simp: sim_ok_def)
  have "rm \<longrightarrow> sched_removes (the (sm_events s1))"
    using Do.prems(4) s1(2) q by (simp add: same_moment_def)
  with Do.IH [OF _ s1(1,3) _ _ c(2)] Do.prems(3) have "sim_ok s' \<and> same_moment s1 s' \<and> (\<forall>i \<in> known w. genuine i s')" by auto
  with same_moment_trans [OF s1(2)] q show ?case by simp
qed

section \<open>One event\<close>

text \<open>The events other threads have queued can be scheduled without leaving the range of \<open>Time\<close>.\<close>

definition ewc_fits :: "simulator \<Rightarrow> bool" where
  "ewc_fits s \<longleftrightarrow> (\<forall>x \<in> set (sm_eventsWithContext s). \<forall>e \<in># pending s. unat (ts_of e) + unat (ewc_timestamp x) < 2 ^ 63)"

lemma process_ewc_uid: "process_ewc xs s = Some s' \<Longrightarrow> sm_uid s' = sm_uid s + length xs"
  by (induction xs arbitrary: s) (auto dest: sim_insert_uid split: option.splits)

lemma process_ewc_ok:
  assumes "sim_ok s" "\<forall>x \<in> set xs. unat (sm_currentTs s) + unat (ewc_timestamp x) < 2 ^ 63"
    "sm_uid s + length xs \<le> 2 ^ 32"
  shows "\<exists>s' N. process_ewc xs s = Some s' \<and> sim_ok s' \<and> same_moment s s' \<and> pending s' = N + pending s
    \<and> sm_stop s' = sm_stop s \<and> size N = length xs
    \<and> (\<forall>e \<in># N. \<exists>x \<in> set xs. ts_of e = sm_currentTs s + ewc_timestamp x)"
  using assms
proof (induction xs arbitrary: s)
  case (Cons x xs)
  let ?ev = "sim_new_event (ewc_event x) (sm_currentTs s + ewc_timestamp x) (ewc_context x) s"
  have fit: "unat (sm_currentTs s) + unat (ewc_timestamp x) < 2 ^ 63" using Cons.prems(2) by simp
  then have ts: "unat (sm_currentTs s + ewc_timestamp x) = unat (sm_currentTs s) + unat (ewc_timestamp x)"
    by (intro unat_add_lem [THEN iffD1]) simp
  have "\<exists>s1. sim_insert ?ev s = Some s1 \<and> sim_ok s1 \<and> pending s1 = add_mset ?ev (pending s)
    \<and> sm_uid s1 = sm_uid s + 1 \<and> same_moment s s1 \<and> sm_stop s1 = sm_stop s \<and> sm_cancelled s1 = sm_cancelled s"
    using Cons.prems(1,3) fit ts by (intro sim_insert_ok) (simp_all add: sim_new_event_def word_le_nat_alt)
  then obtain s1 where s1: "sim_insert ?ev s = Some s1" "sim_ok s1" "pending s1 = add_mset ?ev (pending s)"
    "sm_uid s1 = sm_uid s + 1" "same_moment s s1" "sm_stop s1 = sm_stop s" by blast
  have cur: "sm_currentTs s1 = sm_currentTs s" "sm_events s1 \<noteq> None"
    using s1(2,5) by (auto simp: same_moment_def sim_ok_def)
  from Cons.IH [OF s1(2)] Cons.prems(2,3) cur(1) s1(4) obtain s' N where s': "process_ewc xs s1 = Some s'" "sim_ok s'"
    "same_moment s1 s'" "pending s' = N + pending s1" "sm_stop s' = sm_stop s1" "size N = length xs"
    "\<forall>e \<in># N. \<exists>x \<in> set xs. ts_of e = sm_currentTs s + ewc_timestamp x" by auto
  have "same_moment s s'" by (rule same_moment_trans [OF s1(5) s'(3) cur(2)])
  moreover have "pending s' = add_mset ?ev N + pending s" using s'(4) s1(3) by simp
  moreover have "\<forall>e \<in># add_mset ?ev N. \<exists>y \<in> set (x # xs). ts_of e = sm_currentTs s + ewc_timestamp y"
    using s'(7) by (auto simp: sim_new_event_def)
  moreover have "process_ewc (x # xs) s = Some s'" "sm_stop s' = sm_stop s" "size (add_mset ?ev N) = length (x # xs)"
    using s1 s' by simp_all
  ultimately show ?case using s'(2) by blast
qed simp

text \<open>Events queued by other threads become pending, at their delay after the current event.\<close>

lemma ProcessEventsWithContext_ok:
  assumes "sim_ok s" "\<forall>x \<in> set (sm_eventsWithContext s). unat (sm_currentTs s) + unat (ewc_timestamp x) < 2 ^ 63"
    "sm_uid s + length (sm_eventsWithContext s) \<le> 2 ^ 32"
  shows "\<exists>s' N. sim_ProcessEventsWithContext s = Some s' \<and> sim_ok s' \<and> pending s' = N + pending s
    \<and> now_key s' = now_key s \<and> sm_eventCount s' = sm_eventCount s \<and> (\<forall>p. sm_cancelled s p \<longrightarrow> sm_cancelled s' p) \<and> sm_uid s \<le> sm_uid s'
    \<and> sm_eventsWithContext s' = [] \<and> sm_stop s' = sm_stop s \<and> size N = length (sm_eventsWithContext s)
    \<and> sched_removes (the (sm_events s')) = sched_removes (the (sm_events s))
    \<and> (\<forall>e \<in># N. \<exists>x \<in> set (sm_eventsWithContext s). ts_of e = sm_currentTs s + ewc_timestamp x)"
proof (cases "sm_eventsWithContextEmpty s")
  case True
  then have e: "sm_eventsWithContext s = []" using assms(1) by (simp add: sim_ok_def)
  have "sim_ProcessEventsWithContext s = Some s" using True by (simp add: sim_ProcessEventsWithContext_def)
  with assms(1) e show ?thesis by (intro exI [of _ s] exI [of _ "{#}"]) simp
next
  case False
  define t where "t = s\<lparr>sm_eventsWithContext := [], sm_eventsWithContextEmpty := True\<rparr>"
  have t: "pending t = pending s" "now_key t = now_key s" "sm_uid t = sm_uid s" "sm_currentTs t = sm_currentTs s"
    by (simp_all add: t_def pending_def now_key_def)
  have "sim_ok t"
    using assms(1) unfolding sim_ok_def event_due_def t by (simp add: t_def)
  from process_ewc_ok [OF this, of "sm_eventsWithContext s"] assms(2,3) t(3,4) obtain s' N where
    s': "process_ewc (sm_eventsWithContext s) t = Some s'" "sim_ok s'" "same_moment t s'" "pending s' = N + pending s"
    "sm_stop s' = sm_stop t" "size N = length (sm_eventsWithContext s)"
    "\<forall>e \<in># N. \<exists>x \<in> set (sm_eventsWithContext s). ts_of e = sm_currentTs s + ewc_timestamp x"
    unfolding t by auto
  obtain q q' where q: "sm_events s = Some q" "sm_events s' = Some q'"
    using assms(1) s'(2) by (auto simp: sim_ok_def)
  have "sim_ProcessEventsWithContext s = Some s'"
    using False s'(1) by (simp add: sim_ProcessEventsWithContext_def t_def)
  moreover have "now_key s' = now_key s" "sm_eventCount s' = sm_eventCount s" "\<forall>p. sm_cancelled s p \<longrightarrow> sm_cancelled s' p"
    "sm_uid s \<le> sm_uid s'" "sm_eventsWithContext s' = []" "sched_removes (the (sm_events s')) = sched_removes (the (sm_events s))"
    using s'(3) q by (simp_all add: same_moment_def now_key_def t_def)
  ultimately show ?thesis using s'(2,4-7) by (intro exI [of _ s'] exI [of _ N]) (simp add: t_def)
qed

lemma ProcessEventsWithContext_uid:
  "sim_ProcessEventsWithContext s = Some s' \<Longrightarrow> sm_eventsWithContextEmpty s = (sm_eventsWithContext s = []) \<Longrightarrow>
     sm_uid s' = sm_uid s + length (sm_eventsWithContext s)"
  by (auto simp: sim_ProcessEventsWithContext_def dest: process_ewc_uid split: if_splits)

lemma genuine_later:
  assumes "genuine i s" "now_key s \<le> now_key s'" "\<And>p. sm_cancelled s p \<Longrightarrow> sm_cancelled s' p"
    "\<And>e. e \<in># pending s \<Longrightarrow> e \<in># pending s' \<or> rank e \<le> now_key s'"
  shows "genuine i s'"
proof (cases "id_uid i = UID_DESTROY \<or> sim_IsExpired i s")
  case True
  with assms(2,3) expired_mono [of i s s'] show ?thesis by (auto simp: genuine_def)
next
  case False
  with assms(1) obtain p where p: "id_impl i = Some p" "event_of_id i p \<in># pending s" by (auto simp: genuine_def)
  from assms(4) [OF p(2)] p(1) False show ?thesis
    by (auto simp: genuine_def sim_IsExpired_def event_of_id_def rank_def now_key_def less_eq_prod_def)
qed

lemma sim_begin_event_ok:
  assumes "sim_ok s" "sm_events s = Some q" "sched_events q \<noteq> {#}"
  obtains ev q' where "sched_RemoveNext q = Some (ev, q')" "ev \<in># pending s" "\<forall>e \<in># pending s. rank ev \<le> rank e"
    "sim_ok (sim_begin_event ev q' s)" "pending s = add_mset ev (pending (sim_begin_event ev q' s))"
    "now_key (sim_begin_event ev q' s) = rank ev" "now_key s < rank ev"
    "sched_removes q' = sched_removes q"
proof -
  have pend: "pending s = sched_events q" by (simp add: pending_def assms(2))
  have inv: "sched_invar q" "uids_distinct (sched_events q)" "\<forall>e \<in># sched_events q. event_due s e"
    using assms(1,2) by (auto simp: sim_ok_def pend)
  from sched_RemoveNext_ok [OF inv(1) assms(3)] obtain ev q' where r: "sched_RemoveNext q = Some (ev, q')" "sched_invar q'"
    "sched_events q = add_mset ev (sched_events q')" "\<forall>e \<in># sched_events q. rank ev \<le> rank e" "sched_floor q' \<le> ts_of ev"
    "sched_removes q' = sched_removes q" by blast
  define t where "t = sim_begin_event ev q' s"
  have t: "sm_events t = Some q'" "sm_currentTs t = ts_of ev" "sm_currentUid t = uid_of ev" "sm_uid t = sm_uid s"
    "sm_unscheduledEvents t = sm_unscheduledEvents s - 1" "now_key t = rank ev" "pending t = sched_events q'"
    "sm_eventsWithContext t = sm_eventsWithContext s" "sm_eventsWithContextEmpty t = sm_eventsWithContextEmpty s"
    by (simp_all add: t_def sim_begin_event_def now_key_def rank_def pending_def)
  have due: "event_due s ev" "now_key s < rank ev" using inv(3) r(3) by (auto simp: event_due_def)
  have dist: "uids_distinct (sched_events q')"
    using uids_distinct_remove [OF inv(2), of ev] r(3) by simp
  have "rank ev < rank e" if "e \<in># sched_events q'" for e
  proof -
    have "rank ev \<le> rank e" using r(3,4) that by simp
    moreover have "rank ev \<noteq> rank e"
    proof
      assume "rank ev = rank e"
      then have "ev = e" using uids_distinct_rank_inj [OF inv(2)] r(3) that by simp
      with that r(3) have "2 \<le> count (sched_events q) ev" by (simp add: Suc_le_eq)
      with inv(2) r(3) show False by (simp add: uids_distinct_def)
    qed
    ultimately show ?thesis by simp
  qed
  then have "\<forall>e \<in># sched_events q'. event_due t e"
    using inv(3) r(3) by (simp add: event_due_def t(4,6))
  then have "sim_ok t"
    using assms(1) due r dist pend unfolding sim_ok_def t event_due_def by simp
  then show ?thesis
    using that [OF r(1)] r(3,4,6) pend t(6,7) due(2) unfolding t_def by simp
qed

lemma impl_Invoke_ok:
  assumes "sim_ok s" "\<forall>i \<in> known w. genuine i s" "client_safe rm known notify" "rm \<longrightarrow> sched_removes (the (sm_events s))"
    "impl_Invoke notify p w s = Some (w', s')" "sm_uid s' \<le> 2 ^ 32"
  shows "sim_ok s' \<and> same_moment s s' \<and> (\<forall>i \<in> known w'. genuine i s')"
proof (cases "impl_IsCancelled p s")
  case True
  then have "w' = w" "s' = s" using assms(5) by (simp_all add: impl_Invoke_def)
  with assms(1,2) show ?thesis by simp
next
  case False
  then have "run_prog (notify p w) s = Some (w', s')" using assms(5) by (simp add: impl_Invoke_def)
  moreover have "prog_safe rm known (notify p w) (known w)" using assms(3) by (simp add: client_safe_def)
  ultimately show ?thesis by (intro run_prog_ok [OF assms(1,2) _ assms(4) _ assms(6)])
qed

lemma impl_Invoke_uid: "impl_Invoke notify p w s = Some (w', s') \<Longrightarrow> sm_uid s \<le> sm_uid s'"
  by (auto simp: impl_Invoke_def dest: run_prog_uid split: if_splits)

lemma sim_ProcessOneEvent_ok:
  assumes "sim_ok s" "pending s \<noteq> {#}" "\<forall>i \<in> known w. genuine i s" "client_safe rm known notify"
    "rm \<longrightarrow> sched_removes (the (sm_events s))" "ewc_fits s"
    "sim_ProcessOneEvent notify w s = Some (w', s')" "sm_uid s' \<le> 2 ^ 32"
  obtains ev where "ev \<in># pending s" "\<forall>e \<in># pending s. rank ev \<le> rank e" "now_key s' = rank ev" "now_key s < rank ev"
    "sim_ok s'" "\<forall>i \<in> known w'. genuine i s'" "rm \<longrightarrow> sched_removes (the (sm_events s'))"
    "sm_eventCount s' = sm_eventCount s + 1" "sm_eventsWithContext s' = []"
proof -
  obtain q where q: "sm_events s = Some q" using assms(1) by (auto simp: sim_ok_def)
  then have ne: "sched_events q \<noteq> {#}" using assms(2) by (simp add: pending_def)
  from sim_begin_event_ok [OF assms(1) q ne] obtain ev q' where b: "sched_RemoveNext q = Some (ev, q')" "ev \<in># pending s"
    "\<forall>e \<in># pending s. rank ev \<le> rank e" "sim_ok (sim_begin_event ev q' s)" "pending s = add_mset ev (pending (sim_begin_event ev q' s))"
    "now_key (sim_begin_event ev q' s) = rank ev" "now_key s < rank ev" "sched_removes q' = sched_removes q" by blast
  define t where "t = sim_begin_event ev q' s"
  have t: "sm_events t = Some q'" "sm_eventCount t = sm_eventCount s + 1" "sm_cancelled t = sm_cancelled s"
    "sm_eventsWithContext t = sm_eventsWithContext s" "sm_currentTs t = ts_of ev"
    by (simp_all add: t_def sim_begin_event_def)
  note bt = b [folded t_def]
  have "sm_currentTs s \<le> ts_of ev" using b(7) by (auto simp: now_key_def rank_def less_prod_def)
  with assms(7) q b(1) obtain u where u: "impl_Invoke notify (ev_impl ev) w t = Some (w', u)" "sim_ProcessEventsWithContext u = Some s'"
    by (auto simp: sim_ProcessOneEvent_def t_def split: option.splits if_splits prod.splits)
  have gt: "\<forall>i \<in> known w. genuine i t"
  proof
    fix i assume "i \<in> known w"
    then have "genuine i s" using assms(3) by simp
    then show "genuine i t"
      by (rule genuine_later) (use bt(5-7) t(3) in auto)
  qed
  have ewc: "sm_eventsWithContextEmpty u = (sm_eventsWithContext u = [])" if "sim_ok u" using that by (simp add: sim_ok_def)
  have uu: "sm_uid u \<le> sm_uid s'"
    using u(2) by (auto simp: sim_ProcessEventsWithContext_def dest: process_ewc_uid split: if_splits)
  from impl_Invoke_ok [OF bt(4) gt assms(4) _ u(1)] uu assms(5,8) t(1) bt(8) q
  have uo: "sim_ok u" "same_moment t u" "\<forall>i \<in> known w'. genuine i u" by auto
  have ue: "sm_eventsWithContext u = sm_eventsWithContext s" "sm_currentTs u = ts_of ev" "now_key u = rank ev"
    "sm_eventCount u = sm_eventCount s + 1"
    using uo(2) t(2,4,5) bt(6) by (simp_all add: same_moment_def now_key_def)
  have "\<forall>x \<in> set (sm_eventsWithContext u). unat (sm_currentTs u) + unat (ewc_timestamp x) < 2 ^ 63"
    using assms(6) b(2) by (simp add: ewc_fits_def ue)
  moreover have "sm_uid u + length (sm_eventsWithContext u) \<le> 2 ^ 32"
    using ProcessEventsWithContext_uid [OF u(2) ewc [OF uo(1)]] assms(8) by simp
  ultimately obtain N where s': "sim_ok s'" "pending s' = N + pending u" "now_key s' = now_key u" "sm_eventCount s' = sm_eventCount u"
    "\<forall>p. sm_cancelled u p \<longrightarrow> sm_cancelled s' p" "sm_eventsWithContext s' = []"
    "sched_removes (the (sm_events s')) = sched_removes (the (sm_events u))"
    using ProcessEventsWithContext_ok [OF uo(1)] u(2) by auto
  have "\<forall>i \<in> known w'. genuine i s'"
  proof
    fix i assume "i \<in> known w'"
    then have "genuine i u" using uo(3) by simp
    then show "genuine i s'"
      by (rule genuine_later) (use s'(2,3,5) in auto)
  qed
  moreover have "sched_removes (the (sm_events u)) = sched_removes q'"
    using uo(1,2) t(1) by (auto simp: same_moment_def sim_ok_def)
  ultimately show ?thesis
    using that [OF b(2,3)] b(7,8) s' ue assms(5) q by simp
qed

section \<open>Sequences of events\<close>

text \<open>The loop of \<open>Run\<close> for \<open>n\<close> events, with the keys of the events and the implementations whose
  \<open>Notify\<close> was called: the calls \<open>impl_Invoke\<close> makes for the next event, read off by giving it a
  client that does nothing but note them. \<open>recording_events\<close> shows that they are the calls the
  run's own client receives.\<close>

definition notified :: "simulator \<Rightarrow> nat list" where
  "notified s = (case sm_events s of
     None \<Rightarrow> []
   | Some q \<Rightarrow> (case sched_RemoveNext q of
       None \<Rightarrow> []
     | Some (ev, q') \<Rightarrow>
         (case impl_Invoke (\<lambda>i calls. Done (calls @ [i])) (ev_impl ev) [] (sim_begin_event ev q' s) of
            None \<Rightarrow> [] | Some (calls, _) \<Rightarrow> calls)))"

lemma notified_eq:
  "notified s = (case sm_events s of
     None \<Rightarrow> []
   | Some q \<Rightarrow> (case sched_RemoveNext q of
       None \<Rightarrow> []
     | Some (ev, q') \<Rightarrow> if impl_IsCancelled (ev_impl ev) s then [] else [ev_impl ev]))"
  by (simp add: notified_def impl_Invoke_def impl_IsCancelled_def sim_begin_event_def split: option.split prod.split)

primrec process_events ::
    "nat \<Rightarrow> (nat \<Rightarrow> 'w \<Rightarrow> 'w prog) \<Rightarrow> 'w \<Rightarrow> simulator \<Rightarrow> ((u64 \<times> u32) list \<times> nat list \<times> 'w \<times> simulator) option" where
  "process_events 0 notify w s = Some ([], [], w, s)"
| "process_events (Suc n) notify w s =
     (if sim_IsFinished s \<noteq> Some False then None
      else case sim_ProcessOneEvent notify w s of
             None \<Rightarrow> None
           | Some (w1, s1) \<Rightarrow>
               map_option (\<lambda>(ks, ps, r). (now_key s1 # ks, notified s @ ps, r)) (process_events n notify w1 s1))"

lemma sim_IsFinished_False:
  "sim_ok s \<Longrightarrow> sim_IsFinished s = Some False \<longleftrightarrow> pending s \<noteq> {#} \<and> \<not> sm_stop s"
  by (auto simp: sim_IsFinished_def sim_ok_def pending_def sched_IsEmpty_iff)

lemma sim_ProcessOneEvent_uid:
  assumes "sim_ProcessOneEvent notify w s = Some (w', s')"
  shows "sm_uid s \<le> sm_uid s'"
proof -
  from assms obtain ev q' u where "impl_Invoke notify (ev_impl ev) w (sim_begin_event ev q' s) = Some (w', u)"
    "sim_ProcessEventsWithContext u = Some s'"
    by (auto simp: sim_ProcessOneEvent_def split: option.splits if_splits prod.splits)
  with impl_Invoke_uid [OF this(1)] show ?thesis
    by (auto simp: sim_begin_event_def sim_ProcessEventsWithContext_def dest: process_ewc_uid split: if_splits)
qed

lemma process_events_uid:
  "process_events n notify w s = Some (ks, ps, w', s') \<Longrightarrow> sm_uid s \<le> sm_uid s'"
proof (induction n arbitrary: w s ks ps)
  case (Suc n)
  then obtain w1 s1 ks1 ps1 where "sim_ProcessOneEvent notify w s = Some (w1, s1)" "process_events n notify w1 s1 = Some (ks1, ps1, w', s')"
    by (auto split: option.splits if_splits prod.splits)
  with Suc.IH sim_ProcessOneEvent_uid show ?case by (meson order_trans)
qed simp

lemma process_events_order:
  assumes "process_events n notify w s = Some (ks, ps, w', s')" "sim_ok s" "\<forall>i \<in> known w. genuine i s"
    "client_safe rm known notify" "rm \<longrightarrow> sched_removes (the (sm_events s))" "sm_eventsWithContext s = []"
    "sm_uid s' \<le> 2 ^ 32"
  shows "sorted_wrt (<) (now_key s # ks) \<and> length ks = n \<and> sim_ok s' \<and> (\<forall>i \<in> known w'. genuine i s')
    \<and> sm_eventCount s' = sm_eventCount s + of_nat n \<and> now_key s' = last (now_key s # ks)"
  using assms(1-3,5,6)
proof (induction n arbitrary: w s ks ps)
  case (Suc n)
  then obtain w1 s1 ks1 ps1 where r: "sim_ProcessOneEvent notify w s = Some (w1, s1)" "process_events n notify w1 s1 = Some (ks1, ps1, w', s')"
    "ks = now_key s1 # ks1" "sim_IsFinished s = Some False"
    by (auto split: option.splits if_splits prod.splits)
  have ne: "pending s \<noteq> {#}" using r(4) sim_IsFinished_False [OF Suc.prems(2)] by simp
  have fit: "ewc_fits s" using Suc.prems(5) by (simp add: ewc_fits_def)
  have "sm_uid s1 \<le> 2 ^ 32" using process_events_uid [OF r(2)] assms(7) by simp
  from sim_ProcessOneEvent_ok [OF Suc.prems(2) ne Suc.prems(3) assms(4) Suc.prems(4) fit r(1) this]
  obtain ev where e: "now_key s1 = rank ev" "now_key s < rank ev" "sim_ok s1" "\<forall>i \<in> known w1. genuine i s1"
    "rm \<longrightarrow> sched_removes (the (sm_events s1))" "sm_eventCount s1 = sm_eventCount s + 1" "sm_eventsWithContext s1 = []" by metis
  from Suc.IH [OF r(2) e(3,4,5,7)] e(1,2,6) r(3) show ?case by auto
qed simp

text \<open>C3: in every run of the main loop, with any event list and any client that uses no negative delay and
  removes only events it was given ids of, events are processed in the order of time, and of
  scheduling among events of one time: the clock never goes back, no id is processed twice, the number
  of unscheduled events stays the number of pending ones, and every id the client holds is either
  expired or that of a pending event. (The ids are 32-bit numbers: the statement is for runs that give
  out no more than there are.)\<close>

theorem simulator_order:
  assumes "process_events n notify w s = Some (ks, ps, w', s')" "sim_ok s" "\<forall>i \<in> known w. genuine i s"
    "client_safe rm known notify" "rm \<longrightarrow> sched_removes (the (sm_events s))" "sm_eventsWithContext s = []"
    "sm_uid s' \<le> 2 ^ 32"
  shows "sorted_wrt (<) (now_key s # ks) \<and> length ks = n \<and> sim_ok s' \<and> (\<forall>i \<in> known w'. genuine i s')
    \<and> sm_eventCount s' = sm_eventCount s + of_nat n"
  using process_events_order [OF assms] by blast

definition two_events :: simulator where
  "two_events = the (map_option snd (sim_Schedule 5 1 (snd (the (sim_Schedule 7 0 (sim_new\<lparr>sm_events := Some (MapSched [])\<rparr>))))))"

fun relay :: "nat \<Rightarrow> event_id option \<Rightarrow> event_id option prog" where
  \<comment> \<open>event 1 schedules event 2 for now, event 2 removes it again\<close>
  "relay p x = (if p = 1 then Do (CallScheduleNow 2) (\<lambda>a. Done (case a of AnswerId i \<Rightarrow> Some i | _ \<Rightarrow> None))
                else case x of None \<Rightarrow> Done None | Some i \<Rightarrow> Do (CallRemove i) (\<lambda>_. Done None))"

lemma two_events_run:
  "map_option (\<lambda>(ks, ps, w, s). (ks, ps, w, sm_uid s)) (process_events 3 relay None two_events)
     = Some ([(5, 5), (5, 6), (7, 4)], [1, 2, 0], None, 7)"
  by code_simp

lemma sim_Schedule_ok:
  assumes "sim_ok s" "0 \<le> sint d" "unat d + unat (sm_currentTs s) < 2 ^ 63" "sm_uid s < 2 ^ 32"
  shows "\<exists>s'. sim_Schedule d p s = Some (id_of (sim_new_event p (d + sm_currentTs s) (sm_currentContext s) s), s')
    \<and> sim_ok s' \<and> pending s' = add_mset (sim_new_event p (d + sm_currentTs s) (sm_currentContext s) s) (pending s)
    \<and> sm_uid s' = sm_uid s + 1 \<and> same_moment s s' \<and> sm_stop s' = sm_stop s"
proof -
  have "unat (sm_currentTs s) < 2 ^ 63" using assms(1) by (simp add: sim_ok_def)
  then have ts: "time_plus d (sm_currentTs s) = Some (d + sm_currentTs s)"
    using assms(3) by (simp add: time_plus_nonneg [OF assms(2)])
  from schedule_ok [OF assms(1,2) ts assms(4), of p "sm_currentContext s"] assms(2) ts show ?thesis
    by (auto simp: sim_Schedule_def sim_GetContext_def Let_def not_less)
qed

lemma sim_start_ok: "sim_ok (sim_new\<lparr>sm_events := Some (sched_Create k)\<rparr>)"
proof -
  have "pending (sim_new\<lparr>sm_events := Some (sched_Create k)\<rparr>) = {#}"
    using sched_Create_ok [of k] by (simp add: pending_def)
  then show ?thesis
    using sched_Create_ok [of k] by (simp add: sim_ok_def sim_new_def uids_distinct_def)
qed

lemma two_events_ok: "sim_ok two_events" "sm_eventsWithContext two_events = []" "sched_removes (the (sm_events two_events))"
proof -
  define s0 where "s0 = sim_new\<lparr>sm_events := Some (MapSched [])\<rparr>"
  have s0: "sim_ok s0" "sm_uid s0 = 4" "sm_currentTs s0 = 0" "sm_eventsWithContext s0 = []" "sm_events s0 = Some (MapSched [])"
    using sim_start_ok [of MapKind] by (simp_all add: s0_def sim_new_def)
  from sim_Schedule_ok [OF s0(1), of 7 0] s0(2,3) obtain i1 s1 where s1: "sim_Schedule 7 0 s0 = Some (i1, s1)" "sim_ok s1"
    "sm_uid s1 = 5" "same_moment s0 s1" by auto
  have "sm_currentTs s1 = 0" using s1(4) s0(3) by (simp add: same_moment_def)
  with sim_Schedule_ok [OF s1(2), of 5 1] s1(3) obtain i2 s2 where s2: "sim_Schedule 5 1 s1 = Some (i2, s2)" "sim_ok s2"
    "same_moment s1 s2" by auto
  have two: "two_events = s2" using s1(1) s2(1) by (simp add: two_events_def s0_def)
  show "sim_ok two_events" using s2(2) two by simp
  obtain q1 q2 where "sm_events s1 = Some q1" "sm_events s2 = Some q2" using s1(2) s2(2) by (auto simp: sim_ok_def)
  then show "sm_eventsWithContext two_events = []" "sched_removes (the (sm_events two_events))"
    using s1(4) s2(3) s0(4,5) two by (simp_all add: same_moment_def)
qed

lemma relay_safe: "client_safe True (\<lambda>x. case x of None \<Rightarrow> {} | Some i \<Rightarrow> {i}) relay"
  by (auto simp: client_safe_def split: sim_answer.splits option.splits)

theorem simulator_order_witness:
  "\<exists>ks ps w s. process_events 3 relay None two_events = Some (ks, ps, w, s) \<and> sorted_wrt (<) (now_key two_events # ks) \<and> sim_ok s"
proof -
  obtain ks ps w s where r: "process_events 3 relay None two_events = Some (ks, ps, w, s)" "sm_uid s = 7"
    using two_events_run by (auto simp del: process_events.simps)
  from simulator_order [OF r(1) two_events_ok(1) _ relay_safe] r two_events_ok(2,3) show ?thesis by simp
qed

section \<open>Cancelled events\<close>

lemma do_call_cancelled: "do_call c s = Some (a, s') \<Longrightarrow> sm_cancelled s p \<Longrightarrow> sm_cancelled s' p"
  by (cases c) (auto simp: sim_Schedule_def sim_ScheduleNow_def sim_ScheduleWithContext_def sim_ScheduleDestroy_def
      sim_Remove_def sim_Cancel_def sim_Stop_def impl_Cancel_def Let_def sim_insert_def split: option.splits if_splits)

lemma run_prog_cancelled: "run_prog x s = Some (w, s') \<Longrightarrow> sm_cancelled s p \<Longrightarrow> sm_cancelled s' p"
proof (induction x arbitrary: s)
  case (Do c k)
  then obtain a s1 where "do_call c s = Some (a, s1)" "run_prog (k a) s1 = Some (w, s')"
    by (auto split: option.splits)
  with Do.IH [of "k a" s1] Do.prems(2) do_call_cancelled [of c s a s1 p] show ?case by auto
qed simp

lemma process_ewc_cancelled: "process_ewc xs s = Some s' \<Longrightarrow> sm_cancelled s' = sm_cancelled s"
  by (induction xs arbitrary: s) (auto simp: sim_insert_def split: option.splits)

lemma sim_ProcessOneEvent_cancelled:
  assumes "sim_ProcessOneEvent notify w s = Some (w', s')" "sm_cancelled s p"
  shows "sm_cancelled s' p \<and> p \<notin> set (notified s)"
proof -
  from assms(1) obtain ev q' u where r: "impl_Invoke notify (ev_impl ev) w (sim_begin_event ev q' s) = Some (w', u)"
    "sim_ProcessEventsWithContext u = Some s'"
    by (auto simp: sim_ProcessOneEvent_def split: option.splits if_splits prod.splits)
  have "sm_cancelled u p"
    using r(1) assms(2) by (auto simp: impl_Invoke_def sim_begin_event_def dest: run_prog_cancelled split: if_splits)
  moreover have "p \<notin> set (notified s)"
    using assms(2) by (auto simp: notified_eq impl_IsCancelled_def split: option.splits if_splits)
  ultimately show ?thesis
    using r(2) by (auto simp: sim_ProcessEventsWithContext_def dest!: process_ewc_cancelled split: if_splits)
qed

lemma process_events_cancelled:
  "process_events n notify w s = Some (ks, ps, w', s') \<Longrightarrow> sm_cancelled s p \<Longrightarrow> p \<notin> set ps"
proof (induction n arbitrary: w s ks ps)
  case (Suc n)
  then obtain w1 s1 ks1 ps1 where r: "sim_ProcessOneEvent notify w s = Some (w1, s1)" "process_events n notify w1 s1 = Some (ks1, ps1, w', s')"
    "ps = notified s @ ps1"
    by (auto split: option.splits if_splits prod.splits)
  with Suc.IH [OF r(2)] sim_ProcessOneEvent_cancelled [OF r(1) Suc.prems(2)] show ?case by simp
qed simp

text \<open>A client that keeps a list of the calls of \<open>Notify\<close> it receives, beside its own state.\<close>

definition recording :: "(nat \<Rightarrow> 'w \<Rightarrow> 'w prog) \<Rightarrow> nat \<Rightarrow> 'w \<times> nat list \<Rightarrow> ('w \<times> nat list) prog" where
  "recording notify i x = map_prog (\<lambda>w. (w, snd x @ [i])) (notify i (fst x))"

lemma run_map_prog: "run_prog (map_prog f x) s = map_option (\<lambda>(w, s'). (f w, s')) (run_prog x s)"
  by (induction x arbitrary: s) (auto split: option.splits)

lemma recording_Invoke:
  "impl_Invoke (recording notify) i (w, calls) s =
     map_option (\<lambda>(w', s'). ((w', calls @ (if impl_IsCancelled i s then [] else [i])), s')) (impl_Invoke notify i w s)"
  by (simp add: impl_Invoke_def recording_def run_map_prog)

lemma recording_event:
  "sim_ProcessOneEvent (recording notify) (w, calls) s =
     map_option (\<lambda>(w', s'). ((w', calls @ notified s), s')) (sim_ProcessOneEvent notify w s)"
  by (simp add: sim_ProcessOneEvent_def notified_eq recording_Invoke impl_IsCancelled_def sim_begin_event_def
      option.map_comp o_def split: option.split prod.split)

lemma recording_events:
  "process_events n (recording notify) (w, calls) s =
     map_option (\<lambda>(ks, ps, w', s'). (ks, ps, (w', calls @ ps), s')) (process_events n notify w s)"
proof (induction n arbitrary: w calls s)
  case (Suc n)
  then show ?case
    by (simp add: recording_event option.map_comp o_def split_def split: option.split)
qed simp

text \<open>C17: after an event that is not yet expired is cancelled or removed, its id is expired and its function
  is not called in any continuation of the run: the same run with a client that records every call of
  \<open>Notify\<close> it receives takes the same course and records exactly the calls \<open>ps\<close>, and the
  event's implementation is not among them.\<close>

theorem cancelled_never_notified:
  assumes "\<not> sim_IsExpired i s" "id_uid i \<noteq> UID_DESTROY" "id_impl i = Some p" "s1 = sim_Cancel i s \<or> sim_Remove i s = Some s1"
    "process_events n notify w s1 = Some (ks, ps, w', s')"
  shows "sim_IsExpired i s1 \<and> p \<notin> set ps
    \<and> process_events n (recording notify) (w, []) s1 = Some (ks, ps, (w', ps), s')"
proof -
  have c: "sm_cancelled s1 p"
    using assms(1-4) by (auto simp: sim_Cancel_def sim_Remove_def impl_Cancel_def split: option.splits)
  then have "sim_IsExpired i s1" using assms(2,3) by (simp add: sim_IsExpired_def impl_IsCancelled_def)
  with process_events_cancelled [OF assms(5) c] show ?thesis by (simp add: recording_events assms(5))
qed

theorem cancelled_never_notified_witness:
  "\<exists>w s. process_events 2 (recording (\<lambda>_ _. Done ())) ((), [])
       (sim_Cancel \<lparr>id_impl = Some 1, id_ts = 5, id_context = NO_CONTEXT, id_uid = 5\<rparr> two_events)
       = Some ([(5, 5), (7, 4)], [0], (w, [0]), s)"
proof -
  let ?i = "\<lparr>id_impl = Some 1, id_ts = 5, id_context = NO_CONTEXT, id_uid = 5\<rparr> :: event_id"
  have "map_option (\<lambda>(ks, ps, w, s). (ks, ps)) (process_events 2 (\<lambda>_ _. Done ()) () (sim_Cancel ?i two_events))
      = Some ([(5, 5), (7, 4)], [0])"
    by code_simp
  then obtain w s where r: "process_events 2 (\<lambda>_ _. Done ()) () (sim_Cancel ?i two_events) = Some ([(5, 5), (7, 4)], [0], w, s)"
    by (auto simp del: process_events.simps)
  have "\<not> sim_IsExpired ?i two_events" by code_simp
  from cancelled_never_notified [OF this _ _ _ r, of 1] show ?thesis by simp
qed

end
