(* ===== verification/SimulatorRuns.thy ===== *)
theory SimulatorRuns
  imports DefaultSimulator
begin

text \<open>
  Whole runs of the simulator: changing the event list (\<open>SetScheduler\<close>) is a refinement step that no
  client can observe, and a run with a pending \<open>Stop\<close> event ends when every delay is positive.
\<close>

section \<open>Changing the event list\<close>

lemma transfer_events_ok:
  assumes "sched_invar old" "sched_invar new" "uids_distinct (sched_events old + sched_events new)"
    "\<forall>e \<in># sched_events old. sched_floor new \<le> ts_of e \<and> unat (ts_of e) < 2 ^ 63"
  shows "\<exists>q. transfer_events old new = Some (Some q) \<and> sched_invar q \<and> sched_events q = sched_events old + sched_events new
    \<and> sched_floor q = sched_floor new \<and> sched_removes q = sched_removes new"
  using assms
proof (induction "size (sched_events old)" arbitrary: old new)
  case 0
  then have "sched_IsEmpty old" by (simp add: sched_IsEmpty_iff)
  with 0 show ?case by (subst transfer_events.simps) simp
next
  case (Suc n)
  then have ne: "sched_events old \<noteq> {#}" by auto
  from sched_RemoveNext_ok [OF Suc.prems(1) ne] obtain ev q' where r: "sched_RemoveNext old = Some (ev, q')" "sched_invar q'"
    "sched_events old = add_mset ev (sched_events q')" by blast
  have "\<forall>e \<in># sched_events new. uid_of e \<noteq> uid_of ev"
  proof (intro ballI notI)
    fix e assume e: "e \<in># sched_events new" "uid_of e = uid_of ev"
    with Suc.prems(3) r(3) have "e = ev" by (auto simp: uids_distinct_def)
    with e(1) have "0 < count (sched_events new) ev" by simp
    moreover have "count (sched_events old + sched_events new) ev = 1"
      using Suc.prems(3) r(3) by (simp add: uids_distinct_def)
    ultimately show False using r(3) by (auto simp: count_eq_zero_iff)
  qed
  with sched_Insert_ok [OF Suc.prems(2)] Suc.prems(4) r(3) obtain new' where n: "sched_Insert ev new = Some new'" "sched_invar new'"
    "sched_events new' = add_mset ev (sched_events new)" "sched_floor new' = sched_floor new" "sched_removes new' = sched_removes new"
    by force
  have "\<exists>q. transfer_events q' new' = Some (Some q) \<and> sched_invar q \<and> sched_events q = sched_events q' + sched_events new'
    \<and> sched_floor q = sched_floor new' \<and> sched_removes q = sched_removes new'"
  proof (rule Suc.hyps(1))
    show "n = size (sched_events q')" using Suc.hyps(2) r(3) by simp
    show "uids_distinct (sched_events q' + sched_events new')" using Suc.prems(3) r(3) n(3) by simp
  qed (use Suc.prems(4) r n in simp_all)
  with r n sched_IsEmpty_iff [OF Suc.prems(1)] ne show ?case
    by (subst transfer_events.simps) auto
qed

text \<open>Two simulators that differ in the event list only, which holds the same events.\<close>

definition same_but_list :: "simulator \<Rightarrow> simulator \<Rightarrow> bool" where
  "same_but_list s t \<longleftrightarrow> t = s\<lparr>sm_events := sm_events t\<rparr> \<and> sim_ok s \<and> sim_ok t \<and> pending t = pending s"

lemma sim_SetScheduler_ok:
  assumes "sim_ok s"
  shows "\<exists>t. sim_SetScheduler k s = Some (Some t) \<and> same_but_list s t
    \<and> sched_removes (the (sm_events t)) = sched_removes (sched_Create k)"
proof -
  obtain q where q: "sm_events s = Some q" "sched_invar q" "sched_floor q \<le> sm_currentTs s" "pending s = sched_events q"
    using assms by (auto simp: sim_ok_def pending_def)
  have "\<forall>e \<in># sched_events q. unat (ts_of e) < 2 ^ 63" "uids_distinct (sched_events q)"
    using assms q(4) by (auto simp: sim_ok_def event_due_def)
  with transfer_events_ok [OF q(2), of "sched_Create k"] sched_Create_ok [of k] obtain q' where
    q': "transfer_events q (sched_Create k) = Some (Some q')" "sched_invar q'" "sched_events q' = sched_events q" "sched_floor q' = 0"
    "sched_removes q' = sched_removes (sched_Create k)" by auto
  define t where "t = s\<lparr>sm_events := Some q'\<rparr>"
  have pend: "pending t = pending s" using q(4) q'(3) by (simp add: pending_def t_def)
  have "event_due t e = event_due s e" for e by (simp add: event_due_def now_key_def t_def)
  then have "sim_ok t"
    using assms q' unfolding sim_ok_def pend by (simp add: t_def)
  then have "same_but_list s t" using assms pend by (simp add: same_but_list_def t_def)
  moreover have "sim_SetScheduler k s = Some (Some t)" using q(1) q'(1) by (simp add: sim_SetScheduler_def t_def)
  ultimately show ?thesis using q'(5) by (simp add: t_def)
qed

section \<open>The event list is not observable\<close>

lemma same_but_list_simps:
  assumes "same_but_list s t"
  shows "sm_currentTs t = sm_currentTs s" "sm_currentUid t = sm_currentUid s" "sm_currentContext t = sm_currentContext s"
    "sm_uid t = sm_uid s" "sm_cancelled t = sm_cancelled s" "sm_destroyEvents t = sm_destroyEvents s" "sm_stop t = sm_stop s"
    "sm_eventCount t = sm_eventCount s" "sm_eventsWithContext t = sm_eventsWithContext s" "pending t = pending s"
    "now_key t = now_key s" "sim_IsExpired i t = sim_IsExpired i s" "genuine i t = genuine i s" "ewc_fits t = ewc_fits s"
    "sm_eventsWithContextEmpty t = sm_eventsWithContextEmpty s" "sim_ok s" "sim_ok t"
proof -
  have t: "t = s\<lparr>sm_events := sm_events t\<rparr>" and p: "pending t = pending s" and ok: "sim_ok s" "sim_ok t"
    using assms by (auto simp: same_but_list_def)
  show "sm_currentTs t = sm_currentTs s" "sm_currentUid t = sm_currentUid s" "sm_currentContext t = sm_currentContext s"
    "sm_uid t = sm_uid s" "sm_cancelled t = sm_cancelled s" "sm_destroyEvents t = sm_destroyEvents s" "sm_stop t = sm_stop s"
    "sm_eventCount t = sm_eventCount s" "sm_eventsWithContext t = sm_eventsWithContext s"
    "sm_eventsWithContextEmpty t = sm_eventsWithContextEmpty s" by (subst t, simp)+
  then show "now_key t = now_key s" "sim_IsExpired i t = sim_IsExpired i s" "genuine i t = genuine i s" "ewc_fits t = ewc_fits s"
    using p by (simp_all add: now_key_def sim_IsExpired_def impl_IsCancelled_def genuine_def ewc_fits_def cong: option.case_cong)
qed (use assms in \<open>auto simp: same_but_list_def\<close>)

lemma same_but_listI:
  assumes "t = s\<lparr>sm_events := q\<rparr>" "sim_ok s" "sim_ok t" "pending t = pending s"
  shows "same_but_list s t"
  using assms by (simp add: same_but_list_def)

lemma same_but_list_insert:
  assumes "same_but_list s t" "sim_insert ev s = Some s'" "sm_currentTs s \<le> ts_of ev" "unat (ts_of ev) < 2 ^ 63"
    "uid_of ev = of_nat (sm_uid s)" "sm_uid s < 2 ^ 32"
  shows "\<exists>t'. sim_insert ev t = Some t' \<and> same_but_list s' t'"
proof -
  note eq = same_but_list_simps [OF assms(1)]
  from sim_insert_ok [OF eq(16) assms(3-6)] assms(2) have s': "sim_ok s'" "pending s' = add_mset ev (pending s)" by auto
  from sim_insert_ok [OF eq(17), of ev] assms(3-6) obtain t' where t': "sim_insert ev t = Some t'" "sim_ok t'"
    "pending t' = add_mset ev (pending t)" unfolding eq by auto
  obtain q where "t = s\<lparr>sm_events := q\<rparr>" using assms(1) by (auto simp: same_but_list_def)
  with assms(2) t'(1) have "t' = s'\<lparr>sm_events := sm_events t'\<rparr>"
    by (auto simp: sim_insert_def intro!: simulator.equality split: option.splits)
  with s' t' eq(10) show ?thesis by (auto intro: same_but_listI)
qed

lemma same_but_list_schedule:
  assumes "same_but_list s t" "0 \<le> sint d" "time_plus d (sm_currentTs s) = Some ts"
    "sim_insert (sim_new_event p ts ctx s) s = Some s'" "sm_uid s' \<le> 2 ^ 32"
  shows "\<exists>t'. sim_insert (sim_new_event p ts ctx s) t = Some t' \<and> same_but_list s' t'"
proof -
  note eq = same_but_list_simps [OF assms(1)]
  have uid: "sm_uid s < 2 ^ 32" using sim_insert_uid [OF assms(4)] assms(5) by simp
  have now: "unat (sm_currentTs s) < 2 ^ 63" using eq(16) by (simp add: sim_ok_def)
  have ts: "unat d + unat (sm_currentTs s) < 2 ^ 63" "ts = d + sm_currentTs s"
    using assms(3) unfolding time_plus_nonneg [OF assms(2) now] by (simp_all split: if_splits)
  have "unat ts = unat d + unat (sm_currentTs s)"
    unfolding ts(2) using ts(1) by (intro unat_add_lem [THEN iffD1]) simp
  then show ?thesis
    using ts(1) uid by (intro same_but_list_insert [OF assms(1,4)]) (simp_all add: sim_new_event_def word_le_nat_alt)
qed

lemma same_but_list_Remove:
  assumes "same_but_list s t" "genuine i s" "sched_removes (the (sm_events s))" "sched_removes (the (sm_events t))"
    "sim_Remove i s = Some s'"
  shows "\<exists>t'. sim_Remove i t = Some t' \<and> same_but_list s' t'"
proof -
  note eq = same_but_list_simps [OF assms(1)]
  obtain q r where q: "sm_events s = Some q" "sm_events t = Some r" using eq(16,17) by (auto simp: sim_ok_def)
  have "genuine i t" "sched_removes q" "sched_removes r" using assms(2-4) q eq(13) by simp_all
  note rm = sim_Remove_ok [OF eq(16) assms(2) q(1) \<open>sched_removes q\<close>] sim_Remove_ok [OF eq(17) \<open>genuine i t\<close> q(2) \<open>sched_removes r\<close>]
  from rm(1) assms(5) have s': "sim_ok s'"
    "pending s' = pending s - (if id_uid i = UID_DESTROY \<or> sim_IsExpired i s then {#} else {#event_of_id i (the (id_impl i))#})" by auto
  from rm(2) obtain t' where t': "sim_Remove i t = Some t'" "sim_ok t'"
    "pending t' = pending t - (if id_uid i = UID_DESTROY \<or> sim_IsExpired i t then {#} else {#event_of_id i (the (id_impl i))#})" by blast
  obtain x where t: "t = s\<lparr>sm_events := x\<rparr>" using assms(1) by (auto simp: same_but_list_def)
  have exp: "sim_IsExpired i (s\<lparr>sm_events := x\<rparr>) = sim_IsExpired i s" using eq(12) [of i] t by simp
  have "t' = s'\<lparr>sm_events := sm_events t'\<rparr>"
  proof (cases "id_uid i = UID_DESTROY \<or> sim_IsExpired i s")
    case True
    with assms(5) t'(1) exp show ?thesis unfolding t by (cases "id_uid i = UID_DESTROY") (auto simp: sim_Remove_def)
  next
    case False
    with assms(5) t'(1) exp q show ?thesis
      unfolding t by (cases "id_impl i") (auto simp: sim_Remove_def impl_Cancel_def intro!: simulator.equality)
  qed
  moreover have "pending t' = pending s'"
    using s'(2) t'(3) eq(10,12) by simp
  ultimately show ?thesis using s' t' by (auto intro: same_but_listI)
qed

lemma same_but_list_call:
  assumes "same_but_list s t" "\<forall>i \<in> K. genuine i s" "call_safe rm K c"
    "rm \<longrightarrow> sched_removes (the (sm_events s)) \<and> sched_removes (the (sm_events t))"
    "do_call c s = Some (a, s')" "sm_uid s' \<le> 2 ^ 32"
  shows "\<exists>t'. do_call c t = Some (a, t') \<and> same_but_list s' t'"
proof -
  note eq = same_but_list_simps [OF assms(1)]
  have ev: "sim_new_event p ts ctx t = sim_new_event p ts ctx s" for p ts ctx
    by (simp add: sim_new_event_def eq)
  obtain x where t: "t = s\<lparr>sm_events := x\<rparr>" using assms(1) by (auto simp: same_but_list_def)
  have frame: "\<exists>t'. do_call c t = Some (a, t') \<and> same_but_list s' t'"
    if "do_call c t = Some (a, s'\<lparr>sm_events := x\<rparr>)" "sm_events s' = sm_events s" "sm_unscheduledEvents s' = sm_unscheduledEvents s"
      "same_moment s s'"
  proof -
    have "sim_ok s'" by (rule sim_ok_frame [OF eq(16)]) (use that in \<open>simp_all add: same_moment_def\<close>)
    moreover have "sim_ok (s'\<lparr>sm_events := x\<rparr>)"
      by (rule sim_ok_frame [OF eq(17)]) (use that eq in \<open>simp_all add: same_moment_def t\<close>)
    moreover have "pending (s'\<lparr>sm_events := x\<rparr>) = pending s'"
      using eq(10) that(2) by (simp add: pending_def t)
    ultimately show ?thesis using that(1) by (auto intro: same_but_listI)
  qed
  show ?thesis
  proof (cases c)
    case (CallSchedule d i)
    with assms(3,5) obtain ts where ts: "0 \<le> sint d" "time_plus d (sm_currentTs s) = Some ts"
      "sim_insert (sim_new_event i ts (sim_GetContext s) s) s = Some s'" "a = AnswerId (id_of (sim_new_event i ts (sim_GetContext s) s))"
      by (auto simp: sim_Schedule_def Let_def split: option.splits if_splits)
    from same_but_list_schedule [OF assms(1) ts(1-3) assms(6)] ts CallSchedule show ?thesis
      by (auto simp: sim_Schedule_def eq ev sim_GetContext_def)
  next
    case (CallScheduleNow i)
    with assms(5) obtain ts where ts: "time_plus 0 (sm_currentTs s) = Some ts"
      "sim_insert (sim_new_event i ts (sim_GetContext s) s) s = Some s'" "a = AnswerId (id_of (sim_new_event i ts (sim_GetContext s) s))"
      by (auto simp: sim_ScheduleNow_def sim_Schedule_def Let_def split: option.splits if_splits)
    from same_but_list_schedule [OF assms(1) _ ts(1,2) assms(6)] ts CallScheduleNow show ?thesis
      by (auto simp: sim_ScheduleNow_def sim_Schedule_def eq ev sim_GetContext_def)
  next
    case (CallScheduleWithContext y d i)
    with assms(3,5) obtain ts where ts: "0 \<le> sint d" "time_plus d (sm_currentTs s) = Some ts"
      "sim_insert (sim_new_event i ts y s) s = Some s'" "a = NoAnswer"
      by (auto simp: sim_ScheduleWithContext_def split: option.splits)
    from same_but_list_schedule [OF assms(1) ts(1-3) assms(6)] ts CallScheduleWithContext show ?thesis
      by (auto simp: sim_ScheduleWithContext_def eq ev)
  next
    case (CallRemove i)
    with assms(2-5) same_but_list_Remove [OF assms(1), of i s'] show ?thesis by auto
  next
    case (CallScheduleDestroy i)
    with assms(5) show ?thesis
      by (intro frame) (auto simp: sim_ScheduleDestroy_def Let_def same_moment_def t)
  next
    case (CallCancel i)
    have exp: "sim_IsExpired i (s\<lparr>sm_events := x\<rparr>) = sim_IsExpired i s" using eq(12) [of i] t by simp
    show ?thesis
    proof (rule frame)
      show "do_call c t = Some (a, s'\<lparr>sm_events := x\<rparr>)"
        using CallCancel assms(5) exp by (auto simp: sim_Cancel_def impl_Cancel_def t split: option.splits)
      show "same_moment s s'" "sm_events s' = sm_events s" "sm_unscheduledEvents s' = sm_unscheduledEvents s"
        using CallCancel assms(5) by (auto simp: sim_Cancel_def impl_Cancel_def same_moment_def split: option.splits if_splits)
    qed
  next
    case CallStop
    with assms(5) show ?thesis by (intro frame) (auto simp: sim_Stop_def same_moment_def t)
  qed (use assms(1,5) eq in \<open>auto simp: sim_GetDelayLeft_def sim_Now_def sim_GetContext_def sim_GetEventCount_def\<close>)
qed

definition both_remove :: "bool \<Rightarrow> simulator \<Rightarrow> simulator \<Rightarrow> bool" where
  "both_remove rm s t \<longleftrightarrow> (rm \<longrightarrow> sched_removes (the (sm_events s)) \<and> sched_removes (the (sm_events t)))"

lemma same_moment_removes:
  assumes "same_moment s s'" "sim_ok s" "sim_ok s'"
  shows "sched_removes (the (sm_events s')) = sched_removes (the (sm_events s))"
  using assms by (auto simp: same_moment_def sim_ok_def)

lemma same_but_list_prog:
  assumes "same_but_list s t" "\<forall>i \<in> K. genuine i s" "prog_safe rm known p K" "both_remove rm s t"
    "run_prog p s = Some (w, s')" "sm_uid s' \<le> 2 ^ 32"
  shows "\<exists>t'. run_prog p t = Some (w, t') \<and> same_but_list s' t'"
  using assms(1-5)
proof (induction p arbitrary: s t K)
  case (Done x)
  then show ?case by auto
next
  case (Do c k)
  note eq = same_but_list_simps [OF Do.prems(1)]
  from Do.prems(5) obtain a s1 where c: "do_call c s = Some (a, s1)" "run_prog (k a) s1 = Some (w, s')"
    by (auto split: option.splits)
  have uid: "sm_uid s1 \<le> 2 ^ 32" using run_prog_uid [OF c(2)] assms(6) by simp
  have safe: "call_safe rm K c" "prog_safe rm known (k a) (K \<union> answer_ids a)" using Do.prems(3) by auto
  have rms: "rm \<longrightarrow> sched_removes (the (sm_events s))" "rm \<longrightarrow> sched_removes (the (sm_events t))"
    using Do.prems(4) by (auto simp: both_remove_def)
  have gt: "\<forall>i \<in> K. genuine i t" using Do.prems(2) eq(13) by simp
  from same_but_list_call [OF Do.prems(1,2) safe(1) _ c(1) uid] rms obtain t1 where
    t1: "do_call c t = Some (a, t1)" "same_but_list s1 t1" by blast
  have uid': "sm_uid t1 \<le> 2 ^ 32" using uid same_but_list_simps(4) [OF t1(2)] by simp
  note s1 = do_call_ok [OF eq(16) Do.prems(2) safe(1) rms(1) c(1) uid]
  note t1' = do_call_ok [OF eq(17) gt safe(1) rms(2) t1(1) uid']
  have "both_remove rm s1 t1"
    using s1 t1' rms same_moment_removes [of s s1] same_moment_removes [of t t1] eq(16,17) by (simp add: both_remove_def)
  with Do.IH [OF _ t1(2) _ safe(2) _ c(2)] s1 t1(1) show ?case by auto
qed

lemma same_but_list_ewc:
  assumes "same_but_list s t" "process_ewc xs s = Some s'" "sm_uid s' \<le> 2 ^ 32"
    "\<forall>x \<in> set xs. unat (sm_currentTs s) + unat (ewc_timestamp x) < 2 ^ 63"
  shows "\<exists>t'. process_ewc xs t = Some t' \<and> same_but_list s' t'"
  using assms
proof (induction xs arbitrary: s t)
  case (Cons x xs)
  note eq = same_but_list_simps [OF Cons.prems(1)]
  let ?ev = "sim_new_event (ewc_event x) (sm_currentTs s + ewc_timestamp x) (ewc_context x) s"
  have ev: "sim_new_event (ewc_event x) (sm_currentTs t + ewc_timestamp x) (ewc_context x) t = ?ev"
    by (simp add: sim_new_event_def eq)
  from Cons.prems(2) obtain s1 where s1: "sim_insert ?ev s = Some s1" "process_ewc xs s1 = Some s'"
    by (auto split: option.splits)
  have uid: "sm_uid s < 2 ^ 32" using sim_insert_uid [OF s1(1)] process_ewc_uid [OF s1(2)] Cons.prems(3) by simp
  have fit: "unat (sm_currentTs s) + unat (ewc_timestamp x) < 2 ^ 63" using Cons.prems(4) by simp
  then have "unat (sm_currentTs s + ewc_timestamp x) = unat (sm_currentTs s) + unat (ewc_timestamp x)"
    by (intro unat_add_lem [THEN iffD1]) simp
  then obtain t1 where t1: "sim_insert ?ev t = Some t1" "same_but_list s1 t1"
    using same_but_list_insert [OF Cons.prems(1) s1(1)] fit uid
    by (auto simp: sim_new_event_def word_le_nat_alt)
  have "sm_currentTs s1 = sm_currentTs s" using s1(1) by (auto simp: sim_insert_def split: option.splits)
  with Cons.IH [OF t1(2) s1(2) Cons.prems(3)] Cons.prems(4) t1(1) ev show ?case by simp
qed simp

lemma same_but_list_handoff:
  assumes "same_but_list s t" "sim_ProcessEventsWithContext s = Some s'" "sm_uid s' \<le> 2 ^ 32"
    "\<forall>x \<in> set (sm_eventsWithContext s). unat (sm_currentTs s) + unat (ewc_timestamp x) < 2 ^ 63"
  shows "\<exists>t'. sim_ProcessEventsWithContext t = Some t' \<and> same_but_list s' t'"
proof (cases "sm_eventsWithContextEmpty s")
  case True
  with assms(1,2) same_but_list_simps(15) [OF assms(1)] show ?thesis by (simp add: sim_ProcessEventsWithContext_def)
next
  case False
  note eq = same_but_list_simps [OF assms(1)]
  let ?s = "s\<lparr>sm_eventsWithContext := [], sm_eventsWithContextEmpty := True\<rparr>"
  let ?t = "t\<lparr>sm_eventsWithContext := [], sm_eventsWithContextEmpty := True\<rparr>"
  obtain x where t: "t = s\<lparr>sm_events := x\<rparr>" using assms(1) by (auto simp: same_but_list_def)
  have "pending ?s = pending s" "pending ?t = pending t" "event_due ?s e = event_due s e" "event_due ?t e = event_due t e" for e
    by (simp_all add: pending_def event_due_def now_key_def)
  moreover from this have "sim_ok ?s" "sim_ok ?t"
    using eq(16,17) by (simp_all add: sim_ok_def)
  moreover have "?t = ?s\<lparr>sm_events := x\<rparr>" by (rule simulator.equality) (simp_all add: t)
  ultimately have "same_but_list ?s ?t" using eq(10) by (intro same_but_listI) simp_all
  from same_but_list_ewc [OF this _ assms(3)] assms(2,4) False eq(9,15) show ?thesis
    by (simp add: sim_ProcessEventsWithContext_def)
qed

lemma same_but_list_ProcessOneEvent:
  assumes "same_but_list s t" "pending s \<noteq> {#}" "\<forall>i \<in> known w. genuine i s" "client_safe rm known notify" "both_remove rm s t"
    "ewc_fits s" "sim_ProcessOneEvent notify w s = Some (w', s')" "sm_uid s' \<le> 2 ^ 32"
  shows "\<exists>t'. sim_ProcessOneEvent notify w t = Some (w', t') \<and> same_but_list s' t' \<and> notified t = notified s"
proof -
  note eq = same_but_list_simps [OF assms(1)]
  obtain q r where qr: "sm_events s = Some q" "sm_events t = Some r" using eq(16,17) by (auto simp: sim_ok_def)
  have ne: "sched_events q \<noteq> {#}" "sched_events r \<noteq> {#}" using assms(2) eq(10) qr by (simp_all add: pending_def)
  from sim_begin_event_ok [OF eq(16) qr(1) ne(1)] obtain ev q' where b: "sched_RemoveNext q = Some (ev, q')" "ev \<in># pending s"
    "\<forall>e \<in># pending s. rank ev \<le> rank e" "sim_ok (sim_begin_event ev q' s)" "pending s = add_mset ev (pending (sim_begin_event ev q' s))"
    "now_key (sim_begin_event ev q' s) = rank ev" "now_key s < rank ev" "sched_removes q' = sched_removes q" by blast
  from sim_begin_event_ok [OF eq(17) qr(2) ne(2)] obtain fv r' where f: "sched_RemoveNext r = Some (fv, r')" "fv \<in># pending t"
    "\<forall>e \<in># pending t. rank fv \<le> rank e" "sim_ok (sim_begin_event fv r' t)" "pending t = add_mset fv (pending (sim_begin_event fv r' t))"
    "sched_removes r' = sched_removes r" by blast
  have "uids_distinct (pending s)" using eq(16) by (simp add: sim_ok_def)
  moreover have "rank fv = rank ev" using b(2,3) f(2,3) eq(10) by (intro antisym) auto
  ultimately have fv: "fv = ev" using uids_distinct_rank_inj b(2) f(2) eq(10) by metis
  let ?s = "sim_begin_event ev q' s" and ?t = "sim_begin_event ev r' t"
  obtain x where t: "t = s\<lparr>sm_events := x\<rparr>" using assms(1) by (auto simp: same_but_list_def)
  have "?t = ?s\<lparr>sm_events := Some r'\<rparr>" by (rule simulator.equality) (simp_all add: t sim_begin_event_def)
  moreover have "pending ?t = pending ?s" using b(5) f(5) eq(10) fv by simp
  ultimately have st: "same_but_list ?s ?t" using b(4) f(4) fv by (intro same_but_listI) simp_all
  have le: "\<not> ts_of ev < sm_currentTs s" using b(7) by (auto simp: now_key_def rank_def less_prod_def)
  with assms(7) qr(1) b(1) obtain u where u: "impl_Invoke notify (ev_impl ev) w ?s = Some (w', u)" "sim_ProcessEventsWithContext u = Some s'"
    by (auto simp: sim_ProcessOneEvent_def split: option.splits if_splits prod.splits)
  have uid: "sm_uid u \<le> 2 ^ 32"
    using u(2) assms(8) by (auto simp: sim_ProcessEventsWithContext_def dest!: process_ewc_uid split: if_splits)
  have gs: "\<forall>i \<in> known w. genuine i ?s"
  proof
    fix i assume "i \<in> known w"
    then have "genuine i s" using assms(3) by simp
    then show "genuine i ?s" by (rule genuine_later) (use b(5-7) in \<open>auto simp: sim_begin_event_def\<close>)
  qed
  have rms: "both_remove rm ?s ?t" using assms(5) qr b(8) f(6) by (simp add: both_remove_def sim_begin_event_def)
  have "\<exists>v. impl_Invoke notify (ev_impl ev) w ?t = Some (w', v) \<and> same_but_list u v"
  proof (cases "impl_IsCancelled (ev_impl ev) ?s")
    case True
    with u(1) st same_but_list_simps(5) [OF st] show ?thesis by (auto simp: impl_Invoke_def impl_IsCancelled_def)
  next
    case False
    with u(1) have rp: "run_prog (notify (ev_impl ev) w) ?s = Some (w', u)" by (simp add: impl_Invoke_def)
    have "prog_safe rm known (notify (ev_impl ev) w) (known w)" using assms(4) by (simp add: client_safe_def)
    from same_but_list_prog [OF st gs this rms rp uid] False same_but_list_simps(5) [OF st] show ?thesis
      by (simp add: impl_Invoke_def impl_IsCancelled_def)
  qed
  then obtain v where v: "impl_Invoke notify (ev_impl ev) w ?t = Some (w', v)" "same_but_list u v" by blast
  have "rm \<longrightarrow> sched_removes (the (sm_events ?s))" using rms by (simp add: both_remove_def)
  from impl_Invoke_ok [OF b(4) gs assms(4) this u(1) uid] have "same_moment ?s u" by blast
  then have "\<forall>x \<in> set (sm_eventsWithContext u). unat (sm_currentTs u) + unat (ewc_timestamp x) < 2 ^ 63"
    using assms(6) b(2) by (simp add: ewc_fits_def same_moment_def sim_begin_event_def)
  from same_but_list_handoff [OF v(2) u(2) assms(8) this] obtain t' where
    "sim_ProcessEventsWithContext v = Some t'" "same_but_list s' t'" by blast
  moreover have "notified t = notified s" using qr b(1) f(1) fv eq(5) by (simp add: notified_eq impl_IsCancelled_def)
  ultimately show ?thesis using v(1) qr(2) f(1) fv le eq(1) by (simp add: sim_ProcessOneEvent_def)
qed

lemma same_but_list_run:
  assumes "process_events n notify w s = Some (ks, ps, w', s')" "same_but_list s t" "\<forall>i \<in> known w. genuine i s"
    "client_safe rm known notify" "both_remove rm s t" "sm_eventsWithContext s = []" "sm_uid s' \<le> 2 ^ 32"
  shows "\<exists>t'. process_events n notify w t = Some (ks, ps, w', t') \<and> same_but_list s' t'"
  using assms(1-3,5,6)
proof (induction n arbitrary: w s t ks ps)
  case (Suc n)
  note eq = same_but_list_simps [OF Suc.prems(2)]
  from Suc.prems(1) obtain w1 s1 ks1 ps1 where r: "sim_ProcessOneEvent notify w s = Some (w1, s1)" "process_events n notify w1 s1 = Some (ks1, ps1, w', s')"
    "ks = now_key s1 # ks1" "ps = notified s @ ps1" "sim_IsFinished s = Some False"
    by (auto split: option.splits if_splits prod.splits)
  have fin: "pending s \<noteq> {#}" "sim_IsFinished t = Some False"
    using r(5) sim_IsFinished_False [OF eq(16)] sim_IsFinished_False [OF eq(17)] eq(7,10) by simp_all
  have fit: "ewc_fits s" "ewc_fits t" using Suc.prems(5) eq(9) by (simp_all add: ewc_fits_def)
  have uid: "sm_uid s1 \<le> 2 ^ 32" using process_events_uid [OF r(2)] assms(7) by simp
  have rms: "rm \<longrightarrow> sched_removes (the (sm_events s))" "rm \<longrightarrow> sched_removes (the (sm_events t))"
    using Suc.prems(4) by (auto simp: both_remove_def)
  from same_but_list_ProcessOneEvent [OF Suc.prems(2) fin(1) Suc.prems(3) assms(4) Suc.prems(4) fit(1) r(1) uid]
  obtain t1 where t1: "sim_ProcessOneEvent notify w t = Some (w1, t1)" "same_but_list s1 t1" "notified t = notified s" by blast
  have uid': "sm_uid t1 \<le> 2 ^ 32" using uid same_but_list_simps(4) [OF t1(2)] by simp
  obtain ev where e: "\<forall>i \<in> known w1. genuine i s1" "rm \<longrightarrow> sched_removes (the (sm_events s1))" "sm_eventsWithContext s1 = []"
    by (rule sim_ProcessOneEvent_ok [OF eq(16) fin(1) Suc.prems(3) assms(4) rms(1) fit(1) r(1) uid]) blast
  have pt: "pending t \<noteq> {#}" "\<forall>i \<in> known w. genuine i t" using fin(1) Suc.prems(3) eq(10,13) by simp_all
  have "rm \<longrightarrow> sched_removes (the (sm_events t1))"
    by (rule sim_ProcessOneEvent_ok [OF eq(17) pt assms(4) rms(2) fit(2) t1(1) uid'])
  with e(2) have "both_remove rm s1 t1" by (simp add: both_remove_def)
  from Suc.IH [OF r(2) t1(2) e(1) this e(3)] t1 r(3,4) fin(2) same_but_list_simps(11) [OF t1(2)] show ?case by auto
qed auto

text \<open>C6: changing the event list moves every pending event, whatever the two implementations, and is not
  observable: a run before the change and the same run after it process the same events in the same
  order, call the same functions and end in the same state of client and simulator, except for how the
  pending events are stored. (Removal of single events must be supported by both lists, if the client
  uses it.)\<close>

theorem scheduler_not_observable:
  assumes "sim_ok s" "process_events n notify w s = Some (ks, ps, w', s')" "\<forall>i \<in> known w. genuine i s"
    "client_safe rm known notify" "rm \<longrightarrow> sched_removes (the (sm_events s)) \<and> sched_removes (sched_Create k)"
    "sm_eventsWithContext s = []" "sm_uid s' \<le> 2 ^ 32"
  shows "\<exists>t t'. sim_SetScheduler k s = Some (Some t) \<and> pending t = pending s
    \<and> process_events n notify w t = Some (ks, ps, w', t') \<and> t' = s'\<lparr>sm_events := sm_events t'\<rparr> \<and> pending t' = pending s'"
proof -
  from sim_SetScheduler_ok [OF assms(1), of k] obtain t where t: "sim_SetScheduler k s = Some (Some t)" "same_but_list s t"
    "sched_removes (the (sm_events t)) = sched_removes (sched_Create k)" by blast
  have "both_remove rm s t" using assms(5) t(3) by (simp add: both_remove_def)
  from same_but_list_run [OF assms(2) t(2) assms(3,4) this assms(6,7)] t show ?thesis
    by (auto simp: same_but_list_def)
qed

theorem scheduler_not_observable_witness:
  "\<exists>t. sim_SetScheduler (CalKind True) two_events = Some (Some t)
     \<and> map_option (\<lambda>(ks, ps, w, s). (ks, ps)) (process_events 3 relay None t) = Some ([(5, 5), (5, 6), (7, 4)], [1, 2, 0])"
proof -
  from two_events_run obtain w s where r: "process_events 3 relay None two_events = Some ([(5, 5), (5, 6), (7, 4)], [1, 2, 0], w, s)"
    "sm_uid s = 7" by (auto simp del: process_events.simps)
  from scheduler_not_observable [OF two_events_ok(1) r(1) _ relay_safe, of "CalKind True"] r(2) two_events_ok(2,3)
  obtain t t' where "sim_SetScheduler (CalKind True) two_events = Some (Some t)"
    "process_events 3 relay None t = Some ([(5, 5), (5, 6), (7, 4)], [1, 2, 0], w, t')" by auto
  then show ?thesis by (intro exI [of _ t]) (simp del: process_events.simps)
qed

section \<open>Runs end\<close>

text \<open>What is asked of the client here: delays are positive, and the \<open>Stop\<close> event, with the implementation
  \<open>stopper\<close>, is neither cancelled nor removed.\<close>

fun call_spares :: "nat \<Rightarrow> sim_call \<Rightarrow> bool" where
  "call_spares stopper (CallSchedule d i) = (0 < sint d)"
| "call_spares stopper (CallScheduleNow i) = False"
| "call_spares stopper (CallScheduleWithContext c d i) = (0 < sint d)"
| "call_spares stopper (CallRemove i) = (id_impl i \<noteq> Some stopper)"
| "call_spares stopper (CallCancel i) = (id_impl i \<noteq> Some stopper)"
| "call_spares stopper _ = True"

primrec prog_spares :: "nat \<Rightarrow> 'w prog \<Rightarrow> bool" where
  "prog_spares stopper (Done w) = True"
| "prog_spares stopper (Do c k) = (call_spares stopper c \<and> (\<forall>a. prog_spares stopper (k a)))"

text \<open>Some pending events are gone, and the new ones are later than the current time; the stop event stays
  as it is.\<close>

definition only_later :: "nat \<Rightarrow> simulator \<Rightarrow> simulator \<Rightarrow> bool" where
  "only_later stopper s s' \<longleftrightarrow> (\<exists>I N. pending s' = I + N \<and> I \<subseteq># pending s \<and> (\<forall>e \<in># N. sm_currentTs s < ts_of e))
     \<and> sm_currentTs s' = sm_currentTs s \<and> (\<forall>e \<in># pending s. ev_impl e = stopper \<longrightarrow> e \<in># pending s')
     \<and> (sm_cancelled s' stopper = sm_cancelled s stopper) \<and> (sm_stop s \<longrightarrow> sm_stop s')"

lemma only_later_refl: "only_later p s s"
  unfolding only_later_def by (intro conjI exI [of _ "pending s"] exI [of _ "{#}"]) auto

lemma only_later_trans:
  assumes "only_later p s t" "only_later p t u"
  shows "only_later p s u"
proof -
  obtain I N where a: "pending t = I + N" "I \<subseteq># pending s" "\<forall>e \<in># N. sm_currentTs s < ts_of e"
    using assms(1) by (auto simp: only_later_def)
  obtain I' N' where b: "pending u = I' + N'" "I' \<subseteq># pending t" "\<forall>e \<in># N'. sm_currentTs t < ts_of e"
    using assms(2) by (auto simp: only_later_def)
  have "pending u = (I' \<inter># I) + ((I' - I) + N')"
    using b(1) by (metis add.assoc union_commute multiset_inter_commute subset_mset.inf_commute diff_intersect_left_idem
        subset_mset.diff_add subset_mset.inf_le1)
  moreover have "I' \<inter># I \<subseteq># pending s" using a(2) by (meson subset_mset.inf_le2 subset_mset.order_trans)
  moreover have "\<forall>e \<in># (I' - I) + N'. sm_currentTs s < ts_of e"
  proof
    fix e assume "e \<in># (I' - I) + N'"
    then consider "e \<in># I' - I" | "e \<in># N'" by auto
    then show "sm_currentTs s < ts_of e"
    proof cases
      case 1
      have "I' - I \<subseteq># N" using b(2) a(1) by (simp add: subset_eq_diff_conv add.commute)
      with 1 a(3) show ?thesis by (meson mset_subset_eqD)
    next
      case 2
      with b(3) assms(1) show ?thesis by (simp add: only_later_def)
    qed
  qed
  ultimately show ?thesis using assms unfolding only_later_def by metis
qed

lemma sim_insert_later:
  assumes "sim_ok s" "0 < sint d" "time_plus d (sm_currentTs s) = Some ts" "sim_insert (sim_new_event i ts ctx s) s = Some s'"
    "sm_uid s' \<le> 2 ^ 32"
  shows "only_later p s s'"
proof -
  have uid: "sm_uid s < 2 ^ 32" using sim_insert_uid [OF assms(4)] assms(5) by simp
  have now: "unat (sm_currentTs s) < 2 ^ 63" using assms(1) by (simp add: sim_ok_def)
  have d: "0 \<le> sint d" "0 < unat d" using assms(2) by (auto simp: unat_gt_0)
  have ts: "unat d + unat (sm_currentTs s) < 2 ^ 63" "ts = d + sm_currentTs s"
    using assms(3) unfolding time_plus_nonneg [OF d(1) now] by (simp_all split: if_splits)
  have "unat ts = unat d + unat (sm_currentTs s)"
    unfolding ts(2) using ts(1) by (intro unat_add_lem [THEN iffD1]) simp
  with d(2) have "sm_currentTs s < ts" by (simp add: word_less_nat_alt)
  moreover from schedule_ok [OF assms(1) d(1) assms(3) uid, of i ctx] assms(4)
  have "pending s' = pending s + {#sim_new_event i ts ctx s#}" "same_moment s s'" "sm_stop s' = sm_stop s" "sm_cancelled s' = sm_cancelled s" by auto
  ultimately show ?thesis
    unfolding only_later_def same_moment_def
    by (intro conjI exI [of _ "pending s"] exI [of _ "{#sim_new_event i ts ctx s#}"]) (auto simp: sim_new_event_def)
qed

lemma do_call_later:
  assumes "sim_ok s" "\<forall>i \<in> K. genuine i s" "call_safe rm K c" "rm \<longrightarrow> sched_removes (the (sm_events s))"
    "do_call c s = Some (a, s')" "sm_uid s' \<le> 2 ^ 32" "call_spares p c"
  shows "only_later p s s'"
proof -
  have frame: ?thesis if "sm_events s' = sm_events s" "sm_currentTs s' = sm_currentTs s" "sm_cancelled s' p = sm_cancelled s p" "sm_stop s \<longrightarrow> sm_stop s'"
    using that unfolding only_later_def by (intro conjI exI [of _ "pending s"] exI [of _ "{#}"]) (auto simp: pending_def)
  show ?thesis
  proof (cases c)
    case (CallSchedule d i)
    with assms(5,7) obtain ts where "0 < sint d" "time_plus d (sm_currentTs s) = Some ts"
      "sim_insert (sim_new_event i ts (sim_GetContext s) s) s = Some s'"
      by (auto simp: sim_Schedule_def Let_def split: option.splits if_splits)
    then show ?thesis using assms(6) by (rule sim_insert_later [OF assms(1)])
  next
    case (CallScheduleWithContext x d i)
    with assms(5,7) obtain ts where "0 < sint d" "time_plus d (sm_currentTs s) = Some ts"
      "sim_insert (sim_new_event i ts x s) s = Some s'"
      by (auto simp: sim_ScheduleWithContext_def split: option.splits)
    then show ?thesis using assms(6) by (rule sim_insert_later [OF assms(1)])
  next
    case (CallRemove i)
    obtain q where q: "sm_events s = Some q" using assms(1) by (auto simp: sim_ok_def)
    have g: "genuine i s" "sched_removes q" using CallRemove assms(2-4) q by auto
    from CallRemove assms(5) have r: "sim_Remove i s = Some s'" by auto
    from sim_Remove_ok [OF assms(1) g(1) q g(2)] r have m: "same_moment s s'" "sm_stop s' = sm_stop s"
      "pending s' = pending s - (if id_uid i = UID_DESTROY \<or> sim_IsExpired i s then {#} else {#event_of_id i (the (id_impl i))#})" by auto
    have ne: "ev_impl (event_of_id i (the (id_impl i))) \<noteq> p" if "\<not> (id_uid i = UID_DESTROY \<or> sim_IsExpired i s)"
      using that CallRemove assms(7) by (auto simp: event_of_id_def sim_IsExpired_def split: option.splits)
    have "sm_cancelled s' p = sm_cancelled s p"
      using r CallRemove assms(7) by (auto simp: sim_Remove_def impl_Cancel_def split: option.splits if_splits)
    moreover have "e \<in># pending s'" if "e \<in># pending s" "ev_impl e = p" for e
      using that ne unfolding m(3) by (auto simp: in_diff_count)
    moreover have "pending s' \<subseteq># pending s" unfolding m(3) by simp
    ultimately show ?thesis
      unfolding only_later_def using m(1,2) by (intro conjI exI [of _ "pending s'"] exI [of _ "{#}"]) (auto simp: same_moment_def)
  next
    case (CallScheduleDestroy i)
    with assms(5) show ?thesis by (intro frame) (auto simp: sim_ScheduleDestroy_def Let_def)
  next
    case (CallCancel i)
    with assms(5,7) show ?thesis by (intro frame) (auto simp: sim_Cancel_def impl_Cancel_def split: option.splits if_splits)
  next
    case CallStop
    with assms(5) show ?thesis by (intro frame) (auto simp: sim_Stop_def)
  qed (use assms(5,7) only_later_refl in auto)
qed

lemma run_prog_later:
  assumes "sim_ok s" "\<forall>i \<in> K. genuine i s" "prog_safe rm known x K" "rm \<longrightarrow> sched_removes (the (sm_events s))"
    "run_prog x s = Some (w, s')" "sm_uid s' \<le> 2 ^ 32" "prog_spares p x"
  shows "only_later p s s'"
  using assms(1-5,7)
proof (induction x arbitrary: s K)
  case (Done v)
  then show ?case by (simp add: only_later_refl)
next
  case (Do c k)
  from Do.prems(5) obtain a s1 where c: "do_call c s = Some (a, s1)" "run_prog (k a) s1 = Some (w, s')"
    by (auto split: option.splits)
  have uid: "sm_uid s1 \<le> 2 ^ 32" using run_prog_uid [OF c(2)] assms(6) by simp
  have safe: "call_safe rm K c" "prog_safe rm known (k a) (K \<union> answer_ids a)" "call_spares p c" "prog_spares p (k a)"
    using Do.prems(3,6) by auto
  note s1 = do_call_ok [OF Do.prems(1,2) safe(1) Do.prems(4) c(1) uid]
  then have "rm \<longrightarrow> sched_removes (the (sm_events s1))"
    using Do.prems(1,4) same_moment_removes [of s s1] by simp
  with Do.IH [OF _ _ _ safe(2) _ c(2) safe(4)] s1 have "only_later p s1 s'" by auto
  with do_call_later [OF Do.prems(1,2) safe(1) Do.prems(4) c(1) uid safe(3)] show ?case by (rule only_later_trans)
qed

definition remaining :: "nat \<Rightarrow> simulator \<Rightarrow> nat multiset" where
  "remaining T s = image_mset (\<lambda>e. T - unat (ts_of e)) (filter_mset (\<lambda>e. unat (ts_of e) \<le> T) (pending s))"

lemma remaining_decreases:
  assumes "pending s = add_mset ev P" "I \<subseteq># P" "pending s' = I + N" "\<forall>e \<in># N. ts_of ev < ts_of e" "unat (ts_of ev) \<le> T"
  shows "(remaining T s', remaining T s) \<in> mult less_than"
proof -
  let ?f = "\<lambda>M. image_mset (\<lambda>e. T - unat (ts_of e)) (filter_mset (\<lambda>e. unat (ts_of e) \<le> T) M)"
  obtain R where R: "P = I + R" using assms(2) by (metis subset_mset.le_iff_add)
  have "remaining T s = ?f I + (add_mset (T - unat (ts_of ev)) (?f R))"
    using assms(1,5) R by (simp add: remaining_def)
  moreover have "remaining T s' = ?f I + ?f N" using assms(3) by (simp add: remaining_def)
  moreover have "\<forall>k \<in># ?f N. \<exists>j \<in># add_mset (T - unat (ts_of ev)) (?f R). (k, j) \<in> less_than"
    using assms(4) by (auto simp: word_less_nat_alt intro: diff_less_mono2 less_le_trans)
  ultimately show ?thesis by (simp add: one_step_implies_mult del: union_mset_add_mset_right)
qed

text \<open>The client calls \<open>Stop\<close> in the event \<open>stopper\<close> and spares it elsewhere.\<close>

definition client_stops :: "nat \<Rightarrow> (nat \<Rightarrow> 'w \<Rightarrow> 'w prog) \<Rightarrow> bool" where
  "client_stops stopper notify \<longleftrightarrow> (\<forall>i w. prog_spares stopper (notify i w))
     \<and> (\<forall>w. \<exists>w'. notify stopper w = Do CallStop (\<lambda>_. Done w'))"

definition stop_due :: "nat \<Rightarrow> nat \<Rightarrow> simulator \<Rightarrow> bool" where
  "stop_due stopper T s \<longleftrightarrow> sm_stop s \<or>
     (\<exists>e \<in># pending s. ev_impl e = stopper \<and> unat (ts_of e) \<le> T \<and> \<not> sm_cancelled s stopper)"

lemma sim_ProcessOneEvent_progress:
  assumes "sim_ok s" "\<forall>i \<in> known w. genuine i s" "client_safe rm known notify" "rm \<longrightarrow> sched_removes (the (sm_events s))"
    "sm_eventsWithContext s = []" "sim_ProcessOneEvent notify w s = Some (w', s')" "sm_uid s' \<le> 2 ^ 32"
    "client_stops p notify" "stop_due p T s" "\<not> sm_stop s"
  shows "(remaining T s', remaining T s) \<in> mult less_than" "stop_due p T s'" "unat (sm_currentTs s') \<le> T"
proof -
  obtain q where q: "sm_events s = Some q" using assms(1) by (auto simp: sim_ok_def)
  obtain st where st: "st \<in># pending s" "ev_impl st = p" "unat (ts_of st) \<le> T" "\<not> sm_cancelled s p"
    using assms(9,10) by (auto simp: stop_due_def)
  then have ne: "sched_events q \<noteq> {#}" using q by (auto simp: pending_def)
  from sim_begin_event_ok [OF assms(1) q ne] obtain ev q' where b: "sched_RemoveNext q = Some (ev, q')" "ev \<in># pending s"
    "\<forall>e \<in># pending s. rank ev \<le> rank e" "sim_ok (sim_begin_event ev q' s)" "pending s = add_mset ev (pending (sim_begin_event ev q' s))"
    "now_key (sim_begin_event ev q' s) = rank ev" "now_key s < rank ev" "sched_removes q' = sched_removes q" by blast
  define t where "t = sim_begin_event ev q' s"
  have t: "sm_cancelled t = sm_cancelled s" "sm_eventsWithContextEmpty t" "sm_currentTs t = ts_of ev" "sm_stop t = sm_stop s"
    "sm_eventsWithContext t = []" "sched_removes (the (sm_events t)) = sched_removes q"
    using assms(1,5) b(8) by (simp_all add: t_def sim_begin_event_def sim_ok_def)
  note bt = b [folded t_def]
  have "\<not> ts_of ev < sm_currentTs s" using b(7) by (auto simp: now_key_def rank_def less_prod_def)
  with assms(6) q b(1) obtain u where u: "impl_Invoke notify (ev_impl ev) w t = Some (w', u)" "sim_ProcessEventsWithContext u = Some s'"
    by (auto simp: sim_ProcessOneEvent_def t_def split: option.splits if_splits prod.splits)
  have uid: "sm_uid u \<le> 2 ^ 32"
    using u(2) assms(7) by (auto simp: sim_ProcessEventsWithContext_def dest!: process_ewc_uid split: if_splits)
  have gt: "\<forall>i \<in> known w. genuine i t"
  proof
    fix i assume "i \<in> known w"
    then have "genuine i s" using assms(2) by simp
    then show "genuine i t" by (rule genuine_later) (use bt(5-7) t(1) in auto)
  qed
  have rt: "rm \<longrightarrow> sched_removes (the (sm_events t))" using assms(4) q t(6) by simp
  from impl_Invoke_ok [OF bt(4) gt assms(3) rt u(1) uid] have m: "same_moment t u" by blast
  then have s': "s' = u" using u(2) t(2) by (simp add: sim_ProcessEventsWithContext_def same_moment_def)
  have later: "only_later p t u"
  proof (cases "impl_IsCancelled (ev_impl ev) t")
    case True
    with u(1) show ?thesis by (simp add: impl_Invoke_def only_later_refl)
  next
    case False
    with u(1) have "run_prog (notify (ev_impl ev) w) t = Some (w', u)" by (simp add: impl_Invoke_def)
    moreover have "prog_safe rm known (notify (ev_impl ev) w) (known w)" "prog_spares p (notify (ev_impl ev) w)"
      using assms(3,8) by (simp_all add: client_safe_def client_stops_def)
    ultimately show ?thesis by (intro run_prog_later [OF bt(4) gt _ rt _ uid])
  qed
  have evT: "unat (ts_of ev) \<le> T"
    using rank_le_ts [of ev st] b(3) st(1,3) by (auto simp: word_le_nat_alt intro: order_trans)
  from later obtain I N where IN: "pending u = I + N" "I \<subseteq># pending t" "\<forall>e \<in># N. sm_currentTs t < ts_of e"
    by (auto simp: only_later_def)
  from remaining_decreases [OF bt(5) IN(2) IN(1) _ evT] IN(3) t(3)
  show "(remaining T s', remaining T s) \<in> mult less_than" by (simp add: s')
  show "unat (sm_currentTs s') \<le> T" using m evT t(3) by (simp add: s' same_moment_def)
  show "stop_due p T s'"
  proof (cases "ev_impl ev = p")
    case True
    obtain w1 where "notify p w = Do CallStop (\<lambda>_. Done w1)" using assms(8) unfolding client_stops_def by blast
    with True u(1) st(4) t(1) have "u = sim_Stop t" by (simp add: impl_Invoke_def impl_IsCancelled_def)
    then show ?thesis by (simp add: s' stop_due_def sim_Stop_def)
  next
    case False
    with st(1,2) bt(5) have "st \<in># pending t" by auto
    with later st t(1) show ?thesis by (auto simp: s' only_later_def stop_due_def)
  qed
qed

text \<open>No prefix of the run gives out more ids than there are.\<close>

definition ids_suffice :: "(nat \<Rightarrow> 'w \<Rightarrow> 'w prog) \<Rightarrow> 'w \<Rightarrow> simulator \<Rightarrow> bool" where
  "ids_suffice notify w s \<longleftrightarrow> (\<forall>n ks ps w' s'. process_events n notify w s = Some (ks, ps, w', s') \<longrightarrow> sm_uid s' \<le> 2 ^ 32)"

lemma ids_suffice_step:
  assumes "ids_suffice notify w s" "sim_IsFinished s = Some False" "sim_ProcessOneEvent notify w s = Some (w1, s1)"
  shows "sm_uid s1 \<le> 2 ^ 32" "ids_suffice notify w1 s1"
proof -
  have "process_events (Suc n) notify w s = Some (now_key s1 # ks, notified s @ ps, w', s')"
    if "process_events n notify w1 s1 = Some (ks, ps, w', s')" for n ks ps w' s'
    using assms(2,3) that by simp
  with assms(1) show "ids_suffice notify w1 s1" unfolding ids_suffice_def by blast
  then show "sm_uid s1 \<le> 2 ^ 32" unfolding ids_suffice_def
    by (metis process_events.simps(1))
qed

lemma sim_Run_loop_returns:
  assumes "sim_ok s" "\<forall>i \<in> known w. genuine i s" "client_safe rm known notify" "rm \<longrightarrow> sched_removes (the (sm_events s))"
    "sm_eventsWithContext s = []" "client_stops p notify" "stop_due p T s" "unat (sm_currentTs s) \<le> T" "ids_suffice notify w s"
  shows "\<exists>r. sim_Run_loop notify w s = Some r \<and> (\<forall>w' s'. r = Some (w', s') \<longrightarrow> sm_stop s' \<and> unat (sm_currentTs s') \<le> T \<and> sim_ok s')"
  using assms(1,2,4,5,7-9)
proof (induction "remaining T s" arbitrary: w s rule: wf_induct_rule [OF wf_mult [OF wf_less_than]])
  case 1
  show ?case
  proof (cases "sm_stop s")
    case True
    obtain q where "sm_events s = Some q" using 1(2) by (auto simp: sim_ok_def)
    then have "sim_IsFinished s = Some True" using True by (simp add: sim_IsFinished_def)
    with True 1(2,7) show ?thesis by (subst sim_Run_loop.simps) simp
  next
    case False
    then have "pending s \<noteq> {#}" using 1(6) by (auto simp: stop_due_def)
    with False have fin: "sim_IsFinished s = Some False" using sim_IsFinished_False [OF 1(2)] by simp
    show ?thesis
    proof (cases "sim_ProcessOneEvent notify w s")
      case None
      with fin show ?thesis by (subst sim_Run_loop.simps) simp
    next
      case (Some x)
      obtain w1 s1 where x: "x = (w1, s1)" by (cases x)
      note step = Some [unfolded x]
      note ids = ids_suffice_step [OF 1(8) fin step]
      note pr = sim_ProcessOneEvent_progress [OF 1(2,3) assms(3) 1(4,5) step ids(1) assms(6) 1(6) False]
      have fit: "ewc_fits s" using 1(5) by (simp add: ewc_fits_def)
      obtain ev where e: "sim_ok s1" "\<forall>i \<in> known w1. genuine i s1" "rm \<longrightarrow> sched_removes (the (sm_events s1))" "sm_eventsWithContext s1 = []"
        by (rule sim_ProcessOneEvent_ok [OF 1(2) \<open>pending s \<noteq> {#}\<close> 1(3) assms(3) 1(4) fit step ids(1)]) blast
      from 1(1) [OF pr(1) e pr(2,3) ids(2)] fin step show ?thesis
        by (subst sim_Run_loop.simps) simp
    qed
  qed
qed

text \<open>C12: \<open>Run\<close> ends, whatever event list is used and whatever the client schedules as long as its delays
  are positive, if an event that calls \<open>Stop\<close> is pending for a time \<open>T\<close> and the client does not take it away:
  either an assertion fails, or \<open>Run\<close> returns with the simulation stopped at a time no later than \<open>T\<close>.\<close>

theorem sim_Run_terminates:
  assumes "sim_ok s" "\<forall>i \<in> known w. genuine i s" "client_safe rm known notify" "rm \<longrightarrow> sched_removes (the (sm_events s))"
    "sm_eventsWithContext s = []" "client_stops p notify" "stop_due p T (s\<lparr>sm_stop := False\<rparr>)"
    "unat (sm_currentTs s) \<le> T" "ids_suffice notify w (s\<lparr>sm_stop := False\<rparr>)"
  shows "\<exists>r. sim_Run notify w s = Some r
    \<and> (\<forall>w' s'. r = Some (w', s') \<longrightarrow> sm_stop s' \<and> unat (sm_currentTs s') \<le> T \<and> sim_ok s')"
proof -
  define t where "t = s\<lparr>sm_stop := False\<rparr>"
  have "sim_IsExpired i t = sim_IsExpired i s" for i
    by (simp add: t_def sim_IsExpired_def impl_IsCancelled_def cong: option.case_cong)
  then have g: "\<forall>i \<in> known w. genuine i t" using assms(2) by (simp add: genuine_def) (simp add: t_def pending_def)
  have t: "sim_ok t" "rm \<longrightarrow> sched_removes (the (sm_events t))" "sm_eventsWithContext t = []" "unat (sm_currentTs t) \<le> T"
    using assms(1,4,5,8) sim_ok_frame [of s t] by (simp_all add: t_def)
  have "sim_ProcessEventsWithContext s = Some s"
    using assms(1,5) by (simp add: sim_ProcessEventsWithContext_def sim_ok_def)
  with sim_Run_loop_returns [OF t(1) g assms(3) t(2,3) assms(6) assms(7) [folded t_def] t(4) assms(9) [folded t_def]]
  show ?thesis by (auto simp: sim_Run_def t_def split: option.splits)
qed

lemma process_events_split:
  "process_events (n + m) notify w s = Some (ks, ps, w', s') \<Longrightarrow>
     \<exists>ks1 ps1 w1 s1 ks2 ps2. process_events n notify w s = Some (ks1, ps1, w1, s1) \<and> process_events m notify w1 s1 = Some (ks2, ps2, w', s')"
proof (induction n arbitrary: w s ks ps)
  case (Suc n)
  then obtain w1 s1 ks1 ps1 where r: "sim_ProcessOneEvent notify w s = Some (w1, s1)" "process_events (n + m) notify w1 s1 = Some (ks1, ps1, w', s')"
    "sim_IsFinished s = Some False" by (auto split: option.splits if_splits prod.splits)
  from Suc.IH [OF r(2)] r(1,3) show ?case by fastforce
qed simp

lemma ids_sufficeI:
  assumes "process_events n notify w s = Some (ks, ps, w', s')" "sm_uid s' \<le> 2 ^ 32" "sim_IsFinished s' = Some True"
  shows "ids_suffice notify w s"
  unfolding ids_suffice_def
proof (intro allI impI)
  fix n' ks' ps' w'' s''
  assume r: "process_events n' notify w s = Some (ks', ps', w'', s'')"
  show "sm_uid s'' \<le> 2 ^ 32"
  proof (cases "n' \<le> n")
    case True
    with process_events_split [of n' "n - n'" notify w s] assms(1) r
    obtain ks2 ps2 where "process_events (n - n') notify w'' s'' = Some (ks2, ps2, w', s')" by auto
    from process_events_uid [OF this] assms(2) show ?thesis by simp
  next
    case False
    then obtain m where "n' = n + Suc m" by (metis add_Suc_right less_imp_Suc_add not_le)
    with process_events_split [of n "Suc m" notify w s] assms(1,3) r show ?thesis by auto
  qed
qed

fun ticker :: "nat \<Rightarrow> nat \<Rightarrow> nat prog" where
  \<comment> \<open>event 0 stops the run, the others schedule event 1 for one time step later\<close>
  "ticker p n = (if p = 0 then Do CallStop (\<lambda>_. Done n) else Do (CallSchedule 1 1) (\<lambda>_. Done (Suc n)))"

lemma ticker_run:
  "map_option (\<lambda>(ks, ps, n, s). (ks, ps, n, sm_uid s, sim_IsFinished s)) (process_events 3 ticker 0 two_events)
     = Some ([(5, 5), (6, 6), (7, 4)], [1, 1, 0], 2, 8, Some True)"
  by code_simp

theorem sim_Run_terminates_witness:
  "\<exists>r. sim_Run ticker 0 two_events = Some r \<and> (\<forall>w' s'. r = Some (w', s') \<longrightarrow> sm_stop s' \<and> unat (sm_currentTs s') \<le> 7)"
proof -
  have "\<not> sm_stop two_events" by code_simp
  then have same: "two_events\<lparr>sm_stop := False\<rparr> = two_events" by simp
  obtain ks ps n s where r: "process_events 3 ticker 0 two_events = Some (ks, ps, n, s)" "sm_uid s = 8" "sim_IsFinished s = Some True"
    using ticker_run by (auto simp del: process_events.simps)
  have "ids_suffice ticker 0 (two_events\<lparr>sm_stop := False\<rparr>)" using ids_sufficeI [OF r(1)] r(2,3) same by simp
  moreover have "stop_due 0 7 (two_events\<lparr>sm_stop := False\<rparr>)"
  proof -
    have "list_ex (\<lambda>e. ev_impl e = 0 \<and> unat (ts_of e) \<le> 7) (case sm_events two_events of Some (MapSched m) \<Rightarrow> map_events m | _ \<Rightarrow> [])"
      "\<not> sm_cancelled two_events 0" by code_simp+
    then show ?thesis
      by (fastforce simp: same stop_due_def pending_def list_ex_iff split: option.splits scheduler.splits)
  qed
  moreover have "client_safe False (\<lambda>_. {}) ticker" "client_stops 0 ticker" by (auto simp: client_safe_def client_stops_def)
  moreover have "unat (sm_currentTs two_events) \<le> 7" by code_simp
  ultimately show ?thesis
    using sim_Run_terminates [of two_events "\<lambda>_. {}" 0 False ticker 0 7] two_events_ok by blast
qed

end
