(* ===== verification/StdString.thy ===== *)
theory StdString
  imports V2xPrelude
begin

text \<open>
  The operations of \<open>std::string\<close>, of string streams and of the C library's number parsers that
  the code calls, on lists of characters (bytes). \<open>std::string::npos\<close> is \<open>None\<close>.
  \<open>strtod\<close> is modelled for decimal numbers; its \<open>inf\<close>, \<open>nan\<close> and hexadecimal forms are the
  explicit error \<open>Fatal\<close> of \<open>stod\<close>, so that no fact about them is claimed.
\<close>

section \<open>Searching and splitting\<close>

fun str_find :: "string \<Rightarrow> string \<Rightarrow> nat option" where
  "str_find needle [] = (if needle = [] then Some 0 else None)"
| "str_find needle (c # s) =
     (if take (length needle) (c # s) = needle then Some 0
      else map_option Suc (str_find needle s))"

definition str_find_from :: "string \<Rightarrow> string \<Rightarrow> nat \<Rightarrow> nat option" where
  "str_find_from needle s pos =
     (if length s < pos then None
      else map_option (\<lambda>i. i + pos) (str_find needle (drop pos s)))"

definition str_rfind :: "string \<Rightarrow> string \<Rightarrow> nat option" where
  "str_rfind needle s =
     (case filter (\<lambda>i. take (length needle) (drop i s) = needle)
             [0..<Suc (length s) - length needle] of
        [] \<Rightarrow> None
      | is \<Rightarrow> Some (last is))"

record istream =
  is_rest :: string
  is_good :: bool

definition istream_of :: "string \<Rightarrow> istream" where
  "istream_of s = \<lparr>is_rest = s, is_good = True\<rparr>"

text \<open>
  \<open>std::getline(ss, token, d)\<close>: on a stream that is not good the call fails and leaves the token
  as it was; otherwise the token is what stands before the delimiter or the end of the input, and
  the call fails only when nothing at all could be read.
\<close>

definition getline :: "char \<Rightarrow> istream \<Rightarrow> string \<Rightarrow> bool \<times> string \<times> istream" where
  "getline d ss token =
     (if \<not> is_good ss then (False, token, ss)
      else let t = takeWhile (\<lambda>c. c \<noteq> d) (is_rest ss) in
        (case dropWhile (\<lambda>c. c \<noteq> d) (is_rest ss) of
           [] \<Rightarrow> (t \<noteq> [], t, \<lparr>is_rest = [], is_good = False\<rparr>)
         | _ # r \<Rightarrow> (True, t, \<lparr>is_rest = r, is_good = True\<rparr>)))"

text \<open>\<open>while (std::getline(ss, token, d)) out.push_back(token)\<close>: the tokens of the input.\<close>

lemma getline_shorter:
  assumes "getline d (istream_of s) u = (True, t, ss)" "is_good ss"
  shows "length (is_rest ss) < length s"
proof -
  have "length (is_rest ss) < length (dropWhile (\<lambda>c. c \<noteq> d) s)"
    using assms by (auto simp: getline_def istream_of_def Let_def split: list.splits if_splits)
  then show ?thesis
    using length_dropWhile_le [of "\<lambda>c. c \<noteq> d" s] by simp
qed

function split_tokens :: "char \<Rightarrow> string \<Rightarrow> string list" where
  "split_tokens d s =
     (case getline d (istream_of s) [] of
        (False, _, _) \<Rightarrow> []
      | (True, t, ss) \<Rightarrow> if is_good ss then t # split_tokens d (is_rest ss) else [t])"
  by pat_completeness auto
termination
  by (relation "measure (\<lambda>(d, s). length s)")
    (auto dest!: getline_shorter [OF sym])

declare split_tokens.simps [simp del]

lemma split_tokens_Nil [simp]: "split_tokens d [] = []"
  by (subst split_tokens.simps) (simp add: getline_def istream_of_def)

lemma split_tokens_last:
  assumes "d \<notin> set t" "t \<noteq> []"
  shows "split_tokens d t = [t]"
proof -
  have t: "takeWhile (\<lambda>c. c \<noteq> d) t = t" "dropWhile (\<lambda>c. c \<noteq> d) t = []"
    using assms(1) by (auto simp: takeWhile_eq_all_conv dropWhile_eq_Nil_conv)
  show ?thesis
    by (subst split_tokens.simps) (simp add: getline_def istream_of_def t assms(2))
qed

lemma split_tokens_cons:
  assumes "d \<notin> set t"
  shows "split_tokens d (t @ d # s) = t # split_tokens d s"
proof -
  have "takeWhile (\<lambda>c. c \<noteq> d) (t @ d # s) = t" "dropWhile (\<lambda>c. c \<noteq> d) (t @ d # s) = d # s"
    using assms by (induction t) auto
  then show ?thesis
    by (subst split_tokens.simps) (simp add: getline_def istream_of_def Let_def)
qed

lemma str_find_bound: "str_find needle s = Some i \<Longrightarrow> i + length needle \<le> length s"
proof (induction needle s arbitrary: i rule: str_find.induct)
  case (2 needle c s)
  show ?case
  proof (cases "take (length needle) (c # s) = needle")
    case True
    then have "length needle \<le> length (c # s)"
      by (metis length_take min.cobounded1)
    with True 2 show ?thesis by simp
  next
    case False
    with 2 show ?thesis by (auto simp: not_less)
  qed
qed (auto split: if_splits)

lemma str_find_match:
  "str_find needle s = Some i \<Longrightarrow> take (length needle) (drop i s) = needle"
  by (induction needle s arbitrary: i rule: str_find.induct) (auto split: if_splits)

lemma str_find_prefix: "str_find needle (needle @ s) = Some 0"
proof (cases "needle @ s")
  case (Cons c t)
  moreover have "take (length needle) (needle @ s) = needle" by simp
  ultimately show ?thesis by (metis str_find.simps(2))
qed simp

lemma str_find_char: "d \<notin> set t \<Longrightarrow> str_find [d] (t @ d # s) = Some (length t)"
  by (induction t) auto

lemma str_find_char_None: "d \<notin> set t \<Longrightarrow> str_find [d] t = None"
  by (induction t) auto

section \<open>Characters and decimal numbers\<close>

definition is_digit :: "char \<Rightarrow> bool" where
  "is_digit c \<longleftrightarrow> 48 \<le> (of_char c :: nat) \<and> (of_char c :: nat) \<le> 57"

definition is_space :: "char \<Rightarrow> bool" where
  "is_space c \<longleftrightarrow> (of_char c :: nat) = 32 \<or> 9 \<le> (of_char c :: nat) \<and> (of_char c :: nat) \<le> 13"

definition digit_val :: "char \<Rightarrow> nat" where
  "digit_val c = of_char c - 48"

definition digit_char :: "nat \<Rightarrow> char" where
  "digit_char n = char_of (n + 48)"

definition digits_val :: "string \<Rightarrow> nat" where
  "digits_val ds = foldl (\<lambda>n c. n * 10 + digit_val c) 0 ds"

fun show_nat :: "nat \<Rightarrow> string" where
  "show_nat n = (if n < 10 then [digit_char n] else show_nat (n div 10) @ [digit_char (n mod 10)])"

declare show_nat.simps [simp del]

lemma digit_char_props:
  assumes "n < 10"
  shows "is_digit (digit_char n)" "digit_val (digit_char n) = n" "\<not> is_space (digit_char n)"
    "digit_char n \<noteq> CHR ''-''" "digit_char n \<noteq> CHR ''+''" "digit_char n \<noteq> CHR ''/''"
  using assms
  by (auto simp: is_digit_def digit_val_def digit_char_def is_space_def
      simp del: of_char_of dest!: arg_cong [where f = "of_char :: char \<Rightarrow> nat"])
     (auto simp: of_char_of)

lemma show_nat_ne [simp]: "show_nat n \<noteq> []"
  by (subst show_nat.simps) simp

lemma show_nat_digits: "\<forall>c \<in> set (show_nat n). \<exists>d < 10. c = digit_char d"
proof (induction n rule: show_nat.induct)
  case (1 n)
  show ?case
  proof (cases "n < 10")
    case True
    then show ?thesis by (auto simp: show_nat.simps [of n])
  next
    case False
    with 1 show ?thesis
      by (subst show_nat.simps) (auto intro!: exI [of _ "n mod 10"])
  qed
qed

lemma digits_val_append: "digits_val (xs @ [c]) = digits_val xs * 10 + digit_val c"
  by (simp add: digits_val_def)

lemma digits_val_show_nat [simp]: "digits_val (show_nat n) = n"
proof (induction n rule: show_nat.induct)
  case (1 n)
  show ?case
  proof (cases "n < 10")
    case True
    then show ?thesis
      by (subst show_nat.simps) (simp add: digits_val_def digit_char_props)
  next
    case False
    with 1 show ?thesis
      by (subst show_nat.simps) (simp add: digits_val_append digit_char_props)
  qed
qed

text \<open>
  \<open>strtoul(text, &end, 10)\<close>: white space, a sign, digits. The result is the value, what follows
  the number (the whole text when there is no number) and the \<open>ERANGE\<close> flag; a value above
  \<open>ULONG_MAX\<close> saturates, a minus sign negates in \<open>unsigned long\<close>.
\<close>

record strtoul_result =
  ul_value :: u64
  ul_end :: string
  ul_converted :: bool
  ul_erange :: bool

definition strtoul10 :: "string \<Rightarrow> strtoul_result" where
  "strtoul10 text =
     (let s = dropWhile is_space text;
          neg = (s \<noteq> [] \<and> hd s = CHR ''-'');
          t = (if s \<noteq> [] \<and> (hd s = CHR ''-'' \<or> hd s = CHR ''+'') then tl s else s);
          ds = takeWhile is_digit t;
          n = digits_val ds
      in if ds = [] then \<lparr>ul_value = 0, ul_end = text, ul_converted = False, ul_erange = False\<rparr>
         else if 2 ^ 64 \<le> n
         then \<lparr>ul_value = - 1, ul_end = dropWhile is_digit t, ul_converted = True, ul_erange = True\<rparr>
         else \<lparr>ul_value = (if neg then - of_nat n else of_nat n),
               ul_end = dropWhile is_digit t, ul_converted = True, ul_erange = False\<rparr>)"

definition stoul :: "string \<Rightarrow> u64 result" where
  "stoul text =
     (let r = strtoul10 text in
        if \<not> ul_converted r then Inl InvalidArgument
        else if ul_erange r then Inl OutOfRange
        else Inr (ul_value r))"

lemma show_nat_all: "\<forall>c \<in> set (show_nat n). is_digit c"
  using show_nat_digits [of n] by (auto simp: digit_char_props)

lemma show_nat_no_slash: "CHR ''/'' \<notin> set (show_nat n)"
proof
  assume "CHR ''/'' \<in> set (show_nat n)"
  with show_nat_digits [of n] obtain d where "d < 10" "CHR ''/'' = digit_char d" by auto
  then show False using digit_char_props(6) [of d] by simp
qed

lemma hd_show_nat:
  "\<not> is_space (hd (show_nat n))" "hd (show_nat n) \<noteq> CHR ''-''" "hd (show_nat n) \<noteq> CHR ''+''"
  using show_nat_digits [of n] hd_in_set [OF show_nat_ne, of n]
  by (metis digit_char_props(3), metis digit_char_props(4), metis digit_char_props(5))

lemma strtoul10_show_nat:
  assumes "n < 2 ^ 64"
  shows "strtoul10 (show_nat n) =
    \<lparr>ul_value = of_nat n, ul_end = [], ul_converted = True, ul_erange = False\<rparr>"
proof -
  have dw: "dropWhile is_space (show_nat n) = show_nat n"
    using hd_show_nat(1) [of n] by (cases "show_nat n") auto
  have tk: "takeWhile is_digit (show_nat n) = show_nat n" "dropWhile is_digit (show_nat n) = []"
    using show_nat_all [of n] by (auto simp: takeWhile_eq_all_conv dropWhile_eq_Nil_conv)
  show ?thesis
    using assms hd_show_nat [of n] by (simp add: strtoul10_def dw tk Let_def)
qed

text \<open>\<open>std::stod\<close> on decimal text.\<close>

definition pow10 :: "int \<Rightarrow> real" where
  "pow10 e = (if 0 \<le> e then 10 ^ nat e else 1 / 10 ^ nat (- e))"

definition split_sign :: "string \<Rightarrow> bool \<times> string" where
  "split_sign s =
     (if s \<noteq> [] \<and> hd s = CHR ''-'' then (True, tl s)
      else if s \<noteq> [] \<and> hd s = CHR ''+'' then (False, tl s)
      else (False, s))"

definition strtod_exponent :: "string \<Rightarrow> int" where
  "strtod_exponent s =
     (if s \<noteq> [] \<and> (hd s = CHR ''e'' \<or> hd s = CHR ''E'') then
        (let (neg, t) = split_sign (tl s); ds = takeWhile is_digit t in
           if ds = [] then 0 else if neg then - int (digits_val ds) else int (digits_val ds))
      else 0)"

definition strtod_decimal :: "string \<Rightarrow> real option" where
  "strtod_decimal s =
     (let whole = takeWhile is_digit s;
          r = dropWhile is_digit s;
          point = (r \<noteq> [] \<and> hd r = CHR ''.'');
          frac = (if point then takeWhile is_digit (tl r) else []);
          r' = (if point then dropWhile is_digit (tl r) else r)
      in if whole = [] \<and> frac = [] then None
         else Some (real (digits_val (whole @ frac))
                      * pow10 (strtod_exponent r' - int (length frac))))"

definition stod_special :: "string \<Rightarrow> bool" where
  \<comment> \<open>the forms of \<open>strtod\<close> that are not decimal numbers: infinities, NaN, hexadecimal\<close>
  "stod_special s \<longleftrightarrow>
     (s \<noteq> [] \<and> hd s \<in> {CHR ''i'', CHR ''I'', CHR ''n'', CHR ''N''}) \<or>
     (2 \<le> length s \<and> hd s = CHR ''0'' \<and> s ! 1 \<in> {CHR ''x'', CHR ''X''})"

definition stod :: "string \<Rightarrow> double result" where
  "stod text =
     (let (neg, s) = split_sign (dropWhile is_space text) in
        if stod_special s then Inl (Fatal ''stod: form not modelled'')
        else case strtod_decimal s of
               None \<Rightarrow> Inl InvalidArgument
             | Some v \<Rightarrow>
                 if 2 ^ 1024 \<le> v \<or> 0 < v \<and> v < 1 / 2 ^ 1022 then Inl OutOfRange
                 else Inr (if neg then - v else v))"

end
