(* ===== verification/Trajectory.thy ===== *)
theory Trajectory
  imports StdString
begin

text \<open>
  The trajectories of the scenario and the computations on them: the rows of the mobility file and
  of the input schedule, their loaders, the time and space extents with the checks of data coverage,
  the peak numbers of active vehicles, and the mobility model of a pool device
  (\<open>NgsimPoolMobilityModel\<close>), which interpolates a track through a cached index.

  A C++ \<open>infinity\<close> that stands for "no value yet" is \<open>None\<close>. \<open>uint32_t\<close> indices into a vector are
  \<open>nat\<close>: a track has fewer than \<open>2 ^ 32\<close> rows. The pointer to the rows of a track is the list of
  rows, because no track changes after it is loaded.
\<close>

section \<open>Data\<close>

record mobility_row =
  row_timeS :: double
  row_vehicleId :: u32
  row_xM :: double
  row_yM :: double
  row_vxMps :: double
  row_vyMps :: double
  row_speedMps :: double
  row_laneId :: u32

record input_command =
  in_timeS :: double
  in_txPowerDbm :: double
  in_beaconIntervalS :: double

record vec3 =
  vec_x :: double
  vec_y :: double
  vec_z :: double

definition vec :: "double \<Rightarrow> double \<Rightarrow> double \<Rightarrow> vec3" where
  "vec x y z = \<lparr>vec_x = x, vec_y = y, vec_z = z\<rparr>"

lemma vec_simps [simp]: "vec_x (vec x y z) = x" "vec_y (vec x y z) = y" "vec_z (vec x y z) = z"
  by (simp_all add: vec_def)

definition kInvalidVehicleId :: u32 where
  "kInvalidVehicleId = - 1"

text \<open>\<open>g_mobilityByVehicle\<close>.\<close>

type_synonym mobility_map = "(u32 \<times> mobility_row list) list"

section \<open>Helpers\<close>

definition Distance2d :: "vec3 \<Rightarrow> vec3 \<Rightarrow> double" where
  "Distance2d a b =
     (let dx = vec_x a - vec_x b; dy = vec_y a - vec_y b in sqrt (dx * dx + dy * dy))"

definition llround :: "double \<Rightarrow> int" where
  \<comment> \<open>to the nearest integer, halves away from zero\<close>
  "llround x = (if 0 \<le> x then \<lfloor>x + 1 / 2\<rfloor> else - \<lfloor>- x + 1 / 2\<rfloor>)"

definition ClampToLong :: "double \<Rightarrow> int \<Rightarrow> int \<Rightarrow> int" where
  "ClampToLong value minValue maxValue =
     llround (max (of_int minValue) (min (of_int maxValue) value))"

lemma llround_near: "x - 1 / 2 \<le> of_int (llround x)" "of_int (llround x) \<le> x + 1 / 2"
proof -
  have a: "of_int \<lfloor>y + 1 / 2\<rfloor> \<le> y + 1 / 2" "y - 1 / 2 < of_int \<lfloor>y + 1 / 2\<rfloor>" for y :: real
    by linarith+
  have "x - 1 / 2 \<le> of_int (llround x) \<and> of_int (llround x) \<le> x + 1 / 2"
  proof (cases "0 \<le> x")
    case True
    then have "llround x = \<lfloor>x + 1 / 2\<rfloor>" by (simp add: llround_def)
    with a [of x] show ?thesis by linarith
  next
    case False
    then have "llround x = - \<lfloor>- x + 1 / 2\<rfloor>" by (simp add: llround_def)
    with a [of "- x"] show ?thesis by linarith
  qed
  then show "x - 1 / 2 \<le> of_int (llround x)" "of_int (llround x) \<le> x + 1 / 2" by simp_all
qed

lemma llround_mono: "x \<le> y \<Longrightarrow> llround x \<le> llround y"
proof -
  assume "x \<le> y"
  then show ?thesis
    by (auto simp: llround_def intro!: floor_mono) linarith+
qed

definition kPi :: double where
  "kPi = 314159265358979323846 / 100000000000000000000"

definition kDotOneMicro :: double where
  "kDotOneMicro = 10000000"

definition EncodeLatitudeFromLocalY :: "double \<Rightarrow> int" where
  "EncodeLatitudeFromLocalY yM =
     (let latDeg = 37 + yM / 111320
      in ClampToLong (latDeg * kDotOneMicro) (- 900000000) 900000000)"

definition EncodeLongitudeFromLocalX :: "double \<Rightarrow> int" where
  "EncodeLongitudeFromLocalX xM =
     (let originLatRad = 37 * kPi / 180;
          metersPerDegLon = 111320 * cos originLatRad;
          lonDeg = - 122 + xM / metersPerDegLon
      in ClampToLong (lonDeg * kDotOneMicro) (- 1799999999) 1800000000)"

definition IsInsideCoreRegion :: "double \<Rightarrow> double \<Rightarrow> double \<Rightarrow> bool" where
  "IsInsideCoreRegion coordinate coreMin coreMax \<longleftrightarrow> coordinate \<ge> coreMin \<and> coordinate \<le> coreMax"

definition GetInactiveParkingPosition :: "u32 \<Rightarrow> vec3" where
  "GetInactiveParkingPosition nodeId = vec (- 10000 - real (unat nodeId)) (- 10000) 0"

definition GetCoreCoordinate :: "vec3 \<Rightarrow> string \<Rightarrow> double" where
  "GetCoreCoordinate position axis = (if axis = ''x'' then vec_x position else vec_y position)"

definition row_coordinate :: "string \<Rightarrow> mobility_row \<Rightarrow> double" where
  "row_coordinate axis row = (if axis = ''x'' then row_xM row else row_yM row)"

section \<open>Extents\<close>

text \<open>The loop that every extent of the code is: the least and the greatest value seen so far.\<close>

definition min_inf :: "double option \<Rightarrow> double \<Rightarrow> double option" where
  "min_inf a v = Some (case a of None \<Rightarrow> v | Some m \<Rightarrow> min m v)"

definition max_inf :: "double option \<Rightarrow> double \<Rightarrow> double option" where
  "max_inf a v = Some (case a of None \<Rightarrow> v | Some m \<Rightarrow> max m v)"

definition extent :: "double list \<Rightarrow> double option \<times> double option" where
  "extent vs = fold (\<lambda>v (mn, mx). (min_inf mn v, max_inf mx v)) vs (None, None)"

definition finite_extent :: "string \<Rightarrow> double option \<times> double option \<Rightarrow> (double \<times> double) result" where
  \<comment> \<open>\<open>NS_ABORT_MSG_IF(!isfinite(min) || !isfinite(max), msg)\<close>, then the pair\<close>
  "finite_extent msg e =
     (case e of (Some mn, Some mx) \<Rightarrow> Inr (mn, mx) | _ \<Rightarrow> Inl (Abort msg))"

definition ComputeMobilityTimeRange :: "mobility_row list \<Rightarrow> (double \<times> double) result" where
  "ComputeMobilityTimeRange rows =
     finite_extent ''Cannot compute active time range from empty mobility track''
       (extent (map row_timeS rows))"

text \<open>\<open>g_mobilityByVehicle[vehicleId]\<close> of a missing vehicle is an empty track, on which the inner
  computation aborts.\<close>

primrec fold_ranges :: "mobility_map \<Rightarrow> u32 list \<Rightarrow> double option \<times> double option
    \<Rightarrow> (double option \<times> double option) result" where
  "fold_ranges mob [] acc = Inr acc"
| "fold_ranges mob (v # vs) acc =
     and_then (ComputeMobilityTimeRange (omap_get [] mob v))
       (\<lambda>r. fold_ranges mob vs (min_inf (fst acc) (fst r), max_inf (snd acc) (snd r)))"

definition ComputeMobilityTimeRangeForVehicles ::
    "mobility_map \<Rightarrow> u32 list \<Rightarrow> (double \<times> double) result" where
  "ComputeMobilityTimeRangeForVehicles mob vehicleIds =
     and_then (fold_ranges mob vehicleIds (None, None))
       (finite_extent ''Cannot compute selected mobility coverage from empty vehicle set'')"

definition ComputeInputScheduleTimeRange :: "input_command list \<Rightarrow> (double \<times> double) result" where
  "ComputeInputScheduleTimeRange sched =
     finite_extent ''Cannot compute input schedule coverage from empty input schedule''
       (extent (map in_timeS sched))"

definition ValidateTenMinuteDataCoverage ::
    "mobility_map \<Rightarrow> input_command list \<Rightarrow> double \<Rightarrow> double \<Rightarrow> double \<Rightarrow> bool \<Rightarrow> bool \<Rightarrow> u32 list
       \<Rightarrow> unit result" where
  "ValidateTenMinuteDataCoverage mob sched simTimeSeconds evalStartS evalEndS useInputSchedule
       requireFullDataCoverage vehicleIds =
     (if \<not> requireFullDataCoverage then Inr ()
      else let eps = 1 / 1000000 in
        and_then (ComputeMobilityTimeRangeForVehicles mob vehicleIds) (\<lambda>mobilityRange.
        and_then (abort_if (fst mobilityRange > evalStartS + eps) ''Mobility CSV starts late'') (\<lambda>_.
        and_then (abort_if (evalEndS \<ge> 0 \<and> snd mobilityRange + eps < evalEndS)
          ''Mobility CSV ends early'') (\<lambda>_.
        if \<not> useInputSchedule then Inr ()
        else
          and_then (ComputeInputScheduleTimeRange sched) (\<lambda>inputRange.
          and_then (abort_if (fst inputRange > eps) ''Input schedule starts late'') (\<lambda>_.
            abort_if (snd inputRange + eps < simTimeSeconds) ''Input schedule ends early''))))))"

definition ComputeStudyBounds :: "mobility_map \<Rightarrow> string \<Rightarrow> (double \<times> double) result" where
  "ComputeStudyBounds mob axis =
     finite_extent ''Cannot compute study-area limits from empty mobility data''
       (extent (concat (map (\<lambda>kv. map (row_coordinate axis) (snd kv)) mob)))"

definition ResolveCoreAxis :: "mobility_map \<Rightarrow> string \<Rightarrow> string result" where
  "ResolveCoreAxis mob requestedAxis =
     (if requestedAxis = ''x'' \<or> requestedAxis = ''y'' then Inr requestedAxis
      else
        and_then (abort_if (requestedAxis \<noteq> ''auto'') ''coreAxis must be auto, x, or y'') (\<lambda>_.
        and_then (ComputeStudyBounds mob ''x'') (\<lambda>xBounds.
        and_then (ComputeStudyBounds mob ''y'') (\<lambda>yBounds.
          let xSpan = snd xBounds - fst xBounds; ySpan = snd yBounds - fst yBounds
          in Inr (if ySpan > xSpan then ''y'' else ''x'')))))"

section \<open>Peak numbers of active vehicles\<close>

definition insert_at :: "double \<Rightarrow> u32 \<Rightarrow> (double \<times> u32 list) list \<Rightarrow> (double \<times> u32 list) list" where
  \<comment> \<open>\<open>m[t].insert(v)\<close>\<close>
  "insert_at t v m = omap_put t (oset_insert v (omap_get [] m t)) m"

definition peak_row :: "bool \<Rightarrow> string \<Rightarrow> double \<Rightarrow> double \<Rightarrow> u32 \<Rightarrow> mobility_row
    \<Rightarrow> (double \<times> u32 list) list \<times> (double \<times> u32 list) list
    \<Rightarrow> (double \<times> u32 list) list \<times> (double \<times> u32 list) list" where
  "peak_row enableCoreFilter coreAxis coreMin coreMax v row acc =
     (insert_at (row_timeS row) v (fst acc),
      if \<not> enableCoreFilter \<or> IsInsideCoreRegion (row_coordinate coreAxis row) coreMin coreMax
      then insert_at (row_timeS row) v (snd acc) else snd acc)"

definition peak_vehicle :: "mobility_map \<Rightarrow> bool \<Rightarrow> string \<Rightarrow> double \<Rightarrow> double \<Rightarrow> u32
    \<Rightarrow> (double \<times> u32 list) list \<times> (double \<times> u32 list) list
    \<Rightarrow> (double \<times> u32 list) list \<times> (double \<times> u32 list) list" where
  "peak_vehicle mob enableCoreFilter coreAxis coreMin coreMax v acc =
     (case map_of mob v of
        None \<Rightarrow> acc
      | Some rows \<Rightarrow> fold (peak_row enableCoreFilter coreAxis coreMin coreMax v) rows acc)"

definition peak_size :: "(double \<times> u32 list) list \<Rightarrow> u32" where
  "peak_size m = fold (\<lambda>kv peak. max peak (of_nat (length (snd kv)))) m 0"

definition ComputePeakActiveCountsForVehicles ::
    "mobility_map \<Rightarrow> u32 list \<Rightarrow> bool \<Rightarrow> string \<Rightarrow> double \<Rightarrow> double \<Rightarrow> u32 \<times> u32" where
  "ComputePeakActiveCountsForVehicles mob vehicleIds enableCoreFilter coreAxis coreMin coreMax =
     (let (activeByTime, coreByTime) =
        fold (peak_vehicle mob enableCoreFilter coreAxis coreMin coreMax) vehicleIds ([], [])
      in (peak_size activeByTime, peak_size coreByTime))"

section \<open>The mobility model of a pool device\<close>

record pool_mobility =
  pm_vehicleId :: u32
  pm_rows :: "mobility_row list option"
  pm_lastIndex :: nat
  pm_parkingPosition :: vec3
  pm_courseChanges :: nat \<comment> \<open>the calls of \<open>NotifyCourseChange\<close> so far\<close>

definition pool_mobility_new :: pool_mobility where
  "pool_mobility_new = \<lparr>pm_vehicleId = kInvalidVehicleId, pm_rows = None, pm_lastIndex = 0,
     pm_parkingPosition = vec 0 0 0, pm_courseChanges = 0\<rparr>"

definition NotifyCourseChange :: "pool_mobility \<Rightarrow> pool_mobility" where
  "NotifyCourseChange m = m\<lparr>pm_courseChanges := pm_courseChanges m + 1\<rparr>"

definition SetParkingPosition :: "vec3 \<Rightarrow> pool_mobility \<Rightarrow> pool_mobility" where
  "SetParkingPosition position m =
     (let m' = m\<lparr>pm_parkingPosition := position\<rparr>
      in if pm_rows m = None then NotifyCourseChange m' else m')"

definition mobility_AssignVehicle ::
    "u32 \<Rightarrow> mobility_row list option \<Rightarrow> pool_mobility \<Rightarrow> pool_mobility result" where
  "mobility_AssignVehicle vehicleId rows m =
     and_then (abort_if (rows = None \<or> rows = Some [])
         ''Cannot assign pool mobility to an empty vehicle track'') (\<lambda>_.
       Inr (NotifyCourseChange
         (m\<lparr>pm_vehicleId := vehicleId, pm_rows := rows, pm_lastIndex := 0\<rparr>)))"

definition mobility_ReleaseVehicle :: "pool_mobility \<Rightarrow> pool_mobility" where
  "mobility_ReleaseVehicle m = NotifyCourseChange
     (m\<lparr>pm_vehicleId := kInvalidVehicleId, pm_rows := None, pm_lastIndex := 0\<rparr>)"

definition mobility_IsAssigned :: "pool_mobility \<Rightarrow> bool" where
  "mobility_IsAssigned m \<longleftrightarrow> pm_rows m \<noteq> None"

definition mobility_DoSetPosition :: "vec3 \<Rightarrow> pool_mobility \<Rightarrow> pool_mobility" where
  "mobility_DoSetPosition position m = NotifyCourseChange (m\<lparr>pm_parkingPosition := position\<rparr>)"

text \<open>The two loops that move the cached index.\<close>

function seek_forward :: "mobility_row list \<Rightarrow> double \<Rightarrow> nat \<Rightarrow> nat" where
  "seek_forward rows timeS i =
     (if i + 1 < length rows \<and> row_timeS (rows ! (i + 1)) \<le> timeS
      then seek_forward rows timeS (i + 1) else i)"
  by pat_completeness auto
termination
  by (relation "measure (\<lambda>(rows, t, i). length rows - i)") auto

declare seek_forward.simps [simp del]

primrec seek_backward :: "mobility_row list \<Rightarrow> double \<Rightarrow> nat \<Rightarrow> nat" where
  "seek_backward rows timeS 0 = 0"
| "seek_backward rows timeS (Suc i) =
     (if row_timeS (rows ! Suc i) > timeS then seek_backward rows timeS i else Suc i)"

text \<open>The common body of \<open>InterpolatePosition\<close> and \<open>InterpolateVelocity\<close> on a non-empty track: the
  two functions differ in the fields of the row that they read. The second component is
  \<open>m_lastIndex\<close> afterwards.\<close>

definition interpolate_rows ::
    "(mobility_row \<Rightarrow> double) \<Rightarrow> (mobility_row \<Rightarrow> double) \<Rightarrow> mobility_row list \<Rightarrow> double \<Rightarrow> nat
       \<Rightarrow> vec3 \<times> nat" where
  "interpolate_rows fx fy rows timeS lastIndex =
     (if timeS \<le> row_timeS (hd rows) then (vec (fx (hd rows)) (fy (hd rows)) 0, lastIndex)
      else if timeS \<ge> row_timeS (last rows) then (vec (fx (last rows)) (fy (last rows)) 0, lastIndex)
      else
        let i = seek_backward rows timeS (seek_forward rows timeS lastIndex);
            nextIndex = min (i + 1) (length rows - 1);
            a = rows ! i;
            b = rows ! nextIndex;
            dt = row_timeS b - row_timeS a
        in if dt \<le> 0 then (vec (fx a) (fy a) 0, i)
           else let alpha = max 0 (min 1 ((timeS - row_timeS a) / dt))
                in (vec (fx a + alpha * (fx b - fx a)) (fy a + alpha * (fy b - fy a)) 0, i))"

definition InterpolatePosition :: "double \<Rightarrow> pool_mobility \<Rightarrow> vec3 \<times> pool_mobility" where
  "InterpolatePosition timeS m =
     (case pm_rows m of
        None \<Rightarrow> (pm_parkingPosition m, m)
      | Some [] \<Rightarrow> (pm_parkingPosition m, m)
      | Some rows \<Rightarrow>
          (let (p, i) = interpolate_rows row_xM row_yM rows timeS (pm_lastIndex m)
           in (p, m\<lparr>pm_lastIndex := i\<rparr>)))"

definition InterpolateVelocity :: "double \<Rightarrow> pool_mobility \<Rightarrow> vec3 \<times> pool_mobility" where
  "InterpolateVelocity timeS m =
     (case pm_rows m of
        None \<Rightarrow> (vec 0 0 0, m)
      | Some [] \<Rightarrow> (vec 0 0 0, m)
      | Some rows \<Rightarrow>
          (let (p, i) = interpolate_rows row_vxMps row_vyMps rows timeS (pm_lastIndex m)
           in (p, m\<lparr>pm_lastIndex := i\<rparr>)))"

section \<open>Loading the files\<close>

text \<open>\<open>std::getline(ss, token, ',')\<close>: when the stream is exhausted the token keeps its value.\<close>

definition next_field :: "istream \<times> string \<Rightarrow> istream \<times> string" where
  "next_field st = (let (ok, token, ss) = getline CHR '','' (fst st) (snd st) in (ss, token))"

definition stod_field :: "istream \<times> string \<Rightarrow> (double \<times> istream \<times> string) result" where
  "stod_field st = (let st' = next_field st in and_then (stod (snd st')) (\<lambda>v. Inr (v, st')))"

definition stoul_field :: "istream \<times> string \<Rightarrow> (u32 \<times> istream \<times> string) result" where
  "stoul_field st =
     (let st' = next_field st in and_then (stoul (snd st')) (\<lambda>v. Inr (ucast v, st')))"

definition parse_mobility_line :: "string \<Rightarrow> mobility_row result" where
  "parse_mobility_line line =
     and_then (stod_field (istream_of line, [])) (\<lambda>(timeS, st).
     and_then (stoul_field st) (\<lambda>(vehicleId, st).
     and_then (stod_field st) (\<lambda>(xM, st).
     and_then (stod_field st) (\<lambda>(yM, st).
     and_then (stod_field st) (\<lambda>(vxMps, st).
     and_then (stod_field st) (\<lambda>(vyMps, st).
     and_then (stod_field st) (\<lambda>(speedMps, st).
     and_then (stoul_field st) (\<lambda>(laneId, st).
       Inr \<lparr>row_timeS = timeS, row_vehicleId = vehicleId, row_xM = xM, row_yM = yM,
            row_vxMps = vxMps, row_vyMps = vyMps, row_speedMps = speedMps,
            row_laneId = laneId\<rparr>))))))))"

definition parse_input_line :: "string \<Rightarrow> input_command result" where
  "parse_input_line line =
     and_then (stod_field (istream_of line, [])) (\<lambda>(timeS, st).
     and_then (stod_field st) (\<lambda>(txPowerDbm, st).
     and_then (stod_field st) (\<lambda>(beaconIntervalS, st).
       Inr \<lparr>in_timeS = timeS, in_txPowerDbm = txPowerDbm, in_beaconIntervalS = beaconIntervalS\<rparr>)))"

text \<open>The lines after the header; the newline character is \<open>CHR 0x0A\<close>.\<close>

definition data_lines :: "string \<Rightarrow> string list" where
  "data_lines content = drop 1 (split_tokens CHR 0x0A content)"

definition push_row :: "mobility_row \<Rightarrow> mobility_map \<Rightarrow> mobility_map" where
  "push_row row mob = omap_put (row_vehicleId row) (omap_get [] mob (row_vehicleId row) @ [row]) mob"

primrec load_mobility_lines :: "string list \<Rightarrow> mobility_map \<Rightarrow> mobility_map result" where
  "load_mobility_lines [] mob = Inr mob"
| "load_mobility_lines (line # lines) mob =
     (if line = [] then load_mobility_lines lines mob
      else and_then (parse_mobility_line line) (\<lambda>row. load_mobility_lines lines (push_row row mob)))"

text \<open>\<open>std::sort\<close> by time leaves the order of rows with equal times open: it is a parameter. The file
  is \<open>None\<close> when it cannot be opened.\<close>

definition LoadMobilityCsv ::
    "(mobility_row list \<Rightarrow> mobility_row list) \<Rightarrow> string option \<Rightarrow> mobility_map \<Rightarrow> mobility_map result" where
  "LoadMobilityCsv std_sort file mob =
     (case file of
        None \<Rightarrow> Inl (Fatal ''Cannot open mobility CSV'')
      | Some content \<Rightarrow>
          and_then (load_mobility_lines (data_lines content) mob) (\<lambda>mob'.
            Inr (map (\<lambda>(v, rows). (v, std_sort rows)) mob')))"

primrec load_input_lines :: "string list \<Rightarrow> input_command list \<Rightarrow> input_command list result" where
  "load_input_lines [] sched = Inr sched"
| "load_input_lines (line # lines) sched =
     (if line = [] then load_input_lines lines sched
      else and_then (parse_input_line line) (\<lambda>u. load_input_lines lines (sched @ [u])))"

definition LoadInputScheduleCsv :: "string option \<Rightarrow> input_command list \<Rightarrow> input_command list result" where
  "LoadInputScheduleCsv file sched =
     (case file of
        None \<Rightarrow> Inl (Fatal ''Cannot open input schedule CSV'')
      | Some content \<Rightarrow> load_input_lines (data_lines content) sched)"

section \<open>The sidelink slot bitmap\<close>

definition bitmap_lookup :: "string \<Rightarrow> bool option" where
  "bitmap_lookup token = (if token = ''0'' then Some False else if token = ''1'' then Some True else None)"

primrec append_bitmap :: "string list \<Rightarrow> bool list \<Rightarrow> bool list result" where
  "append_bitmap [] out = Inr out"
| "append_bitmap (v # vs) out =
     (case bitmap_lookup v of
        None \<Rightarrow> Inl (Fatal ''Invalid sidelink bitmap token'')
      | Some b \<Rightarrow> append_bitmap vs (out @ [b]))"

definition GetSlBitmapFromString :: "string \<Rightarrow> bool list \<Rightarrow> bool list result" where
  "GetSlBitmapFromString slBitMapString slBitMapVector =
     append_bitmap (split_tokens CHR ''|'' slBitMapString) slBitMapVector"

section \<open>Facts about extents\<close>

lemma fold_extent:
  assumes "fst acc = None \<longleftrightarrow> snd acc = None"
  shows "fold (\<lambda>v (mn, mx). (min_inf mn v, max_inf mx v)) vs acc
    = (if vs = [] then acc
       else (Some (Min (set_option (fst acc) \<union> set vs)), Some (Max (set_option (snd acc) \<union> set vs))))"
  using assms
proof (induction vs arbitrary: acc)
  case (Cons v vs)
  obtain mn mx where acc: "acc = (mn, mx)" by (cases acc)
  have "min_inf mn v = Some (Min (insert v (set_option mn)))"
    by (cases mn) (simp_all add: min_inf_def min.commute)
  moreover have "max_inf mx v = Some (Max (insert v (set_option mx)))"
    by (cases mx) (simp_all add: max_inf_def max.commute)
  ultimately show ?case
    using Cons.IH [of "(min_inf mn v, max_inf mx v)"]
    by (cases "vs = []"; cases mn; cases mx)
      (simp_all add: acc min_inf_def max_inf_def Un_insert_right insert_commute min.assoc max.assoc
        min.left_commute max.left_commute min.commute max.commute)
qed simp

lemma extent_eq: "extent vs = (if vs = [] then (None, None) else (Some (Min (set vs)), Some (Max (set vs))))"
  unfolding extent_def by (subst fold_extent) simp_all

lemma finite_extent_eq: "finite_extent msg (extent vs)
    = (if vs = [] then Inl (Abort msg) else Inr (Min (set vs), Max (set vs)))"
  by (simp add: extent_eq finite_extent_def)

lemma ComputeMobilityTimeRange_eq: "ComputeMobilityTimeRange rows =
    (if rows = [] then Inl (Abort ''Cannot compute active time range from empty mobility track'')
     else Inr (Min (row_timeS ` set rows), Max (row_timeS ` set rows)))"
  by (simp add: ComputeMobilityTimeRange_def finite_extent_eq)

lemma ComputeMobilityTimeRange_sorted:
  assumes "rows \<noteq> []" "sorted (map row_timeS rows)"
  shows "ComputeMobilityTimeRange rows = Inr (row_timeS (hd rows), row_timeS (last rows))"
proof -
  have "Min (row_timeS ` set rows) = row_timeS (hd rows)"
    using assms by (cases rows) (auto intro!: Min_eqI)
  moreover have "Max (row_timeS ` set rows) = row_timeS (last rows)"
    using assms by (cases rows rule: rev_cases) (auto simp: sorted_append intro!: Max_eqI)
  ultimately show ?thesis
    using assms(1) by (simp add: ComputeMobilityTimeRange_eq)
qed

section \<open>Facts about interpolation\<close>

lemma seek_forward_range:
  assumes "i < length rows"
  shows "i \<le> seek_forward rows t i \<and> seek_forward rows t i < length rows"
  using assms
proof (induction rows t i rule: seek_forward.induct)
  case (1 rows t i)
  then show ?case
    by (subst (1 2) seek_forward.simps) (auto dest: Suc_leD)
qed

lemma seek_forward_next:
  "seek_forward rows t i + 1 < length rows \<Longrightarrow> t < row_timeS (rows ! (seek_forward rows t i + 1))"
proof (induction rows t i rule: seek_forward.induct)
  case (1 rows t i)
  show ?case
  proof (cases "i + 1 < length rows \<and> row_timeS (rows ! (i + 1)) \<le> t")
    case True
    then have "seek_forward rows t i = seek_forward rows t (i + 1)"
      by (subst seek_forward.simps) simp
    with 1 True show ?thesis by simp
  next
    case False
    then have "seek_forward rows t i = i"
      by (subst seek_forward.simps) auto
    with 1(2) False show ?thesis by (auto simp: not_le)
  qed
qed

lemma seek_backward_le: "seek_backward rows t i \<le> i"
  by (induction i) auto

lemma seek_backward_here:
  "row_timeS (rows ! 0) \<le> t \<Longrightarrow> row_timeS (rows ! seek_backward rows t i) \<le> t"
  by (induction i) auto

lemma seek_backward_after:
  "seek_backward rows t i < k \<Longrightarrow> k \<le> i \<Longrightarrow> t < row_timeS (rows ! k)"
  by (induction i) (auto split: if_splits simp: le_Suc_eq)

text \<open>The index of the last row that is not after a time, which the loops find from anywhere.\<close>

definition row_before :: "mobility_row list \<Rightarrow> double \<Rightarrow> nat" where
  "row_before rows timeS = length (takeWhile (\<lambda>r. row_timeS r \<le> timeS) rows) - 1"

lemma row_before_eqI:
  assumes "sorted (map row_timeS rows)" "j + 1 < length rows"
    "row_timeS (rows ! j) \<le> t" "t < row_timeS (rows ! (j + 1))"
  shows "row_before rows t = j"
proof -
  have "takeWhile (\<lambda>r. row_timeS r \<le> t) rows = take (j + 1) rows"
  proof (rule takeWhile_eq_take_P_nth)
    fix i assume "i < j + 1" "i < length rows"
    then have "row_timeS (rows ! i) \<le> row_timeS (rows ! j)"
      using assms(1,2) by (auto intro!: sorted_nth_mono [of "map row_timeS rows" i j, simplified])
    with assms(3) show "row_timeS (rows ! i) \<le> t" by simp
  qed (use assms(4) in \<open>simp add: not_le\<close>)
  with assms(2) show ?thesis by (simp add: row_before_def)
qed

lemma seek_row_before:
  assumes "sorted (map row_timeS rows)" "i < length rows"
    "row_timeS (hd rows) < t" "t < row_timeS (last rows)"
  defines "j \<equiv> seek_backward rows t (seek_forward rows t i)"
  shows "j = row_before rows t \<and> j + 1 < length rows
    \<and> row_timeS (rows ! j) \<le> t \<and> t < row_timeS (rows ! (j + 1))"
proof -
  let ?f = "seek_forward rows t i"
  have ne: "rows \<noteq> []" using assms(2) by auto
  have f: "?f < length rows" using seek_forward_range [OF assms(2)] by simp
  have here: "row_timeS (rows ! j) \<le> t"
    unfolding j_def using assms(3) ne by (intro seek_backward_here) (simp add: hd_conv_nth)
  have "j \<le> ?f" unfolding j_def by (rule seek_backward_le)
  have "j \<noteq> length rows - 1"
    using here assms(4) ne by (auto simp: last_conv_nth)
  with \<open>j \<le> ?f\<close> f have lt: "j + 1 < length rows" by linarith
  have "t < row_timeS (rows ! (j + 1))"
  proof (cases "j = ?f")
    case True
    with lt show ?thesis using seek_forward_next [of rows t i] by simp
  next
    case False
    with \<open>j \<le> ?f\<close> show ?thesis
      using seek_backward_after [of rows t ?f "j + 1"] by (simp add: j_def)
  qed
  with here lt show ?thesis
    using row_before_eqI [OF assms(1) lt] by simp
qed

text \<open>The reference: linear interpolation between that row and the next one.\<close>

definition linear_at :: "(mobility_row \<Rightarrow> double) \<Rightarrow> mobility_row list \<Rightarrow> double \<Rightarrow> double" where
  "linear_at f rows timeS =
     (if timeS \<le> row_timeS (hd rows) then f (hd rows)
      else if timeS \<ge> row_timeS (last rows) then f (last rows)
      else
        let a = rows ! row_before rows timeS;
            b = rows ! (row_before rows timeS + 1)
        in f a + (timeS - row_timeS a) / (row_timeS b - row_timeS a) * (f b - f a))"

lemma interpolate_rows_linear:
  assumes "sorted (map row_timeS rows)" "i < length rows"
  shows "fst (interpolate_rows fx fy rows t i) = vec (linear_at fx rows t) (linear_at fy rows t) 0"
    and "snd (interpolate_rows fx fy rows t i) < length rows"
proof -
  let ?j = "seek_backward rows t (seek_forward rows t i)"
  consider "t \<le> row_timeS (hd rows)" | "row_timeS (hd rows) < t" "t \<ge> row_timeS (last rows)"
    | "row_timeS (hd rows) < t" "t < row_timeS (last rows)" by linarith
  then have "fst (interpolate_rows fx fy rows t i) = vec (linear_at fx rows t) (linear_at fy rows t) 0
      \<and> snd (interpolate_rows fx fy rows t i) < length rows"
  proof cases
    case 3
    from seek_row_before [OF assms this] have j: "?j = row_before rows t" "?j + 1 < length rows"
      "row_timeS (rows ! ?j) \<le> t" "t < row_timeS (rows ! (?j + 1))" by auto
    let ?a = "row_timeS (rows ! ?j)" and ?b = "row_timeS (rows ! (?j + 1))"
    have min: "min (?j + 1) (length rows - 1) = ?j + 1"
      using j(2) by simp
    have "0 \<le> (t - ?a) / (?b - ?a)" "(t - ?a) / (?b - ?a) \<le> 1"
      using j(3,4) by (simp_all add: divide_simps)
    then have al: "max 0 (min 1 ((t - ?a) / (?b - ?a))) = (t - ?a) / (?b - ?a)" by simp
    have ng: "\<not> ?b - ?a \<le> 0" "\<not> t \<le> row_timeS (hd rows)" "\<not> row_timeS (last rows) \<le> t"
      using j(3,4) 3 by simp_all
    have "interpolate_rows fx fy rows t i
      = (vec (linear_at fx rows t) (linear_at fy rows t) 0, ?j)"
      unfolding interpolate_rows_def linear_at_def Let_def min al j(1) [symmetric]
      by (simp only: ng if_False)
    with j(2) show ?thesis by simp
  qed (use assms(2) in \<open>simp_all add: interpolate_rows_def linear_at_def\<close>)
  then show "fst (interpolate_rows fx fy rows t i) = vec (linear_at fx rows t) (linear_at fy rows t) 0"
    "snd (interpolate_rows fx fy rows t i) < length rows" by auto
qed

lemma convex_between:
  fixes x y a :: real
  assumes "0 \<le> a" "a \<le> 1" "l \<le> x" "x \<le> u" "l \<le> y" "y \<le> u"
  shows "l \<le> x + a * (y - x)" "x + a * (y - x) \<le> u"
proof -
  have e: "x + a * (y - x) = (1 - a) * x + a * y" by (simp add: algebra_simps)
  have "(1 - a) * l + a * l \<le> (1 - a) * x + a * y"
    using assms by (intro add_mono mult_left_mono) auto
  then show "l \<le> x + a * (y - x)" unfolding e by (simp add: algebra_simps)
  have "(1 - a) * x + a * y \<le> (1 - a) * u + a * u"
    using assms by (intro add_mono mult_left_mono) auto
  then show "x + a * (y - x) \<le> u" unfolding e by (simp add: algebra_simps)
qed

lemma linear_at_bounds:
  assumes "sorted (map row_timeS rows)" "rows \<noteq> []"
  shows "Min (f ` set rows) \<le> linear_at f rows t \<and> linear_at f rows t \<le> Max (f ` set rows)"
proof -
  have mem: "Min (f ` set rows) \<le> f r" "f r \<le> Max (f ` set rows)" if "r \<in> set rows" for r
    using that by simp_all
  consider "t \<le> row_timeS (hd rows)" | "row_timeS (hd rows) < t" "t \<ge> row_timeS (last rows)"
    | "row_timeS (hd rows) < t" "t < row_timeS (last rows)" by linarith
  then show ?thesis
  proof cases
    case 3
    have "0 < length rows" using assms(2) by simp
    from seek_row_before [OF assms(1) this 3]
    have j: "row_before rows t + 1 < length rows" "row_timeS (rows ! row_before rows t) \<le> t"
      "t < row_timeS (rows ! (row_before rows t + 1))" by auto
    let ?a = "rows ! row_before rows t" and ?b = "rows ! (row_before rows t + 1)"
    let ?al = "(t - row_timeS ?a) / (row_timeS ?b - row_timeS ?a)"
    have ab: "0 \<le> ?al" "?al \<le> 1" "?a \<in> set rows" "?b \<in> set rows"
      using j by (simp_all add: divide_simps)
    have "Min (f ` set rows) \<le> f ?a + ?al * (f ?b - f ?a)"
      "f ?a + ?al * (f ?b - f ?a) \<le> Max (f ` set rows)"
      using convex_between [OF _ _ mem(1) [OF ab(3)] mem(2) [OF ab(3)] mem(1) [OF ab(4)] mem(2) [OF ab(4)]]
        ab(1,2) by blast+
    with 3 show ?thesis by (simp add: linear_at_def Let_def)
  qed (use assms(2) in \<open>simp_all add: linear_at_def mem\<close>)
qed
section \<open>Facts about the peaks\<close>

definition vehicles_at :: "(double \<times> u32 list) list \<Rightarrow> double \<Rightarrow> u32 set" where
  "vehicles_at m t = set (omap_get [] m t)"

definition peak_ok :: "(double \<times> u32 list) list \<Rightarrow> bool" where
  "peak_ok m \<longleftrightarrow> omap_ok m \<and> (\<forall>kv \<in> set m. distinct (snd kv))"

lemma omap_get_put: "omap_get d (omap_put k v m) k' = (if k' = k then v else omap_get d m k')"
  by (simp add: omap_get_def)

lemma vehicles_at_insert [simp]:
  "vehicles_at (insert_at t v m) t' = (if t' = t then insert v (vehicles_at m t) else vehicles_at m t')"
  by (simp add: vehicles_at_def insert_at_def omap_get_put)

lemma distinct_omap_get: "peak_ok m \<Longrightarrow> distinct (omap_get [] m t)"
  by (auto simp: peak_ok_def omap_get_def omap_ok_distinct split: option.split dest!: map_of_SomeD)

lemma peak_ok_insert [simp]:
  assumes "peak_ok m" shows "peak_ok (insert_at t v m)"
  using assms distinct_omap_get [OF assms] set_omap_put [of t "oset_insert v (omap_get [] m t)" m]
  by (fastforce simp: peak_ok_def insert_at_def)

lemma fold_peak_row:
  "peak_ok (fst acc) \<and> peak_ok (snd acc) \<Longrightarrow>
     (let acc' = fold (peak_row f axis lo hi v) rows acc in
        peak_ok (fst acc') \<and> peak_ok (snd acc')
      \<and> (\<forall>t. vehicles_at (fst acc') t = vehicles_at (fst acc) t
            \<union> {u. u = v \<and> (\<exists>r \<in> set rows. row_timeS r = t)})
      \<and> (\<forall>t. vehicles_at (snd acc') t = vehicles_at (snd acc) t
            \<union> {u. u = v \<and> (\<exists>r \<in> set rows. row_timeS r = t
                 \<and> (f \<longrightarrow> IsInsideCoreRegion (row_coordinate axis r) lo hi))}))"
proof (induction rows arbitrary: acc)
  case (Cons r rows)
  let ?acc = "peak_row f axis lo hi v r acc"
  have ok: "peak_ok (fst ?acc) \<and> peak_ok (snd ?acc)"
    using Cons.prems by (simp add: peak_row_def)
  show ?case
    using Cons.IH [OF ok] by (auto simp: Let_def peak_row_def split: if_splits)
qed simp

text \<open>The vehicles with a row at a time, and those among them with such a row inside the core.\<close>

definition active_at :: "mobility_map \<Rightarrow> u32 list \<Rightarrow> double \<Rightarrow> u32 set" where
  "active_at mob vs t = {v \<in> set vs. \<exists>rows. map_of mob v = Some rows \<and> (\<exists>r \<in> set rows. row_timeS r = t)}"

definition core_at :: "mobility_map \<Rightarrow> u32 list \<Rightarrow> bool \<Rightarrow> string \<Rightarrow> double \<Rightarrow> double \<Rightarrow> double \<Rightarrow> u32 set" where
  "core_at mob vs f axis lo hi t = {v \<in> set vs. \<exists>rows. map_of mob v = Some rows
     \<and> (\<exists>r \<in> set rows. row_timeS r = t \<and> (f \<longrightarrow> IsInsideCoreRegion (row_coordinate axis r) lo hi))}"

lemma fold_peak_vehicles:
  "peak_ok (fst acc) \<and> peak_ok (snd acc) \<Longrightarrow>
     (let acc' = fold (peak_vehicle mob f axis lo hi) vs acc in
        peak_ok (fst acc') \<and> peak_ok (snd acc')
      \<and> (\<forall>t. vehicles_at (fst acc') t = vehicles_at (fst acc) t \<union> active_at mob vs t)
      \<and> (\<forall>t. vehicles_at (snd acc') t = vehicles_at (snd acc) t \<union> core_at mob vs f axis lo hi t))"
proof (induction vs arbitrary: acc)
  case (Cons v vs)
  show ?case
  proof (cases "map_of mob v")
    case None
    then have "active_at mob (v # vs) = active_at mob vs"
      "core_at mob (v # vs) f axis lo hi = core_at mob vs f axis lo hi"
      "peak_vehicle mob f axis lo hi v acc = acc"
      by (auto simp: fun_eq_iff peak_vehicle_def active_at_def core_at_def)
    then show ?thesis using Cons by simp
  next
    case (Some rows)
    let ?acc = "fold (peak_row f axis lo hi v) rows acc"
    note one = fold_peak_row [OF Cons.prems, of f axis lo hi v rows, unfolded Let_def]
    have st: "peak_vehicle mob f axis lo hi v acc = ?acc" by (simp add: peak_vehicle_def Some)
    have "peak_ok (fst ?acc) \<and> peak_ok (snd ?acc)" using one by blast
    note rest = Cons.IH [OF this, unfolded Let_def]
    have "active_at mob (v # vs) t = {u. u = v \<and> (\<exists>r \<in> set rows. row_timeS r = t)} \<union> active_at mob vs t"
      "core_at mob (v # vs) f axis lo hi t = {u. u = v \<and> (\<exists>r \<in> set rows. row_timeS r = t
         \<and> (f \<longrightarrow> IsInsideCoreRegion (row_coordinate axis r) lo hi))} \<union> core_at mob vs f axis lo hi t" for t
      using Some by (auto simp: active_at_def core_at_def)
    then show ?thesis using rest one by (simp add: st Un_assoc)
  qed
qed (simp add: active_at_def core_at_def)

lemma fold_max_u32:
  fixes f :: "'a \<Rightarrow> nat" and p :: u32
  assumes "\<forall>x \<in> set xs. f x < 2 ^ 32"
  shows "unat (fold (\<lambda>x p. max p (of_nat (f x))) xs p) = fold (\<lambda>x p. max p (f x)) xs (unat p)"
  using assms
proof (induction xs arbitrary: p)
  case (Cons x xs)
  have "unat (max p (of_nat (f x) :: u32)) = max (unat p) (f x)"
    using Cons.prems
    by (auto simp: max_def word_le_nat_alt unsigned_of_nat take_bit_nat_eq_self)
  with Cons show ?case by simp
qed simp

lemma fold_max_nat:
  fixes f :: "'a \<Rightarrow> nat"
  shows "(\<forall>x \<in> set xs. f x \<le> fold (\<lambda>x p. max p (f x)) xs n) \<and> n \<le> fold (\<lambda>x p. max p (f x)) xs n
    \<and> (fold (\<lambda>x p. max p (f x)) xs n = n \<or> (\<exists>x \<in> set xs. fold (\<lambda>x p. max p (f x)) xs n = f x))"
proof (induction xs arbitrary: n)
  case (Cons x xs)
  from Cons.IH [of "max n (f x)"] show ?case by (auto simp: max_def split: if_splits)
qed simp

lemma peak_size_greatest:
  assumes "peak_ok m" "\<forall>t. card (vehicles_at m t) < 2 ^ 32"
  shows "(\<forall>t. card (vehicles_at m t) \<le> unat (peak_size m))
    \<and> (unat (peak_size m) = 0 \<or> (\<exists>t. unat (peak_size m) = card (vehicles_at m t)))"
proof -
  have len: "length (snd kv) = card (vehicles_at m (fst kv))" if "kv \<in> set m" for kv
  proof -
    have "map_of m (fst kv) = Some (snd kv)"
      using that assms(1) by (simp add: peak_ok_def omap_ok_distinct)
    then show ?thesis
      using that assms(1) by (simp add: vehicles_at_def omap_get_def peak_ok_def distinct_card)
  qed
  let ?n = "fold (\<lambda>kv p. max p (length (snd kv))) m 0"
  have "\<forall>kv \<in> set m. length (snd kv) < 2 ^ 32"
    using len assms(2) by simp
  from fold_max_u32 [OF this, of 0] have n: "unat (peak_size m) = ?n"
    by (simp add: peak_size_def)
  note mx = fold_max_nat [of m "\<lambda>kv. length (snd kv)" 0]
  have "card (vehicles_at m t) \<le> ?n" for t
  proof (cases "map_of m t")
    case None
    then show ?thesis by (simp add: vehicles_at_def omap_get_def)
  next
    case (Some vs)
    then have "(t, vs) \<in> set m" by (rule map_of_SomeD)
    with mx len [OF this] show ?thesis by force
  qed
  moreover have "?n = 0 \<or> (\<exists>t. ?n = card (vehicles_at m t))"
    using mx len by metis
  ultimately show ?thesis unfolding n by blast
qed
section \<open>Facts about the loaders\<close>

definition std_sort_ok :: "(mobility_row list \<Rightarrow> mobility_row list) \<Rightarrow> bool" where
  \<comment> \<open>what the standard guarantees of \<open>std::sort\<close> by time\<close>
  "std_sort_ok std_sort \<longleftrightarrow> (\<forall>rows. mset (std_sort rows) = mset rows \<and> sorted (map row_timeS (std_sort rows)))"

lemma load_mobility_lines_rows:
  assumes "load_mobility_lines lines mob = Inr mob'"
  shows "\<exists>rows. map parse_mobility_line (filter (\<lambda>l. l \<noteq> []) lines) = map Inr rows
    \<and> mob' = fold push_row rows mob"
  using assms
proof (induction lines arbitrary: mob)
  case (Cons line lines)
  show ?case
  proof (cases "line = []")
    case True
    with Cons show ?thesis by simp
  next
    case False
    with Cons.prems obtain row where row: "parse_mobility_line line = Inr row"
      "load_mobility_lines lines (push_row row mob) = Inr mob'" by auto
    with Cons.IH [OF row(2)] obtain rows where
      "map parse_mobility_line (filter (\<lambda>l. l \<noteq> []) lines) = map Inr rows"
      "mob' = fold push_row rows (push_row row mob)" by auto
    with False row show ?thesis by (intro exI [of _ "row # rows"]) simp
  qed
qed simp

lemma fold_push_row:
  "omap_ok mob \<Longrightarrow> (\<forall>tr \<in> snd ` set mob. tr \<noteq> []) \<Longrightarrow>
     omap_ok (fold push_row rows mob) \<and> (\<forall>tr \<in> snd ` set (fold push_row rows mob). tr \<noteq> [])
   \<and> (\<forall>v. omap_get [] (fold push_row rows mob) v
          = omap_get [] mob v @ filter (\<lambda>r. row_vehicleId r = v) rows)"
proof (induction rows arbitrary: mob)
  case (Cons r rows)
  have ok: "omap_ok (push_row r mob)" using Cons.prems by (simp add: push_row_def)
  have ne: "\<forall>tr \<in> snd ` set (push_row r mob). tr \<noteq> []"
    using Cons.prems(2) set_omap_put [of "row_vehicleId r" "omap_get [] mob (row_vehicleId r) @ [r]" mob]
    by (fastforce simp: push_row_def)
  from Cons.IH [OF ok ne] show ?case
    by (simp add: push_row_def omap_get_put)
qed simp

text \<open>C39: after loading a mobility file that opens and parses, every non-empty line of it is a row of
  exactly one track, that of its vehicle; every track is non-empty and in increasing order of time.\<close>

theorem LoadMobilityCsv_tracks:
  assumes "std_sort_ok std_sort" "LoadMobilityCsv std_sort (Some content) [] = Inr mob"
  shows "\<exists>rows. map parse_mobility_line (filter (\<lambda>l. l \<noteq> []) (data_lines content)) = map Inr rows
    \<and> omap_ok mob
    \<and> (\<forall>v. mset (omap_get [] mob v) = mset (filter (\<lambda>r. row_vehicleId r = v) rows))
    \<and> (\<forall>(v, track) \<in> set mob. track \<noteq> [] \<and> sorted (map row_timeS track)
         \<and> (\<forall>r \<in> set track. row_vehicleId r = v))"
proof -
  obtain mob0 where l: "load_mobility_lines (data_lines content) [] = Inr mob0"
    and mob: "mob = map (\<lambda>(v, rows). (v, std_sort rows)) mob0"
    using assms(2) by (auto simp: LoadMobilityCsv_def)
  from load_mobility_lines_rows [OF l] obtain rows where
    rows: "map parse_mobility_line (filter (\<lambda>l. l \<noteq> []) (data_lines content)) = map Inr rows"
    and mob0: "mob0 = fold push_row rows []" by blast
  have f: "omap_ok mob0" "\<forall>tr \<in> snd ` set mob0. tr \<noteq> []"
    "omap_get [] mob0 v = filter (\<lambda>r. row_vehicleId r = v) rows" for v
    using fold_push_row [of "[]" rows] unfolding mob0 by (simp_all add: omap_get_def)
  have st: "mset (std_sort rs) = mset rs" "sorted (map row_timeS (std_sort rs))" for rs
    using assms(1) by (auto simp: std_sort_ok_def)
  have get: "map_of mob v = map_option std_sort (map_of mob0 v)" for v
    unfolding mob by (simp add: map_of_map)
  have "mset (omap_get [] mob v) = mset (filter (\<lambda>r. row_vehicleId r = v) rows)" for v
    unfolding f(3) [of v, symmetric] by (simp add: get omap_get_def st split: option.split)
  moreover have "omap_ok mob"
    using f(1) by (simp add: mob omap_ok_def case_prod_unfold comp_def)
  moreover have "track \<noteq> [] \<and> sorted (map row_timeS track) \<and> (\<forall>r \<in> set track. row_vehicleId r = v)"
    if "(v, track) \<in> set mob" for v track
  proof -
    have "(v, track) \<in> (\<lambda>(v, rows). (v, std_sort rows)) ` set mob0"
      using that by (simp add: mob)
    then obtain tr where tr: "(v, tr) \<in> set mob0" "track = std_sort tr"
      by (elim imageE) auto
    have "map_of mob0 v = Some tr"
      using tr(1) f(1) by (simp add: omap_ok_distinct)
    then have "tr = filter (\<lambda>r. row_vehicleId r = v) rows"
      using f(3) [of v] by (simp add: omap_get_def)
    moreover have "tr \<noteq> []" using f(2) tr(1) by force
    moreover have "set track = set tr" using st(1) tr(2) by (metis mset_eq_setD)
    ultimately show ?thesis using st(2) tr(2) by auto
  qed
  ultimately show ?thesis using rows by blast
qed

lemma next_field_comma:
  "CHR '','' \<notin> set t \<Longrightarrow> next_field (istream_of (t @ CHR '','' # s), u) = (istream_of s, t)"
proof -
  assume "CHR '','' \<notin> set t"
  then have "takeWhile (\<lambda>c. c \<noteq> CHR '','') (t @ CHR '','' # s) = t"
    "dropWhile (\<lambda>c. c \<noteq> CHR '','') (t @ CHR '','' # s) = CHR '','' # s"
    by (induction t) auto
  then show ?thesis by (simp add: next_field_def getline_def istream_of_def Let_def)
qed

definition exhausted :: istream where
  "exhausted = \<lparr>is_rest = [], is_good = False\<rparr>"

lemma next_field_last: "CHR '','' \<notin> set t \<Longrightarrow> next_field (istream_of t, u) = (exhausted, t)"
proof -
  assume "CHR '','' \<notin> set t"
  then have "takeWhile (\<lambda>c. c \<noteq> CHR '','') t = t" "dropWhile (\<lambda>c. c \<noteq> CHR '','') t = []"
    by (auto simp: takeWhile_eq_all_conv dropWhile_eq_Nil_conv)
  note tk = this
  show ?thesis
    by (simp add: next_field_def getline_def istream_of_def exhausted_def Let_def tk
        del: takeWhile_eq_all_conv dropWhile_eq_Nil_conv)
qed

lemma next_field_exhausted: "next_field (exhausted, u) = (exhausted, u)"
  by (simp add: next_field_def getline_def exhausted_def)

lemmas field_simps_csv = stod_field_def stoul_field_def Let_def next_field_comma next_field_last
  next_field_exhausted

text \<open>The fields of a line with all its eight fields.\<close>

lemma parse_mobility_line_full:
  assumes "\<forall>t \<in> set [a, b, c, d, e, f, g, h]. CHR '','' \<notin> set t"
    "stod a = Inr timeS" "stoul b = Inr v" "stod c = Inr x" "stod d = Inr y"
    "stod e = Inr vx" "stod f = Inr vy" "stod g = Inr sp" "stoul h = Inr lane"
  shows "parse_mobility_line (a @ CHR '','' # b @ CHR '','' # c @ CHR '','' # d @ CHR '','' # e
      @ CHR '','' # f @ CHR '','' # g @ CHR '','' # h)
    = Inr \<lparr>row_timeS = timeS, row_vehicleId = ucast v, row_xM = x, row_yM = y, row_vxMps = vx,
        row_vyMps = vy, row_speedMps = sp, row_laneId = ucast lane\<rparr>"
  using assms by (simp add: parse_mobility_line_def field_simps_csv)

text \<open>A line of the mobility file that breaks off after its second field is accepted, and all the
  missing fields (the position, the velocity, the speed, the lane) are read from that second field,
  the vehicle id: the reads after the end of the line fail without touching the token.\<close>

theorem parse_mobility_line_short:
  assumes "CHR '','' \<notin> set a" "CHR '','' \<notin> set b" "stod a = Inr timeS" "stoul b = Inr v" "stod b = Inr x"
  shows "parse_mobility_line (a @ CHR '','' # b)
    = Inr \<lparr>row_timeS = timeS, row_vehicleId = ucast v, row_xM = x, row_yM = x, row_vxMps = x,
        row_vyMps = x, row_speedMps = x, row_laneId = ucast v\<rparr>"
  using assms by (simp add: parse_mobility_line_def field_simps_csv)

lemma stoul_7: "stoul ''7'' = Inr 7"
  by (simp add: stoul_def strtoul10_def is_space_def is_digit_def digits_val_def digit_val_def)

lemma stod_7: "stod ''7'' = Inr 7"
  by (simp add: stod_def split_sign_def stod_special_def strtod_decimal_def strtod_exponent_def
      pow10_def is_space_def is_digit_def digits_val_def digit_val_def)

theorem parse_mobility_line_short_witness:
  "parse_mobility_line ''7,7''
    = Inr \<lparr>row_timeS = 7, row_vehicleId = 7, row_xM = 7, row_yM = 7, row_vxMps = 7,
        row_vyMps = 7, row_speedMps = 7, row_laneId = 7\<rparr>"
  using parse_mobility_line_short [of "''7''" "''7''" 7 7 7] by (simp add: stoul_7 stod_7)

definition show_bitmap :: "bool list \<Rightarrow> string" where
  "show_bitmap bs = (case map (\<lambda>b. if b then CHR ''1'' else CHR ''0'') bs of
     [] \<Rightarrow> [] | c # cs \<Rightarrow> c # concat (map (\<lambda>c. [CHR ''|'', c]) cs))"

lemma append_bitmap_eq:
  "append_bitmap (map (\<lambda>b. if b then ''1'' else ''0'') bs) out = Inr (out @ bs)"
  by (induction bs arbitrary: out) (auto simp: bitmap_lookup_def)

lemma split_show_bitmap:
  "split_tokens CHR ''|'' (show_bitmap bs) = map (\<lambda>b. if b then ''1'' else ''0'') bs"
proof (induction bs)
  case (Cons b bs)
  let ?d = "if b then CHR ''1'' else CHR ''0''"
  have d: "CHR ''|'' \<notin> set [?d]" by simp
  show ?case
  proof (cases bs)
    case Nil
    then show ?thesis using split_tokens_last [OF d] by (simp add: show_bitmap_def)
  next
    case (Cons b' bs')
    then have "show_bitmap (b # bs) = [?d] @ CHR ''|'' # show_bitmap bs"
      by (simp add: show_bitmap_def)
    with Cons.IH split_tokens_cons [OF d] show ?thesis by simp
  qed
qed (simp add: show_bitmap_def)

text \<open>A sidelink slot bitmap written as digits separated by bars is read back.\<close>

theorem GetSlBitmapFromString_roundtrip:
  "GetSlBitmapFromString (show_bitmap bs) out = Inr (out @ bs)"
  by (simp add: GetSlBitmapFromString_def split_show_bitmap append_bitmap_eq)

text \<open>The two peaks are the greatest numbers of selected vehicles that have a row, or a row inside
  the core, with the same time stamp.\<close>

theorem peak_counts_greatest:
  assumes "length vs < 2 ^ 32"
    "ComputePeakActiveCountsForVehicles mob vs f axis lo hi = (peakActive, peakCore)"
  shows "(\<forall>t. card (active_at mob vs t) \<le> unat peakActive)
    \<and> (unat peakActive = 0 \<or> (\<exists>t. unat peakActive = card (active_at mob vs t)))
    \<and> (\<forall>t. card (core_at mob vs f axis lo hi t) \<le> unat peakCore)
    \<and> (unat peakCore = 0 \<or> (\<exists>t. unat peakCore = card (core_at mob vs f axis lo hi t)))"
proof -
  define acc where "acc = fold (peak_vehicle mob f axis lo hi) vs ([], [])"
  have acc: "peak_ok (fst acc)" "peak_ok (snd acc)"
    "vehicles_at (fst acc) t = active_at mob vs t"
    "vehicles_at (snd acc) t = core_at mob vs f axis lo hi t" for t
    using fold_peak_vehicles [of "([], [])" mob f axis lo hi vs]
    by (simp_all add: acc_def [symmetric] peak_ok_def vehicles_at_def omap_get_def Let_def)
  have "card A < 2 ^ 32" if "A \<subseteq> set vs" for A
    using card_mono [OF _ that] card_length [of vs] assms(1) by simp
  then have "card (active_at mob vs t) < 2 ^ 32" "card (core_at mob vs f axis lo hi t) < 2 ^ 32" for t
    by (auto simp: active_at_def core_at_def)
  note small = this
  have "peak_size (fst acc) = peakActive" "peak_size (snd acc) = peakCore"
    using assms(2) by (simp_all add: ComputePeakActiveCountsForVehicles_def acc_def case_prod_unfold Let_def)
  then show ?thesis
    using peak_size_greatest [OF acc(1)] peak_size_greatest [OF acc(2)] small by (simp add: acc(3,4))
qed

text \<open>A small mobility map for the witnesses: two tracks that share one time stamp.\<close>

definition sample_row :: "double \<Rightarrow> u32 \<Rightarrow> double \<Rightarrow> mobility_row" where
  "sample_row t v y = \<lparr>row_timeS = t, row_vehicleId = v, row_xM = 0, row_yM = y, row_vxMps = 0,
     row_vyMps = 5, row_speedMps = 5, row_laneId = 1\<rparr>"

definition sample_mobility :: mobility_map where
  "sample_mobility = [(1, [sample_row 0 1 0, sample_row 10 1 50]), (2, [sample_row 10 2 0, sample_row 20 2 80])]"

theorem peak_counts_greatest_witness:
  "card (active_at sample_mobility [1, 2] 10) \<le> 2"
proof -
  have "ComputePeakActiveCountsForVehicles sample_mobility [1, 2] True ''y'' 0 60 = (2, 2)"
    by (simp add: ComputePeakActiveCountsForVehicles_def peak_vehicle_def peak_row_def peak_size_def
        insert_at_def oset_insert_def omap_get_def sample_mobility_def sample_row_def row_coordinate_def
        IsInsideCoreRegion_def)
  from peak_counts_greatest [OF _ this] show ?thesis by simp
qed

section \<open>Data coverage\<close>

definition opt_le :: "double option \<Rightarrow> double \<Rightarrow> bool" where
  "opt_le a c \<longleftrightarrow> (\<exists>m. a = Some m \<and> m \<le> c)"

definition opt_ge :: "double option \<Rightarrow> double \<Rightarrow> bool" where
  "opt_ge a c \<longleftrightarrow> (\<exists>m. a = Some m \<and> c \<le> m)"

lemma opt_le_min_inf: "opt_le (min_inf a v) c \<longleftrightarrow> opt_le a c \<or> v \<le> c"
  by (cases a) (auto simp: opt_le_def min_inf_def min_le_iff_disj)

lemma opt_ge_max_inf: "opt_ge (max_inf a v) c \<longleftrightarrow> opt_ge a c \<or> c \<le> v"
  by (cases a) (auto simp: opt_ge_def max_inf_def le_max_iff_disj)

lemma fold_ranges_Inr:
  "(\<exists>e. fold_ranges mob vs acc = Inr e) \<longleftrightarrow> (\<forall>v \<in> set vs. omap_get [] mob v \<noteq> [])"
  by (induction vs arbitrary: acc) (auto simp: ComputeMobilityTimeRange_eq)

lemma fold_ranges_bounds:
  "fold_ranges mob vs acc = Inr e \<Longrightarrow>
     (opt_le (fst e) c \<longleftrightarrow> opt_le (fst acc) c \<or> (\<exists>v \<in> set vs. \<exists>r \<in> set (omap_get [] mob v). row_timeS r \<le> c))
   \<and> (opt_ge (snd e) d \<longleftrightarrow> opt_ge (snd acc) d \<or> (\<exists>v \<in> set vs. \<exists>r \<in> set (omap_get [] mob v). d \<le> row_timeS r))
   \<and> (fst e \<noteq> None \<longleftrightarrow> vs \<noteq> [] \<or> fst acc \<noteq> None) \<and> (snd e \<noteq> None \<longleftrightarrow> vs \<noteq> [] \<or> snd acc \<noteq> None)"
proof (induction vs arbitrary: acc)
  case (Cons v vs)
  let ?rows = "omap_get [] mob v"
  have ne: "?rows \<noteq> []" using Cons.prems by (auto simp: ComputeMobilityTimeRange_eq split: if_splits)
  then have f: "fold_ranges mob vs (min_inf (fst acc) (Min (row_timeS ` set ?rows)),
      max_inf (snd acc) (Max (row_timeS ` set ?rows))) = Inr e"
    using Cons.prems by (auto simp: ComputeMobilityTimeRange_eq)
  have m: "Min (row_timeS ` set ?rows) \<le> c \<longleftrightarrow> (\<exists>r \<in> set ?rows. row_timeS r \<le> c)"
    "d \<le> Max (row_timeS ` set ?rows) \<longleftrightarrow> (\<exists>r \<in> set ?rows. d \<le> row_timeS r)"
    using ne by (simp_all add: Min_le_iff Max_ge_iff)
  have n: "min_inf a x \<noteq> None" "max_inf a x \<noteq> None" for a x
    by (simp_all add: min_inf_def max_inf_def)
  note IH = Cons.IH [OF f, unfolded fst_conv snd_conv opt_le_min_inf opt_ge_max_inf m]
  show ?case
    using IH n by (simp only: list.set bex_simps disj_assoc simp_thms list.distinct not_False_eq_True)
qed simp

lemma ComputeMobilityTimeRangeForVehicles_bounds:
  "(\<exists>lo hi. ComputeMobilityTimeRangeForVehicles mob vs = Inr (lo, hi) \<and> lo \<le> c \<and> (P \<or> d \<le> hi))
    \<longleftrightarrow> vs \<noteq> [] \<and> (\<forall>v \<in> set vs. omap_get [] mob v \<noteq> [])
      \<and> (\<exists>v \<in> set vs. \<exists>r \<in> set (omap_get [] mob v). row_timeS r \<le> c)
      \<and> (P \<or> (\<exists>v \<in> set vs. \<exists>r \<in> set (omap_get [] mob v). d \<le> row_timeS r))"
proof (cases "\<forall>v \<in> set vs. omap_get [] mob v \<noteq> []")
  case True
  then obtain e where e: "fold_ranges mob vs (None, None) = Inr e"
    using fold_ranges_Inr [of mob vs "(None, None)"] by blast
  note b = fold_ranges_bounds [OF e, of c d, unfolded fst_conv snd_conv]
  obtain mn mx where "e = (mn, mx)" by (cases e)
  with e b True show ?thesis
    by (cases mn; cases mx; cases "vs = []")
      (auto simp: ComputeMobilityTimeRangeForVehicles_def finite_extent_def opt_le_def opt_ge_def)
next
  case False
  then have "\<not> (\<exists>e. fold_ranges mob vs (None, None) = Inr e)"
    using fold_ranges_Inr [of mob vs "(None, None)"] by blast
  with False show ?thesis by (auto simp: ComputeMobilityTimeRangeForVehicles_def)
qed

lemma ComputeInputScheduleTimeRange_bounds:
  "(\<exists>lo hi. ComputeInputScheduleTimeRange sched = Inr (lo, hi) \<and> lo \<le> c \<and> d \<le> hi)
    \<longleftrightarrow> (\<exists>u \<in> set sched. in_timeS u \<le> c) \<and> (\<exists>u \<in> set sched. d \<le> in_timeS u)"
  by (cases "sched = []")
    (auto simp: ComputeInputScheduleTimeRange_def finite_extent_eq Min_le_iff Max_ge_iff)

text \<open>The coverage check passes exactly when it is switched off, or every selected vehicle has a
  track, some track has begun when the evaluation starts and some track reaches its end (up to a
  microsecond), and, with a schedule, the schedule covers the whole run.\<close>

theorem ValidateTenMinuteDataCoverage_iff:
  "ValidateTenMinuteDataCoverage mob sched simTimeS evalStartS evalEndS useSched True vs = Inr ()
    \<longleftrightarrow> vs \<noteq> [] \<and> (\<forall>v \<in> set vs. omap_get [] mob v \<noteq> [])
      \<and> (\<exists>v \<in> set vs. \<exists>r \<in> set (omap_get [] mob v). row_timeS r \<le> evalStartS + 1 / 1000000)
      \<and> (evalEndS < 0 \<or> (\<exists>v \<in> set vs. \<exists>r \<in> set (omap_get [] mob v). evalEndS \<le> row_timeS r + 1 / 1000000))
      \<and> (useSched \<longrightarrow> (\<exists>u \<in> set sched. in_timeS u \<le> 1 / 1000000)
           \<and> (\<exists>u \<in> set sched. simTimeS \<le> in_timeS u + 1 / 1000000))"
proof -
  have "ValidateTenMinuteDataCoverage mob sched simTimeS evalStartS evalEndS useSched True vs = Inr ()
    \<longleftrightarrow> (\<exists>lo hi. ComputeMobilityTimeRangeForVehicles mob vs = Inr (lo, hi)
          \<and> lo \<le> evalStartS + 1 / 1000000 \<and> (evalEndS < 0 \<or> evalEndS - 1 / 1000000 \<le> hi))
      \<and> (useSched \<longrightarrow> (\<exists>lo hi. ComputeInputScheduleTimeRange sched = Inr (lo, hi)
          \<and> lo \<le> 1 / 1000000 \<and> simTimeS - 1 / 1000000 \<le> hi))"
    by (cases "ComputeMobilityTimeRangeForVehicles mob vs"; cases "ComputeInputScheduleTimeRange sched")
      (auto simp: ValidateTenMinuteDataCoverage_def Let_def not_less algebra_simps)
  then show ?thesis
    unfolding ComputeMobilityTimeRangeForVehicles_bounds ComputeInputScheduleTimeRange_bounds
    by (simp add: algebra_simps)
qed

theorem ValidateTenMinuteDataCoverage_iff_witness:
  "ValidateTenMinuteDataCoverage sample_mobility [] 20 1 20 False True [1, 2] = Inr ()"
  unfolding ValidateTenMinuteDataCoverage_iff
  by (simp add: sample_mobility_def sample_row_def omap_get_def ex_disj_distrib conj_disj_distribR)

definition sevens_row :: mobility_row where
  "sevens_row = \<lparr>row_timeS = 7, row_vehicleId = 7, row_xM = 7, row_yM = 7, row_vxMps = 7,
     row_vyMps = 7, row_speedMps = 7, row_laneId = 7\<rparr>"

definition sevens_csv :: string where
  "sevens_csv = ''t'' @ CHR 0x0A # ''7,7,7,7,7,7,7,7''"

lemma parse_sevens: "parse_mobility_line ''7,7,7,7,7,7,7,7'' = Inr sevens_row"
  using parse_mobility_line_full [of "''7''" "''7''" "''7''" "''7''" "''7''" "''7''" "''7''" "''7''"
      7 7 7 7 7 7 7 7]
  by (simp add: stoul_7 stod_7 sevens_row_def)

lemma load_sevens: "LoadMobilityCsv (sort_key row_timeS) (Some sevens_csv) [] = Inr [(7, [sevens_row])]"
proof -
  have "data_lines sevens_csv = [''7,7,7,7,7,7,7,7'']"
    unfolding data_lines_def sevens_csv_def by (subst split_tokens_cons) (simp_all add: split_tokens_last)
  then show ?thesis
    by (simp add: LoadMobilityCsv_def parse_sevens push_row_def omap_get_def) (simp add: sevens_row_def)
qed

theorem LoadMobilityCsv_tracks_witness:
  "\<exists>row. parse_mobility_line ''7,7,7,7,7,7,7,7'' = Inr row
    \<and> LoadMobilityCsv (sort_key row_timeS) (Some sevens_csv) [] = Inr [(7, [row])]
    \<and> omap_ok [(7 :: u32, [row])]"
proof -
  have "std_sort_ok (sort_key row_timeS)"
    by (simp add: std_sort_ok_def)
  from LoadMobilityCsv_tracks [OF this load_sevens] have "omap_ok [(7 :: u32, [sevens_row])]" by blast
  with parse_sevens load_sevens show ?thesis by blast
qed

section \<open>The position of a pool device\<close>

definition pool_mobility_ok :: "pool_mobility \<Rightarrow> bool" where
  "pool_mobility_ok m \<longleftrightarrow> (case pm_rows m of None \<Rightarrow> True
     | Some rows \<Rightarrow> rows \<noteq> [] \<and> sorted (map row_timeS rows) \<and> pm_lastIndex m < length rows)"

text \<open>A position query or a velocity query.\<close>

definition query_mobility :: "bool \<times> double \<Rightarrow> pool_mobility \<Rightarrow> pool_mobility" where
  "query_mobility q m =
     (if fst q then snd (InterpolatePosition (snd q) m) else snd (InterpolateVelocity (snd q) m))"

lemma Interpolate_track:
  assumes "pool_mobility_ok m" "pm_rows m = Some rows"
  shows "fst (InterpolatePosition t m) = vec (linear_at row_xM rows t) (linear_at row_yM rows t) 0"
    "fst (InterpolateVelocity t m) = vec (linear_at row_vxMps rows t) (linear_at row_vyMps rows t) 0"
    "pool_mobility_ok (query_mobility (b, t) m)" "pm_rows (query_mobility (b, t) m) = Some rows"
proof -
  have ok: "rows \<noteq> []" "sorted (map row_timeS rows)" "pm_lastIndex m < length rows"
    using assms by (simp_all add: pool_mobility_ok_def)
  then obtain r rs where rs: "rows = r # rs" by (cases rows) auto
  note lin = interpolate_rows_linear [OF ok(2,3)]
  show "fst (InterpolatePosition t m) = vec (linear_at row_xM rows t) (linear_at row_yM rows t) 0"
    "fst (InterpolateVelocity t m) = vec (linear_at row_vxMps rows t) (linear_at row_vyMps rows t) 0"
    using lin(1) by (simp_all add: InterpolatePosition_def InterpolateVelocity_def assms(2) rs
        case_prod_unfold Let_def)
  show "pm_rows (query_mobility (b, t) m) = Some rows"
    by (simp add: query_mobility_def InterpolatePosition_def InterpolateVelocity_def assms(2) rs
        case_prod_unfold Let_def)
  show "pool_mobility_ok (query_mobility (b, t) m)"
    using ok lin(2)
    by (simp add: pool_mobility_ok_def query_mobility_def InterpolatePosition_def
        InterpolateVelocity_def assms(2) rs case_prod_unfold Let_def)
qed

lemma fold_query_mobility:
  "pool_mobility_ok m \<Longrightarrow> pm_rows m = Some rows \<Longrightarrow>
     pool_mobility_ok (fold query_mobility qs m) \<and> pm_rows (fold query_mobility qs m) = Some rows"
proof (induction qs arbitrary: m)
  case (Cons q qs)
  obtain b t where "q = (b, t)" by (cases q)
  with Cons Interpolate_track(3,4) [OF Cons.prems] show ?case by simp
qed simp

lemma mobility_AssignVehicle_ok:
  assumes "mobility_AssignVehicle v (Some rows) m = Inr m'" "sorted (map row_timeS rows)"
  shows "pool_mobility_ok m'" "pm_rows m' = Some rows"
  using assms by (auto simp: mobility_AssignVehicle_def NotifyCourseChange_def pool_mobility_ok_def)

text \<open>C16: once a sorted track is assigned to a pool device, whatever positions and velocities were asked
  for before and in whatever order of times, the position and the velocity at a time are the linear
  interpolation of the track: the cached index never changes an answer. The coordinates stay within
  those of the track.\<close>

theorem pool_position_is_linear:
  assumes "mobility_AssignVehicle v (Some rows) m = Inr m'" "sorted (map row_timeS rows)"
  shows "fst (InterpolatePosition t (fold query_mobility qs m'))
      = vec (linear_at row_xM rows t) (linear_at row_yM rows t) 0
    \<and> fst (InterpolateVelocity t (fold query_mobility qs m'))
      = vec (linear_at row_vxMps rows t) (linear_at row_vyMps rows t) 0
    \<and> linear_at row_xM rows t \<in> {Min (row_xM ` set rows)..Max (row_xM ` set rows)}
    \<and> linear_at row_yM rows t \<in> {Min (row_yM ` set rows)..Max (row_yM ` set rows)}"
proof -
  note ok = mobility_AssignVehicle_ok [OF assms]
  have "rows \<noteq> []" using ok by (simp add: pool_mobility_ok_def)
  moreover note f = fold_query_mobility [OF ok, of qs]
  ultimately show ?thesis
    using Interpolate_track(1,2) f linear_at_bounds [OF assms(2)] by simp
qed

lemma sample_linear_at: "linear_at row_yM [sample_row 0 1 0, sample_row 10 1 50] 4 = 20"
  by (simp add: linear_at_def row_before_def sample_row_def)

theorem pool_position_is_linear_witness:
  "\<exists>m'. mobility_AssignVehicle 1 (Some [sample_row 0 1 0, sample_row 10 1 50]) pool_mobility_new = Inr m'
    \<and> vec_y (fst (InterpolatePosition 4 (fold query_mobility [(True, 9), (False, 1)] m'))) = 20"
proof -
  obtain m' where "mobility_AssignVehicle 1 (Some [sample_row 0 1 0, sample_row 10 1 50])
      pool_mobility_new = Inr m'"
    by (simp add: mobility_AssignVehicle_def)
  with pool_position_is_linear [OF this, of 4 "[(True, 9), (False, 1)]"] show ?thesis
    by (simp add: sample_linear_at) (simp add: sample_row_def)
qed

lemma linear_at_row:
  assumes "sorted_wrt (<) (map row_timeS rows)" "k < length rows"
  shows "linear_at f rows (row_timeS (rows ! k)) = f (rows ! k)"
proof -
  have ne: "rows \<noteq> []" using assms(2) by auto
  have mono: "row_timeS (rows ! i) < row_timeS (rows ! j)" if "i < j" "j < length rows" for i j
    using sorted_wrt_nth_less [OF assms(1), of i j] that by simp
  have srt: "sorted (map row_timeS rows)"
    using assms(1) strict_sorted_iff by blast
  consider "k = 0" | "k = length rows - 1" "0 < k" | "0 < k" "k + 1 < length rows"
    using assms(2) by linarith
  then show ?thesis
  proof cases
    case 1
    with ne show ?thesis by (simp add: linear_at_def hd_conv_nth)
  next
    case 2
    with mono [of 0 k] ne assms(2) show ?thesis
      by (simp add: linear_at_def hd_conv_nth last_conv_nth)
  next
    case 3
    have "row_before rows (row_timeS (rows ! k)) = k"
      using row_before_eqI [OF srt 3(2)] mono [of k "k + 1"] 3(2) by simp
    moreover have "k < length rows - 1" using 3 by linarith
    ultimately show ?thesis
      using mono [of 0 k] mono [of k "length rows - 1"] 3 ne
      by (simp add: linear_at_def hd_conv_nth last_conv_nth Let_def)
  qed
qed

text \<open>At the time of a row of a strictly increasing track the device is at the position of the row,
  whatever was asked for before: the interpolation passes through every recorded point.\<close>

theorem pool_position_at_rows:
  assumes "mobility_AssignVehicle v (Some rows) m = Inr m'" "sorted_wrt (<) (map row_timeS rows)"
    "k < length rows"
  shows "fst (InterpolatePosition (row_timeS (rows ! k)) (fold query_mobility qs m'))
    = vec (row_xM (rows ! k)) (row_yM (rows ! k)) 0"
proof -
  have srt: "sorted (map row_timeS rows)" using assms(2) strict_sorted_iff by blast
  note f = fold_query_mobility [OF mobility_AssignVehicle_ok [OF assms(1) srt], of qs]
  then show ?thesis
    using Interpolate_track(1) linear_at_row [OF assms(2,3)] by simp
qed

theorem pool_position_at_rows_witness:
  "\<exists>m'. mobility_AssignVehicle 1 (Some [sample_row 0 1 0, sample_row 10 1 50]) pool_mobility_new = Inr m'
    \<and> fst (InterpolatePosition 10 (fold query_mobility [(True, 3)] m')) = vec 0 50 0"
proof -
  obtain m' where "mobility_AssignVehicle 1 (Some [sample_row 0 1 0, sample_row 10 1 50])
      pool_mobility_new = Inr m'"
    by (simp add: mobility_AssignVehicle_def)
  with pool_position_at_rows [OF this, of 1 "[(True, 3)]"] show ?thesis
    by (simp add: sample_row_def)
qed

end
