(* ===== verification/VehicleData.thy ===== *)
theory VehicleData
  imports Trajectory
begin

text \<open>
  \<open>NgsimVehicleDataProvider\<close>: what a vehicle says about itself in its messages, computed from the
  mobility model of its device.

  The position and the velocity that the mobility model of the node reports are an argument,
  \<open>motion option\<close>; \<open>None\<close> is a node without mobility model. \<open>Simulator::Now()\<close> is an argument in
  nanoseconds. The numeric constants of the ETSI data dictionary come from headers of a third-party
  module and are the fields of the parameter \<open>etsi\<close>.
\<close>

section \<open>The state and the accessors\<close>

type_synonym motion = "vec3 \<times> vec3"

record vehicle_data =
  vd_travelledDistanceM :: double
  vd_lastHeadingDeg :: double
  vd_lastAccelerationSpeedMps :: double
  vd_lastAccelerationTime :: int
  vd_lastDistancePosition :: vec3

definition GetPositionVector :: "motion option \<Rightarrow> vec3" where
  "GetPositionVector mob = (case mob of None \<Rightarrow> vec 0 0 0 | Some m \<Rightarrow> fst m)"

definition GetVelocityVector :: "motion option \<Rightarrow> vec3" where
  "GetVelocityVector mob = (case mob of None \<Rightarrow> vec 0 0 0 | Some m \<Rightarrow> snd m)"

definition getSpeedValue :: "motion option \<Rightarrow> double" where
  "getSpeedValue mob =
     (let velocity = GetVelocityVector mob
      in sqrt (vec_x velocity * vec_x velocity + vec_y velocity * vec_y velocity))"

definition vehicle_data_new :: "int \<Rightarrow> motion option \<Rightarrow> vehicle_data" where
  "vehicle_data_new now mob =
     \<lparr>vd_travelledDistanceM = 0, vd_lastHeadingDeg = 0, vd_lastAccelerationSpeedMps = getSpeedValue mob,
      vd_lastAccelerationTime = now, vd_lastDistancePosition = GetPositionVector mob\<rparr>"

definition getTravelledDistance :: "motion option \<Rightarrow> vehicle_data \<Rightarrow> double \<times> vehicle_data" where
  "getTravelledDistance mob d =
     (let pos = GetPositionVector mob;
          travelled = vd_travelledDistanceM d + Distance2d pos (vd_lastDistancePosition d)
      in (travelled, d\<lparr>vd_travelledDistanceM := travelled, vd_lastDistancePosition := pos\<rparr>))"

section \<open>Heading\<close>

text \<open>The two loops that bring an angle into the circle.\<close>

function heading_up :: "double \<Rightarrow> double" where
  "heading_up h = (if h < 0 then heading_up (h + 360) else h)"
  by auto
termination by (relation "measure (\<lambda>h. nat \<lceil>- h\<rceil>)") auto

function heading_down :: "double \<Rightarrow> double" where
  "heading_down h = (if 360 \<le> h then heading_down (h - 360) else h)"
  by auto
termination by (relation "measure (\<lambda>h. nat \<lfloor>h\<rfloor>)") (auto simp: nat_less_eq_zless)

text \<open>\<open>std::atan2(y, x)\<close> away from the origin is the argument of \<open>x + i y\<close>.\<close>

definition atan2 :: "double \<Rightarrow> double \<Rightarrow> double" where
  "atan2 y x = Arg (Complex x y)"

definition getHeadingValue :: "motion option \<Rightarrow> vehicle_data \<Rightarrow> double \<times> vehicle_data" where
  "getHeadingValue mob d =
     (let velocity = GetVelocityVector mob
      in if \<bar>vec_x velocity\<bar> < 1 / 1000000000 \<and> \<bar>vec_y velocity\<bar> < 1 / 1000000000
         then (vd_lastHeadingDeg d, d)
         else let headingDeg = heading_down (heading_up (90 - atan2 (vec_y velocity) (vec_x velocity) * 180 / kPi))
              in (headingDeg, d\<lparr>vd_lastHeadingDeg := headingDeg\<rparr>))"

section \<open>Positions\<close>

definition DBL_MAX :: double where
  "DBL_MAX = (2 - 1 / 2 ^ 52) * 2 ^ 1023"

definition metersPerDegLon :: double where
  "metersPerDegLon = (let originLatRad = 37 * kPi / 180 in 111320 * cos originLatRad)"

text \<open>Latitude, longitude and altitude.\<close>

definition getPosition :: "motion option \<Rightarrow> double \<times> double \<times> double" where
  "getPosition mob =
     (let pos = GetPositionVector mob
      in (of_int (EncodeLatitudeFromLocalY (vec_y pos)) / kDotOneMicro,
          of_int (EncodeLongitudeFromLocalX (vec_x pos)) / kDotOneMicro, DBL_MAX))"

definition getPositionXY :: "motion option \<Rightarrow> vec3" where
  "getPositionXY mob = GetPositionVector mob"

definition getXY :: "double \<Rightarrow> double \<Rightarrow> vec3" where
  "getXY lon lat = vec ((lon - (- 122)) * metersPerDegLon) ((lat - 37) * 111320) DBL_MAX"

definition getCartesianDist :: "double \<Rightarrow> double \<Rightarrow> double \<Rightarrow> double \<Rightarrow> double" where
  "getCartesianDist lon1 lat1 lon2 lat2 =
     (let p1 = getXY lon1 lat1; p2 = getXY lon2 lat2; dx = vec_x p1 - vec_x p2; dy = vec_y p1 - vec_y p2
      in sqrt (dx * dx + dy * dy))"

definition getLanePosition :: "int option" where
  "getLanePosition = None"

definition getExteriorLights :: "u8 option" where
  "getExteriorLights = None"

section \<open>Mandatory data of the messages\<close>

record etsi =
  SpeedValue_standstill :: int
  SpeedValue_outOfRange :: int
  SpeedConfidence_unavailable :: int
  AltitudeValue_unavailable :: int
  AltitudeConfidence_unavailable :: int
  SemiAxisLength_unavailable :: int
  Wgs84AngleValue_unavailable :: int
  AccelerationValue_unavailable :: int
  AccelerationConfidence_unavailable :: int
  HeadingValue_doNotUse :: int
  HeadingConfidence_unavailable :: int
  DriveDirection_forward :: int
  CurvatureValue_unavailable :: int
  CurvatureConfidence_unavailable :: int
  CurvatureCalculationMode_unavailable :: int
  VehicleLengthConfidenceIndication_noTrailerPresent :: int
  YawRateValue_unavailable :: int
  YawRateConfidence_unavailable :: int

text \<open>A value with its confidence is a pair. The fields that the three messages share, and the lane.\<close>

record cpm_mandatory_data =
  md_speed :: "int \<times> int"
  md_longitude :: int
  md_latitude :: int
  md_altitude :: "int \<times> int"
  md_posConfidenceEllipse :: "int \<times> int \<times> int"
  md_longAcceleration :: "int \<times> int"
  md_heading :: "int \<times> int"
  md_driveDirection :: int
  md_curvature :: "int \<times> int"
  md_curvature_calculation_mode :: int
  md_VehicleLength :: "int \<times> int"
  md_VehicleWidth :: int
  md_yawRate :: "int \<times> int"

record cam_mandatory_data = cpm_mandatory_data +
  md_lane :: int

definition GetLongitudinalAccelerationValue ::
    "etsi \<Rightarrow> int \<Rightarrow> motion option \<Rightarrow> vehicle_data \<Rightarrow> int \<times> vehicle_data" where
  "GetLongitudinalAccelerationValue c now mob d =
     (let speedMps = getSpeedValue mob;
          dt = real_of_int (now - vd_lastAccelerationTime d) / 1000000000;
          accelerationValue =
            (if dt > 1 / 1000000000
             then ClampToLong ((speedMps - vd_lastAccelerationSpeedMps d) * 10) (- 160) 161
             else AccelerationValue_unavailable c)
      in (accelerationValue, d\<lparr>vd_lastAccelerationSpeedMps := speedMps, vd_lastAccelerationTime := now\<rparr>))"

definition getCAMMandatoryData ::
    "etsi \<Rightarrow> int \<Rightarrow> motion option \<Rightarrow> vehicle_data \<Rightarrow> cam_mandatory_data \<times> vehicle_data" where
  "getCAMMandatoryData c now mob d =
     (let pos = GetPositionVector mob;
          (accelerationValue, d1) = GetLongitudinalAccelerationValue c now mob d;
          (headingDeg, d2) = getHeadingValue mob d1
      in (\<lparr>md_speed = (ClampToLong (getSpeedValue mob * 100) (SpeedValue_standstill c) (SpeedValue_outOfRange c - 1),
             SpeedConfidence_unavailable c),
           md_longitude = EncodeLongitudeFromLocalX (vec_x pos),
           md_latitude = EncodeLatitudeFromLocalY (vec_y pos),
           md_altitude = (AltitudeValue_unavailable c, AltitudeConfidence_unavailable c),
           md_posConfidenceEllipse = (SemiAxisLength_unavailable c, SemiAxisLength_unavailable c, Wgs84AngleValue_unavailable c),
           md_longAcceleration = (accelerationValue, AccelerationConfidence_unavailable c),
           md_heading = (ClampToLong (headingDeg * 10) 0 (HeadingValue_doNotUse c - 1), HeadingConfidence_unavailable c),
           md_driveDirection = DriveDirection_forward c,
           md_curvature = (CurvatureValue_unavailable c, CurvatureConfidence_unavailable c),
           md_curvature_calculation_mode = CurvatureCalculationMode_unavailable c,
           md_VehicleLength = (45, VehicleLengthConfidenceIndication_noTrailerPresent c),
           md_VehicleWidth = 18,
           md_yawRate = (YawRateValue_unavailable c, YawRateConfidence_unavailable c),
           md_lane = 0\<rparr>, d2))"

definition getCPMMandatoryData ::
    "etsi \<Rightarrow> int \<Rightarrow> motion option \<Rightarrow> vehicle_data \<Rightarrow> cpm_mandatory_data \<times> vehicle_data" where
  "getCPMMandatoryData c now mob d =
     (let (cam, d') = getCAMMandatoryData c now mob d
      in (\<lparr>md_speed = md_speed cam, md_longitude = md_longitude cam, md_latitude = md_latitude cam,
           md_altitude = md_altitude cam, md_posConfidenceEllipse = md_posConfidenceEllipse cam,
           md_longAcceleration = md_longAcceleration cam, md_heading = md_heading cam,
           md_driveDirection = md_driveDirection cam, md_curvature = md_curvature cam,
           md_curvature_calculation_mode = md_curvature_calculation_mode cam,
           md_VehicleLength = md_VehicleLength cam, md_VehicleWidth = md_VehicleWidth cam,
           md_yawRate = md_yawRate cam\<rparr>, d'))"

definition getMCMMandatoryData ::
    "etsi \<Rightarrow> int \<Rightarrow> motion option \<Rightarrow> vehicle_data \<Rightarrow> cam_mandatory_data \<times> vehicle_data" where
  "getMCMMandatoryData c now mob d =
     (let (cam, d') = getCAMMandatoryData c now mob d
      in (\<lparr>md_speed = md_speed cam, md_longitude = md_longitude cam, md_latitude = md_latitude cam,
           md_altitude = md_altitude cam, md_posConfidenceEllipse = md_posConfidenceEllipse cam,
           md_longAcceleration = md_longAcceleration cam, md_heading = md_heading cam,
           md_driveDirection = md_driveDirection cam, md_curvature = md_curvature cam,
           md_curvature_calculation_mode = md_curvature_calculation_mode cam,
           md_VehicleLength = md_VehicleLength cam, md_VehicleWidth = md_VehicleWidth cam,
           md_yawRate = md_yawRate cam, md_lane = md_lane cam\<rparr>, d'))"

section \<open>Rounding\<close>

lemma llround_of_int [simp]: "llround (of_int n) = n"
  unfolding llround_def by (auto simp: floor_eq_iff)

lemma ClampToLong_bounds: "lo \<le> hi \<Longrightarrow> lo \<le> ClampToLong x lo hi \<and> ClampToLong x lo hi \<le> hi"
  using llround_mono [of "of_int lo" "max (of_int lo) (min (of_int hi) x)"]
    llround_mono [of "max (of_int lo) (min (of_int hi) x)" "of_int hi"]
  by (simp add: ClampToLong_def)

lemma ClampToLong_near: "of_int lo \<le> x \<Longrightarrow> x \<le> of_int hi \<Longrightarrow> \<bar>of_int (ClampToLong x lo hi) - x\<bar> \<le> 1 / 2"
proof -
  assume "of_int lo \<le> x" "x \<le> of_int hi"
  then have "ClampToLong x lo hi = llround x" by (simp add: ClampToLong_def)
  then show ?thesis using llround_near [of x] by arith
qed

section \<open>Headings stay in the circle\<close>

declare heading_up.simps [simp del] heading_down.simps [simp del]

lemma heading_up_ok: "0 \<le> heading_up h \<and> (\<exists>k::int. heading_up h = h + 360 * of_int k)"
proof (induction h rule: heading_up.induct)
  case (1 h)
  show ?case
  proof (cases "h < 0")
    case True
    then have eq: "heading_up h = heading_up (h + 360)" by (subst heading_up.simps) simp
    from 1 True obtain k :: int where "heading_up (h + 360) = h + 360 + 360 * of_int k" by blast
    then have "heading_up h = h + 360 * of_int (k + 1)" using eq by simp
    moreover have "0 \<le> heading_up h" using 1 True eq by simp
    ultimately show ?thesis by blast
  next
    case False
    then have "heading_up h = h" by (subst heading_up.simps) simp
    with False show ?thesis by (auto intro: exI [of _ 0])
  qed
qed

lemma heading_down_ok: "0 \<le> h \<Longrightarrow> 0 \<le> heading_down h \<and> heading_down h < 360 \<and> (\<exists>k::int. heading_down h = h + 360 * of_int k)"
proof (induction h rule: heading_down.induct)
  case (1 h)
  show ?case
  proof (cases "360 \<le> h")
    case True
    then have eq: "heading_down h = heading_down (h - 360)" by (subst heading_down.simps) simp
    have ih: "0 \<le> heading_down (h - 360) \<and> heading_down (h - 360) < 360 \<and> (\<exists>k::int. heading_down (h - 360) = h - 360 + 360 * of_int k)"
      using 1(1) True by simp
    then obtain k :: int where "heading_down (h - 360) = h - 360 + 360 * of_int k" by blast
    then have "heading_down h = h + 360 * of_int (k - 1)" using eq by simp
    with ih eq show ?thesis by metis
  next
    case False
    then have "heading_down h = h" by (subst heading_down.simps) simp
    with False 1(2) show ?thesis by (auto intro: exI [of _ 0])
  qed
qed

section \<open>What the vehicle says\<close>

text \<open>The heading loops end with an angle in \<open>[0, 360)\<close>. For a vehicle that moves it is the compass
  bearing of its velocity, up to full turns, and it is remembered; a vehicle that stands keeps the last one.\<close>

theorem heading_in_circle:
  assumes "0 \<le> vd_lastHeadingDeg d" "vd_lastHeadingDeg d < 360" "getHeadingValue mob d = (h, d')"
  shows "0 \<le> h \<and> h < 360 \<and> d' = d\<lparr>vd_lastHeadingDeg := h\<rparr>
    \<and> (let v = GetVelocityVector mob in
       if \<bar>vec_x v\<bar> < 1 / 1000000000 \<and> \<bar>vec_y v\<bar> < 1 / 1000000000 then h = vd_lastHeadingDeg d
       else \<exists>k::int. h = 90 - Arg (Complex (vec_x v) (vec_y v)) * 180 / kPi + 360 * of_int k)"
proof -
  define v where "v = GetVelocityVector mob"
  define b where "b = 90 - Arg (Complex (vec_x v) (vec_y v)) * 180 / kPi"
  have up: "0 \<le> heading_up b" using heading_up_ok by blast
  obtain k :: int where k: "heading_up b = b + 360 * of_int k" using heading_up_ok by blast
  obtain l :: int where l: "heading_down (heading_up b) = heading_up b + 360 * of_int l" using heading_down_ok [OF up] by blast
  have r: "0 \<le> heading_down (heading_up b)" "heading_down (heading_up b) < 360" using heading_down_ok [OF up] by auto
  have "heading_down (heading_up b) = b + 360 * of_int (k + l)" using k l by simp
  then have ex: "\<exists>k::int. heading_down (heading_up b) = b + 360 * of_int k" by blast
  show ?thesis
  proof (cases "\<bar>vec_x v\<bar> < 1 / 1000000000 \<and> \<bar>vec_y v\<bar> < 1 / 1000000000")
    case True
    then have "getHeadingValue mob d = (vd_lastHeadingDeg d, d)"
      unfolding getHeadingValue_def Let_def v_def [symmetric] by (rule if_P)
    then have "h = vd_lastHeadingDeg d" "d' = d" using assms(3) by auto
    with True assms(1,2) show ?thesis by (simp add: v_def [symmetric])
  next
    case False
    then have "h = heading_down (heading_up b)" "d' = d\<lparr>vd_lastHeadingDeg := h\<rparr>"
      using assms(3) by (auto simp: getHeadingValue_def v_def [symmetric] b_def atan2_def Let_def simp del: de_Morgan_conj)
    with r ex show ?thesis unfolding Let_def v_def [symmetric] b_def [symmetric] if_not_P [OF False] by simp
  qed
qed

lemma cos_origin_pos: "0 < cos (37 * kPi / 180)"
proof (rule cos_gt_zero_pi)
  have "37 * kPi / 180 < 1" "- 1 < 37 * kPi / 180" by (simp_all add: kPi_def)
  with pi_ge_two show "37 * kPi / 180 < pi / 2" "- (pi / 2) < 37 * kPi / 180" by linarith+
qed

text \<open>C38: the position that a vehicle reports in degrees, converted back to metres, is off by at most half a
  unit of 1e-7 degrees in each coordinate, less than 6 millimetres, everywhere in the encodable range.\<close>

theorem position_roundtrip:
  assumes "GetPositionVector mob = pos" "getPosition mob = (lat, lon, alt)"
    "\<bar>37 + vec_y pos / 111320\<bar> \<le> 90" "- 179.9999999 \<le> - 122 + vec_x pos / metersPerDegLon"
    "- 122 + vec_x pos / metersPerDegLon \<le> 180"
  shows "\<bar>vec_x (getXY lon lat) - vec_x pos\<bar> \<le> 0.006 \<and> \<bar>vec_y (getXY lon lat) - vec_y pos\<bar> \<le> 0.006"
proof
  let ?m = "metersPerDegLon"
  have m: "0 < ?m" "?m \<le> 111320" using cos_origin_pos by (simp_all add: metersPerDegLon_def)
  have lat: "lat = of_int (EncodeLatitudeFromLocalY (vec_y pos)) / 10000000"
    and lon: "lon = of_int (EncodeLongitudeFromLocalX (vec_x pos)) / 10000000"
    using assms(1,2) by (auto simp: getPosition_def kDotOneMicro_def)
  have near: "\<bar>e / 10000000 - y\<bar> \<le> 1 / 20000000" if "\<bar>e - y * 10000000\<bar> \<le> 1 / 2" for e y :: real
  proof -
    have "e / 10000000 - y = (e - y * 10000000) / 10000000" by (simp add: field_simps)
    then have "\<bar>e / 10000000 - y\<bar> = \<bar>e - y * 10000000\<bar> / 10000000"
      by (simp only: abs_divide abs_numeral)
    also have "\<dots> \<le> (1 / 2) / 10000000" using that by simp
    finally show ?thesis by simp
  qed
  let ?X = "- 122 + vec_x pos / ?m" and ?Y = "37 + vec_y pos / 111320"
  have "\<bar>of_int (EncodeLongitudeFromLocalX (vec_x pos)) - ?X * 10000000\<bar> \<le> 1 / 2"
    using ClampToLong_near [of "- 1799999999" "?X * 10000000" 1800000000] assms(4,5)
    by (simp add: EncodeLongitudeFromLocalX_def metersPerDegLon_def kDotOneMicro_def)
  from near [OF this] have X: "\<bar>lon - ?X\<bar> \<le> 1 / 20000000" by (simp add: lon)
  have "\<bar>of_int (EncodeLatitudeFromLocalY (vec_y pos)) - ?Y * 10000000\<bar> \<le> 1 / 2"
    using ClampToLong_near [of "- 900000000" "?Y * 10000000" 900000000] assms(3)
    by (simp add: EncodeLatitudeFromLocalY_def kDotOneMicro_def abs_le_iff)
  from near [OF this] have Y: "\<bar>lat - ?Y\<bar> \<le> 1 / 20000000" by (simp add: lat)
  have "vec_x (getXY lon lat) - vec_x pos = (lon - ?X) * ?m" using m by (simp add: getXY_def field_simps)
  then have "\<bar>vec_x (getXY lon lat) - vec_x pos\<bar> = \<bar>lon - ?X\<bar> * ?m" using m(1) by (simp add: abs_mult)
  also have "\<dots> \<le> (1 / 20000000) * 111320" using X m by (intro mult_mono) simp_all
  finally have "\<bar>vec_x (getXY lon lat) - vec_x pos\<bar> \<le> (1 / 20000000) * 111320" .
  then show "\<bar>vec_x (getXY lon lat) - vec_x pos\<bar> \<le> 0.006" by simp
  have "vec_y (getXY lon lat) - vec_y pos = (lat - ?Y) * 111320" by (simp add: getXY_def field_simps)
  then have "\<bar>vec_y (getXY lon lat) - vec_y pos\<bar> = \<bar>lat - ?Y\<bar> * 111320" by (simp only: abs_mult abs_numeral)
  also have "\<dots> \<le> (1 / 20000000) * 111320" using Y by (intro mult_right_mono) simp_all
  finally have "\<bar>vec_y (getXY lon lat) - vec_y pos\<bar> \<le> (1 / 20000000) * 111320" .
  then show "\<bar>vec_y (getXY lon lat) - vec_y pos\<bar> \<le> 0.006" by simp
qed

text \<open>A vehicle at (0, 20) that drives in the direction of y with 30 metres per second.\<close>

definition sample_motion :: "motion option" where
  "sample_motion = Some (vec 0 20 0, vec 0 30 0)"

theorem position_roundtrip_witness:
  "\<exists>lat lon alt. getPosition sample_motion = (lat, lon, alt)
     \<and> \<bar>vec_x (getXY lon lat) - 0\<bar> \<le> 0.006 \<and> \<bar>vec_y (getXY lon lat) - 20\<bar> \<le> 0.006"
proof -
  obtain lat lon alt where p: "getPosition sample_motion = (lat, lon, alt)" by (cases "getPosition sample_motion")
  with position_roundtrip [of sample_motion "vec 0 20 0", OF _ p] p show ?thesis
    by (simp add: sample_motion_def GetPositionVector_def)
qed

theorem heading_in_circle_witness:
  "\<exists>h d'. getHeadingValue sample_motion (vehicle_data_new 0 sample_motion) = (h, d') \<and> 0 \<le> h \<and> h < 360"
proof -
  obtain h d' where r: "getHeadingValue sample_motion (vehicle_data_new 0 sample_motion) = (h, d')" by force
  with heading_in_circle [OF _ _ r] show ?thesis by (simp add: vehicle_data_new_def)
qed

text \<open>Two readings at distinct times report the difference of the speeds, not the acceleration: the
  difference is not divided by the time between the readings, so a constant acceleration \<open>a\<close> is reported
  in the unit of the field, a tenth of a metre per square second, as \<open>a\<close> times the length of the interval.
  Every braking with 8 metres per square second, read ten times a second, is reported as 0.8.\<close>

theorem acceleration_not_per_second:
  assumes "vd_lastAccelerationTime d < now - 1" "dt = of_int (now - vd_lastAccelerationTime d) / 1000000000"
    "getSpeedValue mob = vd_lastAccelerationSpeedMps d + a * dt" "\<bar>a * dt\<bar> \<le> 16"
  shows "\<bar>of_int (fst (GetLongitudinalAccelerationValue c now mob d)) - 10 * (a * dt)\<bar> \<le> 1 / 2"
proof -
  have "1 / 1000000000 < dt" using assms(1,2) by (simp add: divide_strict_right_mono)
  then have "fst (GetLongitudinalAccelerationValue c now mob d) = ClampToLong ((a * dt) * 10) (- 160) 161"
    using assms(2,3) by (simp add: GetLongitudinalAccelerationValue_def Let_def)
  with ClampToLong_near [of "- 160" "(a * dt) * 10" 161] assms(4) show ?thesis by (simp add: mult.commute abs_le_iff)
qed

definition sample_etsi :: etsi where
  "sample_etsi = \<lparr>SpeedValue_standstill = 0, SpeedValue_outOfRange = 16382, SpeedConfidence_unavailable = 127,
     AltitudeValue_unavailable = 800001, AltitudeConfidence_unavailable = 15, SemiAxisLength_unavailable = 4095,
     Wgs84AngleValue_unavailable = 3601, AccelerationValue_unavailable = 161, AccelerationConfidence_unavailable = 102,
     HeadingValue_doNotUse = 3600, HeadingConfidence_unavailable = 127, DriveDirection_forward = 0,
     CurvatureValue_unavailable = 1023, CurvatureConfidence_unavailable = 7, CurvatureCalculationMode_unavailable = 2,
     VehicleLengthConfidenceIndication_noTrailerPresent = 0, YawRateValue_unavailable = 32767,
     YawRateConfidence_unavailable = 8\<rparr>"

theorem acceleration_not_per_second_witness:
  "\<bar>of_int (fst (GetLongitudinalAccelerationValue sample_etsi 100000000 (Some (vec 0 0 0, vec 0 (292 / 10) 0))
      (vehicle_data_new 0 sample_motion))) + (8 :: real)\<bar> \<le> 1 / 2"
proof -
  define mob where "mob = Some (vec 0 0 0, vec 0 (292 / 10) 0)"
  define d where "d = vehicle_data_new 0 sample_motion"
  have m: "vd_lastAccelerationTime d = 0" "vd_lastAccelerationSpeedMps d = 30" "getSpeedValue mob = 292 / 10"
    using real_sqrt_abs2 [of "292 / 10"]
    by (simp_all add: mob_def d_def vehicle_data_new_def getSpeedValue_def GetVelocityVector_def sample_motion_def)
  show ?thesis
    using acceleration_not_per_second [of d 100000000 "1 / 10" mob "- 8" sample_etsi]
    unfolding mob_def [symmetric] d_def [symmetric] by (simp add: m)
qed

text \<open>With the constants of the data dictionary in order, every field of a message is in its range, and
  the messages of the three kinds report the same values.\<close>

theorem mandatory_data_in_range:
  assumes "SpeedValue_standstill c < SpeedValue_outOfRange c" "0 < HeadingValue_doNotUse c"
    "getCAMMandatoryData c now mob d = (cam, d')"
  shows "SpeedValue_standstill c \<le> fst (md_speed cam) \<and> fst (md_speed cam) < SpeedValue_outOfRange c
    \<and> 0 \<le> fst (md_heading cam) \<and> fst (md_heading cam) < HeadingValue_doNotUse c
    \<and> \<bar>md_latitude cam\<bar> \<le> 900000000 \<and> - 1800000000 < md_longitude cam \<and> md_longitude cam \<le> 1800000000
    \<and> (fst (md_longAcceleration cam) = AccelerationValue_unavailable c \<or> fst (md_longAcceleration cam) \<in> {- 160..161})
    \<and> getMCMMandatoryData c now mob d = (cam, d')
    \<and> getCPMMandatoryData c now mob d = (cpm_mandatory_data.truncate cam, d')"
proof -
  have a: "fst (GetLongitudinalAccelerationValue c now mob d) = AccelerationValue_unavailable c
      \<or> fst (GetLongitudinalAccelerationValue c now mob d) \<in> {- 160..161}"
    by (simp add: GetLongitudinalAccelerationValue_def Let_def ClampToLong_bounds)
  have f: "md_speed cam = (ClampToLong (getSpeedValue mob * 100) (SpeedValue_standstill c) (SpeedValue_outOfRange c - 1), SpeedConfidence_unavailable c)"
    "\<exists>h. fst (md_heading cam) = ClampToLong (h * 10) 0 (HeadingValue_doNotUse c - 1)"
    "md_latitude cam = EncodeLatitudeFromLocalY (vec_y (GetPositionVector mob))"
    "md_longitude cam = EncodeLongitudeFromLocalX (vec_x (GetPositionVector mob))"
    "fst (md_longAcceleration cam) = fst (GetLongitudinalAccelerationValue c now mob d)"
    using assms(3) by (auto simp: getCAMMandatoryData_def Let_def split: prod.splits)
  have "getMCMMandatoryData c now mob d = (cam, d') \<and> getCPMMandatoryData c now mob d = (cpm_mandatory_data.truncate cam, d')"
    using assms(3) by (simp add: getMCMMandatoryData_def getCPMMandatoryData_def cpm_mandatory_data.truncate_def)
  moreover have "SpeedValue_standstill c \<le> fst (md_speed cam) \<and> fst (md_speed cam) < SpeedValue_outOfRange c"
    using ClampToLong_bounds [of "SpeedValue_standstill c" "SpeedValue_outOfRange c - 1" "getSpeedValue mob * 100"]
      assms(1) f(1) by simp
  moreover have "0 \<le> fst (md_heading cam) \<and> fst (md_heading cam) < HeadingValue_doNotUse c"
    using ClampToLong_bounds [of 0 "HeadingValue_doNotUse c - 1"] assms(2) f(2) by fastforce
  moreover
  have "\<bar>ClampToLong x (- 900000000) 900000000\<bar> \<le> 900000000" for x
    using ClampToLong_bounds [of "- 900000000" 900000000 x] by (simp add: abs_le_iff)
  then have "\<bar>md_latitude cam\<bar> \<le> 900000000"
    unfolding f(3) EncodeLatitudeFromLocalY_def Let_def by blast
  moreover
  have "- 1800000000 < ClampToLong x (- 1799999999) 1800000000 \<and> ClampToLong x (- 1799999999) 1800000000 \<le> 1800000000" for x
    using ClampToLong_bounds [of "- 1799999999" 1800000000 x] by simp
  then have "- 1800000000 < md_longitude cam \<and> md_longitude cam \<le> 1800000000"
    unfolding f(4) EncodeLongitudeFromLocalX_def Let_def by blast
  ultimately show ?thesis using a f(5) by simp
qed

theorem mandatory_data_in_range_witness:
  "\<exists>cam d'. getCAMMandatoryData sample_etsi 0 sample_motion (vehicle_data_new 0 sample_motion) = (cam, d')
     \<and> fst (md_speed cam) < 16382 \<and> fst (md_heading cam) < 3600"
proof -
  obtain cam d' where r: "getCAMMandatoryData sample_etsi 0 sample_motion (vehicle_data_new 0 sample_motion) = (cam, d')" by force
  with mandatory_data_in_range [OF _ _ r] show ?thesis by (simp add: sample_etsi_def)
qed

end
