(* ===== verification/TagBuffer.thy ===== *)
theory TagBuffer
  imports V2xPrelude
begin

unbundle bit_operations_syntax

text \<open>
  The byte buffer of packet tags (\<open>src/network/model/tag-buffer.cc\<close>) and the tag the scenario puts
  on every CAM (\<open>KpiPacketTag\<close>). A buffer is the memory it points into with two positions; a
  \<open>TagBuffer\<close> passed by value shares that memory, so writing returns the memory. A failed
  assertion is \<open>None\<close>. \<open>int64_t\<close> is a 64-bit word read as a signed number.
\<close>

section \<open>The buffer\<close>

record tag_buffer =
  tb_mem :: "u8 list"
  tb_current :: nat
  tb_end :: nat

definition WriteU8 :: "u8 \<Rightarrow> tag_buffer \<Rightarrow> tag_buffer option" where
  "WriteU8 v b =
     (if tb_current b + 1 \<le> tb_end b
      then Some (b\<lparr>tb_mem := (tb_mem b)[tb_current b := v], tb_current := tb_current b + 1\<rparr>)
      else None)"

definition ReadU8 :: "tag_buffer \<Rightarrow> (u8 \<times> tag_buffer) option" where
  "ReadU8 b =
     (if tb_current b + 1 \<le> tb_end b
      then Some (tb_mem b ! tb_current b, b\<lparr>tb_current := tb_current b + 1\<rparr>)
      else None)"

text \<open>\<open>Write\<close> calls \<open>WriteU8\<close> for each byte; so do the integer writers, on the bytes of the number.\<close>

primrec tb_Write :: "u8 list \<Rightarrow> tag_buffer \<Rightarrow> tag_buffer option" where
  "tb_Write [] b = Some b"
| "tb_Write (v # vs) b = Option.bind (WriteU8 v b) (tb_Write vs)"

primrec read_bytes :: "nat \<Rightarrow> tag_buffer \<Rightarrow> (u8 list \<times> tag_buffer) option" where
  "read_bytes 0 b = Some ([], b)"
| "read_bytes (Suc n) b = Option.bind (ReadU8 b) (\<lambda>(v, b1).
     Option.bind (read_bytes n b1) (\<lambda>(vs, b2). Some (v # vs, b2)))"

definition byte_at :: "nat \<Rightarrow> 'a::len word \<Rightarrow> u8" where
  \<comment> \<open>\<open>(data >> 8 * i) & 0xff\<close>\<close>
  "byte_at i data = ucast (drop_bit (8 * i) data AND 0xff)"

definition WriteU16 :: "u16 \<Rightarrow> tag_buffer \<Rightarrow> tag_buffer option" where
  "WriteU16 data b = tb_Write [byte_at 0 data, byte_at 1 data] b"

definition WriteU32 :: "u32 \<Rightarrow> tag_buffer \<Rightarrow> tag_buffer option" where
  "WriteU32 data b = tb_Write [byte_at 0 data, byte_at 1 data, byte_at 2 data, byte_at 3 data] b"

definition WriteU64 :: "u64 \<Rightarrow> tag_buffer \<Rightarrow> tag_buffer option" where
  "WriteU64 data b = tb_Write [byte_at 0 data, byte_at 1 data, byte_at 2 data, byte_at 3 data,
     byte_at 4 data, byte_at 5 data, byte_at 6 data, byte_at 7 data] b"

definition shift_in :: "u8 \<Rightarrow> 'a::len word \<Rightarrow> 'a word" where
  \<comment> \<open>\<open>data <<= 8; data |= byte\<close>\<close>
  "shift_in byte data = push_bit 8 data OR ucast byte"

definition ReadU16 :: "tag_buffer \<Rightarrow> (u16 \<times> tag_buffer) option" where
  "ReadU16 b = Option.bind (read_bytes 2 b) (\<lambda>(bs, b').
     Some (shift_in (bs ! 0) (ucast (bs ! 1)), b'))"

definition ReadU32 :: "tag_buffer \<Rightarrow> (u32 \<times> tag_buffer) option" where
  "ReadU32 b = Option.bind (read_bytes 4 b) (\<lambda>(bs, b').
     Some (shift_in (bs ! 0) (shift_in (bs ! 1) (shift_in (bs ! 2) (ucast (bs ! 3)))), b'))"

definition ReadU64 :: "tag_buffer \<Rightarrow> (u64 \<times> tag_buffer) option" where
  "ReadU64 b = Option.bind (read_bytes 8 b) (\<lambda>(bs, b').
     Some (shift_in (bs ! 0) (shift_in (bs ! 1) (shift_in (bs ! 2) (shift_in (bs ! 3)
       (shift_in (bs ! 4) (shift_in (bs ! 5) (shift_in (bs ! 6) (ucast (bs ! 7)))))))), b'))"

definition tb_Read :: "nat \<Rightarrow> tag_buffer \<Rightarrow> (u8 list \<times> tag_buffer) option" where
  "tb_Read sz b =
     (if tb_current b + sz \<le> tb_end b
      then Some (take sz (drop (tb_current b) (tb_mem b)), b\<lparr>tb_current := tb_current b + sz\<rparr>)
      else None)"

text \<open>A \<open>double\<close> is copied as the bytes of its object representation, which depends on the platform:
  \<open>rep\<close> gives the bytes of a number and \<open>unrep\<close> the number of eight bytes.\<close>

definition WriteDouble :: "(double \<Rightarrow> u8 list) \<Rightarrow> double \<Rightarrow> tag_buffer \<Rightarrow> tag_buffer option" where
  "WriteDouble rep v b = tb_Write (rep v) b"

definition ReadDouble :: "(u8 list \<Rightarrow> double) \<Rightarrow> tag_buffer \<Rightarrow> (double \<times> tag_buffer) option" where
  "ReadDouble unrep b = Option.bind (read_bytes 8 b) (\<lambda>(bs, b'). Some (unrep bs, b'))"

definition tb_new :: "u8 list \<Rightarrow> nat \<Rightarrow> nat \<Rightarrow> tag_buffer" where
  "tb_new mem start stop = \<lparr>tb_mem = mem, tb_current = start, tb_end = stop\<rparr>"

definition TrimAtEnd :: "nat \<Rightarrow> tag_buffer \<Rightarrow> tag_buffer option" where
  "TrimAtEnd trim b =
     (if tb_current b + trim \<le> tb_end b then Some (b\<lparr>tb_end := tb_end b - trim\<rparr>) else None)"

definition tb_CopyFrom :: "tag_buffer \<Rightarrow> tag_buffer \<Rightarrow> tag_buffer option" where
  "tb_CopyFrom o' b =
     (let sz = tb_end o' - tb_current o' in
      if tb_current o' \<le> tb_end o' \<and> tb_current b \<le> tb_end b \<and> sz \<le> tb_end b - tb_current b
      then Some (b\<lparr>tb_mem := take (tb_current b) (tb_mem b) @ take sz (drop (tb_current o') (tb_mem o'))
                     @ drop (tb_current b + sz) (tb_mem b),
                   tb_current := tb_current b + sz\<rparr>)
      else None)"

definition tb_ok :: "tag_buffer \<Rightarrow> bool" where
  "tb_ok b \<longleftrightarrow> tb_current b \<le> tb_end b \<and> tb_end b \<le> length (tb_mem b)"

section \<open>The tag of a CAM\<close>

record kpi_tag =
  kt_sequence :: u64
  kt_txTimeNs :: u64
  kt_txVehicleId :: u32

definition kpi_tag_new :: kpi_tag where
  "kpi_tag_new = \<lparr>kt_sequence = 0, kt_txTimeNs = 0, kt_txVehicleId = - 1\<rparr>"

definition kt_GetSerializedSize :: nat where
  "kt_GetSerializedSize = 20"

definition kt_Serialize :: "kpi_tag \<Rightarrow> tag_buffer \<Rightarrow> tag_buffer option" where
  "kt_Serialize tag i =
     Option.bind (WriteU64 (kt_sequence tag) i) (\<lambda>i.
     Option.bind (WriteU64 (kt_txTimeNs tag) i) (\<lambda>i.
       WriteU32 (kt_txVehicleId tag) i))"

definition kt_Deserialize :: "tag_buffer \<Rightarrow> kpi_tag option" where
  "kt_Deserialize i =
     Option.bind (ReadU64 i) (\<lambda>(sequence, i).
     Option.bind (ReadU64 i) (\<lambda>(txTimeNs, i).
     Option.bind (ReadU32 i) (\<lambda>(txVehicleId, i).
       Some \<lparr>kt_sequence = sequence, kt_txTimeNs = txTimeNs, kt_txVehicleId = txVehicleId\<rparr>)))"

section \<open>Bytes of a number\<close>

lemma bit_255_int: "bit (255 :: int) n \<longleftrightarrow> n < 8"
proof -
  have m: "(255 :: int) = mask 8" by (simp add: mask_eq_exp_minus_1)
  show ?thesis unfolding m bit_mask_iff by auto
qed

lemma rejoin_byte:
  fixes x :: "'a::len word"
  shows "shift_in (byte_at i x) (drop_bit (8 * Suc i) x) = drop_bit (8 * i) x"
  unfolding shift_in_def
proof (rule bit_word_eqI)
  fix n
  assume n: "n < LENGTH('a)"
  show "bit (push_bit 8 (drop_bit (8 * Suc i) x) OR ucast (byte_at i x)) n = bit (drop_bit (8 * i) x) n"
  proof (cases "n < 8")
    case True
    with n show ?thesis
      by (auto simp: byte_at_def bit_simps bit_255_int dest: bit_imp_le_length)
  next
    case False
    then obtain m where "n = 8 + m" using le_Suc_ex [of 8 n] by auto
    with n show ?thesis
      by (auto simp: byte_at_def bit_simps bit_255_int ac_simps dest: bit_imp_le_length)
  qed
qed

lemma top_byte:
  fixes x :: "'a::len word"
  assumes "LENGTH('a) = 8 * Suc i"
  shows "ucast (byte_at i x) = drop_bit (8 * i) x"
proof (rule bit_word_eqI)
  fix n
  assume "n < LENGTH('a)"
  with assms show "bit (ucast (byte_at i x) :: 'a word) n = bit (drop_bit (8 * i) x) n"
    by (auto simp: byte_at_def bit_simps bit_255_int dest: bit_imp_le_length)
qed

lemma join_u32: "shift_in (byte_at 0 x) (shift_in (byte_at 1 x) (shift_in (byte_at 2 x)
    (ucast (byte_at 3 x)))) = (x :: u32)"
  using rejoin_byte [of 0 x] rejoin_byte [of 1 x] rejoin_byte [of 2 x] top_byte [of 3 x]
  by simp

lemma join_u64: "shift_in (byte_at 0 x) (shift_in (byte_at 1 x) (shift_in (byte_at 2 x)
    (shift_in (byte_at 3 x) (shift_in (byte_at 4 x) (shift_in (byte_at 5 x) (shift_in (byte_at 6 x)
    (ucast (byte_at 7 x)))))))) = (x :: u64)"
  using rejoin_byte [of 0 x] rejoin_byte [of 1 x] rejoin_byte [of 2 x] rejoin_byte [of 3 x]
    rejoin_byte [of 4 x] rejoin_byte [of 5 x] rejoin_byte [of 6 x] top_byte [of 7 x]
  by simp

section \<open>Writing and reading\<close>

text \<open>What a sequence of writes does to the memory.\<close>

definition put_bytes :: "nat \<Rightarrow> u8 list \<Rightarrow> u8 list \<Rightarrow> u8 list" where
  "put_bytes p vs mem = take p mem @ vs @ drop (p + length vs) mem"

lemma put_bytes_Cons:
  assumes "p < length mem"
  shows "put_bytes (Suc p) vs (mem[p := v]) = put_bytes p (v # vs) mem"
proof -
  have "take (Suc p) (mem[p := v]) = take p mem @ [v]"
    using assms by (simp add: take_Suc_conv_app_nth)
  then show ?thesis by (simp add: put_bytes_def)
qed

lemma tb_Write_eq:
  "tb_ok b \<Longrightarrow> tb_current b + length vs \<le> tb_end b \<Longrightarrow>
     tb_Write vs b = Some (b\<lparr>tb_mem := put_bytes (tb_current b) vs (tb_mem b),
                             tb_current := tb_current b + length vs\<rparr>)"
proof (induction vs arbitrary: b)
  case (Cons v vs)
  let ?b = "b\<lparr>tb_mem := (tb_mem b)[tb_current b := v], tb_current := tb_current b + 1\<rparr>"
  have "tb_ok ?b" using Cons.prems by (auto simp: tb_ok_def)
  then have "tb_Write vs ?b = Some (?b\<lparr>tb_mem := put_bytes (tb_current ?b) vs (tb_mem ?b),
      tb_current := tb_current ?b + length vs\<rparr>)"
    using Cons.prems by (intro Cons.IH) auto
  moreover have "tb_current b < length (tb_mem b)"
    using Cons.prems by (auto simp: tb_ok_def)
  ultimately show ?case
    using Cons.prems by (simp add: WriteU8_def put_bytes_Cons)
qed (simp add: put_bytes_def)

lemma read_bytes_eq:
  "tb_current b + n \<le> tb_end b \<Longrightarrow> tb_end b \<le> length (tb_mem b) \<Longrightarrow>
     read_bytes n b = Some (take n (drop (tb_current b) (tb_mem b)), b\<lparr>tb_current := tb_current b + n\<rparr>)"
proof (induction n arbitrary: b)
  case (Suc n)
  let ?b = "b\<lparr>tb_current := tb_current b + 1\<rparr>"
  have "read_bytes n ?b = Some (take n (drop (tb_current ?b) (tb_mem ?b)), ?b\<lparr>tb_current := tb_current ?b + n\<rparr>)"
    using Suc.prems by (intro Suc.IH) auto
  moreover have "drop (tb_current b) (tb_mem b) = tb_mem b ! tb_current b # drop (Suc (tb_current b)) (tb_mem b)"
    using Suc.prems by (simp add: Cons_nth_drop_Suc)
  ultimately show ?case
    using Suc.prems by (simp add: ReadU8_def)
qed simp

lemma double_roundtrip:
  assumes "\<And>v. length (rep v) = 8" "\<And>v. unrep (rep v) = v" "tb_ok b" "tb_current b + 8 \<le> tb_end b"
  shows "\<exists>b'. WriteDouble rep v b = Some b'
    \<and> ReadDouble unrep (b'\<lparr>tb_current := tb_current b\<rparr>) = Some (v, b')"
proof -
  let ?m = "put_bytes (tb_current b) (rep v) (tb_mem b)"
  have len: "tb_current b + 8 \<le> length (tb_mem b)" using assms(3,4) by (simp add: tb_ok_def)
  have "WriteDouble rep v b = Some (b\<lparr>tb_mem := ?m, tb_current := tb_current b + 8\<rparr>)"
    using tb_Write_eq [of b "rep v"] assms by (simp add: WriteDouble_def)
  moreover have "read_bytes 8 (b\<lparr>tb_mem := ?m\<rparr>) = Some (rep v, b\<lparr>tb_mem := ?m, tb_current := tb_current b + 8\<rparr>)"
    using assms len by (subst read_bytes_eq) (simp_all add: put_bytes_def tb_ok_def)
  moreover have "b\<lparr>tb_mem := ?m, tb_current := tb_current b\<rparr> = b\<lparr>tb_mem := ?m\<rparr>" by simp
  ultimately show ?thesis using assms(2) by (simp add: ReadDouble_def)
qed

text \<open>The bytes of a whole tag, in the order they are written.\<close>

definition tag_bytes :: "kpi_tag \<Rightarrow> u8 list" where
  "tag_bytes tag =
     map (\<lambda>i. byte_at i (kt_sequence tag)) [0..<8] @ map (\<lambda>i. byte_at i (kt_txTimeNs tag)) [0..<8]
     @ map (\<lambda>i. byte_at i (kt_txVehicleId tag)) [0..<4]"

lemma tb_Write_append: "tb_Write (us @ vs) b = Option.bind (tb_Write us b) (tb_Write vs)"
  by (induction us arbitrary: b) (auto simp: Option.bind_assoc intro!: Option.bind_cong)

lemma Write_words:
  "WriteU64 x b = tb_Write (map (\<lambda>i. byte_at i x) [0..<8]) b"
  "WriteU32 y b = tb_Write (map (\<lambda>i. byte_at i y) [0..<4]) b"
  by (simp_all add: WriteU64_def WriteU32_def upt_rec numeral_eq_Suc del: tb_Write.simps)

lemma kt_Serialize_bytes: "kt_Serialize tag b = tb_Write (tag_bytes tag) b"
  unfolding kt_Serialize_def tag_bytes_def Write_words tb_Write_append by (simp add: Option.bind_assoc)

lemma length_tag_bytes [simp]: "length (tag_bytes tag) = 20"
  by (simp add: tag_bytes_def)

lemma ReadU64_at:
  assumes "take 8 (drop (tb_current b) (tb_mem b)) = map (\<lambda>i. byte_at i x) [0..<8]"
    "tb_current b + 8 \<le> tb_end b" "tb_end b \<le> length (tb_mem b)"
  shows "ReadU64 b = Some (x, b\<lparr>tb_current := tb_current b + 8\<rparr>)"
proof -
  have "map (\<lambda>i. byte_at i x) [0..<8] ! k = byte_at k x" if "k < 8" for k
    using that by simp
  then show ?thesis
    unfolding ReadU64_def read_bytes_eq [OF assms(2,3)] assms(1) 
    using join_u64 [of x] by (simp add: numeral_2_eq_2)
qed

lemma ReadU32_at:
  assumes "take 4 (drop (tb_current b) (tb_mem b)) = map (\<lambda>i. byte_at i x) [0..<4]"
    "tb_current b + 4 \<le> tb_end b" "tb_end b \<le> length (tb_mem b)"
  shows "ReadU32 b = Some (x, b\<lparr>tb_current := tb_current b + 4\<rparr>)"
proof -
  have "map (\<lambda>i. byte_at i x) [0..<4] ! k = byte_at k x" if "k < 4" for k
    using that by simp
  then show ?thesis
    unfolding ReadU32_def read_bytes_eq [OF assms(2,3)] assms(1) 
    using join_u32 [of x] by (simp add: numeral_2_eq_2)
qed

lemma kt_Deserialize_bytes:
  assumes "take 20 (drop c m) = tag_bytes tag" "c + 20 \<le> e" "e \<le> length m"
  shows "kt_Deserialize \<lparr>tb_mem = m, tb_current = c, tb_end = e\<rparr> = Some tag"
proof -
  have at: "take n (drop (c + k) m) = take n (drop k (tag_bytes tag))" if "k + n \<le> 20" for k n
    unfolding assms(1) [symmetric] using that by (simp add: drop_take min_def add.commute)
  have b8: "take 8 (drop c m) = map (\<lambda>i. byte_at i (kt_sequence tag)) [0..<8]"
    "take 8 (drop (c + 8) m) = map (\<lambda>i. byte_at i (kt_txTimeNs tag)) [0..<8]"
    "take 4 (drop (c + 16) m) = map (\<lambda>i. byte_at i (kt_txVehicleId tag)) [0..<4]"
    using at [of 0 8] at [of 8 8] at [of 16 4] by (simp_all add: tag_bytes_def)
  let ?r = "\<lambda>k. \<lparr>tb_mem = m, tb_current = c + k, tb_end = e\<rparr>"
  have "ReadU64 (?r 0) = Some (kt_sequence tag, ?r 8)"
    using ReadU64_at [of "?r 0" "kt_sequence tag"] b8(1) assms by simp
  moreover have "ReadU64 (?r 8) = Some (kt_txTimeNs tag, ?r 16)"
    using ReadU64_at [of "?r 8" "kt_txTimeNs tag"] b8(2) assms by simp
  moreover have "ReadU32 (?r 16) = Some (kt_txVehicleId tag, ?r 20)"
    using ReadU32_at [of "?r 16" "kt_txVehicleId tag"] b8(3) assms by simp
  ultimately show ?thesis by (simp add: kt_Deserialize_def)
qed

text \<open>C30: a tag written into a buffer with room for its twenty bytes is read back from the same place
  unchanged, and writing it touches no byte outside those twenty.\<close>

theorem kpi_tag_roundtrip:
  assumes "tb_ok b" "tb_current b + kt_GetSerializedSize \<le> tb_end b"
  shows "\<exists>b'. kt_Serialize tag b = Some b' \<and> tb_current b' = tb_current b + kt_GetSerializedSize
    \<and> kt_Deserialize (b'\<lparr>tb_current := tb_current b\<rparr>) = Some tag
    \<and> take (tb_current b) (tb_mem b') = take (tb_current b) (tb_mem b)
    \<and> drop (tb_current b + 20) (tb_mem b') = drop (tb_current b + 20) (tb_mem b)"
proof -
  let ?c = "tb_current b"
  let ?m = "put_bytes ?c (tag_bytes tag) (tb_mem b)"
  have len: "?c + 20 \<le> tb_end b" "tb_end b \<le> length (tb_mem b)"
    using assms by (simp_all add: kt_GetSerializedSize_def tb_ok_def)
  have w: "kt_Serialize tag b = Some (b\<lparr>tb_mem := ?m, tb_current := ?c + 20\<rparr>)"
    using tb_Write_eq [OF assms(1), of "tag_bytes tag"] len by (simp add: kt_Serialize_bytes)
  have "take 20 (drop ?c ?m) = tag_bytes tag" using len by (simp add: put_bytes_def)
  moreover have "length ?m = length (tb_mem b)" using len by (simp add: put_bytes_def)
  ultimately have "kt_Deserialize \<lparr>tb_mem = ?m, tb_current = ?c, tb_end = tb_end b\<rparr> = Some tag"
    using len by (intro kt_Deserialize_bytes) simp_all
  moreover have "b\<lparr>tb_mem := ?m, tb_current := ?c\<rparr> = \<lparr>tb_mem = ?m, tb_current = ?c, tb_end = tb_end b\<rparr>"
    by simp
  ultimately have "kt_Deserialize (b\<lparr>tb_mem := ?m, tb_current := ?c\<rparr>) = Some tag" by (simp only:)
  then show ?thesis
    using w len by (simp add: kt_GetSerializedSize_def put_bytes_def)
qed

theorem kpi_tag_roundtrip_witness:
  "\<exists>b'. kt_Serialize \<lparr>kt_sequence = 7, kt_txTimeNs = 5, kt_txVehicleId = 3\<rparr>
        \<lparr>tb_mem = replicate 24 0, tb_current = 2, tb_end = 24\<rparr> = Some b'
    \<and> kt_Deserialize (b'\<lparr>tb_current := 2\<rparr>)
        = Some \<lparr>kt_sequence = 7, kt_txTimeNs = 5, kt_txVehicleId = 3\<rparr>"
proof -
  let ?b = "\<lparr>tb_mem = replicate 24 0, tb_current = 2, tb_end = 24\<rparr>"
  have "tb_ok ?b" "tb_current ?b + kt_GetSerializedSize \<le> tb_end ?b"
    by (simp_all add: tb_ok_def kt_GetSerializedSize_def)
  from kpi_tag_roundtrip [OF this, of "\<lparr>kt_sequence = 7, kt_txTimeNs = 5, kt_txVehicleId = 3\<rparr>"]
  show ?thesis by (elim exE conjE) (intro exI conjI, assumption, simp)
qed
end
