(* ===== verification/SharedLists.thy ===== *)
theory SharedLists
  imports V2xPrelude
begin

text \<open>
  Linked lists with shared tails, seen through their \<open>next\<close> pointers alone: paths, the multiset of
  all pointers, and the shape invariant \<open>shape_ok\<close> (the lists of the roots end, and together they
  contain every node). The lemmas say what redirecting one pointer of one list does to the others,
  when the nodes in front of it belong to that list only.
\<close>

section \<open>Paths and pointers\<close>

type_synonym addr = nat
type_synonym ptr = "addr option"

primrec path :: "(addr \<rightharpoonup> ptr) \<Rightarrow> ptr \<Rightarrow> addr list \<Rightarrow> ptr \<Rightarrow> bool" where
  "path N p [] q \<longleftrightarrow> p = q"
| "path N p (x # xs) q \<longleftrightarrow> p = Some x \<and> (\<exists>n. N x = Some n \<and> path N n xs q)"

definition ptrs :: "(addr \<rightharpoonup> ptr) \<Rightarrow> ptr multiset" where
  "ptrs N = image_mset (\<lambda>a. the (N a)) (mset_set (dom N))"

lemma path_append: "path N p (xs @ ys) q \<longleftrightarrow> (\<exists>r. path N p xs r \<and> path N r ys q)"
  by (induction xs arbitrary: p) auto

lemma path_None [simp]: "path N None xs q \<longleftrightarrow> xs = [] \<and> q = None"
  by (cases xs) auto

lemma path_unique: "path N p xs None \<Longrightarrow> path N p ys None \<Longrightarrow> xs = ys"
proof (induction xs arbitrary: p ys)
  case (Cons x xs)
  then show ?case by (cases ys) auto
qed simp

lemma path_dom: "path N p xs q \<Longrightarrow> set xs \<subseteq> dom N"
  by (induction xs arbitrary: p) auto

lemma path_distinct: "path N p xs None \<Longrightarrow> distinct xs"
proof (induction xs arbitrary: p)
  case (Cons x xs)
  then obtain n where n: "N x = Some n" "path N n xs None" by auto
  have "x \<notin> set xs"
  proof
    assume "x \<in> set xs"
    then obtain us vs where xs: "xs = us @ x # vs" by (metis split_list)
    have "path N n vs None" using n xs by (auto simp: path_append)
    with n(2) have "vs = xs" by (rule path_unique [rotated])
    with xs show False by simp
  qed
  with Cons n show ?case by auto
qed simp

text \<open>There is only one way from a pointer to a node of its list.\<close>

lemma path_prefix_unique:
  assumes "path N p xs (Some x)" "path N p ys (Some x)" "path N p zs None"
  shows "xs = ys"
  using assms
proof (induction xs arbitrary: p ys zs)
  case Nil
  show ?case
  proof (cases ys)
    case (Cons y ys')
    from Nil have p: "p = Some x" by simp
    with Nil.prems(3) obtain zs' where zs: "zs = x # zs'" by (cases zs) auto
    from Nil.prems(2) obtain us where us: "path N (Some x) us None"
      by (metis Nil.prems(3) p)
    from Nil.prems(2) us have "path N p (ys @ us) None" by (auto simp: path_append)
    with us p have "ys @ us = us" by (metis path_unique)
    with Cons show ?thesis by simp
  qed simp
next
  case (Cons a xs)
  then obtain n where n: "p = Some a" "N a = Some n" "path N n xs (Some x)" by auto
  obtain zs' where zs: "path N n zs' None"
    using Cons.prems(3) n by (cases zs) auto
  show ?case
  proof (cases ys)
    case Nil
    then have "a = x" using Cons.prems(2) n by simp
    then have "path N p ((a # xs) @ zs) None"
      using Cons.prems n by (auto simp: path_append)
    with Cons.prems(3) have "(a # xs) @ zs = zs" by (metis path_unique)
    then show ?thesis by simp
  next
    case (Cons b ys')
    then show ?thesis using Cons.IH [of n ys' zs'] Cons.prems n zs by auto
  qed
qed

lemma path_cong: "(\<And>a. a \<in> set xs \<Longrightarrow> N a = N' a) \<Longrightarrow> path N p xs q \<Longrightarrow> path N' p xs q"
  by (induction xs arbitrary: p) auto

lemma path_upd: "a \<notin> set xs \<Longrightarrow> path (N(a := v)) p xs q = path N p xs q"
  by (induction xs arbitrary: p) auto

lemma ptrs_new: "finite (dom N) \<Longrightarrow> N a = None \<Longrightarrow> ptrs (N(a \<mapsto> n)) = add_mset n (ptrs N)"
proof -
  assume *: "finite (dom N)" "N a = None"
  have "image_mset (\<lambda>b. the ((N(a \<mapsto> n)) b)) (mset_set (dom N)) = ptrs N"
    unfolding ptrs_def using * by (intro image_mset_cong) (auto simp: dom_def)
  moreover have "a \<notin> dom N" using * by auto
  ultimately show ?thesis using * by (simp add: ptrs_def)
qed

lemma ptrs_del: "finite (dom N) \<Longrightarrow> N a = Some n \<Longrightarrow> ptrs N = add_mset n (ptrs (N(a := None)))"
proof -
  assume *: "finite (dom N)" "N a = Some n"
  then have "(N(a := None))(a \<mapsto> n) = N" by auto
  with * ptrs_new [of "N(a := None)" a n] show ?thesis by simp
qed

lemma ptrs_upd: "finite (dom N) \<Longrightarrow> N a = Some n \<Longrightarrow> add_mset n (ptrs (N(a \<mapsto> v))) = add_mset v (ptrs N)"
proof -
  assume *: "finite (dom N)" "N a = Some n"
  have "ptrs (N(a \<mapsto> v)) = add_mset v (ptrs (N(a := None)))"
    using ptrs_new [of "N(a := None)" a v] * by simp
  with ptrs_del [OF *] show ?thesis by simp
qed

lemma in_ptrs: "finite (dom N) \<Longrightarrow> p \<in># ptrs N \<longleftrightarrow> (\<exists>a. N a = Some p)"
  by (auto simp: ptrs_def image_iff dom_def)

lemma in_ptrsI: "finite (dom N) \<Longrightarrow> N a = Some p \<Longrightarrow> p \<in># ptrs N"
  by (auto simp: in_ptrs)

section \<open>The shape of the heap\<close>

text \<open>Every root and every node starts a list that ends, and every node is in the list of a root.\<close>

definition shape_ok :: "(addr \<rightharpoonup> ptr) \<Rightarrow> ptr multiset \<Rightarrow> bool" where
  "shape_ok N R \<longleftrightarrow> finite (dom N) \<and> (\<forall>p \<in># R. \<exists>xs. path N p xs None)
     \<and> (\<forall>a \<in> dom N. \<exists>p \<in># R. \<exists>xs. path N p xs None \<and> a \<in> set xs)"

lemma shape_okE:
  assumes "shape_ok N R" "a \<in> dom N"
  obtains p xs where "p \<in># R" "path N p xs None" "a \<in> set xs"
  using assms unfolding shape_ok_def by blast

lemma path_split:
  assumes "path N p zs None" "a \<in> set zs"
  obtains us n vs where "zs = us @ a # vs" "path N p us (Some a)" "N a = Some n" "path N n vs None"
proof -
  from assms(2) obtain us vs where "zs = us @ a # vs" by (metis split_list)
  with assms(1) that show ?thesis by (auto simp: path_append)
qed

lemma ptr_in_dom:
  assumes "shape_ok N R" "Some b \<in># R + ptrs N"
  shows "b \<in> dom N"
proof (cases "Some b \<in># R")
  case True
  with assms obtain xs where "path N (Some b) xs None" by (auto simp: shape_ok_def)
  then show ?thesis by (cases xs) auto
next
  case False
  with assms obtain a where a: "N a = Some (Some b)"
    by (auto simp: in_ptrs shape_ok_def)
  then have "a \<in> dom N" by auto
  with assms(1) obtain p xs where "path N p xs None" "a \<in> set xs" by (elim shape_okE)
  from path_split [OF this] a obtain vs where "path N (Some b) vs None" by auto
  then show ?thesis by (cases vs) auto
qed

text \<open>Writing the pointer that leads from a prefix \<open>ps\<close> of a list to the rest.\<close>

definition relink :: "addr list \<Rightarrow> ptr \<Rightarrow> (addr \<rightharpoonup> ptr) \<Rightarrow> addr \<rightharpoonup> ptr" where
  "relink ps v N = (if ps = [] then N else N(last ps \<mapsto> v))"

definition new_root :: "addr list \<Rightarrow> ptr \<Rightarrow> ptr \<Rightarrow> ptr" where
  "new_root ps v m = (if ps = [] then v else m)"

lemma path_last: "path N m ps q \<Longrightarrow> ps \<noteq> [] \<Longrightarrow> N (last ps) = Some q"
  by (induction ps arbitrary: m) auto

lemma ptrs_relink:
  assumes "finite (dom N)" "path N m ps q"
  shows "add_mset q (add_mset (new_root ps v m) R + ptrs (relink ps v N))
       = add_mset v (add_mset m R + ptrs N)"
proof (cases "ps = []")
  case False
  then show ?thesis
    using ptrs_upd [OF assms(1) path_last [OF assms(2)], of v] 
    by (simp add: relink_def new_root_def add_mset_commute)
qed (use assms in \<open>auto simp: relink_def new_root_def\<close>)

lemma path_relink_other: "set zs \<inter> set ps = {} \<Longrightarrow> path N p zs q \<Longrightarrow> path (relink ps v N) p zs q"
  by (cases ps rule: rev_cases) (auto simp: relink_def path_upd)

lemma path_relink:
  assumes "path N m ps q" "distinct ps"
  shows "path (relink ps v N) (new_root ps v m) ps v"
proof (cases ps rule: rev_cases)
  case (snoc qs b)
  with assms have "path N m qs (Some b)" "b \<notin> set qs" by (auto simp: path_append)
  with snoc show ?thesis by (simp add: relink_def new_root_def path_append path_upd)
qed (simp add: relink_def new_root_def)

lemma dom_relink: "path N m ps q \<Longrightarrow> dom (relink ps v N) = dom N"
  using path_last [of N m ps q] by (auto simp: relink_def)

text \<open>A prefix whose nodes are pointed to once belongs to its list alone.\<close>

lemma owned_disjoint:
  assumes fin: "finite (dom N)"
    and "path N m ps q" "\<forall>a \<in> set ps. count (add_mset m R + ptrs N) (Some a) = 1"
    and p: "p \<in># R" "path N p zs r"
  shows "set zs \<inter> set ps = {}"
  using assms(2,3)
proof (induction ps arbitrary: q rule: rev_induct)
  case (snoc b ps)
  from snoc.prems have ps: "path N m ps (Some b)" and one: "count (add_mset m R + ptrs N) (Some b) = 1"
    by (auto simp: path_append)
  have IH: "set zs \<inter> set ps = {}" using snoc.IH [OF ps] snoc.prems by auto
  have "b \<notin> set zs"
  proof
    assume "b \<in> set zs"
    then obtain us vs where zs: "zs = us @ b # vs" by (metis split_list)
    with p have us: "path N p us (Some b)" by (auto simp: path_append)
    have A: "m = Some b" if "ps = []" using that ps by simp
    have B: "N (last ps) = Some (Some b)" if "ps \<noteq> []" using path_last [OF ps that] .
    have C: "p = Some b" if "us = []" using that us by simp
    have D: "N (last us) = Some (Some b)" if "us \<noteq> []" using path_last [OF us that] .
    have E: "last us \<noteq> last ps" if "us \<noteq> []" "ps \<noteq> []"
      using that IH zs by (metis Un_iff disjoint_iff last_in_set set_append)
    have one': "(if m = Some b then 1 else 0) + count R (Some b) + count (ptrs N) (Some b) = 1"
      using one by (simp split: if_splits)
    have F: "1 \<le> count R (Some b)" if "us = []"
      using C [OF that] p(1) by (simp add: Suc_le_eq)
    have G: "1 \<le> count (ptrs N) (Some b)" if "us \<noteq> [] \<or> ps \<noteq> []"
      using that B D in_ptrs [OF fin, of "Some b"] by (auto simp: Suc_le_eq)
    have H: "2 \<le> count (ptrs N) (Some b)" if "us \<noteq> []" "ps \<noteq> []"
    proof -
      have "Some b \<in># ptrs (N(last ps := None))"
        using that E D fin by (subst in_ptrs) auto
      then show ?thesis
        using ptrs_del [OF fin B [OF that(2)]] by (simp add: Suc_le_eq)
    qed
    show False
    proof (cases "ps = []")
      case True
      then show False using one' A F G by (cases "us = []") auto
    next
      case False
      then show False using one' F G H by (cases "us = []") linarith+
    qed
  qed
  with IH show ?case by auto
qed simp

text \<open>A node with a second pointer to it is in the list of another root.\<close>

lemma shared_elsewhere:
  assumes sh: "shape_ok N (add_mset m R)" and ps: "path N m ps (Some x)"
    and two: "1 < count (add_mset m R + ptrs N) (Some x)"
  obtains p zs where "p \<in># R" "path N p zs None" "x \<in> set zs"
proof -
  have fin: "finite (dom N)" using sh by (simp add: shape_ok_def)
  show ?thesis
  proof (cases "Some x \<in># R")
    case True
    with sh obtain zs where zs: "path N (Some x) zs None" by (auto simp: shape_ok_def)
    then have "x \<in> set zs" by (cases zs) auto
    with zs True that show ?thesis by blast
  next
    case False
    obtain ms where ms: "path N m ms None" using sh by (auto simp: shape_ok_def)
    have "\<exists>b. N b = Some (Some x) \<and> (ps \<noteq> [] \<longrightarrow> b \<noteq> last ps)"
    proof (cases "ps = []")
      case True
      then have "1 \<le> count (ptrs N) (Some x)" using two False ps by (auto simp: not_in_iff)
      then show ?thesis using in_ptrs [OF fin] True by (auto simp: Suc_le_eq)
    next
      case False': False
      have "m \<noteq> Some x"
      proof
        assume "m = Some x"
        with ps ms path_prefix_unique [of N m ps x "[]"] False' show False by auto
      qed
      then have "1 < count (ptrs N) (Some x)" using two False by (auto simp: not_in_iff)
      then have "Some x \<in># ptrs (N(last ps := None))"
        using ptrs_del [OF fin path_last [OF ps False']] by (auto simp: Suc_le_eq)
      then obtain b where "(N(last ps := None)) b = Some (Some x)"
        using in_ptrs [of "N(last ps := None)"] fin by auto
      then show ?thesis by (auto simp: fun_upd_def split: if_splits)
    qed
    then obtain b where b: "N b = Some (Some x)" "ps \<noteq> [] \<longrightarrow> b \<noteq> last ps" by blast
    then have "b \<in> dom N" by auto
    with sh obtain p zs where p: "p \<in># add_mset m R" "path N p zs None" "b \<in> set zs"
      by (elim shape_okE)
    obtain us n vs where "zs = us @ b # vs" "path N p us (Some b)" "N b = Some n" "path N n vs None"
      by (rule path_split [OF p(2,3)])
    with b have us: "zs = us @ b # vs" "path N p us (Some b)" "path N (Some x) vs None" by auto
    then have "x \<in> set zs" by (cases vs) auto
    moreover have "p \<in># R"
    proof (rule ccontr)
      assume "p \<notin># R"
      with p have "p = m" by simp
      then have "path N m (us @ [b]) (Some x)" using us b by (simp add: path_append)
      with ps ms have "ps = us @ [b]" by (metis path_prefix_unique)
      with b show False by simp
    qed
    ultimately show ?thesis using p that by blast
  qed
qed

section \<open>Copying and removing a node\<close>

lemma shape_okI:
  assumes "shape_ok N (add_mset m R)" "finite (dom N')" "path N' m' cs None"
    and others: "\<And>q zs. q \<in># R \<Longrightarrow> path N q zs None \<Longrightarrow> path N' q zs None"
    and cover: "\<And>a. a \<in> dom N' \<Longrightarrow> a \<notin> set cs \<Longrightarrow> \<exists>q \<in># R. \<exists>zs. path N q zs None \<and> a \<in> set zs"
  shows "shape_ok N' (add_mset m' R)"
proof -
  have "\<exists>xs. path N' p xs None" if "p \<in># add_mset m' R" for p
  proof (cases "p \<in># R")
    case True
    with assms(1) obtain xs where "path N p xs None" by (auto simp: shape_ok_def)
    with others True show ?thesis by blast
  qed (use that assms(3) in auto)
  moreover have "\<exists>p \<in># add_mset m' R. \<exists>xs. path N' p xs None \<and> a \<in> set xs" if a: "a \<in> dom N'" for a
  proof (cases "a \<in> set cs")
    case True
    with assms(3) show ?thesis by auto
  next
    case False
    from cover [OF a this] others show ?thesis by (metis insert_iff set_mset_add_mset_insert)
  qed
  ultimately show ?thesis using assms(2) by (auto simp: shape_ok_def)
qed

text \<open>What is not on the list itself, or is on it and shared, is on another list.\<close>

lemma covered_elsewhere:
  assumes "shape_ok N (add_mset m R)" "path N m zs None" "a \<in> dom N"
    and "a \<in> set zs \<Longrightarrow> 1 < count (add_mset m R + ptrs N) (Some a)"
  shows "\<exists>q \<in># R. \<exists>zs. path N q zs None \<and> a \<in> set zs"
proof (cases "a \<in> set zs")
  case True
  obtain us n vs where "path N m us (Some a)"
    by (rule path_split [OF assms(2) True])
  from shared_elsewhere [OF assms(1) this assms(4)] True show ?thesis by blast
next
  case False
  from assms(1,3) obtain p xs where "p \<in># add_mset m R" "path N p xs None" "a \<in> set xs"
    by (elim shape_okE)
  with False assms(2) show ?thesis by (auto dest: path_unique)
qed

lemma unshare_shape:
  assumes sh: "shape_ok N (add_mset m R)"
    and p: "path N m (ps @ x # ys) None" and x: "N x = Some n"
    and own: "\<forall>a \<in> set ps. count (add_mset m R + ptrs N) (Some a) = 1"
    and two: "1 < count (add_mset m R + ptrs N) (Some x)"
    and c: "N c = None"
    and N': "N' = relink ps (Some c) (N(c \<mapsto> n))" and m': "m' = new_root ps (Some c) m"
  shows "shape_ok N' (add_mset m' R)"
    and "path N' m' (ps @ c # ys) None"
    and "q \<in># R \<Longrightarrow> path N q zs None \<Longrightarrow> path N' q zs None"
    and "add_mset (Some x) (add_mset m' R + ptrs N') = add_mset n (add_mset (Some c) (add_mset m R + ptrs N))"
proof -
  let ?M = "N(c \<mapsto> n)"
  have fin: "finite (dom N)" using sh by (simp add: shape_ok_def)
  have pp: "path N m ps (Some x)" "path N n ys None" using p x by (auto simp: path_append)
  have dis: "distinct (ps @ x # ys)" using p by (rule path_distinct)
  have sub: "set (ps @ x # ys) \<subseteq> dom N" using p by (rule path_dom)
  then have cn: "c \<notin> set ps" "c \<notin> set ys" using c by auto
  have mp: "path ?M m ps (Some x)" "path ?M n ys None" using pp cn by (simp_all add: path_upd)
  have "path N' n ys None"
    unfolding N' using dis mp(2) by (intro path_relink_other) auto
  moreover have "N' c = Some n"
    using cn by (auto simp: N' relink_def dest: last_in_set)
  moreover have "path N' m' ps (Some c)"
    unfolding N' m' using dis mp(1) by (intro path_relink) auto
  ultimately show path: "path N' m' (ps @ c # ys) None" by (auto simp: path_append)
  show others: "path N' q zs None" if q: "q \<in># R" "path N q zs None" for q zs
  proof -
    have "set zs \<inter> set ps = {}" by (rule owned_disjoint [OF fin pp(1) own q])
    moreover have "c \<notin> set zs" using path_dom [OF q(2)] c by auto
    ultimately show ?thesis unfolding N' using q by (intro path_relink_other) (auto simp: path_upd)
  qed
  have d: "dom N' = insert c (dom N)" unfolding N' dom_relink [OF mp(1)] by simp
  show "shape_ok N' (add_mset m' R)"
  proof (rule shape_okI [OF sh _ path others])
    show "finite (dom N')" using d fin by simp
    fix a
    assume "a \<in> dom N'" "a \<notin> set (ps @ c # ys)"
    then show "\<exists>q \<in># R. \<exists>zs. path N q zs None \<and> a \<in> set zs"
      using d two by (intro covered_elsewhere [OF sh p]) auto
  qed
  have "finite (dom ?M)" using fin by simp
  from ptrs_relink [OF this mp(1), of "Some c" R]
  show "add_mset (Some x) (add_mset m' R + ptrs N') = add_mset n (add_mset (Some c) (add_mset m R + ptrs N))"
    using ptrs_new [OF fin c, of n] by (simp add: N' m' add_mset_commute)
qed

lemma remove_shared_shape:
  assumes sh: "shape_ok N (add_mset m R)"
    and p: "path N m (ps @ x # ys) None" and x: "N x = Some n"
    and own: "\<forall>a \<in> set ps. count (add_mset m R + ptrs N) (Some a) = 1"
    and two: "1 < count (add_mset m R + ptrs N) (Some x)"
    and N': "N' = relink ps n N" and m': "m' = new_root ps n m"
  shows "shape_ok N' (add_mset m' R)"
    and "path N' m' (ps @ ys) None"
    and "q \<in># R \<Longrightarrow> path N q zs None \<Longrightarrow> path N' q zs None"
    and "add_mset (Some x) (add_mset m' R + ptrs N') = add_mset n (add_mset m R + ptrs N)"
proof -
  have fin: "finite (dom N)" using sh by (simp add: shape_ok_def)
  have pp: "path N m ps (Some x)" "path N n ys None" using p x by (auto simp: path_append)
  have dis: "distinct (ps @ x # ys)" using p by (rule path_distinct)
  have "path N' n ys None"
    unfolding N' using dis pp(2) by (intro path_relink_other) auto
  moreover have "path N' m' ps n"
    unfolding N' m' using dis pp(1) by (intro path_relink) auto
  ultimately show path: "path N' m' (ps @ ys) None" by (auto simp: path_append)
  show others: "path N' q zs None" if q: "q \<in># R" "path N q zs None" for q zs
    unfolding N' using owned_disjoint [OF fin pp(1) own q] q(2) by (rule path_relink_other)
  have d: "dom N' = dom N" unfolding N' dom_relink [OF pp(1)] ..
  show "shape_ok N' (add_mset m' R)"
  proof (rule shape_okI [OF sh _ path others])
    show "finite (dom N')" using d fin by simp
    fix a
    assume "a \<in> dom N'" "a \<notin> set (ps @ ys)"
    then show "\<exists>q \<in># R. \<exists>zs. path N q zs None \<and> a \<in> set zs"
      using d two by (intro covered_elsewhere [OF sh p]) auto
  qed
  show "add_mset (Some x) (add_mset m' R + ptrs N') = add_mset n (add_mset m R + ptrs N)"
    unfolding N' m' by (rule ptrs_relink [OF fin pp(1)])
qed

lemma remove_owned_shape:
  assumes sh: "shape_ok N (add_mset m R)"
    and p: "path N m (ps @ x # ys) None" and x: "N x = Some n"
    and own: "\<forall>a \<in> set (ps @ [x]). count (add_mset m R + ptrs N) (Some a) = 1"
    and N': "N' = (relink ps n N)(x := None)" and m': "m' = new_root ps n m"
  shows "shape_ok N' (add_mset m' R)"
    and "path N' m' (ps @ ys) None"
    and "q \<in># R \<Longrightarrow> path N q zs None \<Longrightarrow> path N' q zs None"
    and "add_mset (Some x) (add_mset m' R + ptrs N') = add_mset m R + ptrs N"
proof -
  have fin: "finite (dom N)" using sh by (simp add: shape_ok_def)
  have pp: "path N m ps (Some x)" "path N n ys None" using p x by (auto simp: path_append)
  have px: "path N m (ps @ [x]) n" using pp x by (auto simp: path_append)
  have dis: "distinct (ps @ x # ys)" using p by (rule path_distinct)
  have "path N' n ys None"
    unfolding N' using dis pp(2) by (subst path_upd) (auto intro!: path_relink_other)
  moreover have "path N' m' ps n"
    unfolding N' m' using dis pp(1) by (subst path_upd) (auto intro!: path_relink)
  ultimately show path: "path N' m' (ps @ ys) None" by (auto simp: path_append)
  show others: "path N' q zs None" if q: "q \<in># R" "path N q zs None" for q zs
    unfolding N' using owned_disjoint [OF fin px own q] q(2)
    by (subst path_upd) (auto intro!: path_relink_other)
  have d: "dom (relink ps n N) = dom N" by (rule dom_relink [OF pp(1)])
  then have d': "dom N' = dom N - {x}" unfolding N' by auto
  show "shape_ok N' (add_mset m' R)"
  proof (rule shape_okI [OF sh _ path others])
    show "finite (dom N')" using d' fin by simp
    fix a
    assume "a \<in> dom N'" "a \<notin> set (ps @ ys)"
    then show "\<exists>q \<in># R. \<exists>zs. path N q zs None \<and> a \<in> set zs"
      using d' by (intro covered_elsewhere [OF sh p]) auto
  qed
  have "x \<notin> set ps" using dis by simp
  then have "relink ps n N x = Some n" using x by (auto simp: relink_def dest: last_in_set)
  then have "ptrs (relink ps n N) = add_mset n (ptrs N')"
    unfolding N' using fin d by (intro ptrs_del) simp_all
  with ptrs_relink [OF fin pp(1), of n R]
  show "add_mset (Some x) (add_mset m' R + ptrs N') = add_mset m R + ptrs N"
    by (simp add: m' add_mset_commute)
qed

lemma add_shape:
  assumes sh: "shape_ok N (add_mset m R)" and p: "path N m xs None" and c: "N c = None"
  shows "shape_ok (N(c \<mapsto> m)) (add_mset (Some c) R)"
    and "path (N(c \<mapsto> m)) (Some c) (c # xs) None"
    and "q \<in># R \<Longrightarrow> path N q zs None \<Longrightarrow> path (N(c \<mapsto> m)) q zs None"
    and "add_mset (Some c) R + ptrs (N(c \<mapsto> m)) = add_mset (Some c) (add_mset m R + ptrs N)"
proof -
  have fin: "finite (dom N)" using sh by (simp add: shape_ok_def)
  have old: "path (N(c \<mapsto> m)) q zs None" if "path N q zs None" for q zs
    using path_dom [OF that] c that by (subst path_upd) auto
  from old [OF p] show path: "path (N(c \<mapsto> m)) (Some c) (c # xs) None" by simp
  show "path (N(c \<mapsto> m)) q zs None" if "q \<in># R" "path N q zs None" for q zs
    using old that by blast
  show "shape_ok (N(c \<mapsto> m)) (add_mset (Some c) R)"
  proof (rule shape_okI [OF sh _ path])
    show "finite (dom (N(c \<mapsto> m)))" using fin by simp
    fix a
    assume "a \<in> dom (N(c \<mapsto> m))" "a \<notin> set (c # xs)"
    then show "\<exists>q \<in># R. \<exists>zs. path N q zs None \<and> a \<in> set zs"
      by (intro covered_elsewhere [OF sh p]) auto
  qed (use old in auto)
  show "add_mset (Some c) R + ptrs (N(c \<mapsto> m)) = add_mset (Some c) (add_mset m R + ptrs N)"
    using ptrs_new [OF fin c, of m] by (simp add: add_mset_commute)
qed

text \<open>Dropping a root: when it was the only pointer to its node, the node goes and the rest of its
  list takes its place as a root.\<close>

lemma drop_head_shape:
  assumes sh: "shape_ok N (add_mset (Some x) R)" and x: "N x = Some n"
    and one: "count (add_mset (Some x) R + ptrs N) (Some x) = 1"
  shows "shape_ok (N(x := None)) (add_mset n R)"
    and "q \<in># R \<Longrightarrow> path N q zs None \<Longrightarrow> path (N(x := None)) q zs None"
    and "add_mset (Some x) (add_mset n R + ptrs (N(x := None))) = add_mset (Some x) R + ptrs N"
proof -
  obtain xs where "path N (Some x) xs None" using sh by (auto simp: shape_ok_def)
  then obtain ys where p: "path N (Some x) ([] @ x # ys) None" by (cases xs) auto
  have own: "\<forall>a \<in> set ([] @ [x]). count (add_mset (Some x) R + ptrs N) (Some a) = 1" using one by simp
  have N': "N(x := None) = (relink [] n N)(x := None)" and m': "n = new_root [] n (Some x)"
    by (simp_all add: relink_def new_root_def)
  note r = remove_owned_shape [OF sh p x own N' m']
  show "shape_ok (N(x := None)) (add_mset n R)"
    and "q \<in># R \<Longrightarrow> path N q zs None \<Longrightarrow> path (N(x := None)) q zs None"
    and "add_mset (Some x) (add_mset n R + ptrs (N(x := None))) = add_mset (Some x) R + ptrs N"
    by (fact r(1), erule (1) r(3), fact r(4))
qed

lemma drop_shared_shape:
  assumes sh: "shape_ok N (add_mset (Some x) R)"
    and two: "1 < count (add_mset (Some x) R + ptrs N) (Some x)"
  shows "shape_ok N R"
proof -
  obtain xs where "path N (Some x) xs None" using sh by (auto simp: shape_ok_def)
  then obtain n ys where p: "path N (Some x) (x # ys) None" "path N n ys None" "N x = Some n"
    by (cases xs) auto
  from shared_elsewhere [OF sh _ two, of "[]"] obtain q zs
    where q: "q \<in># R" "path N q zs None" "x \<in> set zs" by auto
  from path_split [OF q(2,3)] p have "set (x # ys) \<subseteq> set zs"
    by (metis Un_iff path_unique set_append subsetI option.inject set_ConsD list.set_intros)
  have "\<exists>q \<in># R. \<exists>zs. path N q zs None \<and> a \<in> set zs" if a: "a \<in> dom N" for a
  proof -
    from sh a obtain r us where r: "r \<in># add_mset (Some x) R" "path N r us None" "a \<in> set us"
      by (elim shape_okE)
    show ?thesis
    proof (cases "r \<in># R")
      case False
      with r have "path N (Some x) us None" by simp
      from path_unique [OF this p(1)] have "us = x # ys" .
      with r q \<open>set (x # ys) \<subseteq> set zs\<close> show ?thesis by blast
    qed (use r in blast)
  qed
  with sh show ?thesis by (auto simp: shape_ok_def)
qed

end
