(* ===== verification/PacketTagList.thy ===== *)
theory PacketTagList
  imports TagBuffer SharedLists
begin

text \<open>
  The packet tags of ns-3 (\<open>network/model/packet-tag-list.{cc,h}\<close>): singly linked lists of
  \<open>TagData\<close> nodes with shared tails, reference counts and copy on write. Nodes live in an
  explicit heap; a \<open>PacketTagList\<close> is its pointer \<open>m_next\<close>, passed in and returned. \<open>None\<close> is the
  result of an operation that fails an assertion, dereferences a null or freed pointer, or
  decrements a count that is zero; a loop that never ends is \<open>None\<close> too.

  The first part of the lemmas states the ownership invariant \<open>tags_ok\<close> (every count is the number
  of pointers to the node, every node is reachable, every list ends) and the lemmas that let each
  step of the copy-on-write traversal keep it.
\<close>

section \<open>Nodes and the heap\<close>

record tag_data =
  td_next :: ptr
  td_count :: nat
  td_tid :: nat
  td_size :: nat
  td_data :: "u8 list"

text \<open>The heap of nodes: \<open>th_brk\<close> and all later addresses were never returned by \<open>malloc\<close>;
  \<open>th_garbage\<close> is what memory holds before it is written. A freed node is no longer in \<open>th_cells\<close>.\<close>

record tag_heap =
  th_cells :: "addr \<rightharpoonup> tag_data"
  th_brk :: addr
  th_garbage :: "addr \<Rightarrow> nat \<Rightarrow> u8"

definition th_empty :: tag_heap where
  "th_empty = \<lparr>th_cells = Map.empty, th_brk = 1, th_garbage = (\<lambda>_ _. 0)\<rparr>"

definition upd_cell :: "addr \<Rightarrow> (tag_data \<Rightarrow> tag_data) \<Rightarrow> tag_heap \<Rightarrow> tag_heap option" where
  "upd_cell a f h = (case th_cells h a of None \<Rightarrow> None
     | Some d \<Rightarrow> Some (h\<lparr>th_cells := (th_cells h)(a \<mapsto> f d)\<rparr>))"

definition free_cell :: "addr \<Rightarrow> tag_heap \<Rightarrow> tag_heap" where
  "free_cell a h = h\<lparr>th_cells := (th_cells h)(a := None)\<rparr>"

definition inc_count :: "ptr \<Rightarrow> tag_heap \<Rightarrow> tag_heap option" where
  \<comment> \<open>\<open>if (p != nullptr) p->count++\<close>\<close>
  "inc_count p h = (case p of None \<Rightarrow> Some h | Some a \<Rightarrow> upd_cell a (\<lambda>d. d\<lparr>td_count := td_count d + 1\<rparr>) h)"

definition dec_count :: "addr \<Rightarrow> tag_heap \<Rightarrow> tag_heap option" where
  "dec_count a h = (case th_cells h a of None \<Rightarrow> None
     | Some d \<Rightarrow> if td_count d = 0 then None
               else Some (h\<lparr>th_cells := (th_cells h)(a \<mapsto> d\<lparr>td_count := td_count d - 1\<rparr>)\<rparr>))"

definition CreateTagData :: "nat \<Rightarrow> tag_heap \<Rightarrow> (addr \<times> tag_heap) option" where
  \<comment> \<open>\<open>next\<close> and \<open>count\<close> are not initialised: every caller sets them before they are read\<close>
  "CreateTagData dataSize h =
     (if dataSize < 2 ^ 32 - 1
      then let a = th_brk h in
        Some (a, h\<lparr>th_cells := (th_cells h)(a \<mapsto> \<lparr>td_next = None, td_count = 0, td_tid = 0, td_size = dataSize,
                     td_data = map (th_garbage h a) [0..<dataSize]\<rparr>), th_brk := Suc a\<rparr>)
      else None)"

text \<open>A \<open>TagData**\<close>: the pointer of the list object, or the \<open>next\<close> field of a node.\<close>

datatype slot = List_head | Next_of addr

definition set_slot :: "slot \<Rightarrow> ptr \<Rightarrow> tag_heap \<Rightarrow> ptr \<Rightarrow> (tag_heap \<times> ptr) option" where
  "set_slot s v h m = (case s of List_head \<Rightarrow> Some (h, v)
     | Next_of a \<Rightarrow> Option.bind (upd_cell a (\<lambda>d. d\<lparr>td_next := v\<rparr>) h) (\<lambda>h. Some (h, m)))"

section \<open>Tags\<close>

text \<open>The virtual functions of \<open>Tag\<close>. \<open>TagBuffer(d->data, d->data + d->size)\<close> points into the node.\<close>

record 'a tag_class =
  GetInstanceTypeId :: nat
  tag_GetSerializedSize :: "'a \<Rightarrow> nat"
  tag_Serialize :: "'a \<Rightarrow> tag_buffer \<Rightarrow> tag_buffer option"
  tag_Deserialize :: "'a \<Rightarrow> tag_buffer \<Rightarrow> 'a option"

definition cell_buffer :: "tag_data \<Rightarrow> tag_buffer" where
  "cell_buffer d = \<lparr>tb_mem = td_data d, tb_current = 0, tb_end = td_size d\<rparr>"

definition serialize_into :: "'a tag_class \<Rightarrow> 'a \<Rightarrow> addr \<Rightarrow> tag_heap \<Rightarrow> tag_heap option" where
  "serialize_into c tag a h = Option.bind (th_cells h a) (\<lambda>d.
     Option.bind (tag_Serialize c tag (cell_buffer d)) (\<lambda>b.
       upd_cell a (\<lambda>d. d\<lparr>td_data := tb_mem b\<rparr>) h))"

section \<open>Traversal with copy on write\<close>

text \<open>A writer gets whether the node was found before the first merge, the node, and the pointer to it.\<close>

type_synonym 'a cow_writer = "'a \<Rightarrow> bool \<Rightarrow> addr \<Rightarrow> slot \<Rightarrow> tag_heap \<Rightarrow> ptr \<Rightarrow> (bool \<times> 'a \<times> tag_heap \<times> ptr) option"

definition RemoveWriter :: "'a tag_class \<Rightarrow> 'a cow_writer" where
  "RemoveWriter c tag preMerge cur prevNext h m =
     Option.bind (th_cells h cur) (\<lambda>d.
     Option.bind (tag_Deserialize c tag (cell_buffer d)) (\<lambda>tag'.
     Option.bind (set_slot prevNext (td_next d) h m) (\<lambda>(h, m).
       if preMerge then Some (True, tag', free_cell cur h, m)
       else Option.bind (dec_count cur h) (\<lambda>h.
            Option.bind (inc_count (td_next d) h) (\<lambda>h. Some (True, tag', h, m))))))"

text \<open>A new node with count 1 in front of \<open>next\<close>; its data is still to be written.\<close>

definition new_node :: "nat \<Rightarrow> nat \<Rightarrow> ptr \<Rightarrow> tag_heap \<Rightarrow> (addr \<times> tag_heap) option" where
  "new_node sz tid next h = Option.bind (CreateTagData sz h) (\<lambda>(a, h).
     Option.bind (upd_cell a (\<lambda>d. d\<lparr>td_next := next, td_count := 1, td_tid := tid\<rparr>) h) (\<lambda>h. Some (a, h)))"

definition ReplaceWriter :: "'a tag_class \<Rightarrow> 'a cow_writer" where
  "ReplaceWriter c tag preMerge cur prevNext h m =
     (if preMerge then Option.bind (serialize_into c tag cur h) (\<lambda>h. Some (True, tag, h, m))
      else
       Option.bind (th_cells h cur) (\<lambda>d.
       Option.bind (dec_count cur h) (\<lambda>h.
       Option.bind (new_node (tag_GetSerializedSize c tag) (GetInstanceTypeId c) (td_next d) h) (\<lambda>(copy, h).
       Option.bind (serialize_into c tag copy h) (\<lambda>h.
       Option.bind (inc_count (td_next d) h) (\<lambda>h.
       Option.bind (set_slot prevNext (Some copy) h m) (\<lambda>(h, m). Some (True, tag, h, m))))))))"

text \<open>The first loop of \<open>COWTraverse\<close>: it stops at the end, at a merge, or at the tag.\<close>

partial_function (option) find_before_merge ::
    "nat \<Rightarrow> tag_heap \<Rightarrow> slot \<Rightarrow> ptr \<Rightarrow> (slot \<times> ptr \<times> bool) option" where
  "find_before_merge tid h prevNext cur = (case cur of None \<Rightarrow> Some (prevNext, cur, False)
     | Some a \<Rightarrow> Option.bind (th_cells h a) (\<lambda>d.
         if td_count d > 1 then Some (prevNext, cur, False)
         else if td_tid d = tid then Some (prevNext, cur, True)
         else find_before_merge tid h (Next_of a) (td_next d)))"

text \<open>The second loop: is the tag in the rest of the list? \<open>Add\<close> and \<open>Peek\<close> walk the list the same way.\<close>

partial_function (option) find_tid :: "nat \<Rightarrow> tag_heap \<Rightarrow> ptr \<Rightarrow> ptr option" where
  "find_tid tid h it = (case it of None \<Rightarrow> Some None
     | Some a \<Rightarrow> Option.bind (th_cells h a) (\<lambda>d.
         if td_tid d = tid then Some it else find_tid tid h (td_next d)))"

text \<open>The third loop copies nodes until the tag; one pass of its body first.\<close>

definition copy_node :: "addr \<Rightarrow> slot \<Rightarrow> tag_heap \<Rightarrow> ptr \<Rightarrow> (addr \<times> ptr \<times> tag_heap \<times> ptr) option" where
  "copy_node cur prevNext h m =
     Option.bind (th_cells h cur) (\<lambda>d.
     if td_count d \<le> 1 then None else
     Option.bind (dec_count cur h) (\<lambda>h.
     Option.bind (new_node (td_size d) (td_tid d) (td_next d) h) (\<lambda>(copy, h).
     Option.bind (upd_cell copy (\<lambda>c. c\<lparr>td_data := take (td_size d) (td_data d)\<rparr>) h) (\<lambda>h.
     Option.bind (case td_next d of None \<Rightarrow> None | Some n \<Rightarrow> inc_count (Some n) h) (\<lambda>h.
     Option.bind (set_slot prevNext (Some copy) h m) (\<lambda>(h, m). Some (copy, td_next d, h, m)))))))"

partial_function (option) copy_until ::
    "nat \<Rightarrow> ptr \<Rightarrow> slot \<Rightarrow> tag_heap \<Rightarrow> ptr \<Rightarrow> (addr \<times> slot \<times> tag_heap \<times> ptr) option" where
  "copy_until tid cur prevNext h m = (case cur of None \<Rightarrow> None
     | Some a \<Rightarrow> Option.bind (th_cells h a) (\<lambda>d.
         if td_tid d = tid
         then if td_count d > 1 then Some (a, prevNext, h, m) else None
         else Option.bind (copy_node a prevNext h m) (\<lambda>(copy, nxt, h, m).
                copy_until tid nxt (Next_of copy) h m)))"

definition COWTraverse :: "'a tag_class \<Rightarrow> 'a cow_writer \<Rightarrow> 'a \<Rightarrow> tag_heap \<Rightarrow> ptr \<Rightarrow> (bool \<times> 'a \<times> tag_heap \<times> ptr) option" where
  "COWTraverse c Writer tag h m =
     (let tid = GetInstanceTypeId c in
      Option.bind (find_before_merge tid h List_head m) (\<lambda>(prevNext, cur, hit).
      case cur of None \<Rightarrow> Some (False, tag, h, m)
      | Some a \<Rightarrow>
        if hit then Writer tag True a prevNext h m
        else Option.bind (find_tid tid h cur) (\<lambda>it.
             if it = None then Some (False, tag, h, m)
             else Option.bind (copy_until tid cur prevNext h m) (\<lambda>(cur, prevNext, h, m).
                    Writer tag False cur prevNext h m))))"

section \<open>The operations of a list\<close>

definition ptl_Add :: "'a tag_class \<Rightarrow> 'a \<Rightarrow> tag_heap \<Rightarrow> ptr \<Rightarrow> (tag_heap \<times> ptr) option" where
  "ptl_Add c tag h m = Option.bind (find_tid (GetInstanceTypeId c) h m) (\<lambda>it.
     if it \<noteq> None then None
     else Option.bind (new_node (tag_GetSerializedSize c tag) (GetInstanceTypeId c) m h) (\<lambda>(head, h).
          Option.bind (serialize_into c tag head h) (\<lambda>h. Some (h, Some head))))"

definition ptl_Remove :: "'a tag_class \<Rightarrow> 'a \<Rightarrow> tag_heap \<Rightarrow> ptr \<Rightarrow> (bool \<times> 'a \<times> tag_heap \<times> ptr) option" where
  "ptl_Remove c tag h m = COWTraverse c (RemoveWriter c) tag h m"

definition ptl_Replace :: "'a tag_class \<Rightarrow> 'a \<Rightarrow> tag_heap \<Rightarrow> ptr \<Rightarrow> (bool \<times> tag_heap \<times> ptr) option" where
  "ptl_Replace c tag h m = Option.bind (COWTraverse c (ReplaceWriter c) tag h m) (\<lambda>(found, _, h, m).
     if found then Some (True, h, m)
     else Option.bind (ptl_Add c tag h m) (\<lambda>(h, m). Some (False, h, m)))"

definition ptl_Peek :: "'a tag_class \<Rightarrow> 'a \<Rightarrow> tag_heap \<Rightarrow> ptr \<Rightarrow> (bool \<times> 'a) option" where
  "ptl_Peek c tag h m = Option.bind (find_tid (GetInstanceTypeId c) h m) (\<lambda>it.
     case it of None \<Rightarrow> Some (False, tag)
     | Some a \<Rightarrow> Option.bind (th_cells h a) (\<lambda>d.
         Option.bind (tag_Deserialize c tag (cell_buffer d)) (\<lambda>tag'. Some (True, tag'))))"

text \<open>\<open>RemoveAll\<close> frees a node one pass after it drops the reference to it.\<close>

definition free_ptr :: "ptr \<Rightarrow> tag_heap \<Rightarrow> tag_heap" where
  "free_ptr p h = (case p of None \<Rightarrow> h | Some a \<Rightarrow> free_cell a h)"

partial_function (option) remove_all_from :: "ptr \<Rightarrow> ptr \<Rightarrow> tag_heap \<Rightarrow> tag_heap option" where
  "remove_all_from prev cur h = (case cur of None \<Rightarrow> Some (free_ptr prev h)
     | Some a \<Rightarrow> Option.bind (dec_count a h) (\<lambda>h.
         Option.bind (th_cells h a) (\<lambda>d.
         if td_count d > 0 then Some (free_ptr prev h)
         else remove_all_from cur (td_next d) (free_ptr prev h))))"

definition ptl_RemoveAll :: "tag_heap \<Rightarrow> ptr \<Rightarrow> (tag_heap \<times> ptr) option" where
  "ptl_RemoveAll h m = Option.bind (remove_all_from None m h) (\<lambda>h. Some (h, None))"

definition ptl_copy :: "tag_heap \<Rightarrow> ptr \<Rightarrow> (tag_heap \<times> ptr) option" where
  "ptl_copy h om = Option.bind (inc_count om h) (\<lambda>h. Some (h, om))"

definition ptl_assign :: "tag_heap \<Rightarrow> ptr \<Rightarrow> ptr \<Rightarrow> (tag_heap \<times> ptr) option" where
  "ptl_assign h m om =
     (if m = om then Some (h, m)
      else Option.bind (ptl_RemoveAll h m) (\<lambda>(h, _). ptl_copy h om))"

section \<open>The ownership invariant\<close>

definition nexts :: "(addr \<rightharpoonup> tag_data) \<Rightarrow> addr \<rightharpoonup> ptr" where
  "nexts cs = (\<lambda>a. map_option td_next (cs a))"

text \<open>\<open>R\<close> holds the pointer of every list object that exists.\<close>

definition cell_ok :: "tag_heap \<Rightarrow> ptr multiset \<Rightarrow> addr \<Rightarrow> tag_data \<Rightarrow> bool" where
  "cell_ok h R a d \<longleftrightarrow> a < th_brk h \<and> td_count d = count (R + ptrs (nexts (th_cells h))) (Some a)
     \<and> td_size d = length (td_data d) \<and> td_size d < 2 ^ 32 - 1"

definition tags_ok :: "tag_heap \<Rightarrow> ptr multiset \<Rightarrow> bool" where
  "tags_ok h R \<longleftrightarrow> shape_ok (nexts (th_cells h)) R
     \<and> (\<forall>a d. th_cells h a = Some d \<longrightarrow> cell_ok h R a d)"

definition tag_of :: "tag_data \<Rightarrow> nat \<times> u8 list" where
  "tag_of d = (td_tid d, td_data d)"

definition tags_of :: "tag_heap \<Rightarrow> addr list \<Rightarrow> (nat \<times> u8 list) list" where
  "tags_of h xs = map (\<lambda>a. tag_of (the (th_cells h a))) xs"

definition has_tags :: "tag_heap \<Rightarrow> ptr \<Rightarrow> (nat \<times> u8 list) list \<Rightarrow> bool" where
  "has_tags h p vs \<longleftrightarrow> (\<exists>xs. path (nexts (th_cells h)) p xs None \<and> tags_of h xs = vs)"

definition keeps :: "tag_heap \<Rightarrow> tag_heap \<Rightarrow> ptr multiset \<Rightarrow> bool" where
  "keeps h h' R \<longleftrightarrow> (\<forall>q \<in># R. \<forall>vs. has_tags h q vs \<longrightarrow> has_tags h' q vs)"

text \<open>A traversal has passed \<open>ps\<close>, whose nodes belong to the list alone, and \<open>xs\<close> is still ahead.\<close>

definition cursor :: "tag_heap \<Rightarrow> ptr \<Rightarrow> ptr multiset \<Rightarrow> addr list \<Rightarrow> addr list \<Rightarrow> bool" where
  "cursor h m R ps xs \<longleftrightarrow> tags_ok h (add_mset m R) \<and> path (nexts (th_cells h)) m (ps @ xs) None
     \<and> (\<forall>a \<in> set ps. td_count (the (th_cells h a)) = 1)"

definition slot_of :: "addr list \<Rightarrow> slot" where
  "slot_of ps = (if ps = [] then List_head else Next_of (last ps))"

definition start :: "addr list \<Rightarrow> ptr" where
  "start xs = (case xs of [] \<Rightarrow> None | x # _ \<Rightarrow> Some x)"

lemma start_simps [simp]: "start [] = None" "start (x # xs) = Some x"
  by (simp_all add: start_def)

lemma nexts_upd [simp]:
  "nexts (cs(a \<mapsto> d)) = (nexts cs)(a \<mapsto> td_next d)" "nexts (cs(a := None)) = (nexts cs)(a := None)"
  by (auto simp: nexts_def)

lemma nexts_Some [simp]: "nexts cs a = Some n \<longleftrightarrow> (\<exists>d. cs a = Some d \<and> td_next d = n)"
  by (auto simp: nexts_def)

lemma nexts_None [simp]: "nexts cs a = None \<longleftrightarrow> cs a = None"
  by (simp add: nexts_def)

lemma nexts_same: "cs a = Some d \<Longrightarrow> (nexts cs)(a \<mapsto> td_next d) = nexts cs"
  by (auto simp: nexts_def)

lemma dom_nexts [simp]: "dom (nexts cs) = dom cs"
  by (auto simp: nexts_def dom_def)

lemma path_start: "path N p xs None \<Longrightarrow> p = start xs"
  by (cases xs) auto

lemma tags_of_simps [simp]:
  "tags_of h [] = []" "tags_of h (x # xs) = tag_of (the (th_cells h x)) # tags_of h xs"
  "tags_of h (xs @ ys) = tags_of h xs @ tags_of h ys"
  by (simp_all add: tags_of_def)

lemma tags_of_cong:
  "(\<And>a. a \<in> set xs \<Longrightarrow> tag_of (the (th_cells h' a)) = tag_of (the (th_cells h a))) \<Longrightarrow> tags_of h' xs = tags_of h xs"
  by (simp add: tags_of_def)

lemma has_tagsI: "path (nexts (th_cells h)) p xs None \<Longrightarrow> has_tags h p (tags_of h xs)"
  by (auto simp: has_tags_def)

lemma has_tags_unique: "has_tags h p vs \<Longrightarrow> has_tags h p ws \<Longrightarrow> vs = ws"
  by (auto simp: has_tags_def dest: path_unique)

lemma keeps_refl [simp]: "keeps h h R"
  by (simp add: keeps_def)

lemma keeps_trans: "keeps h1 h2 R \<Longrightarrow> keeps h2 h3 R \<Longrightarrow> keeps h1 h3 R"
  by (auto simp: keeps_def)

lemma keepsI:
  assumes paths: "\<And>q zs. q \<in># R \<Longrightarrow> path (nexts (th_cells h)) q zs None \<Longrightarrow> path (nexts (th_cells h')) q zs None"
    and same: "\<And>a d d'. th_cells h a = Some d \<Longrightarrow> th_cells h' a = Some d' \<Longrightarrow> tag_of d' = tag_of d"
  shows "keeps h h' R"
  unfolding keeps_def
proof (intro ballI allI impI)
  fix q vs
  assume q: "q \<in># R" "has_tags h q vs"
  then obtain zs where zs: "path (nexts (th_cells h)) q zs None" "tags_of h zs = vs"
    by (auto simp: has_tags_def)
  have zs': "path (nexts (th_cells h')) q zs None" using paths q(1) zs(1) by blast
  have "set zs \<subseteq> dom (th_cells h)" "set zs \<subseteq> dom (th_cells h')"
    using path_dom [OF zs(1)] path_dom [OF zs'] by simp_all
  then have "tags_of h' zs = tags_of h zs"
    by (intro tags_of_cong) (metis domD option.sel same subsetD)
  with zs zs' show "has_tags h' q vs" by (auto simp: has_tags_def)
qed

lemma tags_ok_cell: "tags_ok h R \<Longrightarrow> th_cells h a = Some d \<Longrightarrow> cell_ok h R a d"
  by (simp add: tags_ok_def)

lemma tags_ok_shape:
  assumes "tags_ok h R"
  shows "shape_ok (nexts (th_cells h)) R" "finite (dom (th_cells h))"
  using assms by (simp_all add: tags_ok_def shape_ok_def)

lemma tags_ok_brk: "tags_ok h R \<Longrightarrow> th_cells h (th_brk h) = None"
  by (rule ccontr) (auto dest: tags_ok_cell simp: cell_ok_def)

lemma tags_okD:
  assumes "tags_ok h R" "th_cells h a = Some d"
  shows "td_count d = count (R + ptrs (nexts (th_cells h))) (Some a)"
    "td_size d = length (td_data d)" "td_size d < 2 ^ 32 - 1" "a < th_brk h"
  using tags_ok_cell [OF assms] unfolding cell_ok_def by blast+

text \<open>How an operation shows that it keeps the invariant: the shape, and the count of every node.\<close>

lemma tags_okI:
  assumes "shape_ok (nexts (th_cells h)) R"
    and "\<And>a d. th_cells h a = Some d \<Longrightarrow> td_count d = count (R + ptrs (nexts (th_cells h))) (Some a)"
    and "\<And>a d. th_cells h a = Some d \<Longrightarrow> a < th_brk h \<and> td_size d = length (td_data d) \<and> td_size d < 2 ^ 32 - 1"
  shows "tags_ok h R"
  using assms unfolding tags_ok_def cell_ok_def by blast

lemma tags_ok_live:
  assumes "tags_ok h (add_mset m R)" "path (nexts (th_cells h)) m xs None" "a \<in> set xs"
  obtains d where "th_cells h a = Some d"
  using path_dom [OF assms(2)] assms(3) by auto

section \<open>Primitive steps\<close>

lemma dec_count_Some:
  "th_cells h a = Some d \<Longrightarrow> 0 < td_count d \<Longrightarrow>
     dec_count a h = Some (h\<lparr>th_cells := (th_cells h)(a \<mapsto> d\<lparr>td_count := td_count d - 1\<rparr>)\<rparr>)"
  by (simp add: dec_count_def)

lemma upd_cell_Some:
  "th_cells h a = Some d \<Longrightarrow> upd_cell a f h = Some (h\<lparr>th_cells := (th_cells h)(a \<mapsto> f d)\<rparr>)"
  by (simp add: upd_cell_def)

lemma new_node_Some:
  "sz < 2 ^ 32 - 1 \<Longrightarrow>
     new_node sz tid n h = Some (th_brk h, h\<lparr>th_cells := (th_cells h)(th_brk h \<mapsto>
       \<lparr>td_next = n, td_count = 1, td_tid = tid, td_size = sz, td_data = map (th_garbage h (th_brk h)) [0..<sz]\<rparr>),
       th_brk := Suc (th_brk h)\<rparr>)"
  by (simp add: new_node_def CreateTagData_def upd_cell_def Let_def)

lemma set_slot_of:
  assumes "path (nexts (th_cells h)) m ps q"
  obtains h' where "set_slot (slot_of ps) v h m = Some (h', new_root ps v m)"
    "nexts (th_cells h') = relink ps v (nexts (th_cells h))" "th_brk h' = th_brk h"
    "\<And>a. map_option (\<lambda>d. (td_count d, td_size d, tag_of d)) (th_cells h' a)
       = map_option (\<lambda>d. (td_count d, td_size d, tag_of d)) (th_cells h a)"
proof (cases "ps = []")
  case True
  then show ?thesis by (intro that [of h]) (auto simp: set_slot_def slot_of_def new_root_def relink_def)
next
  case False
  from path_last [OF assms this] obtain d where d: "th_cells h (last ps) = Some d" by auto
  let ?h = "h\<lparr>th_cells := (th_cells h)(last ps \<mapsto> d\<lparr>td_next := v\<rparr>)\<rparr>"
  show ?thesis
    using False d by (intro that [of ?h])
      (auto simp: set_slot_def slot_of_def new_root_def relink_def upd_cell_Some tag_of_def)
qed


text \<open>Two heaps agree on a node up to its count and its \<open>next\<close> pointer.\<close>

definition same_tag :: "tag_data \<Rightarrow> tag_data \<Rightarrow> bool" where
  "same_tag d d' \<longleftrightarrow> tag_of d' = tag_of d \<and> td_size d' = td_size d"

lemma cursor_own:
  assumes "cursor h m R ps xs"
  shows "\<forall>a \<in> set ps. count (add_mset m R + ptrs (nexts (th_cells h))) (Some a) = 1"
proof
  fix a
  assume a: "a \<in> set ps"
  have ok: "tags_ok h (add_mset m R)" and p: "path (nexts (th_cells h)) m (ps @ xs) None"
    and one: "td_count (the (th_cells h a)) = 1"
    using assms a by (simp_all add: cursor_def)
  from a have "a \<in> set (ps @ xs)" by simp
  then obtain d where "th_cells h a = Some d" by (rule tags_ok_live [OF ok p])
  with tags_okD(1) [OF ok this] one show "count (add_mset m R + ptrs (nexts (th_cells h))) (Some a) = 1" by simp
qed

text \<open>Where the heap before the pointer is written differs from the first one: the node \<open>x\<close> has lost a
  reference, its successor has gained one, and the copy \<open>c\<close> is new.\<close>

definition copied :: "tag_heap \<Rightarrow> tag_heap \<Rightarrow> addr \<Rightarrow> tag_data \<Rightarrow> addr \<Rightarrow> bool" where
  "copied h h' x d c \<longleftrightarrow> th_brk h' = Suc c \<and> nexts (th_cells h') = (nexts (th_cells h))(c \<mapsto> td_next d)
     \<and> (\<exists>e. th_cells h' c = Some e \<and> td_count e = 1 \<and> td_size e = length (td_data e) \<and> td_size e < 2 ^ 32 - 1)
     \<and> (\<forall>a d'. a \<noteq> c \<longrightarrow> th_cells h' a = Some d' \<longrightarrow> (\<exists>d0. th_cells h a = Some d0 \<and> same_tag d0 d'
          \<and> td_count d' + (if a = x then 1 else 0) = td_count d0 + (if td_next d = Some a then 1 else 0)))"

lemma make_copy:
  assumes cur: "cursor h m R ps (x # ys)" and d: "th_cells h x = Some d" "1 < td_count d"
    and sz: "length bs = sz" "sz < 2 ^ 32 - 1"
  obtains h1 h2 h3 h4 where "dec_count x h = Some h1" "new_node sz tid (td_next d) h1 = Some (th_brk h, h2)"
    "th_cells h2 (th_brk h) = Some \<lparr>td_next = td_next d, td_count = 1, td_tid = tid, td_size = sz,
       td_data = map (th_garbage h (th_brk h)) [0..<sz]\<rparr>"
    "upd_cell (th_brk h) (\<lambda>d. d\<lparr>td_data := bs\<rparr>) h2 = Some h3" "inc_count (td_next d) h3 = Some h4"
    "copied h h4 x d (th_brk h)" "tag_of (the (th_cells h4 (th_brk h))) = (tid, bs)"
proof -
  let ?c = "th_brk h"
  have ok: "tags_ok h (add_mset m R)" and p: "path (nexts (th_cells h)) m (ps @ x # ys) None"
    using cur by (simp_all add: cursor_def)
  have c: "th_cells h ?c = None" by (rule tags_ok_brk [OF ok])
  with d have xc: "x \<noteq> ?c" by auto
  let ?h1 = "h\<lparr>th_cells := (th_cells h)(x \<mapsto> d\<lparr>td_count := td_count d - 1\<rparr>)\<rparr>"
  have 1: "dec_count x h = Some ?h1" using d by (intro dec_count_Some) auto
  let ?n = "\<lambda>data. \<lparr>td_next = td_next d, td_count = 1, td_tid = tid, td_size = sz, td_data = data\<rparr>"
  let ?g = "map (th_garbage h ?c) [0..<sz]"
  let ?h2 = "?h1\<lparr>th_cells := (th_cells ?h1)(?c \<mapsto> ?n ?g), th_brk := Suc ?c\<rparr>"
  have 2: "new_node sz tid (td_next d) ?h1 = Some (?c, ?h2)" using sz by (simp add: new_node_Some)
  let ?h3 = "?h2\<lparr>th_cells := (th_cells ?h2)(?c \<mapsto> ?n bs)\<rparr>"
  have 3: "upd_cell ?c (\<lambda>d. d\<lparr>td_data := bs\<rparr>) ?h2 = Some ?h3" by (simp add: upd_cell_Some)
  have nx: "\<exists>y dy. td_next d = Some y \<and> ys \<noteq> [] \<and> y = hd ys \<and> y \<noteq> x \<and> th_cells h y = Some dy" if "td_next d \<noteq> None"
  proof -
    from p d have py: "path (nexts (th_cells h)) (td_next d) ys None" by (auto simp: path_append)
    with that obtain y ys' where ys: "ys = y # ys'" by (cases ys) auto
    with py path_distinct [OF p] show ?thesis by auto
  qed
  have "\<exists>h4. inc_count (td_next d) ?h3 = Some h4 \<and> copied h h4 x d ?c \<and> tag_of (the (th_cells h4 ?c)) = (tid, bs)"
  proof (cases "td_next d")
    case None
    then show ?thesis
      using sz xc d c nexts_same [of "th_cells h" x d]
      by (intro exI [of _ ?h3]) (auto simp: inc_count_def copied_def same_tag_def tag_of_def)
  next
    case (Some y)
    with nx obtain dy where y: "y \<noteq> x" "th_cells h y = Some dy" by auto
    with c have yc: "y \<noteq> ?c" by auto
    let ?h4 = "?h3\<lparr>th_cells := (th_cells ?h3)(y \<mapsto> dy\<lparr>td_count := td_count dy + 1\<rparr>)\<rparr>"
    have "inc_count (td_next d) ?h3 = Some ?h4" using y yc Some by (simp add: inc_count_def upd_cell_Some)
    moreover have "nexts (th_cells ?h4) = (nexts (th_cells h))(?c \<mapsto> td_next d)"
      using y yc xc d nexts_same [of "th_cells h" x d] nexts_same [of "th_cells h" y dy]
      by (auto simp: fun_eq_iff nexts_def)
    ultimately show ?thesis
      using sz xc d c y yc Some
      by (intro exI [of _ ?h4]) (auto simp: copied_def same_tag_def tag_of_def simp del: nexts_upd)
  qed
  with 1 2 3 show ?thesis by (auto intro!: that)
qed

lemma view_Some:
  assumes "\<And>a. map_option (\<lambda>d. (td_count d, td_size d, tag_of d)) (th_cells h' a)
       = map_option (\<lambda>d. (td_count d, td_size d, tag_of d)) (th_cells h a)"
    and "th_cells h' a = Some d'"
  obtains d where "th_cells h a = Some d" "td_count d' = td_count d" "same_tag d d'"
  using assms(1) [of a] assms(2) by (cases "th_cells h a") (auto simp: same_tag_def)

lemma count_shift:
  "add_mset x A = add_mset y (add_mset z B) \<Longrightarrow>
     count A p + (if p = x then 1 else 0) = count B p + (if p = y then 1 else 0) + (if p = z then 1 else 0)"
  by (drule arg_cong [of _ _ "\<lambda>M. count M p"]) (auto split: if_splits)

lemma count_shift1:
  "add_mset x A = add_mset y B \<Longrightarrow>
     count A p + (if p = x then 1 else 0) = count B p + (if p = y then 1 else 0)"
  by (drule arg_cong [of _ _ "\<lambda>M. count M p"]) (auto split: if_splits)

lemma same_tag_length: "same_tag d d' \<Longrightarrow> td_size d = length (td_data d) \<Longrightarrow> td_size d' = length (td_data d')"
  by (simp add: same_tag_def tag_of_def)

lemma same_tag_trans: "same_tag d d' \<Longrightarrow> same_tag d' d'' \<Longrightarrow> same_tag d d''"
  by (simp add: same_tag_def)

lemma tags_of_same:
  assumes "set xs \<subseteq> dom (th_cells h')"
    and "\<And>a d'. a \<in> set xs \<Longrightarrow> th_cells h' a = Some d' \<Longrightarrow> \<exists>d. th_cells h a = Some d \<and> same_tag d d'"
  shows "tags_of h' xs = tags_of h xs"
  using assms by (intro tags_of_cong) (fastforce simp: same_tag_def)

lemma link_copy:
  assumes cur: "cursor h m R ps (x # ys)" and d: "th_cells h x = Some d" "1 < td_count d"
    and cp: "copied h h4 x d (th_brk h)"
  obtains h5 m5 where "set_slot (slot_of ps) (Some (th_brk h)) h4 m = Some (h5, m5)"
    "cursor h5 m5 R (ps @ [th_brk h]) ys" "keeps h h5 R"
    "tags_of h5 ps = tags_of h ps" "tags_of h5 ys = tags_of h ys"
    "tag_of (the (th_cells h5 (th_brk h))) = tag_of (the (th_cells h4 (th_brk h)))"
    "\<And>y. start ys = Some y \<Longrightarrow> 1 < td_count (the (th_cells h5 y))"
proof -
  let ?c = "th_brk h" and ?N = "nexts (th_cells h)" and ?n = "td_next d"
  have ok: "tags_ok h (add_mset m R)" and p: "path ?N m (ps @ x # ys) None"
    using cur by (simp_all add: cursor_def)
  note own = cursor_own [OF cur]
  have Nx: "?N x = Some ?n" using d by simp
  have c: "?N ?c = None" using tags_ok_brk [OF ok] by simp
  have two: "1 < count (add_mset m R + ptrs ?N) (Some x)" using d tags_okD(1) [OF ok d(1)] by simp
  have dis: "distinct (ps @ x # ys)" using p by (rule path_distinct)
  have sub: "set (ps @ x # ys) \<subseteq> dom (th_cells h)" using path_dom [OF p] by simp
  with c have cn: "?c \<notin> set (ps @ x # ys)" by auto
  have pp: "path ?N m ps (Some x)" "path ?N ?n ys None" using p d by (auto simp: path_append)
  have n: "?n = start ys" using pp(2) by (rule path_start)
  have N4: "nexts (th_cells h4) = ?N(?c \<mapsto> ?n)" and brk4: "th_brk h4 = Suc ?c"
    using cp by (auto simp: copied_def)
  have "path (nexts (th_cells h4)) m ps (Some x)" unfolding N4 using pp(1) cn by (simp add: path_upd)
  then obtain h5 where s: "set_slot (slot_of ps) (Some ?c) h4 m = Some (h5, new_root ps (Some ?c) m)"
    and N5: "nexts (th_cells h5) = relink ps (Some ?c) (nexts (th_cells h4))" and brk5: "th_brk h5 = Suc ?c"
    and view: "\<And>a. map_option (\<lambda>d. (td_count d, td_size d, tag_of d)) (th_cells h5 a)
       = map_option (\<lambda>d. (td_count d, td_size d, tag_of d)) (th_cells h4 a)"
    using brk4 by (elim set_slot_of) auto
  let ?m = "new_root ps (Some ?c) m"
  note sh = unshare_shape [OF tags_ok_shape(1) [OF ok] p Nx own two c N5 [unfolded N4] refl]
  \<comment> \<open>what each node of the new heap is\<close>
  have new: "\<exists>e. th_cells h5 ?c = Some e \<and> td_count e = 1 \<and> td_size e = length (td_data e) \<and> td_size e < 2 ^ 32 - 1"
    "tag_of (the (th_cells h5 ?c)) = tag_of (the (th_cells h4 ?c))"
  proof -
    from cp obtain e where e: "th_cells h4 ?c = Some e" "td_count e = 1" "td_size e = length (td_data e)"
      "td_size e < 2 ^ 32 - 1" by (auto simp: copied_def)
    with view [of ?c] obtain e' where "th_cells h5 ?c = Some e'" "td_count e' = td_count e"
      "td_size e' = td_size e" "tag_of e' = tag_of e" by auto
    with e show "\<exists>e. th_cells h5 ?c = Some e \<and> td_count e = 1 \<and> td_size e = length (td_data e) \<and> td_size e < 2 ^ 32 - 1"
      and "tag_of (the (th_cells h5 ?c)) = tag_of (the (th_cells h4 ?c))"
      by (auto simp: tag_of_def)
  qed
  have old: "\<exists>d0. th_cells h a = Some d0 \<and> same_tag d0 d5
      \<and> td_count d5 + (if a = x then 1 else 0) = td_count d0 + (if ?n = Some a then 1 else 0)"
    if "a \<noteq> ?c" "th_cells h5 a = Some d5" for a d5
  proof -
    from view_Some [OF view that(2)] obtain d4 where d4: "th_cells h4 a = Some d4" "td_count d5 = td_count d4" "same_tag d4 d5"
      by blast
    with cp that(1) obtain d0 where "th_cells h a = Some d0" "same_tag d0 d4"
      "td_count d4 + (if a = x then 1 else 0) = td_count d0 + (if ?n = Some a then 1 else 0)"
      unfolding copied_def by blast
    with d4 show ?thesis using same_tag_trans by auto
  qed
  have nc: "?n \<noteq> Some ?c" using n cn by (cases ys) auto
  have cnt: "count (add_mset ?m R + ptrs (nexts (th_cells h5))) p + (if p = Some x then 1 else 0)
      = count (add_mset m R + ptrs ?N) p + (if p = ?n then 1 else 0) + (if p = Some ?c then 1 else 0)" for p
    using sh(4) by (rule count_shift)
  have c0: "count (add_mset m R + ptrs ?N) (Some ?c) = 0"
    using ptr_in_dom [OF tags_ok_shape(1) [OF ok], of ?c] c by (metis count_inI domIff)
  have ok5: "tags_ok h5 (add_mset ?m R)"
  proof (rule tags_okI [OF sh(1)])
    fix a d5
    assume a: "th_cells h5 a = Some d5"
    show "td_count d5 = count (add_mset ?m R + ptrs (nexts (th_cells h5))) (Some a)"
    proof (cases "a = ?c")
      case True
      then show ?thesis using a new(1) cnt [of "Some ?c"] c0 nc cn by auto
    next
      case False
      from old [OF this a] obtain d0 where d0: "th_cells h a = Some d0"
        "td_count d5 + (if a = x then 1 else 0) = td_count d0 + (if ?n = Some a then 1 else 0)" by blast
      then show ?thesis using cnt [of "Some a"] tags_okD(1) [OF ok d0(1)] False by (simp split: if_splits)
    qed
    show "a < th_brk h5 \<and> td_size d5 = length (td_data d5) \<and> td_size d5 < 2 ^ 32 - 1"
    proof (cases "a = ?c")
      case True
      then show ?thesis using a new(1) brk5 by auto
    next
      case False
      from old [OF this a] obtain d0 where d0: "th_cells h a = Some d0" "same_tag d0 d5" by blast
      from tags_okD(2-4) [OF ok d0(1)] d0(2) brk5 show ?thesis
        using same_tag_length [OF d0(2)] unfolding same_tag_def by simp
    qed
  qed
  have sub5: "set (ps @ ?c # ys) \<subseteq> dom (th_cells h5)" using path_dom [OF sh(2)] by simp
  have one: "td_count (the (th_cells h5 a)) = 1" if a: "a \<in> set (ps @ [?c])" for a
  proof (cases "a = ?c")
    case True
    then show ?thesis using new(1) by auto
  next
    case False
    with a have a': "a \<in> set ps" by simp
    with sub5 obtain d5 where d5: "th_cells h5 a = Some d5" by auto
    from old [OF False d5] obtain d0 where d0: "th_cells h a = Some d0"
        "td_count d5 + (if a = x then 1 else 0) = td_count d0 + (if ?n = Some a then 1 else 0)" by blast
    have "a \<noteq> x" "?n \<noteq> Some a" using a' dis n by (auto simp: start_def split: list.splits)
    moreover have "td_count d0 = 1" using cur a' d0(1) by (auto simp: cursor_def)
    ultimately show ?thesis using d0 d5 by simp
  qed
  have merge: "1 < td_count (the (th_cells h5 y))" if y: "start ys = Some y" for y
  proof -
    have yy: "y \<in> set ys" using y by (auto simp: start_def split: list.splits)
    with cn dis have yn: "y \<noteq> ?c" "y \<noteq> x" by auto
    from yy sub5 obtain d5 where d5: "th_cells h5 y = Some d5" by auto
    from old [OF yn(1) d5] n y yn obtain d0 where d0: "th_cells h y = Some d0" "td_count d5 = td_count d0 + 1" by auto
    have "Some y \<in># ptrs ?N" using in_ptrs [of ?N "Some y"] tags_ok_shape(2) [OF ok] d n y by auto
    then have "0 < td_count d0" using tags_okD(1) [OF ok d0(1)] by simp
    with d5 d0 show ?thesis by simp
  qed
  have keep: "keeps h h5 R"
  proof (rule keepsI)
    fix a d0 d5
    assume a: "th_cells h a = Some d0" "th_cells h5 a = Some d5"
    then have "a \<noteq> ?c" using c by auto
    from old [OF this a(2)] a(1) show "tag_of d5 = tag_of d0" by (auto simp: same_tag_def)
  qed (rule sh(3))
  have tags: "tags_of h5 zs = tags_of h zs" if "set zs \<subseteq> set (ps @ ys)" for zs
  proof (rule tags_of_same)
    show "set zs \<subseteq> dom (th_cells h5)" using that sub5 by auto
    fix a d'
    assume "a \<in> set zs" "th_cells h5 a = Some d'"
    with that cn old show "\<exists>d. th_cells h a = Some d \<and> same_tag d d'" by (metis Un_iff list.set_intros(2) set_append subsetD)
  qed
  show ?thesis
    by (rule that [OF s _ keep tags tags new(2) merge]) (use ok5 sh(2) one in \<open>auto simp: cursor_def\<close>)
qed

section \<open>The traversal\<close>

definition tid_at :: "tag_heap \<Rightarrow> addr \<Rightarrow> nat" where
  "tid_at h a = td_tid (the (th_cells h a))"

lemma fst_tag_of [simp]: "fst (tag_of d) = td_tid d"
  by (simp add: tag_of_def)

lemma map_fst_tags_of: "map fst (tags_of h xs) = map (tid_at h) xs"
  by (simp add: tags_of_def tid_at_def)

lemma tids_of: "fst ` set (tags_of h xs) = tid_at h ` set xs"
  by (metis list.set_map map_fst_tags_of)

lemma path_ConsE:
  assumes "path (nexts (th_cells h)) p (x # xs) q"
  obtains d where "p = Some x" "th_cells h x = Some d" "path (nexts (th_cells h)) (td_next d) xs q"
  using assms by auto

lemma path_drop: "path N p (xs @ ys) None \<Longrightarrow> path N (start ys) ys None"
  unfolding path_append by (metis path_start)

lemma find_tid_ok:
  "path (nexts (th_cells h)) p xs None \<Longrightarrow>
     find_tid tid h p = Some (start (dropWhile (\<lambda>a. tid_at h a \<noteq> tid) xs))"
proof (induction xs arbitrary: p)
  case Nil
  then show ?case by (subst find_tid.simps) simp
next
  case (Cons x xs)
  from Cons.prems obtain d where d: "p = Some x" "th_cells h x = Some d"
    "path (nexts (th_cells h)) (td_next d) xs None" by (rule path_ConsE)
  with Cons.IH [OF d(3)] show ?case by (subst find_tid.simps) (auto simp: tid_at_def)
qed

lemma find_before_merge_ok:
  fixes tid h
  defines "P \<equiv> \<lambda>a. td_count (the (th_cells h a)) \<le> 1 \<and> tid_at h a \<noteq> tid"
  shows "path (nexts (th_cells h)) p xs None \<Longrightarrow>
     find_before_merge tid h (slot_of ps) p
       = Some (slot_of (ps @ takeWhile P xs), start (dropWhile P xs),
               dropWhile P xs \<noteq> [] \<and> td_count (the (th_cells h (hd (dropWhile P xs)))) \<le> 1)"
proof (induction xs arbitrary: p ps)
  case Nil
  then show ?case by (subst find_before_merge.simps) simp
next
  case (Cons x xs)
  from Cons.prems obtain d where d: "p = Some x" "th_cells h x = Some d"
    "path (nexts (th_cells h)) (td_next d) xs None" by (rule path_ConsE)
  show ?case
  proof (cases "P x")
    case True
    then have "find_before_merge tid h (slot_of ps) p = find_before_merge tid h (slot_of (ps @ [x])) (td_next d)"
      using d by (subst find_before_merge.simps) (auto simp: P_def tid_at_def slot_of_def)
    with Cons.IH [OF d(3), of "ps @ [x]"] True show ?thesis by simp
  next
    case False
    then show ?thesis
      using d by (subst find_before_merge.simps) (auto simp: P_def tid_at_def not_le)
  qed
qed

lemma on_path_counted:
  assumes ok: "tags_ok h (add_mset m R)" and p: "path (nexts (th_cells h)) m xs None" and a: "a \<in> set xs"
  shows "0 < td_count (the (th_cells h a))"
proof -
  from a obtain us vs where xs: "xs = us @ a # vs" by (metis split_list)
  with p have us: "path (nexts (th_cells h)) m us (Some a)" by (auto simp: path_append)
  obtain d where d: "th_cells h a = Some d" by (rule tags_ok_live [OF ok p a])
  have "Some a \<in># add_mset m R + ptrs (nexts (th_cells h))"
  proof (cases "us = []")
    case False
    from path_last [OF us this] show ?thesis
      using in_ptrs [of "nexts (th_cells h)" "Some a"] tags_ok_shape(2) [OF ok] by auto
  qed (use us in simp)
  with tags_okD(1) [OF ok d] d show ?thesis by (metis count_greater_zero_iff option.sel)
qed

lemma copy_node_ok:
  assumes cur: "cursor h m R ps (x # y # ys)" and two: "1 < td_count (the (th_cells h x))"
  obtains c h' m' where "copy_node x (slot_of ps) h m = Some (c, Some y, h', m')"
    "cursor h' m' R (ps @ [c]) (y # ys)" "keeps h h' R"
    "tags_of h' (ps @ [c]) = tags_of h (ps @ [x])" "tags_of h' (y # ys) = tags_of h (y # ys)"
    "1 < td_count (the (th_cells h' y))"
proof -
  have ok: "tags_ok h (add_mset m R)" and p: "path (nexts (th_cells h)) m (ps @ x # y # ys) None"
    using cur by (simp_all add: cursor_def)
  then obtain d where d: "th_cells h x = Some d" and y: "td_next d = Some y" by (auto simp: path_append)
  have two': "1 < td_count d" using two d by simp
  note sz = tags_okD(2,3) [OF ok d]
  let ?bs = "take (td_size d) (td_data d)"
  have bs: "length ?bs = td_size d" using sz by simp
  obtain h1 h2 h3 h4 where
    1: "dec_count x h = Some h1" "new_node (td_size d) (td_tid d) (td_next d) h1 = Some (th_brk h, h2)"
      and "th_cells h2 (th_brk h) = Some \<lparr>td_next = td_next d, td_count = 1, td_tid = td_tid d, td_size = td_size d,
       td_data = map (th_garbage h (th_brk h)) [0..<td_size d]\<rparr>"
      and 2: "upd_cell (th_brk h) (\<lambda>d. d\<lparr>td_data := ?bs\<rparr>) h2 = Some h3" "inc_count (td_next d) h3 = Some h4"
      and cp: "copied h h4 x d (th_brk h)" and tag: "tag_of (the (th_cells h4 (th_brk h))) = (td_tid d, ?bs)"
    by (rule make_copy [OF cur d two' bs sz(2)])
  from link_copy [OF cur d two' cp] obtain h5 m5 where
    3: "set_slot (slot_of ps) (Some (th_brk h)) h4 m = Some (h5, m5)"
    and r: "cursor h5 m5 R (ps @ [th_brk h]) (y # ys)" "keeps h h5 R" "tags_of h5 ps = tags_of h ps"
      "tags_of h5 (y # ys) = tags_of h (y # ys)"
      "tag_of (the (th_cells h5 (th_brk h))) = tag_of (the (th_cells h4 (th_brk h)))"
      "1 < td_count (the (th_cells h5 y))"
    by (metis start_simps(2))
  have "copy_node x (slot_of ps) h m = Some (th_brk h, Some y, h5, m5)"
    using d two' 1 2 3 y by (simp add: copy_node_def)
  moreover have "tags_of h5 (ps @ [th_brk h]) = tags_of h (ps @ [x])"
    using r(3,5) tag d sz by (simp add: tag_of_def)
  ultimately show ?thesis using r that by blast
qed

lemma copy_until_ok:
  "cursor h m R ps xs \<Longrightarrow> xs \<noteq> [] \<Longrightarrow> 1 < td_count (the (th_cells h (hd xs))) \<Longrightarrow>
   tid \<in> tid_at h ` set xs \<Longrightarrow> tid \<notin> tid_at h ` set ps \<Longrightarrow>
   \<exists>a ps' ys h' m'. copy_until tid (start xs) (slot_of ps) h m = Some (a, slot_of ps', h', m')
     \<and> cursor h' m' R ps' (a # ys) \<and> keeps h h' R \<and> tags_of h' (ps' @ a # ys) = tags_of h (ps @ xs)
     \<and> tid_at h' a = tid \<and> tid \<notin> tid_at h' ` set ps' \<and> 1 < td_count (the (th_cells h' a))"
proof (induction xs arbitrary: h m ps)
  case (Cons x xs)
  note cur = Cons.prems(1)
  have ok: "tags_ok h (add_mset m R)" and p: "path (nexts (th_cells h)) m (ps @ x # xs) None"
    using cur by (simp_all add: cursor_def)
  then obtain d where d: "th_cells h x = Some d" by (auto simp: path_append)
  have two: "1 < td_count (the (th_cells h x))" using Cons.prems by simp
  show ?case
  proof (cases "tid_at h x = tid")
    case True
    then have "copy_until tid (start (x # xs)) (slot_of ps) h m = Some (x, slot_of ps, h, m)"
      using d two by (subst copy_until.simps) (auto simp: tid_at_def)
    with True cur two Cons.prems(5) show ?thesis
      by (intro exI [of _ x] exI [of _ ps] exI [of _ xs] exI [of _ h] exI [of _ m]) simp
  next
    case False
    with Cons.prems(4) obtain y ys where xs: "xs = y # ys" by (cases xs) auto
    from copy_node_ok [OF cur [unfolded xs] two] obtain c h1 m1 where
      1: "copy_node x (slot_of ps) h m = Some (c, Some y, h1, m1)" "cursor h1 m1 R (ps @ [c]) xs"
        "keeps h h1 R" "tags_of h1 (ps @ [c]) = tags_of h (ps @ [x])" "tags_of h1 xs = tags_of h xs"
        "1 < td_count (the (th_cells h1 (hd xs)))"
      unfolding xs by auto
    have tids: "tid_at h1 ` set (ps @ [c]) = tid_at h ` set (ps @ [x])" "tid_at h1 ` set xs = tid_at h ` set xs"
      using 1(4,5) by (metis tids_of)+
    have "copy_until tid (start (x # xs)) (slot_of ps) h m = copy_until tid (start xs) (slot_of (ps @ [c])) h1 m1"
      using d False 1(1) xs by (subst copy_until.simps) (simp add: tid_at_def slot_of_def)
    moreover have "tid \<in> tid_at h1 ` set xs" "tid \<notin> tid_at h1 ` set (ps @ [c])"
      using Cons.prems(4,5) False tids by auto
    moreover have "tags_of h1 ((ps @ [c]) @ xs) = tags_of h (ps @ x # xs)"
      using 1(4,5) by simp
    ultimately show ?thesis
      using Cons.IH [OF 1(2) _ 1(6)] xs keeps_trans [OF 1(3)] by (metis list.distinct(1))
  qed
qed simp

text \<open>What the traversal hands to the writer: the first node with the tag, which is either owned by the
  list, with all nodes in front of it, or shared, with copies in front of it that are owned.\<close>

lemma COWTraverse_absent:
  assumes "path (nexts (th_cells h)) m xs None" "GetInstanceTypeId c \<notin> tid_at h ` set xs"
  shows "COWTraverse c W tag h m = Some (False, tag, h, m)"
proof -
  define tid where "tid = GetInstanceTypeId c"
  define P where "P = (\<lambda>a. td_count (the (th_cells h a)) \<le> 1 \<and> tid_at h a \<noteq> tid)"
  define us zs where "us = takeWhile P xs" and "zs = dropWhile P xs"
  have uz: "xs = us @ zs" by (simp add: us_def zs_def)
  have absent: "tid_at h a \<noteq> tid" if "a \<in> set xs" for a
    using assms(2) that unfolding tid_def image_iff by metis
  have zs: "path (nexts (th_cells h)) (start zs) zs None"
    using assms(1) unfolding uz by (rule path_drop)
  have f: "find_before_merge tid h List_head m
      = Some (slot_of us, start zs, zs \<noteq> [] \<and> td_count (the (th_cells h (hd zs))) \<le> 1)"
    using find_before_merge_ok [OF assms(1), of tid "[]", folded P_def, folded us_def zs_def]
    by (simp add: slot_of_def)
  have nohit: "\<not> td_count (the (th_cells h z)) \<le> 1" if z: "zs = z # zs'" for z zs'
  proof -
    have "\<not> P z" using z hd_dropWhile [of P xs] by (simp add: zs_def)
    moreover have "z \<in> set xs" using z uz by simp
    ultimately show ?thesis using absent [of z] by (simp add: P_def)
  qed
  have dw: "dropWhile (\<lambda>a. tid_at h a \<noteq> tid) zs = []"
    unfolding dropWhile_eq_Nil_conv using absent uz by simp
  have it: "find_tid tid h (start zs) = Some None" unfolding find_tid_ok [OF zs] dw by simp
  show ?thesis
  proof (cases zs)
    case Nil
    then show ?thesis using f by (simp add: COWTraverse_def Let_def tid_def)
  next
    case (Cons z zs')
    then show ?thesis using f it nohit [OF Cons] by (simp add: COWTraverse_def Let_def tid_def)
  qed
qed

lemma COWTraverse_found:
  assumes cur: "cursor h m R [] xs" and tid: "GetInstanceTypeId c \<in> tid_at h ` set xs"
  obtains pre a ps ys h1 m1 where "COWTraverse c W tag h m = W tag pre a (slot_of ps) h1 m1"
    "cursor h1 m1 R ps (a # ys)" "keeps h h1 R" "tags_of h1 (ps @ a # ys) = tags_of h xs"
    "tid_at h1 a = GetInstanceTypeId c" "GetInstanceTypeId c \<notin> tid_at h1 ` set ps"
    "if pre then td_count (the (th_cells h1 a)) = 1 else 1 < td_count (the (th_cells h1 a))"
proof -
  define tid where "tid = GetInstanceTypeId c"
  define P where "P = (\<lambda>a. td_count (the (th_cells h a)) \<le> 1 \<and> tid_at h a \<noteq> tid)"
  define us zs where "us = takeWhile P xs" and "zs = dropWhile P xs"
  have uz: "us @ zs = xs" by (simp add: us_def zs_def)
  have ok: "tags_ok h (add_mset m R)" and p: "path (nexts (th_cells h)) m xs None"
    using cur by (simp_all add: cursor_def)
  have pos: "0 < td_count (the (th_cells h a))" if "a \<in> set xs" for a
    using on_path_counted [OF ok p that] .
  have us: "td_count (the (th_cells h a)) = 1 \<and> tid_at h a \<noteq> tid" if "a \<in> set us" for a
    using set_takeWhileD [of a P xs] that pos [of a] by (auto simp: us_def P_def)
  have cur': "cursor h m R us zs" using ok p us uz by (simp add: cursor_def)
  have notus: "tid \<notin> tid_at h ` set us" using us by (metis imageE)
  have tidz: "tid \<in> tid_at h ` set zs" using tid notus uz unfolding tid_def by (metis Un_iff image_Un set_append)
  have "zs \<noteq> []" using tidz by (metis empty_iff image_empty list.set(1))
  then obtain z zs' where z: "zs = z # zs'" by (auto simp only: neq_Nil_conv)
  have zin: "z \<in> set xs" using z uz by auto
  have zP: "\<not> P z" using z hd_dropWhile [of P xs] by (simp add: zs_def)
  have f: "find_before_merge tid h List_head m = Some (slot_of us, Some z, td_count (the (th_cells h z)) \<le> 1)"
    using find_before_merge_ok [OF p, of tid "[]", folded P_def, folded us_def zs_def] z
    by (simp add: slot_of_def)
  show ?thesis
  proof (cases "td_count (the (th_cells h z)) \<le> 1")
    case True
    have "COWTraverse c W tag h m = W tag True z (slot_of us) h m"
      using f True by (simp add: COWTraverse_def Let_def tid_def)
    moreover have "td_count (the (th_cells h z)) = 1" using True pos [OF zin] by simp
    moreover have "tid_at h z = tid" using zP True by (simp add: P_def)
    moreover have "us @ z # zs' = xs" using z uz by simp
    then have "tags_of h (us @ z # zs') = tags_of h xs" by (simp only:)
    ultimately show ?thesis
      using that [of True z us h m zs'] cur' z notus by (simp add: tid_def)
  next
    case False
    have "path (nexts (th_cells h)) (start zs) zs None"
      using p unfolding uz [symmetric] by (rule path_drop)
    then have "find_tid tid h (Some z) = Some (start (dropWhile (\<lambda>a. tid_at h a \<noteq> tid) zs))"
      using find_tid_ok z by (metis start_simps(2))
    moreover have "dropWhile (\<lambda>a. tid_at h a \<noteq> tid) zs \<noteq> []"
      unfolding dropWhile_eq_Nil_conv using tidz by (metis imageE)
    ultimately obtain it where it: "find_tid tid h (Some z) = Some (Some it)"
      by (cases "dropWhile (\<lambda>a. tid_at h a \<noteq> tid) zs") auto
    have "1 < td_count (the (th_cells h (hd zs)))" using False z by simp
    from copy_until_ok [OF cur' \<open>zs \<noteq> []\<close> this tidz notus] obtain a ps ys h1 m1 where
      r: "copy_until tid (Some z) (slot_of us) h m = Some (a, slot_of ps, h1, m1)"
      "cursor h1 m1 R ps (a # ys)" "keeps h h1 R" "tags_of h1 (ps @ a # ys) = tags_of h xs"
      "tid_at h1 a = tid" "tid \<notin> tid_at h1 ` set ps" "1 < td_count (the (th_cells h1 a))"
      unfolding uz unfolding z by (auto simp: not_le)
    have "COWTraverse c W tag h m = W tag False a (slot_of ps) h1 m1"
      using f False it r(1) by (simp add: COWTraverse_def Let_def tid_def)
    then show ?thesis using that [of False a ps h1 m1 ys] r by (simp add: tid_def)
  qed
qed

section \<open>The writers\<close>

primrec tags_remove :: "nat \<Rightarrow> (nat \<times> 'v) list \<Rightarrow> (nat \<times> 'v) list" where
  "tags_remove tid [] = []"
| "tags_remove tid (v # vs) = (if fst v = tid then vs else v # tags_remove tid vs)"

primrec tags_replace :: "nat \<Rightarrow> 'v \<Rightarrow> (nat \<times> 'v) list \<Rightarrow> (nat \<times> 'v) list" where
  "tags_replace tid b [] = []"
| "tags_replace tid b (v # vs) = (if fst v = tid then (tid, b) # vs else v # tags_replace tid b vs)"

lemma tags_first:
  assumes "tid \<notin> fst ` set us"
  shows "tags_remove tid (us @ (tid, b) # ws) = us @ ws"
    "tags_replace tid b' (us @ (tid, b) # ws) = us @ (tid, b') # ws"
    "map_of (us @ (tid, b) # ws) tid = Some b"
  using assms by (induction us) auto

text \<open>Pointers that are null do not count.\<close>

lemma tags_ok_None: "tags_ok h (add_mset None R) = tags_ok h R"
  by (auto simp: tags_ok_def shape_ok_def cell_ok_def)

lemma keepsI_except:
  assumes paths: "\<And>q zs. q \<in># R \<Longrightarrow> path (nexts (th_cells h)) q zs None \<Longrightarrow> path (nexts (th_cells h')) q zs None \<and> a \<notin> set zs"
    and same: "\<And>b d d'. b \<noteq> a \<Longrightarrow> th_cells h b = Some d \<Longrightarrow> th_cells h' b = Some d' \<Longrightarrow> tag_of d' = tag_of d"
  shows "keeps h h' R"
  unfolding keeps_def
proof (intro ballI allI impI)
  fix q vs
  assume q: "q \<in># R" "has_tags h q vs"
  then obtain zs where zs: "path (nexts (th_cells h)) q zs None" "tags_of h zs = vs"
    by (auto simp: has_tags_def)
  have zs': "path (nexts (th_cells h')) q zs None" "a \<notin> set zs" using paths q(1) zs(1) by blast+
  have "set zs \<subseteq> dom (th_cells h)" "set zs \<subseteq> dom (th_cells h')"
    using path_dom [OF zs(1)] path_dom [OF zs'(1)] by simp_all
  then have "tags_of h' zs = tags_of h zs"
    using zs'(2) by (intro tags_of_cong) (metis domD option.sel same subsetD)
  with zs zs' show "has_tags h' q vs" by (auto simp: has_tags_def)
qed

text \<open>What \<open>cursor\<close> says about the node it points to.\<close>

lemma cursor_node:
  assumes "cursor h m R ps (a # ys)"
  obtains d where "th_cells h a = Some d" "tags_ok h (add_mset m R)"
    "path (nexts (th_cells h)) m (ps @ a # ys) None" "path (nexts (th_cells h)) m ps (Some a)"
    "nexts (th_cells h) a = Some (td_next d)" "distinct (ps @ a # ys)"
    "td_count d = count (add_mset m R + ptrs (nexts (th_cells h))) (Some a)"
    "td_size d = length (td_data d)" "td_size d < 2 ^ 32 - 1"
proof -
  have ok: "tags_ok h (add_mset m R)" and p: "path (nexts (th_cells h)) m (ps @ a # ys) None"
    using assms by (simp_all add: cursor_def)
  from p obtain d where "path (nexts (th_cells h)) m ps (Some a)" and d: "th_cells h a = Some d"
    by (auto simp: path_append)
  then show ?thesis
    using ok p path_distinct [OF p] tags_okD(1-3) [OF ok d] by (intro that [of d]) simp_all
qed

lemma set_slot_ok:
  assumes cur: "cursor h m R ps (a # ys)"
  obtains h' where "set_slot (slot_of ps) v h m = Some (h', new_root ps v m)"
    "nexts (th_cells h') = relink ps v (nexts (th_cells h))" "th_brk h' = th_brk h"
    "\<And>b d'. th_cells h' b = Some d' \<Longrightarrow> \<exists>d. th_cells h b = Some d \<and> td_count d' = td_count d \<and> same_tag d d'"
proof -
  from cur obtain d where p: "path (nexts (th_cells h)) m ps (Some a)" by (rule cursor_node)
  show ?thesis
    by (rule set_slot_of [OF p, of v]) (rule that, assumption+, erule view_Some, auto)
qed

lemma remove_owned_ok:
  assumes cur: "cursor h m R ps (a # ys)" and one: "td_count (the (th_cells h a)) = 1"
    and d: "th_cells h a = Some d"
  obtains h1 m1 where "set_slot (slot_of ps) (td_next d) h m = Some (h1, m1)"
    "tags_ok (free_cell a h1) (add_mset m1 R)" "keeps h (free_cell a h1) R"
    "has_tags (free_cell a h1) m1 (tags_of h ps @ tags_of h ys)"
proof -
  let ?N = "nexts (th_cells h)"
  from cursor_node [OF cur] d have ok: "tags_ok h (add_mset m R)" and p: "path ?N m (ps @ a # ys) None"
    and Na: "?N a = Some (td_next d)" and dis: "distinct (ps @ a # ys)"
    and cnt: "td_count d = count (add_mset m R + ptrs ?N) (Some a)"
    by (metis option.sel)+
  obtain h1 where s: "set_slot (slot_of ps) (td_next d) h m = Some (h1, new_root ps (td_next d) m)"
    and N1: "nexts (th_cells h1) = relink ps (td_next d) ?N" and brk: "th_brk h1 = th_brk h"
    and view: "\<And>b d'. th_cells h1 b = Some d' \<Longrightarrow> \<exists>d. th_cells h b = Some d \<and> td_count d' = td_count d \<and> same_tag d d'"
    using set_slot_ok [OF cur, of "td_next d"] by blast
  let ?h = "free_cell a h1" and ?m = "new_root ps (td_next d) m"
  have N2: "nexts (th_cells ?h) = (relink ps (td_next d) ?N)(a := None)"
    by (simp add: free_cell_def N1)
  have "\<forall>b \<in> set (ps @ [a]). count (add_mset m R + ptrs ?N) (Some b) = 1"
    using cursor_own [OF cur] cnt one d by simp
  note sh = remove_owned_shape [OF tags_ok_shape(1) [OF ok] p Na this N2 refl]
  have view2: "\<exists>e. th_cells h b = Some e \<and> td_count d' = td_count e \<and> same_tag e d'" "b \<noteq> a"
    if "th_cells ?h b = Some d'" for b d'
    using that view by (auto simp: free_cell_def split: if_splits)
  have ok': "tags_ok ?h (add_mset ?m R)"
  proof (rule tags_okI [OF sh(1)])
    fix b d'
    assume b: "th_cells ?h b = Some d'"
    from view2 [OF this] obtain e where e: "b \<noteq> a" "th_cells h b = Some e" "td_count d' = td_count e" "same_tag e d'" by blast
    have "count (add_mset ?m R + ptrs (nexts (th_cells ?h))) (Some b) = count (add_mset m R + ptrs ?N) (Some b)"
      using arg_cong [OF sh(4), of "\<lambda>M. count M (Some b)"] e(1) by simp
    with tags_okD(1) [OF ok e(2)] e(3) show "td_count d' = count (add_mset ?m R + ptrs (nexts (th_cells ?h))) (Some b)"
      by (simp only:)
    show "b < th_brk ?h \<and> td_size d' = length (td_data d') \<and> td_size d' < 2 ^ 32 - 1"
      using tags_okD(2-4) [OF ok e(2)] e(4) same_tag_length [OF e(4)] brk
      unfolding same_tag_def free_cell_def by simp
  qed
  have "keeps h ?h R"
    by (rule keepsI [OF sh(3)]) (auto dest!: view2(1) simp: same_tag_def)
  moreover have "tags_of ?h (ps @ ys) = tags_of h (ps @ ys)"
  proof (rule tags_of_same)
    show "set (ps @ ys) \<subseteq> dom (th_cells ?h)" using path_dom [OF sh(2)] by simp
  qed (use view2(1) in blast)
  ultimately show ?thesis
    using that [OF s ok'] has_tagsI [OF sh(2)] by simp
qed

lemma remove_shared_ok:
  assumes cur: "cursor h m R ps (a # ys)" and two: "1 < td_count (the (th_cells h a))"
    and d: "th_cells h a = Some d"
  obtains h1 h2 h3 m1 where "set_slot (slot_of ps) (td_next d) h m = Some (h1, m1)"
    "dec_count a h1 = Some h2" "inc_count (td_next d) h2 = Some h3"
    "tags_ok h3 (add_mset m1 R)" "keeps h h3 R" "has_tags h3 m1 (tags_of h ps @ tags_of h ys)"
proof -
  let ?N = "nexts (th_cells h)" and ?n = "td_next d" and ?m = "new_root ps (td_next d) m"
  from cursor_node [OF cur] d have ok: "tags_ok h (add_mset m R)" and p: "path ?N m (ps @ a # ys) None"
    and Na: "?N a = Some ?n" and dis: "distinct (ps @ a # ys)"
    and cnt: "td_count d = count (add_mset m R + ptrs ?N) (Some a)"
    by (metis option.sel)+
  obtain h1 where s: "set_slot (slot_of ps) ?n h m = Some (h1, ?m)"
    and N1: "nexts (th_cells h1) = relink ps ?n ?N" and brk: "th_brk h1 = th_brk h"
    and view: "\<And>b d'. th_cells h1 b = Some d' \<Longrightarrow> \<exists>d. th_cells h b = Some d \<and> td_count d' = td_count d \<and> same_tag d d'"
    using set_slot_ok [OF cur, of "td_next d"] by blast
  have "1 < count (add_mset m R + ptrs ?N) (Some a)" using cnt two d by simp
  note sh = remove_shared_shape [OF tags_ok_shape(1) [OF ok] p Na cursor_own [OF cur] this N1 refl]
  have pa: "path ?N m ps (Some a)" using p by (auto simp: path_append)
  have dom1: "dom (th_cells h1) = dom (th_cells h)"
    using dom_relink [OF pa, of ?n] unfolding N1 [symmetric] by simp
  then obtain d1 where d1': "th_cells h1 a = Some d1" using d by auto
  with view [OF this] d have d1: "th_cells h1 a = Some d1" "td_count d1 = td_count d" by auto
  let ?h2 = "h1\<lparr>th_cells := (th_cells h1)(a \<mapsto> d1\<lparr>td_count := td_count d1 - 1\<rparr>)\<rparr>"
  have 2: "dec_count a h1 = Some ?h2" using d1 two d by (intro dec_count_Some) auto
  have na: "?n \<noteq> Some a"
  proof -
    have "path ?N ?n ys None" using p d by (auto simp: path_append)
    then have "?n = start ys" by (rule path_start)
    with dis show ?thesis by (auto simp: start_def split: list.splits)
  qed
  obtain h3 where 3: "inc_count ?n ?h2 = Some h3" and N3: "nexts (th_cells h3) = nexts (th_cells h1)"
    and brk3: "th_brk h3 = th_brk h1"
    and view3: "\<And>b d'. th_cells h3 b = Some d' \<Longrightarrow> \<exists>e. th_cells h1 b = Some e \<and> same_tag e d'
       \<and> td_count d' + (if Some b = Some a then 1 else 0) = td_count e + (if Some b = ?n then 1 else 0)"
  proof (cases ?n)
    case None
    show ?thesis
      by (rule that [of ?h2]) (use None d1 two d nexts_same [of "th_cells h1" a d1] in \<open>auto simp: inc_count_def same_tag_def tag_of_def\<close>)
  next
    case (Some y)
    have "Some y \<in># add_mset m R + ptrs ?N"
      using in_ptrs [of ?N "Some y"] tags_ok_shape(2) [OF ok] d Some by auto
    then have "y \<in> dom (th_cells h)" using ptr_in_dom [OF tags_ok_shape(1) [OF ok]] by simp
    then obtain dy where y: "th_cells h1 y = Some dy" "y \<noteq> a" using dom1 Some na by auto
    let ?h3 = "?h2\<lparr>th_cells := (th_cells ?h2)(y \<mapsto> dy\<lparr>td_count := td_count dy + 1\<rparr>)\<rparr>"
    have "nexts (th_cells ?h3) = nexts (th_cells h1)"
      using y d1 by (auto simp: nexts_def)
    then show ?thesis
      by (intro that [of ?h3]) (use Some y d1 two d in \<open>auto simp: inc_count_def upd_cell_def same_tag_def tag_of_def\<close>)
  qed
  have view4: "\<exists>e. th_cells h b = Some e \<and> same_tag e d'
       \<and> td_count d' + (if Some b = Some a then 1 else 0) = td_count e + (if Some b = ?n then 1 else 0)"
    if "th_cells h3 b = Some d'" for b d'
  proof -
    from view3 [OF that] obtain e where e: "th_cells h1 b = Some e" "same_tag e d'"
      "td_count d' + (if Some b = Some a then 1 else 0) = td_count e + (if Some b = ?n then 1 else 0)" by blast
    from view [OF e(1)] obtain f where "th_cells h b = Some f" "td_count e = td_count f" "same_tag f e" by blast
    with e show ?thesis using same_tag_trans by (metis (no_types, lifting))
  qed
  note sh3 = sh(1-3) [folded N3] sh(4) [folded N3]
  have ok': "tags_ok h3 (add_mset ?m R)"
  proof (rule tags_okI [OF sh3(1)])
    fix b d'
    assume "th_cells h3 b = Some d'"
    from view4 [OF this] obtain e where e: "th_cells h b = Some e" "same_tag e d'"
       "td_count d' + (if Some b = Some a then 1 else 0) = td_count e + (if Some b = ?n then 1 else 0)" by blast
    with count_shift1 [OF sh3(4), of "Some b"] tags_okD(1) [OF ok e(1)]
    show "td_count d' = count (add_mset ?m R + ptrs (nexts (th_cells h3))) (Some b)" by linarith
    show "b < th_brk h3 \<and> td_size d' = length (td_data d') \<and> td_size d' < 2 ^ 32 - 1"
      using tags_okD(2-4) [OF ok e(1)] e(2) same_tag_length [OF e(2)] brk brk3
      unfolding same_tag_def by simp
  qed
  have "keeps h h3 R"
    by (rule keepsI [OF sh3(3)]) (auto dest!: view4 simp: same_tag_def)
  moreover have "tags_of h3 (ps @ ys) = tags_of h (ps @ ys)"
  proof (rule tags_of_same)
    show "set (ps @ ys) \<subseteq> dom (th_cells h3)" using path_dom [OF sh3(2)] by simp
  qed (use view4 in blast)
  ultimately show ?thesis
    using that [OF s 2 3 ok'] has_tagsI [OF sh3(2)] by simp
qed

section \<open>Lists of tags that serialise as they promise\<close>

lemma cursor_start: "tags_ok h (add_mset m R) \<Longrightarrow> path (nexts (th_cells h)) m xs None \<Longrightarrow> cursor h m R [] xs"
  by (simp add: cursor_def)

lemma map_of_tags:
  "map_of (tags_of h xs) tid = None \<longleftrightarrow> tid \<notin> tid_at h ` set xs"
  by (simp add: map_of_eq_None_iff tids_of)

lemma tag_at_split:
  assumes "tags_of h (ps @ a # ys) = vs" "tid_at h a = tid" "tid \<notin> tid_at h ` set ps"
    and d: "th_cells h a = Some d"
  shows "map_of vs tid = Some (td_data d)"
    "tags_remove tid vs = tags_of h ps @ tags_of h ys"
    "tags_replace tid b vs = tags_of h ps @ (tid, b) # tags_of h ys"
proof -
  have "tag_of d = (tid, td_data d)" using assms(2) d by (simp add: tag_of_def tid_at_def)
  with assms(1) d have vs: "vs = tags_of h ps @ (tid, td_data d) # tags_of h ys" by simp
  have n: "tid \<notin> fst ` set (tags_of h ps)" using assms(3) by (simp add: tids_of)
  show "map_of vs tid = Some (td_data d)" "tags_remove tid vs = tags_of h ps @ tags_of h ys"
    "tags_replace tid b vs = tags_of h ps @ (tid, b) # tags_of h ys"
    unfolding vs using n by (rule tags_first)+
qed

text \<open>\<open>enc\<close> is what a tag writes. It fills the bytes it promised and can be read back.\<close>

locale lawful_tag =
  fixes c :: "'a tag_class" and enc :: "'a \<Rightarrow> u8 list"
  assumes size_enc: "tag_GetSerializedSize c t = length (enc t)"
    and size_small: "length (enc t) < 2 ^ 32 - 1"
    and write_enc: "tb_ok b \<Longrightarrow> tb_current b + length (enc t) \<le> tb_end b \<Longrightarrow>
      tag_Serialize c t b = Some (b\<lparr>tb_mem := put_bytes (tb_current b) (enc t) (tb_mem b),
                                     tb_current := tb_current b + length (enc t)\<rparr>)"
    and read_enc: "tag_Deserialize c t0 \<lparr>tb_mem = enc t, tb_current = 0, tb_end = length (enc t)\<rparr> = Some t"
begin

abbreviation tid :: nat where "tid \<equiv> GetInstanceTypeId c"

lemma write_cell:
  assumes "td_size d = length (td_data d)" "length (enc t) = td_size d"
  obtains b where "tag_Serialize c t (cell_buffer d) = Some b" "tb_mem b = enc t"
proof -
  have "tb_ok (cell_buffer d)" "tb_current (cell_buffer d) + length (enc t) \<le> tb_end (cell_buffer d)"
    using assms by (simp_all add: tb_ok_def cell_buffer_def)
  from write_enc [OF this] show ?thesis
    using assms by (intro that) (auto simp: put_bytes_def cell_buffer_def)
qed

lemma serialize_into_eq:
  assumes "th_cells h a = Some d" "td_size d = length (td_data d)" "length (enc t) = td_size d"
  shows "serialize_into c t a h = upd_cell a (\<lambda>d. d\<lparr>td_data := enc t\<rparr>) h"
proof -
  obtain b where "tag_Serialize c t (cell_buffer d) = Some b" "tb_mem b = enc t"
    by (rule write_cell [OF assms(2,3)])
  with assms(1) show ?thesis by (simp add: serialize_into_def)
qed

lemma read_cell:
  assumes "td_size d = length (td_data d)" "td_data d = enc t"
  shows "tag_Deserialize c t0 (cell_buffer d) = Some t"
  using assms read_enc [of t0 t] by (simp add: cell_buffer_def)

lemma Peek_ok:
  assumes ok: "tags_ok h (add_mset m R)" and vs: "has_tags h m vs"
  shows "map_of vs tid = None \<Longrightarrow> ptl_Peek c t0 h m = Some (False, t0)"
    and "map_of vs tid = Some (enc t) \<Longrightarrow> ptl_Peek c t0 h m = Some (True, t)"
proof -
  from vs obtain xs where xs: "path (nexts (th_cells h)) m xs None" "tags_of h xs = vs"
    by (auto simp: has_tags_def)
  define zs where "zs = dropWhile (\<lambda>a. tid_at h a \<noteq> tid) xs"
  have f: "find_tid tid h m = Some (start zs)" unfolding zs_def by (rule find_tid_ok [OF xs(1)])
  show "ptl_Peek c t0 h m = Some (False, t0)" if "map_of vs tid = None"
  proof -
    have "tid \<notin> tid_at h ` set xs" using that xs(2) map_of_tags by metis
    then have "\<forall>a \<in> set xs. tid_at h a \<noteq> tid" unfolding image_iff by metis
    then have "zs = []" unfolding zs_def dropWhile_eq_Nil_conv .
    with f show ?thesis by (simp add: ptl_Peek_def)
  qed
  show "ptl_Peek c t0 h m = Some (True, t)" if t: "map_of vs tid = Some (enc t)"
  proof -
    have "tid \<in> tid_at h ` set xs" using t xs(2) map_of_tags by (metis option.distinct(1))
    then have "\<not> (\<forall>a \<in> set xs. tid_at h a \<noteq> tid)" by auto
    then have "zs \<noteq> []" unfolding zs_def dropWhile_eq_Nil_conv .
    then obtain a ys where zs: "zs = a # ys" by (cases zs) auto
    define ps where "ps = takeWhile (\<lambda>a. tid_at h a \<noteq> tid) xs"
    have xs': "xs = ps @ a # ys" unfolding ps_def using zs unfolding zs_def by (metis takeWhile_dropWhile_id)
    have a: "tid_at h a = tid" using zs hd_dropWhile [of "\<lambda>a. tid_at h a \<noteq> tid" xs] by (auto simp: zs_def)
    have "tid \<notin> tid_at h ` set ps" by (auto simp: ps_def dest: set_takeWhileD)
    moreover obtain d where d: "th_cells h a = Some d" using xs(1) xs' by (auto simp: path_append)
    ultimately have "map_of vs tid = Some (td_data d)"
      using tag_at_split(1) [OF _ a] xs(2) xs' by metis
    with t have "td_data d = enc t" by simp
    with read_cell [OF tags_okD(2) [OF ok d]] show ?thesis
      using f zs d by (simp add: ptl_Peek_def)
  qed
qed

lemma Remove_ok:
  assumes ok: "tags_ok h (add_mset m R)" and vs: "has_tags h m vs" and t: "map_of vs tid = Some (enc t)"
  obtains h' m' where "ptl_Remove c t0 h m = Some (True, t, h', m')" "tags_ok h' (add_mset m' R)"
    "has_tags h' m' (tags_remove tid vs)" "keeps h h' R"
proof -
  from vs obtain xs where xs: "path (nexts (th_cells h)) m xs None" "tags_of h xs = vs"
    by (auto simp: has_tags_def)
  have "tid \<in> tid_at h ` set xs" using t xs(2) map_of_tags by (metis option.distinct(1))
  then obtain pre a ps ys h1 m1 where w: "ptl_Remove c t0 h m = RemoveWriter c t0 pre a (slot_of ps) h1 m1"
    and cur: "cursor h1 m1 R ps (a # ys)" and k: "keeps h h1 R" and tags: "tags_of h1 (ps @ a # ys) = vs"
    and a: "tid_at h1 a = tid" "tid \<notin> tid_at h1 ` set ps"
    and cnt: "if pre then td_count (the (th_cells h1 a)) = 1 else 1 < td_count (the (th_cells h1 a))"
    by (rule COWTraverse_found [OF cursor_start [OF ok xs(1)], of c "RemoveWriter c" t0, folded ptl_Remove_def, unfolded xs(2)])
  from cursor_node [OF cur] obtain d where d: "th_cells h1 a = Some d" "td_size d = length (td_data d)" by metis
  note sp = tag_at_split [OF tags a d(1)]
  have "td_data d = enc t" using t sp(1) by simp
  from read_cell [OF d(2) this] have rd: "tag_Deserialize c t0 (cell_buffer d) = Some t" .
  show ?thesis
  proof (cases pre)
    case True
    have one: "td_count (the (th_cells h1 a)) = 1" using cnt True by simp
    obtain h2 m2 where
      r: "set_slot (slot_of ps) (td_next d) h1 m1 = Some (h2, m2)" "tags_ok (free_cell a h2) (add_mset m2 R)"
        "keeps h1 (free_cell a h2) R" "has_tags (free_cell a h2) m2 (tags_of h1 ps @ tags_of h1 ys)" by (rule remove_owned_ok [OF cur one d(1)])
    have "ptl_Remove c t0 h m = Some (True, t, free_cell a h2, m2)"
      using w True d(1) rd r(1) by (simp add: RemoveWriter_def)
    with r show ?thesis using that keeps_trans [OF k] sp(2) by metis
  next
    case False
    have two: "1 < td_count (the (th_cells h1 a))" using cnt False by simp
    obtain h2 h3 h4 m2 where
      r: "set_slot (slot_of ps) (td_next d) h1 m1 = Some (h2, m2)" "dec_count a h2 = Some h3"
        "inc_count (td_next d) h3 = Some h4" "tags_ok h4 (add_mset m2 R)"
        "keeps h1 h4 R" "has_tags h4 m2 (tags_of h1 ps @ tags_of h1 ys)" by (rule remove_shared_ok [OF cur two d(1)])
    have "ptl_Remove c t0 h m = Some (True, t, h4, m2)"
      using w False d(1) rd r(1-3) by (simp add: RemoveWriter_def)
    with r show ?thesis using that keeps_trans [OF k] sp(2) by metis
  qed
qed

lemma traverse_absent:
  assumes "has_tags h m vs" "map_of vs tid = None"
  shows "COWTraverse c W t h m = Some (False, t, h, m)"
  using assms COWTraverse_absent [of h m _ c W t] by (auto simp: has_tags_def map_of_tags)

lemma Remove_absent:
  "has_tags h m vs \<Longrightarrow> map_of vs tid = None \<Longrightarrow> ptl_Remove c t0 h m = Some (False, t0, h, m)"
  by (simp add: ptl_Remove_def traverse_absent)

lemma Add_ok:
  assumes ok: "tags_ok h (add_mset m R)" and vs: "has_tags h m vs" and none: "map_of vs tid = None"
  obtains h' m' where "ptl_Add c t h m = Some (h', m')" "tags_ok h' (add_mset m' R)"
    "has_tags h' m' ((tid, enc t) # vs)" "keeps h h' R"
proof -
  let ?N = "nexts (th_cells h)" and ?c = "th_brk h"
  from vs obtain xs where xs: "path ?N m xs None" "tags_of h xs = vs" by (auto simp: has_tags_def)
  have "tid \<notin> tid_at h ` set xs" using none xs(2) map_of_tags by metis
  then have "\<forall>a \<in> set xs. tid_at h a \<noteq> tid" unfolding image_iff by metis
  then have dw: "dropWhile (\<lambda>a. tid_at h a \<noteq> tid) xs = []" unfolding dropWhile_eq_Nil_conv .
  have f: "find_tid tid h m = Some None" unfolding find_tid_ok [OF xs(1)] dw by simp
  let ?sz = "length (enc t)"
  let ?n = "\<lambda>data. \<lparr>td_next = m, td_count = 1, td_tid = tid, td_size = ?sz, td_data = data\<rparr>"
  let ?h1 = "h\<lparr>th_cells := (th_cells h)(?c \<mapsto> ?n (map (th_garbage h ?c) [0..<?sz])), th_brk := Suc ?c\<rparr>"
  have 1: "new_node ?sz tid m h = Some (?c, ?h1)" by (rule new_node_Some [OF size_small])
  have 2: "serialize_into c t ?c ?h1 = upd_cell ?c (\<lambda>d. d\<lparr>td_data := enc t\<rparr>) ?h1"
    by (rule serialize_into_eq [of _ _ "?n (map (th_garbage h ?c) [0..<?sz])"]) simp_all
  let ?h = "?h1\<lparr>th_cells := (th_cells ?h1)(?c \<mapsto> ?n (enc t))\<rparr>"
  have res: "ptl_Add c t h m = Some (?h, Some ?c)"
    using f 1 2 by (simp add: ptl_Add_def size_enc upd_cell_Some)
  have c: "th_cells h ?c = None" by (rule tags_ok_brk [OF ok])
  have N: "nexts (th_cells ?h) = ?N(?c \<mapsto> m)" by simp
  have cN: "?N ?c = None" using c by simp
  note sh = add_shape [OF tags_ok_shape(1) [OF ok] xs(1) cN]
  have c0: "count (add_mset m R + ptrs ?N) (Some ?c) = 0"
    using ptr_in_dom [OF tags_ok_shape(1) [OF ok], of ?c] c by (metis count_inI domIff dom_nexts)
  have ok': "tags_ok ?h (add_mset (Some ?c) R)"
  proof (rule tags_okI)
    show "shape_ok (nexts (th_cells ?h)) (add_mset (Some ?c) R)" unfolding N by (rule sh(1))
    fix a d
    assume a: "th_cells ?h a = Some d"
    have cnt: "count (add_mset (Some ?c) R + ptrs (nexts (th_cells ?h))) (Some a)
        = count (add_mset m R + ptrs ?N) (Some a) + (if a = ?c then 1 else 0)"
      unfolding N sh(4) by simp
    show "td_count d = count (add_mset (Some ?c) R + ptrs (nexts (th_cells ?h))) (Some a)"
    proof (cases "a = ?c")
      case True
      then have "td_count d = 1" using a by auto
      with True cnt c0 show ?thesis by (simp only:) simp
    next
      case False
      then have "th_cells h a = Some d" using a by simp
      from tags_okD(1) [OF ok this] cnt False show ?thesis by (simp only:) simp
    qed
    show "a < th_brk ?h \<and> td_size d = length (td_data d) \<and> td_size d < 2 ^ 32 - 1"
    proof (cases "a = ?c")
      case True
      then show ?thesis using a size_small [of t] by auto
    next
      case False
      then have "th_cells h a = Some d" using a by simp
      from tags_okD(2-4) [OF ok this] show ?thesis by simp
    qed
  qed
  have "keeps h ?h R"
  proof (rule keepsI)
    show "q \<in># R \<Longrightarrow> path ?N q zs None \<Longrightarrow> path (nexts (th_cells ?h)) q zs None" for q zs
      unfolding N by (rule sh(3))
  qed (use c in \<open>auto split: if_splits\<close>)
  moreover have "has_tags ?h (Some ?c) ((tid, enc t) # vs)"
  proof -
    have "?c \<notin> set xs" using path_dom [OF xs(1)] c by auto
    then have "tags_of ?h xs = vs" unfolding xs(2) [symmetric] by (intro tags_of_cong) auto
    then have "tags_of ?h (?c # xs) = (tid, enc t) # vs" by (simp add: tag_of_def)
    with sh(2) show ?thesis unfolding has_tags_def N by blast
  qed
  ultimately show ?thesis using that [OF res ok'] by blast
qed

end

text \<open>Rewriting the data of a node that belongs to the list alone.\<close>

lemma rewrite_owned_ok:
  assumes cur: "cursor h m R ps (a # ys)" and one: "td_count (the (th_cells h a)) = 1"
    and d: "th_cells h a = Some d" and len: "length bs = td_size d"
  defines "h' \<equiv> h\<lparr>th_cells := (th_cells h)(a \<mapsto> d\<lparr>td_data := bs\<rparr>)\<rparr>"
  shows "tags_ok h' (add_mset m R)" "keeps h h' R"
    "has_tags h' m (tags_of h ps @ (td_tid d, bs) # tags_of h ys)"
proof -
  let ?N = "nexts (th_cells h)"
  from cursor_node [OF cur] d have ok: "tags_ok h (add_mset m R)" and p: "path ?N m (ps @ a # ys) None"
    and pa: "path ?N m ps (Some a)" and Na: "?N a = Some (td_next d)" and dis: "distinct (ps @ a # ys)"
    and cnt: "td_count d = count (add_mset m R + ptrs ?N) (Some a)"
    by (metis option.sel)+
  have N: "nexts (th_cells h') = ?N" using d by (auto simp: h'_def nexts_def)
  have old: "\<exists>e. th_cells h b = Some e \<and> td_count d' = td_count e \<and> td_size d' = td_size e
      \<and> (if b = a then td_data d' = bs \<and> td_tid d' = td_tid d else d' = e)"
    if "th_cells h' b = Some d'" for b d'
    using that d by (auto simp: h'_def split: if_splits)
  show "tags_ok h' (add_mset m R)"
  proof (rule tags_okI)
    show "shape_ok (nexts (th_cells h')) (add_mset m R)" unfolding N by (rule tags_ok_shape(1) [OF ok])
    fix b d'
    assume "th_cells h' b = Some d'"
    from old [OF this] obtain e where e: "th_cells h b = Some e" "td_count d' = td_count e" "td_size d' = td_size e"
      "if b = a then td_data d' = bs \<and> td_tid d' = td_tid d else d' = e" by blast
    show "td_count d' = count (add_mset m R + ptrs (nexts (th_cells h'))) (Some b)"
      unfolding N e(2) by (rule tags_okD(1) [OF ok e(1)])
    have "length (td_data d') = td_size e"
      using e(1,4) len d tags_okD(2) [OF ok e(1)] by (auto split: if_splits)
    with tags_okD(3,4) [OF ok e(1)] e(3)
    show "b < th_brk h' \<and> td_size d' = length (td_data d') \<and> td_size d' < 2 ^ 32 - 1"
      by (simp add: h'_def)
  qed
  have own: "\<forall>b \<in> set (ps @ [a]). count (add_mset m R + ptrs ?N) (Some b) = 1"
    using cursor_own [OF cur] cnt one d by simp
  have pa': "path ?N m (ps @ [a]) (td_next d)" using pa d by (simp add: path_append)
  show "keeps h h' R"
  proof (rule keepsI_except [where a = a])
    fix q zs
    assume "q \<in># R" "path ?N q zs None"
    then show "path (nexts (th_cells h')) q zs None \<and> a \<notin> set zs"
      using owned_disjoint [OF tags_ok_shape(2) [OF ok, folded dom_nexts] pa' own] unfolding N by auto
  next
    fix b e d'
    assume "b \<noteq> a" "th_cells h b = Some e" "th_cells h' b = Some d'"
    with old [of b d'] show "tag_of d' = tag_of e" by auto
  qed
  have "tags_of h' ps = tags_of h ps" "tags_of h' ys = tags_of h ys"
    using dis by (intro tags_of_cong; auto simp: h'_def)+
  then have "tags_of h' (ps @ a # ys) = tags_of h ps @ (td_tid d, bs) # tags_of h ys"
    by (simp add: h'_def tag_of_def)
  with p show "has_tags h' m (tags_of h ps @ (td_tid d, bs) # tags_of h ys)"
    unfolding has_tags_def N by blast
qed

context lawful_tag
begin

lemma Replace_ok:
  assumes ok: "tags_ok h (add_mset m R)" and vs: "has_tags h m vs" and t: "map_of vs tid = Some bs"
    and len: "length (enc t) = length bs"
  obtains h' m' where "ptl_Replace c t h m = Some (True, h', m')" "tags_ok h' (add_mset m' R)"
    "has_tags h' m' (tags_replace tid (enc t) vs)" "keeps h h' R"
proof -
  from vs obtain xs where xs: "path (nexts (th_cells h)) m xs None" "tags_of h xs = vs"
    by (auto simp: has_tags_def)
  have "tid \<in> tid_at h ` set xs" using t xs(2) map_of_tags by (metis option.distinct(1))
  then obtain pre a ps ys h1 m1 where
    w: "COWTraverse c (ReplaceWriter c) t h m = ReplaceWriter c t pre a (slot_of ps) h1 m1"
    and cur: "cursor h1 m1 R ps (a # ys)" and k: "keeps h h1 R" and tags: "tags_of h1 (ps @ a # ys) = vs"
    and a: "tid_at h1 a = tid" "tid \<notin> tid_at h1 ` set ps"
    and cnt: "if pre then td_count (the (th_cells h1 a)) = 1 else 1 < td_count (the (th_cells h1 a))"
    by (rule COWTraverse_found [OF cursor_start [OF ok xs(1)], of c "ReplaceWriter c" t, unfolded xs(2)])
  from cursor_node [OF cur] obtain d where d: "th_cells h1 a = Some d" "td_size d = length (td_data d)"
    "td_size d < 2 ^ 32 - 1" by metis
  note sp = tag_at_split [OF tags a d(1)]
  have tid: "td_tid d = tid" using a(1) d(1) by (simp add: tid_at_def)
  have len': "length (enc t) = td_size d" using t sp(1) len d(2) by simp
  show ?thesis
  proof (cases pre)
    case True
    have one: "td_count (the (th_cells h1 a)) = 1" using cnt True by simp
    note r = rewrite_owned_ok [OF cur one d(1) len', unfolded tid, folded sp(3)]
    let ?h = "h1\<lparr>th_cells := (th_cells h1)(a \<mapsto> d\<lparr>td_data := enc t\<rparr>)\<rparr>"
    have "ptl_Replace c t h m = Some (True, ?h, m1)"
      using w True serialize_into_eq [OF d(1,2) len'] d(1)
      by (simp add: ptl_Replace_def ReplaceWriter_def upd_cell_Some)
    with r show ?thesis using that keeps_trans [OF k] by metis
  next
    case False
    have two: "1 < td_count d" using cnt False d(1) by simp
    obtain h2 h3 h4 h5 where
      s: "dec_count a h1 = Some h2" "new_node (length (enc t)) tid (td_next d) h2 = Some (th_brk h1, h3)"
      and c3: "th_cells h3 (th_brk h1) = Some \<lparr>td_next = td_next d, td_count = 1, td_tid = tid, td_size = length (enc t),
         td_data = map (th_garbage h1 (th_brk h1)) [0..<length (enc t)]\<rparr>"
      and s4: "upd_cell (th_brk h1) (\<lambda>d. d\<lparr>td_data := enc t\<rparr>) h3 = Some h4"
      and s5: "inc_count (td_next d) h4 = Some h5"
      and cp: "copied h1 h5 a d (th_brk h1)" and tg: "tag_of (the (th_cells h5 (th_brk h1))) = (tid, enc t)"
      by (rule make_copy [OF cur d(1) two refl size_small, of t tid])
    from link_copy [OF cur d(1) two cp] obtain h6 m6 where
      s6: "set_slot (slot_of ps) (Some (th_brk h1)) h5 m1 = Some (h6, m6)"
      and r: "cursor h6 m6 R (ps @ [th_brk h1]) ys" "keeps h1 h6 R"
        "tags_of h6 ps = tags_of h1 ps" "tags_of h6 ys = tags_of h1 ys"
        "tag_of (the (th_cells h6 (th_brk h1))) = tag_of (the (th_cells h5 (th_brk h1)))" by metis
    have "serialize_into c t (th_brk h1) h3 = Some h4"
      using serialize_into_eq [OF c3] s4 by simp
    then have res: "ptl_Replace c t h m = Some (True, h6, m6)"
      using w False d(1) s s5 s6 by (simp add: ptl_Replace_def ReplaceWriter_def size_enc)
    have "has_tags h6 m6 (tags_of h6 ((ps @ [th_brk h1]) @ ys))"
      by (rule has_tagsI) (use r(1) in \<open>simp add: cursor_def\<close>)
    then have "has_tags h6 m6 (tags_replace tid (enc t) vs)"
      unfolding sp(3) using r(3-5) tg by simp
    moreover have "tags_ok h6 (add_mset m6 R)" using r(1) by (simp add: cursor_def)
    ultimately show ?thesis using that [OF res] keeps_trans [OF k r(2)] by blast
  qed
qed

lemma Replace_absent:
  assumes "tags_ok h (add_mset m R)" "has_tags h m vs" "map_of vs tid = None"
  obtains h' m' where "ptl_Replace c t h m = Some (False, h', m')" "tags_ok h' (add_mset m' R)"
    "has_tags h' m' ((tid, enc t) # vs)" "keeps h h' R"
proof -
  obtain h' m' where r: "ptl_Add c t h m = Some (h', m')" "tags_ok h' (add_mset m' R)"
    "has_tags h' m' ((tid, enc t) # vs)" "keeps h h' R"
    by (rule Add_ok [OF assms])
  then have "ptl_Replace c t h m = Some (False, h', m')"
    using traverse_absent [OF assms(2,3)] by (simp add: ptl_Replace_def)
  with r that show ?thesis by blast
qed

end

section \<open>Whole lists\<close>

text \<open>The logical heap during \<open>RemoveAll\<close> is the one without the node that is freed in the next pass.\<close>

lemma remove_all_from_ok:
  "tags_ok (free_ptr prev h) (add_mset cur R) \<Longrightarrow> path (nexts (th_cells (free_ptr prev h))) cur xs None \<Longrightarrow>
   \<exists>h'. remove_all_from prev cur h = Some h' \<and> tags_ok h' R \<and> keeps (free_ptr prev h) h' R"
proof (induction xs arbitrary: prev cur h)
  case Nil
  then show ?case
    by (subst remove_all_from.simps) (simp add: tags_ok_None)
next
  case (Cons a xs)
  let ?g = "free_ptr prev h"
  let ?N = "nexts (th_cells ?g)"
  from Cons.prems(2) obtain d where cur: "cur = Some a" and d: "th_cells ?g a = Some d"
    and p: "path ?N (td_next d) xs None" by (rule path_ConsE)
  have hd: "th_cells h a = Some d" "prev \<noteq> Some a"
    using d by (auto simp: free_ptr_def free_cell_def split: option.splits if_splits)
  have ok: "tags_ok ?g (add_mset (Some a) R)" using Cons.prems(1) cur by simp
  note cnt = tags_okD(1) [OF ok d]
  have pos: "0 < td_count d" unfolding cnt by simp
  let ?h1 = "h\<lparr>th_cells := (th_cells h)(a \<mapsto> d\<lparr>td_count := td_count d - 1\<rparr>)\<rparr>"
  let ?g1 = "?g\<lparr>th_cells := (th_cells ?g)(a \<mapsto> d\<lparr>td_count := td_count d - 1\<rparr>)\<rparr>"
  have g1: "free_ptr prev (h\<lparr>th_cells := (th_cells h)(a \<mapsto> x)\<rparr>) = ?g\<lparr>th_cells := (th_cells ?g)(a \<mapsto> x)\<rparr>" for x
    using hd by (cases prev) (auto simp: free_ptr_def free_cell_def fun_upd_twist)
  have step: "remove_all_from prev cur h = (if td_count d - 1 > 0 then Some ?g1
      else remove_all_from (Some a) (td_next d) ?g1)"
    unfolding cur by (subst remove_all_from.simps) (simp add: dec_count_Some [OF hd(1) pos] g1)
  have N1: "nexts (th_cells ?g1) = ?N" using d by (auto simp: nexts_def)
  have old1: "\<exists>e. th_cells ?g b = Some e \<and> same_tag e d' \<and> td_count d' + (if b = a then 1 else 0) = td_count e"
    if "th_cells ?g1 b = Some d'" for b d'
    using that d pos by (auto simp: same_tag_def tag_of_def split: if_splits)
  have bounds: "b < th_brk ?g1 \<and> td_size d' = length (td_data d') \<and> td_size d' < 2 ^ 32 - 1"
    if "th_cells ?g1 b = Some d'" for b d'
  proof -
    from old1 [OF that] obtain e where e: "th_cells ?g b = Some e" "same_tag e d'" by blast
    from tags_okD(2-4) [OF ok e(1)] same_tag_length [OF e(2)] e(2) show ?thesis
      by (simp add: same_tag_def)
  qed
  show ?case
  proof (cases "td_count d - 1 > 0")
    case True
    have two: "1 < count (add_mset (Some a) R + ptrs ?N) (Some a)" using True cnt by simp
    have "tags_ok ?g1 R"
    proof (rule tags_okI)
      show "shape_ok (nexts (th_cells ?g1)) R"
        unfolding N1 by (rule drop_shared_shape [OF tags_ok_shape(1) [OF ok] two])
      fix b d'
      assume b: "th_cells ?g1 b = Some d'"
      from old1 [OF b] obtain e where e: "th_cells ?g b = Some e"
        "td_count d' + (if b = a then 1 else 0) = td_count e" by blast
      from tags_okD(1) [OF ok e(1)] e(2) show "td_count d' = count (R + ptrs (nexts (th_cells ?g1))) (Some b)"
        unfolding N1 by (simp split: if_splits)
      show "b < th_brk ?g1 \<and> td_size d' = length (td_data d') \<and> td_size d' < 2 ^ 32 - 1"
        by (rule bounds [OF b])
    qed
    moreover have "keeps ?g ?g1 R"
    proof (rule keepsI)
      show "path ?N q zs None \<Longrightarrow> path (nexts (th_cells ?g1)) q zs None" for q zs unfolding N1 .
      show "th_cells ?g b = Some e \<Longrightarrow> th_cells ?g1 b = Some d' \<Longrightarrow> tag_of d' = tag_of e" for b e d'
        using old1 [of b d'] by (auto simp: same_tag_def)
    qed
    ultimately show ?thesis using step True by simp
  next
    case False
    have one: "count (add_mset (Some a) R + ptrs ?N) (Some a) = 1" using False pos unfolding cnt by linarith
    have Na: "?N a = Some (td_next d)" using d by simp
    note sh = drop_head_shape [OF tags_ok_shape(1) [OF ok] Na one]
    let ?g2 = "free_ptr (Some a) ?g1"
    have N2: "nexts (th_cells ?g2) = ?N(a := None)"
      using N1 by (auto simp: free_ptr_def free_cell_def nexts_def)
    have old2: "b \<noteq> a \<and> th_cells ?g b = Some d'" if "th_cells ?g2 b = Some d'" for b d'
      using that by (auto simp: free_ptr_def free_cell_def split: if_splits)
    have ok2: "tags_ok ?g2 (add_mset (td_next d) R)"
    proof (rule tags_okI)
      show "shape_ok (nexts (th_cells ?g2)) (add_mset (td_next d) R)" unfolding N2 by (rule sh(1))
      fix b d'
      assume b: "th_cells ?g2 b = Some d'"
      then have e: "b \<noteq> a" "th_cells ?g b = Some d'" using old2 by blast+
      have "count (add_mset (td_next d) R + ptrs (nexts (th_cells ?g2))) (Some b)
          = count (add_mset (Some a) R + ptrs ?N) (Some b)"
        using arg_cong [OF sh(3), of "\<lambda>M. count M (Some b)"] e(1) unfolding N2 by simp
      with tags_okD(1) [OF ok e(2)] show "td_count d' = count (add_mset (td_next d) R + ptrs (nexts (th_cells ?g2))) (Some b)"
        by (simp only:)
      have "th_cells ?g1 b = Some d'" using e by simp
      from bounds [OF this] show "b < th_brk ?g2 \<and> td_size d' = length (td_data d') \<and> td_size d' < 2 ^ 32 - 1"
        by (simp add: free_ptr_def free_cell_def)
    qed
    have keep: "keeps ?g ?g2 R"
    proof (rule keepsI [OF sh(2) [folded N2]])
      fix b e d'
      assume "th_cells ?g b = Some e" "th_cells ?g2 b = Some d'"
      then have "e = d'" using old2 [of b d'] by simp
      then show "tag_of d' = tag_of e" by simp
    qed
    have "path (nexts (th_cells ?g2)) (td_next d) xs None"
      unfolding N2 using p path_distinct [OF Cons.prems(2)] by (simp add: path_upd)
    from Cons.IH [OF ok2 this] obtain h' where h': "remove_all_from (Some a) (td_next d) ?g1 = Some h'"
      "tags_ok h' R" "keeps ?g2 h' R" by blast
    with step False keeps_trans [OF keep] show ?thesis by auto
  qed
qed

lemma RemoveAll_ok:
  assumes ok: "tags_ok h (add_mset m R)"
  obtains h' where "ptl_RemoveAll h m = Some (h', None)" "tags_ok h' R" "keeps h h' R"
proof -
  obtain xs where "path (nexts (th_cells h)) m xs None"
    using tags_ok_shape(1) [OF ok] by (auto simp: shape_ok_def)
  with remove_all_from_ok [of None h m R xs] ok that show ?thesis
    by (auto simp: ptl_RemoveAll_def free_ptr_def)
qed

lemma copy_ok:
  assumes ok: "tags_ok h R" and p: "p \<in># R"
  obtains h' where "ptl_copy h p = Some (h', p)" "tags_ok h' (add_mset p R)" "keeps h h' (add_mset p R)"
proof (cases p)
  case None
  then show ?thesis using that [of h] ok by (simp add: ptl_copy_def inc_count_def tags_ok_None)
next
  case (Some a)
  let ?N = "nexts (th_cells h)"
  have "a \<in> dom (th_cells h)" using ptr_in_dom [OF tags_ok_shape(1) [OF ok], of a] p Some by simp
  then obtain d where d: "th_cells h a = Some d" by auto
  let ?h = "h\<lparr>th_cells := (th_cells h)(a \<mapsto> d\<lparr>td_count := td_count d + 1\<rparr>)\<rparr>"
  have N: "nexts (th_cells ?h) = ?N" using d by (auto simp: nexts_def)
  have old: "\<exists>e. th_cells h b = Some e \<and> same_tag e d' \<and> td_count d' = td_count e + (if b = a then 1 else 0)"
    if "th_cells ?h b = Some d'" for b d'
    using that d by (auto simp: same_tag_def tag_of_def split: if_splits)
  have "tags_ok ?h (add_mset p R)"
  proof (rule tags_okI)
    show "shape_ok (nexts (th_cells ?h)) (add_mset p R)"
      unfolding N using tags_ok_shape(1) [OF ok] p by (auto simp: shape_ok_def)
    fix b d'
    assume "th_cells ?h b = Some d'"
    from old [OF this] obtain e where e: "th_cells h b = Some e" "same_tag e d'"
      "td_count d' = td_count e + (if b = a then 1 else 0)" by blast
    from tags_okD(1) [OF ok e(1)] e(3) Some
    show "td_count d' = count (add_mset p R + ptrs (nexts (th_cells ?h))) (Some b)" unfolding N by simp
    from tags_okD(2-4) [OF ok e(1)] same_tag_length [OF e(2)] e(2)
    show "b < th_brk ?h \<and> td_size d' = length (td_data d') \<and> td_size d' < 2 ^ 32 - 1"
      by (simp add: same_tag_def)
  qed
  moreover have "keeps h ?h (add_mset p R)"
  proof (rule keepsI)
    show "path ?N q zs None \<Longrightarrow> path (nexts (th_cells ?h)) q zs None" for q zs unfolding N .
    show "th_cells h b = Some e \<Longrightarrow> th_cells ?h b = Some d' \<Longrightarrow> tag_of d' = tag_of e" for b e d'
      using old [of b d'] by (auto simp: same_tag_def)
  qed
  ultimately show ?thesis
    using that [of ?h] d Some by (simp add: ptl_copy_def inc_count_def upd_cell_Some)
qed

lemma assign_ok:
  assumes ok: "tags_ok h (add_mset m R)" and p: "p \<in># add_mset m R"
  obtains h' where "ptl_assign h m p = Some (h', p)" "tags_ok h' (add_mset p R)" "keeps h h' (add_mset p R)"
proof (cases "m = p")
  case True
  with ok show ?thesis using that [of h] by (simp add: ptl_assign_def)
next
  case False
  with p have pR: "p \<in># R" by simp
  obtain h1 where 1: "ptl_RemoveAll h m = Some (h1, None)" "tags_ok h1 R" "keeps h h1 R" by (rule RemoveAll_ok [OF ok])
  obtain h2 where 2: "ptl_copy h1 p = Some (h2, p)" "tags_ok h2 (add_mset p R)" "keeps h1 h2 (add_mset p R)"
    by (rule copy_ok [OF 1(2) pR])
  have "keeps h h1 (add_mset p R)" using 1(3) pR by (simp add: keeps_def)
  from keeps_trans [OF this 2(3)] show ?thesis
    using that [of h2] 1 2 False by (simp add: ptl_assign_def)
qed

end
