(* ===== verification/Packets.thy ===== *)
theory Packets
  imports PacketTagList
begin

text \<open>
  Packets, as far as their packet tags go (\<open>network/model/packet.cc\<close>): every packet is an object
  with a \<open>PacketTagList\<close>, and copies of a packet share the nodes of their lists in one heap. A
  program is a sequence of calls on packets; \<open>spec_step\<close> is what the calls mean when each packet
  simply has its own list of tags, and the refinement theorem says that sharing cannot be observed,
  that no call touches freed memory, and that nothing is left in the heap when no packet is.
\<close>

section \<open>Packets and the calls on them\<close>

record packets =
  pk_heap :: tag_heap
  pk_tags :: "nat \<rightharpoonup> ptr"

definition packets_new :: packets where
  "packets_new = \<lparr>pk_heap = th_empty, pk_tags = Map.empty\<rparr>"

datatype 'a packet_op =
    Create nat
  | Copy nat nat
  | Assign nat nat
  | Destroy nat
  | AddTag nat "'a tag_class" 'a
  | RemoveTag nat "'a tag_class" 'a
  | ReplaceTag nat "'a tag_class" 'a
  | PeekTag nat "'a tag_class" 'a
  | RemoveAllTags nat

definition with_tags :: "nat \<Rightarrow> packets \<Rightarrow> (ptr \<Rightarrow> 'b option) \<Rightarrow> 'b option" where
  "with_tags p w f = Option.bind (pk_tags w p) f"

definition set_tags :: "nat \<Rightarrow> tag_heap \<times> ptr \<Rightarrow> packets \<Rightarrow> packets" where
  "set_tags p r w = w\<lparr>pk_heap := fst r, pk_tags := (pk_tags w)(p \<mapsto> snd r)\<rparr>"

definition Packet_new :: "nat \<Rightarrow> packets \<Rightarrow> packets option" where
  "Packet_new p w = (if pk_tags w p = None then Some (set_tags p (pk_heap w, None) w) else None)"

definition Packet_Copy :: "nat \<Rightarrow> nat \<Rightarrow> packets \<Rightarrow> packets option" where
  "Packet_Copy q p w = (if pk_tags w q = None
     then with_tags p w (\<lambda>m. Option.bind (ptl_copy (pk_heap w) m) (\<lambda>r. Some (set_tags q r w))) else None)"

definition Packet_assign :: "nat \<Rightarrow> nat \<Rightarrow> packets \<Rightarrow> packets option" where
  "Packet_assign q p w = with_tags q w (\<lambda>mq. with_tags p w (\<lambda>mp.
     if q = p then Some w
     else Option.bind (ptl_assign (pk_heap w) mq mp) (\<lambda>r. Some (set_tags q r w))))"

definition Packet_delete :: "nat \<Rightarrow> packets \<Rightarrow> packets option" where
  "Packet_delete p w = with_tags p w (\<lambda>m. Option.bind (ptl_RemoveAll (pk_heap w) m) (\<lambda>(h, _).
     Some (w\<lparr>pk_heap := h, pk_tags := (pk_tags w)(p := None)\<rparr>)))"

definition AddPacketTag :: "nat \<Rightarrow> 'a tag_class \<Rightarrow> 'a \<Rightarrow> packets \<Rightarrow> packets option" where
  "AddPacketTag p c tag w = with_tags p w (\<lambda>m.
     Option.bind (ptl_Add c tag (pk_heap w) m) (\<lambda>r. Some (set_tags p r w)))"

definition RemovePacketTag :: "nat \<Rightarrow> 'a tag_class \<Rightarrow> 'a \<Rightarrow> packets \<Rightarrow> (bool \<times> 'a \<times> packets) option" where
  "RemovePacketTag p c tag w = with_tags p w (\<lambda>m.
     Option.bind (ptl_Remove c tag (pk_heap w) m) (\<lambda>(found, tag, r). Some (found, tag, set_tags p r w)))"

definition ReplacePacketTag :: "nat \<Rightarrow> 'a tag_class \<Rightarrow> 'a \<Rightarrow> packets \<Rightarrow> (bool \<times> packets) option" where
  "ReplacePacketTag p c tag w = with_tags p w (\<lambda>m.
     Option.bind (ptl_Replace c tag (pk_heap w) m) (\<lambda>(found, r). Some (found, set_tags p r w)))"

definition PeekPacketTag :: "nat \<Rightarrow> 'a tag_class \<Rightarrow> 'a \<Rightarrow> packets \<Rightarrow> (bool \<times> 'a) option" where
  "PeekPacketTag p c tag w = with_tags p w (ptl_Peek c tag (pk_heap w))"

definition RemoveAllPacketTags :: "nat \<Rightarrow> packets \<Rightarrow> packets option" where
  "RemoveAllPacketTags p w = with_tags p w (\<lambda>m.
     Option.bind (ptl_RemoveAll (pk_heap w) m) (\<lambda>r. Some (set_tags p r w)))"

text \<open>One call, with what it returns: whether the tag was found, and the tag that was read.\<close>

fun packet_step :: "'a packet_op \<Rightarrow> packets \<Rightarrow> ((bool \<times> 'a) option \<times> packets) option" where
  "packet_step (Create p) w = map_option (Pair None) (Packet_new p w)"
| "packet_step (Copy q p) w = map_option (Pair None) (Packet_Copy q p w)"
| "packet_step (Assign q p) w = map_option (Pair None) (Packet_assign q p w)"
| "packet_step (Destroy p) w = map_option (Pair None) (Packet_delete p w)"
| "packet_step (AddTag p c t) w = map_option (Pair None) (AddPacketTag p c t w)"
| "packet_step (RemoveTag p c t) w = map_option (\<lambda>(found, t, w). (Some (found, t), w)) (RemovePacketTag p c t w)"
| "packet_step (ReplaceTag p c t) w = map_option (\<lambda>(found, w). (Some (found, t), w)) (ReplacePacketTag p c t w)"
| "packet_step (PeekTag p c t) w = map_option (\<lambda>r. (Some r, w)) (PeekPacketTag p c t w)"
| "packet_step (RemoveAllTags p) w = map_option (Pair None) (RemoveAllPacketTags p w)"

primrec packet_run :: "'a packet_op list \<Rightarrow> packets \<Rightarrow> ((bool \<times> 'a) option list \<times> packets) option" where
  "packet_run [] w = Some ([], w)"
| "packet_run (op # ops) w = Option.bind (packet_step op w) (\<lambda>(r, w).
     Option.bind (packet_run ops w) (\<lambda>(rs, w). Some (r # rs, w)))"

section \<open>What the calls mean\<close>

type_synonym 'a tag_spec = "nat \<rightharpoonup> (nat \<times> 'a) list"

fun spec_step :: "'a packet_op \<Rightarrow> 'a tag_spec \<Rightarrow> ((bool \<times> 'a) option \<times> 'a tag_spec) option" where
  "spec_step (Create p) A = (if A p = None then Some (None, A(p \<mapsto> [])) else None)"
| "spec_step (Copy q p) A = (if A q = None then map_option (\<lambda>vs. (None, A(q \<mapsto> vs))) (A p) else None)"
| "spec_step (Assign q p) A = (if A q = None then None else map_option (\<lambda>vs. (None, A(q \<mapsto> vs))) (A p))"
| "spec_step (Destroy p) A = map_option (\<lambda>vs. (None, A(p := None))) (A p)"
| "spec_step (AddTag p c t) A = Option.bind (A p) (\<lambda>vs.
     if map_of vs (GetInstanceTypeId c) = None then Some (None, A(p \<mapsto> (GetInstanceTypeId c, t) # vs)) else None)"
| "spec_step (RemoveTag p c t) A = map_option (\<lambda>vs. case map_of vs (GetInstanceTypeId c) of
       None \<Rightarrow> (Some (False, t), A)
     | Some t' \<Rightarrow> (Some (True, t'), A(p \<mapsto> tags_remove (GetInstanceTypeId c) vs))) (A p)"
| "spec_step (ReplaceTag p c t) A = map_option (\<lambda>vs. case map_of vs (GetInstanceTypeId c) of
       None \<Rightarrow> (Some (False, t), A(p \<mapsto> (GetInstanceTypeId c, t) # vs))
     | Some t' \<Rightarrow> (Some (True, t), A(p \<mapsto> tags_replace (GetInstanceTypeId c) t vs))) (A p)"
| "spec_step (PeekTag p c t) A = map_option (\<lambda>vs. case map_of vs (GetInstanceTypeId c) of
       None \<Rightarrow> (Some (False, t), A) | Some t' \<Rightarrow> (Some (True, t'), A)) (A p)"
| "spec_step (RemoveAllTags p) A = map_option (\<lambda>vs. (None, A(p \<mapsto> []))) (A p)"

primrec spec_run :: "'a packet_op list \<Rightarrow> 'a tag_spec \<Rightarrow> ((bool \<times> 'a) option list \<times> 'a tag_spec) option" where
  "spec_run [] A = Some ([], A)"
| "spec_run (op # ops) A = Option.bind (spec_step op A) (\<lambda>(r, A).
     Option.bind (spec_run ops A) (\<lambda>(rs, A). Some (r # rs, A)))"

section \<open>Refinement\<close>

fun op_class :: "'a packet_op \<Rightarrow> 'a tag_class option" where
  "op_class (AddTag p c t) = Some c"
| "op_class (RemoveTag p c t) = Some c"
| "op_class (ReplaceTag p c t) = Some c"
| "op_class (PeekTag p c t) = Some c"
| "op_class _ = None"

text \<open>The tag classes of a program: their type ids tell them apart, and a class always needs the
  same number of bytes.\<close>

locale tag_classes =
  fixes classes :: "'a tag_class set" and enc :: "nat \<Rightarrow> 'a \<Rightarrow> u8 list"
  assumes lawful: "c \<in> classes \<Longrightarrow> lawful_tag c (enc (GetInstanceTypeId c))"
    and fixed: "c \<in> classes \<Longrightarrow> length (enc (GetInstanceTypeId c) t) = length (enc (GetInstanceTypeId c) t')"
begin

definition encoded :: "(nat \<times> 'a) list \<Rightarrow> (nat \<times> u8 list) list" where
  "encoded vs = map (\<lambda>(k, t). (k, enc k t)) vs"

definition refines :: "packets \<Rightarrow> 'a tag_spec \<Rightarrow> bool" where
  "refines w A \<longleftrightarrow> finite (dom A) \<and> dom (pk_tags w) = dom A \<and> tags_ok (pk_heap w) (ptrs (pk_tags w))
     \<and> (\<forall>p m vs. pk_tags w p = Some m \<longrightarrow> A p = Some vs \<longrightarrow> has_tags (pk_heap w) m (encoded vs))"

lemma map_of_encoded: "map_of (encoded vs) k = map_option (enc k) (map_of vs k)"
  by (induction vs) (auto simp: encoded_def)

lemma encoded_simps:
  "encoded [] = []" "encoded ((k, t) # vs) = (k, enc k t) # encoded vs"
  "encoded (tags_remove k vs) = tags_remove k (encoded vs)"
  "encoded (tags_replace k t vs) = tags_replace k (enc k t) (encoded vs)"
  unfolding encoded_def by (induction vs) (auto split: prod.splits)

lemma refinesE:
  assumes "refines w A" "A p = Some vs"
  obtains m where "pk_tags w p = Some m" "has_tags (pk_heap w) m (encoded vs)"
    "tags_ok (pk_heap w) (add_mset m (ptrs ((pk_tags w)(p := None))))"
proof -
  from assms have "p \<in> dom (pk_tags w)" by (auto simp: refines_def)
  then obtain m where m: "pk_tags w p = Some m" by auto
  have "finite (dom (pk_tags w))" using assms(1) by (simp add: refines_def)
  from ptrs_del [OF this m] assms m that show ?thesis by (auto simp: refines_def)
qed

lemma refines_None: "refines w A \<Longrightarrow> A p = None \<longleftrightarrow> pk_tags w p = None"
  by (auto simp: refines_def)

text \<open>An operation on one packet: it gets a new list, the others keep theirs.\<close>

lemma refines_set:
  assumes ref: "refines w A"
    and ok: "tags_ok h (add_mset m (ptrs ((pk_tags w)(p := None))))"
    and m: "has_tags h m (encoded vs)" and keep: "keeps (pk_heap w) h (ptrs ((pk_tags w)(p := None)))"
  shows "refines (set_tags p (h, m) w) (A(p \<mapsto> vs))"
proof -
  have fin: "finite (dom (pk_tags w))" and dom: "dom (pk_tags w) = dom A"
    using ref by (simp_all add: refines_def)
  have "ptrs ((pk_tags w)(p \<mapsto> m)) = add_mset m (ptrs ((pk_tags w)(p := None)))"
    using ptrs_new [of "(pk_tags w)(p := None)" p m] fin by simp
  moreover have "has_tags h mq (encoded us)"
    if "((pk_tags w)(p \<mapsto> m)) q = Some mq" "(A(p \<mapsto> vs)) q = Some us" for q mq us
  proof (cases "q = p")
    case False
    with that have q: "pk_tags w q = Some mq" "A q = Some us" by auto
    with False have "((pk_tags w)(p := None)) q = Some mq" by simp
    then have "mq \<in># ptrs ((pk_tags w)(p := None))"
      using fin by (intro in_ptrsI [of _ q]) simp_all
    moreover have "has_tags (pk_heap w) mq (encoded us)" using ref q by (auto simp: refines_def)
    ultimately show ?thesis using keep by (auto simp: keeps_def)
  qed (use that m in auto)
  ultimately show ?thesis
    using ref ok dom by (auto simp: refines_def set_tags_def)
qed

lemma refines_step:
  assumes ref: "refines w A" and cls: "\<And>c. op_class op = Some c \<Longrightarrow> c \<in> classes"
  shows "case spec_step op A of None \<Rightarrow> True
    | Some (r, A') \<Rightarrow> (\<exists>w'. packet_step op w = Some (r, w') \<and> refines w' A')"
proof (cases op)
  case (Create p)
  have "refines (set_tags p (pk_heap w, None) w) (A(p \<mapsto> []))" if "A p = None"
  proof (rule refines_set [OF ref])
    have "(pk_tags w)(p := None) = pk_tags w" using that ref by (auto simp: refines_None)
    then show "tags_ok (pk_heap w) (add_mset None (ptrs ((pk_tags w)(p := None))))"
      using ref by (simp add: tags_ok_None refines_def)
    show "has_tags (pk_heap w) None (encoded [])" by (simp add: has_tags_def encoded_simps)
  qed simp
  with Create ref show ?thesis by (simp add: Packet_new_def refines_None)
next
  case (Copy q p)
  show ?thesis
  proof (cases "A q = None \<and> A p \<noteq> None")
    case True
    then obtain vs where vs: "A p = Some vs" by auto
    obtain m where m: "pk_tags w p = Some m" "has_tags (pk_heap w) m (encoded vs)" by (rule refinesE [OF ref vs])
    have q: "(pk_tags w)(q := None) = pk_tags w" using True ref by (auto simp: refines_None)
    have fin: "finite (dom (pk_tags w))" and ok: "tags_ok (pk_heap w) (ptrs (pk_tags w))"
      using ref by (simp_all add: refines_def)
    have "m \<in># ptrs (pk_tags w)" using in_ptrs [OF fin] m(1) by auto
    with ok obtain h where h: "ptl_copy (pk_heap w) m = Some (h, m)" "tags_ok h (add_mset m (ptrs (pk_tags w)))"
      "keeps (pk_heap w) h (add_mset m (ptrs (pk_tags w)))" by (rule copy_ok)
    have "refines (set_tags q (h, m) w) (A(q \<mapsto> vs))"
      by (rule refines_set [OF ref]) (use h m q in \<open>auto simp: keeps_def\<close>)
    with Copy True vs m h ref show ?thesis by (simp add: Packet_Copy_def with_tags_def refines_None)
  qed (use Copy in auto)
next
  case (Assign q p)
  show ?thesis
  proof (cases "A q = None \<or> A p = None")
    case False
    then obtain us vs where us: "A q = Some us" and vs: "A p = Some vs" by auto
    obtain m where m: "pk_tags w p = Some m" "has_tags (pk_heap w) m (encoded vs)" by (rule refinesE [OF ref vs])
    obtain n where n: "pk_tags w q = Some n" "tags_ok (pk_heap w) (add_mset n (ptrs ((pk_tags w)(q := None))))"
      by (rule refinesE [OF ref us])
    show ?thesis
    proof (cases "q = p")
      case True
      then show ?thesis using Assign us vs m n ref
        by (simp add: Packet_assign_def with_tags_def fun_upd_idem)
    next
      case False
      have fin: "finite (dom (pk_tags w))" using ref by (simp add: refines_def)
      have "((pk_tags w)(q := None)) p = Some m" using m(1) False by simp
      then have mR: "m \<in># ptrs ((pk_tags w)(q := None))"
        using fin by (intro in_ptrsI [of _ p]) simp_all
      then have "m \<in># add_mset n (ptrs ((pk_tags w)(q := None)))" by simp
      with n(2) obtain h where h: "ptl_assign (pk_heap w) n m = Some (h, m)"
        "tags_ok h (add_mset m (ptrs ((pk_tags w)(q := None))))"
        "keeps (pk_heap w) h (add_mset m (ptrs ((pk_tags w)(q := None))))" by (rule assign_ok)
      have "refines (set_tags q (h, m) w) (A(q \<mapsto> vs))"
        by (rule refines_set [OF ref]) (use h m in \<open>auto simp: keeps_def\<close>)
      with Assign us vs m n h False show ?thesis by (simp add: Packet_assign_def with_tags_def)
    qed
  qed (use Assign in auto)
next
  case (Destroy p)
  show ?thesis
  proof (cases "A p")
    case (Some vs)
    obtain m where m: "pk_tags w p = Some m" "tags_ok (pk_heap w) (add_mset m (ptrs ((pk_tags w)(p := None))))"
      by (rule refinesE [OF ref Some])
    obtain h where h: "ptl_RemoveAll (pk_heap w) m = Some (h, None)" "tags_ok h (ptrs ((pk_tags w)(p := None)))"
      "keeps (pk_heap w) h (ptrs ((pk_tags w)(p := None)))" by (rule RemoveAll_ok [OF m(2)])
    have "has_tags h mq (encoded us)" if q: "((pk_tags w)(p := None)) q = Some mq" "(A(p := None)) q = Some us" for q mq us
    proof -
      have "mq \<in># ptrs ((pk_tags w)(p := None))"
        using q(1) ref by (intro in_ptrsI [of _ q]) (simp_all add: refines_def)
      moreover have "has_tags (pk_heap w) mq (encoded us)"
        using q ref by (auto simp: refines_def split: if_splits)
      ultimately show ?thesis using h(3) by (auto simp: keeps_def)
    qed
    then have "refines (w\<lparr>pk_heap := h, pk_tags := (pk_tags w)(p := None)\<rparr>) (A(p := None))"
      using ref h(2) by (auto simp: refines_def)
    with Destroy Some m h show ?thesis by (simp add: Packet_delete_def with_tags_def)
  qed (use Destroy in simp)
next
  case (AddTag p c t)
  then have law: "lawful_tag c (enc (GetInstanceTypeId c))" using cls lawful by simp
  show ?thesis
  proof (cases "A p")
    case (Some vs)
    obtain m where m: "pk_tags w p = Some m" "has_tags (pk_heap w) m (encoded vs)"
      "tags_ok (pk_heap w) (add_mset m (ptrs ((pk_tags w)(p := None))))" by (rule refinesE [OF ref Some])
    show ?thesis
    proof (cases "map_of vs (GetInstanceTypeId c) = None")
      case True
      then have "map_of (encoded vs) (GetInstanceTypeId c) = None" by (simp add: map_of_encoded)
      then obtain h m' where r: "ptl_Add c t (pk_heap w) m = Some (h, m')"
        "tags_ok h (add_mset m' (ptrs ((pk_tags w)(p := None))))"
        "has_tags h m' ((GetInstanceTypeId c, enc (GetInstanceTypeId c) t) # encoded vs)"
        "keeps (pk_heap w) h (ptrs ((pk_tags w)(p := None)))"
        by (rule lawful_tag.Add_ok [OF law m(3,2)])
      have "refines (set_tags p (h, m') w) (A(p \<mapsto> (GetInstanceTypeId c, t) # vs))"
        by (rule refines_set [OF ref r(2) _ r(4)]) (use r(3) in \<open>simp add: encoded_simps\<close>)
      with AddTag Some True m r show ?thesis by (simp add: AddPacketTag_def with_tags_def)
    qed (use AddTag Some in auto)
  qed (use AddTag in simp)
next
  case (RemoveTag p c t)
  then have law: "lawful_tag c (enc (GetInstanceTypeId c))" using cls lawful by simp
  show ?thesis
  proof (cases "A p")
    case (Some vs)
    obtain m where m: "pk_tags w p = Some m" "has_tags (pk_heap w) m (encoded vs)"
      "tags_ok (pk_heap w) (add_mset m (ptrs ((pk_tags w)(p := None))))" by (rule refinesE [OF ref Some])
    show ?thesis
    proof (cases "map_of vs (GetInstanceTypeId c)")
      case None
      then have "map_of (encoded vs) (GetInstanceTypeId c) = None" by (simp add: map_of_encoded)
      from lawful_tag.Remove_absent [OF law m(2) this, of t]
      show ?thesis using RemoveTag Some None m ref
        by (simp add: RemovePacketTag_def with_tags_def set_tags_def fun_upd_idem)
    next
      case (Some t')
      then have "map_of (encoded vs) (GetInstanceTypeId c) = Some (enc (GetInstanceTypeId c) t')" by (simp add: map_of_encoded)
      then obtain h m' where r: "ptl_Remove c t (pk_heap w) m = Some (True, t', h, m')"
        "tags_ok h (add_mset m' (ptrs ((pk_tags w)(p := None))))"
        "has_tags h m' (tags_remove (GetInstanceTypeId c) (encoded vs))"
        "keeps (pk_heap w) h (ptrs ((pk_tags w)(p := None)))"
        by (rule lawful_tag.Remove_ok [OF law m(3,2)])
      have "refines (set_tags p (h, m') w) (A(p \<mapsto> tags_remove (GetInstanceTypeId c) vs))"
        by (rule refines_set [OF ref r(2) _ r(4)]) (use r(3) in \<open>simp add: encoded_simps\<close>)
      with RemoveTag \<open>A p = Some vs\<close> Some m r show ?thesis by (simp add: RemovePacketTag_def with_tags_def)
    qed
  qed (use RemoveTag in simp)
next
  case (ReplaceTag p c t)
  then have c: "c \<in> classes" and law: "lawful_tag c (enc (GetInstanceTypeId c))" using cls lawful by simp_all
  show ?thesis
  proof (cases "A p")
    case (Some vs)
    obtain m where m: "pk_tags w p = Some m" "has_tags (pk_heap w) m (encoded vs)"
      "tags_ok (pk_heap w) (add_mset m (ptrs ((pk_tags w)(p := None))))" by (rule refinesE [OF ref Some])
    show ?thesis
    proof (cases "map_of vs (GetInstanceTypeId c)")
      case None
      then have "map_of (encoded vs) (GetInstanceTypeId c) = None" by (simp add: map_of_encoded)
      then obtain h m' where r: "ptl_Replace c t (pk_heap w) m = Some (False, h, m')"
        "tags_ok h (add_mset m' (ptrs ((pk_tags w)(p := None))))"
        "has_tags h m' ((GetInstanceTypeId c, enc (GetInstanceTypeId c) t) # encoded vs)"
        "keeps (pk_heap w) h (ptrs ((pk_tags w)(p := None)))"
        by (rule lawful_tag.Replace_absent [OF law m(3,2)])
      have "refines (set_tags p (h, m') w) (A(p \<mapsto> (GetInstanceTypeId c, t) # vs))"
        by (rule refines_set [OF ref r(2) _ r(4)]) (use r(3) in \<open>simp add: encoded_simps\<close>)
      with ReplaceTag Some None m r show ?thesis by (simp add: ReplacePacketTag_def with_tags_def)
    next
      case (Some t')
      then have "map_of (encoded vs) (GetInstanceTypeId c) = Some (enc (GetInstanceTypeId c) t')" by (simp add: map_of_encoded)
      then obtain h m' where r: "ptl_Replace c t (pk_heap w) m = Some (True, h, m')"
        "tags_ok h (add_mset m' (ptrs ((pk_tags w)(p := None))))"
        "has_tags h m' (tags_replace (GetInstanceTypeId c) (enc (GetInstanceTypeId c) t) (encoded vs))"
        "keeps (pk_heap w) h (ptrs ((pk_tags w)(p := None)))"
        by (rule lawful_tag.Replace_ok [OF law m(3,2) _ fixed [OF c]])
      have "refines (set_tags p (h, m') w) (A(p \<mapsto> tags_replace (GetInstanceTypeId c) t vs))"
        by (rule refines_set [OF ref r(2) _ r(4)]) (use r(3) in \<open>simp add: encoded_simps\<close>)
      with ReplaceTag \<open>A p = Some vs\<close> Some m r show ?thesis by (simp add: ReplacePacketTag_def with_tags_def)
    qed
  qed (use ReplaceTag in simp)
next
  case (PeekTag p c t)
  then have law: "lawful_tag c (enc (GetInstanceTypeId c))" using cls lawful by simp
  show ?thesis
  proof (cases "A p")
    case (Some vs)
    obtain m where m: "pk_tags w p = Some m" "has_tags (pk_heap w) m (encoded vs)"
      "tags_ok (pk_heap w) (add_mset m (ptrs ((pk_tags w)(p := None))))" by (rule refinesE [OF ref Some])
    show ?thesis
    proof (cases "map_of vs (GetInstanceTypeId c)")
      case None
      then have "ptl_Peek c t (pk_heap w) m = Some (False, t)"
        by (intro lawful_tag.Peek_ok(1) [OF law m(3,2)]) (simp add: map_of_encoded)
      with PeekTag Some None m ref show ?thesis by (simp add: PeekPacketTag_def with_tags_def)
    next
      case (Some t')
      then have "ptl_Peek c t (pk_heap w) m = Some (True, t')"
        by (intro lawful_tag.Peek_ok(2) [OF law m(3,2)]) (simp add: map_of_encoded)
      with PeekTag \<open>A p = Some vs\<close> Some m ref show ?thesis by (simp add: PeekPacketTag_def with_tags_def)
    qed
  qed (use PeekTag in simp)
next
  case (RemoveAllTags p)
  show ?thesis
  proof (cases "A p")
    case (Some vs)
    obtain m where m: "pk_tags w p = Some m" "tags_ok (pk_heap w) (add_mset m (ptrs ((pk_tags w)(p := None))))"
      by (rule refinesE [OF ref Some])
    obtain h where h: "ptl_RemoveAll (pk_heap w) m = Some (h, None)" "tags_ok h (ptrs ((pk_tags w)(p := None)))"
      "keeps (pk_heap w) h (ptrs ((pk_tags w)(p := None)))" by (rule RemoveAll_ok [OF m(2)])
    have "refines (set_tags p (h, None) w) (A(p \<mapsto> []))"
      by (rule refines_set [OF ref _ _ h(3)]) (use h(2) in \<open>auto simp: tags_ok_None has_tags_def encoded_simps\<close>)
    with RemoveAllTags Some m h show ?thesis by (simp add: RemoveAllPacketTags_def with_tags_def)
  qed (use RemoveAllTags in simp)
qed

lemma refines_run:
  assumes "refines w A" "set (List.map_filter op_class ops) \<subseteq> classes"
    and "spec_run ops A = Some (rs, A')"
  shows "\<exists>w'. packet_run ops w = Some (rs, w') \<and> refines w' A'"
  using assms
proof (induction ops arbitrary: w A rs)
  case (Cons op ops)
  from Cons.prems(3) obtain r A1 rs1 where 1: "spec_step op A = Some (r, A1)"
    "spec_run ops A1 = Some (rs1, A')" "rs = r # rs1"
    by (auto split: bind_splits)
  have cls: "op_class op = Some c \<Longrightarrow> c \<in> classes" "set (List.map_filter op_class ops) \<subseteq> classes" for c
    using Cons.prems(2) by (auto simp: List.map_filter_simps split: option.splits)
  from refines_step [OF Cons.prems(1), of op] cls(1) 1(1) obtain w1 where
    w1: "packet_step op w = Some (r, w1)" "refines w1 A1" by auto
  from Cons.IH [OF w1(2) cls(2) 1(2)] obtain w' where "packet_run ops w1 = Some (rs1, w')" "refines w' A'"
    by auto
  with w1(1) 1(3) show ?case by simp
qed simp

lemma refines_new: "refines packets_new Map.empty"
  by (simp add: refines_def packets_new_def th_empty_def tags_ok_def shape_ok_def ptrs_def)

lemma refines_empty: "refines w Map.empty \<Longrightarrow> th_cells (pk_heap w) = Map.empty"
  by (auto simp: refines_def tags_ok_def shape_ok_def ptrs_def)

end

section \<open>The KPI tag\<close>

text \<open>The tag class of the scenario; \<open>tid\<close> is the type id that the object system gives it.\<close>

definition kpi_tag_class :: "nat \<Rightarrow> kpi_tag tag_class" where
  "kpi_tag_class tid = \<lparr>GetInstanceTypeId = tid, tag_GetSerializedSize = (\<lambda>_. kt_GetSerializedSize),
     tag_Serialize = kt_Serialize, tag_Deserialize = (\<lambda>_. kt_Deserialize)\<rparr>"

interpretation kpi_class: lawful_tag "kpi_tag_class tid" tag_bytes for tid
proof
  fix b and t :: kpi_tag
  assume "tb_ok b" "tb_current b + length (tag_bytes t) \<le> tb_end b"
  from tb_Write_eq [OF this]
  show "tag_Serialize (kpi_tag_class tid) t b = Some (b\<lparr>tb_mem := put_bytes (tb_current b) (tag_bytes t) (tb_mem b),
      tb_current := tb_current b + length (tag_bytes t)\<rparr>)"
    by (simp add: kpi_tag_class_def kt_Serialize_bytes)
next
  fix t0 t :: kpi_tag
  show "tag_Deserialize (kpi_tag_class tid) t0 \<lparr>tb_mem = tag_bytes t, tb_current = 0, tb_end = length (tag_bytes t)\<rparr> = Some t"
    using kt_Deserialize_bytes [of 0 "tag_bytes t" t 20] by (simp add: kpi_tag_class_def)
qed (simp_all add: kpi_tag_class_def kt_GetSerializedSize_def)

interpretation kpi_packets: tag_classes "{kpi_tag_class tid}" "\<lambda>_. tag_bytes" for tid
proof (rule tag_classes.intro)
  show "lawful_tag c tag_bytes" if "c \<in> {kpi_tag_class tid}" for c
    using that kpi_class.lawful_tag_axioms by simp
qed simp

section \<open>What a program observes\<close>

text \<open>C4: a program of calls on packets returns what it would return if every packet had a list of tags
  of its own: copying nodes on write is not observable, no call fails on a null or freed pointer or on
  a wrong reference count, and when the program has destroyed all its packets no node is left.\<close>

theorem packet_tags_refine:
  assumes "tag_classes classes enc"
    and "set (List.map_filter op_class ops) \<subseteq> classes"
    and "spec_run ops Map.empty = Some (rs, A)"
  shows "\<exists>w. packet_run ops packets_new = Some (rs, w) \<and> dom (pk_tags w) = dom A
    \<and> (A = Map.empty \<longrightarrow> th_cells (pk_heap w) = Map.empty)"
proof -
  note c = assms(1)
  from tag_classes.refines_run [OF c tag_classes.refines_new [OF c] assms(2,3)]
  obtain w where w: "packet_run ops packets_new = Some (rs, w)" "tag_classes.refines enc w A" by blast
  then have "dom (pk_tags w) = dom A" by (simp add: tag_classes.refines_def [OF c])
  with w tag_classes.refines_empty [OF c] show ?thesis by blast
qed

lemma kpi_classes: "tag_classes {kpi_tag_class tid} (\<lambda>_. tag_bytes)"
  by (rule kpi_packets.tag_classes_axioms)

definition sample_tag :: kpi_tag where
  "sample_tag = \<lparr>kt_sequence = 7, kt_txTimeNs = 5, kt_txVehicleId = 3\<rparr>"

definition sample_ops :: "kpi_tag packet_op list" where
  "sample_ops = [Create 1, AddTag 1 (kpi_tag_class 9) sample_tag, Copy 2 1, Copy 3 2,
     RemoveTag 1 (kpi_tag_class 9) kpi_tag_new, ReplaceTag 2 (kpi_tag_class 9) kpi_tag_new,
     PeekTag 3 (kpi_tag_class 9) kpi_tag_new, Destroy 1, Destroy 2, Destroy 3]"

theorem packet_tags_refine_witness:
  "\<exists>w. packet_run sample_ops packets_new = Some ([None, None, None, None, Some (True, sample_tag),
       Some (True, kpi_tag_new), Some (True, sample_tag), None, None, None], w)
     \<and> th_cells (pk_heap w) = Map.empty"
proof -
  have cls: "set (List.map_filter op_class sample_ops) \<subseteq> {kpi_tag_class 9}"
    by (simp add: sample_ops_def List.map_filter_simps)
  have "spec_run sample_ops Map.empty = Some ([None, None, None, None, Some (True, sample_tag),
       Some (True, kpi_tag_new), Some (True, sample_tag), None, None, None], Map.empty)"
    by (simp add: sample_ops_def kpi_tag_class_def)
  from packet_tags_refine [OF kpi_classes cls this] show ?thesis by auto
qed

text \<open>The packet whose tags a call may change.\<close>

fun op_target :: "'a packet_op \<Rightarrow> nat" where
  "op_target (Create p) = p"
| "op_target (Copy q p) = q"
| "op_target (Assign q p) = q"
| "op_target (Destroy p) = p"
| "op_target (AddTag p c t) = p"
| "op_target (RemoveTag p c t) = p"
| "op_target (ReplaceTag p c t) = p"
| "op_target (PeekTag p c t) = p"
| "op_target (RemoveAllTags p) = p"

lemma spec_step_other:
  assumes "spec_step op A = Some (r, A')" "op_target op \<noteq> q"
  shows "A' q = A q"
  using assms by (cases op) (auto split: if_splits option.splits bind_splits)

lemma spec_run_other:
  assumes "spec_run ops A = Some (rs, A')" "\<forall>op \<in> set ops. op_target op \<noteq> q"
  shows "A' q = A q"
  using assms
proof (induction ops arbitrary: A rs)
  case (Cons op ops)
  from Cons.prems(1) obtain r A1 rs1 where "spec_step op A = Some (r, A1)" "spec_run ops A1 = Some (rs1, A')"
    by (auto split: bind_splits)
  with Cons show ?case using spec_step_other by (metis list.set_intros)
qed simp

lemma spec_run_append:
  "spec_run (us @ vs) A = Option.bind (spec_run us A) (\<lambda>(rs, A1).
     Option.bind (spec_run vs A1) (\<lambda>(rs', A2). Some (rs @ rs', A2)))"
  by (induction us arbitrary: A) (auto split: bind_splits prod.splits)

text \<open>C22: the KPI tag that a CAM gets before it is sent is found unchanged in a copy of the packet,
  whatever is done to the packet it was copied from and to all other copies in the meantime.\<close>

theorem kpi_tag_survives:
  assumes "tag_classes classes enc" "kpi_tag_class tid \<in> classes"
    and "set (List.map_filter op_class (before @ after)) \<subseteq> classes"
    and "\<forall>op \<in> set after. op_target op \<noteq> q"
    and run: "spec_run (before @ AddTag p (kpi_tag_class tid) tag # Copy q p # after) Map.empty = Some (rs, A)"
  shows "\<exists>w. packet_run ((before @ AddTag p (kpi_tag_class tid) tag # Copy q p # after)
      @ [PeekTag q (kpi_tag_class tid) tag0]) packets_new = Some (rs @ [Some (True, tag)], w)"
proof -
  let ?ops = "before @ AddTag p (kpi_tag_class tid) tag # Copy q p # after"
  from run obtain rs0 A0 vs rs1 where A0: "A0 p = Some vs"
    and after: "spec_run after (A0(p \<mapsto> (tid, tag) # vs, q \<mapsto> (tid, tag) # vs)) = Some (rs1, A)"
    by (auto simp: spec_run_append kpi_tag_class_def split: bind_splits if_splits prod.splits)
  have "A q = Some ((tid, tag) # vs)"
    using spec_run_other [OF after assms(4)] by simp
  then have "spec_run (?ops @ [PeekTag q (kpi_tag_class tid) tag0]) Map.empty = Some (rs @ [Some (True, tag)], A)"
    unfolding spec_run_append [of ?ops] run by (simp add: kpi_tag_class_def)
  moreover have "set (List.map_filter op_class (?ops @ [PeekTag q (kpi_tag_class tid) tag0])) \<subseteq> classes"
    using assms(2,3) by (auto simp: List.map_filter_def)
  ultimately obtain w where "packet_run (?ops @ [PeekTag q (kpi_tag_class tid) tag0]) packets_new
      = Some (rs @ [Some (True, tag)], w)"
    using tag_classes.refines_run [OF assms(1) tag_classes.refines_new [OF assms(1)]] by blast
  then show ?thesis by blast
qed

theorem kpi_tag_survives_witness:
  "\<exists>w. packet_run (([Create 1] @ AddTag 1 (kpi_tag_class 9) sample_tag # Copy 2 1 #
        [Copy 3 2, RemoveTag 1 (kpi_tag_class 9) kpi_tag_new, ReplaceTag 3 (kpi_tag_class 9) kpi_tag_new, Destroy 1])
      @ [PeekTag 2 (kpi_tag_class 9) kpi_tag_new]) packets_new
    = Some ([None, None, None, None, Some (True, sample_tag), Some (True, kpi_tag_new), None] @ [Some (True, sample_tag)], w)"
proof -
  let ?after = "[Copy 3 2, RemoveTag 1 (kpi_tag_class 9) kpi_tag_new, ReplaceTag 3 (kpi_tag_class 9) kpi_tag_new, Destroy 1]"
  have "spec_run ([Create 1] @ AddTag 1 (kpi_tag_class 9) sample_tag # Copy 2 1 # ?after) Map.empty
      = Some ([None, None, None, None, Some (True, sample_tag), Some (True, kpi_tag_new), None],
          [2 \<mapsto> [(9, sample_tag)], 3 \<mapsto> [(9, kpi_tag_new)]])"
    by (auto simp: kpi_tag_class_def fun_eq_iff)
  from kpi_tag_survives [OF kpi_classes [of 9] _ _ _ this, of kpi_tag_new] show ?thesis
    by (simp add: List.map_filter_simps)
qed

end
