(* ===== verification/RngStream.thy ===== *)
theory RngStream
  imports V2xPrelude
begin

text \<open>
  The random numbers of ns-3: the MRG32k3a generator (\<open>core/model/rng-stream.cc\<close>), the seed and run
  numbers (\<open>rng-seed-manager.cc\<close>) and the streams of random variables
  (\<open>random-variable-stream.cc\<close>).

  The code computes with integers held in doubles and claims to be exact. Here every operation on
  doubles is rounded by an arbitrary function \<open>fl\<close> that is monotone and exact on integers up to
  \<open>2^53\<close>, and has the relative error that IEEE 754 guarantees, and a conversion to \<open>int32_t\<close> that is out of range gives an
  arbitrary value. The theorems hold for all such functions: no intermediate value is rounded, no
  conversion is out of range, and the generator is the linear recurrence modulo \<open>m1\<close> and \<open>m2\<close> that
  it is meant to be. Operations are not fused or reassociated.
\<close>

section \<open>Arithmetic on doubles\<close>

record fpu =
  fl :: "real \<Rightarrow> real"
  out_of_range :: "real \<Rightarrow> int"

definition fadd :: "fpu \<Rightarrow> double \<Rightarrow> double \<Rightarrow> double" where "fadd f x y = fl f (x + y)"
definition fsub :: "fpu \<Rightarrow> double \<Rightarrow> double \<Rightarrow> double" where "fsub f x y = fl f (x - y)"
definition fmul :: "fpu \<Rightarrow> double \<Rightarrow> double \<Rightarrow> double" where "fmul f x y = fl f (x * y)"
definition fdiv :: "fpu \<Rightarrow> double \<Rightarrow> double \<Rightarrow> double" where "fdiv f x y = fl f (x / y)"

definition trunc_int :: "double \<Rightarrow> int" where
  "trunc_int x = (if x < 0 then \<lceil>x\<rceil> else \<lfloor>x\<rfloor>)"

definition to_int32 :: "fpu \<Rightarrow> double \<Rightarrow> int" where
  \<comment> \<open>\<open>static_cast<int32_t>(x)\<close>\<close>
  "to_int32 f x = (let n = trunc_int x in if - (2 ^ 31) \<le> n \<and> n < 2 ^ 31 then n else out_of_range f x)"

text \<open>What the code relies on of IEEE 754 double precision arithmetic: rounding is monotone, does not
  change integers up to \<open>2^53\<close>, and has a relative error of at most \<open>2^-53\<close> for normal numbers.\<close>

definition ieee_double :: "fpu \<Rightarrow> bool" where
  "ieee_double f \<longleftrightarrow> mono (fl f) \<and> (\<forall>n :: int. \<bar>n\<bar> \<le> 2 ^ 53 \<longrightarrow> fl f (of_int n) = of_int n)
     \<and> (\<forall>x. 1 / 2 ^ 1022 \<le> \<bar>x\<bar> \<longrightarrow> \<bar>x\<bar> \<le> 2 ^ 1023 \<longrightarrow> \<bar>fl f x - x\<bar> \<le> \<bar>x\<bar> / 2 ^ 53)"

definition exact_fpu :: fpu where
  "exact_fpu = \<lparr>fl = (\<lambda>x. x), out_of_range = (\<lambda>_. - (2 ^ 31))\<rparr>"

section \<open>The generator\<close>

definition m1 :: double where "m1 = 4294967087"
definition m2 :: double where "m2 = 4294944443"
definition norm :: "fpu \<Rightarrow> double" where "norm f = fdiv f 1 (fadd f m1 1)"
definition a12 :: double where "a12 = 1403580"
definition a13n :: double where "a13n = 810728"
definition a21 :: double where "a21 = 527612"
definition a23n :: double where "a23n = 1370589"
definition two17 :: double where "two17 = 131072"
definition two53 :: double where "two53 = 9007199254740992"

type_synonym matrix = "double list list"

definition A1p0 :: matrix where
  "A1p0 = [[0, 1, 0], [0, 0, 1], [-810728, 1403580, 0]]"

definition A2p0 :: matrix where
  "A2p0 = [[0, 1, 0], [0, 0, 1], [-1370589, 0, 527612]]"

text \<open>The three parts of \<open>MultModM\<close>: subtracting multiples of \<open>m\<close>, the decomposition for products that
  do not fit in 53 bits, and the function itself.\<close>

definition sub_multiple :: "fpu \<Rightarrow> double \<Rightarrow> double \<Rightarrow> double" where
  "sub_multiple f v m = (let k = of_int (to_int32 f (fdiv f v m)) in fsub f v (fmul f k m))"

definition mod_down :: "fpu \<Rightarrow> double \<Rightarrow> double \<Rightarrow> double" where
  "mod_down f v m = (let v = sub_multiple f v m in if v < 0 then fadd f v m else v)"

definition split_product :: "fpu \<Rightarrow> double \<Rightarrow> double \<Rightarrow> double \<Rightarrow> double \<Rightarrow> double" where
  "split_product f a s c m =
     (let a1 = of_int (to_int32 f (fdiv f a two17));
          a = fsub f a (fmul f a1 two17);
          v = sub_multiple f (fmul f a1 s) m
      in fadd f (fadd f (fmul f v two17) (fmul f a s)) c)"

definition MultModM :: "fpu \<Rightarrow> double \<Rightarrow> double \<Rightarrow> double \<Rightarrow> double \<Rightarrow> double" where
  "MultModM f a s c m =
     (let v = fadd f (fmul f a s) c
      in mod_down f (if v \<ge> two53 \<or> v \<le> - two53 then split_product f a s c m else v) m)"

definition MatVecModM :: "fpu \<Rightarrow> matrix \<Rightarrow> double list \<Rightarrow> double \<Rightarrow> double list" where
  "MatVecModM f A s m = map (\<lambda>i.
     let x = MultModM f (A ! i ! 0) (s ! 0) 0 m;
         x = MultModM f (A ! i ! 1) (s ! 1) x m
     in MultModM f (A ! i ! 2) (s ! 2) x m) [0..<3]"

definition MatMatModM :: "fpu \<Rightarrow> matrix \<Rightarrow> matrix \<Rightarrow> double \<Rightarrow> matrix" where
  "MatMatModM f A B m =
     (let W = map (\<lambda>i. MatVecModM f A (map (\<lambda>j. B ! j ! i) [0..<3]) m) [0..<3]
      in map (\<lambda>j. map (\<lambda>i. W ! i ! j) [0..<3]) [0..<3])"

primrec MatTwoPowModM :: "fpu \<Rightarrow> matrix \<Rightarrow> double \<Rightarrow> nat \<Rightarrow> matrix" where
  "MatTwoPowModM f src m 0 = src"
| "MatTwoPowModM f src m (Suc e) = (let dst = MatTwoPowModM f src m e in MatMatModM f dst dst m)"

fun pow_loop :: "fpu \<Rightarrow> matrix \<Rightarrow> matrix \<Rightarrow> double \<Rightarrow> nat \<Rightarrow> matrix" where
  "pow_loop f W B m n =
     (if n > 0 then pow_loop f (MatMatModM f W W m) (if n mod 2 \<noteq> 0 then MatMatModM f W B m else B) m (n div 2)
      else B)"

declare pow_loop.simps [simp del]

definition MatPowModM :: "fpu \<Rightarrow> matrix \<Rightarrow> double \<Rightarrow> int \<Rightarrow> matrix" where
  "MatPowModM f A m n = pow_loop f A [[1, 0, 0], [0, 1, 0], [0, 0, 1]] m (nat n)"

record precalculated =
  pc_a1 :: "matrix list"
  pc_a2 :: "matrix list"

definition PowerOfTwoConstants :: "fpu \<Rightarrow> precalculated" where
  "PowerOfTwoConstants f = \<lparr>pc_a1 = map (\<lambda>i. MatTwoPowModM f A1p0 m1 (i + 1)) [0..<190],
     pc_a2 = map (\<lambda>i. MatTwoPowModM f A2p0 m2 (i + 1)) [0..<190]\<rparr>"

text \<open>An index outside of the arrays is \<open>None\<close>.\<close>

definition PowerOfTwoMatrix :: "fpu \<Rightarrow> int \<Rightarrow> (matrix \<times> matrix) option" where
  "PowerOfTwoMatrix f n = (let constants = PowerOfTwoConstants f in
     if 1 \<le> n \<and> n \<le> 190 then Some (pc_a1 constants ! nat (n - 1), pc_a2 constants ! nat (n - 1)) else None)"

section \<open>Exactness of the modular arithmetic\<close>

lemma fl_int: "ieee_double f \<Longrightarrow> \<bar>n\<bar> \<le> 2 ^ 53 \<Longrightarrow> fl f (of_int n) = of_int n"
  by (simp add: ieee_double_def)

lemma fl_mono: "ieee_double f \<Longrightarrow> x \<le> y \<Longrightarrow> fl f x \<le> fl f y"
  by (auto simp: ieee_double_def dest: monoD)

lemma fl_error:
  "ieee_double f \<Longrightarrow> 1 / 2 ^ 1022 \<le> \<bar>x\<bar> \<Longrightarrow> \<bar>x\<bar> \<le> 2 ^ 1023 \<Longrightarrow> \<bar>fl f x - x\<bar> \<le> \<bar>x\<bar> / 2 ^ 53"
  unfolding ieee_double_def by blast

text \<open>The quotient of two integers is rounded so little that its integer part stays the same.\<close>

lemma fl_quotient:
  assumes f: "ieee_double f" and m: "0 < m" "m \<le> 2 ^ 32" and v: "\<bar>v\<bar> < 2 ^ 53"
  shows "\<bar>fl f (of_int v / of_int m) - of_int v / of_int m\<bar> < 1 / of_int m"
proof (cases "v = 0")
  case True
  then show ?thesis using fl_int [OF f, of 0] m by simp
next
  case False
  let ?x = "of_int v / of_int m :: real"
  have m': "0 < real_of_int m" "real_of_int m \<le> 2 ^ 32" using m by simp_all
  have v': "1 \<le> \<bar>real_of_int v\<bar>" "\<bar>real_of_int v\<bar> < 2 ^ 53"
    using False v by (simp_all add: of_int_abs [symmetric] del: of_int_abs)
  have x: "\<bar>?x\<bar> = \<bar>real_of_int v\<bar> / real_of_int m" using m' by (simp add: abs_divide)
  have "1 / 2 ^ 32 \<le> \<bar>?x\<bar>"
    unfolding x using m' v' by (intro frac_le) simp_all
  then have lo: "1 / 2 ^ 1022 \<le> \<bar>?x\<bar>"
    by (rule order_trans [rotated]) (simp add: field_simps)
  have "\<bar>?x\<bar> < 2 ^ 53 / real_of_int m" unfolding x using m' v' by (intro divide_strict_right_mono) simp_all
  moreover have "2 ^ 53 / real_of_int m \<le> 2 ^ 53" using m m' by (simp add: field_simps)
  ultimately have "\<bar>fl f ?x - ?x\<bar> \<le> \<bar>?x\<bar> / 2 ^ 53"
    using lo by (intro fl_error [OF f]) simp_all
  also have "\<dots> < (2 ^ 53 / real_of_int m) / 2 ^ 53"
    using \<open>\<bar>?x\<bar> < 2 ^ 53 / real_of_int m\<close> by (intro divide_strict_right_mono) simp_all
  finally show ?thesis by simp
qed


lemma of_int_div_mod: "real_of_int v = real_of_int (v div m) * real_of_int m + real_of_int (v mod m)"
  by (metis div_mult_mod_eq of_int_add of_int_mult)

lemma floor_quotient:
  assumes f: "ieee_double f" and m: "0 < m" "m \<le> 2 ^ 32" and v: "0 \<le> v" "v < 2 ^ 53"
  shows "of_int (v div m) \<le> fl f (of_int v / of_int m)" "fl f (of_int v / of_int m) < of_int (v div m) + 1"
proof -
  let ?x = "of_int v / of_int m :: real" and ?n = "v div m"
  have m': "0 < real_of_int m" using m by simp
  have x: "?x = of_int ?n + of_int (v mod m) / of_int m"
    using m' by (subst of_int_div_mod [of v m]) (simp add: add_divide_distrib)
  have r: "0 \<le> v mod m" "v mod m \<le> m - 1" using m pos_mod_bound [of m v] by simp_all
  have "of_int ?n \<le> ?x" unfolding x using r(1) m' by simp
  moreover have "?n \<le> v" using v int_div_le_self [of v m] by (cases "v = 0") auto
  then have "fl f (of_int ?n) = of_int ?n" using v m by (intro fl_int [OF f]) (auto simp: pos_imp_zdiv_nonneg_iff)
  ultimately show "of_int ?n \<le> fl f ?x" using fl_mono [OF f] by metis
  have "real_of_int (v mod m) \<le> of_int (m - 1)" using r(2) by (simp only: of_int_le_iff)
  then have "of_int (v mod m) / real_of_int m \<le> of_int (m - 1) / real_of_int m"
    using m' by (intro divide_right_mono) simp_all
  also have "\<dots> = 1 - 1 / real_of_int m" using m' by (simp add: diff_divide_distrib)
  finally have "?x \<le> of_int ?n + 1 - 1 / real_of_int m" unfolding x by simp
  moreover have "\<bar>fl f ?x - ?x\<bar> < 1 / of_int m" using v by (intro fl_quotient [OF f m]) simp
  ultimately show "fl f ?x < of_int ?n + 1" by linarith
qed


text \<open>The mirror image of a rounding function is one, too: negative dividends need no proof of their own.\<close>

lemma ieee_mirror:
  assumes "ieee_double f"
  shows "ieee_double (f\<lparr>fl := \<lambda>y. - fl f (- y)\<rparr>)"
proof -
  have "\<bar>- fl f (- x) - x\<bar> \<le> \<bar>x\<bar> / 2 ^ 53" if "1 / 2 ^ 1022 \<le> \<bar>x\<bar>" "\<bar>x\<bar> \<le> 2 ^ 1023" for x
  proof -
    have "- fl f (- x) - x = - (fl f (- x) - (- x))" by simp
    then have "\<bar>- fl f (- x) - x\<bar> = \<bar>fl f (- x) - (- x)\<bar>" by (simp only: abs_minus_cancel)
    also have "\<dots> \<le> \<bar>- x\<bar> / 2 ^ 53"
      by (rule fl_error [OF assms]) (simp_all only: abs_minus_cancel that)
    finally show ?thesis by (simp only: abs_minus_cancel)
  qed
  moreover have "mono (\<lambda>y. - fl f (- y))"
    using fl_mono [OF assms] by (intro monoI) simp
  moreover have "- fl f (- real_of_int n) = of_int n" if "\<bar>n\<bar> \<le> 2 ^ 53" for n :: int
    using fl_int [OF assms, of "- n"] that by simp
  ultimately show ?thesis unfolding ieee_double_def by simp
qed

text \<open>Dividing, truncating and subtracting leaves the remainder with the sign of the dividend.\<close>

lemma quot_step:
  assumes f: "ieee_double f" and m: "0 < m" "m \<le> 2 ^ 32" and v: "\<bar>v\<bar> < 2 ^ 53" "\<bar>v\<bar> < 2 ^ 31 * m"
  shows "to_int32 f (fdiv f (of_int v) (of_int m)) = (if v < 0 then - (- v div m) else v div m)"
proof -
  let ?x = "of_int v / of_int m :: real"
  note m0 = m(1)
  define n where "n = \<bar>v\<bar> div m"
  have nm: "n * m \<le> \<bar>v\<bar>"
    using div_mult_mod_eq [of "\<bar>v\<bar>" m] pos_mod_sign [OF m0, of "\<bar>v\<bar>"] unfolding n_def by linarith
  have n0: "0 \<le> n" using m0 by (simp add: n_def pos_imp_zdiv_nonneg_iff)
  have n1: "n < 2 ^ 31"
  proof (rule ccontr)
    assume "\<not> n < 2 ^ 31"
    then have "2 ^ 31 * m \<le> n * m" using m by (intro mult_right_mono) auto
    with nm v(2) show False by linarith
  qed
  define q where "q = (if v < 0 then - n else n)"
  have "trunc_int (fl f ?x) = q"
  proof (cases "v < 0")
    case False
    then have "of_int n \<le> fl f ?x" "fl f ?x < of_int n + 1"
      using floor_quotient [OF f m, of v] v(1) by (simp_all add: n_def)
    with n0 have "\<lfloor>fl f ?x\<rfloor> = n" "0 \<le> fl f ?x" by (linarith, metis of_int_0_le_iff order_trans)
    then show ?thesis using False by (simp add: trunc_int_def q_def)
  next
    case True
    from floor_quotient [OF ieee_mirror [OF f] m, of "- v"] True v(1)
    have b: "of_int n \<le> - fl f ?x" "- fl f ?x < of_int n + 1" by (simp_all add: n_def)
    then have "\<lceil>fl f ?x\<rceil> = - n" by linarith
    moreover have "fl f ?x = 0 \<and> n = 0" if "0 \<le> fl f ?x"
    proof -
      have "0 \<le> real_of_int n" using n0 by simp
      with that b(1) show ?thesis by (intro conjI; linarith)
    qed
    ultimately show ?thesis using True by (cases "fl f ?x < 0") (simp_all add: trunc_int_def q_def)
  qed
  then have "to_int32 f (fdiv f (of_int v) (of_int m)) = q"
    using n0 n1 by (simp add: to_int32_def fdiv_def q_def Let_def)
  then show ?thesis by (simp add: q_def n_def)
qed

lemma rem_step:
  assumes f: "ieee_double f" and m: "0 < m" "m \<le> 2 ^ 32" and v: "\<bar>v\<bar> < 2 ^ 53" "\<bar>v\<bar> < 2 ^ 31 * m"
  defines "r \<equiv> (if v < 0 then - (- v mod m) else v mod m)"
  shows "sub_multiple f (of_int v) (of_int m) = of_int r"
proof -
  note m0 = m(1)
  define n where "n = \<bar>v\<bar> div m"
  have nm: "n * m \<le> \<bar>v\<bar>"
    using div_mult_mod_eq [of "\<bar>v\<bar>" m] pos_mod_sign [OF m0, of "\<bar>v\<bar>"] unfolding n_def by linarith
  have n0: "0 \<le> n" using m0 by (simp add: n_def pos_imp_zdiv_nonneg_iff)
  define q where "q = (if v < 0 then - n else n)"
  have t: "to_int32 f (fdiv f (of_int v) (of_int m)) = q"
    unfolding quot_step [OF f m v] by (simp add: q_def n_def)
  have qm: "q * m = (if v < 0 then - (n * m) else n * m)" by (simp add: q_def)
  have vr: "v - q * m = r"
  proof (cases "v < 0")
    case True
    then have "- v = n * m + (- v mod m)" by (simp add: n_def)
    with True qm show ?thesis unfolding r_def by (simp only: if_True)
  next
    case False
    then have "v = n * m + v mod m" by (simp add: n_def)
    with False qm show ?thesis unfolding r_def by (simp only: if_False)
  qed
  have "\<bar>q * m\<bar> \<le> 2 ^ 53" using qm nm v(1) n0 m0 by (simp add: abs_mult)
  then have "fmul f (of_int q) (of_int m) = of_int (q * m)"
    using fl_int [OF f, of "q * m"] by (simp add: fmul_def)
  moreover have b: "0 \<le> v mod m" "v mod m < m" "0 \<le> - v mod m" "- v mod m < m" using m0 by simp_all
  have "r = - (- v mod m) \<or> r = v mod m" unfolding r_def by (cases "v < 0") simp_all
  then have "\<bar>r\<bar> \<le> m" using b by linarith
  with m(2) have "\<bar>r\<bar> \<le> 2 ^ 53" by simp
  then have "fsub f (of_int v) (of_int (q * m)) = of_int r"
    using fl_int [OF f, of r] vr by (simp add: fsub_def del: of_int_mult flip: of_int_diff)
  ultimately show ?thesis unfolding sub_multiple_def Let_def t by simp
qed


lemma final_step:
  assumes f: "ieee_double f" and m: "0 < m" "m \<le> 2 ^ 32" and v: "\<bar>v\<bar> < 2 ^ 53" "\<bar>v\<bar> < 2 ^ 31 * m"
  shows "mod_down f (of_int v) (of_int m) = of_int (v mod m)"
proof (cases "v < 0 \<and> - v mod m \<noteq> 0")
  case True
  then have w: "(if v < 0 then - (- v mod m) else v mod m) = v mod m - m"
    using m(1) by (auto simp: zmod_zminus1_eq_if split: if_splits)
  have b: "0 \<le> v mod m" "v mod m < m" using m(1) by simp_all
  then have "fadd f (of_int (v mod m - m)) (of_int m) = of_int (v mod m)"
    using fl_int [OF f, of "v mod m"] m(2) by (simp add: fadd_def)
  with b show ?thesis unfolding mod_down_def rem_step [OF f m v] w Let_def by simp
next
  case False
  then have "(if v < 0 then - (- v mod m) else v mod m) = v mod m"
  proof -
    have "v mod m \<noteq> m" using pos_mod_bound [OF m(1), of v] by linarith
    with False m(1) show ?thesis by (auto simp: zmod_zminus1_eq_if split: if_splits)
  qed
  moreover have "0 \<le> v mod m" using m(1) by simp
  ultimately show ?thesis unfolding mod_down_def rem_step [OF f m v] Let_def by simp
qed

lemma fl_ops:
  assumes "ieee_double f"
  shows "\<bar>x + y\<bar> \<le> 2 ^ 53 \<Longrightarrow> fadd f (of_int x) (of_int y) = of_int (x + y)"
    "\<bar>x * y\<bar> \<le> 2 ^ 53 \<Longrightarrow> fmul f (of_int x) (of_int y) = of_int (x * y)"
  using fl_int [OF assms, of "x + y"] fl_int [OF assms, of "x * y"] by (simp_all add: fadd_def fmul_def)

lemma mult_bound: "0 \<le> x \<Longrightarrow> x \<le> (b :: int) \<Longrightarrow> 0 \<le> y \<Longrightarrow> y \<le> c \<Longrightarrow> 0 \<le> x * y \<and> x * y \<le> b * c"
  by (auto intro: mult_mono)

lemma mod_mult_add: "((x mod m) * k + y + c) mod m = (x * k + y + c) mod (m :: int)"
proof -
  have "((x mod m) * k) mod m = (x * k) mod m" by (rule mod_mult_left_eq)
  then have "((x mod m) * k + (y + c)) mod m = (x * k + (y + c)) mod m" by (rule mod_add_cong) (rule refl)
  then show ?thesis by (simp only: add.assoc)
qed

lemma MultModM_small:
  assumes f: "ieee_double f" and m: "2 ^ 31 \<le> m" "m \<le> 2 ^ 32"
    and b: "\<bar>a * s\<bar> \<le> 2 ^ 53" "\<bar>a * s + c\<bar> < 2 ^ 53"
  shows "MultModM f (of_int a) (of_int s) (of_int c) (of_int m) = of_int ((a * s + c) mod m)"
proof -
  define v where "v = fadd f (fmul f (of_int a) (of_int s)) (of_int c)"
  have v: "v = of_int (a * s + c)" using fl_ops [OF f] b by (simp add: v_def del: of_int_add of_int_mult)
  have "\<not> (v \<ge> two53 \<or> v \<le> - two53)"
  proof -
    have "a * s + c < 9007199254740992" "- 9007199254740992 < a * s + c" using b(2) by auto
    then show ?thesis unfolding v two53_def by linarith
  qed
  then have nb: "(v \<ge> two53 \<or> v \<le> - two53) = False" by blast
  have "\<bar>a * s + c\<bar> < 2 ^ 31 * m" using b(2) m(1) by simp
  moreover have "0 < m" using m(1) by simp
  ultimately have fin: "mod_down f (of_int (a * s + c)) (of_int m) = of_int ((a * s + c) mod m)"
    using final_step [OF f _ m(2) b(2)] by simp
  show ?thesis unfolding MultModM_def Let_def v_def [symmetric] nb if_False unfolding v by (rule fin)
qed

lemma MultModM_exact:
  assumes f: "ieee_double f" and m: "2 ^ 31 \<le> m" "m \<le> 2 ^ 32"
    and a: "- (2 ^ 21) \<le> a" "a < 2 ^ 32" and s: "0 \<le> s" "s < m" and c: "0 \<le> c" "c < m"
  shows "MultModM f (of_int a) (of_int s) (of_int c) (of_int m) = of_int ((a * s + c) mod m)"
proof -
  have m0: "0 < m" using m(1) by simp
  have s': "s \<le> 2 ^ 32 - 1" using s m(2) by simp
  have low: "- (2 ^ 53) + 2 ^ 21 \<le> a * s"
  proof -
    have "- (2 ^ 21) * s \<le> a * s" using a(1) s(1) by (intro mult_right_mono) auto
    with s' show ?thesis by simp
  qed
  define v where "v = fadd f (fmul f (of_int a) (of_int s)) (of_int c)"
  show ?thesis
  proof (cases "a * s + c < 2 ^ 53")
    case True
    then show ?thesis using low c by (intro MultModM_small [OF f m]) auto
  next
    case False
    have a0: "0 < a"
    proof (rule ccontr)
      assume "\<not> 0 < a"
      then have "a * s \<le> 0" using s(1) by (simp add: mult_nonpos_nonneg)
      with False c m(2) show False by simp
    qed
    have big: "v \<ge> two53"
    proof (cases "a * s \<le> 2 ^ 53")
      case True
      then have "fmul f (of_int a) (of_int s) = of_int (a * s)" using low by (intro fl_ops [OF f]) simp
      moreover have "real_of_int (2 ^ 53) \<le> of_int (a * s + c)"
        using False by (simp only: of_int_le_iff not_less)
      then have "fl f (of_int (2 ^ 53)) \<le> fl f (of_int (a * s + c))" by (rule fl_mono [OF f])
      ultimately show ?thesis using fl_int [OF f, of "2 ^ 53"] by (simp add: v_def fadd_def two53_def)
    next
      case False
      then have "real_of_int (2 ^ 53) \<le> of_int (a * s)"
        by (simp only: of_int_le_iff not_le less_imp_le)
      then have "fl f (of_int (2 ^ 53)) \<le> fl f (of_int (a * s))" by (rule fl_mono [OF f])
      then have "2 ^ 53 \<le> fmul f (of_int a) (of_int s)"
        using fl_int [OF f, of "2 ^ 53"] by (simp add: fmul_def)
      then have "fl f (of_int (2 ^ 53)) \<le> v" using c(1) unfolding v_def fadd_def by (intro fl_mono [OF f]) simp
      then show ?thesis using fl_int [OF f, of "2 ^ 53"] by (simp add: two53_def)
    qed
    define h l where "h = a div 2 ^ 17" and "l = a mod 2 ^ 17"
    have hl: "a = h * 2 ^ 17 + l" "0 \<le> l" "l < 2 ^ 17" by (simp_all add: h_def l_def)
    have h: "0 \<le> h" "h < 2 ^ 15" using hl a(2) a0 by (simp_all add: h_def pos_imp_zdiv_nonneg_iff) 
    have q: "to_int32 f (fdiv f (of_int a) two17) = h"
      using quot_step [OF f, of "2 ^ 17" a] a a0 by (simp add: two17_def h_def)
    have l: "fsub f (of_int a) (fmul f (of_int h) two17) = of_int l"
      using rem_step [OF f, of "2 ^ 17" a] a a0 q by (simp add: two17_def l_def sub_multiple_def)
    have hs: "0 \<le> h * s \<and> h * s \<le> 2 ^ 15 * 2 ^ 32" using h s s' by (intro mult_bound) auto
    then have fhs: "fmul f (of_int h) (of_int s) = of_int (h * s)" by (intro fl_ops [OF f]) auto
    define w where "w = h * s mod m"
    have w: "0 \<le> w" "w < m" using m0 by (simp_all add: w_def)
    have r: "sub_multiple f (of_int (h * s)) (of_int m) = of_int w"
      using rem_step [OF f m0 m(2), of "h * s"] hs m(1) by (simp add: w_def del: of_int_mult)
    have b1: "0 \<le> w * 2 ^ 17 \<and> w * 2 ^ 17 \<le> 2 ^ 49" using w m(2) by simp
    have b2: "0 \<le> l * s \<and> l * s \<le> 2 ^ 17 * 2 ^ 32" using hl s s' by (intro mult_bound) auto
    define z where "z = w * 2 ^ 17 + l * s + c"
    have bz: "\<bar>z\<bar> < 2 ^ 53" using b1 b2 c m(2) by (auto simp: z_def)
    have e: "fadd f (fadd f (fmul f (of_int w) two17) (fmul f (of_int l) (of_int s))) (of_int c) = of_int z"
    proof -
      have "fmul f (of_int w) two17 = of_int (w * 2 ^ 17)"
        using fl_ops(2) [OF f, of w "2 ^ 17"] b1 by (simp add: two17_def)
      moreover have "fmul f (of_int l) (of_int s) = of_int (l * s)" using b2 by (intro fl_ops [OF f]) auto
      moreover have "fadd f (of_int (w * 2 ^ 17)) (of_int (l * s)) = of_int (w * 2 ^ 17 + l * s)"
        using b1 b2 by (intro fl_ops [OF f]) auto
      moreover have "fadd f (of_int (w * 2 ^ 17 + l * s)) (of_int c) = of_int z"
        unfolding z_def using bz unfolding z_def by (intro fl_ops [OF f]) auto
      ultimately show ?thesis by (simp only:)
    qed
    have zm: "z mod m = (a * s + c) mod m"
    proof -
      have "z mod m = (h * s * 2 ^ 17 + l * s + c) mod m"
        unfolding z_def w_def by (rule mod_mult_add)
      also have "h * s * 2 ^ 17 + l * s + c = a * s + c" by (subst hl(1)) (simp add: algebra_simps)
      finally show ?thesis .
    qed
    have "\<bar>z\<bar> < 2 ^ 31 * m" using bz m(1) by simp
    note fin = final_step [OF f m0 m(2) bz this]
    have sp: "split_product f (of_int a) (of_int s) (of_int c) (of_int m) = of_int z"
      unfolding split_product_def Let_def q l fhs r by (rule e)
    have branch: "(v \<ge> two53 \<or> v \<le> - two53) = True" using big by simp
    show ?thesis unfolding MultModM_def Let_def v_def [symmetric] branch if_True sp fin zm ..
  qed
qed


section \<open>Streams\<close>

text \<open>The state is six numbers, three for each component.\<close>

record rng_stream = currentState :: "double list"

text \<open>One pass of the loop of \<open>AdvanceNthBy\<close>, for the bit \<open>63 - i\<close>.\<close>

definition jump :: "fpu \<Rightarrow> u64 \<Rightarrow> nat \<Rightarrow> double list option \<Rightarrow> nat \<Rightarrow> double list option" where
  "jump f n b st i = Option.bind st (\<lambda>state.
     let nbit = 63 - i in
     if bit n nbit
     then Option.bind (PowerOfTwoMatrix f (int b + int nbit)) (\<lambda>(matrix1, matrix2).
            Some (MatVecModM f matrix1 (take 3 state) m1 @ MatVecModM f matrix2 (drop 3 state) m2))
     else Some state)"

definition AdvanceNthBy :: "fpu \<Rightarrow> u64 \<Rightarrow> nat \<Rightarrow> double list \<Rightarrow> double list option" where
  "AdvanceNthBy f n b state = foldl (jump f n b) (Some state) [0..<64]"

definition RngStream :: "fpu \<Rightarrow> u32 \<Rightarrow> u64 \<Rightarrow> u64 \<Rightarrow> rng_stream option result" where
  "RngStream f seedNumber stream substream =
     (if real (unat seedNumber) \<ge> m1 \<or> real (unat seedNumber) \<ge> m2 \<or> seedNumber = 0
      then Inl (Fatal ''invalid Seed'')
      else Inr (Option.bind (AdvanceNthBy f stream 127 (replicate 6 (real (unat seedNumber)))) (\<lambda>st.
                Option.bind (AdvanceNthBy f substream 76 st) (\<lambda>st. Some \<lparr>currentState = st\<rparr>))))"

definition RandU01 :: "fpu \<Rightarrow> rng_stream \<Rightarrow> double \<times> rng_stream" where
  "RandU01 f r =
     (let st = currentState r;
          p1 = mod_down f (fsub f (fmul f a12 (st ! 1)) (fmul f a13n (st ! 0))) m1;
          st = st[0 := st ! 1];
          st = st[1 := st ! 2];
          st = st[2 := p1];
          p2 = mod_down f (fsub f (fmul f a21 (st ! 5)) (fmul f a23n (st ! 3))) m2;
          st = st[3 := st ! 4];
          st = st[4 := st ! 5];
          st = st[5 := p2];
          u = (if p1 > p2 then fmul f (fsub f p1 p2) (norm f)
               else fmul f (fadd f (fsub f p1 p2) m1) (norm f))
      in (u, r\<lparr>currentState := st\<rparr>))"

text \<open>The n-th number that a stream returns.\<close>

primrec nth_draw :: "fpu \<Rightarrow> rng_stream \<Rightarrow> nat \<Rightarrow> double" where
  "nth_draw f r 0 = fst (RandU01 f r)"
| "nth_draw f r (Suc n) = nth_draw f (snd (RandU01 f r)) n"

section \<open>The recurrence on integers\<close>

type_synonym ivec = "nat \<Rightarrow> int"
type_synonym imat = "nat \<Rightarrow> nat \<Rightarrow> int"

definition mv :: "imat \<Rightarrow> ivec \<Rightarrow> ivec" where
  "mv A s = (\<lambda>i. \<Sum>j < 3. A i j * s j)"

definition mm :: "imat \<Rightarrow> imat \<Rightarrow> imat" where
  "mm A B = (\<lambda>i k. \<Sum>j < 3. A i j * B j k)"

definition vcong :: "int \<Rightarrow> ivec \<Rightarrow> ivec \<Rightarrow> bool" where
  "vcong m s t \<longleftrightarrow> (\<forall>i < 3. s i mod m = t i mod m)"

definition dvec :: "ivec \<Rightarrow> double list" where
  "dvec s = map (\<lambda>i. of_int (s i)) [0..<3]"

definition dmat :: "imat \<Rightarrow> matrix" where
  "dmat A = map (\<lambda>i. map (\<lambda>j. of_int (A i j)) [0..<3]) [0..<3]"

text \<open>A matrix that makes \<open>n\<close> steps of the recurrence at once.\<close>

definition steps :: "int \<Rightarrow> imat \<Rightarrow> nat \<Rightarrow> imat \<Rightarrow> bool" where
  "steps m A n M \<longleftrightarrow> (\<forall>s. vcong m (mv M s) ((mv A ^^ n) s))"

lemma mv_mm: "mv (mm A B) s = mv A (mv B s)"
proof
  fix i
  have "mv (mm A B) s i = (\<Sum>k<3. \<Sum>j<3. A i j * B j k * s k)"
    by (simp add: mv_def mm_def sum_distrib_right)
  also have "\<dots> = (\<Sum>j<3. \<Sum>k<3. A i j * B j k * s k)" by (rule sum.swap)
  also have "\<dots> = mv A (mv B s) i"
    by (simp add: mv_def sum_distrib_left mult.assoc)
  finally show "mv (mm A B) s i = mv A (mv B s) i" .
qed

lemma vcong_refl [simp]: "vcong m s s"
  by (simp add: vcong_def)

lemma vcong_trans: "vcong m s t \<Longrightarrow> vcong m t u \<Longrightarrow> vcong m s u"
  by (simp add: vcong_def)

lemma vcong_sym: "vcong m s t \<Longrightarrow> vcong m t s"
  by (simp add: vcong_def)

lemma vcong_mod: "vcong m (\<lambda>i. s i mod m) s"
  by (simp add: vcong_def)

lemma sum_mod_cong:
  fixes f g :: "nat \<Rightarrow> int"
  assumes "\<And>j. j < n \<Longrightarrow> f j mod m = g j mod m"
  shows "(\<Sum>j<n. f j) mod m = (\<Sum>j<n. g j) mod m"
  using assms by (induction n) (auto intro: mod_add_cong)

lemma mv_cong:
  assumes "vcong m s t" shows "vcong m (mv A s) (mv A t)"
  unfolding vcong_def mv_def
proof (intro allI impI sum_mod_cong)
  fix i j :: nat
  assume "j < 3"
  with assms show "A i j * s j mod m = A i j * t j mod m" by (auto simp: vcong_def intro: mod_mult_cong)
qed

lemma mv_mat_cong:
  assumes "\<And>i j. i < 3 \<Longrightarrow> j < 3 \<Longrightarrow> A i j mod m = B i j mod m"
  shows "vcong m (mv A s) (mv B s)"
  unfolding vcong_def mv_def using assms by (auto intro!: sum_mod_cong mod_mult_cong)

lemma funpow_cong: "vcong m s t \<Longrightarrow> vcong m ((mv A ^^ n) s) ((mv A ^^ n) t)"
  by (induction n) (auto intro: mv_cong)

lemma steps_mult:
  assumes "steps m A a M" "steps m A b N" "\<And>i j. i < 3 \<Longrightarrow> j < 3 \<Longrightarrow> L i j mod m = mm M N i j mod m"
  shows "steps m A (a + b) L"
  unfolding steps_def
proof
  fix s
  have "vcong m (mv L s) (mv (mm M N) s)" using assms(3) by (rule mv_mat_cong)
  also have "mv (mm M N) s = mv M (mv N s)" by (rule mv_mm)
  finally have "vcong m (mv L s) (mv M (mv N s))" .
  moreover have "vcong m (mv M (mv N s)) (mv M ((mv A ^^ b) s))"
    using assms(2) by (intro mv_cong) (simp add: steps_def)
  moreover have "vcong m (mv M ((mv A ^^ b) s)) ((mv A ^^ a) ((mv A ^^ b) s))"
    using assms(1) by (simp add: steps_def)
  ultimately show "vcong m (mv L s) ((mv A ^^ (a + b)) s)"
    unfolding funpow_add comp_def by (blast intro: vcong_trans)
qed

section \<open>The vector and matrix functions\<close>

text \<open>The factors for which a product is exact: both small, or one of the second kind reduced.\<close>

definition factors_ok :: "int \<Rightarrow> int \<Rightarrow> int \<Rightarrow> bool" where
  "factors_ok m a s \<longleftrightarrow> \<bar>a\<bar> \<le> 2 ^ 21 \<and> \<bar>s\<bar> \<le> 2 ^ 21 \<or> - (2 ^ 21) \<le> a \<and> a < 2 ^ 32 \<and> 0 \<le> s \<and> s < m"

lemma MultModM_ok:
  assumes f: "ieee_double f" and m: "2 ^ 31 \<le> m" "m \<le> 2 ^ 32"
    and as: "factors_ok m a s" and c: "0 \<le> c" "c < m"
  shows "MultModM f (of_int a) (of_int s) (of_int c) (of_int m) = of_int ((a * s + c) mod m)"
proof (cases "\<bar>a\<bar> \<le> 2 ^ 21 \<and> \<bar>s\<bar> \<le> 2 ^ 21")
  case True
  then have "\<bar>a * s\<bar> \<le> 2 ^ 21 * 2 ^ 21" unfolding abs_mult by (intro mult_mono) auto
  with c m(2) show ?thesis by (intro MultModM_small [OF f m]) auto
next
  case False
  with as show ?thesis unfolding factors_ok_def by (intro MultModM_exact [OF f m _ _ _ _ c]) auto
qed

lemma upt_3: "[0..<3] = [0, 1, 2 :: nat]"
  by (simp add: upt_rec)

lemma sum_3: "(\<Sum>j < 3. g j) = g 0 + g 1 + g (2 :: nat)" for g :: "nat \<Rightarrow> int"
  by (simp add: eval_nat_numeral)

lemma MatVecModM_exact:
  assumes f: "ieee_double f" and m: "2 ^ 31 \<le> m" "m \<le> 2 ^ 32"
    and ok: "\<And>i j. i < 3 \<Longrightarrow> j < 3 \<Longrightarrow> factors_ok m (A i j) (s j)"
  shows "MatVecModM f (dmat A) (dvec s) (of_int m) = dvec (\<lambda>i. mv A s i mod m)"
proof -
  have m0: "0 < m" using m(1) by simp
  have "(let x = MultModM f (dmat A ! i ! 0) (dvec s ! 0) 0 (of_int m);
             x = MultModM f (dmat A ! i ! 1) (dvec s ! 1) x (of_int m)
         in MultModM f (dmat A ! i ! 2) (dvec s ! 2) x (of_int m)) = of_int (mv A s i mod m)" if i: "i < 3" for i
  proof -
    have e: "dmat A ! i ! j = of_int (A i j)" "dvec s ! j = of_int (s j)" if "j < 3" for j
      using i that by (simp_all add: dmat_def dvec_def)
    note M = MultModM_ok [OF f m]
    define x0 where "x0 = A i 0 * s 0 mod m"
    define x1 where "x1 = (A i 1 * s 1 + x0) mod m"
    have x: "0 \<le> x0" "x0 < m" "0 \<le> x1" "x1 < m" using m0 by (simp_all add: x0_def x1_def)
    have 0: "MultModM f (dmat A ! i ! 0) (dvec s ! 0) 0 (of_int m) = of_int x0"
      using M [OF ok [OF i, of 0], of 0] m0 e [of 0] by (simp add: x0_def)
    have 1: "MultModM f (dmat A ! i ! 1) (dvec s ! 1) (of_int x0) (of_int m) = of_int x1"
      using M [OF ok [OF i, of 1] x(1,2)] e [of 1] by (simp add: x1_def)
    have 2: "MultModM f (dmat A ! i ! 2) (dvec s ! 2) (of_int x1) (of_int m) = of_int ((A i 2 * s 2 + x1) mod m)"
      using M [OF ok [OF i, of 2] x(3,4)] e [of 2] by simp
    have "(A i 2 * s 2 + x1) mod m = mv A s i mod m"
      unfolding x1_def x0_def mv_def sum_3 by (simp add: mod_simps ac_simps)
    then show ?thesis unfolding Let_def 0 1 2 by simp
  qed
  then show ?thesis unfolding MatVecModM_def dvec_def [of "\<lambda>i. mv A s i mod m"] by (intro map_cong) auto
qed

lemma MatMatModM_exact:
  assumes f: "ieee_double f" and m: "2 ^ 31 \<le> m" "m \<le> 2 ^ 32"
    and ok: "\<And>i j k. i < 3 \<Longrightarrow> j < 3 \<Longrightarrow> k < 3 \<Longrightarrow> factors_ok m (A i j) (B j k)"
  shows "MatMatModM f (dmat A) (dmat B) (of_int m) = dmat (\<lambda>i k. mm A B i k mod m)"
proof -
  have col: "map (\<lambda>j. dmat B ! j ! k) [0..<3] = dvec (\<lambda>j. B j k)" if "k < 3" for k
    using that by (simp add: dmat_def dvec_def)
  have "map (\<lambda>i. MatVecModM f (dmat A) (map (\<lambda>j. dmat B ! j ! i) [0..<3]) (of_int m)) [0..<3]
      = map (\<lambda>k. dvec (\<lambda>i. mm A B i k mod m)) [0..<3]"
  proof (rule map_cong)
    fix k :: nat
    assume "k \<in> set [0..<3]"
    then have k: "k < 3" by simp
    have "MatVecModM f (dmat A) (dvec (\<lambda>j. B j k)) (of_int m) = dvec (\<lambda>i. mv A (\<lambda>j. B j k) i mod m)"
      using ok k by (intro MatVecModM_exact [OF f m])
    then show "MatVecModM f (dmat A) (map (\<lambda>j. dmat B ! j ! k) [0..<3]) (of_int m) = dvec (\<lambda>i. mm A B i k mod m)"
      unfolding col [OF k] by (simp add: mv_def mm_def)
  qed simp
  then show ?thesis unfolding MatMatModM_def Let_def by (simp add: dvec_def dmat_def)
qed

section \<open>Powers of the transition matrices\<close>

definition mat_small :: "imat \<Rightarrow> bool" where
  "mat_small M \<longleftrightarrow> (\<forall>i < 3. \<forall>j < 3. \<bar>M i j\<bar> \<le> 2 ^ 21)"

definition mat_reduced :: "int \<Rightarrow> imat \<Rightarrow> bool" where
  "mat_reduced m M \<longleftrightarrow> (\<forall>i < 3. \<forall>j < 3. 0 \<le> M i j \<and> M i j < m)"

lemma factors_square:
  assumes "mat_small M \<or> mat_reduced m M" "m \<le> 2 ^ 32" "i < 3" "j < 3" "k < 3"
  shows "factors_ok m (M i j) (M j k)"
  using assms(1)
proof
  assume "mat_small M"
  with assms(3-5) show ?thesis by (simp add: factors_ok_def mat_small_def)
next
  assume r: "mat_reduced m M"
  have "0 \<le> M i j" "M i j < m" "0 \<le> M j k" "M j k < m"
    using r assms(3-5) by (simp_all add: mat_reduced_def)
  with assms(2) show ?thesis by (simp add: factors_ok_def)
qed

lemma mat_reduced_mod: "0 < m \<Longrightarrow> mat_reduced m (\<lambda>i k. M i k mod m)"
  by (simp add: mat_reduced_def)

lemma square_steps:
  assumes f: "ieee_double f" and m: "2 ^ 31 \<le> m" "m \<le> 2 ^ 32" and M: "mat_small M \<or> mat_reduced m M"
    and st: "steps m A n M"
  obtains L where "MatMatModM f (dmat M) (dmat M) (of_int m) = dmat L" "mat_reduced m L" "steps m A (n + n) L"
proof -
  let ?L = "\<lambda>i k. mm M M i k mod m"
  have "MatMatModM f (dmat M) (dmat M) (of_int m) = dmat ?L"
    by (rule MatMatModM_exact [OF f m]) (rule factors_square [OF M m(2)])
  moreover have "steps m A (n + n) ?L" by (rule steps_mult [OF st st]) simp
  ultimately show ?thesis using that mat_reduced_mod [of m] m(1) by simp
qed

lemma steps_1: "steps m A 1 A"
  by (simp add: steps_def)

lemma MatTwoPowModM_steps:
  assumes f: "ieee_double f" and m: "2 ^ 31 \<le> m" "m \<le> 2 ^ 32" and A: "mat_small A"
  shows "\<exists>M. MatTwoPowModM f (dmat A) (of_int m) e = dmat M \<and> steps m A (2 ^ e) M
    \<and> (if e = 0 then mat_small M else mat_reduced m M)"
proof (induction e)
  case 0
  show ?case using A steps_1 [of m A] by (intro exI [of _ A]) simp
next
  case (Suc e)
  then obtain M where M: "MatTwoPowModM f (dmat A) (of_int m) e = dmat M" "steps m A (2 ^ e) M"
    "mat_small M \<or> mat_reduced m M" by (auto split: if_splits)
  obtain L where "MatMatModM f (dmat M) (dmat M) (of_int m) = dmat L" "mat_reduced m L" "steps m A (2 ^ e + 2 ^ e) L"
    by (rule square_steps [OF f m M(3,2)])
  with M(1) show ?case by (intro exI [of _ L]) (simp add: Let_def mult_2)
qed

lemma pow_loop_steps:
  assumes f: "ieee_double f" and m: "2 ^ 31 \<le> m" "m \<le> 2 ^ 32"
  shows "mat_small W \<or> mat_reduced m W \<Longrightarrow> steps m A w W \<Longrightarrow> mat_reduced m B \<Longrightarrow> steps m A b B \<Longrightarrow>
    \<exists>M. pow_loop f (dmat W) (dmat B) (of_int m) n = dmat M \<and> steps m A (b + n * w) M"
proof (induction n arbitrary: W B w b rule: less_induct)
  case (less n)
  show ?case
  proof (cases "n > 0")
    case False
    with less.prems show ?thesis by (subst pow_loop.simps) auto
  next
    case True
    obtain L where L: "MatMatModM f (dmat W) (dmat W) (of_int m) = dmat L" "mat_reduced m L" "steps m A (w + w) L"
      by (rule square_steps [OF f m less.prems(1,2)])
    have "\<exists>C. (if n mod 2 \<noteq> 0 then MatMatModM f (dmat W) (dmat B) (of_int m) else dmat B) = dmat C
        \<and> mat_reduced m C \<and> steps m A (b + n mod 2 * w) C"
    proof (cases "n mod 2 = 0")
      case False
      have "factors_ok m (W i j) (B j k)" if "i < 3" "j < 3" "k < 3" for i j k
      proof -
        have "0 \<le> B j k" "B j k < m" using less.prems(3) that by (simp_all add: mat_reduced_def)
        moreover from less.prems(1) have "- (2 ^ 21) \<le> W i j \<and> W i j < 2 ^ 32"
        proof
          assume "mat_small W"
          with that have "\<bar>W i j\<bar> \<le> 2 ^ 21" by (simp add: mat_small_def)
          then show ?thesis by auto
        next
          assume "mat_reduced m W"
          with that have "0 \<le> W i j" "W i j < m" by (simp_all add: mat_reduced_def)
          with m(2) show ?thesis by simp
        qed
        ultimately show ?thesis by (simp add: factors_ok_def)
      qed
      then have "MatMatModM f (dmat W) (dmat B) (of_int m) = dmat (\<lambda>i k. mm W B i k mod m)"
        by (rule MatMatModM_exact [OF f m])
      moreover have "steps m A (w + b) (\<lambda>i k. mm W B i k mod m)"
        by (rule steps_mult [OF less.prems(2,4)]) simp
      moreover have "n mod 2 = 1" using False by simp
      ultimately show ?thesis
        using m(1) by (intro exI [of _ "\<lambda>i k. mm W B i k mod m"]) (simp add: mat_reduced_mod add.commute)
    qed (use less.prems in auto)
    then obtain C where C: "(if n mod 2 \<noteq> 0 then MatMatModM f (dmat W) (dmat B) (of_int m) else dmat B) = dmat C"
      "mat_reduced m C" "steps m A (b + n mod 2 * w) C" by blast
    have "n div 2 < n" using True by simp
    from less.IH [OF this _ L(3) C(2,3)] L(2) obtain M where
      M: "pow_loop f (dmat L) (dmat C) (of_int m) (n div 2) = dmat M"
        "steps m A (b + n mod 2 * w + n div 2 * (w + w)) M" by blast
    have "n mod 2 * w + n div 2 * (w + w) = n * w"
    proof -
      have "n * w = (n mod 2 + 2 * (n div 2)) * w" by simp
      also have "\<dots> = n mod 2 * w + n div 2 * (w + w)" by (simp only: distrib_right distrib_left mult_2)
      finally show ?thesis by simp
    qed
    then have "steps m A (b + n * w) M" using M(2) by (simp add: add.assoc)
    with M(1) L(1) C(1) True show ?thesis by (subst pow_loop.simps) auto
  qed
qed

lemma MatPowModM_steps:
  assumes f: "ieee_double f" and m: "2 ^ 31 \<le> m" "m \<le> 2 ^ 32" and A: "mat_small A"
  shows "\<exists>M. MatPowModM f (dmat A) (of_int m) n = dmat M \<and> steps m A (nat n) M"
proof -
  let ?I = "\<lambda>i j. if i = j then 1 else 0 :: int"
  have "steps m A 0 ?I"
    by (auto simp: steps_def vcong_def mv_def sum_3 less_Suc_eq numeral_3_eq_3)
  moreover have "mat_reduced m ?I" using m(1) by (simp add: mat_reduced_def)
  moreover have "dmat ?I = [[1, 0, 0], [0, 1, 0], [0, 0, 1]]" by (simp add: dmat_def upt_3)
  ultimately show ?thesis
    using pow_loop_steps [OF f m _ steps_1 [of m A], of ?I 0 "nat n"] A by (simp add: MatPowModM_def)
qed

definition M1 :: int where "M1 = 4294967087"
definition M2 :: int where "M2 = 4294944443"

definition A1 :: imat where "A1 = (\<lambda>i j. [[0, 1, 0], [0, 0, 1], [-810728, 1403580, 0]] ! i ! j)"
definition A2 :: imat where "A2 = (\<lambda>i j. [[0, 1, 0], [0, 0, 1], [-1370589, 0, 527612]] ! i ! j)"

lemma moduli: "2 ^ 31 \<le> M1" "M1 \<le> 2 ^ 32" "2 ^ 31 \<le> M2" "M2 \<le> 2 ^ 32" "m1 = of_int M1" "m2 = of_int M2"
  by (simp_all add: M1_def M2_def m1_def m2_def)

lemma transition: "A1p0 = dmat A1" "A2p0 = dmat A2" "mat_small A1" "mat_small A2"
  by (simp_all add: A1p0_def A2p0_def dmat_def A1_def A2_def upt_3 mat_small_def less_Suc_eq numeral_3_eq_3)

lemma PowerOfTwoMatrix_steps:
  assumes f: "ieee_double f" and n: "1 \<le> n" "n \<le> 190"
  obtains L1 L2 where "PowerOfTwoMatrix f n = Some (dmat L1, dmat L2)" "mat_reduced M1 L1" "mat_reduced M2 L2"
    "steps M1 A1 (2 ^ nat n) L1" "steps M2 A2 (2 ^ nat n) L2"
proof -
  obtain L1 where 1: "MatTwoPowModM f A1p0 m1 (nat n) = dmat L1" "steps M1 A1 (2 ^ nat n) L1" "mat_reduced M1 L1"
    using MatTwoPowModM_steps [OF f moduli(1,2) transition(3), of "nat n"] n unfolding transition(1) moduli(5) by auto
  obtain L2 where 2: "MatTwoPowModM f A2p0 m2 (nat n) = dmat L2" "steps M2 A2 (2 ^ nat n) L2" "mat_reduced M2 L2"
    using MatTwoPowModM_steps [OF f moduli(3,4) transition(4), of "nat n"] n unfolding transition(2) moduli(6) by auto
  have i: "nat (n - 1) < 190" "Suc (nat (n - 1)) = nat n" using n by simp_all
  then have "PowerOfTwoMatrix f n = Some (dmat L1, dmat L2)"
    using 1(1) 2(1) n by (simp add: PowerOfTwoMatrix_def PowerOfTwoConstants_def Let_def del: MatTwoPowModM.simps)
  with 1 2 that show ?thesis by blast
qed

section \<open>The state as a position in the sequence\<close>

text \<open>\<open>at_step st s t n\<close>: the state is \<open>n\<close> steps after the state that starts with \<open>s\<close> and \<open>t\<close>.\<close>

definition in_range :: "int \<Rightarrow> ivec \<Rightarrow> bool" where
  "in_range m s \<longleftrightarrow> (\<forall>i < 3. 0 \<le> s i \<and> s i < m)"

definition at_step :: "double list \<Rightarrow> ivec \<Rightarrow> ivec \<Rightarrow> nat \<Rightarrow> bool" where
  "at_step st s t n \<longleftrightarrow> (\<exists>s' t'. st = dvec s' @ dvec t' \<and> in_range M1 s' \<and> in_range M2 t'
     \<and> vcong M1 s' ((mv A1 ^^ n) s) \<and> vcong M2 t' ((mv A2 ^^ n) t))"

lemma in_range_unique: "in_range m s \<Longrightarrow> in_range m t \<Longrightarrow> vcong m s t \<Longrightarrow> dvec s = dvec t"
  by (simp add: in_range_def vcong_def dvec_def upt_3)

lemma at_step_unique:
  assumes "at_step st s t n" "at_step st' s t n"
  shows "st = st'"
proof -
  from assms obtain a b a' b' where "st = dvec a @ dvec b" "st' = dvec a' @ dvec b'"
    "in_range M1 a" "in_range M2 b" "in_range M1 a'" "in_range M2 b'"
    "vcong M1 a ((mv A1 ^^ n) s)" "vcong M1 a' ((mv A1 ^^ n) s)"
    "vcong M2 b ((mv A2 ^^ n) t)" "vcong M2 b' ((mv A2 ^^ n) t)"
    unfolding at_step_def by blast
  then show ?thesis by (metis in_range_unique vcong_sym vcong_trans)
qed

lemma apply_steps:
  assumes f: "ieee_double f" and m: "2 ^ 31 \<le> m" "m \<le> 2 ^ 32" and L: "mat_reduced m L" "steps m A k L"
    and s: "in_range m s'" "vcong m s' ((mv A ^^ n) s)"
  shows "\<exists>u. MatVecModM f (dmat L) (dvec s') (of_int m) = dvec u \<and> in_range m u \<and> vcong m u ((mv A ^^ (n + k)) s)"
proof (intro exI conjI)
  have "factors_ok m (L i j) (s' j)" if "i < 3" "j < 3" for i j
  proof -
    have "0 \<le> L i j" "L i j < m" "0 \<le> s' j" "s' j < m" using L(1) s(1) that by (auto simp: mat_reduced_def in_range_def)
    with m(2) show ?thesis by (simp add: factors_ok_def)
  qed
  then show "MatVecModM f (dmat L) (dvec s') (of_int m) = dvec (\<lambda>i. mv L s' i mod m)"
    by (rule MatVecModM_exact [OF f m])
  show "in_range m (\<lambda>i. mv L s' i mod m)" using m(1) by (simp add: in_range_def)
  have "vcong m (mv L s') ((mv A ^^ k) s')" using L(2) by (simp add: steps_def)
  moreover have "vcong m ((mv A ^^ k) s') ((mv A ^^ k) ((mv A ^^ n) s))" using s(2) by (rule funpow_cong)
  ultimately show "vcong m (\<lambda>i. mv L s' i mod m) ((mv A ^^ (n + k)) s)"
    unfolding add.commute [of n k] funpow_add comp_def by (blast intro: vcong_trans vcong_mod)
qed

lemma length_dvec [simp]: "length (dvec s) = 3"
  by (simp add: dvec_def)

lemma one_jump:
  assumes f: "ieee_double f" and n: "1 \<le> k" "k \<le> 190" and st: "at_step st s t n"
  shows "\<exists>st'. Option.bind (PowerOfTwoMatrix f k) (\<lambda>(matrix1, matrix2).
       Some (MatVecModM f matrix1 (take 3 st) m1 @ MatVecModM f matrix2 (drop 3 st) m2)) = Some st'
     \<and> at_step st' s t (n + 2 ^ nat k)"
proof -
  obtain L1 L2 where L: "PowerOfTwoMatrix f k = Some (dmat L1, dmat L2)" "mat_reduced M1 L1" "mat_reduced M2 L2"
    "steps M1 A1 (2 ^ nat k) L1" "steps M2 A2 (2 ^ nat k) L2" by (rule PowerOfTwoMatrix_steps [OF f n])
  from st obtain a b where ab: "st = dvec a @ dvec b" "in_range M1 a" "in_range M2 b"
    "vcong M1 a ((mv A1 ^^ n) s)" "vcong M2 b ((mv A2 ^^ n) t)" unfolding at_step_def by blast
  obtain u where u: "MatVecModM f (dmat L1) (dvec a) m1 = dvec u" "in_range M1 u" "vcong M1 u ((mv A1 ^^ (n + 2 ^ nat k)) s)"
    using apply_steps [OF f moduli(1,2) L(2,4) ab(2,4)] unfolding moduli(5) by blast
  obtain v where v: "MatVecModM f (dmat L2) (dvec b) m2 = dvec v" "in_range M2 v" "vcong M2 v ((mv A2 ^^ (n + 2 ^ nat k)) t)"
    using apply_steps [OF f moduli(3,4) L(3,5) ab(3,5)] unfolding moduli(6) by blast
  have "take 3 st = dvec a" "drop 3 st = dvec b" using ab(1) by simp_all
  with L(1) u v show ?thesis unfolding at_step_def by (intro exI conjI) (auto intro!: exI)
qed

section \<open>Jumps and draws\<close>

lemma unat_sum_bits: "(\<Sum>b < 64. if bit w b then 2 ^ b else 0) = unat (w :: u64)"
proof -
  have "(\<Sum>b < 64. if bit w b then 2 ^ b else 0) = (\<Sum>b = 0..<64. of_bool (bit (unat w) b) * 2 ^ b :: nat)"
    by (intro sum.cong) (auto simp: bit_unsigned_iff dest: bit_imp_le_length)
  also have "\<dots> = horner_sum of_bool 2 (map (bit (unat w)) [0..<64])"
    by (simp add: horner_sum_eq_sum atLeast0LessThan)
  also have "\<dots> = take_bit 64 (unat w)" by (rule horner_sum_bit_eq_take_bit)
  also have "\<dots> = unat w" using unat_u64_less [of w] by (simp add: take_bit_nat_eq_self)
  finally show ?thesis .
qed

text \<open>One pass of the loop of \<open>AdvanceNthBy\<close>.\<close>

lemma jump_bit:
  assumes f: "ieee_double f" and b: "1 \<le> b" "b \<le> 127" and i: "i < 64" and st: "at_step st s t n"
  shows "\<exists>st1. jump f w b (Some st) i = Some st1
    \<and> at_step st1 s t (n + (if bit w (63 - i) then 2 ^ (63 - i) else 0) * 2 ^ b)"
proof (cases "bit w (63 - i)")
  case True
  have "1 \<le> int b + int (63 - i)" "int b + int (63 - i) \<le> 190" using b i by auto
  from one_jump [OF f this st] obtain st1 where
    "Option.bind (PowerOfTwoMatrix f (int b + int (63 - i))) (\<lambda>(matrix1, matrix2).
       Some (MatVecModM f matrix1 (take 3 st) m1 @ MatVecModM f matrix2 (drop 3 st) m2)) = Some st1"
    "at_step st1 s t (n + 2 ^ nat (int b + int (63 - i)))" by blast
  moreover have "2 ^ nat (int b + int (63 - i)) = (2 ^ (63 - i) * 2 ^ b :: nat)"
    by (simp add: nat_add_distrib power_add)
  ultimately show ?thesis using True by (simp add: Let_def jump_def)
next
  case False
  then show ?thesis using st by (simp add: Let_def jump_def)
qed

lemma jump_fold:
  assumes f: "ieee_double f" and b: "1 \<le> b" "b \<le> 127"
  shows "set is \<subseteq> {..<64} \<Longrightarrow> at_step st s t n \<Longrightarrow>
    \<exists>st'. foldl (jump f w b) (Some st) is = Some st'
      \<and> at_step st' s t (n + (\<Sum>i\<leftarrow>is. if bit w (63 - i) then 2 ^ (63 - i) else 0) * 2 ^ b)"
proof (induction "is" arbitrary: st n)
  case (Cons i "is")
  have i: "i < 64" "set is \<subseteq> {..<64}" using Cons.prems(1) by auto
  from jump_bit [OF f b i(1) Cons.prems(2)] obtain st1 where st1: "jump f w b (Some st) i = Some st1"
    "at_step st1 s t (n + (if bit w (63 - i) then 2 ^ (63 - i) else 0) * 2 ^ b)" by blast
  from Cons.IH [OF i(2) st1(2)] show ?case
    by (simp add: st1(1) add.assoc distrib_right)
qed simp

lemma AdvanceNthBy_steps:
  assumes f: "ieee_double f" and b: "1 \<le> b" "b \<le> 127" and st: "at_step st s t n"
  obtains st' where "AdvanceNthBy f w b st = Some st'" "at_step st' s t (n + unat w * 2 ^ b)"
proof -
  have "(\<Sum>i\<leftarrow>[0..<64]. if bit w (63 - i) then 2 ^ (63 - i) else 0) = (\<Sum>i<64. if bit w (63 - i) then 2 ^ (63 - i) else 0 :: nat)"
    by (simp add: sum_list_distinct_conv_sum_set atLeast0LessThan del: upt_Suc)
  also have "\<dots> = (\<Sum>i<64. if bit w i then 2 ^ i else 0)"
  proof -
    have r: "63 - i = 64 - Suc i" for i :: nat by simp
    show ?thesis unfolding r by (rule sum.nat_diff_reindex)
  qed
  also have "\<dots> = unat w" by (rule unat_sum_bits)
  finally have e: "(\<Sum>i\<leftarrow>[0..<64]. if bit w (63 - i) then 2 ^ (63 - i) else 0) = unat w" .
  have "set [0..<64] \<subseteq> {..<64 :: nat}" by auto
  from jump_fold [OF f b this st, of w] that show ?thesis unfolding e AdvanceNthBy_def by blast
qed

definition seed_vec :: "u32 \<Rightarrow> ivec" where
  "seed_vec seed = (\<lambda>_. int (unat seed))"

lemma RngStream_position:
  assumes f: "ieee_double f" and seed: "0 < unat seed" "unat seed < 4294944443"
  obtains r where "RngStream f seed stream substream = Inr (Some r)"
    "at_step (currentState r) (seed_vec seed) (seed_vec seed) (unat stream * 2 ^ 127 + unat substream * 2 ^ 76)"
proof -
  let ?s = "seed_vec seed"
  let ?st = "replicate 6 (real (unat seed))"
  have "int (unat seed) < int 4294944443" using seed(2) by (simp only: of_nat_less_iff)
  then have r: "in_range M1 ?s" "in_range M2 ?s" by (simp_all add: in_range_def seed_vec_def M1_def M2_def)
  have "?st = dvec ?s @ dvec ?s" by (simp add: dvec_def upt_3 seed_vec_def numeral_eq_Suc)
  with r have 0: "at_step ?st ?s ?s 0" unfolding at_step_def by (intro exI conjI) auto
  obtain st1 where 1: "AdvanceNthBy f stream 127 ?st = Some st1" "at_step st1 ?s ?s (0 + unat stream * 2 ^ 127)"
    by (rule AdvanceNthBy_steps [OF f _ _ 0, of 127 stream]) simp_all
  obtain st2 where 2: "AdvanceNthBy f substream 76 st1 = Some st2"
    "at_step st2 ?s ?s (0 + unat stream * 2 ^ 127 + unat substream * 2 ^ 76)"
    by (rule AdvanceNthBy_steps [OF f _ _ 1(2), of 76 substream]) simp_all
  have nz: "seed \<noteq> 0" using seed(1) by auto
  have "real (unat seed) < real 4294944443" using seed(2) by (simp only: of_nat_less_iff)
  then have "\<not> (real (unat seed) \<ge> m1 \<or> real (unat seed) \<ge> m2 \<or> seed = 0)"
    using nz unfolding m1_def m2_def by simp
  then have "RngStream f seed stream substream = Inr (Some \<lparr>currentState = st2\<rparr>)"
    using 1(1) 2(1) by (simp add: RngStream_def)
  with 2(2) that show ?thesis by simp
qed

text \<open>The quotient of two reduced numbers and the normalisation stay strictly between 0 and 1.\<close>

lemma relative_error:
  fixes x y :: real
  assumes "\<bar>y - x\<bar> \<le> x / 2 ^ 53"
  shows "(1 - 1 / 2 ^ 53) * x \<le> y" "y \<le> (1 + 1 / 2 ^ 53) * x"
proof -
  have "y - x \<le> x / 2 ^ 53" "x - y \<le> x / 2 ^ 53" using assms by (simp_all only: abs_le_iff) simp_all
  then show "(1 - 1 / 2 ^ 53) * x \<le> y" "y \<le> (1 + 1 / 2 ^ 53) * x" by (simp_all add: left_diff_distrib distrib_right)
qed

lemma norm_bounds:
  assumes f: "ieee_double f" and k: "1 \<le> k" "k \<le> M1"
  shows "0 < fmul f (of_int k) (norm f)" "fmul f (of_int k) (norm f) < 1"
proof -
  let ?D = "4294967088 :: real" and ?e = "1 / 2 ^ 53 :: real"
  have "fadd f m1 1 = ?D"
    using fl_ops(1) [OF f, of M1 1] by (simp add: moduli(5) M1_def)
  then have nf: "norm f = fl f (1 / ?D)" by (simp add: norm_def fdiv_def)
  have "1 / 2 ^ 1022 \<le> 1 / ?D" by (intro frac_le) simp_all
  then have "\<bar>norm f - 1 / ?D\<bar> \<le> 1 / ?D / 2 ^ 53"
    unfolding nf using fl_error [OF f, of "1 / ?D"] by simp
  note n = relative_error [OF this]
  define y where "y = of_int k * norm f"
  have k': "1 \<le> real_of_int k" "real_of_int k \<le> 4294967087"
    using k by (simp_all add: M1_def)
  have n0: "0 < norm f" using n(1) by (rule less_le_trans [rotated]) simp
  have y1: "norm f \<le> y" using k' n0 by (simp add: y_def)
  have "y \<le> 4294967087 * norm f" using k' n0 by (simp add: y_def)
  also have "\<dots> \<le> 4294967087 * ((1 + ?e) * (1 / ?D))" using n(2) by (intro mult_left_mono) simp_all
  finally have y2: "y \<le> 4294967087 * ((1 + ?e) * (1 / ?D))" .
  have "1 / 2 ^ 1022 \<le> (1 - ?e) * (1 / ?D)" by (simp add: field_simps)
  then have lo: "1 / 2 ^ 1022 \<le> y" using n(1) y1 by (meson order_trans)
  have y0: "0 < y" using n0 y1 by (rule less_le_trans)
  have "4294967087 * ((1 + ?e) * (1 / ?D)) \<le> 1" by simp
  with y2 have "y \<le> 1" by (rule order_trans)
  then have "\<bar>fl f y - y\<bar> \<le> y / 2 ^ 53" using fl_error [OF f, of y] lo y0 by simp
  note e = relative_error [OF this]
  have "0 < (1 - ?e) * y" using y0 by simp
  also note e(1)
  finally show "0 < fmul f (of_int k) (norm f)" unfolding fmul_def y_def .
  note e(2)
  also have "(1 + ?e) * y \<le> (1 + ?e) * (4294967087 * ((1 + ?e) * (1 / ?D)))"
    using y2 by (rule mult_left_mono) simp
  also have "\<dots> < 1" by simp
  finally show "fmul f (of_int k) (norm f) < 1" unfolding fmul_def y_def .
qed

lemma component_step:
  assumes f: "ieee_double f" and m: "2 ^ 31 \<le> m" "m \<le> 2 ^ 32"
    and ab: "0 \<le> a" "a \<le> 2097152" "0 \<le> b" "b \<le> 2097152" and s: "0 \<le> x" "x < m" "0 \<le> y" "y < m"
  shows "mod_down f (fsub f (fmul f (of_int a) (of_int x)) (fmul f (of_int b) (of_int y))) (of_int m)
    = of_int ((a * x - b * y) mod m)"
proof -
  have p: "0 \<le> a * x \<and> a * x \<le> 2097152 * (2 ^ 32 - 1)" "0 \<le> b * y \<and> b * y \<le> 2097152 * (2 ^ 32 - 1)"
    using ab s m(2) by (intro mult_bound; simp)+
  then have "fmul f (of_int a) (of_int x) = of_int (a * x)" "fmul f (of_int b) (of_int y) = of_int (b * y)"
    by (intro fl_ops [OF f]; auto)+
  moreover have d: "\<bar>a * x - b * y\<bar> < 2 ^ 53" using p by auto
  then have "fsub f (of_int (a * x)) (of_int (b * y)) = of_int (a * x - b * y)"
    using fl_int [OF f, of "a * x - b * y"] by (simp add: fsub_def del: of_int_mult flip: of_int_diff)
  moreover have "\<bar>a * x - b * y\<bar> < 2 ^ 31 * m" using d m(1) by simp
  then have "mod_down f (of_int (a * x - b * y)) (of_int m) = of_int ((a * x - b * y) mod m)"
    using m(1) by (intro final_step [OF f _ m(2) d]) simp
  ultimately show ?thesis by (simp only:)
qed

lemma RandU01_step:
  assumes f: "ieee_double f" and st: "at_step (currentState r) s t n"
  shows "at_step (currentState (snd (RandU01 f r))) s t (Suc n)" "0 < fst (RandU01 f r)" "fst (RandU01 f r) < 1"
proof -
  obtain a b where ab: "currentState r = dvec a @ dvec b" "in_range M1 a" "in_range M2 b"
    "vcong M1 a ((mv A1 ^^ n) s)" "vcong M2 b ((mv A2 ^^ n) t)" using st unfolding at_step_def by blast
  define p1 p2 where "p1 = (1403580 * a 1 - 810728 * a 0) mod M1" and "p2 = (527612 * b 2 - 1370589 * b 0) mod M2"
  have ra: "0 \<le> a 0" "a 0 < M1" "0 \<le> a 1" "a 1 < M1" "0 \<le> a 2" "a 2 < M1"
    and rb: "0 \<le> b 0" "b 0 < M2" "0 \<le> b 1" "b 1 < M2" "0 \<le> b 2" "b 2 < M2"
    using ab(2,3) by (simp_all add: in_range_def)
  define x0 x1 x2 y0 y1 y2 where x: "x0 = real_of_int (a 0)" "x1 = real_of_int (a 1)" "x2 = real_of_int (a 2)"
    "y0 = real_of_int (b 0)" "y1 = real_of_int (b 1)" "y2 = real_of_int (b 2)"
  have st0: "currentState r = [x0, x1, x2, y0, y1, y2]"
    unfolding ab(1) by (simp add: dvec_def upt_3 x)
  define q1 q2 where q: "q1 = real_of_int p1" "q2 = real_of_int p2"
  have c1: "mod_down f (fsub f (fmul f a12 x1) (fmul f a13n x0)) m1 = q1"
    using component_step [OF f moduli(1,2), of 1403580 810728 "a 1" "a 0"] ra
    by (simp add: a12_def a13n_def moduli(5) p1_def x q)
  have c2: "mod_down f (fsub f (fmul f a21 y2) (fmul f a23n y0)) m2 = q2"
    using component_step [OF f moduli(3,4), of 527612 1370589 "b 2" "b 0"] rb
    by (simp add: a21_def a23n_def moduli(6) p2_def x q)
  have rp: "0 \<le> p1" "p1 < M1" "0 \<le> p2" "p2 < M2" by (simp_all add: p1_def p2_def M1_def M2_def)
  define k where "k = (if p1 > p2 then p1 - p2 else p1 - p2 + M1)"
  have k: "1 \<le> k" "k \<le> M1" using rp by (auto simp: k_def M1_def M2_def)
  have d: "fsub f q1 q2 = of_int (p1 - p2)"
    using fl_int [OF f, of "p1 - p2"] rp by (simp add: fsub_def M1_def M2_def q)
  have e: "fadd f (of_int (p1 - p2)) m1 = of_int (p1 - p2 + M1)"
    unfolding moduli(5) using rp by (intro fl_ops [OF f]) (simp add: M1_def M2_def)
  have cond: "(q2 < q1) = (p2 < p1)" by (simp add: q)
  have u: "(if q2 < q1 then fmul f (fsub f q1 q2) (norm f) else fmul f (fadd f (fsub f q1 q2) m1) (norm f))
      = fmul f (of_int k) (norm f)"
    unfolding d e k_def cond by (cases "p2 < p1") (simp_all only: if_True if_False)
  have "RandU01 f r = (if q2 < q1 then fmul f (fsub f q1 q2) (norm f) else fmul f (fadd f (fsub f q1 q2) m1) (norm f),
      r\<lparr>currentState := [x1, x2, q1, y1, y2, q2]\<rparr>)"
    unfolding RandU01_def Let_def st0 by (simp add: c1 c2)
  then have res: "RandU01 f r = (fmul f (of_int k) (norm f), r\<lparr>currentState := [x1, x2, q1, y1, y2, q2]\<rparr>)"
    unfolding u .
  show "0 < fst (RandU01 f r)" "fst (RandU01 f r) < 1"
    unfolding res using norm_bounds [OF f k] by simp_all
  let ?a = "\<lambda>i. mv A1 a i mod M1" and ?b = "\<lambda>i. mv A2 b i mod M2"
  have "[x1, x2, q1, y1, y2, q2] = dvec ?a @ dvec ?b"
    using ra rb by (simp add: dvec_def upt_3 mv_def sum_3 A1_def A2_def p1_def p2_def x q)
  moreover have "in_range M1 ?a" "in_range M2 ?b" by (simp_all add: in_range_def M1_def M2_def)
  moreover have "vcong M1 ?a ((mv A1 ^^ Suc n) s)"
    using mv_cong [OF ab(4)] by (auto intro: vcong_trans vcong_mod)
  moreover have "vcong M2 ?b ((mv A2 ^^ Suc n) t)"
    using mv_cong [OF ab(5)] by (auto intro: vcong_trans vcong_mod)
  ultimately show "at_step (currentState (snd (RandU01 f r))) s t (Suc n)"
    unfolding res at_step_def by (intro exI conjI) auto
qed

section \<open>Seeds, runs and the streams of random variables\<close>

record rng_globals =
  g_rngSeed :: u32
  g_rngRun :: u64
  g_nextStreamIndex :: u64

definition rng_globals_new :: rng_globals where
  "rng_globals_new = \<lparr>g_rngSeed = 1, g_rngRun = 1, g_nextStreamIndex = 0\<rparr>"

definition SetSeed :: "u32 \<Rightarrow> rng_globals \<Rightarrow> rng_globals" where
  "SetSeed seed g = g\<lparr>g_rngSeed := seed\<rparr>"

definition SetRun :: "u64 \<Rightarrow> rng_globals \<Rightarrow> rng_globals" where
  "SetRun run g = g\<lparr>g_rngRun := run\<rparr>"

definition GetNextStreamIndex :: "rng_globals \<Rightarrow> u64 \<times> rng_globals" where
  "GetNextStreamIndex g = (g_nextStreamIndex g, g\<lparr>g_nextStreamIndex := g_nextStreamIndex g + 1\<rparr>)"

record random_variable =
  rv_rng :: "rng_stream option"
  rv_isAntithetic :: bool
  rv_stream :: u64

definition rv_attach :: "fpu \<Rightarrow> u64 \<Rightarrow> u64 \<Rightarrow> rng_globals \<Rightarrow> random_variable \<Rightarrow> (rng_globals \<times> random_variable) option result" where
  "rv_attach f target stream g v =
     and_then (RngStream f (g_rngSeed g) target (g_rngRun g)) (\<lambda>r.
       Inr (map_option (\<lambda>r. (g, v\<lparr>rv_rng := Some r, rv_stream := stream\<rparr>)) r))"

text \<open>The argument is an \<open>int64_t\<close>; \<open>Inr None\<close> is a failed assertion.\<close>

definition rv_SetStream :: "fpu \<Rightarrow> u64 \<Rightarrow> rng_globals \<Rightarrow> random_variable \<Rightarrow> (rng_globals \<times> random_variable) option result" where
  "rv_SetStream f stream g v =
     (if sint stream < -1 then Inr None
      else if sint stream = -1
      then (let (nextStream, g) = GetNextStreamIndex g in
            if nextStream \<le> push_bit 63 1 then rv_attach f nextStream stream g v else Inr None)
      else rv_attach f (push_bit 63 1 + stream) stream g v)"

text \<open>\<open>UniformRandomVariable\<close>: a draw mapped to the interval.\<close>

definition uniform_GetValue :: "fpu \<Rightarrow> double \<Rightarrow> double \<Rightarrow> bool \<Rightarrow> rng_stream \<Rightarrow> double \<times> rng_stream" where
  "uniform_GetValue f mn mx antithetic r =
     (let (u, r) = RandU01 f r;
          v = fadd f mn (fmul f u (fsub f mx mn))
      in (if antithetic then fadd f mn (fsub f mx v) else v, r))"

section \<open>Independent streams\<close>

lemma nth_draw_add: "nth_draw f r (k + n) = nth_draw f (((\<lambda>r. snd (RandU01 f r)) ^^ k) r) n"
  by (induction k arbitrary: r) (simp_all add: funpow_Suc_right del: funpow.simps(2))

lemma draws_step:
  assumes f: "ieee_double f" and "at_step (currentState r) s t n"
  shows "at_step (currentState (((\<lambda>r. snd (RandU01 f r)) ^^ k) r)) s t (n + k)"
  using assms(2) by (induction k) (auto dest: RandU01_step(1) [OF f])

text \<open>C13: with any rounding that IEEE 754 allows, a stream and substream of a seed is the one sequence of
  that seed, entered after \<open>2^127\<close> draws for every stream and \<open>2^76\<close> for every substream before it:
  the jump over the draws with precomputed matrix powers is exact.\<close>

theorem rng_streams_are_one_sequence:
  assumes f: "ieee_double f" and seed: "0 < unat seed" "unat seed < 4294944443"
  shows "\<exists>r r0. RngStream f seed stream substream = Inr (Some r) \<and> RngStream f seed 0 0 = Inr (Some r0)
    \<and> (\<forall>n. nth_draw f r n = nth_draw f r0 (unat stream * 2 ^ 127 + unat substream * 2 ^ 76 + n))"
proof -
  let ?k = "unat stream * 2 ^ 127 + unat substream * 2 ^ 76 :: nat"
  obtain r where r: "RngStream f seed stream substream = Inr (Some r)"
    "at_step (currentState r) (seed_vec seed) (seed_vec seed) ?k"
    by (rule RngStream_position [OF f seed])
  obtain r0 where r0: "RngStream f seed 0 0 = Inr (Some r0)"
    "at_step (currentState r0) (seed_vec seed) (seed_vec seed) (unat (0 :: u64) * 2 ^ 127 + unat (0 :: u64) * 2 ^ 76)"
    by (rule RngStream_position [OF f seed])
  let ?r = "((\<lambda>r. snd (RandU01 f r)) ^^ ?k) r0"
  have "at_step (currentState ?r) (seed_vec seed) (seed_vec seed) ?k"
    using draws_step [OF f r0(2), of ?k] by simp
  with r(2) have "currentState r = currentState ?r" by (rule at_step_unique)
  then have "r = ?r" by simp
  then have "nth_draw f r n = nth_draw f r0 (?k + n)" for n using nth_draw_add [of f r0 ?k n] by simp
  with r(1) r0(1) show ?thesis by blast
qed

lemma exact_fpu_ieee: "ieee_double exact_fpu"
  by (auto simp: ieee_double_def exact_fpu_def intro!: monoI)

theorem rng_streams_are_one_sequence_witness:
  "\<exists>r r0. RngStream exact_fpu 12345 3 2 = Inr (Some r) \<and> RngStream exact_fpu 12345 0 0 = Inr (Some r0)
    \<and> (\<forall>n. nth_draw exact_fpu r n = nth_draw exact_fpu r0 (3 * 2 ^ 127 + 2 * 2 ^ 76 + n))"
  using rng_streams_are_one_sequence [OF exact_fpu_ieee, of 12345 3 2] by simp

text \<open>C29: every number that a stream returns lies strictly between 0 and 1.\<close>

theorem draws_in_unit_interval:
  assumes f: "ieee_double f" and r: "RngStream f seed stream substream = Inr (Some r)"
  shows "0 < nth_draw f r n \<and> nth_draw f r n < 1"
proof -
  have "\<not> (real (unat seed) \<ge> m1 \<or> real (unat seed) \<ge> m2 \<or> seed = 0)"
    using r unfolding RngStream_def by (rule contrapos_pn) simp
  then have "seed \<noteq> 0" and lt: "real (unat seed) < 4294944443" by (simp_all add: m2_def)
  from lt have "real (unat seed) < real 4294944443" by simp
  then have "unat seed < 4294944443" by (simp only: of_nat_less_iff)
  moreover have "0 < unat seed" using \<open>seed \<noteq> 0\<close> unat_gt_0 by blast
  ultimately obtain k where "at_step (currentState r) (seed_vec seed) (seed_vec seed) k"
    using RngStream_position [OF f, of seed stream substream] r by (metis option.inject sum.inject(2))
  then show ?thesis
  proof (induction n arbitrary: r k)
    case 0
    from RandU01_step(2,3) [OF f 0] show ?case by simp
  next
    case (Suc n)
    from Suc.IH [OF RandU01_step(1) [OF f Suc.prems]] show ?case by simp
  qed
qed

theorem draws_in_unit_interval_witness:
  "\<exists>r. RngStream exact_fpu 1 4 1 = Inr (Some r) \<and> 0 < nth_draw exact_fpu r 10 \<and> nth_draw exact_fpu r 10 < 1"
proof -
  obtain r where "RngStream exact_fpu 1 4 1 = Inr (Some r)"
    by (rule RngStream_position [OF exact_fpu_ieee, of 1 4 1]) simp_all
  with draws_in_unit_interval [OF exact_fpu_ieee this] show ?thesis by blast
qed

text \<open>The number of an automatically assigned stream is checked with \<open>\<le> 2^63\<close>, one too many: the
  stream \<open>2^63\<close> that passes is the one of a random variable whose stream was set to 0.\<close>

theorem automatic_stream_collides:
  assumes "g_nextStreamIndex g = push_bit 63 1"
  shows "map_sum id (map_option (\<lambda>(g, v). rv_rng v)) (rv_SetStream f (- 1) g v)
    = map_sum id (map_option (\<lambda>(g, v). rv_rng v)) (rv_SetStream f 0 g v)"
  using assms
  by (cases "RngStream f (g_rngSeed g) (push_bit 63 1) (g_rngRun g)")
    (auto simp: rv_SetStream_def GetNextStreamIndex_def rv_attach_def option.map_comp comp_def)

end
