(* ===== verification/ByteBuffer.thy ===== *)
theory ByteBuffer
  imports SharedLists TagBuffer "HOL-Library.Monad_Syntax"
begin

text \<open>
  The byte buffer of packets (\<open>network/model/buffer.{cc,h}\<close>). Buffers share their data: a \<open>Buffer\<close> is
  a window on a reference counted \<open>Data\<close>, and inside its window there may be a zero area, which takes
  no room in the data. The data has a dirty area, outside of which a buffer can grow in place even
  when the data is shared. Positions after the zero area are virtual: the byte at position \<open>i\<close> is
  stored at \<open>i\<close> minus the length of the zero area.

  \<^item> \<open>uint32_t\<close> positions and sizes are natural numbers below \<open>2 ^ 32\<close> with the arithmetic \<open>add32\<close> and
    \<open>sub32\<close>, which wraps around. Reference counts are \<open>nat\<close>; a decrement of zero is \<open>None\<close>.
  \<^item> \<open>Data\<close> objects live in a heap. A failed assertion, access to freed memory, and access outside of
    the \<open>m_size\<close> bytes of a \<open>Data\<close> is \<open>None\<close>; copying no bytes is always possible. What uninitialised
    memory holds is an arbitrary function. The block that \<open>Allocate\<close> obtains is \<open>m_size - 1 + sizeof(Data)\<close>
    bytes, so up to 3 bytes behind the \<open>m_size\<close> bytes are still inside it; here they are outside.
  \<^item> \<open>CheckInternalState\<close> is compiled to \<open>true\<close> and left out. Returning a local \<open>Buffer\<close> makes no copy.
\<close>

section \<open>Positions and memory\<close>

definition add32 :: "nat \<Rightarrow> nat \<Rightarrow> nat" where
  "add32 a b = (a + b) mod 2 ^ 32"

definition sub32 :: "nat \<Rightarrow> nat \<Rightarrow> nat" where
  "sub32 a b = nat ((int a - int b) mod 2 ^ 32)"

record buf_data =
  bd_count :: nat
  bd_size :: nat
  bd_dirtyStart :: nat
  bd_dirtyEnd :: nat
  bd_bytes :: "u8 list"

text \<open>The three states of \<open>g_freeList\<close>.\<close>

datatype free_list = Uninitialized | Initialized "addr list" | Destroyed

record buf_heap =
  bh_cells :: "addr \<rightharpoonup> buf_data"
  bh_brk :: addr
  bh_garbage :: "addr \<Rightarrow> nat \<Rightarrow> u8"
  bh_freeList :: free_list
  bh_maxSize :: nat
  bh_recommendedStart :: nat

definition bh_empty :: "(addr \<Rightarrow> nat \<Rightarrow> u8) \<Rightarrow> buf_heap" where
  "bh_empty g = \<lparr>bh_cells = Map.empty, bh_brk = 1, bh_garbage = g, bh_freeList = Uninitialized,
                 bh_maxSize = 0, bh_recommendedStart = 0\<rparr>"

definition upd_data :: "addr \<Rightarrow> (buf_data \<Rightarrow> buf_data) \<Rightarrow> buf_heap \<Rightarrow> buf_heap option" where
  "upd_data a f h = (case bh_cells h a of None \<Rightarrow> None
     | Some d \<Rightarrow> Some (h\<lparr>bh_cells := (bh_cells h)(a \<mapsto> f d)\<rparr>))"

definition mem_read :: "addr \<Rightarrow> nat \<Rightarrow> nat \<Rightarrow> buf_heap \<Rightarrow> u8 list option" where
  "mem_read a i n h = (if n = 0 then Some [] else do {
     d \<leftarrow> bh_cells h a;
     if i + n \<le> length (bd_bytes d) then Some (take n (drop i (bd_bytes d))) else None })"

definition mem_write :: "addr \<Rightarrow> nat \<Rightarrow> u8 list \<Rightarrow> buf_heap \<Rightarrow> buf_heap option" where
  "mem_write a i bs h = (if bs = [] then Some h else do {
     d \<leftarrow> bh_cells h a;
     if i + length bs \<le> length (bd_bytes d)
     then upd_data a (\<lambda>d. d\<lparr>bd_bytes := put_bytes i bs (bd_bytes d)\<rparr>) h
     else None })"

section \<open>Data objects\<close>

definition buf_Deallocate :: "addr \<Rightarrow> buf_heap \<Rightarrow> buf_heap option" where
  "buf_Deallocate a h = do {
     d \<leftarrow> bh_cells h a;
     if bd_count d = 0 then Some (h\<lparr>bh_cells := (bh_cells h)(a := None)\<rparr>) else None }"

definition buf_Recycle :: "addr \<Rightarrow> buf_heap \<Rightarrow> buf_heap option" where
  "buf_Recycle a h = do {
     d \<leftarrow> bh_cells h a;
     if bd_count d \<noteq> 0 \<or> bh_freeList h = Uninitialized then None else
     let h = h\<lparr>bh_maxSize := max (bh_maxSize h) (bd_size d)\<rparr> in
     case bh_freeList h of
       Initialized fs \<Rightarrow>
         if bd_size d < bh_maxSize h \<or> length fs > 1000 then buf_Deallocate a h
         else Some (h\<lparr>bh_freeList := Initialized (fs @ [a])\<rparr>)
     | _ \<Rightarrow> buf_Deallocate a h }"

text \<open>\<open>sizeof(Buffer::Data)\<close> is 20.\<close>

definition buf_Allocate :: "nat \<Rightarrow> buf_heap \<Rightarrow> (addr \<times> buf_heap) option" where
  "buf_Allocate reqSize h =
     (let reqSize = add32 (if reqSize = 0 then 1 else reqSize) 100; a = bh_brk h in
      if reqSize + 19 < 2 ^ 32
      then Some (a, h\<lparr>bh_cells := (bh_cells h)(a \<mapsto>
             \<lparr>bd_count = 1, bd_size = reqSize, bd_dirtyStart = 0, bd_dirtyEnd = 0,
              bd_bytes = map (bh_garbage h a) [0..<reqSize]\<rparr>), bh_brk := Suc a\<rparr>)
      else None)"

text \<open>The loop of \<open>Create\<close> over the free list, from the back.\<close>

fun take_free :: "nat \<Rightarrow> addr list \<Rightarrow> buf_heap \<Rightarrow> (addr option \<times> buf_heap) option" where
  "take_free n [] h = Some (None, h\<lparr>bh_freeList := Initialized []\<rparr>)"
| "take_free n (a # as) h = do {
     d \<leftarrow> bh_cells h a;
     if bd_size d \<ge> n
     then do { h \<leftarrow> upd_data a (\<lambda>d. d\<lparr>bd_count := 1\<rparr>) h;
               Some (Some a, h\<lparr>bh_freeList := Initialized (rev as)\<rparr>) }
     else do { h \<leftarrow> buf_Deallocate a h; take_free n as h } }"

definition buf_Create :: "nat \<Rightarrow> buf_heap \<Rightarrow> (addr \<times> buf_heap) option" where
  "buf_Create dataSize h = (case bh_freeList h of
       Uninitialized \<Rightarrow> buf_Allocate dataSize (h\<lparr>bh_freeList := Initialized []\<rparr>)
     | Initialized fs \<Rightarrow> do {
         (found, h) \<leftarrow> take_free dataSize (rev fs) h;
         case found of Some a \<Rightarrow> Some (a, h) | None \<Rightarrow> buf_Allocate dataSize h }
     | Destroyed \<Rightarrow> buf_Allocate dataSize h)"

text \<open>The static destructor.\<close>

primrec deallocate_all :: "addr list \<Rightarrow> buf_heap \<Rightarrow> buf_heap option" where
  "deallocate_all [] h = Some h"
| "deallocate_all (a # as) h = do { h \<leftarrow> buf_Deallocate a h; deallocate_all as h }"

definition LocalStaticDestructor :: "buf_heap \<Rightarrow> buf_heap option" where
  "LocalStaticDestructor h = (case bh_freeList h of
       Initialized fs \<Rightarrow> do { h \<leftarrow> deallocate_all fs h; Some (h\<lparr>bh_freeList := Destroyed\<rparr>) }
     | _ \<Rightarrow> Some h)"

text \<open>\<open>m_data->m_count--\<close>, with \<open>Recycle\<close> when it becomes zero.\<close>

definition drop_ref :: "addr \<Rightarrow> buf_heap \<Rightarrow> buf_heap option" where
  "drop_ref a h = do {
     d \<leftarrow> bh_cells h a;
     if bd_count d = 0 then None else do {
       h \<leftarrow> upd_data a (\<lambda>d. d\<lparr>bd_count := bd_count d - 1\<rparr>) h;
       if bd_count d = 1 then buf_Recycle a h else Some h } }"

definition add_ref :: "addr \<Rightarrow> buf_heap \<Rightarrow> buf_heap option" where
  "add_ref a h = upd_data a (\<lambda>d. d\<lparr>bd_count := bd_count d + 1\<rparr>) h"

section \<open>Buffers\<close>

record byte_buffer =
  bb_data :: addr
  bb_maxZeroAreaStart :: nat
  bb_zeroAreaStart :: nat
  bb_zeroAreaEnd :: nat
  bb_start :: nat
  bb_end :: nat

definition buf_Initialize :: "nat \<Rightarrow> buf_heap \<Rightarrow> (byte_buffer \<times> buf_heap) option" where
  "buf_Initialize zeroSize h = do {
     (a, h) \<leftarrow> buf_Create 0 h;
     d \<leftarrow> bh_cells h a;
     let s = min (bd_size d) (bh_recommendedStart h); e = add32 s zeroSize in do {
       h \<leftarrow> upd_data a (\<lambda>d. d\<lparr>bd_dirtyStart := s, bd_dirtyEnd := e\<rparr>) h;
       Some (\<lparr>bb_data = a, bb_maxZeroAreaStart = s, bb_zeroAreaStart = s, bb_zeroAreaEnd = e,
              bb_start = s, bb_end = e\<rparr>, h) } }"

definition buf_copy :: "byte_buffer \<Rightarrow> buf_heap \<Rightarrow> (byte_buffer \<times> buf_heap) option" where
  "buf_copy b h = do {
     h \<leftarrow> add_ref (bb_data b) h;
     Some (b\<lparr>bb_maxZeroAreaStart := bb_zeroAreaStart b\<rparr>, h) }"

definition recommend :: "byte_buffer \<Rightarrow> buf_heap \<Rightarrow> buf_heap" where
  \<comment> \<open>\<open>g_recommendedStart = std::max(g_recommendedStart, m_maxZeroAreaStart)\<close>\<close>
  "recommend b h = h\<lparr>bh_recommendedStart := max (bh_recommendedStart h) (bb_maxZeroAreaStart b)\<rparr>"

definition buf_assign :: "byte_buffer \<Rightarrow> byte_buffer \<Rightarrow> buf_heap \<Rightarrow> (byte_buffer \<times> buf_heap) option" where
  "buf_assign b src h = do {
     h \<leftarrow> (if bb_data b \<noteq> bb_data src
           then do { h \<leftarrow> drop_ref (bb_data b) h; add_ref (bb_data src) h } else Some h);
     Some (src, recommend b h) }"

definition buf_destroy :: "byte_buffer \<Rightarrow> buf_heap \<Rightarrow> buf_heap option" where
  "buf_destroy b h = drop_ref (bb_data b) (recommend b h)"

definition buf_GetSize :: "byte_buffer \<Rightarrow> nat" where
  "buf_GetSize b = sub32 (bb_end b) (bb_start b)"

definition GetInternalSize :: "byte_buffer \<Rightarrow> nat" where
  "GetInternalSize b = sub32 (add32 (sub32 (bb_zeroAreaStart b) (bb_start b)) (bb_end b)) (bb_zeroAreaEnd b)"

definition GetInternalEnd :: "byte_buffer \<Rightarrow> nat" where
  "GetInternalEnd b = sub32 (bb_end b) (sub32 (bb_zeroAreaEnd b) (bb_zeroAreaStart b))"

definition note_zero_start :: "byte_buffer \<Rightarrow> byte_buffer" where
  \<comment> \<open>\<open>m_maxZeroAreaStart = std::max(m_maxZeroAreaStart, m_zeroAreaStart)\<close>\<close>
  "note_zero_start b = b\<lparr>bb_maxZeroAreaStart := max (bb_maxZeroAreaStart b) (bb_zeroAreaStart b)\<rparr>"

text \<open>A new \<open>Data\<close> with a copy of the stored bytes at position \<open>pos\<close>; the positions move by \<open>pos - m_start\<close>.\<close>

definition move_buffer :: "nat \<Rightarrow> nat \<Rightarrow> byte_buffer \<Rightarrow> buf_heap \<Rightarrow> (byte_buffer \<times> buf_heap) option" where
  "move_buffer newSize pos b h = do {
     (a, h) \<leftarrow> buf_Create newSize h;
     bs \<leftarrow> mem_read (bb_data b) (bb_start b) (GetInternalSize b) h;
     h \<leftarrow> mem_write a pos bs h;
     h \<leftarrow> drop_ref (bb_data b) h;
     let delta = sub32 pos (bb_start b) in
     Some (b\<lparr>bb_data := a, bb_start := add32 (bb_start b) delta,
             bb_zeroAreaStart := add32 (bb_zeroAreaStart b) delta,
             bb_zeroAreaEnd := add32 (bb_zeroAreaEnd b) delta, bb_end := add32 (bb_end b) delta\<rparr>, h) }"

definition set_dirty :: "byte_buffer \<Rightarrow> buf_heap \<Rightarrow> buf_heap option" where
  "set_dirty b = upd_data (bb_data b) (\<lambda>d. d\<lparr>bd_dirtyStart := bb_start b, bd_dirtyEnd := bb_end b\<rparr>)"

definition buf_AddAtStart :: "nat \<Rightarrow> byte_buffer \<Rightarrow> buf_heap \<Rightarrow> (byte_buffer \<times> buf_heap) option" where
  "buf_AddAtStart n b h = do {
     d \<leftarrow> bh_cells h (bb_data b);
     let isDirty = bd_count d > 1 \<and> bb_start b > bd_dirtyStart d in
     if bb_start b \<ge> n \<and> \<not> isDirty
     then if bd_count d = 1 \<or> bb_start b = bd_dirtyStart d
       then do {
         let b = b\<lparr>bb_start := sub32 (bb_start b) n\<rparr>;
         h \<leftarrow> upd_data (bb_data b) (\<lambda>d. d\<lparr>bd_dirtyStart := bb_start b\<rparr>) h;
         Some (note_zero_start b, h) }
       else None
     else do {
       (b, h) \<leftarrow> move_buffer (add32 (GetInternalSize b) n) n b h;
       let b = b\<lparr>bb_start := sub32 (bb_start b) n\<rparr>;
       h \<leftarrow> set_dirty b h;
       Some (note_zero_start b, h) } }"

definition buf_AddAtEnd :: "nat \<Rightarrow> byte_buffer \<Rightarrow> buf_heap \<Rightarrow> (byte_buffer \<times> buf_heap) option" where
  "buf_AddAtEnd n b h = do {
     d \<leftarrow> bh_cells h (bb_data b);
     let isDirty = bd_count d > 1 \<and> bb_end b < bd_dirtyEnd d in
     if add32 (GetInternalEnd b) n \<le> bd_size d \<and> \<not> isDirty
     then if bd_count d = 1 \<or> bb_end b = bd_dirtyEnd d
       then do {
         let b = b\<lparr>bb_end := add32 (bb_end b) n\<rparr>;
         h \<leftarrow> upd_data (bb_data b) (\<lambda>d. d\<lparr>bd_dirtyEnd := bb_end b\<rparr>) h;
         Some (note_zero_start b, h) }
       else None
     else do {
       (b, h) \<leftarrow> move_buffer (add32 (GetInternalSize b) n) 0 b h;
       let b = b\<lparr>bb_end := add32 (bb_end b) n\<rparr>;
       h \<leftarrow> set_dirty b h;
       Some (note_zero_start b, h) } }"

definition buf_RemoveAtStart :: "nat \<Rightarrow> byte_buffer \<Rightarrow> byte_buffer option" where
  "buf_RemoveAtStart n b =
     (let newStart = add32 (bb_start b) n; zs = bb_zeroAreaStart b; ze = bb_zeroAreaEnd b in
      if newStart \<le> zs then Some (note_zero_start (b\<lparr>bb_start := newStart\<rparr>))
      else if newStart \<le> ze then
        (let delta = sub32 newStart zs in
         Some (note_zero_start (b\<lparr>bb_start := zs, bb_zeroAreaEnd := sub32 ze delta, bb_end := sub32 (bb_end b) delta\<rparr>)))
      else if newStart \<le> bb_end b then
        (if bb_end b \<ge> n then
          (let zeroSize = sub32 ze zs; s = sub32 newStart zeroSize in
           Some (note_zero_start (b\<lparr>bb_start := s, bb_end := sub32 (bb_end b) zeroSize,
                                    bb_zeroAreaStart := s, bb_zeroAreaEnd := s\<rparr>)))
         else None)
      else
        (let e = sub32 (bb_end b) (sub32 ze zs) in
         Some (note_zero_start (b\<lparr>bb_end := e, bb_start := e, bb_zeroAreaEnd := e, bb_zeroAreaStart := e\<rparr>))))"

definition buf_RemoveAtEnd :: "nat \<Rightarrow> byte_buffer \<Rightarrow> byte_buffer" where
  "buf_RemoveAtEnd n b =
     (let newEnd = sub32 (bb_end b) (min n (sub32 (bb_end b) (bb_start b))) in
      note_zero_start
       (if newEnd > bb_zeroAreaEnd b then b\<lparr>bb_end := newEnd\<rparr>
        else if newEnd > bb_zeroAreaStart b then b\<lparr>bb_end := newEnd, bb_zeroAreaEnd := newEnd\<rparr>
        else if newEnd > bb_start b then b\<lparr>bb_end := newEnd, bb_zeroAreaEnd := newEnd, bb_zeroAreaStart := newEnd\<rparr>
        else b\<lparr>bb_end := bb_start b, bb_zeroAreaEnd := bb_start b, bb_zeroAreaStart := bb_start b\<rparr>))"

definition buf_CreateFragment :: "nat \<Rightarrow> nat \<Rightarrow> byte_buffer \<Rightarrow> buf_heap \<Rightarrow> (byte_buffer \<times> buf_heap) option" where
  "buf_CreateFragment start n b h = do {
     (tmp, h) \<leftarrow> buf_copy b h;
     tmp \<leftarrow> buf_RemoveAtStart start tmp;
     Some (buf_RemoveAtEnd (sub32 (buf_GetSize b) (add32 start n)) tmp, h) }"

section \<open>Arithmetic on positions\<close>

lemma add32_small [simp]: "a + b < 2 ^ 32 \<Longrightarrow> add32 a b = a + b"
  by (simp add: add32_def)

lemma sub32_le [simp]: "b \<le> a \<Longrightarrow> a < 2 ^ 32 \<Longrightarrow> sub32 a b = a - b"
proof -
  assume a: "b \<le> a" "a < 2 ^ 32"
  then have "(int a - int b) mod 2 ^ 32 = int a - int b" by (intro mod_pos_pos_trivial) simp_all
  with a show ?thesis by (simp add: sub32_def)
qed

lemma sub32_wrap: "a < b \<Longrightarrow> b \<le> 2 ^ 32 \<Longrightarrow> sub32 a b = 2 ^ 32 + a - b"
proof -
  assume a: "a < b" "b \<le> 2 ^ 32"
  have "(int a - int b) mod 2 ^ 32 = (int a - int b + 2 ^ 32) mod 2 ^ 32" by (simp only: mod_add_self2)
  also have "\<dots> = int a - int b + 2 ^ 32" using a by (intro mod_pos_pos_trivial) simp_all
  finally show ?thesis using a by (simp add: sub32_def)
qed

lemma sub32_less: "sub32 a b < 2 ^ 32"
proof -
  have "(int a - int b) mod 2 ^ 32 < 2 ^ 32" by (rule pos_mod_bound) simp
  then show ?thesis by (simp add: sub32_def nat_less_iff)
qed

text \<open>Moving a position by the difference of two others, in either direction.\<close>

lemma shift32:
  assumes "s \<le> x" "x < 2 ^ 32" "p + (x - s) < 2 ^ 32"
  shows "add32 x (sub32 p s) = p + (x - s)"
proof (cases "s \<le> p")
  case True
  with assms show ?thesis by simp
next
  case False
  then have "sub32 p s = 2 ^ 32 + p - s" using assms by (intro sub32_wrap) simp_all
  then have "add32 x (sub32 p s) = (p + (x - s) + 2 ^ 32) mod 2 ^ 32"
    using assms False by (simp add: add32_def algebra_simps)
  then show ?thesis using assms by (simp only: mod_add_self2) simp
qed

section \<open>Segments of a list\<close>

definition seg :: "'a list \<Rightarrow> nat \<Rightarrow> nat \<Rightarrow> 'a list" where
  "seg xs i j = take (j - i) (drop i xs)"

lemma length_seg [simp]: "length (seg xs i j) = min (j - i) (length xs - i)"
  by (simp add: seg_def min.commute)

lemma seg_same [simp]: "seg xs i i = []"
  by (simp add: seg_def)

lemma seg_split: "i \<le> j \<Longrightarrow> j \<le> k \<Longrightarrow> seg xs i k = seg xs i j @ seg xs j k"
proof -
  assume a: "i \<le> j" "j \<le> k"
  then have "k - i = (j - i) + (k - j)" by simp
  then show ?thesis using a unfolding seg_def
    by (simp only: take_add drop_drop) (simp add: add.commute)
qed

lemma take_seg: "take n (seg xs i j) = seg xs i (min j (i + n))"
proof -
  have "min n (j - i) = min j (i + n) - i" by simp
  then show ?thesis by (simp add: seg_def)
qed

lemma drop_seg: "drop n (seg xs i j) = seg xs (i + n) j"
  by (simp add: seg_def drop_take add.commute)

lemma seg_sub:
  assumes "seg xs i (i + n) = seg ys j (j + n)" "z \<le> n"
  shows "seg xs i (i + z) = seg ys j (j + z)" "seg xs (i + z) (i + n) = seg ys (j + z) (j + n)"
  using arg_cong [OF assms(1), of "take z"] arg_cong [OF assms(1), of "drop z"] assms(2)
  by (simp_all add: take_seg drop_seg min_def split: if_splits)

lemma seg_put_before: "j \<le> p \<Longrightarrow> p \<le> length xs \<Longrightarrow> seg (put_bytes p bs xs) i j = seg xs i j"
  by (cases "i \<le> j") (simp_all add: seg_def put_bytes_def drop_take)

lemma seg_put_after:
  "p + length bs \<le> i \<Longrightarrow> p + length bs \<le> length xs \<Longrightarrow> seg (put_bytes p bs xs) i j = seg xs i j"
  by (simp add: seg_def put_bytes_def)

lemma seg_put_inside:
  "x \<le> y \<Longrightarrow> y \<le> length bs \<Longrightarrow> p + length bs \<le> length xs \<Longrightarrow>
     seg (put_bytes p bs xs) (p + x) (p + y) = seg bs x y"
  by (simp add: seg_def put_bytes_def)

lemma length_put_bytes [simp]: "p + length bs \<le> length xs \<Longrightarrow> length (put_bytes p bs xs) = length xs"
  by (simp add: put_bytes_def)

lemma seg_all: "seg xs 0 (length xs) = xs"
  by (simp add: seg_def)

section \<open>The heap of data objects\<close>

text \<open>No buffer is longer than \<open>2 ^ 30\<close> bytes in what follows, so that no position wraps around.\<close>

abbreviation size_limit :: nat where "size_limit \<equiv> 2 ^ 30"

definition data_ok :: "buf_data \<Rightarrow> bool" where
  "data_ok d \<longleftrightarrow> length (bd_bytes d) = bd_size d \<and> bd_size d \<le> size_limit + 101"

definition free_addrs :: "buf_heap \<Rightarrow> addr list" where
  "free_addrs h = (case bh_freeList h of Initialized fs \<Rightarrow> fs | _ \<Rightarrow> [])"

text \<open>\<open>R\<close> is the multiset of all references to data objects.\<close>

definition heap_ok :: "addr multiset \<Rightarrow> buf_heap \<Rightarrow> bool" where
  "heap_ok R h \<longleftrightarrow>
     (\<forall>a d. bh_cells h a = Some d \<longrightarrow> 0 < a \<and> a < bh_brk h \<and> data_ok d \<and> bd_count d = count R a)
   \<and> (\<forall>a \<in># R. bh_cells h a \<noteq> None)
   \<and> distinct (free_addrs h) \<and> set (free_addrs h) = {a \<in> dom (bh_cells h). a \<notin># R}
   \<and> (bh_freeList h = Uninitialized \<longrightarrow> bh_cells h = Map.empty) \<and> 0 < bh_brk h"

text \<open>A data object without its reference count.\<close>

definition dat :: "buf_heap \<Rightarrow> addr \<Rightarrow> buf_data option" where
  "dat h a = map_option (bd_count_update (\<lambda>_. 0)) (bh_cells h a)"

lemma heap_okI:
  assumes "\<And>a d. bh_cells h a = Some d \<Longrightarrow> 0 < a \<and> a < bh_brk h \<and> data_ok d \<and> bd_count d = count R a"
    "\<And>a. a \<in># R \<Longrightarrow> bh_cells h a \<noteq> None"
    "distinct (free_addrs h)" "set (free_addrs h) = {a \<in> dom (bh_cells h). a \<notin># R}"
    "bh_freeList h = Uninitialized \<Longrightarrow> bh_cells h = Map.empty" "0 < bh_brk h"
  shows "heap_ok R h"
  using assms unfolding heap_ok_def by blast

lemma heap_ok_free:
  "heap_ok R h \<Longrightarrow> distinct (free_addrs h) \<and> set (free_addrs h) = {a \<in> dom (bh_cells h). a \<notin># R}"
  "heap_ok R h \<Longrightarrow> bh_freeList h = Uninitialized \<Longrightarrow> bh_cells h = Map.empty"
  "heap_ok R h \<Longrightarrow> 0 < bh_brk h"
  "heap_ok R h \<Longrightarrow> a \<in># R \<Longrightarrow> bh_cells h a \<noteq> None"
  unfolding heap_ok_def by blast+

lemma heap_okD: "heap_ok R h \<Longrightarrow> bh_cells h a = Some d \<Longrightarrow>
    0 < a \<and> a < bh_brk h \<and> data_ok d \<and> bd_count d = count R a"
  unfolding heap_ok_def by blast

lemma heap_ok_cell: "heap_ok R h \<Longrightarrow> a \<in># R \<Longrightarrow>
    \<exists>d. bh_cells h a = Some d \<and> data_ok d \<and> bd_count d = count R a"
  unfolding heap_ok_def by blast

lemma heap_ok_sole: "heap_ok (add_mset a R) h \<Longrightarrow> bh_cells h a = Some d \<Longrightarrow> bd_count d = 1 \<Longrightarrow> a \<notin># R"
  using heap_okD [of "add_mset a R" h a d] by (auto simp: not_in_iff)

lemma heap_ok_upd:
  assumes "heap_ok R h" "bh_cells h a = Some d"
    "bd_count (f d) = bd_count d" "data_ok (f d)"
  shows "\<exists>h'. upd_data a f h = Some h' \<and> heap_ok R h' \<and> bh_cells h' = (bh_cells h)(a \<mapsto> f d)
    \<and> bh_freeList h' = bh_freeList h \<and> bh_recommendedStart h' = bh_recommendedStart h"
proof -
  let ?h = "h\<lparr>bh_cells := (bh_cells h)(a \<mapsto> f d)\<rparr>"
  have "upd_data a f h = Some ?h" using assms(2) by (simp add: upd_data_def)
  moreover have "heap_ok R ?h"
  proof -
    have dm: "dom (bh_cells ?h) = dom (bh_cells h)" using assms(2) by auto
    show ?thesis
    proof (rule heap_okI)
      fix x d'
      assume "bh_cells ?h x = Some d'"
      then show "0 < x \<and> x < bh_brk ?h \<and> data_ok d' \<and> bd_count d' = count R x"
        using heap_okD [OF assms(1), of x] assms(2-4) by (cases "x = a") auto
    next
      show "set (free_addrs ?h) = {x \<in> dom (bh_cells ?h). x \<notin># R}"
        unfolding dm using heap_ok_free(1) [OF assms(1)] by (simp add: free_addrs_def)
    qed (use heap_ok_free [OF assms(1)] assms(2) in \<open>auto simp: free_addrs_def\<close>)
  qed
  ultimately show ?thesis by simp
qed

lemma heap_ok_Allocate:
  assumes "heap_ok R h" "n \<le> size_limit" "bh_freeList h \<noteq> Uninitialized"
  shows "\<exists>a h' d. buf_Allocate n h = Some (a, h') \<and> heap_ok (add_mset a R) h' \<and> a \<notin># R
    \<and> bh_cells h' = (bh_cells h)(a \<mapsto> d) \<and> data_ok d \<and> bd_size d \<ge> n \<and> bh_freeList h' = bh_freeList h
    \<and> bh_recommendedStart h' = bh_recommendedStart h"
proof -
  let ?m = "(if n = 0 then 1 else n) + 100" and ?a = "bh_brk h"
  let ?d = "\<lparr>bd_count = 1, bd_size = ?m, bd_dirtyStart = 0, bd_dirtyEnd = 0, bd_bytes = map (bh_garbage h ?a) [0..<?m]\<rparr>"
  let ?h = "h\<lparr>bh_cells := (bh_cells h)(?a \<mapsto> ?d), bh_brk := Suc ?a\<rparr>"
  have fresh: "bh_cells h ?a = None" "?a \<notin># R" "count R ?a = 0"
    using assms(1) unfolding heap_ok_def
    by (metis nat_neq_iff option.exhaust, metis nat_neq_iff option.exhaust, metis nat_neq_iff option.exhaust not_in_iff)
  have "buf_Allocate n h = Some (?a, ?h)"
    using assms(2) by (simp add: buf_Allocate_def Let_def)
  moreover have "heap_ok (add_mset ?a R) ?h"
  proof -
    show ?thesis
    proof (rule heap_okI)
      fix x d'
      assume "bh_cells ?h x = Some d'"
      then show "0 < x \<and> x < bh_brk ?h \<and> data_ok d' \<and> bd_count d' = count (add_mset ?a R) x"
        using heap_okD [OF assms(1), of x] assms(2) fresh heap_ok_free(3) [OF assms(1)]
        by (cases "x = ?a") (auto simp: data_ok_def)
    next
      show "set (free_addrs ?h) = {x \<in> dom (bh_cells ?h). x \<notin># add_mset ?a R}"
        using heap_ok_free(1) [OF assms(1)] fresh by (auto simp: free_addrs_def)
    qed (use heap_ok_free [OF assms(1)] assms(3) in \<open>auto simp: free_addrs_def\<close>)
  qed
  ultimately show ?thesis using assms(2) fresh(2)
    by (intro exI [of _ ?a] exI [of _ ?h] exI [of _ ?d]) (simp add: data_ok_def)
qed

lemma take_free_ok:
  "heap_ok R (h\<lparr>bh_freeList := Initialized (rev as)\<rparr>) \<Longrightarrow>
   \<exists>r h'. take_free n as h = Some (r, h') \<and> (\<forall>x \<in># R. bh_cells h' x = bh_cells h x)
     \<and> bh_recommendedStart h' = bh_recommendedStart h \<and> bh_freeList h' \<noteq> Uninitialized
     \<and> (case r of None \<Rightarrow> heap_ok R h'
        | Some a \<Rightarrow> heap_ok (add_mset a R) h' \<and> a \<notin># R \<and> (\<exists>d. bh_cells h' a = Some d \<and> bd_size d \<ge> n))"
proof (induction "as" arbitrary: h)
  case (Cons a "as")
  let ?h = "h\<lparr>bh_freeList := Initialized (rev (a # as))\<rparr>"
  have free: "distinct (rev as @ [a])" "set (rev as @ [a]) = {x \<in> dom (bh_cells h). x \<notin># R}"
    using heap_ok_free(1) [OF Cons.prems] by (simp_all add: free_addrs_def)
  then obtain d where d: "bh_cells h a = Some d" and a: "a \<notin># R" "a \<notin> set as" by auto
  have ok: "0 < a" "a < bh_brk h" "data_ok d" "bd_count d = 0"
    using heap_okD [OF Cons.prems, of a d] d a by (simp_all add: not_in_iff)
  show ?case
  proof (cases "bd_size d \<ge> n")
    case True
    let ?h' = "h\<lparr>bh_cells := (bh_cells h)(a \<mapsto> d\<lparr>bd_count := 1\<rparr>), bh_freeList := Initialized (rev as)\<rparr>"
    have "take_free n (a # as) h = Some (Some a, ?h')" using d True by (simp add: upd_data_def)
    moreover have "heap_ok (add_mset a R) ?h'"
    proof (rule heap_okI)
      fix x d'
      assume "bh_cells ?h' x = Some d'"
      then show "0 < x \<and> x < bh_brk ?h' \<and> data_ok d' \<and> bd_count d' = count (add_mset a R) x"
        using heap_okD [OF Cons.prems, of x] ok a(1)
        by (cases "x = a") (auto simp: data_ok_def not_in_iff)
    next
      show "set (free_addrs ?h') = {x \<in> dom (bh_cells ?h'). x \<notin># add_mset a R}"
        using free a by (auto simp: free_addrs_def)
    qed (use free heap_ok_free [OF Cons.prems] in \<open>auto simp: free_addrs_def\<close>)
    moreover have "\<forall>x \<in># R. bh_cells ?h' x = bh_cells h x" using a(1) by auto
    ultimately show ?thesis using a True by (intro exI [of _ "Some a"] exI [of _ ?h']) simp
  next
    case False
    let ?h' = "h\<lparr>bh_cells := (bh_cells h)(a := None)\<rparr>"
    have "heap_ok R (?h'\<lparr>bh_freeList := Initialized (rev as)\<rparr>)"
    proof (rule heap_okI)
      fix x d'
      assume "bh_cells (?h'\<lparr>bh_freeList := Initialized (rev as)\<rparr>) x = Some d'"
      then show "0 < x \<and> x < bh_brk (?h'\<lparr>bh_freeList := Initialized (rev as)\<rparr>) \<and> data_ok d' \<and> bd_count d' = count R x"
        using heap_okD [OF Cons.prems, of x] by (cases "x = a") auto
    next
      show "set (free_addrs (?h'\<lparr>bh_freeList := Initialized (rev as)\<rparr>))
          = {x \<in> dom (bh_cells (?h'\<lparr>bh_freeList := Initialized (rev as)\<rparr>)). x \<notin># R}"
        using free a by (auto simp: free_addrs_def)
    qed (use free heap_ok_free [OF Cons.prems] a in \<open>auto simp: free_addrs_def\<close>)
    from Cons.IH [OF this] obtain r h'' where r: "take_free n as ?h' = Some (r, h'')"
      "\<forall>x \<in># R. bh_cells h'' x = bh_cells ?h' x" "bh_recommendedStart h'' = bh_recommendedStart h"
      "bh_freeList h'' \<noteq> Uninitialized"
      "case r of None \<Rightarrow> heap_ok R h''
        | Some a \<Rightarrow> heap_ok (add_mset a R) h'' \<and> a \<notin># R \<and> (\<exists>d. bh_cells h'' a = Some d \<and> bd_size d \<ge> n)"
      by auto
    moreover have "take_free n (a # as) h = take_free n as ?h'"
      using d False ok(4) by (simp add: buf_Deallocate_def)
    moreover have "\<forall>x \<in># R. bh_cells h'' x = bh_cells h x" using r(2) a(1) by auto
    ultimately show ?thesis by (intro exI [of _ r] exI [of _ h'']) simp
  qed
qed simp

text \<open>A new reference to data nobody else refers to.\<close>

lemma heap_ok_Create:
  assumes "heap_ok R h" "n \<le> size_limit"
  shows "\<exists>a h' d. buf_Create n h = Some (a, h') \<and> heap_ok (add_mset a R) h' \<and> a \<notin># R
    \<and> bh_cells h' a = Some d \<and> bd_size d \<ge> n \<and> (\<forall>x \<in># R. bh_cells h' x = bh_cells h x)
    \<and> bh_freeList h' \<noteq> Uninitialized \<and> bh_recommendedStart h' = bh_recommendedStart h"
proof -
  have allocate: "\<exists>a h' d. buf_Allocate n h0 = Some (a, h') \<and> heap_ok (add_mset a R) h' \<and> a \<notin># R
      \<and> bh_cells h' a = Some d \<and> bd_size d \<ge> n \<and> (\<forall>x \<in># R. bh_cells h' x = bh_cells h x)
      \<and> bh_freeList h' \<noteq> Uninitialized \<and> bh_recommendedStart h' = bh_recommendedStart h"
    if h0: "heap_ok R h0" "bh_freeList h0 \<noteq> Uninitialized" "\<forall>x \<in># R. bh_cells h0 x = bh_cells h x"
      "bh_recommendedStart h0 = bh_recommendedStart h" for h0
  proof -
    obtain a h' d where a: "buf_Allocate n h0 = Some (a, h')" "heap_ok (add_mset a R) h'" "a \<notin># R"
      "bh_cells h' = (bh_cells h0)(a \<mapsto> d)" "bd_size d \<ge> n" "bh_freeList h' = bh_freeList h0"
      "bh_recommendedStart h' = bh_recommendedStart h0"
      using heap_ok_Allocate [OF h0(1) assms(2) h0(2)] by blast
    then have "\<forall>x \<in># R. bh_cells h' x = bh_cells h x" using h0(3) by auto
    with a h0 show ?thesis by (intro exI [of _ a] exI [of _ h'] exI [of _ d]) simp
  qed
  show ?thesis
  proof (cases "bh_freeList h")
    case Uninitialized
    have "bh_cells h = Map.empty" using heap_ok_free(2) [OF assms(1) Uninitialized] .
    then have "heap_ok R (h\<lparr>bh_freeList := Initialized []\<rparr>)"
      using assms(1) heap_ok_free [OF assms(1)] by (intro heap_okI) (auto simp: free_addrs_def)
    from allocate [OF this] show ?thesis using Uninitialized by (simp add: buf_Create_def)
  next
    case (Initialized fs)
    have "heap_ok R (h\<lparr>bh_freeList := Initialized (rev (rev fs))\<rparr>)" using assms(1) Initialized by (cases h) simp
    from take_free_ok [OF this, of n] obtain r h' where r: "take_free n (rev fs) h = Some (r, h')"
      "\<forall>x \<in># R. bh_cells h' x = bh_cells h x" "bh_recommendedStart h' = bh_recommendedStart h"
      "bh_freeList h' \<noteq> Uninitialized"
      "case r of None \<Rightarrow> heap_ok R h'
        | Some a \<Rightarrow> heap_ok (add_mset a R) h' \<and> a \<notin># R \<and> (\<exists>d. bh_cells h' a = Some d \<and> bd_size d \<ge> n)"
      by blast
    show ?thesis
    proof (cases r)
      case None
      with r Initialized allocate [of h'] show ?thesis by (simp add: buf_Create_def)
    next
      case (Some a)
      with r obtain d where d: "heap_ok (add_mset a R) h'" "a \<notin># R" "bh_cells h' a = Some d" "bd_size d \<ge> n" by auto
      then show ?thesis using r Some Initialized
        by (intro exI [of _ a] exI [of _ h'] exI [of _ d]) (simp add: buf_Create_def)
    qed
  next
    case Destroyed
    with allocate [OF assms(1)] show ?thesis by (simp add: buf_Create_def)
  qed
qed

lemma heap_ok_drop_last:
  assumes "heap_ok (add_mset a R) h" "a \<notin># R"
  shows "\<exists>h'. drop_ref a h = Some h' \<and> heap_ok R h' \<and> (\<forall>x \<in># R. bh_cells h' x = bh_cells h x)
    \<and> bh_recommendedStart h' = bh_recommendedStart h"
proof -
  obtain d where d: "bh_cells h a = Some d" using heap_ok_cell [OF assms(1), of a] by auto
  note ok = heap_okD [OF assms(1) d]
  have cnt: "bd_count d = 1" using ok assms(2) by (simp add: not_in_iff)
  have fl: "bh_freeList h \<noteq> Uninitialized" using heap_ok_free(2) [OF assms(1)] d by auto
  have free: "distinct (free_addrs h)" "set (free_addrs h) = {x \<in> dom (bh_cells h). x \<notin># add_mset a R}"
    using heap_ok_free(1) [OF assms(1)] by auto
  have na: "a \<notin> set (free_addrs h)" using free by simp
  let ?cells = "(bh_cells h)(a \<mapsto> d\<lparr>bd_count := 0\<rparr>)"
  let ?m = "max (bh_maxSize h) (bd_size d)"
  let ?gone = "h\<lparr>bh_cells := ?cells(a := None), bh_maxSize := ?m\<rparr>"
  let ?kept = "\<lambda>fs. h\<lparr>bh_cells := ?cells, bh_maxSize := ?m, bh_freeList := Initialized (fs @ [a])\<rparr>"
  have gone: "heap_ok R ?gone"
  proof (rule heap_okI)
    fix x d'
    assume "bh_cells ?gone x = Some d'"
    then show "0 < x \<and> x < bh_brk ?gone \<and> data_ok d' \<and> bd_count d' = count R x"
      using heap_okD [OF assms(1), of x] by (cases "x = a") auto
  next
    show "set (free_addrs ?gone) = {x \<in> dom (bh_cells ?gone). x \<notin># R}"
      using free(2) na by (auto simp: free_addrs_def split: free_list.splits)
  qed (use free heap_ok_free [OF assms(1)] assms(2) fl in \<open>auto simp: free_addrs_def\<close>)
  have kept: "heap_ok R (?kept fs)" if fs: "bh_freeList h = Initialized fs" for fs
  proof (rule heap_okI)
    fix x d'
    assume "bh_cells (?kept fs) x = Some d'"
    then show "0 < x \<and> x < bh_brk (?kept fs) \<and> data_ok d' \<and> bd_count d' = count R x"
      using heap_okD [OF assms(1), of x] ok assms(2) by (cases "x = a") (auto simp: data_ok_def not_in_iff)
  next
    show "set (free_addrs (?kept fs)) = {x \<in> dom (bh_cells (?kept fs)). x \<notin># R}"
      using free(2) na fs assms(2) by (auto simp: free_addrs_def)
  qed (use free na heap_ok_free [OF assms(1)] fs in \<open>auto simp: free_addrs_def\<close>)
  have same: "\<forall>x \<in># R. bh_cells ?gone x = bh_cells h x" "\<forall>x \<in># R. bh_cells (?kept fs) x = bh_cells h x" for fs
    using assms(2) by auto
  have "drop_ref a h = Some ?gone \<or> (\<exists>fs. bh_freeList h = Initialized fs \<and> drop_ref a h = Some (?kept fs))"
    using d cnt fl
    by (cases "bh_freeList h") (auto simp: drop_ref_def upd_data_def buf_Recycle_def buf_Deallocate_def Let_def)
  then show ?thesis
  proof
    assume "drop_ref a h = Some ?gone"
    with gone same show ?thesis by (intro exI [of _ ?gone]) simp
  next
    assume "\<exists>fs. bh_freeList h = Initialized fs \<and> drop_ref a h = Some (?kept fs)"
    then obtain fs where "bh_freeList h = Initialized fs" "drop_ref a h = Some (?kept fs)" by blast
    with kept same show ?thesis by (intro exI [of _ "?kept fs"]) simp
  qed
qed

lemma heap_ok_count:
  assumes "heap_ok R h" "bh_cells h a = Some d" "a \<in># R'" "\<And>x. x \<noteq> a \<Longrightarrow> count R' x = count R x"
    "a \<in># R" "h' = h\<lparr>bh_cells := (bh_cells h)(a \<mapsto> d\<lparr>bd_count := count R' a\<rparr>)\<rparr>"
  shows "heap_ok R' h'"
proof -
  have set: "set_mset R' = set_mset R" using assms(3-5) by (metis (no_types, lifting) count_eq_zero_iff set_eqI)
  show ?thesis
  proof (rule heap_okI)
    fix x d'
    assume "bh_cells h' x = Some d'"
    then show "0 < x \<and> x < bh_brk h' \<and> data_ok d' \<and> bd_count d' = count R' x"
      using heap_okD [OF assms(1), of x] assms(2,4,6) by (cases "x = a") (auto simp: data_ok_def)
  next
    show "set (free_addrs h') = {x \<in> dom (bh_cells h'). x \<notin># R'}"
      using heap_ok_free(1) [OF assms(1)] assms(2,6) by (auto simp: free_addrs_def set)
  qed (use heap_ok_free [OF assms(1)] assms(2,6) set in \<open>auto simp: free_addrs_def\<close>)
qed

lemma heap_ok_drop_ref:
  assumes "heap_ok (add_mset a R) h"
  shows "\<exists>h'. drop_ref a h = Some h' \<and> heap_ok R h' \<and> (\<forall>x \<in># R. dat h' x = dat h x)
    \<and> bh_recommendedStart h' = bh_recommendedStart h"
proof (cases "a \<in># R")
  case True
  obtain d where d: "bh_cells h a = Some d" using heap_ok_cell [OF assms, of a] by auto
  have cnt: "bd_count d = Suc (count R a)" using heap_okD [OF assms d] by simp
  let ?h = "h\<lparr>bh_cells := (bh_cells h)(a \<mapsto> d\<lparr>bd_count := count R a\<rparr>)\<rparr>"
  obtain n where "count R a = Suc n" using True not0_implies_Suc [of "count R a"] by auto
  then have "drop_ref a h = Some ?h" using d cnt by (simp add: drop_ref_def upd_data_def)
  moreover have "heap_ok R ?h"
    by (rule heap_ok_count [OF assms d True]) (use True in auto)
  moreover have "\<forall>x \<in># R. dat ?h x = dat h x" using d by (simp add: dat_def)
  ultimately show ?thesis by (intro exI [of _ ?h]) simp
next
  case False
  from heap_ok_drop_last [OF assms this] show ?thesis by (auto simp: dat_def)
qed

lemma heap_ok_add_ref:
  assumes "heap_ok R h" "a \<in># R"
  shows "\<exists>h'. add_ref a h = Some h' \<and> heap_ok (add_mset a R) h' \<and> dat h' = dat h
    \<and> bh_recommendedStart h' = bh_recommendedStart h"
proof -
  obtain d where d: "bh_cells h a = Some d" "bd_count d = count R a"
    using heap_ok_cell [OF assms] by auto
  let ?h = "h\<lparr>bh_cells := (bh_cells h)(a \<mapsto> d\<lparr>bd_count := count (add_mset a R) a\<rparr>)\<rparr>"
  have "add_ref a h = Some ?h" using d by (simp add: add_ref_def upd_data_def)
  moreover have "heap_ok (add_mset a R) ?h"
    by (rule heap_ok_count [OF assms(1) d(1)]) (use assms(2) in auto)
  moreover have "dat ?h = dat h" using d by (auto simp: dat_def)
  ultimately show ?thesis by (intro exI [of _ ?h]) simp
qed

lemma heap_ok_recommend [simp]:
  "heap_ok R (recommend b h) = heap_ok R h" "dat (recommend b h) = dat h"
  "heap_ok R (h\<lparr>bh_recommendedStart := n\<rparr>) = heap_ok R h"
  by (auto simp: heap_ok_def free_addrs_def recommend_def dat_def)

end
