(* ===== verification/BufferWindows.thy ===== *)
theory BufferWindows
  imports ByteBuffer
begin

text \<open>
  What the operations of \<open>Buffer\<close> do to the bytes of all buffers. The invariant \<open>bufs_ok\<close> says of a
  heap and the multiset of all live buffers that the reference counts are right, that every window
  lies in the dirty area of its data, and that a buffer that may grow in place at its end has no
  bytes of others behind it. Every operation keeps it, changes the contents of its own buffer as
  it promises, and leaves the contents of all other buffers alone, as long as no buffer is longer than
  \<open>size_limit\<close> bytes.
\<close>

section \<open>Windows\<close>

definition iend :: "byte_buffer \<Rightarrow> nat" where
  "iend b = bb_end b - (bb_zeroAreaEnd b - bb_zeroAreaStart b)"

definition window_ok :: "buf_data \<Rightarrow> byte_buffer \<Rightarrow> bool" where
  "window_ok d b \<longleftrightarrow> bb_start b \<le> bb_zeroAreaStart b \<and> bb_zeroAreaStart b \<le> bb_zeroAreaEnd b
     \<and> bb_zeroAreaEnd b \<le> bb_end b \<and> bd_dirtyStart d \<le> bb_start b \<and> bb_end b \<le> bd_dirtyEnd d
     \<and> iend b \<le> bd_size d \<and> bb_end b - bb_start b \<le> size_limit"

text \<open>A buffer that ends where the dirty area does has no bytes of others behind it, although the two
  ends are virtual positions and zero areas of buffers with the same data can differ.\<close>

definition windows_ok :: "buf_heap \<Rightarrow> byte_buffer multiset \<Rightarrow> bool" where
  "windows_ok h B \<longleftrightarrow>
     (\<forall>b \<in># B. \<exists>d. dat h (bb_data b) = Some d \<and> window_ok d b)
   \<and> (\<forall>b \<in># B. \<forall>c \<in># B. \<forall>d. dat h (bb_data b) = Some d \<longrightarrow> bb_data c = bb_data b \<longrightarrow>
        bb_end b = bd_dirtyEnd d \<longrightarrow> iend c \<le> iend b)"

abbreviation refs :: "byte_buffer multiset \<Rightarrow> addr multiset" where
  "refs B \<equiv> image_mset bb_data B"

definition bufs_ok :: "buf_heap \<Rightarrow> byte_buffer multiset \<Rightarrow> bool" where
  "bufs_ok h B \<longleftrightarrow> heap_ok (refs B) h \<and> windows_ok h B"

definition contents_in :: "u8 list \<Rightarrow> byte_buffer \<Rightarrow> u8 list" where
  "contents_in m b = seg m (bb_start b) (bb_zeroAreaStart b)
     @ replicate (bb_zeroAreaEnd b - bb_zeroAreaStart b) 0 @ seg m (bb_zeroAreaStart b) (iend b)"

definition contents :: "buf_heap \<Rightarrow> byte_buffer \<Rightarrow> u8 list" where
  "contents h b = (case dat h (bb_data b) of None \<Rightarrow> [] | Some d \<Rightarrow> contents_in (bd_bytes d) b)"

definition shared_ok :: "buf_data \<Rightarrow> byte_buffer \<Rightarrow> byte_buffer multiset \<Rightarrow> bool" where
  "shared_ok d b B \<longleftrightarrow> (\<forall>c \<in># B. bb_data c = bb_data b \<longrightarrow> window_ok d c
     \<and> (bb_end b = bd_dirtyEnd d \<longrightarrow> iend c \<le> iend b) \<and> (bb_end c = bd_dirtyEnd d \<longrightarrow> iend b \<le> iend c)
     \<and> (bb_end c = bd_dirtyEnd d \<longrightarrow> (\<forall>e \<in># B. bb_data e = bb_data b \<longrightarrow> iend e \<le> iend c)))"

lemma bufs_okD:
  assumes "bufs_ok h (add_mset b B)"
  obtains d where "bh_cells h (bb_data b) = Some d" "data_ok d" "window_ok d b"
    "dat h (bb_data b) = Some (d\<lparr>bd_count := 0\<rparr>)" "shared_ok d b B"
proof -
  have heap: "heap_ok (refs (add_mset b B)) h" and win: "windows_ok h (add_mset b B)"
    using assms by (simp_all add: bufs_ok_def)
  obtain d where d: "bh_cells h (bb_data b) = Some d" "data_ok d"
    using heap_ok_cell [OF heap, of "bb_data b"] by auto
  then have dat: "dat h (bb_data b) = Some (d\<lparr>bd_count := 0\<rparr>)" by (simp add: dat_def)
  have w0: "window_ok (d\<lparr>bd_count := 0\<rparr>) c = window_ok d c" for c by (simp add: window_ok_def)
  show ?thesis
    by (rule that [of d]) (use win dat d w0 in \<open>auto simp: windows_ok_def shared_ok_def\<close>)
qed

lemma windows_ok_step:
  assumes win: "windows_ok h (add_mset b B)"
    and same: "\<And>c. c \<in># B \<Longrightarrow> bb_data c \<noteq> a \<Longrightarrow> dat h' (bb_data c) = dat h (bb_data c)"
    and a: "dat h' a = Some d'" "bb_data b' = a" "window_ok d' b'"
    and others: "\<And>c. c \<in># B \<Longrightarrow> bb_data c = a \<Longrightarrow> window_ok d' c"
      "\<And>c. c \<in># B \<Longrightarrow> bb_data c = a \<Longrightarrow> bb_end b' = bd_dirtyEnd d' \<Longrightarrow> iend c \<le> iend b'"
      "\<And>c. c \<in># B \<Longrightarrow> bb_data c = a \<Longrightarrow> bb_end c = bd_dirtyEnd d' \<Longrightarrow> iend b' \<le> iend c"
      "\<And>c c'. c \<in># B \<Longrightarrow> bb_data c = a \<Longrightarrow> bb_end c = bd_dirtyEnd d' \<Longrightarrow> c' \<in># B \<Longrightarrow> bb_data c' = a \<Longrightarrow>
         iend c' \<le> iend c"
  shows "windows_ok h' (add_mset b' B)"
proof -
  have w: "\<exists>d. dat h' (bb_data c) = Some d \<and> window_ok d c" if c: "c \<in># B" for c
    using win same [OF c] others(1) [OF c] a(1) c by (cases "bb_data c = a") (auto simp: windows_ok_def)
  have top: "iend e \<le> iend c"
    if ce: "c \<in># add_mset b' B" "e \<in># add_mset b' B" and d: "dat h' (bb_data c) = Some d"
      "bb_data e = bb_data c" "bb_end c = bd_dirtyEnd d" for c e d
  proof (cases "bb_data c = a")
    case True
    then have "d = d'" using a(1) d(1) by simp
    then show ?thesis using ce d True a(2) others by auto
  next
    case False
    then have "c \<in># B" "e \<in># B" using ce d(2) a(2) by auto
    then show ?thesis using win same [of c] d False unfolding windows_ok_def by auto
  qed
  show ?thesis unfolding windows_ok_def using w top a by auto
qed

lemma window_okD:
  "window_ok d b \<Longrightarrow> bb_start b \<le> bb_zeroAreaStart b" "window_ok d b \<Longrightarrow> bb_zeroAreaStart b \<le> bb_zeroAreaEnd b"
  "window_ok d b \<Longrightarrow> bb_zeroAreaEnd b \<le> bb_end b" "window_ok d b \<Longrightarrow> bd_dirtyStart d \<le> bb_start b"
  "window_ok d b \<Longrightarrow> bb_end b \<le> bd_dirtyEnd d" "window_ok d b \<Longrightarrow> iend b \<le> bd_size d"
  "window_ok d b \<Longrightarrow> bb_end b - bb_start b \<le> size_limit"
  by (auto simp: window_ok_def)

text \<open>Positions of a window do not wrap around.\<close>

lemma window_bounds:
  assumes "window_ok d b" "data_ok d"
  shows "bb_start b \<le> iend b" "iend b \<le> size_limit + 101" "bb_end b \<le> 2 * size_limit + 101"
    "buf_GetSize b = bb_end b - bb_start b" "GetInternalSize b = iend b - bb_start b" "GetInternalEnd b = iend b"
    "iend b - bb_start b \<le> bb_end b - bb_start b" "bb_zeroAreaStart b \<le> iend b"
proof -
  note w = assms [unfolded window_ok_def data_ok_def iend_def]
  show 1: "bb_start b \<le> iend b" "iend b \<le> size_limit + 101" "bb_zeroAreaStart b \<le> iend b"
    "iend b - bb_start b \<le> bb_end b - bb_start b"
    using w by (auto simp: iend_def)
  then show e: "bb_end b \<le> 2 * size_limit + 101" using w by linarith
  then show "buf_GetSize b = bb_end b - bb_start b" using w by (simp add: buf_GetSize_def)
  from e have e: "bb_end b < 2 ^ 32" and e2: "bb_end b + size_limit < 2 ^ 32" by simp_all
  have z: "sub32 (bb_zeroAreaEnd b) (bb_zeroAreaStart b) = bb_zeroAreaEnd b - bb_zeroAreaStart b"
    using w e by (intro sub32_le) linarith+
  show "GetInternalEnd b = iend b"
    unfolding GetInternalEnd_def z iend_def using w e by (intro sub32_le) linarith+
  have x: "add32 (bb_zeroAreaStart b - bb_start b) (bb_end b) = bb_zeroAreaStart b - bb_start b + bb_end b"
    using w e2 by (intro add32_small) linarith
  have y: "sub32 (bb_zeroAreaStart b) (bb_start b) = bb_zeroAreaStart b - bb_start b"
    using w e by (intro sub32_le) linarith+
  have "GetInternalSize b = (bb_zeroAreaStart b - bb_start b + bb_end b) - bb_zeroAreaEnd b"
    unfolding GetInternalSize_def x y using w e2 by (intro sub32_le) linarith+
  then show "GetInternalSize b = iend b - bb_start b" using w by (simp add: iend_def)
qed

lemma length_contents_in:
  assumes "window_ok d b" "data_ok d"
  shows "length (contents_in (bd_bytes d) b) = bb_end b - bb_start b"
  using assms window_bounds(1,8) [OF assms] by (auto simp: contents_in_def window_ok_def data_ok_def iend_def)

lemma contents_eq: "dat h (bb_data b) = Some d \<Longrightarrow> contents h b = contents_in (bd_bytes d) b"
  by (simp add: contents_def)

lemma contents_cong: "dat h' (bb_data b) = dat h (bb_data b) \<Longrightarrow> contents h' b = contents h b"
  by (simp add: contents_def)

lemma bufs_ok_size:
  assumes "bufs_ok h (add_mset b B)"
  shows "length (contents h b) = buf_GetSize b" "buf_GetSize b = bb_end b - bb_start b"
    "buf_GetSize b \<le> size_limit"
proof -
  from assms obtain d where d: "data_ok d" "window_ok d b" "dat h (bb_data b) = Some (d\<lparr>bd_count := 0\<rparr>)"
    by (rule bufs_okD) blast
  show "buf_GetSize b = bb_end b - bb_start b" using window_bounds(4) d by simp
  then show "length (contents h b) = buf_GetSize b" "buf_GetSize b \<le> size_limit"
    using d length_contents_in [OF d(2,1)] by (simp_all add: contents_eq window_ok_def)
qed

lemma note_zero_start_simps [simp]:
  "bb_data (note_zero_start b) = bb_data b" "bb_start (note_zero_start b) = bb_start b"
  "bb_end (note_zero_start b) = bb_end b" "bb_zeroAreaStart (note_zero_start b) = bb_zeroAreaStart b"
  "bb_zeroAreaEnd (note_zero_start b) = bb_zeroAreaEnd b" "iend (note_zero_start b) = iend b"
  "window_ok d (note_zero_start b) = window_ok d b" "contents h (note_zero_start b) = contents h b"
  "contents_in m (note_zero_start b) = contents_in m b"
  by (simp_all add: note_zero_start_def iend_def window_ok_def contents_def contents_in_def split: option.splits)

section \<open>Growing\<close>

lemma mem_read_seg: "bh_cells h a = Some d \<Longrightarrow> i + n \<le> length (bd_bytes d) \<Longrightarrow>
    mem_read a i n h = Some (seg (bd_bytes d) i (i + n))"
  by (simp add: mem_read_def seg_def)

lemma mem_write_put:
  assumes "heap_ok R h" "bh_cells h a = Some d" "i + length bs \<le> bd_size d"
  shows "\<exists>h'. mem_write a i bs h = Some h' \<and> heap_ok R h'
    \<and> bh_cells h' = (bh_cells h)(a \<mapsto> d\<lparr>bd_bytes := put_bytes i bs (bd_bytes d)\<rparr>)
    \<and> bh_recommendedStart h' = bh_recommendedStart h"
proof (cases "bs = []")
  case True
  then show ?thesis using assms(1,2) by (simp add: mem_write_def put_bytes_def fun_upd_idem)
next
  case False
  have d: "data_ok d" using heap_okD [OF assms(1,2)] by blast
  then have len: "i + length bs \<le> length (bd_bytes d)" using assms(3) by (simp add: data_ok_def)
  have "data_ok (d\<lparr>bd_bytes := put_bytes i bs (bd_bytes d)\<rparr>)" using d len by (simp add: data_ok_def)
  from heap_ok_upd [OF assms(1,2), of "\<lambda>d. d\<lparr>bd_bytes := put_bytes i bs (bd_bytes d)\<rparr>", simplified, OF this]
  obtain h' where "upd_data a (\<lambda>d. d\<lparr>bd_bytes := put_bytes i bs (bd_bytes d)\<rparr>) h = Some h'" "heap_ok R h'"
    "bh_cells h' = (bh_cells h)(a \<mapsto> d\<lparr>bd_bytes := put_bytes i bs (bd_bytes d)\<rparr>)"
    "bh_recommendedStart h' = bh_recommendedStart h"
    by auto
  moreover from this False len assms(2) have "mem_write a i bs h = Some h'" by (simp add: mem_write_def)
  ultimately show ?thesis by blast
qed

lemma move_buffer_ok:
  assumes ok: "bufs_ok h (add_mset b B)" and room: "newSize \<le> size_limit" "pos + (iend b - bb_start b) \<le> newSize"
  shows "\<exists>a h' d d'. move_buffer newSize pos b h =
      Some (b\<lparr>bb_data := a, bb_start := pos, bb_zeroAreaStart := pos + (bb_zeroAreaStart b - bb_start b),
              bb_zeroAreaEnd := pos + (bb_zeroAreaEnd b - bb_start b), bb_end := pos + (bb_end b - bb_start b)\<rparr>, h')
    \<and> heap_ok (add_mset a (refs B)) h' \<and> a \<notin># refs B \<and> (\<forall>x \<in># refs B. dat h' x = dat h x)
    \<and> bh_cells h' a = Some d' \<and> data_ok d' \<and> newSize \<le> bd_size d' \<and> dat h (bb_data b) = Some d
    \<and> seg (bd_bytes d') pos (pos + (iend b - bb_start b)) = seg (bd_bytes d) (bb_start b) (iend b)"
proof -
  from ok obtain d where d: "bh_cells h (bb_data b) = Some d" "data_ok d" "window_ok d b"
    "dat h (bb_data b) = Some (d\<lparr>bd_count := 0\<rparr>)" by (rule bufs_okD) blast
  note bnd = window_bounds [OF d(3,2)]
  have heap: "heap_ok (refs (add_mset b B)) h" using ok by (simp add: bufs_ok_def)
  let ?n = "iend b - bb_start b"
  obtain a h1 e where a: "buf_Create newSize h = Some (a, h1)" "heap_ok (add_mset a (refs (add_mset b B))) h1"
    "a \<notin># refs (add_mset b B)" "bh_cells h1 a = Some e" "newSize \<le> bd_size e"
    "\<forall>x \<in># refs (add_mset b B). bh_cells h1 x = bh_cells h x"
    using heap_ok_Create [OF heap room(1)] by blast
  let ?bs = "seg (bd_bytes d) (bb_start b) (iend b)"
  have src: "mem_read (bb_data b) (bb_start b) ?n h1 = Some ?bs"
    using mem_read_seg [of h1 "bb_data b" d "bb_start b" ?n] a(6) d bnd
    by (simp add: data_ok_def window_ok_def)
  have "iend b \<le> length (bd_bytes d)" using d by (simp add: data_ok_def window_ok_def)
  then have len: "length ?bs = ?n" by simp
  have e: "data_ok e" using heap_okD [OF a(2,4)] by blast
  let ?e = "e\<lparr>bd_bytes := put_bytes pos ?bs (bd_bytes e)\<rparr>"
  obtain h2 where h2: "mem_write a pos ?bs h1 = Some h2" "heap_ok (add_mset a (refs (add_mset b B))) h2"
    "bh_cells h2 = (bh_cells h1)(a \<mapsto> ?e)"
    using mem_write_put [OF a(2,4), of pos ?bs] room(2) a(5) len by auto
  have h2': "heap_ok (add_mset (bb_data b) (add_mset a (refs B))) h2" using h2(2) by (simp add: add_mset_commute)
  obtain h3 where h3: "drop_ref (bb_data b) h2 = Some h3" "heap_ok (add_mset a (refs B)) h3"
    "\<forall>x \<in># add_mset a (refs B). dat h3 x = dat h2 x"
    using heap_ok_drop_ref [OF h2'] by blast
  obtain e' where e': "bh_cells h3 a = Some e'" "data_ok e'"
    using heap_ok_cell [OF h3(2), of a] by auto
  have "dat h3 a = dat h2 a" using h3(3) by simp
  then have eq: "e'\<lparr>bd_count := 0\<rparr> = ?e\<lparr>bd_count := 0\<rparr>" using e'(1) h2(3) by (simp add: dat_def)
  have size: "bd_size e' = bd_size e" using arg_cong [OF eq, of bd_size] by simp
  have bytes: "bd_bytes e' = put_bytes pos ?bs (bd_bytes e)" using arg_cong [OF eq, of bd_bytes] by simp
  have "seg (bd_bytes e') (pos + 0) (pos + ?n) = seg ?bs 0 ?n"
    unfolding bytes using len room a(5) e by (intro seg_put_inside) (simp_all add: data_ok_def)
  then have cont: "seg (bd_bytes e') pos (pos + ?n) = ?bs" using seg_all [of ?bs] len by simp
  have "dat h3 x = dat h x" if "x \<in># refs B" for x
  proof -
    have "x \<noteq> a" using a(3) that by auto
    then have "bh_cells h2 x = bh_cells h1 x" using h2(3) by simp
    then show ?thesis using h3(3) a(6) that by (auto simp: dat_def)
  qed
  moreover have "move_buffer newSize pos b h =
      Some (b\<lparr>bb_data := a, bb_start := pos, bb_zeroAreaStart := pos + (bb_zeroAreaStart b - bb_start b),
              bb_zeroAreaEnd := pos + (bb_zeroAreaEnd b - bb_start b), bb_end := pos + (bb_end b - bb_start b)\<rparr>, h3)"
  proof -
    have w: "bb_start b \<le> bb_zeroAreaStart b" "bb_zeroAreaStart b \<le> bb_zeroAreaEnd b" "bb_zeroAreaEnd b \<le> bb_end b"
      "bb_end b - bb_start b \<le> size_limit" using d(3) by (simp_all add: window_ok_def)
    have sh: "add32 x (sub32 pos (bb_start b)) = pos + (x - bb_start b)" if "bb_start b \<le> x" "x \<le> bb_end b" for x
      using that w(4) bnd(3) room by (intro shift32) simp_all
    show ?thesis using a(1) src h2(1) h3(1) w sh [of "bb_start b"] sh [of "bb_zeroAreaStart b"]
        sh [of "bb_zeroAreaEnd b"] sh [of "bb_end b"] bnd(5)
      by (simp add: move_buffer_def)
  qed
  ultimately show ?thesis
    using h3(2) a(3,5) e' size cont d(4)
    by (intro exI [of _ a] exI [of _ h3] exI [of _ "d\<lparr>bd_count := 0\<rparr>"] exI [of _ e']) simp
qed

definition zero_size :: "byte_buffer \<Rightarrow> nat" where
  "zero_size b = bb_zeroAreaEnd b - bb_zeroAreaStart b"

lemma zero_size_note [simp]: "zero_size (note_zero_start b) = zero_size b"
  by (simp add: zero_size_def)

definition positions_ok :: "nat \<Rightarrow> byte_buffer \<Rightarrow> bool" where
  "positions_ok sz b \<longleftrightarrow> bb_start b \<le> bb_zeroAreaStart b \<and> bb_zeroAreaStart b \<le> bb_zeroAreaEnd b
     \<and> bb_zeroAreaEnd b \<le> bb_end b \<and> iend b \<le> sz \<and> bb_end b - bb_start b \<le> size_limit"

text \<open>A buffer alone on its data, with the dirty area set to its window.\<close>

lemma set_dirty_ok:
  assumes heap: "heap_ok (add_mset a (refs B)) h1" and a: "a \<notin># refs B" "bh_cells h1 a = Some d" "bb_data b = a"
    and old: "windows_ok h (add_mset b0 B)" "\<forall>x \<in># refs B. dat h1 x = dat h x"
    and pos: "positions_ok (bd_size d) b"
  shows "\<exists>h2. set_dirty b h1 = Some h2 \<and> bufs_ok h2 (add_mset b B) \<and> (\<forall>c \<in># B. contents h2 c = contents h c)
    \<and> contents h2 b = contents_in (bd_bytes d) b \<and> (\<forall>c \<in># B. bb_data c \<noteq> bb_data b)"
proof -
  let ?d = "d\<lparr>bd_dirtyStart := bb_start b, bd_dirtyEnd := bb_end b\<rparr>"
  have "data_ok ?d" using heap_okD [OF heap a(2)] by (simp add: data_ok_def)
  from heap_ok_upd [OF heap a(2), of "\<lambda>d. d\<lparr>bd_dirtyStart := bb_start b, bd_dirtyEnd := bb_end b\<rparr>", simplified, OF this]
  obtain h2 where h2: "set_dirty b h1 = Some h2" "heap_ok (add_mset a (refs B)) h2"
    "bh_cells h2 = (bh_cells h1)(a \<mapsto> ?d)"
    using a(3) by (auto simp: set_dirty_def)
  have other: "dat h2 (bb_data c) = dat h (bb_data c)" "bb_data c \<noteq> a" if "c \<in># B" for c
    using that a(1) old(2) h2(3) by (auto simp: dat_def)
  have dat: "dat h2 a = Some (?d\<lparr>bd_count := 0\<rparr>)" using h2(3) by (simp add: dat_def)
  have "windows_ok h2 (add_mset b B)"
    by (rule windows_ok_step [OF old(1) _ dat a(3)])
      (use other pos in \<open>auto simp: window_ok_def positions_ok_def\<close>)
  then have "bufs_ok h2 (add_mset b B)" using h2(2) a(3) by (simp add: bufs_ok_def)
  then show ?thesis using h2(1) other dat a(3)
    by (intro exI [of _ h2]) (auto simp: contents_def)
qed

lemma bufs_ok_note [simp]: "bufs_ok h (add_mset (note_zero_start b) B) = bufs_ok h (add_mset b B)"
  by (simp add: bufs_ok_def windows_ok_def)

text \<open>Changing the data of a buffer in place, without its size and its count.\<close>

lemma in_place_ok:
  assumes ok: "bufs_ok h (add_mset b B)" and d: "bh_cells h (bb_data b) = Some d"
    and f: "bd_count (f d) = bd_count d" "bd_size (f d) = bd_size d" "bd_bytes (f d) = bd_bytes d"
    and b': "bb_data b' = bb_data b" "window_ok (f d) b'"
    and others: "\<And>c. c \<in># B \<Longrightarrow> bb_data c = bb_data b \<Longrightarrow> window_ok (f d) c"
      "\<And>c. c \<in># B \<Longrightarrow> bb_data c = bb_data b \<Longrightarrow> bb_end b' = bd_dirtyEnd (f d) \<Longrightarrow> iend c \<le> iend b'"
      "\<And>c. c \<in># B \<Longrightarrow> bb_data c = bb_data b \<Longrightarrow> bb_end c = bd_dirtyEnd (f d) \<Longrightarrow> iend b' \<le> iend c"
      "\<And>c c'. c \<in># B \<Longrightarrow> bb_data c = bb_data b \<Longrightarrow> bb_end c = bd_dirtyEnd (f d) \<Longrightarrow> c' \<in># B \<Longrightarrow>
         bb_data c' = bb_data b \<Longrightarrow> iend c' \<le> iend c"
  shows "\<exists>h'. upd_data (bb_data b) f h = Some h' \<and> bufs_ok h' (add_mset b' B)
    \<and> (\<forall>c \<in># B. contents h' c = contents h c) \<and> contents h' b' = contents_in (bd_bytes d) b'"
proof -
  have heap: "heap_ok (refs (add_mset b B)) h" and win: "windows_ok h (add_mset b B)"
    using ok by (simp_all add: bufs_ok_def)
  have "data_ok (f d)" using heap_okD [OF heap d] f by (simp add: data_ok_def)
  from heap_ok_upd [of _ h _ d f, OF heap d f(1) this]
  obtain h' where h': "upd_data (bb_data b) f h = Some h'" "heap_ok (refs (add_mset b B)) h'"
    "bh_cells h' = (bh_cells h)(bb_data b \<mapsto> f d)" by blast
  have dat: "dat h' (bb_data b) = Some ((f d)\<lparr>bd_count := 0\<rparr>)" using h'(3) by (simp add: dat_def)
  have old: "dat h (bb_data b) = Some (d\<lparr>bd_count := 0\<rparr>)" using d by (simp add: dat_def)
  have w0: "window_ok (e\<lparr>bd_count := 0\<rparr>) c = window_ok e c" for e c by (simp add: window_ok_def)
  have "windows_ok h' (add_mset b' B)"
    by (rule windows_ok_step [OF win _ dat b'(1)])
      (use h'(3) b'(2) others in \<open>auto simp: w0 dat_def\<close>)
  moreover have "contents h' c = contents h c" if "c \<in># B" for c
    using that h'(3) f(3) d by (cases "bb_data c = bb_data b") (auto simp: contents_def dat_def)
  ultimately show ?thesis using h'(1,2) dat b'(1) f(3)
    by (intro exI [of _ h']) (auto simp: bufs_ok_def contents_def)
qed

lemma AddAtStart_ok:
  assumes ok: "bufs_ok h (add_mset b B)" and room: "buf_GetSize b + n \<le> size_limit"
  shows "\<exists>b' h' junk. buf_AddAtStart n b h = Some (b', h') \<and> bufs_ok h' (add_mset b' B)
    \<and> (\<forall>c \<in># B. contents h' c = contents h c) \<and> length junk = n \<and> contents h' b' = junk @ contents h b
    \<and> bb_start b' + n \<le> bb_zeroAreaStart b'
    \<and> (\<forall>c \<in># B. bb_data c = bb_data b' \<longrightarrow> bb_start b' + n \<le> bb_start c)
    \<and> zero_size b' = zero_size b \<and> (bb_data b' = bb_data b \<or> (\<forall>c \<in># B. bb_data c \<noteq> bb_data b'))"
proof -
  from ok obtain d where d: "bh_cells h (bb_data b) = Some d" "data_ok d" "window_ok d b"
    and dat: "dat h (bb_data b) = Some (d\<lparr>bd_count := 0\<rparr>)"
    and shared: "shared_ok d b B"
    by (rule bufs_okD)
  note win = shared [unfolded shared_ok_def, rule_format, THEN conjunct1]
  note bnd = window_bounds [OF d(3,2)]
  note w = window_okD [OF d(3)]
  have old: "contents h b = contents_in (bd_bytes d) b" using dat by (simp add: contents_eq)
  let ?dirty = "bd_count d > 1 \<and> bb_start b > bd_dirtyStart d"
  show ?thesis
  proof (cases "bb_start b \<ge> n \<and> \<not> ?dirty")
    case True
    let ?b = "b\<lparr>bb_start := bb_start b - n\<rparr>"
    have alone: "bb_data c \<noteq> bb_data b" if "c \<in># B" "bd_count d = 1" for c
      using heap_ok_sole [of "bb_data b" "refs B" h d] ok d(1) that by (auto simp: bufs_ok_def image_iff dest: sym)
    have cnt: "bd_count d \<noteq> 0" using heap_okD [of "refs (add_mset b B)" h "bb_data b" d] ok d(1)
      by (simp add: bufs_ok_def)
    have start: "bb_start b \<le> bb_start c" if "c \<in># B" "bb_data c = bb_data b" for c
      using alone [OF that(1)] win [OF that] True cnt that(2) by (cases "bd_count d = 1") (auto simp: window_ok_def)
    have io: "iend ?b = iend b" by (simp add: iend_def)
    have size: "bb_end b - (bb_start b - n) \<le> size_limit" using room bnd(4) True w by simp
    obtain h' where h': "upd_data (bb_data b) (\<lambda>d. d\<lparr>bd_dirtyStart := bb_start b - n\<rparr>) h = Some h'"
      "bufs_ok h' (add_mset ?b B)" "\<forall>c \<in># B. contents h' c = contents h c"
      "contents h' ?b = contents_in (bd_bytes d) ?b"
    proof -
      have "window_ok (d\<lparr>bd_dirtyStart := bb_start b - n\<rparr>) ?b"
        using w io size by (auto simp: window_ok_def)
      moreover have "window_ok (d\<lparr>bd_dirtyStart := bb_start b - n\<rparr>) c" if "c \<in># B" "bb_data c = bb_data b" for c
        using win [OF that] start [OF that] by (simp add: window_ok_def)
      ultimately have "\<exists>h'. upd_data (bb_data b) (\<lambda>d. d\<lparr>bd_dirtyStart := bb_start b - n\<rparr>) h = Some h'
          \<and> bufs_ok h' (add_mset ?b B) \<and> (\<forall>c \<in># B. contents h' c = contents h c)
          \<and> contents h' ?b = contents_in (bd_bytes d) ?b"
        using shared by (intro in_place_ok [OF ok d(1)]) (auto simp: io shared_ok_def)
      then show ?thesis using that by blast
    qed
    let ?junk = "seg (bd_bytes d) (bb_start b - n) (bb_start b)"
    have "bb_start b \<le> length (bd_bytes d)" using d(2) bnd(1) w by (auto simp: data_ok_def)
    then have len: "length ?junk = n" using True by simp
    have new: "contents h' ?b = ?junk @ contents h b"
      using h'(4) old w seg_split [of "bb_start b - n" "bb_start b" "bb_zeroAreaStart b" "bd_bytes d"] io
      by (simp add: contents_in_def)
    have "buf_AddAtStart n b h = Some (note_zero_start ?b, h')"
      using d(1) True cnt h'(1) w bnd(3) unfolding buf_AddAtStart_def by auto
    moreover have "zero_size ?b = zero_size b" by (simp add: zero_size_def)
    ultimately show ?thesis using h' len new start True w
      by (intro exI [of _ "note_zero_start ?b"] exI [of _ h'] exI [of _ ?junk]) auto
  next
    case False
    let ?n = "iend b - bb_start b"
    have win0: "windows_ok h (add_mset b B)" using ok by (simp add: bufs_ok_def)
    have newSize: "add32 (GetInternalSize b) n = ?n + n" using bnd(4,5,7) room by simp
    from move_buffer_ok [OF ok, of "?n + n" n] bnd(4,7) room
    obtain a h1 d' where mv: "move_buffer (?n + n) n b h =
      Some (b\<lparr>bb_data := a, bb_start := n, bb_zeroAreaStart := n + (bb_zeroAreaStart b - bb_start b),
              bb_zeroAreaEnd := n + (bb_zeroAreaEnd b - bb_start b), bb_end := n + (bb_end b - bb_start b)\<rparr>, h1)"
      (is "_ = Some (?b1, h1)")
      and h1: "heap_ok (add_mset a (refs B)) h1" "a \<notin># refs B" "\<forall>x \<in># refs B. dat h1 x = dat h x"
      "bh_cells h1 a = Some d'" "data_ok d'" "?n + n \<le> bd_size d'"
      "seg (bd_bytes d') n (n + ?n) = seg (bd_bytes d) (bb_start b) (iend b)"
      using dat by auto
    let ?b = "?b1\<lparr>bb_start := 0\<rparr>"
    have io: "iend ?b = n + ?n" using w by (simp add: iend_def)
    have pos: "positions_ok (bd_size d') ?b"
      using w h1(6) io room bnd(4) by (auto simp: positions_ok_def intro: diff_le_mono)
    obtain h2 where h2: "set_dirty ?b h1 = Some h2" "bufs_ok h2 (add_mset ?b B)"
      "\<forall>c \<in># B. contents h2 c = contents h c" "contents h2 ?b = contents_in (bd_bytes d') ?b"
      "\<forall>c \<in># B. bb_data c \<noteq> bb_data ?b"
      using set_dirty_ok [OF h1(1,2,4) _ win0 h1(3) pos] by auto
    let ?z = "bb_zeroAreaStart b - bb_start b"
    have split: "seg (bd_bytes d') n (n + ?z) = seg (bd_bytes d) (bb_start b) (bb_zeroAreaStart b)"
      "seg (bd_bytes d') (n + ?z) (n + ?n) = seg (bd_bytes d) (bb_zeroAreaStart b) (iend b)"
      using seg_sub [of "bd_bytes d'" n ?n "bd_bytes d" "bb_start b" ?z] h1(7) bnd(1,8) w by simp_all
    let ?junk = "seg (bd_bytes d') 0 n"
    have len: "length ?junk = n" using h1(5,6) by (simp add: data_ok_def)
    have "contents_in (bd_bytes d') ?b = ?junk @ contents_in (bd_bytes d) b"
      using io w seg_split [of 0 n "n + ?z" "bd_bytes d'"] split by (simp add: contents_in_def)
    then have new: "contents h2 ?b = ?junk @ contents h b" using h2(4) old by simp
    have "sub32 n n = 0" using room by simp
    then have "buf_AddAtStart n b h = Some (note_zero_start ?b, h2)"
      using d(1) False mv newSize h2(1) unfolding buf_AddAtStart_def by (auto simp: Let_def)
    moreover have "zero_size ?b = zero_size b" using w(1,2) by (simp add: zero_size_def)
    ultimately show ?thesis using h2 len new
      by (intro exI [of _ "note_zero_start ?b"] exI [of _ h2] exI [of _ ?junk]) auto
  qed
qed

lemma AddAtEnd_ok:
  assumes ok: "bufs_ok h (add_mset b B)" and room: "buf_GetSize b + n \<le> size_limit"
  shows "\<exists>b' h' junk. buf_AddAtEnd n b h = Some (b', h') \<and> bufs_ok h' (add_mset b' B)
    \<and> (\<forall>c \<in># B. contents h' c = contents h c) \<and> length junk = n \<and> contents h' b' = contents h b @ junk
    \<and> bb_zeroAreaEnd b' + n \<le> bb_end b'
    \<and> (\<forall>c \<in># B. bb_data c = bb_data b' \<longrightarrow> iend c + n \<le> iend b')
    \<and> zero_size b' = zero_size b \<and> (bb_data b' = bb_data b \<or> (\<forall>c \<in># B. bb_data c \<noteq> bb_data b'))"
proof -
  from ok obtain d where d: "bh_cells h (bb_data b) = Some d" "data_ok d" "window_ok d b"
    and dat: "dat h (bb_data b) = Some (d\<lparr>bd_count := 0\<rparr>)"
    and shared: "shared_ok d b B"
    by (rule bufs_okD)
  note win = shared [unfolded shared_ok_def, rule_format, THEN conjunct1]
  note bnd = window_bounds [OF d(3,2)]
  note w = window_okD [OF d(3)]
  have old: "contents h b = contents_in (bd_bytes d) b" using dat by (simp add: contents_eq)
  have end32: "add32 (bb_end b) n = bb_end b + n" "add32 (GetInternalEnd b) n = iend b + n"
    using bnd(2,3,4,6) room by (auto intro: add32_small)
  let ?dirty = "bd_count d > 1 \<and> bb_end b < bd_dirtyEnd d"
  show ?thesis
  proof (cases "iend b + n \<le> bd_size d \<and> \<not> ?dirty")
    case True
    let ?b = "b\<lparr>bb_end := bb_end b + n\<rparr>" and ?f = "\<lambda>d. d\<lparr>bd_dirtyEnd := bb_end b + n\<rparr>"
    have cnt: "bd_count d \<noteq> 0" using heap_okD [of "refs (add_mset b B)" h "bb_data b" d] ok d(1)
      by (simp add: bufs_ok_def)
    have io: "iend ?b = iend b + n" using w by (simp add: iend_def)
    have top: "bb_end b = bd_dirtyEnd d" if "c \<in># B" "bb_data c = bb_data b" for c
      using heap_ok_sole [of "bb_data b" "refs B" h d] ok d(1) that True cnt w(5)
      by (cases "bd_count d = 1") (auto simp: bufs_ok_def image_iff dest: sym)
    have others: "window_ok (?f d) c" "iend c \<le> iend b"
        "bb_end c = bb_end b + n \<Longrightarrow> (\<forall>e \<in># B. bb_data e = bb_data b \<longrightarrow> iend e \<le> iend c) \<and> iend b + n \<le> iend c"
      if "c \<in># B" "bb_data c = bb_data b" for c
    proof -
      show "window_ok (?f d) c" using win [OF that] top [OF that] by (auto simp: window_ok_def)
      show "iend c \<le> iend b" using shared top [OF that] that by (simp add: shared_ok_def)
      assume e: "bb_end c = bb_end b + n"
      then have "n = 0" using window_okD(5) [OF win [OF that]] top [OF that] by simp
      then show "(\<forall>e \<in># B. bb_data e = bb_data b \<longrightarrow> iend e \<le> iend c) \<and> iend b + n \<le> iend c"
        using e shared that top [OF that] by (simp add: shared_ok_def)
    qed
    have size: "bb_end b + n - bb_start b \<le> size_limit" using room bnd(4) w by simp
    obtain h' where h': "upd_data (bb_data b) ?f h = Some h'" "bufs_ok h' (add_mset ?b B)"
      "\<forall>c \<in># B. contents h' c = contents h c" "contents h' ?b = contents_in (bd_bytes d) ?b"
    proof -
      have "window_ok (?f d) ?b" using w io size True by (auto simp: window_ok_def)
      then have "\<exists>h'. upd_data (bb_data b) ?f h = Some h' \<and> bufs_ok h' (add_mset ?b B)
          \<and> (\<forall>c \<in># B. contents h' c = contents h c) \<and> contents h' ?b = contents_in (bd_bytes d) ?b"
        using others by (intro in_place_ok [OF ok d(1)]) (auto simp: io intro: trans_le_add1)
      then show ?thesis using that by blast
    qed
    let ?junk = "seg (bd_bytes d) (iend b) (iend b + n)"
    have len: "length ?junk = n" using d(2) True by (auto simp: data_ok_def)
    have new: "contents h' ?b = contents h b @ ?junk"
      using h'(4) old bnd(8) seg_split [of "bb_zeroAreaStart b" "iend b" "iend b + n" "bd_bytes d"] io
      by (simp add: contents_in_def)
    have "buf_AddAtEnd n b h = Some (note_zero_start ?b, h')"
      using d(1) True cnt h'(1) w end32 unfolding buf_AddAtEnd_def by (auto simp: Let_def)
    moreover have "zero_size ?b = zero_size b" by (simp add: zero_size_def)
    ultimately show ?thesis using h' len new others(2) w io
      by (intro exI [of _ "note_zero_start ?b"] exI [of _ h'] exI [of _ ?junk]) auto
  next
    case False
    let ?n = "iend b - bb_start b"
    have win0: "windows_ok h (add_mset b B)" using ok by (simp add: bufs_ok_def)
    have newSize: "add32 (GetInternalSize b) n = ?n + n" using bnd(4,5,7) room by simp
    from move_buffer_ok [OF ok, of "?n + n" 0] bnd(4,7) room
    obtain a h1 d' where mv: "move_buffer (?n + n) 0 b h =
      Some (b\<lparr>bb_data := a, bb_start := 0, bb_zeroAreaStart := bb_zeroAreaStart b - bb_start b,
              bb_zeroAreaEnd := bb_zeroAreaEnd b - bb_start b, bb_end := bb_end b - bb_start b\<rparr>, h1)"
      (is "_ = Some (?b1, h1)")
      and h1: "heap_ok (add_mset a (refs B)) h1" "a \<notin># refs B" "\<forall>x \<in># refs B. dat h1 x = dat h x"
      "bh_cells h1 a = Some d'" "data_ok d'" "?n + n \<le> bd_size d'"
      "seg (bd_bytes d') 0 ?n = seg (bd_bytes d) (bb_start b) (iend b)"
      using dat by auto
    let ?b = "?b1\<lparr>bb_end := bb_end b - bb_start b + n\<rparr>"
    have io: "iend ?b = ?n + n" using w by (simp add: iend_def)
    have pos: "positions_ok (bd_size d') ?b"
      using w h1(6) io room bnd(4) by (auto simp: positions_ok_def intro: diff_le_mono trans_le_add1)
    obtain h2 where h2: "set_dirty ?b h1 = Some h2" "bufs_ok h2 (add_mset ?b B)"
      "\<forall>c \<in># B. contents h2 c = contents h c" "contents h2 ?b = contents_in (bd_bytes d') ?b"
      "\<forall>c \<in># B. bb_data c \<noteq> bb_data ?b"
      using set_dirty_ok [OF h1(1,2,4) _ win0 h1(3) pos] by auto
    let ?z = "bb_zeroAreaStart b - bb_start b"
    have split: "seg (bd_bytes d') 0 ?z = seg (bd_bytes d) (bb_start b) (bb_zeroAreaStart b)"
      "seg (bd_bytes d') ?z ?n = seg (bd_bytes d) (bb_zeroAreaStart b) (iend b)"
      using seg_sub [of "bd_bytes d'" 0 ?n "bd_bytes d" "bb_start b" ?z] h1(7) bnd(1,8) w by simp_all
    let ?junk = "seg (bd_bytes d') ?n (?n + n)"
    have len: "length ?junk = n" using h1(5,6) by (simp add: data_ok_def)
    have zn: "?z \<le> ?n" using bnd(8) by (rule diff_le_mono)
    have "contents_in (bd_bytes d') ?b = contents_in (bd_bytes d) b @ ?junk"
      using io w seg_split [OF zn, of "?n + n" "bd_bytes d'"] split by (simp add: contents_in_def)
    then have new: "contents h2 ?b = contents h b @ ?junk" using h2(4) old by simp
    have "add32 (bb_end b - bb_start b) n = bb_end b - bb_start b + n" using room bnd(4) by simp
    then have "buf_AddAtEnd n b h = Some (note_zero_start ?b, h2)"
      using d(1) False mv newSize h2(1) end32 unfolding buf_AddAtEnd_def by (auto simp: Let_def)
    moreover have "zero_size ?b = zero_size b" using w(1,2) by (simp add: zero_size_def)
    moreover have "bb_zeroAreaEnd ?b + n \<le> bb_end ?b" using w(3) by (simp add: diff_le_mono)
    ultimately show ?thesis using h2 len new
      by (intro exI [of _ "note_zero_start ?b"] exI [of _ h2] exI [of _ ?junk]) auto
  qed
qed

section \<open>Shrinking\<close>

lemma shrink_ok:
  assumes ok: "bufs_ok h (add_mset b B)" and data: "bb_data b' = bb_data b"
    and pos: "bb_start b' \<le> bb_zeroAreaStart b'" "bb_zeroAreaStart b' \<le> bb_zeroAreaEnd b'" "bb_zeroAreaEnd b' \<le> bb_end b'"
      "bb_start b \<le> bb_start b'" "bb_end b' \<le> bb_end b" "iend b' \<le> iend b" "bb_end b' = bb_end b \<Longrightarrow> iend b' = iend b"
  shows "bufs_ok h (add_mset b' B)"
proof -
  from ok obtain d where d: "data_ok d" "window_ok d b" "dat h (bb_data b) = Some (d\<lparr>bd_count := 0\<rparr>)"
    and shared: "shared_ok d b B" by (rule bufs_okD)
  have w0: "window_ok (d\<lparr>bd_count := 0\<rparr>) c = window_ok d c" for c by (simp add: window_ok_def)
  note w = window_okD [OF d(2)]
  have b': "window_ok d b'" using pos w by (auto simp: window_ok_def)
  have top: "iend c \<le> iend b'" if "c \<in># B" "bb_data c = bb_data b" "bb_end b' = bd_dirtyEnd d" for c
  proof -
    have "bb_end b' = bb_end b" using that(3) pos(5) w(5) by simp
    then show ?thesis using that shared pos(7) by (simp add: shared_ok_def)
  qed
  have "windows_ok h (add_mset b' B)"
  proof (rule windows_ok_step [of h b B "bb_data b"])
    fix c assume "c \<in># B" "bb_data c = bb_data b" "bb_end c = bd_dirtyEnd (d\<lparr>bd_count := 0\<rparr>)"
    then show "iend b' \<le> iend c" using shared pos(6) le_trans by (fastforce simp: shared_ok_def)
  qed (use ok d b' data top shared in \<open>auto simp: w0 shared_ok_def bufs_ok_def\<close>)
  then show ?thesis using ok data by (simp add: bufs_ok_def)
qed

lemma RemoveAtStart_ok:
  assumes ok: "bufs_ok h (add_mset b B)" and n: "n \<le> 2 ^ 31"
  shows "\<exists>b'. buf_RemoveAtStart n b = Some b' \<and> bufs_ok h (add_mset b' B) \<and> contents h b' = drop n (contents h b)
    \<and> bb_data b' = bb_data b"
proof -
  from ok obtain d where d: "data_ok d" "window_ok d b" "dat h (bb_data b) = Some (d\<lparr>bd_count := 0\<rparr>)"
    by (rule bufs_okD)
  note w = window_okD [OF d(2)] and bnd = window_bounds [OF d(2,1)]
  let ?s = "bb_start b" and ?zs = "bb_zeroAreaStart b" and ?ze = "bb_zeroAreaEnd b" and ?e = "bb_end b"
  let ?m = "bd_bytes d"
  have len: "iend b \<le> length ?m" using d(1) w(6) by (simp add: data_ok_def)
  have cont: "contents h b = contents_in ?m b" "contents h b' = contents_in ?m b'" if "bb_data b' = bb_data b" for b'
    using d(3) that by (simp_all add: contents_def)
  have lens: "length (seg ?m ?s ?zs) = ?zs - ?s" "length (seg ?m ?zs (iend b)) = iend b - ?zs"
    using len bnd(8) by simp_all
  have ns: "add32 ?s n = ?s + n" using bnd(1,2) n by (intro add32_small) simp
  have e32: "?e < 2 ^ 32" using bnd(3) by simp
  have io: "iend b = ?e - (?ze - ?zs)" by (simp add: iend_def)
  have zz: "sub32 ?ze ?zs = ?ze - ?zs" "sub32 ?e (?ze - ?zs) = iend b"
    using w e32 unfolding io by (auto intro!: sub32_le)
  consider "?s + n \<le> ?zs" | "?zs < ?s + n" "?s + n \<le> ?ze" | "?ze < ?s + n" "?s + n \<le> ?e" | "?e < ?s + n"
    by linarith
  then show ?thesis
  proof cases
    case 1
    let ?b = "b\<lparr>bb_start := ?s + n\<rparr>"
    have "buf_RemoveAtStart n b = Some (note_zero_start ?b)" using 1 ns by (simp add: buf_RemoveAtStart_def)
    moreover have "bufs_ok h (add_mset ?b B)"
      by (rule shrink_ok [OF ok]) (use 1 w in \<open>auto simp: iend_def\<close>)
    moreover have "contents h ?b = drop n (contents h b)"
      using 1 lens cont(1) [of ?b] cont(2) [of ?b] by (simp add: contents_in_def iend_def drop_seg)
    ultimately show ?thesis by (intro exI [of _ "note_zero_start ?b"]) simp
  next
    case 2
    let ?d = "?s + n - ?zs"
    let ?b = "b\<lparr>bb_start := ?zs, bb_zeroAreaEnd := ?ze - ?d, bb_end := ?e - ?d\<rparr>"
    have sub: "sub32 (?s + n) ?zs = ?d" "sub32 ?ze ?d = ?ze - ?d" "sub32 ?e ?d = ?e - ?d"
      using 2 w e32 by (auto intro!: sub32_le)
    have "buf_RemoveAtStart n b = Some (note_zero_start ?b)"
      using 2 ns sub by (simp add: buf_RemoveAtStart_def Let_def)
    moreover have io': "iend ?b = iend b" using 2 w by (simp add: iend_def)
    moreover have "bufs_ok h (add_mset ?b B)"
      by (rule shrink_ok [OF ok]) (use 2 w io' in auto)
    moreover have "contents h ?b = drop n (contents h b)"
    proof -
      have a: "n - (?zs - ?s) = ?d" "?zs - ?s \<le> n" "?d - (?ze - ?zs) = 0" "?ze - ?d - ?zs = ?ze - ?zs - ?d"
        using 2 w by simp_all
      have "contents h b = seg ?m ?s ?zs @ replicate (?ze - ?zs) 0 @ seg ?m ?zs (iend b)"
        using cont(1) by (simp add: contents_in_def)
      then have "drop n (contents h b) = replicate (?ze - ?zs - ?d) 0 @ seg ?m ?zs (iend b)"
        using lens(1) a(1-3)
        by (simp only: drop_append drop_all length_replicate append_Nil drop_replicate drop_0)
      then show ?thesis using a(4) cont(2) [of ?b] io' by (simp add: contents_in_def)
    qed
    ultimately show ?thesis by (intro exI [of _ "note_zero_start ?b"]) simp
  next
    case 3
    let ?p = "?s + n - (?ze - ?zs)"
    let ?b = "b\<lparr>bb_start := ?p, bb_end := iend b, bb_zeroAreaStart := ?p, bb_zeroAreaEnd := ?p\<rparr>"
    have "sub32 (?s + n) (?ze - ?zs) = ?p" using 3 w e32 by (auto intro!: sub32_le)
    then have "buf_RemoveAtStart n b = Some (note_zero_start ?b)"
      using 3 ns zz w by (simp add: buf_RemoveAtStart_def Let_def)
    moreover have io': "iend ?b = iend b" by (simp add: iend_def)
    moreover have "?p \<le> iend b" "?s \<le> ?p" using 3 w by (auto simp: io)
    moreover from this have "bufs_ok h (add_mset ?b B)"
      by (intro shrink_ok [OF ok]) (use io' in \<open>auto simp: io\<close>)
    moreover have "contents h ?b = drop n (contents h b)"
    proof -
      have a: "?zs - ?s \<le> n" "?ze - ?zs \<le> n - (?zs - ?s)" "?zs + (n - (?zs - ?s) - (?ze - ?zs)) = ?p"
        using 3 w by simp_all
      have "contents h b = seg ?m ?s ?zs @ replicate (?ze - ?zs) 0 @ seg ?m ?zs (iend b)"
        using cont(1) by (simp add: contents_in_def)
      then have "drop n (contents h b) = drop (n - (?zs - ?s) - (?ze - ?zs)) (seg ?m ?zs (iend b))"
        using lens(1) a(1,2) by (simp only: drop_append drop_all length_replicate append_Nil)
      then show ?thesis using a(3) cont(2) [of ?b] io' by (simp add: drop_seg contents_in_def)
    qed
    ultimately show ?thesis by (intro exI [of _ "note_zero_start ?b"]) simp
  next
    case 4
    let ?b = "b\<lparr>bb_end := iend b, bb_start := iend b, bb_zeroAreaEnd := iend b, bb_zeroAreaStart := iend b\<rparr>"
    have "buf_RemoveAtStart n b = Some (note_zero_start ?b)"
      using 4 ns zz w by (simp add: buf_RemoveAtStart_def Let_def)
    moreover have "bufs_ok h (add_mset ?b B)"
      by (rule shrink_ok [OF ok]) (use bnd(1) in \<open>auto simp: iend_def\<close>)
    moreover have "length (contents h b) \<le> n"
      using 4 bufs_ok_size(1,2) [OF ok] by simp
    moreover have "contents h ?b = []" using cont(2) [of ?b] by (simp add: contents_in_def iend_def)
    ultimately show ?thesis by (intro exI [of _ "note_zero_start ?b"]) simp
  qed
qed

lemma RemoveAtEnd_ok:
  assumes ok: "bufs_ok h (add_mset b B)"
  shows "bufs_ok h (add_mset (buf_RemoveAtEnd n b) B)
    \<and> contents h (buf_RemoveAtEnd n b) = take (length (contents h b) - n) (contents h b)
    \<and> bb_data (buf_RemoveAtEnd n b) = bb_data b"
proof -
  from ok obtain d where d: "data_ok d" "window_ok d b" "dat h (bb_data b) = Some (d\<lparr>bd_count := 0\<rparr>)"
    by (rule bufs_okD)
  note w = window_okD [OF d(2)] and bnd = window_bounds [OF d(2,1)]
  let ?s = "bb_start b" and ?zs = "bb_zeroAreaStart b" and ?ze = "bb_zeroAreaEnd b" and ?e = "bb_end b"
  let ?m = "bd_bytes d"
  have len: "iend b \<le> length ?m" using d(1) w(6) by (simp add: data_ok_def)
  have cont: "contents h b = contents_in ?m b" "contents h b' = contents_in ?m b'" if "bb_data b' = bb_data b" for b'
    using d(3) that by (simp_all add: contents_def)
  have lens: "length (seg ?m ?s ?zs) = ?zs - ?s" "length (seg ?m ?zs (iend b)) = iend b - ?zs"
    using len bnd(8) by simp_all
  have e32: "?e < 2 ^ 32" using bnd(3) by simp
  define p where "p = ?e - min n (?e - ?s)"
  have p: "?s \<le> p" "p \<le> ?e" "p - ?s = length (contents h b) - n"
    using w bufs_ok_size(1,2) [OF ok] by (auto simp: p_def)
  have sub: "sub32 ?e (min n (sub32 ?e ?s)) = p" using w e32 by (simp add: p_def)
  have io: "iend b = ?e - (?ze - ?zs)" by (simp add: iend_def)
  have old: "take (p - ?s) (contents h b) =
      seg ?m ?s (min ?zs p) @ replicate (min (?ze - ?zs) (p - ?s - (?zs - ?s))) 0
        @ seg ?m ?zs (min (iend b) (?zs + (p - ?s - (?zs - ?s) - (?ze - ?zs))))"
    using lens(1) cont(1) [of b] p(1) by (simp add: contents_in_def take_seg min.commute)
  consider "?ze < p" | "?zs < p" "p \<le> ?ze" | "?s < p" "p \<le> ?zs" | "p = ?s" "p \<le> ?zs" using p w(1) by linarith
  then have "\<exists>b'. buf_RemoveAtEnd n b = note_zero_start b' \<and> bufs_ok h (add_mset b' B) \<and> bb_data b' = bb_data b
      \<and> contents h b' = take (p - ?s) (contents h b)"
  proof cases
    case 1
    let ?b = "b\<lparr>bb_end := p\<rparr>"
    have "buf_RemoveAtEnd n b = note_zero_start ?b" using 1 by (simp add: buf_RemoveAtEnd_def sub)
    moreover have "bufs_ok h (add_mset ?b B)"
      by (rule shrink_ok [OF ok]) (use 1 w p in \<open>auto simp: iend_def\<close>)
    moreover have "contents h ?b = take (p - ?s) (contents h b)"
    proof -
      have a: "?zs + (p - ?s - (?zs - ?s) - (?ze - ?zs)) = p - (?ze - ?zs)" "min ?zs p = ?zs"
        "min (?ze - ?zs) (p - ?s - (?zs - ?s)) = ?ze - ?zs" "min (iend b) (p - (?ze - ?zs)) = p - (?ze - ?zs)"
        using 1 w p io by auto
      show ?thesis unfolding old a(1) a(2) a(3) a(4) using cont(2) [of ?b] by (simp add: contents_in_def iend_def)
    qed
    ultimately show ?thesis by (intro exI [of _ ?b]) simp
  next
    case 2
    let ?b = "b\<lparr>bb_end := p, bb_zeroAreaEnd := p\<rparr>"
    have "buf_RemoveAtEnd n b = note_zero_start ?b" using 2 by (simp add: buf_RemoveAtEnd_def sub)
    moreover have io': "iend ?b = ?zs" using 2 by (simp add: iend_def)
    moreover have "bufs_ok h (add_mset ?b B)"
      by (rule shrink_ok [OF ok]) (use 2 w p io' bnd(8) in \<open>auto simp: io\<close>)
    moreover have "contents h ?b = take (p - ?s) (contents h b)"
    proof -
      have a: "p - ?s - (?zs - ?s) - (?ze - ?zs) = 0" "min ?zs p = ?zs"
        "min (?ze - ?zs) (p - ?s - (?zs - ?s)) = p - ?zs" "min (iend b) (?zs + 0) = ?zs"
        using 2 w p bnd(8) by auto
      show ?thesis unfolding old a(1) a(2) a(3) a(4) using cont(2) [of ?b] io' by (simp add: contents_in_def)
    qed
    ultimately show ?thesis by (intro exI [of _ ?b]) simp
  next
    case 3
    let ?b = "b\<lparr>bb_end := p, bb_zeroAreaEnd := p, bb_zeroAreaStart := p\<rparr>"
    have "buf_RemoveAtEnd n b = note_zero_start ?b" using 3 w by (simp add: buf_RemoveAtEnd_def sub)
    moreover have io': "iend ?b = p" by (simp add: iend_def)
    moreover have "bufs_ok h (add_mset ?b B)"
      by (rule shrink_ok [OF ok]) (use 3 w p io' bnd(8) in \<open>auto simp: io\<close>)
    moreover have "contents h ?b = take (p - ?s) (contents h b)"
    proof -
      have a: "p - ?s - (?zs - ?s) = 0" "min ?zs p = p" "min (iend b) (?zs + (0 - (?ze - ?zs))) = ?zs"
        using 3 w p bnd(8) by auto
      show ?thesis unfolding old a using cont(2) [of ?b] io' by (simp add: contents_in_def)
    qed
    ultimately show ?thesis by (intro exI [of _ ?b]) simp
  next
    case 4
    let ?b = "b\<lparr>bb_end := ?s, bb_zeroAreaEnd := ?s, bb_zeroAreaStart := ?s\<rparr>"
    have "buf_RemoveAtEnd n b = note_zero_start ?b" using 4 w by (simp add: buf_RemoveAtEnd_def sub Let_def)
    moreover have "bufs_ok h (add_mset ?b B)"
      by (rule shrink_ok [OF ok]) (use w bnd(1) in \<open>auto simp: iend_def\<close>)
    moreover have "contents h ?b = []" using cont(2) [of ?b] by (simp add: contents_in_def iend_def)
    ultimately show ?thesis using 4 by (intro exI [of _ ?b]) simp
  qed
  then show ?thesis using p(3) by auto
qed

section \<open>Creation, copies and destruction\<close>

lemma windows_ok_dat:
  assumes "windows_ok h B" "\<And>c. c \<in># B \<Longrightarrow> dat h' (bb_data c) = dat h (bb_data c)"
  shows "windows_ok h' B"
  using assms unfolding windows_ok_def by simp

lemma bufs_ok_remove: "windows_ok h (add_mset b B) \<Longrightarrow> windows_ok h B"
  unfolding windows_ok_def by simp

lemma Initialize_ok:
  assumes ok: "bufs_ok h B" and n: "n \<le> size_limit"
  shows "\<exists>b h'. buf_Initialize n h = Some (b, h') \<and> bufs_ok h' (add_mset b B)
    \<and> (\<forall>c \<in># B. contents h' c = contents h c) \<and> contents h' b = replicate n 0 \<and> (\<forall>c \<in># B. bb_data c \<noteq> bb_data b)
    \<and> zero_size b = n"
proof -
  have heap: "heap_ok (refs B) h" and win: "windows_ok h B" using ok by (simp_all add: bufs_ok_def)
  obtain a h1 d where a: "buf_Create 0 h = Some (a, h1)" "heap_ok (add_mset a (refs B)) h1" "a \<notin># refs B"
    "bh_cells h1 a = Some d" "\<forall>x \<in># refs B. bh_cells h1 x = bh_cells h x"
    using heap_ok_Create [OF heap, of 0] by auto
  have d: "data_ok d" using heap_okD [OF a(2,4)] by blast
  let ?s = "min (bd_size d) (bh_recommendedStart h1)"
  let ?b = "\<lparr>bb_data = a, bb_maxZeroAreaStart = ?s, bb_zeroAreaStart = ?s, bb_zeroAreaEnd = ?s + n, bb_start = ?s, bb_end = ?s + n\<rparr>"
  let ?f = "\<lambda>d. d\<lparr>bd_dirtyStart := ?s, bd_dirtyEnd := ?s + n\<rparr>"
  have "data_ok (?f d)" using d by (simp add: data_ok_def)
  from heap_ok_upd [of _ h1 _ d ?f, OF a(2,4) _ this]
  obtain h2 where h2: "upd_data a ?f h1 = Some h2" "heap_ok (add_mset a (refs B)) h2" "bh_cells h2 = (bh_cells h1)(a \<mapsto> ?f d)"
    by auto
  have io: "iend ?b = ?s" by (simp add: iend_def)
  have other: "dat h2 (bb_data c) = dat h (bb_data c)" "bb_data c \<noteq> a" if "c \<in># B" for c
    using that a(3,5) h2(3) by (auto simp: dat_def)
  have dat: "dat h2 a = Some ((?f d)\<lparr>bd_count := 0\<rparr>)" using h2(3) by (simp add: dat_def)
  have "windows_ok h2 (add_mset ?b B)"
  proof -
    have "windows_ok h2 B" by (rule windows_ok_dat [OF win]) (use other in auto)
    then show ?thesis using dat other n io unfolding windows_ok_def by (auto simp: window_ok_def)
  qed
  then have "bufs_ok h2 (add_mset ?b B)" using h2(2) by (simp add: bufs_ok_def)
  moreover have "add32 ?s n = ?s + n" using d n by (intro add32_small) (auto simp: data_ok_def min_def)
  then have "buf_Initialize n h = Some (?b, h2)" using a(1,4) h2(1) by (simp add: buf_Initialize_def Let_def)
  moreover have "contents h2 ?b = replicate n 0" using dat io by (simp add: contents_def contents_in_def)
  moreover have "zero_size ?b = n" by (simp add: zero_size_def)
  ultimately show ?thesis using other by (intro exI [of _ ?b] exI [of _ h2]) (auto simp: contents_def)
qed

lemma buffer_copy_ok:
  assumes ok: "bufs_ok h (add_mset b B)"
  shows "\<exists>h'. buf_copy b h = Some (b\<lparr>bb_maxZeroAreaStart := bb_zeroAreaStart b\<rparr>, h')
    \<and> bufs_ok h' (add_mset (b\<lparr>bb_maxZeroAreaStart := bb_zeroAreaStart b\<rparr>) (add_mset b B))
    \<and> contents h' = contents h"
proof -
  have heap: "heap_ok (refs (add_mset b B)) h" and win: "windows_ok h (add_mset b B)"
    using ok by (simp_all add: bufs_ok_def)
  obtain h' where h': "add_ref (bb_data b) h = Some h'" "heap_ok (add_mset (bb_data b) (refs (add_mset b B))) h'"
    "dat h' = dat h" using heap_ok_add_ref [OF heap, of "bb_data b"] by auto
  let ?b = "b\<lparr>bb_maxZeroAreaStart := bb_zeroAreaStart b\<rparr>"
  have "iend ?b = iend b" "window_ok d ?b = window_ok d b" for d by (simp_all add: iend_def window_ok_def)
  then have "windows_ok h' (add_mset ?b (add_mset b B))"
    using win h'(3) unfolding windows_ok_def by (auto simp: iend_def)
  then show ?thesis using h' by (auto simp: bufs_ok_def buf_copy_def contents_def)
qed

lemma drop_ref_ok:
  assumes ok: "bufs_ok h (add_mset b B)"
  shows "\<exists>h'. drop_ref (bb_data b) h = Some h' \<and> bufs_ok h' B \<and> (\<forall>c \<in># B. dat h' (bb_data c) = dat h (bb_data c))"
proof -
  have heap: "heap_ok (add_mset (bb_data b) (refs B)) h" and win: "windows_ok h (add_mset b B)"
    using ok by (simp_all add: bufs_ok_def)
  obtain h' where h': "drop_ref (bb_data b) h = Some h'" "heap_ok (refs B) h'" "\<forall>x \<in># refs B. dat h' x = dat h x"
    using heap_ok_drop_ref [OF heap] by blast
  then have "windows_ok h' B" by (intro windows_ok_dat [OF bufs_ok_remove [OF win]]) simp
  then show ?thesis using h' by (auto simp: bufs_ok_def)
qed

lemma destroy_ok:
  assumes ok: "bufs_ok h (add_mset b B)"
  shows "\<exists>h'. buf_destroy b h = Some h' \<and> bufs_ok h' B \<and> (\<forall>c \<in># B. contents h' c = contents h c)"
proof -
  have "bufs_ok (recommend b h) (add_mset b B)"
    using ok by (auto simp: bufs_ok_def intro: windows_ok_dat)
  from drop_ref_ok [OF this] show ?thesis by (auto simp: buf_destroy_def contents_def)
qed

text \<open>Assignment: \<open>b\<close> becomes \<open>c\<close>, which is another buffer.\<close>

lemma buffer_assign_ok:
  assumes ok: "bufs_ok h (add_mset b (add_mset c B))"
  shows "\<exists>h'. buf_assign b c h = Some (c, h') \<and> bufs_ok h' (add_mset c (add_mset c B))
    \<and> (\<forall>e \<in># add_mset c B. contents h' e = contents h e)"
proof (cases "bb_data b = bb_data c")
  case True
  have "windows_ok h (add_mset c (add_mset c B))"
    using ok unfolding bufs_ok_def windows_ok_def by simp
  then have "bufs_ok h (add_mset c (add_mset c B))" using ok True by (simp add: bufs_ok_def)
  then have "bufs_ok (recommend b h) (add_mset c (add_mset c B))"
    by (auto simp: bufs_ok_def intro: windows_ok_dat)
  then show ?thesis using True by (simp add: buf_assign_def contents_def)
next
  case False
  obtain h1 where h1: "drop_ref (bb_data b) h = Some h1" "bufs_ok h1 (add_mset c B)"
    "\<forall>e \<in># add_mset c B. dat h1 (bb_data e) = dat h (bb_data e)"
    using drop_ref_ok [OF ok] by blast
  then have heap: "heap_ok (refs (add_mset c B)) h1" and win: "windows_ok h1 (add_mset c B)"
    by (simp_all add: bufs_ok_def)
  obtain h2 where h2: "add_ref (bb_data c) h1 = Some h2" "heap_ok (add_mset (bb_data c) (refs (add_mset c B))) h2"
    "dat h2 = dat h1" using heap_ok_add_ref [OF heap, of "bb_data c"] by auto
  have "windows_ok h2 (add_mset c (add_mset c B))"
    using win h2(3) unfolding windows_ok_def by simp
  then have "bufs_ok (recommend b h2) (add_mset c (add_mset c B))"
    using h2(2) by (auto simp: bufs_ok_def intro: windows_ok_dat)
  moreover have "\<forall>e \<in># add_mset c B. contents (recommend b h2) e = contents h e"
    using h1(3) h2(3) by (auto simp: contents_def)
  ultimately show ?thesis using False h1(1) h2(1) by (simp add: buf_assign_def)
qed

lemma CreateFragment_ok:
  assumes ok: "bufs_ok h (add_mset b B)" and range: "s + n \<le> buf_GetSize b"
  shows "\<exists>b' h'. buf_CreateFragment s n b h = Some (b', h') \<and> bufs_ok h' (add_mset b' (add_mset b B))
    \<and> (\<forall>c \<in># add_mset b B. contents h' c = contents h c) \<and> contents h' b' = take n (drop s (contents h b))"
proof -
  let ?c = "b\<lparr>bb_maxZeroAreaStart := bb_zeroAreaStart b\<rparr>"
  obtain h1 where h1: "buf_copy b h = Some (?c, h1)" "bufs_ok h1 (add_mset ?c (add_mset b B))" "contents h1 = contents h"
    using buffer_copy_ok [OF ok] by blast
  note size = bufs_ok_size [OF ok]
  have cont: "contents h ?c = contents h b"
    by (simp add: contents_def contents_in_def iend_def split: option.splits)
  have "s \<le> 2 ^ 31" using range size(3) by simp
  from RemoveAtStart_ok [OF h1(2) this] obtain c where c: "buf_RemoveAtStart s ?c = Some c"
    "bufs_ok h1 (add_mset c (add_mset b B))" "contents h1 c = drop s (contents h b)" using cont h1(3) by auto
  define k where "k = buf_GetSize b - (s + n)"
  have sub: "sub32 (buf_GetSize b) (add32 s n) = k"
  proof -
    have "add32 s n = s + n" using range size(3) by (intro add32_small) simp
    then show ?thesis using range size(3) unfolding k_def by (simp add: sub32_le)
  qed
  have "length (contents h1 c) - k = n" using c(3) size(1) range by (simp add: k_def)
  then have "contents h1 (buf_RemoveAtEnd k c) = take n (drop s (contents h b))"
    using RemoveAtEnd_ok [OF c(2), of k] c(3) by simp
  then show ?thesis using RemoveAtEnd_ok [OF c(2), of k] c h1 sub
    by (intro exI [of _ "buf_RemoveAtEnd k c"] exI [of _ h1]) (simp add: buf_CreateFragment_def)
qed

section \<open>Writing\<close>

definition phys :: "byte_buffer \<Rightarrow> nat \<Rightarrow> nat" where
  "phys b i = (if i < bb_zeroAreaStart b then i else i - (bb_zeroAreaEnd b - bb_zeroAreaStart b))"

text \<open>The positions from \<open>v\<close> to \<open>v + n\<close> of \<open>b\<close> are outside of its zero area and stored where no other
  buffer has its bytes.\<close>

definition writable :: "byte_buffer \<Rightarrow> byte_buffer multiset \<Rightarrow> nat \<Rightarrow> nat \<Rightarrow> bool" where
  "writable b B v n \<longleftrightarrow> bb_start b \<le> v \<and> v + n \<le> bb_end b
     \<and> (\<forall>i. v \<le> i \<longrightarrow> i < v + n \<longrightarrow> \<not> (bb_zeroAreaStart b \<le> i \<and> i < bb_zeroAreaEnd b)
          \<and> (\<forall>c \<in># B. bb_data c = bb_data b \<longrightarrow> \<not> (bb_start c \<le> phys b i \<and> phys b i < iend c)))"

definition wrote :: "buf_heap \<Rightarrow> buf_heap \<Rightarrow> byte_buffer \<Rightarrow> byte_buffer multiset \<Rightarrow> nat \<Rightarrow> u8 list \<Rightarrow> bool" where
  "wrote h h' b B v bs \<longleftrightarrow> bufs_ok h' (add_mset b B) \<and> (\<forall>c \<in># B. contents h' c = contents h c)
     \<and> contents h' b = put_bytes (v - bb_start b) bs (contents h b)"

lemma writable_split: "writable b B v (m + n) \<Longrightarrow> writable b B v m \<and> writable b B (v + m) n"
  unfolding writable_def by auto

lemma nth_put_bytes:
  "p + length bs \<le> length xs \<Longrightarrow> i < length xs \<Longrightarrow>
     put_bytes p bs xs ! i = (if p \<le> i \<and> i < p + length bs then bs ! (i - p) else xs ! i)"
  by (auto simp: put_bytes_def nth_append min_def)

lemma put_bytes_append:
  "p + length us + length vs \<le> length xs \<Longrightarrow>
     put_bytes (p + length us) vs (put_bytes p us xs) = put_bytes p (us @ vs) xs"
  by (rule nth_equalityI) (auto simp: nth_put_bytes nth_append)

lemma put_bytes_Nil [simp]: "put_bytes p [] xs = xs"
  by (simp add: put_bytes_def)

lemma nth_contents_in:
  assumes "window_ok d b" "data_ok d" "k < bb_end b - bb_start b"
  shows "contents_in (bd_bytes d) b ! k =
    (if bb_zeroAreaStart b \<le> bb_start b + k \<and> bb_start b + k < bb_zeroAreaEnd b then 0
     else bd_bytes d ! phys b (bb_start b + k))"
proof -
  note w = window_okD [OF assms(1)] and bnd = window_bounds [OF assms(1,2)]
  have len: "iend b \<le> length (bd_bytes d)" using assms(2) w(6) by (simp add: data_ok_def)
  have io: "iend b = bb_end b - (bb_zeroAreaEnd b - bb_zeroAreaStart b)" by (simp add: iend_def)
  have l1: "length (seg (bd_bytes d) (bb_start b) (bb_zeroAreaStart b)) = bb_zeroAreaStart b - bb_start b"
    using len bnd(8) by simp
  show ?thesis unfolding contents_in_def nth_append l1 length_replicate
    using assms(3) w len by (auto simp: seg_def phys_def io ac_simps)
qed

lemma windows_ok_bytes:
  assumes win: "windows_ok h B" and old: "dat h a = Some e" and new: "dat h' a = Some (e\<lparr>bd_bytes := bs\<rparr>)"
    and same: "\<And>x. x \<noteq> a \<Longrightarrow> dat h' x = dat h x"
  shows "windows_ok h' B"
proof -
  have w: "window_ok (e\<lparr>bd_bytes := bs\<rparr>) c = window_ok e c" for c by (simp add: window_ok_def)
  have "\<exists>d. dat h' (bb_data c) = Some d \<and> window_ok d c" if "c \<in># B" for c
    using win that old new same w unfolding windows_ok_def by (cases "bb_data c = a") auto
  moreover have "iend f \<le> iend c"
    if "c \<in># B" "f \<in># B" "dat h' (bb_data c) = Some d" "bb_data f = bb_data c" "bb_end c = bd_dirtyEnd d" for c f d
    using win that old new same unfolding windows_ok_def by (cases "bb_data c = a") auto
  ultimately show ?thesis unfolding windows_ok_def by blast
qed

lemma write_ok:
  assumes ok: "bufs_ok h (add_mset b B)" and wr: "writable b B v (length bs)"
    and block: "bs = [] \<or> v + length bs \<le> bb_zeroAreaStart b \<or> bb_zeroAreaEnd b \<le> v \<or> bb_zeroAreaStart b = bb_zeroAreaEnd b"
  shows "\<exists>h'. mem_write (bb_data b) (phys b v) bs h = Some h' \<and> wrote h h' b B v bs"
proof (cases "bs = []")
  case True
  then show ?thesis using ok by (simp add: mem_write_def wrote_def)
next
  case False
  from ok obtain d where d: "bh_cells h (bb_data b) = Some d" "data_ok d" "window_ok d b"
    "dat h (bb_data b) = Some (d\<lparr>bd_count := 0\<rparr>)" and shared: "shared_ok d b B" by (rule bufs_okD)
  have heap: "heap_ok (refs (add_mset b B)) h" and win: "windows_ok h (add_mset b B)"
    using ok by (simp_all add: bufs_ok_def)
  note w = window_okD [OF d(3)] and bnd = window_bounds [OF d(3,2)]
  have io: "iend b = bb_end b - (bb_zeroAreaEnd b - bb_zeroAreaStart b)" by (simp add: iend_def)
  have range: "bb_start b \<le> v" "v + length bs \<le> bb_end b" using wr by (simp_all add: writable_def)
  have shift: "phys b (v + k) = phys b v + k" if "k < length bs" for k
    using that block False w by (auto simp: phys_def)
  have top: "phys b v + length bs \<le> iend b"
    using shift [of "length bs - 1"] range(2) False w block by (auto simp: phys_def io)
  let ?d = "d\<lparr>bd_bytes := put_bytes (phys b v) bs (bd_bytes d)\<rparr>"
  obtain h' where h': "mem_write (bb_data b) (phys b v) bs h = Some h'" "heap_ok (refs (add_mset b B)) h'"
    "bh_cells h' = (bh_cells h)(bb_data b \<mapsto> ?d)"
    using mem_write_put [OF heap d(1), of "phys b v" bs] top w(6) by auto
  have dat: "dat h' (bb_data b) = Some (?d\<lparr>bd_count := 0\<rparr>)" using h'(3) by (simp add: dat_def)
  have len: "length (bd_bytes d) = bd_size d" using d(2) by (simp add: data_ok_def)
  have fit: "phys b v + length bs \<le> length (bd_bytes d)" using top w(6) len by simp
  have wd: "window_ok (?d\<lparr>bd_count := 0\<rparr>) c = window_ok (d\<lparr>bd_count := 0\<rparr>) c" for c by (simp add: window_ok_def)
  have "windows_ok h' (add_mset b B)"
    by (rule windows_ok_bytes [OF win d(4), of _ "bd_bytes ?d"]) (use h'(3) in \<open>auto simp: dat_def\<close>)
  then have ok': "bufs_ok h' (add_mset b B)" using h'(2) by (simp add: bufs_ok_def)
  have dd: "data_ok ?d" using heap_okD [OF h'(2), of "bb_data b" ?d] h'(3) by simp
  have contents': "contents h' c = contents_in (bd_bytes ?d) c" if "bb_data c = bb_data b" for c
    using dat that by (simp add: contents_def)
  have contents: "contents h c = contents_in (bd_bytes d) c" if "bb_data c = bb_data b" for c
    using d(4) that by (simp add: contents_def)
  have others: "contents h' c = contents h c" if c: "c \<in># B" for c
  proof (cases "bb_data c = bb_data b")
    case True
    have wc: "window_ok d c" using shared c True by (simp add: shared_ok_def)
    then have wc': "window_ok ?d c" by (simp add: window_ok_def)
    note bc = window_bounds [OF wc d(2)] and wd = window_okD [OF wc]
    have dis: "\<not> (bb_start c \<le> phys b i \<and> phys b i < iend c)" if "v \<le> i" "i < v + length bs" for i
      using wr c True that unfolding writable_def by blast
    show ?thesis unfolding contents [OF True] contents' [OF True]
    proof (rule nth_equalityI)
      fix k assume "k < length (contents_in (bd_bytes ?d) c)"
      then have k: "k < bb_end c - bb_start c" using length_contents_in [OF wc' dd] by simp
      let ?i = "bb_start c + k"
      have "bd_bytes ?d ! phys c ?i = bd_bytes d ! phys c ?i"
        if nz: "\<not> (bb_zeroAreaStart c \<le> ?i \<and> ?i < bb_zeroAreaEnd c)"
      proof -
        have r: "bb_start c \<le> phys c ?i" "phys c ?i < iend c"
          using nz k wd by (auto simp: phys_def iend_def)
        have "\<not> (phys b v \<le> phys c ?i \<and> phys c ?i < phys b v + length bs)"
        proof
          assume x: "phys b v \<le> phys c ?i \<and> phys c ?i < phys b v + length bs"
          let ?k = "phys c ?i - phys b v"
          have k': "?k < length bs" "phys b (v + ?k) = phys c ?i" using x shift [of ?k] by auto
          then have "\<not> (bb_start c \<le> phys b (v + ?k) \<and> phys b (v + ?k) < iend c)"
            using dis [of "v + ?k"] by simp
          with k'(2) r show False by simp
        qed
        moreover have "phys c ?i < length (bd_bytes d)" using r(2) wd(6) len by simp
        ultimately show ?thesis using fit by (auto simp: nth_put_bytes)
      qed
      then show "contents_in (bd_bytes ?d) c ! k = contents_in (bd_bytes d) c ! k"
        using nth_contents_in [OF wc' dd k] nth_contents_in [OF wc d(2) k] by auto
    qed (use length_contents_in [OF wc' dd] length_contents_in [OF wc d(2)] in simp)
  next
    case False
    then show ?thesis using h'(3) by (intro contents_cong) (simp add: dat_def)
  qed
  have own: "contents h' b = put_bytes (v - bb_start b) bs (contents h b)"
  proof -
    have wb: "window_ok ?d b" using d(3) by (simp add: window_ok_def)
    have l: "length (contents h b) = bb_end b - bb_start b" using length_contents_in [OF d(3,2)] contents by simp
    have in': "v - bb_start b + length bs \<le> length (contents h b)" using l range by simp
    show ?thesis unfolding contents' [OF refl]
    proof (rule nth_equalityI)
      fix k assume "k < length (contents_in (bd_bytes ?d) b)"
      then have k: "k < bb_end b - bb_start b" using length_contents_in [OF wb dd] by simp
      let ?i = "bb_start b + k"
      have new: "contents_in (bd_bytes ?d) b ! k = (if bb_zeroAreaStart b \<le> ?i \<and> ?i < bb_zeroAreaEnd b then 0
          else bd_bytes ?d ! phys b ?i)" by (rule nth_contents_in [OF wb dd k])
      have old: "contents h b ! k = (if bb_zeroAreaStart b \<le> ?i \<and> ?i < bb_zeroAreaEnd b then 0
          else bd_bytes d ! phys b ?i)" using nth_contents_in [OF d(3,2) k] contents by simp
      have pin: "phys b ?i < length (bd_bytes d)" if "\<not> (bb_zeroAreaStart b \<le> ?i \<and> ?i < bb_zeroAreaEnd b)"
        using that k w len by (auto simp: phys_def io)
      show "contents_in (bd_bytes ?d) b ! k = put_bytes (v - bb_start b) bs (contents h b) ! k"
      proof (cases "v \<le> ?i \<and> ?i < v + length bs")
        case True
        then have nz: "\<not> (bb_zeroAreaStart b \<le> ?i \<and> ?i < bb_zeroAreaEnd b)" using wr unfolding writable_def by blast
        define j where "j = ?i - v"
        have j: "j < length bs" "v + j = ?i" using True by (auto simp: j_def)
        have "phys b ?i = phys b v + j" using shift [OF j(1)] j(2) by simp
        moreover have "put_bytes (phys b v) bs (bd_bytes d) ! (phys b v + j) = bs ! j"
          using fit j(1) by (subst nth_put_bytes) auto
        ultimately have "bd_bytes ?d ! phys b ?i = bs ! (?i - v)" by (simp add: j_def)
        moreover have "put_bytes (v - bb_start b) bs (contents h b) ! k = bs ! (?i - v)"
          using True k l in' range by (subst nth_put_bytes) (auto simp: algebra_simps)
        ultimately show ?thesis using new nz by simp
      next
        case False
        have "put_bytes (v - bb_start b) bs (contents h b) ! k = contents h b ! k"
          using False k l in' range by (subst nth_put_bytes) auto
        moreover have "bd_bytes ?d ! phys b ?i = bd_bytes d ! phys b ?i"
          if nz: "\<not> (bb_zeroAreaStart b \<le> ?i \<and> ?i < bb_zeroAreaEnd b)"
        proof -
          have "\<not> (phys b v \<le> phys b ?i \<and> phys b ?i < phys b v + length bs)"
            using False nz block \<open>bs \<noteq> []\<close> w range by (auto simp: phys_def split: if_splits)
          then show ?thesis using fit pin [OF nz] by (auto simp: nth_put_bytes)
        qed
        ultimately show ?thesis using new old by simp
      qed
    next
      show "length (contents_in (bd_bytes ?d) b) = length (put_bytes (v - bb_start b) bs (contents h b))"
        using length_contents_in [OF wb dd] l in' by simp
    qed
  qed
  show ?thesis using h'(1) ok' others own by (intro exI [of _ h']) (simp add: wrote_def)
qed

lemma wrote_trans:
  assumes "bufs_ok h (add_mset b B)" "wrote h h1 b B v us" "wrote h1 h2 b B (v + length us) vs" "bb_start b \<le> v"
    "v + length us + length vs \<le> bb_end b"
  shows "wrote h h2 b B v (us @ vs)"
  using assms put_bytes_append [of "v - bb_start b" us vs "contents h b"] bufs_ok_size(1,2) [OF assms(1)]
  by (simp add: wrote_def)

end
