(* ===== verification/BufferIterator.thy ===== *)
theory BufferIterator
  imports BufferWindows
begin

text \<open>
  The iterator of byte buffers and the operations of \<open>Buffer\<close> that read or write their bytes
  (\<open>network/model/buffer.{cc,h}\<close>). An iterator holds copies of the positions of the buffer it was made
  from and goes on pointing into its data.
\<close>

unbundle bit_operations_syntax

section \<open>The iterator\<close>

record buf_iter =
  it_zeroStart :: nat
  it_zeroEnd :: nat
  it_dataStart :: nat
  it_dataEnd :: nat
  it_current :: nat
  it_data :: addr

text \<open>The null pointer is the address 0, which \<open>bh_brk\<close> never gives out.\<close>

definition it_null :: buf_iter where
  "it_null = \<lparr>it_zeroStart = 0, it_zeroEnd = 0, it_dataStart = 0, it_dataEnd = 0, it_current = 0, it_data = 0\<rparr>"

definition it_Construct :: "byte_buffer \<Rightarrow> nat \<Rightarrow> buf_iter" where
  "it_Construct b cur = \<lparr>it_zeroStart = bb_zeroAreaStart b, it_zeroEnd = bb_zeroAreaEnd b,
     it_dataStart = bb_start b, it_dataEnd = bb_end b, it_current = cur, it_data = bb_data b\<rparr>"

definition buf_Begin :: "byte_buffer \<Rightarrow> buf_iter" where
  "buf_Begin b = it_Construct b (bb_start b)"

definition buf_End :: "byte_buffer \<Rightarrow> buf_iter" where
  "buf_End b = it_Construct b (bb_end b)"

definition it_Next :: "nat \<Rightarrow> buf_iter \<Rightarrow> buf_iter option" where
  "it_Next delta it = (if add32 (it_current it) delta \<le> it_dataEnd it
     then Some (it\<lparr>it_current := add32 (it_current it) delta\<rparr>) else None)"

definition it_Prev :: "nat \<Rightarrow> buf_iter \<Rightarrow> buf_iter option" where
  "it_Prev delta it = (if it_current it \<ge> delta
     then Some (it\<lparr>it_current := sub32 (it_current it) delta\<rparr>) else None)"

definition it_GetDistanceFrom :: "buf_iter \<Rightarrow> buf_iter \<Rightarrow> nat option" where
  \<comment> \<open>the difference is read as an \<open>int32_t\<close>\<close>
  "it_GetDistanceFrom it o' = (if it_data it = it_data o'
     then let diff = sub32 (it_current it) (it_current o') in
       Some (if diff \<ge> 2 ^ 31 then sub32 0 diff else diff)
     else None)"

definition it_IsEnd :: "buf_iter \<Rightarrow> bool" where
  "it_IsEnd it \<longleftrightarrow> it_current it = it_dataEnd it"

definition it_IsStart :: "buf_iter \<Rightarrow> bool" where
  "it_IsStart it \<longleftrightarrow> it_current it = it_dataStart it"

definition it_GetSize :: "buf_iter \<Rightarrow> nat" where
  "it_GetSize it = sub32 (it_dataEnd it) (it_dataStart it)"

definition it_GetRemainingSize :: "buf_iter \<Rightarrow> nat" where
  "it_GetRemainingSize it = sub32 (it_dataEnd it) (it_current it)"

definition CheckNoZero :: "nat \<Rightarrow> nat \<Rightarrow> buf_iter \<Rightarrow> bool" where
  "CheckNoZero s e it \<longleftrightarrow> \<not> (s < it_dataStart it \<or> e > it_dataEnd it \<or>
     (e > it_zeroStart it \<and> s < it_zeroEnd it \<and> it_zeroEnd it \<noteq> it_zeroStart it \<and> s \<noteq> e))"

definition it_Check :: "nat \<Rightarrow> buf_iter \<Rightarrow> bool" where
  "it_Check i it \<longleftrightarrow> i \<ge> it_dataStart it \<and> \<not> (i \<ge> it_zeroStart it \<and> i < it_zeroEnd it) \<and> i \<le> it_dataEnd it"

definition stored :: "buf_iter \<Rightarrow> nat \<Rightarrow> nat" where
  \<comment> \<open>\<open>i - (m_zeroEnd - m_zeroStart)\<close>\<close>
  "stored it i = sub32 i (sub32 (it_zeroEnd it) (it_zeroStart it))"

definition forth :: "nat \<Rightarrow> buf_iter \<Rightarrow> buf_iter" where
  \<comment> \<open>\<open>m_current += n\<close>\<close>
  "forth n it = it\<lparr>it_current := add32 (it_current it) n\<rparr>"

section \<open>Writing\<close>

definition it_WriteU8 :: "u8 \<Rightarrow> buf_iter \<Rightarrow> buf_heap \<Rightarrow> (buf_iter \<times> buf_heap) option" where
  "it_WriteU8 v it h = (if it_Check (it_current it) it then do {
     h \<leftarrow> mem_write (it_data it)
            (if it_current it < it_zeroStart it then it_current it else stored it (it_current it)) [v] h;
     Some (forth 1 it, h) } else None)"

definition it_FillU8 :: "u8 \<Rightarrow> nat \<Rightarrow> buf_iter \<Rightarrow> buf_heap \<Rightarrow> (buf_iter \<times> buf_heap) option" where
  "it_FillU8 v len it h = (if CheckNoZero (it_current it) (add32 (it_current it) len) it then do {
     h \<leftarrow> mem_write (it_data it)
            (if it_current it \<le> it_zeroStart it then it_current it else stored it (it_current it)) (replicate len v) h;
     Some (forth len it, h) } else None)"

primrec it_WriteBytes :: "u8 list \<Rightarrow> buf_iter \<Rightarrow> buf_heap \<Rightarrow> (buf_iter \<times> buf_heap) option" where
  \<comment> \<open>\<open>WriteU8\<close> for each byte\<close>
  "it_WriteBytes [] it h = Some (it, h)"
| "it_WriteBytes (v # vs) it h = do { (it, h) \<leftarrow> it_WriteU8 v it h; it_WriteBytes vs it h }"

definition it_WriteU16 :: "u16 \<Rightarrow> buf_iter \<Rightarrow> buf_heap \<Rightarrow> (buf_iter \<times> buf_heap) option" where
  "it_WriteU16 data = it_WriteBytes [byte_at 0 data, byte_at 1 data]"

definition it_WriteU32 :: "u32 \<Rightarrow> buf_iter \<Rightarrow> buf_heap \<Rightarrow> (buf_iter \<times> buf_heap) option" where
  "it_WriteU32 data = it_WriteBytes [byte_at 0 data, byte_at 1 data, byte_at 2 data, byte_at 3 data]"

definition it_WriteU64 :: "u64 \<Rightarrow> buf_iter \<Rightarrow> buf_heap \<Rightarrow> (buf_iter \<times> buf_heap) option" where
  "it_WriteU64 data = it_WriteBytes [byte_at 0 data, byte_at 1 data, byte_at 2 data, byte_at 3 data,
     byte_at 4 data, byte_at 5 data, byte_at 6 data, byte_at 7 data]"

definition it_WriteHtolsbU16 :: "u16 \<Rightarrow> buf_iter \<Rightarrow> buf_heap \<Rightarrow> (buf_iter \<times> buf_heap) option" where
  "it_WriteHtolsbU16 data = it_WriteBytes [byte_at 0 data, byte_at 1 data]"

definition it_WriteHtolsbU32 :: "u32 \<Rightarrow> buf_iter \<Rightarrow> buf_heap \<Rightarrow> (buf_iter \<times> buf_heap) option" where
  "it_WriteHtolsbU32 data = it_WriteBytes [byte_at 0 data, byte_at 1 data, byte_at 2 data, byte_at 3 data]"

definition it_WriteHtolsbU64 :: "u64 \<Rightarrow> buf_iter \<Rightarrow> buf_heap \<Rightarrow> (buf_iter \<times> buf_heap) option" where
  "it_WriteHtolsbU64 data = it_WriteBytes [byte_at 0 data, byte_at 1 data, byte_at 2 data, byte_at 3 data,
     byte_at 4 data, byte_at 5 data, byte_at 6 data, byte_at 7 data]"

definition it_WriteHtonU64 :: "u64 \<Rightarrow> buf_iter \<Rightarrow> buf_heap \<Rightarrow> (buf_iter \<times> buf_heap) option" where
  "it_WriteHtonU64 data = it_WriteBytes [byte_at 7 data, byte_at 6 data, byte_at 5 data, byte_at 4 data,
     byte_at 3 data, byte_at 2 data, byte_at 1 data, byte_at 0 data]"

definition write_hton :: "u8 list \<Rightarrow> buf_iter \<Rightarrow> buf_heap \<Rightarrow> (buf_iter \<times> buf_heap) option" where
  \<comment> \<open>the common part of \<open>WriteHtonU16\<close> and \<open>WriteHtonU32\<close>\<close>
  "write_hton bs it h = (let n = length bs in
     if CheckNoZero (it_current it) (add32 (it_current it) n) it then do {
       h \<leftarrow> mem_write (it_data it)
              (if add32 (it_current it) n \<le> it_zeroStart it then it_current it else stored it (it_current it)) bs h;
       Some (forth n it, h) } else None)"

definition it_WriteHtonU16 :: "u16 \<Rightarrow> buf_iter \<Rightarrow> buf_heap \<Rightarrow> (buf_iter \<times> buf_heap) option" where
  "it_WriteHtonU16 data = write_hton [byte_at 1 data, byte_at 0 data]"

definition it_WriteHtonU32 :: "u32 \<Rightarrow> buf_iter \<Rightarrow> buf_heap \<Rightarrow> (buf_iter \<times> buf_heap) option" where
  "it_WriteHtonU32 data = write_hton [byte_at 3 data, byte_at 2 data, byte_at 1 data, byte_at 0 data]"

definition it_Write :: "u8 list \<Rightarrow> buf_iter \<Rightarrow> buf_heap \<Rightarrow> (buf_iter \<times> buf_heap) option" where
  \<comment> \<open>the second argument of \<open>CheckNoZero\<close> is the size, not the end\<close>
  "it_Write bs it h = (if CheckNoZero (it_current it) (length bs) it then do {
     h \<leftarrow> mem_write (it_data it)
            (if it_current it \<le> it_zeroStart it then it_current it else stored it (it_current it)) bs h;
     Some (forth (length bs) it, h) } else None)"

text \<open>\<open>Write(Iterator start, Iterator end)\<close>: the bytes in front of the zero area of the source, its
  zeroes, and the bytes behind it. The destination is \<open>m_data[m_current]\<close>, without \<open>stored\<close>.\<close>

definition copy_step :: "nat \<Rightarrow> u8 list option \<Rightarrow> buf_iter \<Rightarrow> buf_iter \<Rightarrow> nat \<Rightarrow> buf_heap \<Rightarrow>
    (buf_iter \<times> buf_iter \<times> nat \<times> buf_heap) option" where
  "copy_step toCopy src it start sz h = do {
     bs \<leftarrow> src;
     h \<leftarrow> mem_write (it_data it) (it_current it) bs h;
     Some (forth toCopy it, forth toCopy start, sub32 sz toCopy, h) }"

definition it_WriteRange :: "buf_iter \<Rightarrow> buf_iter \<Rightarrow> buf_iter \<Rightarrow> buf_heap \<Rightarrow> (buf_iter \<times> buf_heap) option" where
  "it_WriteRange start stop it h =
     (let sz = sub32 (it_current stop) (it_current start) in
      if it_data start = it_data stop \<and> it_current start \<le> it_current stop
        \<and> it_zeroStart start = it_zeroStart stop \<and> it_zeroEnd start = it_zeroEnd stop
        \<and> it_data it \<noteq> it_data start \<and> CheckNoZero (it_current it) (add32 (it_current it) sz) it
      then do {
        (it, start, sz, h) \<leftarrow>
          (if it_current start \<le> it_zeroStart start
           then let toCopy = min sz (sub32 (it_zeroStart start) (it_current start)) in
             copy_step toCopy (mem_read (it_data start) (it_current start) toCopy h) it start sz h
           else Some (it, start, sz, h));
        (it, start, sz, h) \<leftarrow>
          (if it_current start \<le> it_zeroEnd start
           then let toCopy = min sz (sub32 (it_zeroEnd start) (it_current start)) in
             copy_step toCopy (Some (replicate toCopy 0)) it start sz h
           else Some (it, start, sz, h));
        let toCopy = min sz (sub32 (it_dataEnd start) (it_current start)) in do {
          bs \<leftarrow> mem_read (it_data start) (stored start (it_current start)) toCopy h;
          h \<leftarrow> mem_write (it_data it) (it_current it) bs h;
          Some (forth toCopy it, h) } }
      else None)"

section \<open>Reading\<close>

definition it_PeekU8 :: "buf_iter \<Rightarrow> buf_heap \<Rightarrow> u8 option" where
  "it_PeekU8 it h =
     (if it_current it \<ge> it_dataStart it \<and> it_current it < it_dataEnd it
      then if it_current it < it_zeroStart it then map_option hd (mem_read (it_data it) (it_current it) 1 h)
      else if it_current it < it_zeroEnd it then Some 0
      else map_option hd (mem_read (it_data it) (stored it (it_current it)) 1 h)
      else None)"

definition it_ReadU8 :: "buf_iter \<Rightarrow> buf_heap \<Rightarrow> (u8 \<times> buf_iter) option" where
  "it_ReadU8 it h = map_option (\<lambda>v. (v, forth 1 it)) (it_PeekU8 it h)"

primrec it_Read :: "nat \<Rightarrow> buf_iter \<Rightarrow> buf_heap \<Rightarrow> (u8 list \<times> buf_iter) option" where
  "it_Read 0 it h = Some ([], it)"
| "it_Read (Suc n) it h = do {
     (v, it) \<leftarrow> it_ReadU8 it h;
     (vs, it) \<leftarrow> it_Read n it h;
     Some (v # vs, it) }"

definition from_lsb :: "u8 list \<Rightarrow> 'a::len word" where
  \<comment> \<open>the last byte first: \<open>data <<= 8; data |= byte\<close>\<close>
  "from_lsb bs = foldr shift_in bs 0"

definition from_msb :: "u8 list \<Rightarrow> 'a::len word" where
  "from_msb bs = fold shift_in bs 0"

definition it_ReadLsb :: "nat \<Rightarrow> buf_iter \<Rightarrow> buf_heap \<Rightarrow> ('a::len word \<times> buf_iter) option" where
  "it_ReadLsb n it h = map_option (\<lambda>(bs, it). (from_lsb bs, it)) (it_Read n it h)"

definition it_ReadMsb :: "nat \<Rightarrow> buf_iter \<Rightarrow> buf_heap \<Rightarrow> ('a::len word \<times> buf_iter) option" where
  "it_ReadMsb n it h = map_option (\<lambda>(bs, it). (from_msb bs, it)) (it_Read n it h)"

definition it_ReadU16 :: "buf_iter \<Rightarrow> buf_heap \<Rightarrow> (u16 \<times> buf_iter) option" where
  "it_ReadU16 = it_ReadLsb 2"

definition it_ReadU32 :: "buf_iter \<Rightarrow> buf_heap \<Rightarrow> (u32 \<times> buf_iter) option" where
  "it_ReadU32 = it_ReadLsb 4"

definition it_ReadU64 :: "buf_iter \<Rightarrow> buf_heap \<Rightarrow> (u64 \<times> buf_iter) option" where
  "it_ReadU64 = it_ReadLsb 8"

definition it_ReadLsbtohU16 :: "buf_iter \<Rightarrow> buf_heap \<Rightarrow> (u16 \<times> buf_iter) option" where
  "it_ReadLsbtohU16 = it_ReadLsb 2"

definition it_ReadLsbtohU32 :: "buf_iter \<Rightarrow> buf_heap \<Rightarrow> (u32 \<times> buf_iter) option" where
  "it_ReadLsbtohU32 = it_ReadLsb 4"

definition it_ReadLsbtohU64 :: "buf_iter \<Rightarrow> buf_heap \<Rightarrow> (u64 \<times> buf_iter) option" where
  "it_ReadLsbtohU64 = it_ReadLsb 8"

definition it_SlowReadNtohU16 :: "buf_iter \<Rightarrow> buf_heap \<Rightarrow> (u16 \<times> buf_iter) option" where
  "it_SlowReadNtohU16 = it_ReadMsb 2"

definition it_SlowReadNtohU32 :: "buf_iter \<Rightarrow> buf_heap \<Rightarrow> (u32 \<times> buf_iter) option" where
  "it_SlowReadNtohU32 = it_ReadMsb 4"

definition it_ReadNtohU64 :: "buf_iter \<Rightarrow> buf_heap \<Rightarrow> (u64 \<times> buf_iter) option" where
  "it_ReadNtohU64 = it_ReadMsb 8"

text \<open>The fast paths of \<open>ReadNtohU16\<close> and \<open>ReadNtohU32\<close> check no bounds; \<open>slow\<close> is the slow path.\<close>

definition read_ntoh :: "nat \<Rightarrow> (buf_iter \<Rightarrow> buf_heap \<Rightarrow> ('a::len word \<times> buf_iter) option) \<Rightarrow>
    buf_iter \<Rightarrow> buf_heap \<Rightarrow> ('a word \<times> buf_iter) option" where
  "read_ntoh n slow it h =
     (if add32 (it_current it) n \<le> it_zeroStart it
      then map_option (\<lambda>bs. (from_msb bs, forth n it)) (mem_read (it_data it) (it_current it) n h)
      else if it_current it \<ge> it_zeroEnd it
      then map_option (\<lambda>bs. (from_msb bs, forth n it)) (mem_read (it_data it) (stored it (it_current it)) n h)
      else slow it h)"

definition it_ReadNtohU16 :: "buf_iter \<Rightarrow> buf_heap \<Rightarrow> (u16 \<times> buf_iter) option" where
  "it_ReadNtohU16 = read_ntoh 2 it_SlowReadNtohU16"

definition it_ReadNtohU32 :: "buf_iter \<Rightarrow> buf_heap \<Rightarrow> (u32 \<times> buf_iter) option" where
  "it_ReadNtohU32 = read_ntoh 4 it_SlowReadNtohU32"

definition it_ReadInto :: "buf_iter \<Rightarrow> nat \<Rightarrow> buf_iter \<Rightarrow> buf_heap \<Rightarrow> (buf_iter \<times> buf_heap) option" where
  \<comment> \<open>\<open>Read(Iterator start, uint32_t size)\<close>: the bytes go to \<open>start\<close>\<close>
  "it_ReadInto start sz it h = do { stop \<leftarrow> it_Next sz it; it_WriteRange it stop start h }"

section \<open>The checksum\<close>

primrec sum_words :: "nat \<Rightarrow> u32 \<Rightarrow> buf_iter \<Rightarrow> buf_heap \<Rightarrow> (u32 \<times> buf_iter) option" where
  "sum_words 0 s it h = Some (s, it)"
| "sum_words (Suc n) s it h = do { (v, it) \<leftarrow> it_ReadU16 it h; sum_words n (s + ucast v) it h }"

lemma fold_carry_less:
  fixes s :: u32
  assumes "drop_bit 16 s \<noteq> 0"
  shows "unat ((s AND 0xffff) + drop_bit 16 s) < unat s"
proof -
  have low: "unat (s AND 0xffff) = unat s mod 65536"
  proof -
    have "s AND 0xffff = take_bit 16 s" by (simp add: take_bit_eq_mask mask_eq_exp_minus_1)
    then show ?thesis by (simp add: take_bit_eq_mod unat_mod_distrib)
  qed
  have drop: "unat (drop_bit 16 s) = unat s div 65536"
    by (simp add: drop_bit_eq_div unat_div_distrib)
  with assms have "unat s div 65536 > 0" by (metis gr0I unat_eq_zero)
  moreover have "unat s = (unat s div 65536) * 65536 + unat s mod 65536" by simp
  ultimately have "unat s mod 65536 + unat s div 65536 < unat s" by linarith
  then show ?thesis using low drop unsigned_less [of s] by (simp add: unat_word_ariths)
qed

function fold_carries :: "u32 \<Rightarrow> u32" where
  "fold_carries s =
     (if drop_bit 16 s \<noteq> 0 then fold_carries ((s AND 0xffff) + drop_bit 16 s) else s)"
  by auto
termination by (relation "measure unat") (use fold_carry_less in auto)

declare fold_carries.simps [simp del]

definition CalculateIpChecksum :: "u16 \<Rightarrow> u32 \<Rightarrow> buf_iter \<Rightarrow> buf_heap \<Rightarrow> (u16 \<times> buf_iter) option" where
  "CalculateIpChecksum sz initialChecksum it h = do {
     (s, it) \<leftarrow> sum_words (unat sz div 2) initialChecksum it h;
     (s, it) \<leftarrow> (if sz AND 1 \<noteq> 0 then map_option (\<lambda>(v, it). (s + ucast v, it)) (it_ReadU8 it h)
                  else Some (s, it));
     Some (NOT (ucast (fold_carries s)), it) }"

section \<open>Iterators of a buffer\<close>

lemma it_Construct_simps [simp]:
  "it_zeroStart (it_Construct b v) = bb_zeroAreaStart b" "it_zeroEnd (it_Construct b v) = bb_zeroAreaEnd b"
  "it_dataStart (it_Construct b v) = bb_start b" "it_dataEnd (it_Construct b v) = bb_end b"
  "it_current (it_Construct b v) = v" "it_data (it_Construct b v) = bb_data b"
  "(it_Construct b v)\<lparr>it_current := u\<rparr> = it_Construct b u"
  by (simp_all add: it_Construct_def)

lemma bufs_ok_bounds:
  assumes "bufs_ok h (add_mset b B)"
  shows "bb_start b \<le> bb_zeroAreaStart b" "bb_zeroAreaStart b \<le> bb_zeroAreaEnd b" "bb_zeroAreaEnd b \<le> bb_end b"
    "bb_end b + size_limit < 2 ^ 32" "bb_zeroAreaStart b \<le> iend b"
proof -
  from assms obtain d where d: "data_ok d" "window_ok d b" by (rule bufs_okD)
  show "bb_start b \<le> bb_zeroAreaStart b" "bb_zeroAreaStart b \<le> bb_zeroAreaEnd b" "bb_zeroAreaEnd b \<le> bb_end b"
    using window_okD [OF d(2)] by simp_all
  show "bb_end b + size_limit < 2 ^ 32" "bb_zeroAreaStart b \<le> iend b"
    using window_bounds [OF d(2,1)] by simp_all
qed

lemma forth_ok [simp]:
  "bufs_ok h (add_mset b B) \<Longrightarrow> v + n \<le> bb_end b \<Longrightarrow> forth n (it_Construct b v) = it_Construct b (v + n)"
  using bufs_ok_bounds(4) [of h b B] by (simp add: forth_def)

lemma stored_phys:
  assumes "bufs_ok h (add_mset b B)" "bb_zeroAreaEnd b \<le> v" "v \<le> bb_end b"
  shows "stored (it_Construct b v) v = phys b v"
proof -
  note bnd = bufs_ok_bounds [OF assms(1)]
  have "sub32 (bb_zeroAreaEnd b) (bb_zeroAreaStart b) = bb_zeroAreaEnd b - bb_zeroAreaStart b"
    using bnd by (intro sub32_le) linarith+
  moreover have "sub32 v (bb_zeroAreaEnd b - bb_zeroAreaStart b) = v - (bb_zeroAreaEnd b - bb_zeroAreaStart b)"
    using bnd assms by (intro sub32_le) linarith+
  ultimately show ?thesis using bnd assms(2) by (auto simp: stored_def phys_def)
qed

lemma writable_zone:
  assumes "writable b B v n" "0 < n"
  shows "v + n \<le> bb_zeroAreaStart b \<or> bb_zeroAreaEnd b \<le> v \<or> bb_zeroAreaEnd b \<le> bb_zeroAreaStart b"
    "\<not> (bb_zeroAreaStart b \<le> v \<and> v < bb_zeroAreaEnd b)"
proof -
  have z: "\<not> (bb_zeroAreaStart b \<le> i \<and> i < bb_zeroAreaEnd b)" if "v \<le> i" "i < v + n" for i
    using assms(1) that unfolding writable_def by blast
  show "\<not> (bb_zeroAreaStart b \<le> v \<and> v < bb_zeroAreaEnd b)" using z [of v] assms(2) by simp
  with z [of "bb_zeroAreaStart b"]
  show "v + n \<le> bb_zeroAreaStart b \<or> bb_zeroAreaEnd b \<le> v \<or> bb_zeroAreaEnd b \<le> bb_zeroAreaStart b" by linarith
qed

lemma CheckNoZero_ok:
  assumes "bufs_ok h (add_mset b B)" "writable b B v n"
  shows "CheckNoZero v (add32 v n) (it_Construct b v)" "CheckNoZero v n (it_Construct b v)" "add32 v n = v + n"
proof -
  have r: "bb_start b \<le> v" "v + n \<le> bb_end b" using assms(2) by (simp_all add: writable_def)
  show a: "add32 v n = v + n" using r bufs_ok_bounds(4) [OF assms(1)] by simp
  show "CheckNoZero v (add32 v n) (it_Construct b v)" "CheckNoZero v n (it_Construct b v)"
    using writable_zone [OF assms(2)] r bufs_ok_bounds(2) [OF assms(1)] unfolding a CheckNoZero_def
    by (cases "n = 0"; auto)+
qed

text \<open>Writing a block, wherever the address of it is computed.\<close>

lemma write_block:
  assumes ok: "bufs_ok h (add_mset b B)" and wr: "writable b B v (length bs)" and p: "bs \<noteq> [] \<Longrightarrow> p = phys b v"
  shows "\<exists>h'. mem_write (bb_data b) p bs h = Some h' \<and> wrote h h' b B v bs"
proof (cases "bs = []")
  case True
  then show ?thesis using ok by (simp add: mem_write_def wrote_def)
next
  case False
  have "v + length bs \<le> bb_zeroAreaStart b \<or> bb_zeroAreaEnd b \<le> v \<or> bb_zeroAreaStart b = bb_zeroAreaEnd b"
    using writable_zone(1) [OF wr] False bufs_ok_bounds(2) [OF ok] by auto
  then show ?thesis using write_ok [OF ok wr] False p by auto
qed

lemma WriteU8_ok:
  assumes ok: "bufs_ok h (add_mset b B)" and wr: "writable b B v 1"
  shows "\<exists>h'. it_WriteU8 x (it_Construct b v) h = Some (it_Construct b (v + 1), h') \<and> wrote h h' b B v [x]"
proof -
  note z = writable_zone [OF wr]
  have r: "bb_start b \<le> v" "v + 1 \<le> bb_end b" using wr by (simp_all add: writable_def)
  have p: "(if v < bb_zeroAreaStart b then v else stored (it_Construct b v) v) = phys b v"
    using z(2) stored_phys [OF ok _, of v] r by (auto simp: phys_def)
  obtain h' where h': "mem_write (bb_data b) (phys b v) [x] h = Some h'" "wrote h h' b B v [x]"
    using write_block [OF ok, of v "[x]"] wr by auto
  have "it_Check v (it_Construct b v)" using z(2) r by (auto simp: it_Check_def)
  then have "it_WriteU8 x (it_Construct b v) h = Some (it_Construct b (v + 1), h')"
    using h'(1) p forth_ok [OF ok r(2)] by (auto simp: it_WriteU8_def split: if_splits)
  with h'(2) show ?thesis by blast
qed

lemma WriteBytes_ok:
  "bufs_ok h (add_mset b B) \<Longrightarrow> writable b B v (length bs) \<Longrightarrow>
     \<exists>h'. it_WriteBytes bs (it_Construct b v) h = Some (it_Construct b (v + length bs), h') \<and> wrote h h' b B v bs"
proof (induction bs arbitrary: v h)
  case Nil
  then show ?case by (simp add: wrote_def)
next
  case (Cons x bs)
  have w: "writable b B v 1" "writable b B (v + 1) (length bs)"
    using writable_split [of b B v 1 "length bs"] Cons.prems(2) by simp_all
  obtain h1 where h1: "it_WriteU8 x (it_Construct b v) h = Some (it_Construct b (v + 1), h1)" "wrote h h1 b B v [x]"
    using WriteU8_ok [OF Cons.prems(1) w(1)] by blast
  have ok1: "bufs_ok h1 (add_mset b B)" using h1(2) by (simp add: wrote_def)
  obtain h2 where h2: "it_WriteBytes bs (it_Construct b (v + 1)) h1 = Some (it_Construct b (v + 1 + length bs), h2)"
    "wrote h1 h2 b B (v + 1) bs" using Cons.IH [OF ok1 w(2)] by blast
  have "wrote h h2 b B v ([x] @ bs)"
    by (rule wrote_trans [OF Cons.prems(1) h1(2)]) (use h2(2) Cons.prems(2) in \<open>auto simp: writable_def\<close>)
  then show ?case using h1(1) h2(1) by simp
qed

lemma block_address:
  assumes ok: "bufs_ok h (add_mset b B)" and wr: "writable b B v n" "0 < n"
  shows "(if v \<le> bb_zeroAreaStart b then v else stored (it_Construct b v) v) = phys b v"
    "(if v + n \<le> bb_zeroAreaStart b then v else stored (it_Construct b v) v) = phys b v"
proof -
  note z = writable_zone [OF wr] and bnd = bufs_ok_bounds [OF ok]
  have r: "v \<le> bb_end b" using wr(1) by (simp add: writable_def)
  show "(if v \<le> bb_zeroAreaStart b then v else stored (it_Construct b v) v) = phys b v"
    using z bnd(2) stored_phys [OF ok _ r] by (auto simp: phys_def)
  have "stored (it_Construct b v) v = phys b v" if "\<not> v + n \<le> bb_zeroAreaStart b" "v < bb_zeroAreaEnd b"
  proof -
    have "bb_zeroAreaEnd b = bb_zeroAreaStart b" using that z bnd(2) by auto
    then have "stored (it_Construct b v) v = v"
      using r bnd(4) by (simp add: stored_def sub32_def)
    then show ?thesis using \<open>bb_zeroAreaEnd b = bb_zeroAreaStart b\<close> by (simp add: phys_def)
  qed
  then show "(if v + n \<le> bb_zeroAreaStart b then v else stored (it_Construct b v) v) = phys b v"
    using stored_phys [OF ok _ r] wr(2) by (cases "v < bb_zeroAreaEnd b") (auto simp: phys_def)
qed

lemma FillU8_ok:
  assumes ok: "bufs_ok h (add_mset b B)" and wr: "writable b B v n"
  shows "\<exists>h'. it_FillU8 x n (it_Construct b v) h = Some (it_Construct b (v + n), h') \<and> wrote h h' b B v (replicate n x)"
proof -
  have r: "v + n \<le> bb_end b" using wr by (simp add: writable_def)
  show ?thesis
    using write_block [OF ok, of v "replicate n x" "if v \<le> bb_zeroAreaStart b then v else stored (it_Construct b v) v"]
      wr block_address(1) [OF ok wr] CheckNoZero_ok [OF ok wr] forth_ok [OF ok r]
    by (auto simp: it_FillU8_def)
qed

lemma Write_ok:
  assumes ok: "bufs_ok h (add_mset b B)" and wr: "writable b B v (length bs)"
  shows "\<exists>h'. it_Write bs (it_Construct b v) h = Some (it_Construct b (v + length bs), h') \<and> wrote h h' b B v bs"
proof -
  have r: "v + length bs \<le> bb_end b" using wr by (simp add: writable_def)
  show ?thesis
    using write_block [OF ok wr, of "if v \<le> bb_zeroAreaStart b then v else stored (it_Construct b v) v"]
      block_address(1) [OF ok wr] CheckNoZero_ok(2) [OF ok wr] forth_ok [OF ok r]
    by (auto simp: it_Write_def)
qed

lemma write_hton_ok:
  assumes ok: "bufs_ok h (add_mset b B)" and wr: "writable b B v (length bs)"
  shows "\<exists>h'. write_hton bs (it_Construct b v) h = Some (it_Construct b (v + length bs), h') \<and> wrote h h' b B v bs"
proof -
  have r: "v + length bs \<le> bb_end b" using wr by (simp add: writable_def)
  show ?thesis
    using write_block [OF ok wr, of "if v + length bs \<le> bb_zeroAreaStart b then v else stored (it_Construct b v) v"]
      block_address(2) [OF ok wr] CheckNoZero_ok [OF ok wr] forth_ok [OF ok r]
    by (auto simp: write_hton_def Let_def)
qed

section \<open>Reading what is there\<close>

lemma PeekU8_ok:
  assumes ok: "bufs_ok h (add_mset b B)" and v: "bb_start b \<le> v" "v < bb_end b"
  shows "it_PeekU8 (it_Construct b v) h = Some (contents h b ! (v - bb_start b))"
proof -
  from ok obtain d where d: "bh_cells h (bb_data b) = Some d" "data_ok d" "window_ok d b"
    "dat h (bb_data b) = Some (d\<lparr>bd_count := 0\<rparr>)" by (rule bufs_okD)
  note w = window_okD [OF d(3)]
  have len: "iend b \<le> length (bd_bytes d)" using d(2) w(6) by (simp add: data_ok_def)
  have byte: "map_option hd (mem_read (bb_data b) (phys b v) 1 h) = Some (bd_bytes d ! phys b v)"
    if "\<not> (bb_zeroAreaStart b \<le> v \<and> v < bb_zeroAreaEnd b)"
  proof -
    have "phys b v < length (bd_bytes d)" using that w v len by (auto simp: phys_def iend_def)
    then show ?thesis using d(1) by (simp add: mem_read_def hd_drop_conv_nth)
  qed
  have "contents h b ! (v - bb_start b) =
      (if bb_zeroAreaStart b \<le> v \<and> v < bb_zeroAreaEnd b then 0 else bd_bytes d ! phys b v)"
    using nth_contents_in [OF d(3,2), of "v - bb_start b"] v d(4) by (simp add: contents_def)
  moreover have "phys b v = v" if "v < bb_zeroAreaStart b" using that by (simp add: phys_def)
  ultimately show ?thesis
    using byte v stored_phys [OF ok, of v] by (auto simp: it_PeekU8_def not_less)
qed

lemma Read_ok:
  assumes ok: "bufs_ok h (add_mset b B)"
  shows "bb_start b \<le> v \<Longrightarrow> v + n \<le> bb_end b \<Longrightarrow>
    it_Read n (it_Construct b v) h = Some (take n (drop (v - bb_start b) (contents h b)), it_Construct b (v + n))"
proof (induction n arbitrary: v)
  case (Suc n)
  let ?k = "v - bb_start b"
  have len: "?k < length (contents h b)" using bufs_ok_size(1,2) [OF ok] Suc.prems by simp
  have "it_ReadU8 (it_Construct b v) h = Some (contents h b ! ?k, it_Construct b (v + 1))"
    using PeekU8_ok [OF ok Suc.prems(1)] Suc.prems(2) forth_ok [OF ok, of v 1] by (simp add: it_ReadU8_def)
  moreover have "it_Read n (it_Construct b (v + 1)) h =
      Some (take n (drop (Suc ?k) (contents h b)), it_Construct b (v + Suc n))"
    using Suc.IH [of "v + 1"] Suc.prems by (simp add: Suc_diff_le)
  moreover have "drop ?k (contents h b) = contents h b ! ?k # drop (Suc ?k) (contents h b)"
    using len by (simp add: Cons_nth_drop_Suc)
  ultimately show ?case by simp
qed simp

text \<open>A block read without the checks.\<close>

lemma mem_read_block:
  assumes ok: "bufs_ok h (add_mset b B)" and v: "bb_start b \<le> v" "v + n \<le> bb_end b"
    and block: "v + n \<le> bb_zeroAreaStart b \<or> bb_zeroAreaEnd b \<le> v"
    and p: "0 < n \<Longrightarrow> p = phys b v"
  shows "mem_read (bb_data b) p n h = Some (take n (drop (v - bb_start b) (contents h b)))"
proof (cases "n = 0")
  case True
  then show ?thesis by (simp add: mem_read_def)
next
  case False
  from ok obtain d where d: "bh_cells h (bb_data b) = Some d" "data_ok d" "window_ok d b"
    "dat h (bb_data b) = Some (d\<lparr>bd_count := 0\<rparr>)" by (rule bufs_okD)
  note w = window_okD [OF d(3)]
  have len: "iend b \<le> length (bd_bytes d)" using d(2) w(6) by (simp add: data_ok_def)
  have shift: "phys b (v + k) = phys b v + k" if "k < n" for k
    using that block w by (auto simp: phys_def)
  have top: "phys b v + n \<le> length (bd_bytes d)"
    using block w v len False by (auto simp: phys_def iend_def)
  have "take n (drop (phys b v) (bd_bytes d)) = take n (drop (v - bb_start b) (contents h b))"
  proof (rule nth_equalityI)
    show "length (take n (drop (phys b v) (bd_bytes d))) = length (take n (drop (v - bb_start b) (contents h b)))"
      using top v bufs_ok_size(1,2) [OF ok] by simp
    fix k assume "k < length (take n (drop (phys b v) (bd_bytes d)))"
    then have k: "k < n" by simp
    have "\<not> (bb_zeroAreaStart b \<le> v + k \<and> v + k < bb_zeroAreaEnd b)" using block k by auto
    then have "contents h b ! (v + k - bb_start b) = bd_bytes d ! phys b (v + k)"
      using nth_contents_in [OF d(3,2), of "v + k - bb_start b"] v k d(4) by (auto simp: contents_def)
    then show "take n (drop (phys b v) (bd_bytes d)) ! k = take n (drop (v - bb_start b) (contents h b)) ! k"
      using k shift [OF k] v top bufs_ok_size(1,2) [OF ok] by simp
  qed
  then show ?thesis using d(1) top p False by (simp add: mem_read_def)
qed

lemma ReadLsb_ok:
  assumes "bufs_ok h (add_mset b B)" "bb_start b \<le> v" "v + n \<le> bb_end b"
  shows "it_ReadLsb n (it_Construct b v) h
    = Some (from_lsb (take n (drop (v - bb_start b) (contents h b))), it_Construct b (v + n))"
  using Read_ok [OF assms] by (simp add: it_ReadLsb_def)

lemma ReadMsb_ok:
  assumes "bufs_ok h (add_mset b B)" "bb_start b \<le> v" "v + n \<le> bb_end b"
  shows "it_ReadMsb n (it_Construct b v) h
    = Some (from_msb (take n (drop (v - bb_start b) (contents h b))), it_Construct b (v + n))"
  using Read_ok [OF assms] by (simp add: it_ReadMsb_def)

text \<open>The fast paths read what the slow path does.\<close>

lemma read_ntoh_ok:
  assumes ok: "bufs_ok h (add_mset b B)" and v: "bb_start b \<le> v" "v + n \<le> bb_end b"
  shows "read_ntoh n (it_ReadMsb n) (it_Construct b v) h
    = Some (from_msb (take n (drop (v - bb_start b) (contents h b))), it_Construct b (v + n))"
proof -
  have a: "add32 v n = v + n" using v bufs_ok_bounds(4) [OF ok] by simp
  consider "v + n \<le> bb_zeroAreaStart b" | "\<not> v + n \<le> bb_zeroAreaStart b" "bb_zeroAreaEnd b \<le> v"
    | "\<not> v + n \<le> bb_zeroAreaStart b" "\<not> bb_zeroAreaEnd b \<le> v" by blast
  then show ?thesis
  proof cases
    case 1
    then have "mem_read (bb_data b) v n h = Some (take n (drop (v - bb_start b) (contents h b)))"
      by (intro mem_read_block [OF ok v]) (auto simp: phys_def)
    then show ?thesis using 1 a forth_ok [OF ok v(2)] by (simp add: read_ntoh_def)
  next
    case 2
    then have "mem_read (bb_data b) (stored (it_Construct b v) v) n h = Some (take n (drop (v - bb_start b) (contents h b)))"
      using stored_phys [OF ok] v by (intro mem_read_block [OF ok v]) auto
    then show ?thesis using 2 a forth_ok [OF ok v(2)] by (simp add: read_ntoh_def)
  next
    case 3
    then show ?thesis using a ReadMsb_ok [OF ok v] by (simp add: read_ntoh_def)
  qed
qed

section \<open>Numbers\<close>

definition to_lsb :: "nat \<Rightarrow> 'a::len word \<Rightarrow> u8 list" where
  "to_lsb n x = map (\<lambda>i. byte_at i x) [0..<n]"

lemma length_to_lsb [simp]: "length (to_lsb n x) = n"
  by (simp add: to_lsb_def)

lemma shift_in_0 [simp]: "shift_in v 0 = ucast v"
  by (simp add: shift_in_def)

lemma lsb_lists:
  "to_lsb 2 x = [byte_at 0 x, byte_at 1 x]"
  "to_lsb 4 y = [byte_at 0 y, byte_at 1 y, byte_at 2 y, byte_at 3 y]"
  "to_lsb 8 z = [byte_at 0 z, byte_at 1 z, byte_at 2 z, byte_at 3 z, byte_at 4 z, byte_at 5 z, byte_at 6 z, byte_at 7 z]"
  by (simp_all add: to_lsb_def upt_rec numeral_eq_Suc)

lemma from_lsb_to_lsb [simp]:
  "from_lsb (to_lsb 2 x) = (x :: u16)" "from_lsb (to_lsb 4 y) = (y :: u32)" "from_lsb (to_lsb 8 z) = (z :: u64)"
  using rejoin_byte [of 0 x] top_byte [of 1 x] join_u32 [of y] join_u64 [of z]
  by (simp_all add: lsb_lists from_lsb_def)

lemma from_msb_rev: "from_msb (rev bs) = from_lsb bs"
  by (simp add: from_msb_def from_lsb_def foldr_conv_fold)

text \<open>The functions of the interface, by the bytes they write or read.\<close>

lemma writers:
  "it_WriteU16 x = it_WriteBytes (to_lsb 2 x)" "it_WriteU32 y = it_WriteBytes (to_lsb 4 y)"
  "it_WriteU64 z = it_WriteBytes (to_lsb 8 z)" "it_WriteHtolsbU16 x = it_WriteBytes (to_lsb 2 x)"
  "it_WriteHtolsbU32 y = it_WriteBytes (to_lsb 4 y)" "it_WriteHtolsbU64 z = it_WriteBytes (to_lsb 8 z)"
  "it_WriteHtonU64 z = it_WriteBytes (rev (to_lsb 8 z))" "it_WriteHtonU16 x = write_hton (rev (to_lsb 2 x))"
  "it_WriteHtonU32 y = write_hton (rev (to_lsb 4 y))"
  by (simp_all add: lsb_lists it_WriteU16_def it_WriteU32_def it_WriteU64_def it_WriteHtolsbU16_def
      it_WriteHtolsbU32_def it_WriteHtolsbU64_def it_WriteHtonU64_def it_WriteHtonU16_def it_WriteHtonU32_def)

lemmas readers = it_ReadU16_def it_ReadU32_def it_ReadU64_def it_ReadLsbtohU16_def it_ReadLsbtohU32_def
  it_ReadLsbtohU64_def it_SlowReadNtohU16_def it_SlowReadNtohU32_def it_ReadNtohU64_def it_ReadNtohU16_def
  it_ReadNtohU32_def

lemma wrote_read:
  assumes "bufs_ok h (add_mset b B)" "wrote h h' b B v bs" "bb_start b \<le> v" "v + length bs \<le> bb_end b"
  shows "bufs_ok h' (add_mset b B)" "take (length bs) (drop (v - bb_start b) (contents h' b)) = bs"
  using assms bufs_ok_size(1,2) [OF assms(1)] by (simp_all add: wrote_def put_bytes_def)

end
