(* ===== verification/BufferCopies.thy ===== *)
theory BufferCopies
  imports BufferIterator
begin

text \<open>
  The operations of \<open>Buffer\<close> on whole contents (\<open>network/model/buffer.cc\<close>): copies without a zero area,
  appending another buffer, and copying the bytes out.

  \<open>AddAtEnd(const Buffer&)\<close> appends the contents of the other buffer, except in two cases that theory
  \<open>BufferDefects\<close> exhibits: its optimisation for adjacent zero areas writes the bytes behind the zero
  area to the wrong place, and a copy of the same buffer cannot be appended.
\<close>

section \<open>Operations\<close>

definition buf_CreateFullCopy :: "byte_buffer \<Rightarrow> buf_heap \<Rightarrow> (byte_buffer \<times> buf_heap) option" where
  "buf_CreateFullCopy b h =
     (let zeroSize = sub32 (bb_zeroAreaEnd b) (bb_zeroAreaStart b) in
      if zeroSize \<noteq> 0 then do {
        (tmp, h) \<leftarrow> buf_Initialize 0 h;
        (tmp, h) \<leftarrow> buf_AddAtStart zeroSize tmp h;
        (_, h) \<leftarrow> it_FillU8 0 zeroSize (buf_Begin tmp) h;
        let dataStart = sub32 (bb_zeroAreaStart b) (bb_start b) in do {
        (tmp, h) \<leftarrow> buf_AddAtStart dataStart tmp h;
        bs \<leftarrow> mem_read (bb_data b) (bb_start b) dataStart h;
        (_, h) \<leftarrow> it_Write bs (buf_Begin tmp) h;
        let dataEnd = sub32 (bb_end b) (bb_zeroAreaEnd b) in do {
        (tmp, h) \<leftarrow> buf_AddAtEnd dataEnd tmp h;
        i \<leftarrow> it_Prev dataEnd (buf_End tmp);
        bs \<leftarrow> mem_read (bb_data b) (bb_zeroAreaStart b) dataEnd h;
        (_, h) \<leftarrow> it_Write bs i h;
        Some (tmp, h) } } }
      else buf_copy b h)"

text \<open>\<open>this\<close> and \<open>o\<close> are different objects.\<close>

definition buf_AddAtEndBuffer :: "byte_buffer \<Rightarrow> byte_buffer \<Rightarrow> buf_heap \<Rightarrow> (byte_buffer \<times> buf_heap) option" where
  "buf_AddAtEndBuffer o' b h = do {
     d \<leftarrow> bh_cells h (bb_data b);
     if bd_count d = 1 \<and> (bb_end b = bb_zeroAreaEnd b \<or> bb_zeroAreaStart b = bb_zeroAreaEnd b)
        \<and> bb_end b = bd_dirtyEnd d \<and> bb_start o' = bb_zeroAreaStart o'
        \<and> sub32 (bb_zeroAreaEnd o') (bb_zeroAreaStart o') > 0
     then do {
       let zeroSize = sub32 (bb_zeroAreaEnd o') (bb_zeroAreaStart o');
           newEnd = add32 (bb_end b) zeroSize;
           b = b\<lparr>bb_zeroAreaStart := (if bb_zeroAreaStart b = bb_zeroAreaEnd b then bb_end b else bb_zeroAreaStart b),
                 bb_zeroAreaEnd := newEnd, bb_end := newEnd\<rparr>;
           endData = sub32 (bb_end o') (bb_zeroAreaEnd o') in do {
       h \<leftarrow> upd_data (bb_data b) (\<lambda>d. d\<lparr>bd_dirtyEnd := newEnd\<rparr>) h;
       (b, h) \<leftarrow> buf_AddAtEnd endData b h;
       dst \<leftarrow> it_Prev endData (buf_End b);
       src \<leftarrow> it_Prev endData (buf_End o');
       (_, h) \<leftarrow> it_WriteRange src (buf_End o') dst h;
       Some (b, h) } }
     else do {
       (tmp, h) \<leftarrow> buf_CreateFullCopy b h;
       (b, h) \<leftarrow> buf_assign b tmp h;
       h \<leftarrow> buf_destroy tmp h;
       (b, h) \<leftarrow> buf_AddAtEnd (buf_GetSize o') b h;
       destStart \<leftarrow> it_Prev (buf_GetSize o') (buf_End b);
       (_, h) \<leftarrow> it_WriteRange (buf_Begin o') (buf_End o') destStart h;
       Some (b, h) } }"

definition buf_TransformIntoRealBuffer :: "byte_buffer \<Rightarrow> buf_heap \<Rightarrow> (byte_buffer \<times> buf_heap) option" where
  "buf_TransformIntoRealBuffer b h = do {
     (tmp, h) \<leftarrow> buf_CreateFullCopy b h;
     (b, h) \<leftarrow> buf_assign b tmp h;
     h \<leftarrow> buf_destroy tmp h;
     Some (b, h) }"

text \<open>The pointer that \<open>PeekData\<close> returns is the address of the data and a position in it.\<close>

definition buf_PeekData :: "byte_buffer \<Rightarrow> buf_heap \<Rightarrow> ((addr \<times> nat) \<times> byte_buffer \<times> buf_heap) option" where
  "buf_PeekData b h = do {
     (b, h) \<leftarrow> buf_TransformIntoRealBuffer b h;
     Some ((bb_data b, bb_start b), b, h) }"

text \<open>The zeroes are written in pieces of 1000.\<close>

function zero_pieces :: "nat \<Rightarrow> u8 list" where
  "zero_pieces left = (if left > 0 then let toWrite = min left 1000 in
     replicate toWrite 0 @ zero_pieces (left - toWrite) else [])"
  by auto
termination by (relation "measure id") auto

declare zero_pieces.simps [simp del]

definition buf_CopyData_stream :: "nat \<Rightarrow> byte_buffer \<Rightarrow> buf_heap \<Rightarrow> u8 list option" where
  \<comment> \<open>\<open>CopyData(std::ostream*, uint32_t)\<close>: what is written\<close>
  "buf_CopyData_stream sz b h =
     (let dataStart = sub32 (bb_zeroAreaStart b) (bb_start b);
          zeroSize = sub32 (bb_zeroAreaEnd b) (bb_zeroAreaStart b) in
      if sz > 0 then do {
        let tmpsize = min dataStart sz in do {
        bs \<leftarrow> mem_read (bb_data b) (bb_start b) tmpsize h;
        if sz > tmpsize then
          let sz = sub32 sz dataStart; tmpsize = min zeroSize sz in
          if sz > tmpsize then
            let sz = sub32 sz tmpsize; n = min (sub32 (bb_end b) (bb_zeroAreaEnd b)) sz in do {
            es \<leftarrow> mem_read (bb_data b) (bb_zeroAreaStart b) n h;
            Some (bs @ zero_pieces tmpsize @ es) }
          else Some (bs @ zero_pieces tmpsize)
        else Some bs } }
      else Some [])"

definition buf_CopyData :: "nat \<Rightarrow> byte_buffer \<Rightarrow> buf_heap \<Rightarrow> (nat \<times> u8 list) option" where
  \<comment> \<open>\<open>CopyData(uint8_t*, uint32_t)\<close>: the size returned, and what is copied\<close>
  "buf_CopyData originalSize b h =
     (let sz = originalSize in
      if sz > 0 then do {
        let tmpsize = min (sub32 (bb_zeroAreaStart b) (bb_start b)) sz in do {
        bs \<leftarrow> mem_read (bb_data b) (bb_start b) tmpsize h;
        let sz = sub32 sz tmpsize in
        if sz > 0 then
          let tmpsize = min (sub32 (bb_zeroAreaEnd b) (bb_zeroAreaStart b)) sz; zs = zero_pieces tmpsize;
              sz = sub32 sz tmpsize in
          if sz > 0 then
            let tmpsize = min (sub32 (bb_end b) (bb_zeroAreaEnd b)) sz in do {
            es \<leftarrow> mem_read (bb_data b) (bb_zeroAreaStart b) tmpsize h;
            Some (sub32 originalSize (sub32 sz tmpsize), bs @ zs @ es) }
          else Some (sub32 originalSize sz, bs @ zs)
        else Some (sub32 originalSize sz, bs) } }
      else Some (0, []))"

section \<open>Copying between buffers\<close>

abbreviation slice :: "buf_heap \<Rightarrow> byte_buffer \<Rightarrow> nat \<Rightarrow> nat \<Rightarrow> u8 list" where
  "slice h c u n \<equiv> take n (drop (u - bb_start c) (contents h c))"

lemma slice_split:
  "bb_start c \<le> u \<Longrightarrow> slice h c u (m + n) = slice h c u m @ slice h c (u + m) n"
  by (simp add: take_add add.commute)

lemma length_slice:
  "bufs_ok h (add_mset c B) \<Longrightarrow> bb_start c \<le> u \<Longrightarrow> u + n \<le> bb_end c \<Longrightarrow> length (slice h c u n) = n"
  using bufs_ok_size(1,2) [of h c B] by simp

lemma slice_zeroes:
  assumes ok: "bufs_ok h (add_mset c B)" and u: "bb_zeroAreaStart c \<le> u" "u + n \<le> bb_zeroAreaEnd c"
  shows "slice h c u n = replicate n 0"
proof -
  from ok obtain d where d: "data_ok d" "window_ok d c" "dat h (bb_data c) = Some (d\<lparr>bd_count := 0\<rparr>)"
    by (rule bufs_okD)
  note bnd = bufs_ok_bounds [OF ok]
  have len: "length (slice h c u n) = n" by (rule length_slice [OF ok]) (use u bnd in auto)
  show ?thesis
  proof (rule nth_equalityI)
    fix k assume k: "k < length (slice h c u n)"
    then have kn: "k < n" using len by simp
    then have "contents h c ! (u - bb_start c + k) = 0"
      using nth_contents_in [OF d(2,1), of "u - bb_start c + k"] u bnd d(3) by (auto simp: contents_def)
    then show "slice h c u n ! k = replicate n 0 ! k" using k kn by simp
  qed (use len in simp)
qed

text \<open>One step of \<open>Write(Iterator, Iterator)\<close>: the bytes go to where the iterator is.\<close>

lemma range_write:
  assumes ok: "bufs_ok h (add_mset b B)" and wr: "writable b B v (length bs)"
    and direct: "bs \<noteq> [] \<Longrightarrow> v + length bs \<le> bb_zeroAreaStart b \<or> zero_size b = 0"
  shows "\<exists>h'. mem_write (bb_data b) v bs h = Some h' \<and> wrote h h' b B v bs"
proof -
  have "v = phys b v" if "bs \<noteq> []"
  proof -
    have "v < bb_zeroAreaStart b \<or> zero_size b = 0" using direct [OF that] that by (cases bs) auto
    then show ?thesis by (auto simp: phys_def zero_size_def)
  qed
  then show ?thesis using write_block [OF ok wr] by blast
qed

lemma copy_step_ok:
  assumes ok: "bufs_ok h (add_mset b B)" and wr: "writable b B v (k + m)"
    and direct: "0 < k + m \<Longrightarrow> v + (k + m) \<le> bb_zeroAreaStart b \<or> zero_size b = 0"
    and src: "src = Some bs" "length bs = k" and c: "bufs_ok h (add_mset c C)" "u + k \<le> bb_end c" "k + m < 2 ^ 32"
  shows "\<exists>h'. copy_step k src (it_Construct b v) (it_Construct c u) (k + m) h
      = Some (it_Construct b (v + k), it_Construct c (u + k), m, h')
    \<and> wrote h h' b B v bs \<and> writable b B (v + k) m"
proof -
  have w: "writable b B v k" "writable b B (v + k) m" using writable_split [OF wr] by simp_all
  then obtain h' where h': "mem_write (bb_data b) v bs h = Some h'" "wrote h h' b B v bs"
    using range_write [OF ok, of v bs] src(2) direct by fastforce
  have "v + k \<le> bb_end b" using w(1) by (simp add: writable_def)
  then show ?thesis using h' src(1) w(2) forth_ok [OF ok] forth_ok [OF c(1,2)] c(3)
    by (simp add: copy_step_def)
qed

lemma WriteRange_ok:
  assumes ok: "bufs_ok h (add_mset b (add_mset c B))" and wr: "writable b (add_mset c B) v n"
    and direct: "0 < n \<Longrightarrow> v + n \<le> bb_zeroAreaStart b \<or> zero_size b = 0"
    and u: "bb_start c \<le> u" "u + n \<le> bb_end c" and data: "bb_data b \<noteq> bb_data c"
  shows "\<exists>h'. it_WriteRange (it_Construct c u) (it_Construct c (u + n)) (it_Construct b v) h
      = Some (it_Construct b (v + n), h')
    \<and> wrote h h' b (add_mset c B) v (slice h c u n)"
proof -
  let ?B = "add_mset c B"
  have okc: "bufs_ok g (add_mset c (add_mset b B))" if "bufs_ok g (add_mset b ?B)" for g
    using that by (simp add: add_mset_commute)
  note bc = bufs_ok_bounds [OF okc [OF ok]]
  have n32: "n < 2 ^ 32" using u bc(4) by simp
  have n: "sub32 (u + n) u = n" using u bc(4) by simp
  define k1 where "k1 = (if u \<le> bb_zeroAreaStart c then min n (bb_zeroAreaStart c - u) else 0)"
  define u1 where "u1 = u + k1"
  define k2 where "k2 = (if u1 \<le> bb_zeroAreaEnd c then min (n - k1) (bb_zeroAreaEnd c - u1) else 0)"
  define u2 where "u2 = u1 + k2"
  define k3 where "k3 = n - k1 - k2"
  have k: "k1 \<le> n" "k2 \<le> n - k1" "n = k1 + (k2 + k3)"
  proof -
    show 1: "k1 \<le> n" "k2 \<le> n - k1" by (simp_all add: k1_def k2_def)
    then show "n = k1 + (k2 + k3)" by (simp add: k3_def)
  qed
  have ends: "u + k1 \<le> bb_end c" "u1 + k2 \<le> bb_end c" "u2 + k3 \<le> bb_end c" "bb_start c \<le> u1" "bb_start c \<le> u2"
    using k u unfolding u2_def u1_def by linarith+
  have zone: "k2 = 0 \<or> bb_zeroAreaStart c \<le> u1 \<and> u1 + k2 \<le> bb_zeroAreaEnd c" "k3 = 0 \<or> bb_zeroAreaEnd c \<le> u2"
  proof -
    have a: "bb_zeroAreaStart c \<le> u1" if "k1 < n"
    proof (cases "u \<le> bb_zeroAreaStart c")
      case True
      then have "k1 = bb_zeroAreaStart c - u" using that by (simp add: k1_def)
      with True show ?thesis by (simp add: u1_def)
    qed (simp add: u1_def k1_def)
    have b: "u1 + k2 \<le> bb_zeroAreaEnd c \<and> k1 < n" if "0 < k2"
    proof (cases "u1 \<le> bb_zeroAreaEnd c")
      case True
      then have "k2 \<le> bb_zeroAreaEnd c - u1" by (simp add: k2_def)
      with True that k show ?thesis by simp
    qed (use that in \<open>simp add: k2_def\<close>)
    from a b show "k2 = 0 \<or> bb_zeroAreaStart c \<le> u1 \<and> u1 + k2 \<le> bb_zeroAreaEnd c" by blast
    have "bb_zeroAreaEnd c \<le> u2" if "k2 < n - k1"
    proof (cases "u1 \<le> bb_zeroAreaEnd c")
      case True
      then have "k2 = bb_zeroAreaEnd c - u1" using that by (simp add: k2_def)
      with True show ?thesis by (simp add: u2_def)
    qed (simp add: u2_def k2_def)
    then show "k3 = 0 \<or> bb_zeroAreaEnd c \<le> u2" by (simp add: k3_def) linarith
  qed
  have sub: "u \<le> bb_zeroAreaStart c \<Longrightarrow> sub32 (bb_zeroAreaStart c) u = bb_zeroAreaStart c - u"
    "u1 \<le> bb_zeroAreaEnd c \<Longrightarrow> sub32 (bb_zeroAreaEnd c) u1 = bb_zeroAreaEnd c - u1"
    "sub32 (bb_end c) u2 = bb_end c - u2"
    using bc ends by (auto intro!: sub32_le)
  \<comment> \<open>the bytes in front of the zero area\<close>
  have "\<exists>h1. (if u \<le> bb_zeroAreaStart c
        then let toCopy = min n (sub32 (bb_zeroAreaStart c) u) in
          copy_step toCopy (mem_read (bb_data c) u toCopy h) (it_Construct b v) (it_Construct c u) n h
        else Some (it_Construct b v, it_Construct c u, n, h))
      = Some (it_Construct b (v + k1), it_Construct c u1, k2 + k3, h1)
    \<and> wrote h h1 b ?B v (slice h c u k1) \<and> writable b ?B (v + k1) (k2 + k3)"
  proof (cases "u \<le> bb_zeroAreaStart c")
    case True
    then have k1: "min n (sub32 (bb_zeroAreaStart c) u) = k1" using sub(1) by (simp add: k1_def)
    have src: "mem_read (bb_data c) u k1 h = Some (slice h c u k1)"
      by (rule mem_read_block [OF okc [OF ok] u(1) ends(1)])
        (use True in \<open>auto simp: phys_def k1_def\<close>)
    have "\<exists>h1. copy_step k1 (mem_read (bb_data c) u k1 h) (it_Construct b v) (it_Construct c u) (k1 + (k2 + k3)) h
        = Some (it_Construct b (v + k1), it_Construct c (u + k1), k2 + k3, h1)
      \<and> wrote h h1 b ?B v (slice h c u k1) \<and> writable b ?B (v + k1) (k2 + k3)"
      by (rule copy_step_ok [OF ok _ _ src length_slice [OF okc [OF ok] u(1) ends(1)] okc [OF ok] ends(1)])
        (use wr direct k(3) n32 in auto)
    then show ?thesis using True k1 k(3) by (simp add: Let_def u1_def)
  next
    case False
    then have "k1 = 0" by (simp add: k1_def)
    then show ?thesis using False wr ok k(3) by (simp add: u1_def wrote_def)
  qed
  then obtain h1 where h1: "(if u \<le> bb_zeroAreaStart c
        then let toCopy = min n (sub32 (bb_zeroAreaStart c) u) in
          copy_step toCopy (mem_read (bb_data c) u toCopy h) (it_Construct b v) (it_Construct c u) n h
        else Some (it_Construct b v, it_Construct c u, n, h))
      = Some (it_Construct b (v + k1), it_Construct c u1, k2 + k3, h1)"
    "wrote h h1 b ?B v (slice h c u k1)" "writable b ?B (v + k1) (k2 + k3)" by blast
  have ok1: "bufs_ok h1 (add_mset b ?B)" and c1: "contents h1 c = contents h c"
    using h1(2) by (simp_all add: wrote_def)
  \<comment> \<open>the zeroes\<close>
  have "\<exists>h2. (if u1 \<le> bb_zeroAreaEnd c
        then let toCopy = min (k2 + k3) (sub32 (bb_zeroAreaEnd c) u1) in
          copy_step toCopy (Some (replicate toCopy 0)) (it_Construct b (v + k1)) (it_Construct c u1) (k2 + k3) h1
        else Some (it_Construct b (v + k1), it_Construct c u1, k2 + k3, h1))
      = Some (it_Construct b (v + k1 + k2), it_Construct c u2, k3, h2)
    \<and> wrote h1 h2 b ?B (v + k1) (slice h c u1 k2) \<and> writable b ?B (v + k1 + k2) k3"
  proof (cases "u1 \<le> bb_zeroAreaEnd c")
    case True
    have "n - k1 = k2 + k3" using k(3) by linarith
    then have "k2 = min (k2 + k3) (bb_zeroAreaEnd c - u1)" using True k2_def by simp
    then have k2: "min (k2 + k3) (sub32 (bb_zeroAreaEnd c) u1) = k2" using sub(2) [OF True] by simp
    have sl: "slice h c u1 k2 = replicate k2 0"
      using zone(1) slice_zeroes [OF okc [OF ok], of u1 k2] by auto
    have "\<exists>h2. copy_step k2 (Some (replicate k2 0)) (it_Construct b (v + k1)) (it_Construct c u1) (k2 + k3) h1
        = Some (it_Construct b (v + k1 + k2), it_Construct c (u1 + k2), k3, h2)
      \<and> wrote h1 h2 b ?B (v + k1) (replicate k2 0) \<and> writable b ?B (v + k1 + k2) k3"
      by (rule copy_step_ok [OF ok1 h1(3) _ refl _ okc [OF ok1] ends(2)])
        (use direct k(3) n32 in auto)
    then show ?thesis using True k2 sl by (simp add: Let_def u2_def)
  next
    case False
    then have "k2 = 0" by (simp add: k2_def)
    then show ?thesis using False h1(3) ok1 by (simp add: u2_def wrote_def)
  qed
  then obtain h2 where h2: "(if u1 \<le> bb_zeroAreaEnd c
        then let toCopy = min (k2 + k3) (sub32 (bb_zeroAreaEnd c) u1) in
          copy_step toCopy (Some (replicate toCopy 0)) (it_Construct b (v + k1)) (it_Construct c u1) (k2 + k3) h1
        else Some (it_Construct b (v + k1), it_Construct c u1, k2 + k3, h1))
      = Some (it_Construct b (v + k1 + k2), it_Construct c u2, k3, h2)"
    "wrote h1 h2 b ?B (v + k1) (slice h c u1 k2)" "writable b ?B (v + k1 + k2) k3" by blast
  have ok2: "bufs_ok h2 (add_mset b ?B)" and c2: "contents h2 c = contents h c"
    using h2(2) c1 by (simp_all add: wrote_def)
  \<comment> \<open>the bytes behind it\<close>
  have k3: "min k3 (sub32 (bb_end c) u2) = k3" using sub(3) ends by simp
  have src3: "mem_read (bb_data c) (stored (it_Construct c u2) u2) k3 h2 = Some (slice h c u2 k3)"
  proof (cases "k3 = 0")
    case True
    then show ?thesis by (simp add: mem_read_def)
  next
    case False
    then have z: "bb_zeroAreaEnd c \<le> u2" using zone(2) by simp
    have "mem_read (bb_data c) (stored (it_Construct c u2) u2) k3 h2 = Some (slice h2 c u2 k3)"
      by (rule mem_read_block [OF okc [OF ok2] ends(5,3)])
        (use z stored_phys [OF okc [OF ok2] z] ends in auto)
    then show ?thesis using c2 by simp
  qed
  have len3: "length (slice h c u2 k3) = k3" by (rule length_slice [OF okc [OF ok] ends(5,3)])
  obtain h3 where h3: "mem_write (bb_data b) (v + k1 + k2) (slice h c u2 k3) h2 = Some h3"
    "wrote h2 h3 b ?B (v + k1 + k2) (slice h c u2 k3)"
    using range_write [OF ok2, of "v + k1 + k2" "slice h c u2 k3"] h2(3) len3 direct k(3) by fastforce
  have range: "bb_start b \<le> v" "v + n \<le> bb_end b" using wr by (simp_all add: writable_def)
  have len1: "length (slice h c u k1) = k1" "length (slice h c u1 k2) = k2"
    using length_slice [OF okc [OF ok]] u(1) ends by blast+
  have w12: "wrote h h2 b ?B v (slice h c u k1 @ slice h c u1 k2)"
    by (rule wrote_trans [OF ok h1(2)]) (use h2(2) len1 range k(3) in auto)
  have "wrote h h3 b ?B v ((slice h c u k1 @ slice h c u1 k2) @ slice h c u2 k3)"
    by (rule wrote_trans [OF ok w12]) (use h3(2) len1 len3 range k(3) in \<open>auto simp: add.assoc\<close>)
  moreover have "slice h c u n = (slice h c u k1 @ slice h c u1 k2) @ slice h c u2 k3"
    unfolding k(3) u2_def u1_def slice_split [OF u(1)] slice_split [OF ends(4) [unfolded u1_def]] by simp
  moreover have "CheckNoZero v (add32 v n) (it_Construct b v)" by (rule CheckNoZero_ok(1) [OF ok wr])
  moreover have "forth k3 (it_Construct b (v + k1 + k2)) = it_Construct b (v + n)"
    using forth_ok [OF ok, of "v + k1 + k2" k3] range k(3) by (simp add: add.assoc)
  ultimately show ?thesis
    using h1(1) h2(1) h3(1) src3 k3 n data
    by (simp add: it_WriteRange_def Let_def cong: if_cong split del: if_split)
qed

text \<open>Growing a buffer, and what writing into the new room gives.\<close>

lemma AddAtStart_room:
  assumes ok: "bufs_ok h (add_mset b B)" and room: "buf_GetSize b + n \<le> size_limit"
  shows "\<exists>b' h'. buf_AddAtStart n b h = Some (b', h') \<and> bufs_ok h' (add_mset b' B)
    \<and> (\<forall>c \<in># B. contents h' c = contents h c) \<and> zero_size b' = zero_size b
    \<and> (bb_data b' = bb_data b \<or> (\<forall>c \<in># B. bb_data c \<noteq> bb_data b')) \<and> buf_GetSize b' = buf_GetSize b + n
    \<and> writable b' B (bb_start b') n
    \<and> (\<forall>h2 bs. length bs = n \<longrightarrow> wrote h' h2 b' B (bb_start b') bs \<longrightarrow> contents h2 b' = bs @ contents h b)"
proof -
  obtain b' h' junk where g: "buf_AddAtStart n b h = Some (b', h')" "bufs_ok h' (add_mset b' B)"
    "\<forall>c \<in># B. contents h' c = contents h c" "length junk = n" "contents h' b' = junk @ contents h b"
    "bb_start b' + n \<le> bb_zeroAreaStart b'" "\<forall>c \<in># B. bb_data c = bb_data b' \<longrightarrow> bb_start b' + n \<le> bb_start c"
    "zero_size b' = zero_size b" "bb_data b' = bb_data b \<or> (\<forall>c \<in># B. bb_data c \<noteq> bb_data b')"
    using AddAtStart_ok [OF ok room] by blast
  note bnd = bufs_ok_bounds [OF g(2)]
  have "writable b' B (bb_start b') n"
    unfolding writable_def using g(6,7) bnd(2,3) by (auto simp: phys_def)
  moreover have "contents h2 b' = bs @ contents h b"
    if "length bs = n" "wrote h' h2 b' B (bb_start b') bs" for h2 bs
    using that g(4,5) by (simp add: wrote_def put_bytes_def)
  moreover have "buf_GetSize b' = buf_GetSize b + n"
    using bufs_ok_size(1) [OF g(2)] bufs_ok_size(1) [OF ok] g(4,5) by simp
  ultimately show ?thesis using g by (intro exI [of _ b'] exI [of _ h']) blast
qed

lemma AddAtEnd_room:
  assumes ok: "bufs_ok h (add_mset b B)" and room: "buf_GetSize b + n \<le> size_limit"
  shows "\<exists>b' h'. buf_AddAtEnd n b h = Some (b', h') \<and> bufs_ok h' (add_mset b' B)
    \<and> (\<forall>c \<in># B. contents h' c = contents h c) \<and> zero_size b' = zero_size b
    \<and> (bb_data b' = bb_data b \<or> (\<forall>c \<in># B. bb_data c \<noteq> bb_data b')) \<and> buf_GetSize b' = buf_GetSize b + n
    \<and> writable b' B (bb_end b' - n) n \<and> it_Prev n (buf_End b') = Some (it_Construct b' (bb_end b' - n))
    \<and> n \<le> bb_end b'
    \<and> (\<forall>h2 bs. length bs = n \<longrightarrow> wrote h' h2 b' B (bb_end b' - n) bs \<longrightarrow> contents h2 b' = contents h b @ bs)"
proof -
  obtain b' h' junk where g: "buf_AddAtEnd n b h = Some (b', h')" "bufs_ok h' (add_mset b' B)"
    "\<forall>c \<in># B. contents h' c = contents h c" "length junk = n" "contents h' b' = contents h b @ junk"
    "bb_zeroAreaEnd b' + n \<le> bb_end b'" "\<forall>c \<in># B. bb_data c = bb_data b' \<longrightarrow> iend c + n \<le> iend b'"
    "zero_size b' = zero_size b" "bb_data b' = bb_data b \<or> (\<forall>c \<in># B. bb_data c \<noteq> bb_data b')"
    using AddAtEnd_ok [OF ok room] by blast
  note bnd = bufs_ok_bounds [OF g(2)]
  have "writable b' B (bb_end b' - n) n"
    unfolding writable_def
  proof (intro conjI allI impI)
    fix i assume i: "bb_end b' - n \<le> i" "i < bb_end b' - n + n"
    then show "\<not> (bb_zeroAreaStart b' \<le> i \<and> i < bb_zeroAreaEnd b')" using g(6) by linarith
    show "\<forall>c \<in># B. bb_data c = bb_data b' \<longrightarrow> \<not> (bb_start c \<le> phys b' i \<and> phys b' i < iend c)"
    proof (intro ballI impI)
      fix c assume "c \<in># B" "bb_data c = bb_data b'"
      then have "iend c + n \<le> iend b'" using g(7) by blast
      moreover have "bb_zeroAreaEnd b' \<le> i" using g(6) i by linarith
      then have "phys b' i = i - (bb_zeroAreaEnd b' - bb_zeroAreaStart b')" using bnd(2) by (auto simp: phys_def)
      then have "iend b' \<le> phys b' i + n" using i g(6) by (simp add: iend_def)
      ultimately show "\<not> (bb_start c \<le> phys b' i \<and> phys b' i < iend c)" by linarith
    qed
  qed (use g(6) bnd in auto)
  moreover have "contents h2 b' = contents h b @ bs"
    if "length bs = n" "wrote h' h2 b' B (bb_end b' - n) bs" for h2 bs
  proof -
    have "bb_end b' - n - bb_start b' = length (contents h b)"
      using bufs_ok_size(1,2) [OF g(2)] g(4,5) by simp
    then show ?thesis using that g(4,5) by (simp add: wrote_def put_bytes_def)
  qed
  moreover have "buf_GetSize b' = buf_GetSize b + n"
    using bufs_ok_size(1) [OF g(2)] bufs_ok_size(1) [OF ok] g(4,5) by simp
  moreover have "it_Prev n (buf_End b') = Some (it_Construct b' (bb_end b' - n))"
    using g(6) bnd(4) by (simp add: it_Prev_def buf_End_def)
  moreover have "n \<le> bb_end b'" using g(6) by simp
  ultimately show ?thesis using g by (intro exI [of _ b'] exI [of _ h']) blast
qed

lemma wroteD: "wrote h h' b B v bs \<Longrightarrow> bufs_ok h' (add_mset b B)" "wrote h h' b B v bs \<Longrightarrow> e \<in># B \<Longrightarrow> contents h' e = contents h e"
  by (simp_all add: wrote_def)

lemma contents_parts:
  assumes ok: "bufs_ok h (add_mset b B)"
  shows "contents h b = slice h b (bb_start b) (bb_zeroAreaStart b - bb_start b)
    @ replicate (zero_size b) 0 @ slice h b (bb_zeroAreaEnd b) (bb_end b - bb_zeroAreaEnd b)"
proof -
  note bnd = bufs_ok_bounds [OF ok] and size = bufs_ok_size [OF ok]
  let ?x = "bb_zeroAreaStart b - bb_start b" and ?y = "bb_end b - bb_zeroAreaEnd b"
  have "contents h b = slice h b (bb_start b) (?x + (zero_size b + ?y))"
    using size bnd by (simp add: zero_size_def)
  also have "\<dots> = slice h b (bb_start b) ?x @ slice h b (bb_start b + ?x) (zero_size b)
      @ slice h b (bb_start b + ?x + zero_size b) ?y"
    by (simp only: slice_split le_refl le_add1 add.assoc le_trans [OF le_add1 le_add1])
  also have "bb_start b + ?x = bb_zeroAreaStart b" using bnd by simp
  also have "bb_zeroAreaStart b + zero_size b = bb_zeroAreaEnd b" using bnd by (simp add: zero_size_def)
  also have "slice h b (bb_zeroAreaStart b) (zero_size b) = replicate (zero_size b) 0"
    by (rule slice_zeroes [OF ok]) (use bnd in \<open>simp_all add: zero_size_def\<close>)
  finally show ?thesis .
qed

lemma position_diffs:
  assumes "bufs_ok h (add_mset b B)"
  shows "sub32 (bb_zeroAreaEnd b) (bb_zeroAreaStart b) = zero_size b"
    "sub32 (bb_zeroAreaStart b) (bb_start b) = bb_zeroAreaStart b - bb_start b"
    "sub32 (bb_end b) (bb_zeroAreaEnd b) = bb_end b - bb_zeroAreaEnd b"
  using bufs_ok_bounds [OF assms] unfolding zero_size_def by (auto intro!: sub32_le)

lemma stored_parts:
  assumes ok: "bufs_ok h (add_mset b B)"
  shows "mem_read (bb_data b) (bb_start b) (bb_zeroAreaStart b - bb_start b) h
      = Some (slice h b (bb_start b) (bb_zeroAreaStart b - bb_start b))"
    "mem_read (bb_data b) (bb_zeroAreaStart b) (bb_end b - bb_zeroAreaEnd b) h
      = Some (slice h b (bb_zeroAreaEnd b) (bb_end b - bb_zeroAreaEnd b))"
proof -
  note bnd = bufs_ok_bounds [OF ok]
  show "mem_read (bb_data b) (bb_start b) (bb_zeroAreaStart b - bb_start b) h
      = Some (slice h b (bb_start b) (bb_zeroAreaStart b - bb_start b))"
    by (rule mem_read_block [OF ok]) (use bnd in \<open>auto simp: phys_def\<close>)
  show "mem_read (bb_data b) (bb_zeroAreaStart b) (bb_end b - bb_zeroAreaEnd b) h
      = Some (slice h b (bb_zeroAreaEnd b) (bb_end b - bb_zeroAreaEnd b))"
    by (rule mem_read_block [OF ok]) (use bnd in \<open>auto simp: phys_def\<close>)
qed

text \<open>A copy has the same bytes, all of them stored.\<close>

lemma CreateFullCopy_ok:
  assumes ok: "bufs_ok h (add_mset b B)"
  shows "\<exists>c h'. buf_CreateFullCopy b h = Some (c, h') \<and> bufs_ok h' (add_mset c (add_mset b B))
    \<and> (\<forall>e \<in># add_mset b B. contents h' e = contents h e) \<and> contents h' c = contents h b \<and> zero_size c = 0
    \<and> (bb_data c = bb_data b \<or> (\<forall>e \<in># add_mset b B. bb_data e \<noteq> bb_data c))"
proof (cases "zero_size b = 0")
  case True
  have "contents h (b\<lparr>bb_maxZeroAreaStart := bb_zeroAreaStart b\<rparr>) = contents h b"
    by (simp add: contents_def contents_in_def iend_def split: option.splits)
  moreover have "zero_size (b\<lparr>bb_maxZeroAreaStart := bb_zeroAreaStart b\<rparr>) = 0" using True by (simp add: zero_size_def)
  ultimately show ?thesis using buffer_copy_ok [OF ok] True position_diffs(1) [OF ok]
    by (auto simp: buf_CreateFullCopy_def Let_def)
next
  case False
  let ?B = "add_mset b B" and ?C = "contents h b"
  let ?x = "bb_zeroAreaStart b - bb_start b" and ?y = "bb_end b - bb_zeroAreaEnd b" and ?z = "zero_size b"
  have okb: "bufs_ok g (add_mset b (add_mset t B))" if "bufs_ok g (add_mset t ?B)" for g t
    using that by (simp add: add_mset_commute)
  note bnd = bufs_ok_bounds [OF ok]
  have total: "?x + ?z + ?y \<le> size_limit" using bufs_ok_size(2,3) [OF ok] bnd by (simp add: zero_size_def)
  obtain t0 h0 where t0: "buf_Initialize 0 h = Some (t0, h0)" "bufs_ok h0 (add_mset t0 ?B)"
    "\<forall>e \<in># ?B. contents h0 e = contents h e" "contents h0 t0 = []" "\<forall>e \<in># ?B. bb_data e \<noteq> bb_data t0" "zero_size t0 = 0"
    using Initialize_ok [OF ok, of 0] by auto
  have s0: "buf_GetSize t0 = 0" using bufs_ok_size(1) [OF t0(2)] t0(4) by simp
  obtain t1 h1 where t1: "buf_AddAtStart ?z t0 h0 = Some (t1, h1)" "bufs_ok h1 (add_mset t1 ?B)"
    "\<forall>e \<in># ?B. contents h1 e = contents h0 e" "zero_size t1 = 0"
    "bb_data t1 = bb_data t0 \<or> (\<forall>e \<in># ?B. bb_data e \<noteq> bb_data t1)" "buf_GetSize t1 = ?z"
    "writable t1 ?B (bb_start t1) ?z"
    "\<forall>h2 bs. length bs = ?z \<longrightarrow> wrote h1 h2 t1 ?B (bb_start t1) bs \<longrightarrow> contents h2 t1 = bs"
    using AddAtStart_room [OF t0(2), of ?z] s0 total t0(4,6) by auto
  obtain h2 where h2: "it_FillU8 0 ?z (buf_Begin t1) h1 = Some (it_Construct t1 (bb_start t1 + ?z), h2)"
    "wrote h1 h2 t1 ?B (bb_start t1) (replicate ?z 0)"
    using FillU8_ok [OF t1(2,7), of 0] by (auto simp: buf_Begin_def)
  then have ok2: "bufs_ok h2 (add_mset t1 ?B)" and c2: "contents h2 t1 = replicate ?z 0"
    "\<forall>e \<in># ?B. contents h2 e = contents h e"
    using t1(3,8) t0(3) by (auto simp: wrote_def)
  obtain t3 h3 where t3: "buf_AddAtStart ?x t1 h2 = Some (t3, h3)" "bufs_ok h3 (add_mset t3 ?B)"
    "\<forall>e \<in># ?B. contents h3 e = contents h2 e" "zero_size t3 = 0"
    "bb_data t3 = bb_data t1 \<or> (\<forall>e \<in># ?B. bb_data e \<noteq> bb_data t3)" "buf_GetSize t3 = ?z + ?x"
    "writable t3 ?B (bb_start t3) ?x"
    "\<forall>h2 bs. length bs = ?x \<longrightarrow> wrote h3 h2 t3 ?B (bb_start t3) bs \<longrightarrow> contents h2 t3 = bs @ replicate ?z 0"
    using AddAtStart_room [OF ok2, of ?x] t1(4,6) total c2(1) by auto
  let ?u = "slice h b (bb_start b) ?x"
  have src3: "mem_read (bb_data b) (bb_start b) ?x h3 = Some ?u"
    using stored_parts(1) [OF okb [OF t3(2)]] t3(3) c2(2) by simp
  have lu: "length ?u = ?x" by (rule length_slice [OF ok]) (use bnd in auto)
  obtain h4 where h4: "it_Write ?u (buf_Begin t3) h3 = Some (it_Construct t3 (bb_start t3 + ?x), h4)"
    "wrote h3 h4 t3 ?B (bb_start t3) ?u"
    using Write_ok [OF t3(2), of "bb_start t3" ?u] t3(7) lu by (auto simp: buf_Begin_def)
  note ok4 = wroteD(1) [OF h4(2)]
  have c4: "contents h4 t3 = ?u @ replicate ?z 0" "\<forall>e \<in># ?B. contents h4 e = contents h e"
  proof -
    show "contents h4 t3 = ?u @ replicate ?z 0" using t3(8) lu h4(2) by blast
    show "\<forall>e \<in># ?B. contents h4 e = contents h e" using wroteD(2) [OF h4(2)] t3(3) c2(2) by simp
  qed
  obtain t5 h5 where t5: "buf_AddAtEnd ?y t3 h4 = Some (t5, h5)" "bufs_ok h5 (add_mset t5 ?B)"
    "\<forall>e \<in># ?B. contents h5 e = contents h4 e" "zero_size t5 = 0"
    "bb_data t5 = bb_data t3 \<or> (\<forall>e \<in># ?B. bb_data e \<noteq> bb_data t5)"
    "writable t5 ?B (bb_end t5 - ?y) ?y" "it_Prev ?y (buf_End t5) = Some (it_Construct t5 (bb_end t5 - ?y))"
    "\<forall>h2 bs. length bs = ?y \<longrightarrow> wrote h5 h2 t5 ?B (bb_end t5 - ?y) bs \<longrightarrow> contents h2 t5 = (?u @ replicate ?z 0) @ bs"
    using AddAtEnd_room [OF ok4, of ?y] t3(4,6) total c4(1) by auto
  let ?w = "slice h b (bb_zeroAreaEnd b) ?y"
  have src5: "mem_read (bb_data b) (bb_zeroAreaStart b) ?y h5 = Some ?w"
    using stored_parts(2) [OF okb [OF t5(2)]] t5(3) c4(2) by simp
  have lw: "length ?w = ?y" by (rule length_slice [OF ok]) (use bnd in auto)
  obtain h6 where h6: "it_Write ?w (it_Construct t5 (bb_end t5 - ?y)) h5 = Some (it_Construct t5 (bb_end t5 - ?y + ?y), h6)"
    "wrote h5 h6 t5 ?B (bb_end t5 - ?y) ?w"
    using Write_ok [OF t5(2), of "bb_end t5 - ?y" ?w] t5(6) lw by auto
  have "bufs_ok h6 (add_mset t5 ?B)" by (rule wroteD(1) [OF h6(2)])
  moreover have "contents h6 t5 = ?C"
  proof -
    have "contents h6 t5 = (?u @ replicate ?z 0) @ ?w" using t5(8) lw h6(2) by blast
    moreover have "?C = (?u @ replicate ?z 0) @ ?w"
      by (rule trans [OF contents_parts [OF ok]]) (simp only: append_assoc)
    ultimately show ?thesis by (rule trans [OF _ sym])
  qed
  moreover have "\<forall>e \<in># ?B. contents h6 e = contents h e" using wroteD(2) [OF h6(2)] t5(3) c4(2) by simp
  moreover have "buf_CreateFullCopy b h = Some (t5, h6)"
    using False position_diffs [OF ok] t0(1) t1(1) h2(1) t3(1) src3 h4(1) t5(1,7) src5 h6(1)
    by (simp add: buf_CreateFullCopy_def Let_def)
  moreover have "\<forall>e \<in># ?B. bb_data e \<noteq> bb_data t5"
  proof -
    have "\<forall>e \<in># ?B. bb_data e \<noteq> bb_data t1" using t1(5) t0(5) by (elim disjE) simp_all
    then have "\<forall>e \<in># ?B. bb_data e \<noteq> bb_data t3" using t3(5) by (elim disjE) simp_all
    then show ?thesis using t5(5) by (elim disjE) simp_all
  qed
  ultimately show ?thesis using t5(4) by (intro exI [of _ t5] exI [of _ h6]) simp
qed

text \<open>Replacing a buffer by its full copy, which \<open>TransformIntoRealBuffer\<close> and \<open>AddAtEnd\<close> do.\<close>

lemma make_real_ok:
  assumes ok: "bufs_ok h (add_mset b B)"
  shows "\<exists>c tmp h1 h2 h'. buf_CreateFullCopy b h = Some (tmp, h1) \<and> buf_assign b tmp h1 = Some (c, h2)
    \<and> buf_destroy tmp h2 = Some h' \<and> bufs_ok h' (add_mset c B)
    \<and> (\<forall>e \<in># B. contents h' e = contents h e) \<and> contents h' c = contents h b \<and> zero_size c = 0
    \<and> (bb_data c = bb_data b \<or> (\<forall>e \<in># B. bb_data e \<noteq> bb_data c))"
proof -
  obtain c h1 where c: "buf_CreateFullCopy b h = Some (c, h1)" "bufs_ok h1 (add_mset c (add_mset b B))"
    "\<forall>e \<in># add_mset b B. contents h1 e = contents h e" "contents h1 c = contents h b" "zero_size c = 0"
    "bb_data c = bb_data b \<or> (\<forall>e \<in># add_mset b B. bb_data e \<noteq> bb_data c)"
    using CreateFullCopy_ok [OF ok] by blast
  have "bufs_ok h1 (add_mset b (add_mset c B))" using c(2) by (simp add: add_mset_commute)
  from buffer_assign_ok [OF this] obtain h2 where h2: "buf_assign b c h1 = Some (c, h2)"
    "bufs_ok h2 (add_mset c (add_mset c B))" "\<forall>e \<in># add_mset c B. contents h2 e = contents h1 e" by blast
  obtain h3 where h3: "buf_destroy c h2 = Some h3" "bufs_ok h3 (add_mset c B)"
    "\<forall>e \<in># add_mset c B. contents h3 e = contents h2 e"
    using destroy_ok [OF h2(2)] by blast
  show ?thesis using c h2 h3 by (intro exI [of _ c] exI [of _ h1] exI [of _ h2] exI [of _ h3]) auto
qed

lemma TransformIntoRealBuffer_ok:
  assumes ok: "bufs_ok h (add_mset b B)"
  shows "\<exists>c h'. buf_TransformIntoRealBuffer b h = Some (c, h') \<and> bufs_ok h' (add_mset c B)
    \<and> (\<forall>e \<in># B. contents h' e = contents h e) \<and> contents h' c = contents h b \<and> zero_size c = 0"
proof -
  obtain c tmp h1 h2 h' where c: "buf_CreateFullCopy b h = Some (tmp, h1)" "buf_assign b tmp h1 = Some (c, h2)"
    "buf_destroy tmp h2 = Some h'" "bufs_ok h' (add_mset c B)"
    "\<forall>e \<in># B. contents h' e = contents h e" "contents h' c = contents h b" "zero_size c = 0"
    using make_real_ok [OF ok] by blast
  then show ?thesis
    by (intro exI [of _ c] exI [of _ h']) (simp add: buf_TransformIntoRealBuffer_def)
qed

text \<open>The pointer that \<open>PeekData\<close> returns points to all the bytes of the buffer.\<close>

lemma PeekData_ok:
  assumes ok: "bufs_ok h (add_mset b B)"
  shows "\<exists>a p c h'. buf_PeekData b h = Some ((a, p), c, h') \<and> bufs_ok h' (add_mset c B)
    \<and> (\<forall>e \<in># B. contents h' e = contents h e) \<and> contents h' c = contents h b
    \<and> mem_read a p (buf_GetSize b) h' = Some (contents h b)"
proof -
  obtain c h' where c: "buf_TransformIntoRealBuffer b h = Some (c, h')" "bufs_ok h' (add_mset c B)"
    "\<forall>e \<in># B. contents h' e = contents h e" "contents h' c = contents h b" "zero_size c = 0"
    using TransformIntoRealBuffer_ok [OF ok] by blast
  note bnd = bufs_ok_bounds [OF c(2)]
  from c(2) obtain d where d: "bh_cells h' (bb_data c) = Some d" "data_ok d" "window_ok d c"
    "dat h' (bb_data c) = Some (d\<lparr>bd_count := 0\<rparr>)" by (rule bufs_okD)
  have len: "iend c \<le> length (bd_bytes d)" using d(2) window_okD(6) [OF d(3)] by (simp add: data_ok_def)
  have io: "iend c = bb_end c" using c(5) bnd by (simp add: iend_def zero_size_def)
  have "contents h' c = seg (bd_bytes d) (bb_start c) (bb_end c)"
    using d(4) c(5) bnd io seg_split [of "bb_start c" "bb_zeroAreaStart c" "bb_end c" "bd_bytes d"]
    by (simp add: contents_def contents_in_def zero_size_def)
  moreover have "buf_GetSize b = bb_end c - bb_start c"
    using bufs_ok_size(1,2) [OF c(2)] bufs_ok_size(1) [OF ok] c(4) by simp
  moreover have "bb_start c + (bb_end c - bb_start c) = bb_end c" using bnd by simp
  ultimately have "mem_read (bb_data c) (bb_start c) (buf_GetSize b) h' = Some (contents h b)"
    using mem_read_seg [OF d(1), of "bb_start c" "bb_end c - bb_start c"] len io c(4) by simp
  then show ?thesis using c
    by (intro exI [of _ "bb_data c"] exI [of _ "bb_start c"] exI [of _ c] exI [of _ h']) (simp add: buf_PeekData_def)
qed

section \<open>Appending\<close>

text \<open>A buffer that starts with its zero area and has bytes behind it.\<close>

definition zero_first :: "byte_buffer \<Rightarrow> bool" where
  "zero_first c \<longleftrightarrow> bb_start c = bb_zeroAreaStart c \<and> 0 < zero_size c \<and> bb_zeroAreaEnd c < bb_end c"

lemma append_zeroes:
  assumes ok: "bufs_ok h (add_mset b B)" and d: "bh_cells h (bb_data b) = Some d" "bd_count d = 1"
    and adj: "bb_end b = bb_zeroAreaEnd b \<or> bb_zeroAreaStart b = bb_zeroAreaEnd b"
    and room: "buf_GetSize b + z \<le> size_limit"
    and b': "b' = b\<lparr>bb_zeroAreaStart := (if bb_zeroAreaStart b = bb_zeroAreaEnd b then bb_end b else bb_zeroAreaStart b),
                 bb_zeroAreaEnd := bb_end b + z, bb_end := bb_end b + z\<rparr>"
  shows "\<exists>h'. upd_data (bb_data b) (\<lambda>d. d\<lparr>bd_dirtyEnd := bb_end b + z\<rparr>) h = Some h' \<and> bufs_ok h' (add_mset b' B)
    \<and> (\<forall>c \<in># B. contents h' c = contents h c) \<and> contents h' b' = contents h b @ replicate z 0"
proof -
  let ?f = "\<lambda>d. d\<lparr>bd_dirtyEnd := bb_end b + z\<rparr>"
  have win: "window_ok d b" and dat: "dat h (bb_data b) = Some (d\<lparr>bd_count := 0\<rparr>)"
    using bufs_okD [OF ok] d(1) by (metis option.inject)+
  note w = window_okD [OF win]
  have io: "iend b' = iend b" using adj w(1-3) by (auto simp: b' iend_def)
  have alone: "bb_data c \<noteq> bb_data b" if "c \<in># B" for c
    using heap_ok_sole [of "bb_data b" "refs B" h d] ok d that by (auto simp: bufs_ok_def image_iff dest: sym)
  have "bb_end b + z - bb_start b \<le> size_limit" using room bufs_ok_size(2) [OF ok] w by simp
  then have win': "window_ok (?f d) b'"
    using w io adj unfolding window_ok_def by (auto simp: b')
  have "\<exists>h'. upd_data (bb_data b) ?f h = Some h' \<and> bufs_ok h' (add_mset b' B)
      \<and> (\<forall>c \<in># B. contents h' c = contents h c) \<and> contents h' b' = contents_in (bd_bytes d) b'"
    by (rule in_place_ok [OF ok d(1)]) (use win' alone in \<open>auto simp: b'\<close>)
  moreover have "contents_in (bd_bytes d) b' = contents h b @ replicate z 0"
  proof -
    have old: "contents h b = contents_in (bd_bytes d) b" using dat by (simp add: contents_def)
    show ?thesis
    proof (cases "bb_zeroAreaStart b = bb_zeroAreaEnd b")
      case True
      then have e: "iend b = bb_end b" using w by (simp add: iend_def)
      have "seg (bd_bytes d) (bb_start b) (bb_end b)
          = seg (bd_bytes d) (bb_start b) (bb_zeroAreaStart b) @ seg (bd_bytes d) (bb_zeroAreaStart b) (bb_end b)"
        by (rule seg_split) (use w True in auto)
      then show ?thesis unfolding old contents_in_def io e using True by (simp add: b')
    next
      case False
      then have e: "bb_end b = bb_zeroAreaEnd b" "iend b = bb_zeroAreaStart b" using adj w by (auto simp: iend_def)
      have "bb_end b + z - bb_zeroAreaStart b = (bb_zeroAreaEnd b - bb_zeroAreaStart b) + z" using e w by simp
      then show ?thesis unfolding old contents_in_def io using False e by (simp add: b' replicate_add)
    qed
  qed
  ultimately show ?thesis by auto
qed

lemma AddAtEndBuffer_ok:
  assumes ok: "bufs_ok h (add_mset b (add_mset c B))" and room: "buf_GetSize b + buf_GetSize c \<le> size_limit"
    and data: "bb_data b \<noteq> bb_data c" and c: "\<not> zero_first c"
  shows "\<exists>b' h'. buf_AddAtEndBuffer c b h = Some (b', h') \<and> bufs_ok h' (add_mset b' (add_mset c B))
    \<and> (\<forall>e \<in># add_mset c B. contents h' e = contents h e) \<and> contents h' b' = contents h b @ contents h c"
proof -
  let ?B = "add_mset c B"
  have okc: "bufs_ok g (add_mset c (add_mset t B))" if "bufs_ok g (add_mset t ?B)" for g t
    using that by (simp add: add_mset_commute)
  from ok obtain d where d: "bh_cells h (bb_data b) = Some d" by (rule bufs_okD)
  note diffs = position_diffs [OF okc [OF ok]] and bc = bufs_ok_bounds [OF okc [OF ok]]
  note sc = bufs_ok_size [OF okc [OF ok]]
  let ?opt = "bd_count d = 1 \<and> (bb_end b = bb_zeroAreaEnd b \<or> bb_zeroAreaStart b = bb_zeroAreaEnd b)
        \<and> bb_end b = bd_dirtyEnd d \<and> bb_start c = bb_zeroAreaStart c \<and> zero_size c > 0"
  show ?thesis
  proof (cases ?opt)
    case True
    let ?z = "zero_size c"
    have ends: "bb_end c = bb_zeroAreaEnd c" using True c bc(3) by (simp add: zero_first_def)
    have zc: "buf_GetSize c = ?z" "contents h c = replicate ?z 0"
    proof -
      show "buf_GetSize c = ?z" using sc(2) ends True by (simp add: zero_size_def)
      show "contents h c = replicate ?z 0"
        by (rule trans [OF contents_parts [OF okc [OF ok]]]) (use ends True in simp)
    qed
    define b1 where "b1 = b\<lparr>bb_zeroAreaStart := (if bb_zeroAreaStart b = bb_zeroAreaEnd b then bb_end b else bb_zeroAreaStart b),
                 bb_zeroAreaEnd := bb_end b + ?z, bb_end := bb_end b + ?z\<rparr>"
    have room1: "buf_GetSize b + ?z \<le> size_limit" using room zc(1) by simp
    obtain h1 where h1: "upd_data (bb_data b) (\<lambda>d. d\<lparr>bd_dirtyEnd := bb_end b + ?z\<rparr>) h = Some h1"
      "bufs_ok h1 (add_mset b1 ?B)" "\<forall>e \<in># ?B. contents h1 e = contents h e"
      "contents h1 b1 = contents h b @ replicate ?z 0"
      using append_zeroes [OF ok d _ _ room1 b1_def] True by blast
    have "buf_GetSize b1 + 0 \<le> size_limit" using bufs_ok_size(3) [OF h1(2)] by simp
    from AddAtEnd_room [OF h1(2) this]
    obtain b2 h2 where h2: "buf_AddAtEnd 0 b1 h1 = Some (b2, h2)" "bufs_ok h2 (add_mset b2 ?B)"
      "\<forall>e \<in># ?B. contents h2 e = contents h1 e" "bb_data b2 = bb_data b1 \<or> (\<forall>e \<in># ?B. bb_data e \<noteq> bb_data b2)"
      "writable b2 ?B (bb_end b2 - 0) 0" "it_Prev 0 (buf_End b2) = Some (it_Construct b2 (bb_end b2 - 0))"
      "\<forall>h3 bs. length bs = 0 \<longrightarrow> wrote h2 h3 b2 ?B (bb_end b2 - 0) bs \<longrightarrow> contents h3 b2 = contents h1 b1 @ bs"
      by blast
    have data2: "bb_data b2 \<noteq> bb_data c" using h2(4) data by (auto simp: b1_def)
    have "\<exists>h3. it_WriteRange (it_Construct c (bb_end c)) (it_Construct c (bb_end c + 0)) (it_Construct b2 (bb_end b2)) h2
        = Some (it_Construct b2 (bb_end b2 + 0), h3) \<and> wrote h2 h3 b2 ?B (bb_end b2) (slice h2 c (bb_end c) 0)"
      by (rule WriteRange_ok [OF h2(2)]) (use h2(5) bc data2 in auto)
    then obtain h3 where h3: "it_WriteRange (it_Construct c (bb_end c)) (it_Construct c (bb_end c)) (it_Construct b2 (bb_end b2)) h2
        = Some (it_Construct b2 (bb_end b2), h3)" "wrote h2 h3 b2 ?B (bb_end b2) []" by auto
    have "it_Prev 0 (buf_End c) = Some (it_Construct c (bb_end c))"
      using bc(4) by (simp add: it_Prev_def buf_End_def)
    moreover have "add32 (bb_end b) ?z = bb_end b + ?z"
      using bufs_ok_bounds(4) [OF h1(2)] by (simp add: b1_def)
    ultimately have run: "buf_AddAtEndBuffer c b h = Some (b2, h3)"
      using True d diffs(1,3) ends h1(1) h2(1,6) h3(1)
      by (simp add: buf_AddAtEndBuffer_def Let_def b1_def buf_End_def cong: if_cong split del: if_split)
        (use True in auto)
    have "contents h3 b2 = contents h b @ contents h c" using h2(7) h3(2) h1(4) zc(2) by auto
    then show ?thesis using run wroteD [OF h3(2)] h2(3) h1(3)
      by (intro exI [of _ b2] exI [of _ h3]) simp
  next
    case False
    let ?n = "buf_GetSize c"
    obtain b1 tmp g1 g2 h1 where r: "buf_CreateFullCopy b h = Some (tmp, g1)" "buf_assign b tmp g1 = Some (b1, g2)"
      "buf_destroy tmp g2 = Some h1" "bufs_ok h1 (add_mset b1 ?B)"
      "\<forall>e \<in># ?B. contents h1 e = contents h e" "contents h1 b1 = contents h b" "zero_size b1 = 0"
      "bb_data b1 = bb_data b \<or> (\<forall>e \<in># ?B. bb_data e \<noteq> bb_data b1)"
      using make_real_ok [OF ok] by blast
    have "buf_GetSize b1 = buf_GetSize b" using bufs_ok_size(1) [OF r(4)] bufs_ok_size(1) [OF ok] r(6) by simp
    then have room1: "buf_GetSize b1 + ?n \<le> size_limit" using room by simp
    obtain b2 h2 where h2: "buf_AddAtEnd ?n b1 h1 = Some (b2, h2)" "bufs_ok h2 (add_mset b2 ?B)"
      "\<forall>e \<in># ?B. contents h2 e = contents h1 e" "zero_size b2 = zero_size b1"
      "bb_data b2 = bb_data b1 \<or> (\<forall>e \<in># ?B. bb_data e \<noteq> bb_data b2)"
      "writable b2 ?B (bb_end b2 - ?n) ?n" "it_Prev ?n (buf_End b2) = Some (it_Construct b2 (bb_end b2 - ?n))"
      "?n \<le> bb_end b2"
      "\<forall>h3 bs. length bs = ?n \<longrightarrow> wrote h2 h3 b2 ?B (bb_end b2 - ?n) bs \<longrightarrow> contents h3 b2 = contents h1 b1 @ bs"
      using AddAtEnd_room [OF r(4) room1] by blast
    have data1: "bb_data b1 \<noteq> bb_data c" using r(8) data by (elim disjE) auto
    have data2: "bb_data b2 \<noteq> bb_data c" using h2(5) data1 by (elim disjE) auto
    have e: "bb_start c + ?n = bb_end c" using sc(2) bc by simp
    have "\<exists>h3. it_WriteRange (it_Construct c (bb_start c)) (it_Construct c (bb_start c + ?n)) (it_Construct b2 (bb_end b2 - ?n)) h2
        = Some (it_Construct b2 (bb_end b2 - ?n + ?n), h3) \<and> wrote h2 h3 b2 ?B (bb_end b2 - ?n) (slice h2 c (bb_start c) ?n)"
      by (rule WriteRange_ok [OF h2(2,6)]) (use h2(4) r(7) e data2 in auto)
    moreover have "slice h2 c (bb_start c) ?n = contents h c" using h2(3) r(5) sc(1) by simp
    ultimately obtain h3 where h3: "it_WriteRange (buf_Begin c) (buf_End c) (it_Construct b2 (bb_end b2 - ?n)) h2
        = Some (it_Construct b2 (bb_end b2 - ?n + ?n), h3)" "wrote h2 h3 b2 ?B (bb_end b2 - ?n) (contents h c)"
      unfolding e by (auto simp: buf_Begin_def buf_End_def)
    have "\<not> (bd_count d = 1 \<and> (bb_end b = bb_zeroAreaEnd b \<or> bb_zeroAreaStart b = bb_zeroAreaEnd b)
        \<and> bb_end b = bd_dirtyEnd d \<and> bb_start c = bb_zeroAreaStart c
        \<and> sub32 (bb_zeroAreaEnd c) (bb_zeroAreaStart c) > 0)" using False diffs(1) by simp
    then have run: "buf_AddAtEndBuffer c b h = Some (b2, h3)"
      unfolding buf_AddAtEndBuffer_def d Option.bind_lunit
      by (subst if_not_P) (use r(1-3) h2(1,7) h3(1) in simp_all)
    have "contents h3 b2 = contents h b @ contents h c" using h2(9) h3(2) r(6) sc(1) by auto
    then show ?thesis using run wroteD [OF h3(2)] h2(3) r(5)
      by (intro exI [of _ b2] exI [of _ h3]) simp
  qed
qed

section \<open>Copying the bytes out\<close>

lemma zero_pieces_eq [simp]: "zero_pieces n = replicate n 0"
proof (induction n rule: zero_pieces.induct)
  case (1 n)
  show ?case
  proof (cases "n > 0")
    case True
    then have "zero_pieces n = replicate (min n 1000) 0 @ replicate (n - min n 1000) 0"
      using 1 by (subst zero_pieces.simps) (simp add: Let_def)
    also have "\<dots> = replicate (min n 1000 + (n - min n 1000)) 0" by (simp only: replicate_add)
    finally show ?thesis by simp
  qed (simp add: zero_pieces.simps)
qed

lemma mem_read_prefix:
  assumes "mem_read a p n h = Some bs" "k \<le> n"
  shows "mem_read a p k h = Some (take k bs)"
proof (cases "k = 0")
  case False
  then obtain d where "bh_cells h a = Some d" "p + n \<le> length (bd_bytes d)" "bs = take n (drop p (bd_bytes d))"
    using assms by (auto simp: mem_read_def bind_eq_Some_conv split: if_splits)
  then show ?thesis using assms(2) False by (simp add: mem_read_def min_def)
qed (simp add: mem_read_def)

lemma sub32_min: "a < 2 ^ 32 \<Longrightarrow> sub32 a (min b a) = a - min b a"
  by (rule sub32_le) simp_all

lemma CopyData_ok:
  assumes ok: "bufs_ok h (add_mset b B)" and n: "n < 2 ^ 32"
  shows "buf_CopyData n b h = Some (min n (buf_GetSize b), take n (contents h b))"
    "buf_CopyData_stream n b h = Some (take n (contents h b))"
proof -
  note bnd = bufs_ok_bounds [OF ok]
  obtain x y z where xyz: "bb_zeroAreaStart b - bb_start b = x" "zero_size b = z" "bb_end b - bb_zeroAreaEnd b = y" by blast
  note diffs = position_diffs [OF ok, unfolded xyz]
  obtain U W where UW: "slice h b (bb_start b) x = U" "slice h b (bb_zeroAreaEnd b) y = W" by blast
  have "length (slice h b (bb_start b) x) = x" "length (slice h b (bb_zeroAreaEnd b) y) = y"
    by (rule length_slice [OF ok]; use bnd xyz in simp)+
  then have lens: "length U = x" "length W = y" unfolding UW .
  have con: "contents h b = U @ replicate z 0 @ W"
    using contents_parts [OF ok] unfolding xyz UW .
  have size: "buf_GetSize b = x + z + y" using bufs_ok_size(1) [OF ok] con lens by simp
  have r1: "mem_read (bb_data b) (bb_start b) k h = Some (take k U)" if "k \<le> x" for k
    using mem_read_prefix [OF stored_parts(1) [OF ok, unfolded xyz UW] that] .
  have r2: "mem_read (bb_data b) (bb_zeroAreaStart b) k h = Some (take k W)" if "k \<le> y" for k
    using mem_read_prefix [OF stored_parts(2) [OF ok, unfolded xyz UW] that] .
  note defs = buf_CopyData_def buf_CopyData_stream_def diffs Let_def
  consider "n = 0" | "0 < n" "n \<le> x" | "x < n" "n \<le> x + z" | "x + z < n" by linarith
  then have "buf_CopyData n b h = Some (min n (x + z + y), take n (contents h b))
    \<and> buf_CopyData_stream n b h = Some (take n (contents h b))"
  proof cases
    case 1
    then show ?thesis by (simp add: buf_CopyData_def buf_CopyData_stream_def)
  next
    case 2
    then have "min x n = n" "min n (x + z + y) = n" by simp_all
    then show ?thesis using 2 r1 [of n] n con lens(1) by (simp add: defs)
  next
    case 3
    then have m: "min x n = x" "min z (n - x) = n - x" "0 < n" "0 < n - x" "min n (x + z + y) = n" by simp_all
    have t: "take n (contents h b) = U @ replicate (n - x) 0" using con 3 lens(1) by (simp add: min_def)
    have q: "sub32 n x = n - x" "sub32 (n - x) (n - x) = 0" "sub32 n 0 = n" using 3 n by simp_all
    show ?thesis unfolding t using 3(1) m(3,4) r1 [of x] lens(1) by (simp add: defs m(1,2,5) q)
  next
    case 4
    define k where "k = n - x - z"
    have m: "min x n = x" "min z (n - x) = z" "0 < n" "x < n" "0 < n - x" "z < n - x" "0 < k" using 4 by (simp_all add: k_def)
    have q: "sub32 n x = n - x" "sub32 (n - x) z = k" "sub32 k (min y k) = k - min y k"
      "sub32 n (k - min y k) = min n (x + z + y)"
    proof -
      show "sub32 n x = n - x" "sub32 (n - x) z = k" "sub32 k (min y k) = k - min y k"
        using 4 n by (simp_all add: k_def)
      have "n - (k - min y k) = min n (x + z + y)" using 4 unfolding k_def by (cases "n \<le> x + z + y") (simp_all add: min_def)
      moreover have "k - min y k \<le> n" by (simp add: k_def)
      ultimately show "sub32 n (k - min y k) = min n (x + z + y)" using n by simp
    qed
    have n': "n = x + (z + k)" using 4 by (simp add: k_def)
    have "take (min y k) W = take k W" using lens(2) by (cases "y \<le> k") simp_all
    then have t: "take n (contents h b) = U @ replicate z 0 @ take (min y k) W"
      unfolding con n' using lens(1) by simp
    show ?thesis unfolding t using m(3-7) r1 [of x] r2 [of "min y k"] lens(1) by (simp add: defs m(1,2) q)
  qed
  then show "buf_CopyData n b h = Some (min n (buf_GetSize b), take n (contents h b))"
    "buf_CopyData_stream n b h = Some (take n (contents h b))" unfolding size by blast+
qed

end
