(* ===== verification/BufferSerialize.thy ===== *)
theory BufferSerialize
  imports BufferCopies
begin

text \<open>
  The serialised form of a buffer (\<open>GetSerializedSize\<close>, \<open>Serialize\<close> and \<open>Deserialize\<close> of
  \<open>network/model/buffer.cc\<close>), and that reading it back gives a buffer with the same contents.
\<close>

section \<open>Operations\<close>

text \<open>The serialised form is an array of 32-bit numbers in the byte order of the machine, here the
  least significant byte first. The argument \<open>uint8_t* buffer\<close> is the list of its bytes.\<close>

definition round4 :: "nat \<Rightarrow> nat" where
  \<comment> \<open>\<open>(n + 3) & (~3)\<close>\<close>
  "round4 n = add32 n 3 - add32 n 3 mod 4"

definition buf_GetSerializedSize :: "byte_buffer \<Rightarrow> nat" where
  "buf_GetSerializedSize b =
     (let dataStart = round4 (sub32 (bb_zeroAreaStart b) (bb_start b));
          dataEnd = round4 (sub32 (bb_end b) (bb_zeroAreaEnd b)) in
      add32 (add32 (add32 (4 + 4) dataStart) 4) dataEnd)"

text \<open>Writing at a position of the array, which must be inside of it.\<close>

definition put_at :: "nat \<Rightarrow> u8 list \<Rightarrow> u8 list \<Rightarrow> u8 list option" where
  "put_at p bs out = (if bs = [] \<or> p + length bs \<le> length out then Some (put_bytes p bs out) else None)"

text \<open>\<open>Serialize\<close> returns 1, or 0 when the maximal size is too small; the array may be written in both
  cases.\<close>

definition buf_Serialize :: "u8 list \<Rightarrow> nat \<Rightarrow> byte_buffer \<Rightarrow> buf_heap \<Rightarrow> (nat \<times> u8 list) option" where
  "buf_Serialize out maxSize b h =
     (if 4 > maxSize then Some (0, out) else do {
      out \<leftarrow> put_at 0 (to_lsb 4 (of_nat (sub32 (bb_zeroAreaEnd b) (bb_zeroAreaStart b)) :: u32)) out;
      if 8 > maxSize then Some (0, out) else
      let dataStartLength = sub32 (bb_zeroAreaStart b) (bb_start b) in do {
      out \<leftarrow> put_at 4 (to_lsb 4 (of_nat dataStartLength :: u32)) out;
      let sz = add32 8 (round4 dataStartLength) in
      if sz > maxSize then Some (0, out) else do {
      bs \<leftarrow> mem_read (bb_data b) (bb_start b) dataStartLength h;
      out \<leftarrow> put_at 8 bs out;
      let p = 8 + 4 * (round4 dataStartLength div 4); sz = add32 sz 4 in
      if sz > maxSize then Some (0, out) else
      let dataEndLength = sub32 (bb_end b) (bb_zeroAreaEnd b) in do {
      out \<leftarrow> put_at p (to_lsb 4 (of_nat dataEndLength :: u32)) out;
      let sz = add32 sz (round4 dataEndLength) in
      if sz > maxSize then Some (0, out) else do {
      bs \<leftarrow> mem_read (bb_data b) (bb_zeroAreaStart b) dataEndLength h;
      out \<leftarrow> put_at (p + 4) bs out;
      Some (1, out) } } } } })"

definition get_at :: "nat \<Rightarrow> nat \<Rightarrow> u8 list \<Rightarrow> u8 list option" where
  "get_at p n inp = (if n = 0 \<or> p + n \<le> length inp then Some (take n (drop p inp)) else None)"

definition get32 :: "nat \<Rightarrow> u8 list \<Rightarrow> nat option" where
  "get32 p inp = map_option (\<lambda>bs. unat (from_lsb bs :: u32)) (get_at p 4 inp)"

text \<open>The buffer it is called on has no data (\<open>Buffer(0, false)\<close>), so its old state is not an argument.\<close>

definition buf_Deserialize :: "u8 list \<Rightarrow> nat \<Rightarrow> buf_heap \<Rightarrow> (nat \<times> byte_buffer \<times> buf_heap) option" where
  "buf_Deserialize inp sz h =
     (let sizeCheck = sub32 sz 4 in
      if sizeCheck < 4 then None else do {
      zeroDataLength \<leftarrow> get32 0 inp;
      let sizeCheck = sub32 sizeCheck 4 in do {
      (b, h) \<leftarrow> buf_Initialize zeroDataLength h;
      if sizeCheck < 4 then None else do {
      dataStartLength \<leftarrow> get32 4 inp;
      let sizeCheck = sub32 sizeCheck 4 in do {
      (b, h) \<leftarrow> buf_AddAtStart dataStartLength b h;
      if sizeCheck < dataStartLength then None else do {
      bs \<leftarrow> get_at 8 dataStartLength inp;
      (_, h) \<leftarrow> it_Write bs (buf_Begin b) h;
      let p = 8 + 4 * (round4 dataStartLength div 4); sizeCheck = sub32 sizeCheck (round4 dataStartLength) in
      if sizeCheck < 4 then None else do {
      dataEndLength \<leftarrow> get32 p inp;
      let sizeCheck = sub32 sizeCheck 4 in do {
      (b, h) \<leftarrow> buf_AddAtEnd dataEndLength b h;
      if sizeCheck < dataEndLength then None else do {
      tmp \<leftarrow> it_Prev dataEndLength (buf_End b);
      bs \<leftarrow> get_at (p + 4) dataEndLength inp;
      (_, h) \<leftarrow> it_Write bs tmp h;
      let sizeCheck = sub32 sizeCheck (round4 dataEndLength) in
      if sizeCheck \<noteq> 0 then None else Some (1, b, h) } } } } } } } })"

section \<open>Serialisation and back\<close>

lemma round4_small: "n \<le> size_limit \<Longrightarrow> round4 n = (n + 3) div 4 * 4"
  by (simp add: round4_def minus_mod_eq_div_mult)

lemma round4_bounds: "n \<le> size_limit \<Longrightarrow> n \<le> round4 n \<and> round4 n < n + 4 \<and> 4 * (round4 n div 4) = round4 n"
  unfolding round4_small by auto

lemma get_put_before:
  "p + n \<le> q \<Longrightarrow> q + length bs \<le> length out \<Longrightarrow> get_at p n (put_bytes q bs out) = get_at p n out"
  by (simp add: get_at_def put_bytes_def drop_take)

lemma get_put_same: "p + length bs \<le> length out \<Longrightarrow> get_at p (length bs) (put_bytes p bs out) = Some bs"
  by (simp add: get_at_def put_bytes_def)

lemma put_at_ok: "p + length bs \<le> length out \<Longrightarrow> put_at p bs out = Some (put_bytes p bs out)"
  by (simp add: put_at_def)

text \<open>The serialised form: the length of the zero area, and the bytes in front of it and behind it with
  their lengths.\<close>

definition serialised :: "u8 list \<Rightarrow> nat \<Rightarrow> u8 list \<Rightarrow> u8 list \<Rightarrow> bool" where
  "serialised U z W out \<longleftrightarrow> length out = 12 + round4 (length U) + round4 (length W)
     \<and> get_at 0 4 out = Some (to_lsb 4 (of_nat z :: u32)) \<and> get_at 4 4 out = Some (to_lsb 4 (of_nat (length U) :: u32))
     \<and> get_at 8 (length U) out = Some U
     \<and> get_at (8 + round4 (length U)) 4 out = Some (to_lsb 4 (of_nat (length W) :: u32))
     \<and> get_at (12 + round4 (length U)) (length W) out = Some W"

lemma Serialize_ok:
  assumes ok: "bufs_ok h (add_mset b B)" and len: "length out = buf_GetSerializedSize b" and m: "length out \<le> maxSize"
  shows "\<exists>out' U W. buf_Serialize out maxSize b h = Some (1, out') \<and> serialised U (zero_size b) W out'
    \<and> contents h b = U @ replicate (zero_size b) 0 @ W \<and> length out' = buf_GetSerializedSize b"
proof -
  note bnd = bufs_ok_bounds [OF ok]
  obtain x y z where xyz: "bb_zeroAreaStart b - bb_start b = x" "zero_size b = z" "bb_end b - bb_zeroAreaEnd b = y" by blast
  note diffs = position_diffs [OF ok, unfolded xyz]
  obtain U W where UW: "slice h b (bb_start b) x = U" "slice h b (bb_zeroAreaEnd b) y = W" by blast
  have "length (slice h b (bb_start b) x) = x" "length (slice h b (bb_zeroAreaEnd b) y) = y"
    by (rule length_slice [OF ok]; use bnd xyz in simp)+
  then have lens: "length U = x" "length W = y" unfolding UW .
  have con: "contents h b = U @ replicate z 0 @ W"
    using contents_parts [OF ok] unfolding xyz UW .
  have size: "x + z + y \<le> size_limit" using bufs_ok_size(1,3) [OF ok] con lens by simp
  note reads = stored_parts [OF ok, unfolded xyz UW]
  have rx: "x \<le> round4 x" "round4 x < x + 4" "4 * (round4 x div 4) = round4 x"
    and ry: "y \<le> round4 y" "round4 y < y + 4" using round4_bounds [of x] round4_bounds [of y] size by simp_all
  have total: "buf_GetSerializedSize b = 12 + round4 x + round4 y"
    using size rx ry by (simp add: buf_GetSerializedSize_def Let_def diffs)
  define o1 where "o1 = put_bytes 0 (to_lsb 4 (of_nat z :: u32)) out"
  define o2 where "o2 = put_bytes 4 (to_lsb 4 (of_nat x :: u32)) o1"
  define o3 where "o3 = put_bytes 8 U o2"
  define o4 where "o4 = put_bytes (8 + round4 x) (to_lsb 4 (of_nat y :: u32)) o3"
  define o5 where "o5 = put_bytes (12 + round4 x) W o4"
  have l0: "length out = 12 + round4 x + round4 y" using len total by simp
  have l: "length o1 = length out" "length o2 = length out" "length o3 = length out" "length o4 = length out" "length o5 = length out"
    using l0 lens rx ry unfolding o1_def o2_def o3_def o4_def o5_def by simp_all
  have p: "put_at 0 (to_lsb 4 (of_nat z :: u32)) out = Some o1" "put_at 4 (to_lsb 4 (of_nat x :: u32)) o1 = Some o2"
    "put_at 8 U o2 = Some o3" "put_at (8 + round4 x) (to_lsb 4 (of_nat y :: u32)) o3 = Some o4"
    "put_at (12 + round4 x) W o4 = Some o5"
    using l l0 lens rx ry unfolding o1_def [symmetric] o2_def o3_def o4_def o5_def
    by (simp_all add: put_at_ok o1_def [symmetric])
  have a: "add32 8 (round4 x) = 8 + round4 x" "add32 (8 + round4 x) 4 = 12 + round4 x"
    "add32 (12 + round4 x) (round4 y) = 12 + round4 x + round4 y" "8 + round4 x + 4 = 12 + round4 x"
    using size rx ry by simp_all
  have g: "get_at 0 4 o5 = Some (to_lsb 4 (of_nat z :: u32))" "get_at 4 4 o5 = Some (to_lsb 4 (of_nat x :: u32))"
    "get_at 8 x o5 = Some U" "get_at (8 + round4 x) 4 o5 = Some (to_lsb 4 (of_nat y :: u32))"
    "get_at (12 + round4 x) y o5 = Some W"
  proof -
    show "get_at (12 + round4 x) y o5 = Some W"
      using get_put_same [of "12 + round4 x" W o4] l l0 lens ry unfolding o5_def by simp
    have s4: "get_at p n o5 = get_at p n o4" if "p + n \<le> 12 + round4 x" for p n
      unfolding o5_def by (rule get_put_before) (use that l l0 lens ry in auto)
    have s3: "get_at p n o5 = get_at p n o3" if "p + n \<le> 8 + round4 x" for p n
    proof -
      have "get_at p n o4 = get_at p n o3"
        unfolding o4_def by (rule get_put_before) (use that l l0 in auto)
      with s4 [of p n] that show ?thesis by simp
    qed
    have s2: "get_at p n o5 = get_at p n o2" if "p + n \<le> 8" for p n
    proof -
      have "get_at p n o3 = get_at p n o2"
        unfolding o3_def by (rule get_put_before) (use that l l0 lens rx in auto)
      with s3 [of p n] that show ?thesis by simp
    qed
    have s1: "get_at p n o5 = get_at p n o1" if "p + n \<le> 4" for p n
    proof -
      have "get_at p n o2 = get_at p n o1"
        unfolding o2_def by (rule get_put_before) (use that l l0 in auto)
      with s2 [of p n] that show ?thesis by simp
    qed
    show "get_at (8 + round4 x) 4 o5 = Some (to_lsb 4 (of_nat y :: u32))"
      using s4 [of "8 + round4 x" 4] get_put_same [of "8 + round4 x" "to_lsb 4 (of_nat y :: u32)" o3] l l0
      unfolding o4_def by simp
    show "get_at 8 x o5 = Some U"
      using s3 [of 8 x] get_put_same [of 8 U o2] l l0 lens rx unfolding o3_def by simp
    show "get_at 4 4 o5 = Some (to_lsb 4 (of_nat x :: u32))"
      using s2 [of 4 4] get_put_same [of 4 "to_lsb 4 (of_nat x :: u32)" o1] l l0 unfolding o2_def by simp
    show "get_at 0 4 o5 = Some (to_lsb 4 (of_nat z :: u32))"
      using s1 [of 0 4] get_put_same [of 0 "to_lsb 4 (of_nat z :: u32)" out] l0 unfolding o1_def by simp
  qed
  have "buf_Serialize out maxSize b h = Some (1, o5)"
    using p reads m l0 rx(3) by (simp add: buf_Serialize_def Let_def diffs a)
  moreover have "serialised U z W o5" using g l l0 lens by (simp add: serialised_def)
  ultimately show ?thesis using con l l0 total unfolding xyz by (intro exI [of _ o5] exI [of _ U] exI [of _ W]) simp
qed

lemma Deserialize_ok:
  assumes ok: "bufs_ok h B" and inp: "serialised U z W inp" and limit: "length U + z + length W \<le> size_limit"
  shows "\<exists>c h'. buf_Deserialize inp (length inp + 4) h = Some (1, c, h') \<and> bufs_ok h' (add_mset c B)
    \<and> (\<forall>e \<in># B. contents h' e = contents h e) \<and> contents h' c = U @ replicate z 0 @ W"
proof -
  let ?x = "length U" and ?y = "length W"
  have rx: "?x \<le> round4 ?x" "round4 ?x < ?x + 4" "4 * (round4 ?x div 4) = round4 ?x"
    and ry: "?y \<le> round4 ?y" "round4 ?y < ?y + 4" using round4_bounds [of ?x] round4_bounds [of ?y] limit by simp_all
  have len: "length inp = 12 + round4 ?x + round4 ?y" using inp by (simp add: serialised_def)
  have nums: "get32 0 inp = Some z" "get32 4 inp = Some ?x" "get32 (8 + round4 ?x) inp = Some ?y"
  proof -
    have "unat (of_nat n :: u32) = n" if "n \<le> size_limit" for n
      using that by (simp add: unsigned_of_nat take_bit_eq_mod)
    then have "unat (of_nat z :: u32) = z" "unat (of_nat ?x :: u32) = ?x" "unat (of_nat ?y :: u32) = ?y"
      using limit by simp_all
    then show "get32 0 inp = Some z" "get32 4 inp = Some ?x" "get32 (8 + round4 ?x) inp = Some ?y"
      using inp by (simp_all add: serialised_def get32_def)
  qed
  have data: "get_at 8 ?x inp = Some U" "get_at (12 + round4 ?x) ?y inp = Some W" using inp by (simp_all add: serialised_def)
  obtain b0 h0 where b0: "buf_Initialize z h = Some (b0, h0)" "bufs_ok h0 (add_mset b0 B)"
    "\<forall>e \<in># B. contents h0 e = contents h e" "contents h0 b0 = replicate z 0"
    using Initialize_ok [OF ok, of z] limit by auto
  have s0: "buf_GetSize b0 = z" using bufs_ok_size(1) [OF b0(2)] b0(4) by simp
  have room0: "buf_GetSize b0 + ?x \<le> size_limit" using s0 limit by simp
  obtain b1 h1 where b1: "buf_AddAtStart ?x b0 h0 = Some (b1, h1)" "bufs_ok h1 (add_mset b1 B)"
    "\<forall>e \<in># B. contents h1 e = contents h0 e" "buf_GetSize b1 = buf_GetSize b0 + ?x" "writable b1 B (bb_start b1) ?x"
    "\<forall>h2 bs. length bs = ?x \<longrightarrow> wrote h1 h2 b1 B (bb_start b1) bs \<longrightarrow> contents h2 b1 = bs @ contents h0 b0"
    using AddAtStart_room [OF b0(2) room0] by blast
  obtain h2 where h2: "it_Write U (buf_Begin b1) h1 = Some (it_Construct b1 (bb_start b1 + ?x), h2)"
    "wrote h1 h2 b1 B (bb_start b1) U" using Write_ok [OF b1(2,5)] by (auto simp: buf_Begin_def)
  have c2: "contents h2 b1 = U @ replicate z 0" using b1(6) h2(2) b0(4) by simp
  have room2: "buf_GetSize b1 + ?y \<le> size_limit" using b1(4) s0 limit by simp
  obtain b3 h3 where b3: "buf_AddAtEnd ?y b1 h2 = Some (b3, h3)" "bufs_ok h3 (add_mset b3 B)"
    "\<forall>e \<in># B. contents h3 e = contents h2 e" "writable b3 B (bb_end b3 - ?y) ?y"
    "it_Prev ?y (buf_End b3) = Some (it_Construct b3 (bb_end b3 - ?y))"
    "\<forall>h4 bs. length bs = ?y \<longrightarrow> wrote h3 h4 b3 B (bb_end b3 - ?y) bs \<longrightarrow> contents h4 b3 = contents h2 b1 @ bs"
    using AddAtEnd_room [OF wroteD(1) [OF h2(2)] room2] by blast
  obtain h4 where h4: "it_Write W (it_Construct b3 (bb_end b3 - ?y)) h3 = Some (it_Construct b3 (bb_end b3 - ?y + ?y), h4)"
    "wrote h3 h4 b3 B (bb_end b3 - ?y) W" using Write_ok [OF b3(2,4)] by blast
  have c4: "contents h4 b3 = U @ replicate z 0 @ W" using b3(6) h4(2) c2 by simp
  have n: "sub32 (length inp + 4) 4 = length inp" "sub32 (length inp) 4 = 8 + round4 ?x + round4 ?y"
    "sub32 (8 + round4 ?x + round4 ?y) 4 = 4 + round4 ?x + round4 ?y"
    "sub32 (4 + round4 ?x + round4 ?y) (round4 ?x) = 4 + round4 ?y" "sub32 (4 + round4 ?y) 4 = round4 ?y"
    "sub32 (round4 ?y) (round4 ?y) = 0" "8 + round4 ?x + 4 = 12 + round4 ?x" "\<not> length inp < 4"
    using limit rx(2) ry(2) len by simp_all
  have "buf_Deserialize inp (length inp + 4) h = Some (1, b3, h4)"
    using nums data b0(1) b1(1) h2(1) b3(1,5) h4(1) rx(1,3) ry(1)
    by (simp add: buf_Deserialize_def Let_def n)
  then show ?thesis using c4 wroteD [OF h4(2)] wroteD(2) [OF h2(2)] b3(3) b1(3) b0(3)
    by (intro exI [of _ b3] exI [of _ h4]) simp
qed

lemma bh_empty_ok: "bufs_ok (bh_empty g) {#}"
  by (simp add: bufs_ok_def windows_ok_def heap_ok_def bh_empty_def free_addrs_def)

text \<open>C31: What \<open>Serialize\<close> writes for any buffer, \<open>Deserialize\<close> reads back as a buffer with the same
  contents, without changing any other buffer.\<close>

theorem buffer_serialisation_roundtrip:
  assumes ok: "bufs_ok h (add_mset b B)" and len: "length out = buf_GetSerializedSize b"
  shows "\<exists>out' c h'. buf_Serialize out (length out) b h = Some (1, out')
    \<and> buf_Deserialize out' (length out' + 4) h = Some (1, c, h') \<and> bufs_ok h' (add_mset c (add_mset b B))
    \<and> contents h' c = contents h b \<and> (\<forall>e \<in># add_mset b B. contents h' e = contents h e)"
proof -
  from Serialize_ok [OF ok len order_refl] obtain out' U W where s: "buf_Serialize out (length out) b h = Some (1, out')"
    "serialised U (zero_size b) W out'" "contents h b = U @ replicate (zero_size b) 0 @ W" by blast
  have "length U + zero_size b + length W \<le> size_limit" using bufs_ok_size(1,3) [OF ok] s(3) by simp
  from Deserialize_ok [OF ok s(2) this] s show ?thesis by metis
qed

theorem buffer_serialisation_roundtrip_witness:
  "\<exists>b h out c h'. buf_Initialize 5 (bh_empty (\<lambda>_ _. 0)) = Some (b, h)
    \<and> buf_Serialize (replicate (buf_GetSerializedSize b) 0) (buf_GetSerializedSize b) b h = Some (1, out)
    \<and> buf_Deserialize out (length out + 4) h = Some (1, c, h') \<and> contents h' c = [0, 0, 0, 0, 0]"
proof -
  have five: "(5::nat) \<le> size_limit" by simp
  obtain b h where b: "buf_Initialize 5 (bh_empty (\<lambda>_ _. 0)) = Some (b, h)" "bufs_ok h {#b#}"
    "contents h b = replicate 5 0" using Initialize_ok [OF bh_empty_ok five, of "\<lambda>_ _. 0"] by auto
  from buffer_serialisation_roundtrip [of h b "{#}" "replicate (buf_GetSerializedSize b) 0"] b(2)
  obtain out c h' where "buf_Serialize (replicate (buf_GetSerializedSize b) 0) (buf_GetSerializedSize b) b h = Some (1, out)"
    "buf_Deserialize out (length out + 4) h = Some (1, c, h')" "contents h' c = contents h b" by auto
  then show ?thesis using b(1,3) by (auto simp: numeral_eq_Suc)
qed

end
