(* ===== verification/BufferDefects.thy ===== *)
theory BufferDefects
  imports BufferSerialize
begin

text \<open>
  The two cases in which \<open>Buffer::AddAtEnd(const Buffer&)\<close> (\<open>network/model/buffer.cc\<close>) does not append.
  All memory holds zeroes before it is written.
\<close>

lemmas buffer_run_defs = buf_Initialize_def buf_Create_def buf_Allocate_def bh_empty_def upd_data_def mem_read_def
  mem_write_def buf_AddAtEnd_def GetInternalEnd_def GetInternalSize_def note_zero_start_def it_Prev_def buf_End_def
  buf_Begin_def it_Construct_def it_Write_def CheckNoZero_def stored_def forth_def put_bytes_def map_replicate_const

text \<open>An empty buffer, a buffer of \<open>z\<close> zeroes and the bytes 1 to 4, and the second appended to the first.\<close>

definition appended :: "nat \<Rightarrow> u8 list option" where
  "appended z = do {
     (b, h) \<leftarrow> buf_Initialize 0 (bh_empty (\<lambda>_ _. 0));
     (c, h) \<leftarrow> buf_Initialize z h;
     (c, h) \<leftarrow> buf_AddAtEnd 4 c h;
     i \<leftarrow> it_Prev 4 (buf_End c);
     (_, h) \<leftarrow> it_Write [1, 2, 3, 4] i h;
     (b, h) \<leftarrow> buf_AddAtEndBuffer c b h;
     (_, bs) \<leftarrow> buf_CopyData (buf_GetSize b) b h;
     Some bs }"

lemma take_short: "take (4 - z) (1 # 2 # 3 # 4 # xs) = take (4 - z) [1, 2, 3, 4 :: u8]"
  using take_append [of "4 - z" "[1, 2, 3, 4]" xs] by simp

lemma appended_inside: "0 < z \<Longrightarrow> z \<le> 97 \<Longrightarrow> appended z = Some (replicate z 0 @ take 4 (replicate z 0 @ [1, 2, 3, 4]))"
  by (simp add: appended_def buffer_run_defs Let_def)
    (simp add: buf_AddAtEndBuffer_def buffer_run_defs Let_def,
     simp add: it_WriteRange_def copy_step_def buffer_run_defs Let_def,
     simp add: buf_CopyData_def buf_GetSize_def buffer_run_defs Let_def take_short [of z "replicate (97 - z) 0"])

lemma appended_outside: "97 < z \<Longrightarrow> z \<le> 2 ^ 30 \<Longrightarrow> appended z = None"
  by (simp add: appended_def buffer_run_defs Let_def)
    (simp add: buf_AddAtEndBuffer_def buffer_run_defs Let_def,
     simp add: it_WriteRange_def copy_step_def buffer_run_defs Let_def)

text \<open>C35: When the appended buffer starts with zeroes and the buffer it is appended to has no bytes behind its
  own zero area, the bytes behind the zeroes are written \<open>z\<close> bytes behind the place where they are read:
  with up to 97 zeroes, up to four of the bytes are lost, and with more the write is outside of the
  \<open>m_size\<close> bytes of the data (and, from 101 zeroes on, outside of the allocated block).\<close>

theorem AddAtEnd_misplaces_bytes:
  assumes "0 < z" "z \<le> 2 ^ 30"
  shows "appended z = (if z \<le> 97 then Some (replicate z 0 @ take 4 (replicate z 0 @ [1, 2, 3, 4])) else None)
    \<and> appended z \<noteq> Some (replicate z 0 @ [1, 2, 3, 4])"
proof -
  have a: "appended z = (if z \<le> 97 then Some (replicate z 0 @ take 4 (replicate z 0 @ [1, 2, 3, 4])) else None)"
    using assms appended_inside [of z] appended_outside [of z] by (cases "z \<le> 97") simp_all
  have "hd (take 4 (replicate z 0 @ [1, 2, 3, 4])) = (0 :: u8)" using assms(1) by (cases z) simp_all
  then have "take 4 (replicate z 0 @ [1, 2, 3, 4]) \<noteq> [1, 2, 3, 4 :: u8]" by (metis list.sel(1) zero_neq_one)
  then show ?thesis using a by simp
qed

theorem AddAtEnd_misplaces_bytes_witness:
  "appended 50 = Some (replicate 50 0 @ replicate 4 0) \<and> appended 200 = None"
  using AddAtEnd_misplaces_bytes [of 50] AddAtEnd_misplaces_bytes [of 200] by simp

text \<open>A buffer of \<open>n\<close> bytes, to which a copy of itself is appended: the data has room, so that it stays
  shared, and the assertion \<open>m_data != start.m_data\<close> of \<open>Iterator::Write(Iterator, Iterator)\<close> fails.\<close>

definition doubled :: "nat \<Rightarrow> (byte_buffer \<times> buf_heap) option" where
  "doubled n = do {
     (b, h) \<leftarrow> buf_Initialize 0 (bh_empty (\<lambda>_ _. 0));
     (b, h) \<leftarrow> buf_AddAtEnd n b h;
     (c, h) \<leftarrow> buf_copy b h;
     buf_AddAtEndBuffer c b h }"

lemma own_copy_cannot_be_appended: "n \<le> 50 \<Longrightarrow> doubled n = None"
  by (simp add: doubled_def buffer_run_defs buf_copy_def add_ref_def Let_def)
    (simp add: buf_AddAtEndBuffer_def buf_CreateFullCopy_def buf_copy_def buf_assign_def buf_destroy_def
      drop_ref_def recommend_def add_ref_def buffer_run_defs Let_def,
     simp add: it_WriteRange_def buf_GetSize_def buffer_run_defs Let_def)

end
