(* ===== verification/TagListSerialize.thy ===== *)
theory TagListSerialize
  imports PacketTagList BufferSerialize
begin

text \<open>
  The serialised form of a list of packet tags (\<open>GetSerializedSize\<close>, \<open>Serialize\<close> and \<open>Deserialize\<close> of
  \<open>network/model/packet-tag-list.cc\<close>): the number of tags, and for each its size, the hash of its type
  id, and its data padded to a multiple of four bytes. The tables of the type system are arguments:
  \<open>hash\<close> is \<open>TypeId::GetHash\<close>, \<open>lookup\<close> is \<open>TypeId::LookupByHash\<close>, which fails on unknown hashes.
  The arrays of \<open>uint32_t\<close> are lists of bytes as in \<open>BufferSerialize\<close>, positions count bytes.
\<close>

section \<open>Operations\<close>

partial_function (option) tags_size :: "tag_heap \<Rightarrow> ptr \<Rightarrow> nat \<Rightarrow> nat option" where
  "tags_size h cur sz = (case cur of None \<Rightarrow> Some sz
     | Some a \<Rightarrow> Option.bind (th_cells h a) (\<lambda>d.
         tags_size h (td_next d) (add32 (add32 (add32 sz 4) 4) (round4 (td_size d)))))"

definition ptl_GetSerializedSize :: "tag_heap \<Rightarrow> ptr \<Rightarrow> nat option" where
  "ptl_GetSerializedSize h m = tags_size h m 4"

text \<open>The loop of \<open>Serialize\<close>. The number of tags is at the start of the array, and is increased there.\<close>

partial_function (option) write_tags ::
    "(nat \<Rightarrow> u32) \<Rightarrow> nat \<Rightarrow> tag_heap \<Rightarrow> ptr \<Rightarrow> nat \<Rightarrow> nat \<Rightarrow> u8 list \<Rightarrow> (nat \<times> u8 list) option" where
  "write_tags hash maxSize h cur p sz out = (case cur of None \<Rightarrow> Some (1, out)
     | Some a \<Rightarrow> Option.bind (th_cells h a) (\<lambda>d.
         let sz = add32 sz 4 in if sz > maxSize then Some (0, out) else
         Option.bind (put_at p (to_lsb 4 (of_nat (td_size d) :: u32)) out) (\<lambda>out.
         let sz = add32 sz 4 in if sz > maxSize then Some (0, out) else
         Option.bind (put_at (p + 4) (to_lsb 4 (hash (td_tid d))) out) (\<lambda>out.
         let sz = add32 sz (round4 (td_size d)) in if sz > maxSize then Some (0, out) else
         Option.bind (put_at (p + 8) (take (td_size d) (td_data d)) out) (\<lambda>out.
         Option.bind (get32 0 out) (\<lambda>n.
         Option.bind (put_at 0 (to_lsb 4 (of_nat (n + 1) :: u32)) out) (\<lambda>out.
           write_tags hash maxSize h (td_next d) (p + 8 + 4 * (round4 (td_size d) div 4)) sz out)))))))"

definition ptl_Serialize :: "(nat \<Rightarrow> u32) \<Rightarrow> u8 list \<Rightarrow> nat \<Rightarrow> tag_heap \<Rightarrow> ptr \<Rightarrow> (nat \<times> u8 list) option" where
  "ptl_Serialize hash out maxSize h m =
     (if 4 > maxSize then Some (0, out)
      else Option.bind (put_at 0 (to_lsb 4 (0 :: u32)) out) (\<lambda>out. write_tags hash maxSize h m 4 4 out))"

text \<open>The loop of \<open>Deserialize\<close>; there is no previous tag in the first pass only.\<close>

primrec read_tags :: "(u32 \<Rightarrow> nat option) \<Rightarrow> u8 list \<Rightarrow> nat \<Rightarrow> ptr \<Rightarrow> nat \<Rightarrow> nat \<Rightarrow> tag_heap \<Rightarrow> ptr \<Rightarrow>
    (nat \<times> tag_heap \<times> ptr) option" where
  "read_tags lookup inp 0 prevTag p sizeCheck h m = Some (sizeCheck, h, m)"
| "read_tags lookup inp (Suc n) prevTag p sizeCheck h m =
     (if sizeCheck < 4 then None else
      Option.bind (get32 p inp) (\<lambda>tagSize.
      let sizeCheck = sub32 sizeCheck 4 in if sizeCheck < 4 then None else
      Option.bind (get_at (p + 4) 4 inp) (\<lambda>hash.
      let sizeCheck = sub32 sizeCheck 4 in
      Option.bind (lookup (from_lsb hash)) (\<lambda>tid.
      Option.bind (new_node tagSize tid None h) (\<lambda>(newTag, h).
      if sizeCheck < tagSize then None else
      Option.bind (get_at (p + 8) tagSize inp) (\<lambda>bs.
      Option.bind (upd_cell newTag (\<lambda>d. d\<lparr>td_data := bs\<rparr>) h) (\<lambda>h.
      Option.bind (case prevTag of None \<Rightarrow> Some (h, Some newTag)
          | Some b \<Rightarrow> Option.bind (upd_cell b (\<lambda>d. d\<lparr>td_next := Some newTag\<rparr>) h) (\<lambda>h. Some (h, m))) (\<lambda>(h, m).
        read_tags lookup inp n (Some newTag) (p + 8 + 4 * (round4 tagSize div 4))
          (sub32 sizeCheck (round4 tagSize)) h m))))))))"

definition ptl_Deserialize :: "(u32 \<Rightarrow> nat option) \<Rightarrow> u8 list \<Rightarrow> nat \<Rightarrow> tag_heap \<Rightarrow> ptr \<Rightarrow> (nat \<times> tag_heap \<times> ptr) option" where
  "ptl_Deserialize lookup inp sz h m =
     (let sizeCheck = sub32 sz 4 in
      if sizeCheck < 4 then None else
      Option.bind (get32 0 inp) (\<lambda>numberOfTags.
      Option.bind (read_tags lookup inp numberOfTags None 4 (sub32 sizeCheck 4) h m) (\<lambda>(sizeCheck, h, m).
        if sizeCheck \<noteq> 0 then None else Some (1, h, m))))"

section \<open>The serialised form\<close>

primrec tags_length :: "(nat \<times> u8 list) list \<Rightarrow> nat" where
  "tags_length [] = 0"
| "tags_length (v # vs) = 8 + round4 (length (snd v)) + tags_length vs"

primrec tags_at :: "(nat \<Rightarrow> u32) \<Rightarrow> u8 list \<Rightarrow> nat \<Rightarrow> (nat \<times> u8 list) list \<Rightarrow> bool" where
  "tags_at hash inp p [] \<longleftrightarrow> p = length inp"
| "tags_at hash inp p (v # vs) \<longleftrightarrow> get32 p inp = Some (length (snd v)) \<and> get_at (p + 4) 4 inp = Some (to_lsb 4 (hash (fst v)))
     \<and> get_at (p + 8) (length (snd v)) inp = Some (snd v) \<and> tags_at hash inp (p + 8 + round4 (length (snd v))) vs"

text \<open>The sizes of the data, small enough that no position wraps.\<close>

definition small_tags :: "(nat \<times> u8 list) list \<Rightarrow> bool" where
  "small_tags vs \<longleftrightarrow> tags_length vs \<le> size_limit \<and> (\<forall>v \<in> set vs. length (snd v) \<le> size_limit)"

lemma small_tags_Cons:
  "small_tags (v # vs) \<Longrightarrow> small_tags vs" "small_tags (v # vs) \<Longrightarrow> length (snd v) \<le> size_limit"
  "small_tags (v # vs) \<Longrightarrow> 8 + round4 (length (snd v)) + tags_length vs \<le> size_limit"
  by (simp_all add: small_tags_def)

lemma get32_put: "p + 4 \<le> length out \<Longrightarrow> get32 p (put_bytes p (to_lsb 4 (of_nat n :: u32)) out) = Some (unat (of_nat n :: u32))"
  using get_put_same [of p "to_lsb 4 (of_nat n :: u32)" out] by (simp add: get32_def)

lemma unat_small: "n \<le> size_limit \<Longrightarrow> unat (of_nat n :: u32) = n"
  by (simp add: unat_of_nat_u32)

lemma get_put_after:
  "q + length bs \<le> p \<Longrightarrow> q + length bs \<le> length out \<Longrightarrow> get_at p n (put_bytes q bs out) = get_at p n out"
  by (simp add: get_at_def put_bytes_def drop_append)

lemma tags_size_ok:
  "path (nexts (th_cells h)) m xs None \<Longrightarrow> \<forall>a d. th_cells h a = Some d \<longrightarrow> td_size d = length (td_data d) \<Longrightarrow>
   small_tags (tags_of h xs) \<Longrightarrow> sz + tags_length (tags_of h xs) \<le> size_limit + 4 \<Longrightarrow>
   tags_size h m sz = Some (sz + tags_length (tags_of h xs))"
proof (induction xs arbitrary: m sz)
  case Nil
  then show ?case by (simp add: tags_size.simps)
next
  case (Cons a xs)
  from Cons.prems(1) obtain d where d: "m = Some a" "th_cells h a = Some d" "path (nexts (th_cells h)) (td_next d) xs None" by auto
  have sd: "td_size d = length (td_data d)" using Cons.prems(2) d(2) by blast
  have tags: "tags_of h (a # xs) = (td_tid d, td_data d) # tags_of h xs" using d(2) by (simp add: tag_of_def)
  note small = small_tags_Cons [OF Cons.prems(3) [unfolded tags]]
  have "tags_size h (td_next d) (sz + 8 + round4 (td_size d)) = Some (sz + 8 + round4 (td_size d) + tags_length (tags_of h xs))"
    using Cons.prems(4) tags sd by (intro Cons.IH d(3) Cons.prems(2) small(1)) auto
  moreover have "add32 (add32 (add32 sz 4) 4) (round4 (td_size d)) = sz + 8 + round4 (td_size d)"
    using Cons.prems(4) tags sd by (simp add: add32_def)
  ultimately show ?case using d(1,2) tags sd by (simp add: tags_size.simps [of h "Some a"] add.assoc)
qed

text \<open>The array after one tag was written at \<open>p\<close>.\<close>

lemma one_tag_written:
  assumes out: "p + 8 + round4 (length bs) \<le> length out" "4 \<le> p" and bs: "length bs \<le> size_limit" "k < size_limit"
    and k: "get32 0 out = Some k"
  obtains o4 where "put_at p (to_lsb 4 (of_nat (length bs) :: u32)) out = Some (put_bytes p (to_lsb 4 (of_nat (length bs) :: u32)) out)"
    "put_at (p + 4) (to_lsb 4 t) (put_bytes p (to_lsb 4 (of_nat (length bs) :: u32)) out)
       = Some (put_bytes (p + 4) (to_lsb 4 t) (put_bytes p (to_lsb 4 (of_nat (length bs) :: u32)) out))"
    "put_at (p + 8) bs (put_bytes (p + 4) (to_lsb 4 t) (put_bytes p (to_lsb 4 (of_nat (length bs) :: u32)) out)) = Some
       (put_bytes (p + 8) bs (put_bytes (p + 4) (to_lsb 4 t) (put_bytes p (to_lsb 4 (of_nat (length bs) :: u32)) out)))"
    "get32 0 (put_bytes (p + 8) bs (put_bytes (p + 4) (to_lsb 4 t) (put_bytes p (to_lsb 4 (of_nat (length bs) :: u32)) out))) = Some k"
    "put_at 0 (to_lsb 4 (of_nat (k + 1) :: u32)) (put_bytes (p + 8) bs (put_bytes (p + 4) (to_lsb 4 t)
       (put_bytes p (to_lsb 4 (of_nat (length bs) :: u32)) out))) = Some o4"
    "length o4 = length out" "get32 0 o4 = Some (k + 1)" "get32 p o4 = Some (length bs)"
    "get_at (p + 4) 4 o4 = Some (to_lsb 4 t)" "get_at (p + 8) (length bs) o4 = Some bs"
    "\<And>q n. 4 \<le> q \<Longrightarrow> q + n \<le> p \<Longrightarrow> get_at q n o4 = get_at q n out"
proof -
  have r: "length bs \<le> round4 (length bs)" using round4_bounds [OF bs(1)] by simp
  define o1 where "o1 = put_bytes p (to_lsb 4 (of_nat (length bs) :: u32)) out"
  define o2 where "o2 = put_bytes (p + 4) (to_lsb 4 t) o1"
  define o3 where "o3 = put_bytes (p + 8) bs o2"
  define o4 where "o4 = put_bytes 0 (to_lsb 4 (of_nat (k + 1) :: u32)) o3"
  have l: "length o1 = length out" "length o2 = length out" "length o3 = length out" "length o4 = length out"
    using out r by (simp_all add: o1_def o2_def o3_def o4_def)
  have g: "get_at q n o4 = get_at q n o3" if "4 \<le> q" for q n
    using that l out unfolding o4_def by (intro get_put_after) simp_all
  show ?thesis
  proof (rule that [of o4, folded o1_def, folded o2_def, folded o3_def])
    show "put_at p (to_lsb 4 (of_nat (length bs) :: u32)) out = Some o1" "put_at (p + 4) (to_lsb 4 t) o1 = Some o2"
      "put_at (p + 8) bs o2 = Some o3" "put_at 0 (to_lsb 4 (of_nat (k + 1) :: u32)) o3 = Some o4"
      unfolding o1_def o2_def o3_def o4_def using l out r by (intro put_at_ok; simp add: o1_def o2_def o3_def)+
    have "get_at 0 4 o3 = get_at 0 4 out"
      unfolding o3_def o2_def o1_def using out r by (simp add: get_put_before)
    then show "get32 0 o3 = Some k" using k by (simp add: get32_def)
    have "0 + 4 \<le> length o3" "k + 1 \<le> size_limit" using l out bs by simp_all
    with get32_put [of 0 o3 "k + 1"] unat_small [of "k + 1"] show "get32 0 o4 = Some (k + 1)"
      unfolding o4_def by (simp only:)
    have "get_at p 4 o3 = get_at p 4 o1"
      unfolding o3_def o2_def using l out r by (simp add: get_put_before)
    then have "get32 p o4 = get32 p o1" using g [of p 4] out by (simp add: get32_def)
    then show "get32 p o4 = Some (length bs)" unfolding o1_def using out unat_small [OF bs(1)] by (simp add: get32_put)
    have "get_at (p + 4) 4 o3 = get_at (p + 4) 4 o2" unfolding o3_def using l out r by (intro get_put_before) simp_all
    then show "get_at (p + 4) 4 o4 = Some (to_lsb 4 t)"
      using g [of "p + 4" 4] get_put_same [of "p + 4" "to_lsb 4 t" o1] l out by (simp add: o2_def)
    show "get_at (p + 8) (length bs) o4 = Some bs"
      using g [of "p + 8" "length bs"] get_put_same [of "p + 8" bs o2] l out r by (simp add: o3_def)
    show "get_at q n o4 = get_at q n out" if "4 \<le> q" "q + n \<le> p" for q n
      using g [OF that(1), of n] that out r unfolding o3_def o2_def o1_def by (simp add: get_put_before)
  qed (rule l(4))
qed

lemma write_tags_ok:
  "path (nexts (th_cells h)) m xs None \<Longrightarrow> \<forall>a d. th_cells h a = Some d \<longrightarrow> td_size d = length (td_data d) \<Longrightarrow>
   small_tags (tags_of h xs) \<Longrightarrow> length out = p + tags_length (tags_of h xs) \<Longrightarrow> length out \<le> maxSize \<Longrightarrow>
   length out \<le> size_limit + 4 \<Longrightarrow> 4 \<le> p \<Longrightarrow> get32 0 out = Some k \<Longrightarrow> k + length xs \<le> size_limit \<Longrightarrow>
   \<exists>out'. write_tags hash maxSize h m p p out = Some (1, out') \<and> length out' = length out
     \<and> tags_at hash out' p (tags_of h xs) \<and> get32 0 out' = Some (k + length xs)
     \<and> (\<forall>q n. 4 \<le> q \<longrightarrow> q + n \<le> p \<longrightarrow> get_at q n out' = get_at q n out)"
proof (induction xs arbitrary: m p out k)
  case Nil
  then show ?case by (simp add: write_tags.simps)
next
  case (Cons a xs)
  from Cons.prems(1) obtain d where d: "m = Some a" "th_cells h a = Some d" "path (nexts (th_cells h)) (td_next d) xs None" by auto
  let ?bs = "td_data d"
  have sd: "td_size d = length ?bs" using Cons.prems(2) d(2) by blast
  have tags: "tags_of h (a # xs) = (td_tid d, ?bs) # tags_of h xs" using d(2) by (simp add: tag_of_def)
  note small = small_tags_Cons [OF Cons.prems(3) [unfolded tags], unfolded snd_conv]
  have r4: "4 * (round4 (length ?bs) div 4) = round4 (length ?bs)" using round4_bounds [OF small(2)] by simp
  let ?p = "p + 8 + round4 (length ?bs)"
  have len: "length out = ?p + tags_length (tags_of h xs)" using Cons.prems(4) tags by simp
  have room: "?p \<le> length out" "k < size_limit" using len Cons.prems(9) by simp_all
  obtain o4 where o4: "put_at p (to_lsb 4 (of_nat (length ?bs) :: u32)) out = Some (put_bytes p (to_lsb 4 (of_nat (length ?bs) :: u32)) out)"
    "put_at (p + 4) (to_lsb 4 (hash (td_tid d))) (put_bytes p (to_lsb 4 (of_nat (length ?bs) :: u32)) out)
       = Some (put_bytes (p + 4) (to_lsb 4 (hash (td_tid d))) (put_bytes p (to_lsb 4 (of_nat (length ?bs) :: u32)) out))"
    "put_at (p + 8) ?bs (put_bytes (p + 4) (to_lsb 4 (hash (td_tid d))) (put_bytes p (to_lsb 4 (of_nat (length ?bs) :: u32)) out)) = Some
       (put_bytes (p + 8) ?bs (put_bytes (p + 4) (to_lsb 4 (hash (td_tid d))) (put_bytes p (to_lsb 4 (of_nat (length ?bs) :: u32)) out)))"
    "get32 0 (put_bytes (p + 8) ?bs (put_bytes (p + 4) (to_lsb 4 (hash (td_tid d))) (put_bytes p (to_lsb 4 (of_nat (length ?bs) :: u32)) out))) = Some k"
    "put_at 0 (to_lsb 4 (of_nat (k + 1) :: u32)) (put_bytes (p + 8) ?bs (put_bytes (p + 4) (to_lsb 4 (hash (td_tid d)))
       (put_bytes p (to_lsb 4 (of_nat (length ?bs) :: u32)) out))) = Some o4"
    and o4': "length o4 = length out" "get32 0 o4 = Some (k + 1)" "get32 p o4 = Some (length ?bs)"
    "get_at (p + 4) 4 o4 = Some (to_lsb 4 (hash (td_tid d)))" "get_at (p + 8) (length ?bs) o4 = Some ?bs"
    "\<And>q n. 4 \<le> q \<Longrightarrow> q + n \<le> p \<Longrightarrow> get_at q n o4 = get_at q n out"
    using one_tag_written [OF room(1) Cons.prems(7) small(2) room(2) Cons.prems(8), of "hash (td_tid d)"] by metis
  have "4 \<le> ?p" "(k + 1) + length xs \<le> size_limit" using Cons.prems(9) Cons.prems(7) by simp_all
  from Cons.IH [OF d(3) Cons.prems(2) small(1) len [folded o4'(1)] _ _ this(1) o4'(2) this(2)] Cons.prems(5,6) o4'(1)
  obtain out' where o': "write_tags hash maxSize h (td_next d) ?p ?p o4 = Some (1, out')" "length out' = length o4"
    "tags_at hash out' ?p (tags_of h xs)" "get32 0 out' = Some (k + 1 + length xs)"
    "\<And>q n. 4 \<le> q \<Longrightarrow> q + n \<le> ?p \<Longrightarrow> get_at q n out' = get_at q n o4" by auto
  have szs: "add32 p 4 = p + 4" "add32 (p + 4) 4 = p + 8" "add32 (p + 8) (round4 (length ?bs)) = ?p"
    using room(1) Cons.prems(6) by (simp_all add: add32_def)
  have le: "p + 4 \<le> maxSize" "p + 8 \<le> maxSize" "?p \<le> maxSize" using room(1) Cons.prems(5) by simp_all
  have "write_tags hash maxSize h m p p out = Some (1, out')"
    using d(2) sd o4 o'(1) szs le r4 unfolding d(1) by (subst write_tags.simps) (simp add: Let_def not_less)
  moreover have "get32 p out' = Some (length ?bs)" "get_at (p + 4) 4 out' = Some (to_lsb 4 (hash (td_tid d)))"
    "get_at (p + 8) (length ?bs) out' = Some ?bs"
    using o'(5) [of p 4] o'(5) [of "p + 4" 4] o'(5) [of "p + 8" "length ?bs"] o4'(3-5) round4_bounds [OF small(2)] Cons.prems(7)
    by (simp_all add: get32_def)
  moreover have "get_at q n out' = get_at q n out" if "4 \<le> q" "q + n \<le> p" for q n
    using o'(5) [of q n] o4'(6) [of q n] that by simp
  ultimately show ?case using o'(2-4) o4'(1) tags by auto
qed

section \<open>The list that is read\<close>

text \<open>Nodes at \<open>b\<close>, \<open>b + 1\<close>, ... that form a list of their own.\<close>

definition chain_start :: "nat \<Rightarrow> (nat \<times> u8 list) list \<Rightarrow> ptr" where
  "chain_start b vs = (if vs = [] then None else Some b)"

primrec chain :: "nat \<Rightarrow> (nat \<times> u8 list) list \<Rightarrow> (addr \<rightharpoonup> tag_data) \<Rightarrow> addr \<rightharpoonup> tag_data" where
  "chain b [] cs = cs"
| "chain b (v # vs) cs = (chain (Suc b) vs cs)(b \<mapsto>
     \<lparr>td_next = chain_start (Suc b) vs, td_count = 1, td_tid = fst v, td_size = length (snd v), td_data = snd v\<rparr>)"

lemma chain_other: "a < b \<or> b + length vs \<le> a \<Longrightarrow> chain b vs cs a = cs a"
  by (induction vs arbitrary: b) auto

lemma prepend_ok:
  assumes ok: "tags_ok h (add_mset m R)" and vs: "has_tags h m vs" and c: "th_cells h c = None" "c < th_brk h"
    and sz: "length bs < 2 ^ 32 - 1"
    and h': "h' = h\<lparr>th_cells := (th_cells h)(c \<mapsto> \<lparr>td_next = m, td_count = 1, td_tid = t, td_size = length bs, td_data = bs\<rparr>)\<rparr>"
  shows "tags_ok h' (add_mset (Some c) R)" "has_tags h' (Some c) ((t, bs) # vs)" "keeps h h' R"
proof -
  let ?N = "nexts (th_cells h)"
  from vs obtain xs where xs: "path ?N m xs None" "tags_of h xs = vs" by (auto simp: has_tags_def)
  have N: "nexts (th_cells h') = ?N(c \<mapsto> m)" by (simp add: h')
  have cN: "?N c = None" using c by simp
  note sh = add_shape [OF tags_ok_shape(1) [OF ok] xs(1) cN]
  have c0: "count (add_mset m R + ptrs ?N) (Some c) = 0"
    using ptr_in_dom [OF tags_ok_shape(1) [OF ok], of c] c by (metis count_inI domIff dom_nexts)
  have cell: "th_cells h' a = (if a = c then Some \<lparr>td_next = m, td_count = 1, td_tid = t, td_size = length bs, td_data = bs\<rparr>
      else th_cells h a)" for a by (simp add: h')
  show "tags_ok h' (add_mset (Some c) R)"
  proof (rule tags_okI)
    show "shape_ok (nexts (th_cells h')) (add_mset (Some c) R)" unfolding N by (rule sh(1))
    fix a d
    assume a: "th_cells h' a = Some d"
    have cnt: "count (add_mset (Some c) R + ptrs (nexts (th_cells h'))) (Some a)
        = count (add_mset m R + ptrs ?N) (Some a) + (if a = c then 1 else 0)"
      unfolding N sh(4) by simp
    show "td_count d = count (add_mset (Some c) R + ptrs (nexts (th_cells h'))) (Some a)"
    proof (cases "a = c")
      case True
      then have "td_count d = 1" using a cell by auto
      with True cnt c0 show ?thesis by (simp only:) simp
    next
      case False
      then have "th_cells h a = Some d" using a cell by simp
      from tags_okD(1) [OF ok this] cnt False show ?thesis by (simp only:) simp
    qed
    show "a < th_brk h' \<and> td_size d = length (td_data d) \<and> td_size d < 2 ^ 32 - 1"
      using a cell tags_okD(2-4) [OF ok, of a d] c(2) sz by (cases "a = c") (auto simp: h')
  qed
  show "keeps h h' R"
  proof (rule keepsI)
    show "q \<in># R \<Longrightarrow> path ?N q zs None \<Longrightarrow> path (nexts (th_cells h')) q zs None" for q zs
      unfolding N by (rule sh(3))
  qed (use c cell in \<open>auto split: if_splits\<close>)
  have "c \<notin> set xs" using path_dom [OF xs(1)] c by auto
  then have "tags_of h' xs = vs" unfolding xs(2) [symmetric] using cell by (intro tags_of_cong) auto
  then have "tags_of h' (c # xs) = (t, bs) # vs" using cell by (simp add: tag_of_def)
  with sh(2) show "has_tags h' (Some c) ((t, bs) # vs)" unfolding has_tags_def N by blast
qed

lemma chain_ok:
  assumes ok: "tags_ok h (add_mset None R)"
  shows "small_tags vs \<Longrightarrow> th_brk h \<le> b \<Longrightarrow> B = b + length vs \<Longrightarrow> h' = h\<lparr>th_cells := chain b vs (th_cells h), th_brk := B\<rparr> \<Longrightarrow>
    tags_ok h' (add_mset (chain_start b vs) R) \<and> has_tags h' (chain_start b vs) vs \<and> keeps h h' R"
proof (induction vs arbitrary: b h')
  case Nil
  have cells: "th_cells h' = th_cells h" using Nil.prems by simp
  have "tags_ok h' (add_mset None R)"
  proof (rule tags_okI)
    show "shape_ok (nexts (th_cells h')) (add_mset None R)" using tags_ok_shape(1) [OF ok] cells by simp
    fix a d assume "th_cells h' a = Some d"
    then have a: "th_cells h a = Some d" using cells by simp
    show "td_count d = count (add_mset None R + ptrs (nexts (th_cells h'))) (Some a)"
      using tags_okD(1) [OF ok a] cells by simp
    show "a < th_brk h' \<and> td_size d = length (td_data d) \<and> td_size d < 2 ^ 32 - 1"
      using tags_okD(2-4) [OF ok a] Nil.prems(2-4) by simp
  qed
  moreover have "has_tags h' None []" unfolding has_tags_def by (intro exI [of _ "[]"]) simp
  moreover have "keeps h h' R" by (simp add: keeps_def has_tags_def tags_of_def cells)
  ultimately show ?case by (simp add: chain_start_def)
next
  case (Cons v vs)
  let ?h1 = "h\<lparr>th_cells := chain (Suc b) vs (th_cells h), th_brk := B\<rparr>"
  note small = small_tags_Cons [OF Cons.prems(1)]
  have IH: "tags_ok ?h1 (add_mset (chain_start (Suc b) vs) R)" "has_tags ?h1 (chain_start (Suc b) vs) vs" "keeps h ?h1 R"
    using Cons.IH [OF small(1), of "Suc b" ?h1] Cons.prems(2,3) by auto
  have none: "th_cells h b = None"
  proof (rule ccontr)
    assume "th_cells h b \<noteq> None"
    then show False using tags_okD(4) [OF ok, of b] Cons.prems(2) by auto
  qed
  have c: "th_cells ?h1 b = None" "b < th_brk ?h1" using none Cons.prems(3) by (simp_all add: chain_other)
  have sz: "length (snd v) < 2 ^ 32 - 1" using small(2) by simp
  have h': "h' = ?h1\<lparr>th_cells := (th_cells ?h1)(b \<mapsto>
     \<lparr>td_next = chain_start (Suc b) vs, td_count = 1, td_tid = fst v, td_size = length (snd v), td_data = snd v\<rparr>)\<rparr>"
    using Cons.prems(4) by (cases h) (simp add: fun_upd_def)
  from prepend_ok [OF IH(1,2) c sz h'] show ?case using keeps_trans [OF IH(3)] by (simp add: chain_start_def)
qed

text \<open>Linking a new node behind the last one.\<close>

lemma chain_snoc:
  "us \<noteq> [] \<Longrightarrow> chain b (us @ [v]) cs = (chain b us cs)
     (b + length us \<mapsto> \<lparr>td_next = None, td_count = 1, td_tid = fst v, td_size = length (snd v), td_data = snd v\<rparr>,
      b + length us - 1 \<mapsto> (the (chain b us cs (b + length us - 1)))\<lparr>td_next := Some (b + length us)\<rparr>)"
proof (induction us arbitrary: b)
  case (Cons u us)
  show ?case
  proof (cases "us = []")
    case False
    then obtain n where n: "length us = Suc n" by (cases us) auto
    show ?thesis using Cons.IH [OF False, of "Suc b"] False n by (auto simp: chain_start_def fun_eq_iff)
  qed (simp add: chain_start_def fun_eq_iff)
qed simp

lemma chain_last: "us \<noteq> [] \<Longrightarrow> \<exists>d. chain b us cs (b + length us - 1) = Some d"
proof (induction us arbitrary: b)
  case (Cons u us)
  then show ?case by (cases "us = []") (use Cons.IH [of "Suc b"] in auto)
qed simp

lemma read_tags_ok:
  "tags_at hash inp p vs \<Longrightarrow> small_tags vs \<Longrightarrow> \<forall>v \<in> set vs. lookup (hash (fst v)) = Some (fst v) \<Longrightarrow>
   h = h0\<lparr>th_cells := chain (th_brk h0) us (th_cells h0), th_brk := th_brk h0 + length us\<rparr> \<Longrightarrow>
   m = chain_start (th_brk h0) us \<Longrightarrow> prevTag = (if us = [] then None else Some (th_brk h0 + length us - 1)) \<Longrightarrow>
   chk = tags_length vs \<Longrightarrow>
   read_tags lookup inp (length vs) prevTag p chk h m = Some (0,
     h0\<lparr>th_cells := chain (th_brk h0) (us @ vs) (th_cells h0), th_brk := th_brk h0 + length (us @ vs)\<rparr>,
     chain_start (th_brk h0) (us @ vs))"
proof (induction vs arbitrary: p us h m prevTag chk)
  case (Cons v vs)
  let ?b = "th_brk h0" and ?bs = "snd v"
  let ?c = "?b + length us"
  let ?n = "\<lambda>data. \<lparr>td_next = None, td_count = Suc 0, td_tid = fst v, td_size = length ?bs, td_data = data\<rparr>"
  note small = small_tags_Cons [OF Cons.prems(2)]
  have r: "length ?bs \<le> round4 (length ?bs)" "4 * (round4 (length ?bs) div 4) = round4 (length ?bs)"
    using round4_bounds [OF small(2)] by simp_all
  have at: "get32 p inp = Some (length ?bs)" "get_at (p + 4) 4 inp = Some (to_lsb 4 (hash (fst v)))"
    "get_at (p + 8) (length ?bs) inp = Some ?bs" "tags_at hash inp (p + 8 + round4 (length ?bs)) vs"
    using Cons.prems(1) by simp_all
  have chk: "chk = 8 + round4 (length ?bs) + tags_length vs" using Cons.prems(7) by simp
  have subs: "sub32 chk 4 = chk - 4" "sub32 (chk - 4) 4 = chk - 8" "sub32 (chk - 8) (round4 (length ?bs)) = tags_length vs"
    "4 \<le> chk" "4 \<le> chk - 4" "length ?bs \<le> chk - 8"
    using chk small(3) r(1) by simp_all
  have lk: "lookup (hash (fst v)) = Some (fst v)" using Cons.prems(3) by simp
  have sz: "length ?bs < 2 ^ 32 - 1" using small(2) by simp
  have brk: "th_brk h = ?c" using Cons.prems(4) by simp
  let ?h1 = "h\<lparr>th_cells := (th_cells h)(?c \<mapsto> ?n (map (th_garbage h ?c) [0..<length ?bs])), th_brk := Suc ?c\<rparr>"
  have new: "new_node (length ?bs) (fst v) None h = Some (?c, ?h1)" using new_node_Some [OF sz] brk by simp
  let ?h2 = "h\<lparr>th_cells := (th_cells h)(?c \<mapsto> ?n ?bs), th_brk := Suc ?c\<rparr>"
  have data: "upd_cell ?c (\<lambda>d. d\<lparr>td_data := ?bs\<rparr>) ?h1 = Some ?h2" by (simp add: upd_cell_def)
  let ?h3 = "h0\<lparr>th_cells := chain ?b (us @ [v]) (th_cells h0), th_brk := ?b + length (us @ [v])\<rparr>"
  have link: "(case prevTag of None \<Rightarrow> Some (?h2, Some ?c)
      | Some b \<Rightarrow> Option.bind (upd_cell b (\<lambda>d. d\<lparr>td_next := Some ?c\<rparr>) ?h2) (\<lambda>h. Some (h, m)))
      = Some (?h3, chain_start ?b (us @ [v]))"
  proof (cases "us = []")
    case True
    then show ?thesis using Cons.prems(4-6) by (simp add: chain_start_def)
  next
    case False
    obtain d where d: "chain ?b us (th_cells h0) (?c - 1) = Some d" using chain_last [OF False] by blast
    have ne: "?c - 1 \<noteq> ?c" using False by (cases us) simp_all
    have cell: "th_cells ?h2 (?c - 1) = Some d" using d ne Cons.prems(4) by simp
    have "upd_cell (?c - 1) (\<lambda>d. d\<lparr>td_next := Some ?c\<rparr>) ?h2 = Some ?h3"
      unfolding upd_cell_Some [OF cell] chain_snoc [OF False] using d Cons.prems(4) by simp
    then show ?thesis using False Cons.prems(5,6) by (simp add: chain_start_def)
  qed
  have "read_tags lookup inp (length vs) (Some ?c) (p + 8 + round4 (length ?bs)) (tags_length vs) ?h3 (chain_start ?b (us @ [v]))
      = Some (0, h0\<lparr>th_cells := chain ?b ((us @ [v]) @ vs) (th_cells h0), th_brk := ?b + length ((us @ [v]) @ vs)\<rparr>,
          chain_start ?b ((us @ [v]) @ vs))"
    by (rule Cons.IH [OF at(4) small(1) _ refl refl _ refl]) (use Cons.prems(3) in simp_all)
  moreover have "read_tags lookup inp (length (v # vs)) prevTag p chk h m = Option.bind (case prevTag of None \<Rightarrow> Some (?h2, Some ?c)
      | Some b \<Rightarrow> Option.bind (upd_cell b (\<lambda>d. d\<lparr>td_next := Some ?c\<rparr>) ?h2) (\<lambda>h. Some (h, m)))
      (\<lambda>(h, m). read_tags lookup inp (length vs) (Some ?c) (p + 8 + round4 (length ?bs)) (tags_length vs) h m)"
    using at(1-3) subs lk new data r(2) by (simp add: Let_def not_less)
  ultimately show ?case unfolding link by simp
qed simp

section \<open>Round trip\<close>

lemma tags_length_bound: "length vs \<le> tags_length vs"
  by (induction vs) auto

text \<open>C32: A list of tags that is serialised is read back as a new list with the same tags, when the type
  system finds the types of the tags by their hashes; all other lists keep their tags, and the
  reference counts are right.\<close>

theorem tag_list_roundtrip:
  assumes ok: "tags_ok h (add_mset m R)" and vs: "has_tags h m vs" "small_tags vs"
    and types: "\<forall>v \<in> set vs. lookup (hash (fst v)) = Some (fst v)"
    and out: "ptl_GetSerializedSize h m = Some (length out)"
  shows "\<exists>out' h' m'. ptl_Serialize hash out (length out) h m = Some (1, out')
    \<and> ptl_Deserialize lookup out' (length out' + 4) h None = Some (1, h', m')
    \<and> tags_ok h' (add_mset m' (add_mset m R)) \<and> has_tags h' m' vs \<and> keeps h h' (add_mset m R)"
proof -
  from vs(1) obtain xs where xs: "path (nexts (th_cells h)) m xs None" "tags_of h xs = vs" by (auto simp: has_tags_def)
  have sizes: "\<forall>a d. th_cells h a = Some d \<longrightarrow> td_size d = length (td_data d)" using tags_okD(2) [OF ok] by blast
  have small: "tags_length vs \<le> size_limit" using vs(2) by (simp add: small_tags_def)
  have lx: "length xs = length vs" using xs(2) by (auto simp: tags_of_def)
  have len: "length out = 4 + tags_length vs"
    using tags_size_ok [OF xs(1) sizes, of 4] vs(2) xs(2) small out by (simp add: ptl_GetSerializedSize_def)
  let ?o1 = "put_bytes 0 (to_lsb 4 (0 :: u32)) out"
  have o1: "put_at 0 (to_lsb 4 (0 :: u32)) out = Some ?o1" "length ?o1 = length out" "get32 0 ?o1 = Some 0"
    using len get32_put [of 0 out 0] by (simp_all add: put_at_ok)
  have cnt: "0 + length xs \<le> size_limit" using lx tags_length_bound [of vs] small by simp
  obtain out' where w: "write_tags hash (length out) h m 4 4 ?o1 = Some (1, out')" "length out' = length out"
    "tags_at hash out' 4 vs" "get32 0 out' = Some (length vs)"
    using write_tags_ok [OF xs(1) sizes, of ?o1 4 "length out" 0 hash] vs(2) xs(2) len o1 cnt lx small by auto
  have s: "ptl_Serialize hash out (length out) h m = Some (1, out')" using w(1) o1(1) len by (simp add: ptl_Serialize_def)
  let ?h = "h\<lparr>th_cells := chain (th_brk h) vs (th_cells h), th_brk := th_brk h + length vs\<rparr>"
  have r: "read_tags lookup out' (length vs) None 4 (tags_length vs) h None = Some (0, ?h, chain_start (th_brk h) vs)"
    using read_tags_ok [OF w(3) vs(2) types, of h h "[]" None None] by (simp add: chain_start_def)
  have "sub32 (length out' + 4) 4 = 4 + tags_length vs" "sub32 (4 + tags_length vs) 4 = tags_length vs"
    using w(2) len small by simp_all
  then have "ptl_Deserialize lookup out' (length out' + 4) h None = Some (1, ?h, chain_start (th_brk h) vs)"
    using w(4) r by (simp add: ptl_Deserialize_def Let_def)
  moreover have "tags_ok h (add_mset None (add_mset m R))" using ok by (simp add: tags_ok_None)
  from chain_ok [OF this vs(2) order_refl refl refl]
  have "tags_ok ?h (add_mset (chain_start (th_brk h) vs) (add_mset m R)) \<and> has_tags ?h (chain_start (th_brk h) vs) vs
    \<and> keeps h ?h (add_mset m R)" .
  ultimately show ?thesis using s by blast
qed

definition sample_tags :: tag_heap where
  "sample_tags = th_empty\<lparr>th_cells := chain 1 [(3, [1, 2, 3])] Map.empty, th_brk := 2\<rparr>"

lemma sample_tags_ok: "tags_ok sample_tags {#Some 1#}" "has_tags sample_tags (Some 1) [(3, [1, 2, 3])]"
  "small_tags [(3 :: nat, [1, 2, 3 :: u8])]" "ptl_GetSerializedSize sample_tags (Some 1) = Some 16"
proof -
  show small: "small_tags [(3 :: nat, [1, 2, 3 :: u8])]" by (simp add: small_tags_def round4_def)
  have empty: "tags_ok th_empty {#None#}"
    by (simp add: tags_ok_def shape_ok_def th_empty_def)
  have brk: "th_brk th_empty \<le> 1" "2 = 1 + length [(3 :: nat, [1, 2, 3 :: u8])]" "th_cells th_empty = Map.empty"
    by (simp_all add: th_empty_def)
  show "tags_ok sample_tags {#Some 1#}" "has_tags sample_tags (Some 1) [(3, [1, 2, 3])]"
    using chain_ok [OF empty small brk(1,2) refl] by (simp_all add: sample_tags_def brk(3) chain_start_def)
  show "ptl_GetSerializedSize sample_tags (Some 1) = Some 16"
    by (simp add: ptl_GetSerializedSize_def tags_size.simps [of _ "Some _"] tags_size.simps [of _ None]
        sample_tags_def chain_start_def round4_def)
qed

theorem tag_list_roundtrip_witness:
  "\<exists>out h' m'. ptl_Serialize word_of_nat (replicate 16 0) 16 sample_tags (Some 1) = Some (1, out)
    \<and> ptl_Deserialize (\<lambda>w. Some (unat w)) out (length out + 4) sample_tags None = Some (1, h', m')
    \<and> has_tags h' m' [(3, [1, 2, 3])]"
proof -
  have size: "ptl_GetSerializedSize sample_tags (Some 1) = Some (length (replicate 16 (0 :: u8)))"
    using sample_tags_ok(4) by simp
  have types: "\<forall>v \<in> set [(3 :: nat, [1, 2, 3 :: u8])]. Some (unat (word_of_nat (fst v) :: u32)) = Some (fst v)" by simp
  from tag_list_roundtrip [where lookup = "\<lambda>w. Some (unat w)", OF sample_tags_ok(1-3) types size] show ?thesis
    unfolding length_replicate by metis
qed

end
