(* ===== verification/PacketBytes.thy ===== *)
theory PacketBytes
  imports BufferSerialize
begin

text \<open>
  Packets, as far as their bytes go (\<open>network/model/packet.cc\<close>): every packet is an object with a
  \<open>Buffer\<close>, and copies and fragments of a packet share its data. A program is a sequence of calls on
  packets; \<open>bspec_step\<close> is what the calls mean when every packet simply is a list of bytes. The
  relation is not a function because the bytes that \<open>AddPaddingAtEnd\<close> adds are not specified:
  \<open>packet.h\<close> says that they are zero, but the code leaves there what the memory holds, so through them
  a program can observe recycled memory.

  Appending a packet to another works on bytes only when the two do not share their data and the
  appended one does not start with its zero area. These conditions are not about bytes; a program that
  appends has to meet them in the states it reaches (\<open>appends_ok\<close>), and theory \<open>BufferDefects\<close> shows
  what the code does otherwise.

  Headers and trailers are classes with virtual functions; the laws a program's classes must obey are
  the locale \<open>packet_classes\<close>. What \<open>Deserialize\<close> keeps of the object it is called on is its argument.
\<close>

section \<open>Headers and trailers\<close>

record 'a header_class =
  hd_GetSerializedSize :: "'a \<Rightarrow> nat"
  hd_Serialize :: "'a \<Rightarrow> buf_iter \<Rightarrow> buf_heap \<Rightarrow> buf_heap option"
  hd_Deserialize :: "'a \<Rightarrow> buf_iter \<Rightarrow> buf_heap \<Rightarrow> ('a \<times> nat) option"

text \<open>A trailer is a record of the same functions, called with an iterator at the end.\<close>

section \<open>Packets and the calls on them\<close>

record packet_world =
  pw_heap :: buf_heap
  pw_bufs :: "nat \<rightharpoonup> byte_buffer"

definition packet_world_new :: "(addr \<Rightarrow> nat \<Rightarrow> u8) \<Rightarrow> packet_world" where
  "packet_world_new g = \<lparr>pw_heap = bh_empty g, pw_bufs = Map.empty\<rparr>"

definition set_buf :: "nat \<Rightarrow> byte_buffer \<times> buf_heap \<Rightarrow> packet_world \<Rightarrow> packet_world" where
  "set_buf p r w = w\<lparr>pw_heap := snd r, pw_bufs := (pw_bufs w)(p \<mapsto> fst r)\<rparr>"

text \<open>\<open>Packet()\<close> and \<open>Packet(uint32_t)\<close>; then \<open>Packet(const uint8_t*, uint32_t)\<close>.\<close>

definition pk_new :: "nat \<Rightarrow> nat \<Rightarrow> packet_world \<Rightarrow> packet_world option" where
  "pk_new p sz w = (if pw_bufs w p = None then map_option (\<lambda>r. set_buf p r w) (buf_Initialize sz (pw_heap w)) else None)"

definition pk_new_bytes :: "nat \<Rightarrow> u8 list \<Rightarrow> packet_world \<Rightarrow> packet_world option" where
  "pk_new_bytes p bs w = (if pw_bufs w p = None then do {
     (b, h) \<leftarrow> buf_Initialize 0 (pw_heap w);
     (b, h) \<leftarrow> buf_AddAtStart (length bs) b h;
     (_, h) \<leftarrow> it_Write bs (buf_Begin b) h;
     Some (set_buf p (b, h) w) } else None)"

definition pk_copy :: "nat \<Rightarrow> nat \<Rightarrow> packet_world \<Rightarrow> packet_world option" where
  "pk_copy q p w = (if pw_bufs w q = None then do {
     b \<leftarrow> pw_bufs w p;
     r \<leftarrow> buf_copy b (pw_heap w);
     Some (set_buf q r w) } else None)"

definition pk_assign :: "nat \<Rightarrow> nat \<Rightarrow> packet_world \<Rightarrow> packet_world option" where
  "pk_assign q p w = do {
     c \<leftarrow> pw_bufs w q; b \<leftarrow> pw_bufs w p;
     if q = p then Some w else do { r \<leftarrow> buf_assign c b (pw_heap w); Some (set_buf q r w) } }"

definition pk_delete :: "nat \<Rightarrow> packet_world \<Rightarrow> packet_world option" where
  "pk_delete p w = do {
     b \<leftarrow> pw_bufs w p;
     h \<leftarrow> buf_destroy b (pw_heap w);
     Some (w\<lparr>pw_heap := h, pw_bufs := (pw_bufs w)(p := None)\<rparr>) }"

text \<open>The fragment is a local buffer that the new packet copies.\<close>

definition pk_CreateFragment :: "nat \<Rightarrow> nat \<Rightarrow> nat \<Rightarrow> nat \<Rightarrow> packet_world \<Rightarrow> packet_world option" where
  "pk_CreateFragment q p start n w = (if pw_bufs w q = None then do {
     b \<leftarrow> pw_bufs w p;
     (f, h) \<leftarrow> buf_CreateFragment start n b (pw_heap w);
     if buf_GetSize b < add32 start n then None else do {
     (c, h) \<leftarrow> buf_copy f h;
     h \<leftarrow> buf_destroy f h;
     Some (set_buf q (c, h) w) } } else None)"

definition pk_AddHeader :: "nat \<Rightarrow> 'a header_class \<Rightarrow> 'a \<Rightarrow> packet_world \<Rightarrow> packet_world option" where
  "pk_AddHeader p c v w = do {
     b \<leftarrow> pw_bufs w p;
     (b, h) \<leftarrow> buf_AddAtStart (hd_GetSerializedSize c v) b (pw_heap w);
     h \<leftarrow> hd_Serialize c v (buf_Begin b) h;
     Some (set_buf p (b, h) w) }"

definition pk_PeekHeader :: "nat \<Rightarrow> 'a header_class \<Rightarrow> 'a \<Rightarrow> packet_world \<Rightarrow> ('a \<times> nat) option" where
  "pk_PeekHeader p c v w = do { b \<leftarrow> pw_bufs w p; hd_Deserialize c v (buf_Begin b) (pw_heap w) }"

definition pk_RemoveHeader :: "nat \<Rightarrow> 'a header_class \<Rightarrow> 'a \<Rightarrow> packet_world \<Rightarrow> ('a \<times> nat \<times> packet_world) option" where
  "pk_RemoveHeader p c v w = do {
     b \<leftarrow> pw_bufs w p;
     (v, deserialized) \<leftarrow> hd_Deserialize c v (buf_Begin b) (pw_heap w);
     b \<leftarrow> buf_RemoveAtStart deserialized b;
     Some (v, deserialized, set_buf p (b, pw_heap w) w) }"

definition pk_AddTrailer :: "nat \<Rightarrow> 'a header_class \<Rightarrow> 'a \<Rightarrow> packet_world \<Rightarrow> packet_world option" where
  "pk_AddTrailer p c v w = do {
     b \<leftarrow> pw_bufs w p;
     (b, h) \<leftarrow> buf_AddAtEnd (hd_GetSerializedSize c v) b (pw_heap w);
     h \<leftarrow> hd_Serialize c v (buf_End b) h;
     Some (set_buf p (b, h) w) }"

definition pk_PeekTrailer :: "nat \<Rightarrow> 'a header_class \<Rightarrow> 'a \<Rightarrow> packet_world \<Rightarrow> ('a \<times> nat) option" where
  "pk_PeekTrailer p c v w = do { b \<leftarrow> pw_bufs w p; hd_Deserialize c v (buf_End b) (pw_heap w) }"

definition pk_RemoveTrailer :: "nat \<Rightarrow> 'a header_class \<Rightarrow> 'a \<Rightarrow> packet_world \<Rightarrow> ('a \<times> nat \<times> packet_world) option" where
  "pk_RemoveTrailer p c v w = do {
     b \<leftarrow> pw_bufs w p;
     (v, deserialized) \<leftarrow> hd_Deserialize c v (buf_End b) (pw_heap w);
     Some (v, deserialized, set_buf p (buf_RemoveAtEnd deserialized b, pw_heap w) w) }"

definition pk_AddPaddingAtEnd :: "nat \<Rightarrow> nat \<Rightarrow> packet_world \<Rightarrow> packet_world option" where
  "pk_AddPaddingAtEnd p n w = do {
     b \<leftarrow> pw_bufs w p;
     r \<leftarrow> buf_AddAtEnd n b (pw_heap w);
     Some (set_buf p r w) }"

definition pk_RemoveAtEnd :: "nat \<Rightarrow> nat \<Rightarrow> packet_world \<Rightarrow> packet_world option" where
  "pk_RemoveAtEnd p n w = do {
     b \<leftarrow> pw_bufs w p;
     Some (set_buf p (buf_RemoveAtEnd n b, pw_heap w) w) }"

definition pk_RemoveAtStart :: "nat \<Rightarrow> nat \<Rightarrow> packet_world \<Rightarrow> packet_world option" where
  "pk_RemoveAtStart p n w = do {
     b \<leftarrow> pw_bufs w p;
     b \<leftarrow> buf_RemoveAtStart n b;
     Some (set_buf p (b, pw_heap w) w) }"

definition pk_AddAtEnd :: "nat \<Rightarrow> nat \<Rightarrow> packet_world \<Rightarrow> packet_world option" where
  \<comment> \<open>appending a packet to itself fails the assertion of \<open>Write(Iterator, Iterator)\<close>\<close>
  "pk_AddAtEnd q p w = do {
     c \<leftarrow> pw_bufs w q; b \<leftarrow> pw_bufs w p;
     if q = p then None else do { r \<leftarrow> buf_AddAtEndBuffer b c (pw_heap w); Some (set_buf q r w) } }"

definition pk_GetSize :: "nat \<Rightarrow> packet_world \<Rightarrow> nat option" where
  "pk_GetSize p w = map_option buf_GetSize (pw_bufs w p)"

definition pk_CopyData :: "nat \<Rightarrow> nat \<Rightarrow> packet_world \<Rightarrow> (nat \<times> u8 list) option" where
  "pk_CopyData p n w = do { b \<leftarrow> pw_bufs w p; buf_CopyData n b (pw_heap w) }"

section \<open>Programs\<close>

datatype 'a byte_op =
    New nat nat
  | NewBytes nat "u8 list"
  | CopyPacket nat nat
  | AssignPacket nat nat
  | Delete nat
  | Fragment nat nat nat nat
  | AddHeader nat "'a header_class" 'a
  | PeekHeader nat "'a header_class" 'a
  | RemoveHeader nat "'a header_class" 'a
  | AddTrailer nat "'a header_class" 'a
  | PeekTrailer nat "'a header_class" 'a
  | RemoveTrailer nat "'a header_class" 'a
  | AddPadding nat nat
  | RemoveEnd nat nat
  | RemoveStart nat nat
  | CopyData nat nat
  | GetSize nat
  | AppendPacket nat nat

datatype 'a byte_result = Done | Value 'a nat | Bytes nat "u8 list" | Size nat

fun byte_step :: "'a byte_op \<Rightarrow> packet_world \<Rightarrow> ('a byte_result \<times> packet_world) option" where
  "byte_step (New p n) w = map_option (Pair Done) (pk_new p n w)"
| "byte_step (NewBytes p bs) w = map_option (Pair Done) (pk_new_bytes p bs w)"
| "byte_step (CopyPacket q p) w = map_option (Pair Done) (pk_copy q p w)"
| "byte_step (AssignPacket q p) w = map_option (Pair Done) (pk_assign q p w)"
| "byte_step (Delete p) w = map_option (Pair Done) (pk_delete p w)"
| "byte_step (Fragment q p s n) w = map_option (Pair Done) (pk_CreateFragment q p s n w)"
| "byte_step (AddHeader p c v) w = map_option (Pair Done) (pk_AddHeader p c v w)"
| "byte_step (PeekHeader p c v) w = map_option (\<lambda>(v, n). (Value v n, w)) (pk_PeekHeader p c v w)"
| "byte_step (RemoveHeader p c v) w = map_option (\<lambda>(v, n, w). (Value v n, w)) (pk_RemoveHeader p c v w)"
| "byte_step (AddTrailer p c v) w = map_option (Pair Done) (pk_AddTrailer p c v w)"
| "byte_step (PeekTrailer p c v) w = map_option (\<lambda>(v, n). (Value v n, w)) (pk_PeekTrailer p c v w)"
| "byte_step (RemoveTrailer p c v) w = map_option (\<lambda>(v, n, w). (Value v n, w)) (pk_RemoveTrailer p c v w)"
| "byte_step (AddPadding p n) w = map_option (Pair Done) (pk_AddPaddingAtEnd p n w)"
| "byte_step (RemoveEnd p n) w = map_option (Pair Done) (pk_RemoveAtEnd p n w)"
| "byte_step (RemoveStart p n) w = map_option (Pair Done) (pk_RemoveAtStart p n w)"
| "byte_step (CopyData p n) w = map_option (\<lambda>(n, bs). (Bytes n bs, w)) (pk_CopyData p n w)"
| "byte_step (GetSize p) w = map_option (\<lambda>n. (Size n, w)) (pk_GetSize p w)"
| "byte_step (AppendPacket q p) w = map_option (Pair Done) (pk_AddAtEnd q p w)"

primrec byte_run :: "'a byte_op list \<Rightarrow> packet_world \<Rightarrow> ('a byte_result list \<times> packet_world) option" where
  "byte_run [] w = Some ([], w)"
| "byte_run (op # ops) w = do { (r, w) \<leftarrow> byte_step op w; (rs, w) \<leftarrow> byte_run ops w; Some (r # rs, w) }"

section \<open>What the calls mean\<close>

type_synonym packets_spec = "nat \<rightharpoonup> u8 list"

text \<open>What a program uses of its header and trailer classes: the bytes of a value, the values it may be
  used with, and what reading the bytes of \<open>v\<close> makes of the object \<open>v0\<close> it is read into.\<close>

record 'a header_spec =
  hs_headers :: "'a header_class set"
  hs_trailers :: "'a header_class set"
  hs_valid :: "'a header_class \<Rightarrow> 'a \<Rightarrow> bool"
  hs_enc :: "'a header_class \<Rightarrow> 'a \<Rightarrow> u8 list"
  hs_read :: "'a header_class \<Rightarrow> 'a \<Rightarrow> 'a \<Rightarrow> 'a"

inductive bspec_step :: "'a header_spec \<Rightarrow> 'a byte_op \<Rightarrow> packets_spec \<Rightarrow> 'a byte_result \<Rightarrow> packets_spec \<Rightarrow> bool"
  for S where
  "A p = None \<Longrightarrow> bspec_step S (New p n) A Done (A(p \<mapsto> replicate n 0))"
| "A p = None \<Longrightarrow> bspec_step S (NewBytes p bs) A Done (A(p \<mapsto> bs))"
| "A q = None \<Longrightarrow> A p = Some xs \<Longrightarrow> bspec_step S (CopyPacket q p) A Done (A(q \<mapsto> xs))"
| "A q \<noteq> None \<Longrightarrow> A p = Some xs \<Longrightarrow> bspec_step S (AssignPacket q p) A Done (A(q \<mapsto> xs))"
| "A p = Some xs \<Longrightarrow> bspec_step S (Delete p) A Done (A(p := None))"
| "A q = None \<Longrightarrow> A p = Some xs \<Longrightarrow> s + n \<le> length xs \<Longrightarrow> bspec_step S (Fragment q p s n) A Done (A(q \<mapsto> take n (drop s xs)))"
| "A p = Some xs \<Longrightarrow> bspec_step S (AddHeader p c v) A Done (A(p \<mapsto> hs_enc S c v @ xs))"
| "A p = Some (hs_enc S c v @ xs) \<Longrightarrow> hs_valid S c v \<Longrightarrow>
     bspec_step S (PeekHeader p c v0) A (Value (hs_read S c v0 v) (length (hs_enc S c v))) A"
| "A p = Some (hs_enc S c v @ xs) \<Longrightarrow> hs_valid S c v \<Longrightarrow>
     bspec_step S (RemoveHeader p c v0) A (Value (hs_read S c v0 v) (length (hs_enc S c v))) (A(p \<mapsto> xs))"
| "A p = Some xs \<Longrightarrow> bspec_step S (AddTrailer p c v) A Done (A(p \<mapsto> xs @ hs_enc S c v))"
| "A p = Some (xs @ hs_enc S c v) \<Longrightarrow> hs_valid S c v \<Longrightarrow>
     bspec_step S (PeekTrailer p c v0) A (Value (hs_read S c v0 v) (length (hs_enc S c v))) A"
| "A p = Some (xs @ hs_enc S c v) \<Longrightarrow> hs_valid S c v \<Longrightarrow>
     bspec_step S (RemoveTrailer p c v0) A (Value (hs_read S c v0 v) (length (hs_enc S c v))) (A(p \<mapsto> xs))"
| "A p = Some xs \<Longrightarrow> length junk = n \<Longrightarrow> bspec_step S (AddPadding p n) A Done (A(p \<mapsto> xs @ junk))"
| "A p = Some xs \<Longrightarrow> bspec_step S (RemoveEnd p n) A Done (A(p \<mapsto> take (length xs - n) xs))"
| "A p = Some xs \<Longrightarrow> bspec_step S (RemoveStart p n) A Done (A(p \<mapsto> drop n xs))"
| "A p = Some xs \<Longrightarrow> bspec_step S (CopyData p n) A (Bytes (min n (length xs)) (take n xs)) A"
| "A p = Some xs \<Longrightarrow> bspec_step S (GetSize p) A (Size (length xs)) A"
| "A q = Some xs \<Longrightarrow> A p = Some ys \<Longrightarrow> bspec_step S (AppendPacket q p) A Done (A(q \<mapsto> xs @ ys))"

inductive bspec_run :: "'a header_spec \<Rightarrow> 'a byte_op list \<Rightarrow> packets_spec \<Rightarrow> 'a byte_result list \<Rightarrow> packets_spec \<Rightarrow> bool"
  for S where
  "bspec_run S [] A [] A"
| "bspec_step S op A r A1 \<Longrightarrow> bspec_run S ops A1 rs A2 \<Longrightarrow> bspec_run S (op # ops) A (r # rs) A2"

text \<open>The calls a program may make: on packets that exist, under new names, with classes it declares,
  and as long as no packet has more than \<open>size_limit\<close> bytes. Removing a header or a trailer requires
  that the packet has one.\<close>

fun allowed :: "'a header_spec \<Rightarrow> 'a byte_op \<Rightarrow> packets_spec \<Rightarrow> bool" where
  "allowed S (New p n) A \<longleftrightarrow> A p = None \<and> n \<le> size_limit"
| "allowed S (NewBytes p bs) A \<longleftrightarrow> A p = None \<and> length bs \<le> size_limit"
| "allowed S (CopyPacket q p) A \<longleftrightarrow> A q = None \<and> A p \<noteq> None"
| "allowed S (AssignPacket q p) A \<longleftrightarrow> A q \<noteq> None \<and> A p \<noteq> None"
| "allowed S (Delete p) A \<longleftrightarrow> A p \<noteq> None"
| "allowed S (Fragment q p s n) A \<longleftrightarrow> A q = None \<and> (\<exists>xs. A p = Some xs \<and> s + n \<le> length xs)"
| "allowed S (AddHeader p c v) A \<longleftrightarrow> c \<in> hs_headers S \<and> hs_valid S c v
     \<and> (\<exists>xs. A p = Some xs \<and> length xs + length (hs_enc S c v) \<le> size_limit)"
| "allowed S (PeekHeader p c v0) A \<longleftrightarrow> c \<in> hs_headers S \<and> hs_valid S c v0 \<and> (\<exists>v xs. A p = Some (hs_enc S c v @ xs) \<and> hs_valid S c v)"
| "allowed S (RemoveHeader p c v0) A \<longleftrightarrow> c \<in> hs_headers S \<and> hs_valid S c v0 \<and> (\<exists>v xs. A p = Some (hs_enc S c v @ xs) \<and> hs_valid S c v)"
| "allowed S (AddTrailer p c v) A \<longleftrightarrow> c \<in> hs_trailers S \<and> hs_valid S c v
     \<and> (\<exists>xs. A p = Some xs \<and> length xs + length (hs_enc S c v) \<le> size_limit)"
| "allowed S (PeekTrailer p c v0) A \<longleftrightarrow> c \<in> hs_trailers S \<and> hs_valid S c v0 \<and> (\<exists>v xs. A p = Some (xs @ hs_enc S c v) \<and> hs_valid S c v)"
| "allowed S (RemoveTrailer p c v0) A \<longleftrightarrow> c \<in> hs_trailers S \<and> hs_valid S c v0 \<and> (\<exists>v xs. A p = Some (xs @ hs_enc S c v) \<and> hs_valid S c v)"
| "allowed S (AddPadding p n) A \<longleftrightarrow> (\<exists>xs. A p = Some xs \<and> length xs + n \<le> size_limit)"
| "allowed S (RemoveEnd p n) A \<longleftrightarrow> A p \<noteq> None"
| "allowed S (RemoveStart p n) A \<longleftrightarrow> A p \<noteq> None \<and> n \<le> 2 ^ 31"
| "allowed S (CopyData p n) A \<longleftrightarrow> A p \<noteq> None \<and> n < 2 ^ 32"
| "allowed S (GetSize p) A \<longleftrightarrow> A p \<noteq> None"
| "allowed S (AppendPacket q p) A \<longleftrightarrow> q \<noteq> p
     \<and> (\<exists>xs ys. A q = Some xs \<and> A p = Some ys \<and> length xs + length ys \<le> size_limit)"

primrec safe :: "'a header_spec \<Rightarrow> 'a byte_op list \<Rightarrow> packets_spec \<Rightarrow> bool" where
  "safe S [] A \<longleftrightarrow> True"
| "safe S (op # ops) A \<longleftrightarrow> allowed S op A \<and> (\<forall>r A'. bspec_step S op A r A' \<longrightarrow> safe S ops A')"

text \<open>What a program that appends packets must see to in the states it reaches, beside what is a matter of
  bytes: the packet appended has data of its own, and does not start with its zero area unless it has
  no bytes behind it.\<close>

fun append_ok :: "'a byte_op \<Rightarrow> packet_world \<Rightarrow> bool" where
  "append_ok (AppendPacket q p) w =
     (case (pw_bufs w q, pw_bufs w p) of
        (Some c, Some b) \<Rightarrow> bb_data c \<noteq> bb_data b \<and> \<not> zero_first b
      | _ \<Rightarrow> True)"
| "append_ok _ w = True"

primrec appends_ok :: "'a byte_op list \<Rightarrow> packet_world \<Rightarrow> bool" where
  "appends_ok [] w = True"
| "appends_ok (op # ops) w =
     (append_ok op w \<and> (case byte_step op w of None \<Rightarrow> True | Some (_, w') \<Rightarrow> appends_ok ops w'))"

fun appends :: "'a byte_op \<Rightarrow> bool" where
  "appends (AppendPacket _ _) = True"
| "appends _ = False"

lemma no_append_ok: "\<not> appends op \<Longrightarrow> append_ok op w"
  by (cases op) simp_all

lemma no_appends_ok: "\<forall>op \<in> set ops. \<not> appends op \<Longrightarrow> appends_ok ops w"
  by (induction ops arbitrary: w) (auto simp: no_append_ok split: option.split)

section \<open>The invariant\<close>

definition live :: "packet_world \<Rightarrow> byte_buffer multiset" where
  "live w = image_mset (\<lambda>p. the (pw_bufs w p)) (mset_set (dom (pw_bufs w)))"

definition others :: "nat \<Rightarrow> packet_world \<Rightarrow> byte_buffer multiset" where
  "others p w = image_mset (\<lambda>p. the (pw_bufs w p)) (mset_set (dom (pw_bufs w) - {p}))"

definition bytes_inv :: "packet_world \<Rightarrow> packets_spec \<Rightarrow> bool" where
  "bytes_inv w A \<longleftrightarrow> finite (dom (pw_bufs w)) \<and> bufs_ok (pw_heap w) (live w)
     \<and> A = (\<lambda>p. map_option (contents (pw_heap w)) (pw_bufs w p))"

lemma live_split:
  "finite (dom (pw_bufs w)) \<Longrightarrow> pw_bufs w p = Some b \<Longrightarrow> live w = add_mset b (others p w)"
proof -
  assume a: "finite (dom (pw_bufs w))" "pw_bufs w p = Some b"
  then have "mset_set (dom (pw_bufs w)) = add_mset p (mset_set (dom (pw_bufs w) - {p}))"
    by (intro mset_set.remove) auto
  then show ?thesis using a(2) by (simp add: live_def others_def)
qed

lemma in_others: "finite (dom (pw_bufs w)) \<Longrightarrow> q \<noteq> p \<Longrightarrow> pw_bufs w q = Some c \<Longrightarrow> c \<in># others p w"
  by (force simp: others_def)

lemma others_None: "pw_bufs w p = None \<Longrightarrow> others p w = live w"
  by (simp add: others_def live_def domIff Diff_insert_absorb)

lemma set_buf_live:
  assumes "finite (dom (pw_bufs w))"
  shows "live (set_buf p (b, h) w) = add_mset b (others p w)" "finite (dom (pw_bufs (set_buf p (b, h) w)))"
proof -
  show fin: "finite (dom (pw_bufs (set_buf p (b, h) w)))" using assms by (simp add: set_buf_def)
  have "others p (set_buf p (b, h) w) = others p w"
    unfolding others_def by (simp add: set_buf_def) (rule image_mset_cong, use assms in auto)
  then show "live (set_buf p (b, h) w) = add_mset b (others p w)"
    using live_split [OF fin, of p b] by (simp add: set_buf_def)
qed

lemma bytes_inv_set:
  assumes inv: "bytes_inv w A" and ok: "bufs_ok h (add_mset b (others p w))"
    and same: "\<And>c. c \<in># others p w \<Longrightarrow> contents h c = contents (pw_heap w) c" and xs: "contents h b = xs"
  shows "bytes_inv (set_buf p (b, h) w) (A(p \<mapsto> xs))"
proof -
  have fin: "finite (dom (pw_bufs w))" using inv by (simp add: bytes_inv_def)
  have "(A(p \<mapsto> xs)) q = map_option (contents h) (pw_bufs (set_buf p (b, h) w) q)" for q
  proof (cases "q = p")
    case False
    then show ?thesis using inv same in_others [OF fin False]
      by (cases "pw_bufs w q") (simp_all add: bytes_inv_def set_buf_def)
  qed (simp add: set_buf_def xs)
  then show ?thesis using set_buf_live [OF fin] ok by (simp add: bytes_inv_def set_buf_def fun_eq_iff)
qed

lemma bytes_invD:
  assumes "bytes_inv w A"
  shows "finite (dom (pw_bufs w))" "A p = map_option (contents (pw_heap w)) (pw_bufs w p)"
    "pw_bufs w p = Some b \<Longrightarrow> bufs_ok (pw_heap w) (add_mset b (others p w))"
    "pw_bufs w p = None \<Longrightarrow> bufs_ok (pw_heap w) (others p w)"
  using assms live_split [of w p b] others_None [of w p] by (auto simp: bytes_inv_def)

lemma bytes_inv_live:
  assumes "bytes_inv w A" "A p = Some xs"
  obtains b where "pw_bufs w p = Some b" "contents (pw_heap w) b = xs" "bufs_ok (pw_heap w) (add_mset b (others p w))"
proof -
  obtain b where "pw_bufs w p = Some b" "contents (pw_heap w) b = xs"
    using assms bytes_invD(2) [OF assms(1), of p] by auto
  with bytes_invD(3) [OF assms(1)] that show ?thesis by blast
qed

lemma bytes_inv_dead: "bytes_inv w A \<Longrightarrow> A p = None \<Longrightarrow> pw_bufs w p = None"
  using bytes_invD(2) [of w A p] by simp

lemma bytes_inv_delete:
  assumes inv: "bytes_inv w A" and p: "pw_bufs w p = Some b" and ok: "bufs_ok h (others p w)"
    and same: "\<And>c. c \<in># others p w \<Longrightarrow> contents h c = contents (pw_heap w) c"
  shows "bytes_inv (w\<lparr>pw_heap := h, pw_bufs := (pw_bufs w)(p := None)\<rparr>) (A(p := None))"
proof -
  let ?w = "w\<lparr>pw_heap := h, pw_bufs := (pw_bufs w)(p := None)\<rparr>"
  have fin: "finite (dom (pw_bufs w))" using inv by (simp add: bytes_inv_def)
  have "live ?w = others p w"
    unfolding live_def others_def by simp (rule image_mset_cong, use fin in auto)
  moreover have "(A(p := None)) q = map_option (contents h) (pw_bufs ?w q)" for q
    using inv same in_others [OF fin, of q p] by (cases "pw_bufs w q") (auto simp: bytes_inv_def)
  ultimately show ?thesis using ok fin by (simp add: bytes_inv_def fun_eq_iff)
qed

lemma packet_world_new_inv: "bytes_inv (packet_world_new g) Map.empty"
  using bh_empty_ok [of g] by (simp add: bytes_inv_def packet_world_new_def live_def fun_eq_iff)

lemma bytes_inv_other:
  assumes "bytes_inv w A" "pw_bufs w q = Some b" "q \<noteq> p"
  obtains B where "others p w = add_mset b B"
  using in_others [OF bytes_invD(1) [OF assms(1)] assms(3,2)] by (metis mset_add)

section \<open>Calls without headers\<close>

lemma contents_copy: "contents h (b\<lparr>bb_maxZeroAreaStart := z\<rparr>) = contents h b"
  by (auto simp: contents_def contents_in_def iend_def split: option.splits)

lemma New_step:
  assumes inv: "bytes_inv w A" and al: "allowed S (New p n) A"
  shows "\<exists>w' A'. pk_new p n w = Some w' \<and> bspec_step S (New p n) A Done A' \<and> bytes_inv w' A'"
proof -
  from al have p: "A p = None" "n \<le> size_limit" by simp_all
  note dead = bytes_inv_dead [OF inv p(1)]
  from Initialize_ok [OF bytes_invD(4) [OF inv dead] p(2)] obtain b h where b:
    "buf_Initialize n (pw_heap w) = Some (b, h)" "bufs_ok h (add_mset b (others p w))"
    "\<forall>c \<in># others p w. contents h c = contents (pw_heap w) c" "contents h b = replicate n 0" by blast
  have "bytes_inv (set_buf p (b, h) w) (A(p \<mapsto> replicate n 0))"
    using b by (intro bytes_inv_set [OF inv]) auto
  moreover have "pk_new p n w = Some (set_buf p (b, h) w)" using b(1) dead by (simp add: pk_new_def)
  ultimately show ?thesis using bspec_step.intros(1) [of A p S n] p(1) by blast
qed

lemma NewBytes_step:
  assumes inv: "bytes_inv w A" and al: "allowed S (NewBytes p bs) A"
  shows "\<exists>w' A'. pk_new_bytes p bs w = Some w' \<and> bspec_step S (NewBytes p bs) A Done A' \<and> bytes_inv w' A'"
proof -
  from al have p: "A p = None" "length bs \<le> size_limit" by simp_all
  note dead = bytes_inv_dead [OF inv p(1)]
  have z: "(0::nat) \<le> size_limit" by simp
  from Initialize_ok [OF bytes_invD(4) [OF inv dead] z] obtain b h where b:
    "buf_Initialize 0 (pw_heap w) = Some (b, h)" "bufs_ok h (add_mset b (others p w))"
    "\<forall>c \<in># others p w. contents h c = contents (pw_heap w) c" "contents h b = []" by auto
  have "buf_GetSize b + length bs \<le> size_limit" using bufs_ok_size(1) [OF b(2)] b(4) p(2) by simp
  from AddAtStart_room [OF b(2) this] obtain b1 h1 where b1: "buf_AddAtStart (length bs) b h = Some (b1, h1)"
    "bufs_ok h1 (add_mset b1 (others p w))" "\<forall>c \<in># others p w. contents h1 c = contents h c"
    "writable b1 (others p w) (bb_start b1) (length bs)"
    "\<forall>h2 xs. length xs = length bs \<longrightarrow> wrote h1 h2 b1 (others p w) (bb_start b1) xs \<longrightarrow>
       contents h2 b1 = xs @ contents h b" by blast
  from Write_ok [OF b1(2,4)] obtain h2 where h2:
    "it_Write bs (buf_Begin b1) h1 = Some (it_Construct b1 (bb_start b1 + length bs), h2)"
    "wrote h1 h2 b1 (others p w) (bb_start b1) bs" by (auto simp: buf_Begin_def)
  have "contents h2 b1 = bs" using b1(5) h2(2) b(4) by simp
  then have "bytes_inv (set_buf p (b1, h2) w) (A(p \<mapsto> bs))"
    using wroteD [OF h2(2)] b1(3) b(3) by (intro bytes_inv_set [OF inv]) auto
  moreover have "pk_new_bytes p bs w = Some (set_buf p (b1, h2) w)"
    using b(1) b1(1) h2(1) dead by (simp add: pk_new_bytes_def)
  ultimately show ?thesis using bspec_step.intros(2) [of A p S bs] p(1) by blast
qed

lemma CopyPacket_step:
  assumes inv: "bytes_inv w A" and al: "allowed S (CopyPacket q p) A"
  shows "\<exists>w' A'. pk_copy q p w = Some w' \<and> bspec_step S (CopyPacket q p) A Done A' \<and> bytes_inv w' A'"
proof -
  from al obtain xs where q: "A q = None" and p: "A p = Some xs" by auto
  note dead = bytes_inv_dead [OF inv q]
  from inv p obtain b where b: "pw_bufs w p = Some b" "contents (pw_heap w) b = xs" by (rule bytes_inv_live)
  have "q \<noteq> p" using q p by auto
  with inv b(1) obtain B where B: "others q w = add_mset b B" by (metis bytes_inv_other)
  let ?c = "b\<lparr>bb_maxZeroAreaStart := bb_zeroAreaStart b\<rparr>"
  from buffer_copy_ok [of "pw_heap w" b B] bytes_invD(4) [OF inv dead] obtain h where h: "buf_copy b (pw_heap w) = Some (?c, h)"
    "bufs_ok h (add_mset ?c (others q w))" "contents h = contents (pw_heap w)" by (auto simp: B)
  have "contents h ?c = xs" using b(2) h(3) by (simp add: contents_copy)
  then have "bytes_inv (set_buf q (?c, h) w) (A(q \<mapsto> xs))"
    using h by (intro bytes_inv_set [OF inv]) auto
  moreover have "pk_copy q p w = Some (set_buf q (?c, h) w)" using b(1) h(1) dead by (simp add: pk_copy_def)
  ultimately show ?thesis using bspec_step.intros(3) [of A q p xs S] q p by blast
qed

lemma AssignPacket_step:
  assumes inv: "bytes_inv w A" and al: "allowed S (AssignPacket q p) A"
  shows "\<exists>w' A'. pk_assign q p w = Some w' \<and> bspec_step S (AssignPacket q p) A Done A' \<and> bytes_inv w' A'"
proof -
  from al obtain xs ys where q: "A q = Some ys" and p: "A p = Some xs" by auto
  from inv p obtain b where b: "pw_bufs w p = Some b" "contents (pw_heap w) b = xs" by (rule bytes_inv_live)
  from inv q obtain c where c: "pw_bufs w q = Some c" "bufs_ok (pw_heap w) (add_mset c (others q w))" by (rule bytes_inv_live)
  have step: "bspec_step S (AssignPacket q p) A Done (A(q \<mapsto> xs))"
    using bspec_step.intros(4) [of A q p xs S] q p by blast
  show ?thesis
  proof (cases "q = p")
    case True
    then have "A(q \<mapsto> xs) = A" using p by auto
    then show ?thesis using step inv True b(1) c(1) by (auto simp: pk_assign_def)
  next
    case False
    with inv b(1) obtain B where B: "others q w = add_mset b B" by (metis bytes_inv_other)
    from buffer_assign_ok [OF c(2) [unfolded B]] obtain h where h: "buf_assign c b (pw_heap w) = Some (b, h)"
      "bufs_ok h (add_mset b (others q w))" "\<forall>e \<in># others q w. contents h e = contents (pw_heap w) e" by (auto simp: B)
    have "contents h b = xs" using h(3) b(2) B by simp
    then have "bytes_inv (set_buf q (b, h) w) (A(q \<mapsto> xs))"
      using h by (intro bytes_inv_set [OF inv]) auto
    moreover have "pk_assign q p w = Some (set_buf q (b, h) w)" using b(1) c(1) h(1) False by (simp add: pk_assign_def)
    ultimately show ?thesis using step by blast
  qed
qed

lemma Delete_step:
  assumes inv: "bytes_inv w A" and al: "allowed S (Delete p) A"
  shows "\<exists>w' A'. pk_delete p w = Some w' \<and> bspec_step S (Delete p) A Done A' \<and> bytes_inv w' A'"
proof -
  from al obtain xs where p: "A p = Some xs" by auto
  from inv p obtain b where b: "pw_bufs w p = Some b" "bufs_ok (pw_heap w) (add_mset b (others p w))" by (rule bytes_inv_live)
  from destroy_ok [OF b(2)] obtain h where h: "buf_destroy b (pw_heap w) = Some h" "bufs_ok h (others p w)"
    "\<forall>c \<in># others p w. contents h c = contents (pw_heap w) c" by blast
  have "bytes_inv (w\<lparr>pw_heap := h, pw_bufs := (pw_bufs w)(p := None)\<rparr>) (A(p := None))"
    using h by (intro bytes_inv_delete [OF inv b(1)]) auto
  moreover have "pk_delete p w = Some (w\<lparr>pw_heap := h, pw_bufs := (pw_bufs w)(p := None)\<rparr>)"
    using b(1) h(1) by (simp add: pk_delete_def)
  ultimately show ?thesis using bspec_step.intros(5) [of A p xs S] p by blast
qed

lemma Fragment_step:
  assumes inv: "bytes_inv w A" and al: "allowed S (Fragment q p s n) A"
  shows "\<exists>w' A'. pk_CreateFragment q p s n w = Some w' \<and> bspec_step S (Fragment q p s n) A Done A' \<and> bytes_inv w' A'"
proof -
  from al obtain xs where q: "A q = None" and p: "A p = Some xs" and r: "s + n \<le> length xs" by auto
  note dead = bytes_inv_dead [OF inv q]
  from inv p obtain b where b: "pw_bufs w p = Some b" "contents (pw_heap w) b = xs" by (rule bytes_inv_live)
  have "q \<noteq> p" using q p by auto
  with inv b(1) obtain B where B: "others q w = add_mset b B" by (metis bytes_inv_other)
  have ok: "bufs_ok (pw_heap w) (add_mset b B)" using bytes_invD(4) [OF inv dead] by (simp add: B)
  note size = bufs_ok_size [OF ok, unfolded b(2)]
  have r1: "s + n \<le> buf_GetSize b" and r2: "add32 s n = s + n" using r size by (simp_all add: add32_def)
  from CreateFragment_ok [OF ok r1] obtain f h where f: "buf_CreateFragment s n b (pw_heap w) = Some (f, h)"
    "bufs_ok h (add_mset f (others q w))" "\<forall>c \<in># others q w. contents h c = contents (pw_heap w) c"
    "contents h f = take n (drop s xs)" by (auto simp: B b(2))
  let ?c = "f\<lparr>bb_maxZeroAreaStart := bb_zeroAreaStart f\<rparr>"
  from buffer_copy_ok [OF f(2)] obtain h1 where h1: "buf_copy f h = Some (?c, h1)"
    "bufs_ok h1 (add_mset f (add_mset ?c (others q w)))" "contents h1 = contents h" by (auto simp: add_mset_commute)
  from destroy_ok [OF h1(2)] obtain h2 where h2: "buf_destroy f h1 = Some h2" "bufs_ok h2 (add_mset ?c (others q w))"
    "\<forall>e \<in># add_mset ?c (others q w). contents h2 e = contents h1 e" by blast
  have "contents h2 ?c = contents h f" using h2(3) h1(3) by (simp add: contents_copy)
  then have "bytes_inv (set_buf q (?c, h2) w) (A(q \<mapsto> take n (drop s xs)))"
    using h2 h1(3) f by (intro bytes_inv_set [OF inv]) auto
  moreover have "pk_CreateFragment q p s n w = Some (set_buf q (?c, h2) w)"
    using b(1) dead f(1) h1(1) h2(1) r1 r2 by (simp add: pk_CreateFragment_def)
  ultimately show ?thesis using bspec_step.intros(6) [of A q p xs s n S] q p r by blast
qed

lemma AddPadding_step:
  assumes inv: "bytes_inv w A" and al: "allowed S (AddPadding p n) A"
  shows "\<exists>w' A'. pk_AddPaddingAtEnd p n w = Some w' \<and> bspec_step S (AddPadding p n) A Done A' \<and> bytes_inv w' A'"
proof -
  from al obtain xs where xs: "A p = Some xs" "length xs + n \<le> size_limit" by auto
  from inv xs(1) obtain b where b: "pw_bufs w p = Some b" "contents (pw_heap w) b = xs"
    "bufs_ok (pw_heap w) (add_mset b (others p w))" by (rule bytes_inv_live)
  have "buf_GetSize b + n \<le> size_limit" using bufs_ok_size(1) [OF b(3)] b(2) xs(2) by simp
  from AddAtEnd_ok [OF b(3) this] obtain b1 h1 junk where b1: "buf_AddAtEnd n b (pw_heap w) = Some (b1, h1)"
    "bufs_ok h1 (add_mset b1 (others p w))" "\<forall>c \<in># others p w. contents h1 c = contents (pw_heap w) c"
    "contents h1 b1 = xs @ junk" "length junk = n" using b(2) by blast
  have "bytes_inv (set_buf p (b1, h1) w) (A(p \<mapsto> xs @ junk))"
    using b1 by (intro bytes_inv_set [OF inv]) auto
  moreover have "pk_AddPaddingAtEnd p n w = Some (set_buf p (b1, h1) w)"
    using b(1) b1(1) by (simp add: pk_AddPaddingAtEnd_def)
  ultimately show ?thesis using bspec_step.intros(13) [of A p xs junk n S] xs(1) b1(5) by blast
qed

lemma RemoveEnd_step:
  assumes inv: "bytes_inv w A" and al: "allowed S (RemoveEnd p n) A"
  shows "\<exists>w' A'. pk_RemoveAtEnd p n w = Some w' \<and> bspec_step S (RemoveEnd p n) A Done A' \<and> bytes_inv w' A'"
proof -
  from al obtain xs where xs: "A p = Some xs" by auto
  from inv xs obtain b where b: "pw_bufs w p = Some b" "contents (pw_heap w) b = xs"
    "bufs_ok (pw_heap w) (add_mset b (others p w))" by (rule bytes_inv_live)
  have "bytes_inv (set_buf p (buf_RemoveAtEnd n b, pw_heap w) w) (A(p \<mapsto> take (length xs - n) xs))"
    using RemoveAtEnd_ok [OF b(3), of n] b(2) by (intro bytes_inv_set [OF inv]) auto
  then show ?thesis using bspec_step.intros(14) [of A p xs S n] xs b(1) by (auto simp: pk_RemoveAtEnd_def)
qed

lemma RemoveStart_step:
  assumes inv: "bytes_inv w A" and al: "allowed S (RemoveStart p n) A"
  shows "\<exists>w' A'. pk_RemoveAtStart p n w = Some w' \<and> bspec_step S (RemoveStart p n) A Done A' \<and> bytes_inv w' A'"
proof -
  from al obtain xs where xs: "A p = Some xs" and n: "n \<le> 2 ^ 31" by auto
  from inv xs obtain b where b: "pw_bufs w p = Some b" "contents (pw_heap w) b = xs"
    "bufs_ok (pw_heap w) (add_mset b (others p w))" by (rule bytes_inv_live)
  from RemoveAtStart_ok [OF b(3) n] obtain b1 where b1: "buf_RemoveAtStart n b = Some b1"
    "bufs_ok (pw_heap w) (add_mset b1 (others p w))" "contents (pw_heap w) b1 = drop n xs" using b(2) by auto
  have "bytes_inv (set_buf p (b1, pw_heap w) w) (A(p \<mapsto> drop n xs))"
    using b1 by (intro bytes_inv_set [OF inv]) auto
  then show ?thesis using bspec_step.intros(15) [of A p xs S n] xs b(1) b1(1) by (auto simp: pk_RemoveAtStart_def)
qed

lemma CopyData_step:
  assumes inv: "bytes_inv w A" and al: "allowed S (CopyData p n) A"
  shows "\<exists>r. pk_CopyData p n w = Some r \<and> bspec_step S (CopyData p n) A (Bytes (fst r) (snd r)) A"
proof -
  from al obtain xs where xs: "A p = Some xs" and n: "n < 2 ^ 32" by auto
  from inv xs obtain b where b: "pw_bufs w p = Some b" "contents (pw_heap w) b = xs"
    "bufs_ok (pw_heap w) (add_mset b (others p w))" by (rule bytes_inv_live)
  have "pk_CopyData p n w = Some (min n (length xs), take n xs)"
    using CopyData_ok(1) [OF b(3) n] b(1,2) bufs_ok_size(1) [OF b(3)] by (simp add: pk_CopyData_def)
  then show ?thesis using bspec_step.intros(16) [of A p xs S n] xs by auto
qed

lemma GetSize_step:
  assumes inv: "bytes_inv w A" and al: "allowed S (GetSize p) A"
  shows "\<exists>n. pk_GetSize p w = Some n \<and> bspec_step S (GetSize p) A (Size n) A"
proof -
  from al obtain xs where xs: "A p = Some xs" by auto
  from inv xs obtain b where b: "pw_bufs w p = Some b" "contents (pw_heap w) b = xs"
    "bufs_ok (pw_heap w) (add_mset b (others p w))" by (rule bytes_inv_live)
  then have "pk_GetSize p w = Some (length xs)" using bufs_ok_size(1) [OF b(3)] by (simp add: pk_GetSize_def)
  then show ?thesis using bspec_step.intros(17) [of A p xs S] xs by blast
qed

text \<open>\<open>AddAtEnd(Ptr<const Packet>)\<close> appends, unless the packets share their data or the appended packet
  starts with its zero area and has bytes behind it; theory \<open>BufferDefects\<close> shows what happens then.\<close>

lemma AddAtEnd_step:
  assumes inv: "bytes_inv w A" and c: "pw_bufs w q = Some c" and b: "pw_bufs w p = Some b" and ne: "q \<noteq> p"
    and data: "bb_data c \<noteq> bb_data b" and z: "\<not> zero_first b" and room: "buf_GetSize c + buf_GetSize b \<le> size_limit"
  shows "\<exists>w'. pk_AddAtEnd q p w = Some w' \<and> bytes_inv w' (A(q \<mapsto> contents (pw_heap w) c @ contents (pw_heap w) b))"
proof -
  from inv b ne obtain B where B: "others q w = add_mset b B" by (metis bytes_inv_other)
  have ok: "bufs_ok (pw_heap w) (add_mset c (add_mset b B))" using bytes_invD(3) [OF inv c] by (simp add: B)
  from AddAtEndBuffer_ok [OF ok room data z] obtain c' h where h: "buf_AddAtEndBuffer b c (pw_heap w) = Some (c', h)"
    "bufs_ok h (add_mset c' (others q w))" "\<forall>e \<in># others q w. contents h e = contents (pw_heap w) e"
    "contents h c' = contents (pw_heap w) c @ contents (pw_heap w) b" by (auto simp: B)
  have "bytes_inv (set_buf q (c', h) w) (A(q \<mapsto> contents (pw_heap w) c @ contents (pw_heap w) b))"
    using h by (intro bytes_inv_set [OF inv]) auto
  then show ?thesis using b c h(1) ne by (auto simp: pk_AddAtEnd_def)
qed

lemma AppendPacket_step:
  assumes inv: "bytes_inv w A" and al: "allowed S (AppendPacket q p) A" and app: "append_ok (AppendPacket q p) w"
  shows "\<exists>w' A'. pk_AddAtEnd q p w = Some w' \<and> bspec_step S (AppendPacket q p) A Done A' \<and> bytes_inv w' A'"
proof -
  from al obtain xs ys where A: "A q = Some xs" "A p = Some ys" and ne: "q \<noteq> p" and room: "length xs + length ys \<le> size_limit"
    by auto
  from inv A(1) obtain c where c: "pw_bufs w q = Some c" "contents (pw_heap w) c = xs"
    "bufs_ok (pw_heap w) (add_mset c (others q w))" by (rule bytes_inv_live)
  from inv A(2) obtain b where b: "pw_bufs w p = Some b" "contents (pw_heap w) b = ys"
    "bufs_ok (pw_heap w) (add_mset b (others p w))" by (rule bytes_inv_live)
  have "buf_GetSize c + buf_GetSize b \<le> size_limit"
    using bufs_ok_size(1) [OF c(3)] bufs_ok_size(1) [OF b(3)] c(2) b(2) room by simp
  with AddAtEnd_step [OF inv c(1) b(1) ne] app b c obtain w' where
    "pk_AddAtEnd q p w = Some w'" "bytes_inv w' (A(q \<mapsto> xs @ ys))" by auto
  with bspec_step.intros(18) [of A q xs p ys S] A show ?thesis by blast
qed

section \<open>Refinement\<close>

locale packet_classes =
  fixes S :: "'a header_spec"
  assumes size: "c \<in> hs_headers S \<union> hs_trailers S \<Longrightarrow> hs_valid S c v \<Longrightarrow> hd_GetSerializedSize c v = length (hs_enc S c v)"
    and write_header: "c \<in> hs_headers S \<Longrightarrow> hs_valid S c v \<Longrightarrow> bufs_ok h (add_mset b B) \<Longrightarrow>
      writable b B (bb_start b) (length (hs_enc S c v)) \<Longrightarrow>
      \<exists>h'. hd_Serialize c v (buf_Begin b) h = Some h' \<and> wrote h h' b B (bb_start b) (hs_enc S c v)"
    and read_header: "c \<in> hs_headers S \<Longrightarrow> hs_valid S c v \<Longrightarrow> hs_valid S c v0 \<Longrightarrow> bufs_ok h (add_mset b B) \<Longrightarrow>
      contents h b = hs_enc S c v @ xs \<Longrightarrow>
      hd_Deserialize c v0 (buf_Begin b) h = Some (hs_read S c v0 v, length (hs_enc S c v))"
    and write_trailer: "c \<in> hs_trailers S \<Longrightarrow> hs_valid S c v \<Longrightarrow> bufs_ok h (add_mset b B) \<Longrightarrow>
      length (hs_enc S c v) \<le> bb_end b \<Longrightarrow> writable b B (bb_end b - length (hs_enc S c v)) (length (hs_enc S c v)) \<Longrightarrow>
      \<exists>h'. hd_Serialize c v (buf_End b) h = Some h' \<and> wrote h h' b B (bb_end b - length (hs_enc S c v)) (hs_enc S c v)"
    and read_trailer: "c \<in> hs_trailers S \<Longrightarrow> hs_valid S c v \<Longrightarrow> hs_valid S c v0 \<Longrightarrow> bufs_ok h (add_mset b B) \<Longrightarrow>
      contents h b = xs @ hs_enc S c v \<Longrightarrow>
      hd_Deserialize c v0 (buf_End b) h = Some (hs_read S c v0 v, length (hs_enc S c v))"
    and short: "c \<in> hs_headers S \<union> hs_trailers S \<Longrightarrow> hs_valid S c v \<Longrightarrow> length (hs_enc S c v) \<le> 2 ^ 31"
begin

lemma add_header:
  assumes inv: "bytes_inv w A" and al: "allowed S (AddHeader p c v) A"
  shows "\<exists>w' A'. pk_AddHeader p c v w = Some w' \<and> bspec_step S (AddHeader p c v) A Done A' \<and> bytes_inv w' A'"
proof -
  let ?e = "hs_enc S c v"
  from al obtain xs where xs: "A p = Some xs" "length xs + length ?e \<le> size_limit" and c: "c \<in> hs_headers S" "hs_valid S c v"
    by auto
  from inv xs(1) obtain b where b: "pw_bufs w p = Some b" "contents (pw_heap w) b = xs"
    "bufs_ok (pw_heap w) (add_mset b (others p w))" by (rule bytes_inv_live)
  have sz: "hd_GetSerializedSize c v = length ?e" using size c by blast
  have "buf_GetSize b + length ?e \<le> size_limit" using bufs_ok_size(1) [OF b(3)] b(2) xs(2) by simp
  from AddAtStart_room [OF b(3) this] obtain b1 h1 where b1: "buf_AddAtStart (length ?e) b (pw_heap w) = Some (b1, h1)"
    "bufs_ok h1 (add_mset b1 (others p w))" "\<forall>c \<in># others p w. contents h1 c = contents (pw_heap w) c"
    "writable b1 (others p w) (bb_start b1) (length ?e)"
    "\<forall>h2 bs. length bs = length ?e \<longrightarrow> wrote h1 h2 b1 (others p w) (bb_start b1) bs \<longrightarrow>
       contents h2 b1 = bs @ contents (pw_heap w) b" by blast
  obtain h2 where h2: "hd_Serialize c v (buf_Begin b1) h1 = Some h2" "wrote h1 h2 b1 (others p w) (bb_start b1) ?e"
    using write_header [OF c b1(2,4)] by blast
  have "contents h2 b1 = ?e @ xs" using b1(5) h2(2) b(2) by simp
  then have "bytes_inv (set_buf p (b1, h2) w) (A(p \<mapsto> ?e @ xs))"
    using wroteD [OF h2(2)] b1(3) by (intro bytes_inv_set [OF inv]) auto
  moreover have "pk_AddHeader p c v w = Some (set_buf p (b1, h2) w)"
    using b(1) sz b1(1) h2(1) by (simp add: pk_AddHeader_def)
  ultimately show ?thesis using bspec_step.intros(7) [of A p xs S c v] xs(1) by blast
qed

lemma add_trailer:
  assumes inv: "bytes_inv w A" and al: "allowed S (AddTrailer p c v) A"
  shows "\<exists>w' A'. pk_AddTrailer p c v w = Some w' \<and> bspec_step S (AddTrailer p c v) A Done A' \<and> bytes_inv w' A'"
proof -
  let ?e = "hs_enc S c v"
  from al obtain xs where xs: "A p = Some xs" "length xs + length ?e \<le> size_limit" and c: "c \<in> hs_trailers S" "hs_valid S c v"
    by auto
  from inv xs(1) obtain b where b: "pw_bufs w p = Some b" "contents (pw_heap w) b = xs"
    "bufs_ok (pw_heap w) (add_mset b (others p w))" by (rule bytes_inv_live)
  have sz: "hd_GetSerializedSize c v = length ?e" using size c by blast
  have "buf_GetSize b + length ?e \<le> size_limit" using bufs_ok_size(1) [OF b(3)] b(2) xs(2) by simp
  from AddAtEnd_room [OF b(3) this] obtain b1 h1 where b1: "buf_AddAtEnd (length ?e) b (pw_heap w) = Some (b1, h1)"
    "bufs_ok h1 (add_mset b1 (others p w))" "\<forall>c \<in># others p w. contents h1 c = contents (pw_heap w) c"
    "writable b1 (others p w) (bb_end b1 - length ?e) (length ?e)" "length ?e \<le> bb_end b1"
    "\<forall>h2 bs. length bs = length ?e \<longrightarrow> wrote h1 h2 b1 (others p w) (bb_end b1 - length ?e) bs \<longrightarrow>
       contents h2 b1 = contents (pw_heap w) b @ bs" by blast
  obtain h2 where h2: "hd_Serialize c v (buf_End b1) h1 = Some h2"
    "wrote h1 h2 b1 (others p w) (bb_end b1 - length ?e) ?e"
    using write_trailer [OF c b1(2,5,4)] by blast
  have "contents h2 b1 = xs @ ?e" using b1(6) h2(2) b(2) by simp
  then have "bytes_inv (set_buf p (b1, h2) w) (A(p \<mapsto> xs @ ?e))"
    using wroteD [OF h2(2)] b1(3) by (intro bytes_inv_set [OF inv]) auto
  moreover have "pk_AddTrailer p c v w = Some (set_buf p (b1, h2) w)"
    using b(1) sz b1(1) h2(1) by (simp add: pk_AddTrailer_def)
  ultimately show ?thesis using bspec_step.intros(10) [of A p xs S c v] xs(1) by blast
qed

lemma read_headers:
  assumes inv: "bytes_inv w A" and al: "allowed S (PeekHeader p c v0) A"
  shows "\<exists>r. pk_PeekHeader p c v0 w = Some r \<and> bspec_step S (PeekHeader p c v0) A (Value (fst r) (snd r)) A"
    "\<exists>v n w' A'. pk_RemoveHeader p c v0 w = Some (v, n, w') \<and> bspec_step S (RemoveHeader p c v0) A (Value v n) A' \<and> bytes_inv w' A'"
proof -
  from al obtain v xs where v: "A p = Some (hs_enc S c v @ xs)" "hs_valid S c v" and c: "c \<in> hs_headers S" "hs_valid S c v0"
    by auto
  let ?e = "hs_enc S c v"
  from inv v(1) obtain b where b: "pw_bufs w p = Some b" "contents (pw_heap w) b = ?e @ xs"
    "bufs_ok (pw_heap w) (add_mset b (others p w))" by (rule bytes_inv_live)
  have rd: "hd_Deserialize c v0 (buf_Begin b) (pw_heap w) = Some (hs_read S c v0 v, length ?e)"
    by (rule read_header [OF c(1) v(2) c(2) b(3,2)])
  show "\<exists>r. pk_PeekHeader p c v0 w = Some r \<and> bspec_step S (PeekHeader p c v0) A (Value (fst r) (snd r)) A"
    using rd b(1) bspec_step.intros(8) [of A p S c v xs v0, OF v] by (auto simp: pk_PeekHeader_def)
  have "length ?e \<le> 2 ^ 31" using short c v by blast
  from RemoveAtStart_ok [OF b(3) this] obtain b1 where b1: "buf_RemoveAtStart (length ?e) b = Some b1"
    "bufs_ok (pw_heap w) (add_mset b1 (others p w))" "contents (pw_heap w) b1 = xs" using b(2) by auto
  have "bytes_inv (set_buf p (b1, pw_heap w) w) (A(p \<mapsto> xs))"
    by (rule bytes_inv_set [OF inv b1(2) refl b1(3)])
  then show "\<exists>v n w' A'. pk_RemoveHeader p c v0 w = Some (v, n, w') \<and> bspec_step S (RemoveHeader p c v0) A (Value v n) A' \<and> bytes_inv w' A'"
    using rd b(1) b1(1) bspec_step.intros(9) [of A p S c v xs v0, OF v] by (auto simp: pk_RemoveHeader_def)
qed

lemma read_trailers:
  assumes inv: "bytes_inv w A" and al: "allowed S (PeekTrailer p c v0) A"
  shows "\<exists>r. pk_PeekTrailer p c v0 w = Some r \<and> bspec_step S (PeekTrailer p c v0) A (Value (fst r) (snd r)) A"
    "\<exists>v n w' A'. pk_RemoveTrailer p c v0 w = Some (v, n, w') \<and> bspec_step S (RemoveTrailer p c v0) A (Value v n) A' \<and> bytes_inv w' A'"
proof -
  from al obtain v xs where v: "A p = Some (xs @ hs_enc S c v)" "hs_valid S c v" and c: "c \<in> hs_trailers S" "hs_valid S c v0"
    by auto
  let ?e = "hs_enc S c v"
  from inv v(1) obtain b where b: "pw_bufs w p = Some b" "contents (pw_heap w) b = xs @ ?e"
    "bufs_ok (pw_heap w) (add_mset b (others p w))" by (rule bytes_inv_live)
  have rd: "hd_Deserialize c v0 (buf_End b) (pw_heap w) = Some (hs_read S c v0 v, length ?e)"
    by (rule read_trailer [OF c(1) v(2) c(2) b(3,2)])
  show "\<exists>r. pk_PeekTrailer p c v0 w = Some r \<and> bspec_step S (PeekTrailer p c v0) A (Value (fst r) (snd r)) A"
    using rd b(1) bspec_step.intros(11) [of A p xs S c v v0, OF v] by (auto simp: pk_PeekTrailer_def)
  let ?b1 = "buf_RemoveAtEnd (length ?e) b"
  have b1: "bufs_ok (pw_heap w) (add_mset ?b1 (others p w))" "contents (pw_heap w) ?b1 = xs"
    using RemoveAtEnd_ok [OF b(3), of "length ?e"] b(2) by simp_all
  have "bytes_inv (set_buf p (?b1, pw_heap w) w) (A(p \<mapsto> xs))"
    by (rule bytes_inv_set [OF inv b1(1) refl b1(2)])
  then show "\<exists>v n w' A'. pk_RemoveTrailer p c v0 w = Some (v, n, w') \<and> bspec_step S (RemoveTrailer p c v0) A (Value v n) A' \<and> bytes_inv w' A'"
    using rd b(1) bspec_step.intros(12) [of A p xs S c v v0, OF v] by (auto simp: pk_RemoveTrailer_def)
qed

theorem byte_step_refines:
  assumes inv: "bytes_inv w A" and al: "allowed S op A" and app: "append_ok op w"
  shows "\<exists>r w' A'. byte_step op w = Some (r, w') \<and> bspec_step S op A r A' \<and> bytes_inv w' A'"
proof (cases op)
  case (New p n)
  then show ?thesis using New_step [OF inv, of S p n] al by auto
next
  case (NewBytes p bs)
  then show ?thesis using NewBytes_step [OF inv, of S p bs] al by auto
next
  case (CopyPacket q p)
  then show ?thesis using CopyPacket_step [OF inv, of S q p] al by auto
next
  case (AssignPacket q p)
  then show ?thesis using AssignPacket_step [OF inv, of S q p] al by auto
next
  case (Delete p)
  then show ?thesis using Delete_step [OF inv, of S p] al by auto
next
  case (Fragment q p s n)
  then show ?thesis using Fragment_step [OF inv, of S q p s n] al by auto
next
  case (AddHeader p c v)
  then show ?thesis using add_header [OF inv, of p c v] al by auto
next
  case (PeekHeader p c v)
  with al read_headers(1) [OF inv, of p c v] obtain u n where "pk_PeekHeader p c v w = Some (u, n)"
    "bspec_step S (PeekHeader p c v) A (Value u n) A" by auto
  then show ?thesis using PeekHeader inv by auto
next
  case (RemoveHeader p c v)
  with al have "allowed S (PeekHeader p c v) A" by simp
  from read_headers(2) [OF inv this] obtain u n w' A' where "pk_RemoveHeader p c v w = Some (u, n, w')"
    "bspec_step S (RemoveHeader p c v) A (Value u n) A'" "bytes_inv w' A'" by blast
  then show ?thesis using RemoveHeader by auto
next
  case (AddTrailer p c v)
  then show ?thesis using add_trailer [OF inv, of p c v] al by auto
next
  case (PeekTrailer p c v)
  with al read_trailers(1) [OF inv, of p c v] obtain u n where "pk_PeekTrailer p c v w = Some (u, n)"
    "bspec_step S (PeekTrailer p c v) A (Value u n) A" by auto
  then show ?thesis using PeekTrailer inv by auto
next
  case (RemoveTrailer p c v)
  with al have "allowed S (PeekTrailer p c v) A" by simp
  from read_trailers(2) [OF inv this] obtain u n w' A' where "pk_RemoveTrailer p c v w = Some (u, n, w')"
    "bspec_step S (RemoveTrailer p c v) A (Value u n) A'" "bytes_inv w' A'" by blast
  then show ?thesis using RemoveTrailer by auto
next
  case (AddPadding p n)
  then show ?thesis using AddPadding_step [OF inv, of S p n] al by auto
next
  case (RemoveEnd p n)
  then show ?thesis using RemoveEnd_step [OF inv, of S p n] al by auto
next
  case (RemoveStart p n)
  then show ?thesis using RemoveStart_step [OF inv, of S p n] al by auto
next
  case (CopyData p n)
  with al CopyData_step [OF inv, of S p n] obtain k bs where "pk_CopyData p n w = Some (k, bs)"
    "bspec_step S (CopyData p n) A (Bytes k bs) A" by auto
  then show ?thesis using CopyData inv by auto
next
  case (GetSize p)
  then show ?thesis using GetSize_step [OF inv, of S p] inv al by auto
next
  case (AppendPacket q p)
  with al app AppendPacket_step [OF inv, of S q p] obtain w' A' where "pk_AddAtEnd q p w = Some w'"
    "bspec_step S (AppendPacket q p) A Done A'" "bytes_inv w' A'" by blast
  then show ?thesis using AppendPacket by auto
qed

theorem byte_run_refines:
  "bytes_inv w A \<Longrightarrow> safe S ops A \<Longrightarrow> appends_ok ops w \<Longrightarrow>
   \<exists>rs w' A'. byte_run ops w = Some (rs, w') \<and> bspec_run S ops A rs A' \<and> bytes_inv w' A'"
proof (induction ops arbitrary: w A)
  case Nil
  then show ?case by (auto intro: bspec_run.intros)
next
  case (Cons op ops)
  from byte_step_refines [OF Cons.prems(1), of op] Cons.prems(2,3) obtain r w1 A1 where
    s: "byte_step op w = Some (r, w1)" "bspec_step S op A r A1" "bytes_inv w1 A1" by auto
  with Cons.prems(2,3) have "safe S ops A1" "appends_ok ops w1" by auto
  from Cons.IH [OF s(3) this] obtain rs w2 A2 where
    "byte_run ops w1 = Some (rs, w2)" "bspec_run S ops A1 rs A2" "bytes_inv w2 A2" by blast
  with s show ?case by (auto intro!: bspec_run.intros)
qed

end

end
