(* ===== verification/Crc32.thy ===== *)
theory Crc32
  imports BufferIterator
begin

unbundle bit_operations_syntax

text \<open>
  The checksum of Ethernet frames (\<open>network/utils/crc32.cc\<close>): a table of 256 words and a loop over the
  bytes. \<open>crc_bit\<close> is one step of the division by the generator polynomial that the table speeds up.
\<close>

definition crc32table :: "u32 list" where
  "crc32table =
    [0x00000000, 0x77073096, 0xee0e612c, 0x990951ba, 0x076dc419, 0x706af48f, 0xe963a535, 0x9e6495a3,
     0x0edb8832, 0x79dcb8a4, 0xe0d5e91e, 0x97d2d988, 0x09b64c2b, 0x7eb17cbd, 0xe7b82d07, 0x90bf1d91,
     0x1db71064, 0x6ab020f2, 0xf3b97148, 0x84be41de, 0x1adad47d, 0x6ddde4eb, 0xf4d4b551, 0x83d385c7,
     0x136c9856, 0x646ba8c0, 0xfd62f97a, 0x8a65c9ec, 0x14015c4f, 0x63066cd9, 0xfa0f3d63, 0x8d080df5,
     0x3b6e20c8, 0x4c69105e, 0xd56041e4, 0xa2677172, 0x3c03e4d1, 0x4b04d447, 0xd20d85fd, 0xa50ab56b,
     0x35b5a8fa, 0x42b2986c, 0xdbbbc9d6, 0xacbcf940, 0x32d86ce3, 0x45df5c75, 0xdcd60dcf, 0xabd13d59,
     0x26d930ac, 0x51de003a, 0xc8d75180, 0xbfd06116, 0x21b4f4b5, 0x56b3c423, 0xcfba9599, 0xb8bda50f,
     0x2802b89e, 0x5f058808, 0xc60cd9b2, 0xb10be924, 0x2f6f7c87, 0x58684c11, 0xc1611dab, 0xb6662d3d,
     0x76dc4190, 0x01db7106, 0x98d220bc, 0xefd5102a, 0x71b18589, 0x06b6b51f, 0x9fbfe4a5, 0xe8b8d433,
     0x7807c9a2, 0x0f00f934, 0x9609a88e, 0xe10e9818, 0x7f6a0dbb, 0x086d3d2d, 0x91646c97, 0xe6635c01,
     0x6b6b51f4, 0x1c6c6162, 0x856530d8, 0xf262004e, 0x6c0695ed, 0x1b01a57b, 0x8208f4c1, 0xf50fc457,
     0x65b0d9c6, 0x12b7e950, 0x8bbeb8ea, 0xfcb9887c, 0x62dd1ddf, 0x15da2d49, 0x8cd37cf3, 0xfbd44c65,
     0x4db26158, 0x3ab551ce, 0xa3bc0074, 0xd4bb30e2, 0x4adfa541, 0x3dd895d7, 0xa4d1c46d, 0xd3d6f4fb,
     0x4369e96a, 0x346ed9fc, 0xad678846, 0xda60b8d0, 0x44042d73, 0x33031de5, 0xaa0a4c5f, 0xdd0d7cc9,
     0x5005713c, 0x270241aa, 0xbe0b1010, 0xc90c2086, 0x5768b525, 0x206f85b3, 0xb966d409, 0xce61e49f,
     0x5edef90e, 0x29d9c998, 0xb0d09822, 0xc7d7a8b4, 0x59b33d17, 0x2eb40d81, 0xb7bd5c3b, 0xc0ba6cad,
     0xedb88320, 0x9abfb3b6, 0x03b6e20c, 0x74b1d29a, 0xead54739, 0x9dd277af, 0x04db2615, 0x73dc1683,
     0xe3630b12, 0x94643b84, 0x0d6d6a3e, 0x7a6a5aa8, 0xe40ecf0b, 0x9309ff9d, 0x0a00ae27, 0x7d079eb1,
     0xf00f9344, 0x8708a3d2, 0x1e01f268, 0x6906c2fe, 0xf762575d, 0x806567cb, 0x196c3671, 0x6e6b06e7,
     0xfed41b76, 0x89d32be0, 0x10da7a5a, 0x67dd4acc, 0xf9b9df6f, 0x8ebeeff9, 0x17b7be43, 0x60b08ed5,
     0xd6d6a3e8, 0xa1d1937e, 0x38d8c2c4, 0x4fdff252, 0xd1bb67f1, 0xa6bc5767, 0x3fb506dd, 0x48b2364b,
     0xd80d2bda, 0xaf0a1b4c, 0x36034af6, 0x41047a60, 0xdf60efc3, 0xa867df55, 0x316e8eef, 0x4669be79,
     0xcb61b38c, 0xbc66831a, 0x256fd2a0, 0x5268e236, 0xcc0c7795, 0xbb0b4703, 0x220216b9, 0x5505262f,
     0xc5ba3bbe, 0xb2bd0b28, 0x2bb45a92, 0x5cb36a04, 0xc2d7ffa7, 0xb5d0cf31, 0x2cd99e8b, 0x5bdeae1d,
     0x9b64c2b0, 0xec63f226, 0x756aa39c, 0x026d930a, 0x9c0906a9, 0xeb0e363f, 0x72076785, 0x05005713,
     0x95bf4a82, 0xe2b87a14, 0x7bb12bae, 0x0cb61b38, 0x92d28e9b, 0xe5d5be0d, 0x7cdcefb7, 0x0bdbdf21,
     0x86d3d2d4, 0xf1d4e242, 0x68ddb3f8, 0x1fda836e, 0x81be16cd, 0xf6b9265b, 0x6fb077e1, 0x18b74777,
     0x88085ae6, 0xff0f6a70, 0x66063bca, 0x11010b5c, 0x8f659eff, 0xf862ae69, 0x616bffd3, 0x166ccf45,
     0xa00ae278, 0xd70dd2ee, 0x4e048354, 0x3903b3c2, 0xa7672661, 0xd06016f7, 0x4969474d, 0x3e6e77db,
     0xaed16a4a, 0xd9d65adc, 0x40df0b66, 0x37d83bf0, 0xa9bcae53, 0xdebb9ec5, 0x47b2cf7f, 0x30b5ffe9,
     0xbdbdf21c, 0xcabac28a, 0x53b39330, 0x24b4a3a6, 0xbad03605, 0xcdd70693, 0x54de5729, 0x23d967bf,
     0xb3667a2e, 0xc4614ab8, 0x5d681b02, 0x2a6f2b94, 0xb40bbe37, 0xc30c8ea1, 0x5a05df1b, 0x2d02ef8d]"

definition crc_step :: "u32 \<Rightarrow> u8 \<Rightarrow> u32" where
  "crc_step crc b = drop_bit 8 crc XOR crc32table ! unat ((crc AND 0xff) XOR ucast b)"

definition CRC32Calculate :: "u8 list \<Rightarrow> u32" where
  "CRC32Calculate data = NOT (foldl crc_step 0xffffffff data)"

text \<open>The reference: bit by bit, least significant bit first.\<close>

definition crc_bit :: "u32 \<Rightarrow> u32" where
  "crc_bit c = (if bit c 0 then drop_bit 1 c XOR 0xedb88320 else drop_bit 1 c)"

definition crc_byte :: "u32 \<Rightarrow> u8 \<Rightarrow> u32" where
  "crc_byte crc b = (crc_bit ^^ 8) (crc XOR ucast b)"

section \<open>The division is linear\<close>

lemma crc_bit_eq: "crc_bit c = drop_bit 1 c XOR (if bit c 0 then 0xedb88320 else 0)"
  by (simp add: crc_bit_def)

lemma crc_bit_xor: "crc_bit (a XOR b) = crc_bit a XOR crc_bit b"
  by (cases "bit a 0"; cases "bit b 0") (simp_all add: crc_bit_def drop_bit_xor bit_xor_iff xor.left_commute xor.commute xor.assoc)

lemma crc_bits_xor: "(crc_bit ^^ n) (a XOR b) = (crc_bit ^^ n) a XOR (crc_bit ^^ n) b"
  by (induction n) (simp_all add: crc_bit_xor)

lemma crc_bits_0 [simp]: "(crc_bit ^^ n) 0 = 0"
  by (induction n) (simp_all add: crc_bit_def)

lemma crc_bits_low: "(\<And>i. i < n \<Longrightarrow> \<not> bit c i) \<Longrightarrow> (crc_bit ^^ n) c = drop_bit n c"
proof (induction n arbitrary: c)
  case (Suc n)
  have "crc_bit c = drop_bit 1 c" using Suc.prems [of 0] by (simp add: crc_bit_def)
  moreover have "(crc_bit ^^ n) (drop_bit 1 c) = drop_bit n (drop_bit 1 c)"
    by (rule Suc.IH) (use Suc.prems in \<open>simp add: bit_drop_bit_eq\<close>)
  ultimately show ?case by (simp only: funpow_Suc_right o_apply) (simp add: add.commute)
qed simp

lemma crc_bit_inj: "crc_bit a = crc_bit b \<Longrightarrow> a = b"
proof -
  have zero: "c = 0" if "crc_bit c = 0" for c
  proof -
    have "\<not> bit c 0"
    proof
      assume "bit c 0"
      then have "bit (crc_bit c) 31"
        by (simp add: crc_bit_def bit_xor_iff bit_drop_bit_eq bit_simps) (use bit_imp_le_length [of c 32] in auto)
      then show False using that by simp
    qed
    then have "drop_bit 1 c = 0" "\<not> bit c 0" using that by (simp_all add: crc_bit_def)
    then have "\<not> bit c i" for i
      by (cases i) (use bit_drop_bit_eq [of 1 c] in \<open>auto simp: fun_eq_iff\<close>)
    then show "c = 0" by (simp add: bit_eq_iff)
  qed
  assume "crc_bit a = crc_bit b"
  then have "crc_bit (a XOR b) = 0" by (simp add: crc_bit_xor)
  then have "a XOR b = 0" by (rule zero)
  then show "a = b" by (auto simp: bit_eq_iff bit_xor_iff)
qed

lemma crc_bits_inj: "(crc_bit ^^ n) a = (crc_bit ^^ n) b \<Longrightarrow> a = b"
  by (induction n) (auto dest: crc_bit_inj)

section \<open>The table\<close>

primrec xor_span :: "u32 list \<Rightarrow> u32 list" where
  "xor_span [] = [0]"
| "xor_span (b # bs) = (let s = xor_span bs in s @ map (\<lambda>w. w XOR b) s)"

lemma of_nat_top:
  assumes "i < 2 ^ n" "n < 32"
  shows "(word_of_nat (i + 2 ^ n) :: u32) = word_of_nat i XOR 2 ^ n"
proof -
  have "i + 2 ^ n = i XOR 2 ^ n"
  proof -
    have "\<not> bit i n" using assms(1) by (simp add: bit_iff_odd)
    then have "i AND 2 ^ n = 0" by (intro bit_eqI) (auto simp: bit_and_iff bit_exp_iff)
    then show ?thesis by (simp add: disjunctive_xor_eq_or flip: disjunctive_add_eq_or)
  qed
  then show ?thesis by (simp add: of_nat_xor_eq)
qed

lemma xor_span_linear:
  "n \<le> 8 \<Longrightarrow> xor_span (map (\<lambda>k. (crc_bit ^^ m) (2 ^ k)) (rev [0..<n])) = map (\<lambda>i. (crc_bit ^^ m) (word_of_nat i)) [0..<2 ^ n]"
proof (induction n)
  case (Suc n)
  have "[0..<2 ^ Suc n] = [0..<2 ^ n] @ map (\<lambda>i. i + 2 ^ n) [0..<(2::nat) ^ n]"
    using map_add_upt [of "2 ^ n" "2 ^ n"] upt_add_eq_append [of 0 "2 ^ n" "2 ^ n"] by (simp add: mult_2 add.commute)
  moreover have "(crc_bit ^^ m) (word_of_nat (i + 2 ^ n)) = (crc_bit ^^ m) (word_of_nat i) XOR (crc_bit ^^ m) (2 ^ n)"
    if "i < 2 ^ n" for i
    using that Suc.prems by (simp only: of_nat_top crc_bits_xor)
  ultimately show ?case using Suc by (simp add: Let_def)
qed simp

lemma crc_8: "(crc_bit ^^ 8) x = crc_bit (crc_bit (crc_bit (crc_bit (crc_bit (crc_bit (crc_bit (crc_bit x)))))))"
  by (simp add: numeral_eq_Suc)

lemma basis: "map (\<lambda>k. (crc_bit ^^ 8) (2 ^ k)) (rev [0..<8]) =
    [0xedb88320, 0x76dc4190, 0x3b6e20c8, 0x1db71064, 0x0edb8832, 0x076dc419, 0xee0e612c, 0x77073096]"
  by (simp add: crc_8 upt_rec) (simp add: crc_bit_def)

lemma table_bits: "crc32table = map (\<lambda>i. (crc_bit ^^ 8) (word_of_nat i)) [0..<256]"
  using xor_span_linear [of 8 8, unfolded basis] by (simp add: crc32table_def)

lemma table_byte: "crc32table ! unat (b :: u8) = (crc_bit ^^ 8) (ucast b)"
proof -
  have "unat b < 256" using unsigned_less [of b] by simp
  then show ?thesis by (simp add: table_bits)
qed

section \<open>The loop\<close>

lemma unat_ucast_byte: "unat (ucast (b :: u8) :: u32) = unat b"
proof -
  have "unat b < 2 ^ 8" using unsigned_less [of b, where 'a=nat] by simp
  then show ?thesis by (simp add: unsigned_ucast_eq take_bit_nat_eq_self)
qed

lemma crc_step_byte: "crc_step c b = crc_byte c b"
proof -
  have low: "(c AND 0xff) XOR ucast b = ucast ((ucast c :: u8) XOR b)"
    by (rule bit_word_eqI) (auto simp: bit_simps bit_255_int dest: bit_imp_le_length)
  have split: "c XOR ucast b = push_bit 8 (drop_bit 8 c) XOR ((c AND 0xff) XOR ucast b)"
    by (rule bit_word_eqI) (auto simp: bit_simps bit_255_int)
  have "(crc_bit ^^ 8) (push_bit 8 (drop_bit 8 c)) = drop_bit 8 (push_bit 8 (drop_bit 8 c))"
    by (rule crc_bits_low) (simp add: bit_simps)
  also have "\<dots> = drop_bit 8 c"
    by (rule bit_word_eqI) (auto simp: bit_simps dest: bit_imp_le_length)
  finally have "crc_byte c b = drop_bit 8 c XOR (crc_bit ^^ 8) (ucast ((ucast c :: u8) XOR b))"
    unfolding crc_byte_def split low crc_bits_xor by simp
  then show ?thesis unfolding crc_step_def low by (simp add: table_byte unat_ucast_byte)
qed

lemma CRC32_bits: "CRC32Calculate bs = NOT (foldl crc_byte 0xffffffff bs)"
proof -
  have "crc_step = crc_byte" by (intro ext crc_step_byte)
  then show ?thesis by (simp add: CRC32Calculate_def)
qed

lemma from_lsb_Cons: "from_lsb (b # bs) = (push_bit 8 (from_lsb bs) XOR ucast b :: 'a::len word)"
proof -
  have "push_bit 8 w OR ucast b = (push_bit 8 w XOR ucast b :: 'a word)" for w
    by (rule bit_word_eqI) (auto simp: bit_simps dest: bit_imp_le_length)
  then show ?thesis by (simp add: from_lsb_def shift_in_def)
qed

lemma from_lsb_bound: "bit (from_lsb bs :: 'a::len word) i \<Longrightarrow> i < 8 * length bs"
proof (induction bs arbitrary: i)
  case (Cons b bs)
  then have "i < 8 \<or> bit (from_lsb bs :: 'a word) (i - 8)"
    by (auto simp: from_lsb_Cons bit_simps dest: bit_imp_le_length)
  then show ?case using Cons.IH [of "i - 8"] by auto
qed (simp add: from_lsb_def)

lemma from_lsb_inj:
  "length xs = length ys \<Longrightarrow> 8 * length xs \<le> LENGTH('a) \<Longrightarrow> from_lsb xs = (from_lsb ys :: 'a::len word) \<Longrightarrow> xs = ys"
proof (induction xs ys rule: list_induct2)
  case (Cons x xs y ys)
  have "bit x i = bit y i" if "i < 8" for i
    using arg_cong [OF Cons.prems(2), of "\<lambda>w. bit w i"] that Cons.prems(1) by (simp add: from_lsb_Cons bit_simps)
  then have "x = y" by (intro bit_word_eqI) simp
  moreover have "bit (from_lsb xs :: 'a word) i = bit (from_lsb ys :: 'a word) i" for i
  proof (cases "i < 8 * length xs")
    case True
    then show ?thesis using arg_cong [OF Cons.prems(2), of "\<lambda>w. bit w (i + 8)"] Cons.prems(1) \<open>x = y\<close>
      by (auto simp: from_lsb_Cons bit_simps dest: bit_imp_le_length)
  next
    case False
    then show ?thesis using from_lsb_bound [of xs i, where 'a='a] from_lsb_bound [of ys i, where 'a='a] Cons.hyps by auto
  qed
  ultimately show ?case using Cons.IH Cons.prems(1) by (auto simp: bit_eq_iff)
qed simp

text \<open>Up to four bytes at once.\<close>

lemma crc_block: "length bs \<le> 4 \<Longrightarrow> foldl crc_byte c bs = (crc_bit ^^ (8 * length bs)) (c XOR from_lsb bs)"
proof (induction bs arbitrary: c)
  case (Cons b bs)
  let ?w = "from_lsb bs :: u32"
  have "drop_bit 8 (push_bit 8 ?w) = ?w"
    using Cons.prems from_lsb_bound [of bs _, where 'a=32]
    by (intro bit_word_eqI) (auto simp: bit_simps, fastforce)
  moreover have "(crc_bit ^^ 8) (push_bit 8 ?w) = drop_bit 8 (push_bit 8 ?w)"
    by (rule crc_bits_low) (simp add: bit_simps)
  ultimately have w: "(crc_bit ^^ 8) (push_bit 8 ?w) = ?w" by simp
  have "foldl crc_byte c (b # bs) = (crc_bit ^^ (8 * length bs)) (crc_byte c b XOR ?w)"
    using Cons by simp
  also have "crc_byte c b XOR ?w = (crc_bit ^^ 8) (c XOR ucast b XOR push_bit 8 ?w)"
    unfolding crc_byte_def crc_bits_xor w by (simp add: xor.assoc)
  also have "c XOR ucast b XOR push_bit 8 ?w = c XOR from_lsb (b # bs)"
    by (simp add: from_lsb_Cons xor.assoc xor.commute)
  also have "(crc_bit ^^ (8 * length bs)) ((crc_bit ^^ 8) d) = (crc_bit ^^ (8 * length (b # bs))) d" for d
  proof -
    have "8 * length (b # bs) = 8 * length bs + 8" by simp
    then show ?thesis by (simp only: funpow_add o_apply)
  qed
  finally show ?case .
qed (simp add: from_lsb_def)

lemma crc_bytes_inj: "foldl crc_byte a bs = foldl crc_byte b bs \<Longrightarrow> a = b"
proof (induction bs arbitrary: a b)
  case (Cons x bs)
  then have "crc_byte a x = crc_byte b x" by simp
  then have "a XOR ucast x = b XOR ucast x" unfolding crc_byte_def by (rule crc_bits_inj)
  then show ?case by (auto simp: bit_eq_iff bit_xor_iff)
qed simp

text \<open>Two messages that differ in four consecutive bytes at most have different checksums.\<close>

lemma CRC32_burst:
  assumes len: "length xs = length ys" "length xs \<le> 4" and eq: "CRC32Calculate (us @ xs @ vs) = CRC32Calculate (us @ ys @ vs)"
  shows "xs = ys"
proof -
  define c where "c = foldl crc_byte 0xffffffff us"
  have "foldl crc_byte (foldl crc_byte c xs) vs = foldl crc_byte (foldl crc_byte c ys) vs"
    using eq by (simp add: CRC32_bits c_def)
  then have "foldl crc_byte c xs = foldl crc_byte c ys" by (rule crc_bytes_inj)
  then have "c XOR from_lsb xs = c XOR (from_lsb ys :: u32)"
    using len by (simp add: crc_block) (metis crc_bits_inj)
  then have "from_lsb xs = (from_lsb ys :: u32)" by (auto simp: bit_eq_iff bit_xor_iff)
  then show "xs = ys" using len by (intro from_lsb_inj) auto
qed

end
