(* ===== verification/NetworkHeaders.thy ===== *)
theory NetworkHeaders
  imports PacketBytes Crc32
begin

text \<open>
  Concrete headers and trailers: what \<open>network/utils/address-utils.cc\<close> writes and reads through an
  iterator, \<open>LlcSnapHeader\<close>, \<open>EthernetHeader\<close> and \<open>EthernetTrailer\<close> with its frame check sequence. They
  obey the laws of \<open>packet_classes\<close>, so that packets with these headers are lists of bytes.

  A MAC or IPv6 address is the list of its bytes, an IPv4 address a 32-bit number.
\<close>

section \<open>Addresses\<close>

type_synonym mac_address = "u8 list"

definition WriteTo_Ipv4 :: "u32 \<Rightarrow> buf_iter \<Rightarrow> buf_heap \<Rightarrow> (buf_iter \<times> buf_heap) option" where
  "WriteTo_Ipv4 ad = it_WriteHtonU32 ad"

definition WriteTo_Ipv6 :: "u8 list \<Rightarrow> buf_iter \<Rightarrow> buf_heap \<Rightarrow> (buf_iter \<times> buf_heap) option" where
  "WriteTo_Ipv6 ad = it_Write (take 16 ad)"

definition WriteTo_Mac64 :: "mac_address \<Rightarrow> buf_iter \<Rightarrow> buf_heap \<Rightarrow> (buf_iter \<times> buf_heap) option" where
  "WriteTo_Mac64 ad = it_Write (take 8 ad)"

definition WriteTo_Mac48 :: "mac_address \<Rightarrow> buf_iter \<Rightarrow> buf_heap \<Rightarrow> (buf_iter \<times> buf_heap) option" where
  "WriteTo_Mac48 ad = it_Write (take 6 ad)"

definition WriteTo_Mac16 :: "mac_address \<Rightarrow> buf_iter \<Rightarrow> buf_heap \<Rightarrow> (buf_iter \<times> buf_heap) option" where
  \<comment> \<open>the second byte first\<close>
  "WriteTo_Mac16 ad it h = do { (it, h) \<leftarrow> it_Write [ad ! 1] it h; it_Write [ad ! 0] it h }"

definition ReadFrom_Ipv4 :: "buf_iter \<Rightarrow> buf_heap \<Rightarrow> (u32 \<times> buf_iter) option" where
  "ReadFrom_Ipv4 = it_ReadNtohU32"

definition ReadFrom_Ipv6 :: "buf_iter \<Rightarrow> buf_heap \<Rightarrow> (u8 list \<times> buf_iter) option" where
  "ReadFrom_Ipv6 = it_Read 16"

definition ReadFrom_Mac64 :: "buf_iter \<Rightarrow> buf_heap \<Rightarrow> (mac_address \<times> buf_iter) option" where
  "ReadFrom_Mac64 = it_Read 8"

definition ReadFrom_Mac48 :: "buf_iter \<Rightarrow> buf_heap \<Rightarrow> (mac_address \<times> buf_iter) option" where
  "ReadFrom_Mac48 = it_Read 6"

definition ReadFrom_Mac16 :: "buf_iter \<Rightarrow> buf_heap \<Rightarrow> (mac_address \<times> buf_iter) option" where
  "ReadFrom_Mac16 it h = do { (second, it) \<leftarrow> it_Read 1 it h; (first, it) \<leftarrow> it_Read 1 it h; Some (first @ second, it) }"

section \<open>LLC/SNAP\<close>

record llc_snap_header =
  ls_etherType :: u16

definition LlcSnapHeader_GetSerializedSize :: "llc_snap_header \<Rightarrow> nat" where
  "LlcSnapHeader_GetSerializedSize v = 8"

definition LlcSnapHeader_Serialize :: "llc_snap_header \<Rightarrow> buf_iter \<Rightarrow> buf_heap \<Rightarrow> buf_heap option" where
  "LlcSnapHeader_Serialize v start h = do {
     (i, h) \<leftarrow> it_Write [0xaa, 0xaa, 0x03, 0, 0, 0] start h;
     (_, h) \<leftarrow> it_WriteHtonU16 (ls_etherType v) i h;
     Some h }"

definition LlcSnapHeader_Deserialize :: "llc_snap_header \<Rightarrow> buf_iter \<Rightarrow> buf_heap \<Rightarrow> (llc_snap_header \<times> nat) option" where
  "LlcSnapHeader_Deserialize v start h = do {
     i \<leftarrow> it_Next (5 + 1) start;
     (t, _) \<leftarrow> it_ReadNtohU16 i h;
     let v = v\<lparr>ls_etherType := t\<rparr> in Some (v, LlcSnapHeader_GetSerializedSize v) }"

section \<open>Ethernet\<close>

record ethernet_header =
  eh_enPreambleSfd :: bool
  eh_preambleSfd :: u64
  eh_lengthType :: u16
  eh_source :: mac_address
  eh_destination :: mac_address

definition EthernetHeader_GetSerializedSize :: "ethernet_header \<Rightarrow> nat" where
  "EthernetHeader_GetSerializedSize v = (if eh_enPreambleSfd v then 8 + 2 + 2 * 6 else 2 + 2 * 6)"

definition EthernetHeader_Serialize :: "ethernet_header \<Rightarrow> buf_iter \<Rightarrow> buf_heap \<Rightarrow> buf_heap option" where
  "EthernetHeader_Serialize v start h = do {
     (i, h) \<leftarrow> (if eh_enPreambleSfd v then it_WriteU64 (eh_preambleSfd v) start h else Some (start, h));
     (i, h) \<leftarrow> WriteTo_Mac48 (eh_destination v) i h;
     (i, h) \<leftarrow> WriteTo_Mac48 (eh_source v) i h;
     (_, h) \<leftarrow> it_WriteHtonU16 (eh_lengthType v) i h;
     Some h }"

text \<open>The preamble that is read is stored in the flag (as \<open>bool\<close>), not in \<open>m_preambleSfd\<close>.\<close>

definition EthernetHeader_Deserialize :: "ethernet_header \<Rightarrow> buf_iter \<Rightarrow> buf_heap \<Rightarrow> (ethernet_header \<times> nat) option" where
  "EthernetHeader_Deserialize v start h = do {
     (v, i) \<leftarrow> (if eh_enPreambleSfd v
       then map_option (\<lambda>(x, i). (v\<lparr>eh_enPreambleSfd := x \<noteq> 0\<rparr>, i)) (it_ReadU64 start h)
       else Some (v, start));
     (d, i) \<leftarrow> ReadFrom_Mac48 i h;
     (s, i) \<leftarrow> ReadFrom_Mac48 i h;
     (t, _) \<leftarrow> it_ReadNtohU16 i h;
     let v = v\<lparr>eh_destination := d, eh_source := s, eh_lengthType := t\<rparr> in
     Some (v, EthernetHeader_GetSerializedSize v) }"

record ethernet_trailer =
  et_calcFcs :: bool
  et_fcs :: u32

definition EthernetTrailer_GetSerializedSize :: "ethernet_trailer \<Rightarrow> nat" where
  "EthernetTrailer_GetSerializedSize v = 4"

definition EthernetTrailer_Serialize :: "ethernet_trailer \<Rightarrow> buf_iter \<Rightarrow> buf_heap \<Rightarrow> buf_heap option" where
  "EthernetTrailer_Serialize v end_it h = do {
     i \<leftarrow> it_Prev (EthernetTrailer_GetSerializedSize v) end_it;
     (_, h) \<leftarrow> it_WriteU32 (et_fcs v) i h;
     Some h }"

definition EthernetTrailer_Deserialize :: "ethernet_trailer \<Rightarrow> buf_iter \<Rightarrow> buf_heap \<Rightarrow> (ethernet_trailer \<times> nat) option" where
  "EthernetTrailer_Deserialize v end_it h = do {
     i \<leftarrow> it_Prev (EthernetTrailer_GetSerializedSize v) end_it;
     (x, _) \<leftarrow> it_ReadU32 i h;
     Some (v\<lparr>et_fcs := x\<rparr>, EthernetTrailer_GetSerializedSize v) }"

text \<open>\<open>len\<close> is the size as an \<open>int\<close>; the bytes are copied to an array of that length.\<close>

definition packet_crc :: "nat \<Rightarrow> packet_world \<Rightarrow> u32 option" where
  "packet_crc p w = do {
     len \<leftarrow> pk_GetSize p w;
     (_, buffer) \<leftarrow> pk_CopyData p len w;
     Some (CRC32Calculate buffer) }"

definition CheckFcs :: "ethernet_trailer \<Rightarrow> nat \<Rightarrow> packet_world \<Rightarrow> bool option" where
  "CheckFcs v p w = (if \<not> et_calcFcs v then Some True else map_option (\<lambda>crc. et_fcs v = crc) (packet_crc p w))"

definition CalcFcs :: "ethernet_trailer \<Rightarrow> nat \<Rightarrow> packet_world \<Rightarrow> ethernet_trailer option" where
  "CalcFcs v p w = (if \<not> et_calcFcs v then Some v else map_option (\<lambda>crc. v\<lparr>et_fcs := crc\<rparr>) (packet_crc p w))"

section \<open>Sequences of writes and reads\<close>

definition writes :: "(buf_iter \<Rightarrow> buf_heap \<Rightarrow> (buf_iter \<times> buf_heap) option) \<Rightarrow> u8 list \<Rightarrow> bool" where
  "writes f bs \<longleftrightarrow> (\<forall>h b B v. bufs_ok h (add_mset b B) \<longrightarrow> writable b B v (length bs) \<longrightarrow>
     (\<exists>h'. f (it_Construct b v) h = Some (it_Construct b (v + length bs), h') \<and> wrote h h' b B v bs))"

definition reads :: "(buf_iter \<Rightarrow> buf_heap \<Rightarrow> ('x \<times> buf_iter) option) \<Rightarrow> u8 list \<Rightarrow> 'x \<Rightarrow> bool" where
  "reads g bs x \<longleftrightarrow> (\<forall>h b B v. bufs_ok h (add_mset b B) \<longrightarrow> bb_start b \<le> v \<longrightarrow> v + length bs \<le> bb_end b \<longrightarrow>
     slice h b v (length bs) = bs \<longrightarrow> g (it_Construct b v) h = Some (x, it_Construct b (v + length bs)))"

lemma writes_bind:
  assumes f: "writes f us" and g: "writes g vs"
  shows "writes (\<lambda>it h. do { (it, h) \<leftarrow> f it h; g it h }) (us @ vs)"
  unfolding writes_def
proof (intro allI impI)
  fix h b B v assume ok: "bufs_ok h (add_mset b B)" and wr: "writable b B v (length (us @ vs))"
  have w: "writable b B v (length us)" "writable b B (v + length us) (length vs)"
    using writable_split [of b B v "length us" "length vs"] wr by simp_all
  obtain h1 where h1: "f (it_Construct b v) h = Some (it_Construct b (v + length us), h1)" "wrote h h1 b B v us"
    using f ok w(1) unfolding writes_def by blast
  have ok1: "bufs_ok h1 (add_mset b B)" using h1(2) by (simp add: wrote_def)
  obtain h2 where h2: "g (it_Construct b (v + length us)) h1 = Some (it_Construct b (v + length us + length vs), h2)"
    "wrote h1 h2 b B (v + length us) vs" using g ok1 w(2) unfolding writes_def by blast
  have "wrote h h2 b B v (us @ vs)"
    by (rule wrote_trans [OF ok h1(2) h2(2)]) (use wr in \<open>auto simp: writable_def\<close>)
  then show "\<exists>h'. do { (it, h) \<leftarrow> f (it_Construct b v) h; g it h }
      = Some (it_Construct b (v + length (us @ vs)), h') \<and> wrote h h' b B v (us @ vs)"
    using h1(1) h2(1) by (simp add: add.assoc)
qed

lemma reads_bind:
  assumes f: "reads f us x" and g: "reads (g x) vs y"
  shows "reads (\<lambda>it h. do { (x, it) \<leftarrow> f it h; g x it h }) (us @ vs) y"
  unfolding reads_def
proof (intro allI impI)
  fix h b B v assume ok: "bufs_ok h (add_mset b B)" and v: "bb_start b \<le> v" "v + length (us @ vs) \<le> bb_end b"
    and bytes: "slice h b v (length (us @ vs)) = us @ vs"
  have "take (length us) (slice h b v (length us + length vs)) = us" using bytes by simp
  then have u1: "slice h b v (length us) = us" by simp
  have "drop (length us) (slice h b v (length us + length vs)) = vs" using bytes by simp
  then have u2: "slice h b (v + length us) (length vs) = vs" using v(1)
    by (simp add: drop_take add.commute)
  have "f (it_Construct b v) h = Some (x, it_Construct b (v + length us))"
    using f [unfolded reads_def, rule_format, OF ok v(1) _ u1] v(2) by simp
  moreover have "g x (it_Construct b (v + length us)) h = Some (y, it_Construct b (v + length us + length vs))"
    using g [unfolded reads_def, rule_format, OF ok _ _ u2] v by simp
  ultimately show "do { (x, it) \<leftarrow> f (it_Construct b v) h; g x it h } = Some (y, it_Construct b (v + length (us @ vs)))"
    by (simp add: add.assoc)
qed

lemma writes_none: "writes (\<lambda>it h. Some (it, h)) []"
  by (simp add: writes_def wrote_def)

lemma reads_none: "reads (\<lambda>it h. Some (x, it)) [] x"
  by (simp add: reads_def)

lemma writes_bytes: "writes (it_WriteBytes bs) bs" "writes (write_hton bs) bs" "writes (it_Write bs) bs"
  using WriteBytes_ok write_hton_ok Write_ok by (simp_all add: writes_def)

lemma reads_bytes: "length bs = n \<Longrightarrow> reads (it_Read n) bs bs"
  unfolding reads_def using Read_ok by metis

lemma reads_lsb: "length bs = n \<Longrightarrow> reads (it_ReadLsb n) bs (from_lsb bs)"
  unfolding reads_def using ReadLsb_ok by metis

lemma reads_ntoh: "length bs = n \<Longrightarrow> reads (read_ntoh n (it_ReadMsb n)) bs (from_msb bs)"
  unfolding reads_def using read_ntoh_ok by metis

lemma reads_map: "reads f bs x \<Longrightarrow> reads (\<lambda>it h. map_option (\<lambda>(x, it). (k x, it)) (f it h)) bs (k x)"
  by (simp add: reads_def)

section \<open>The bytes of a header\<close>

definition llc_bytes :: "llc_snap_header \<Rightarrow> u8 list" where
  "llc_bytes v = [0xaa, 0xaa, 0x03, 0, 0, 0] @ rev (to_lsb 2 (ls_etherType v))"

definition eth_bytes :: "ethernet_header \<Rightarrow> u8 list" where
  "eth_bytes v = (if eh_enPreambleSfd v then to_lsb 8 (eh_preambleSfd v) else [])
     @ eh_destination v @ eh_source v @ rev (to_lsb 2 (eh_lengthType v))"

definition fcs_bytes :: "ethernet_trailer \<Rightarrow> u8 list" where
  "fcs_bytes v = to_lsb 4 (et_fcs v)"

definition macs_ok :: "ethernet_header \<Rightarrow> bool" where
  "macs_ok v \<longleftrightarrow> length (eh_source v) = 6 \<and> length (eh_destination v) = 6"

lemma reads_hton16: "reads it_ReadNtohU16 (rev (to_lsb 2 (x :: u16))) x"
  using reads_ntoh [of "rev (to_lsb 2 x)" 2, where 'a=16] by (simp add: readers from_msb_rev)

lemma reads_u32: "reads it_ReadU32 (to_lsb 4 x) x"
  using reads_lsb [of "to_lsb 4 x" 4, where 'a=32] by (simp add: readers)

lemma reads_u64: "reads it_ReadU64 (to_lsb 8 x) x"
  using reads_lsb [of "to_lsb 8 x" 8, where 'a=64] by (simp add: readers)

lemma reads_skip: "length bs = n \<Longrightarrow> reads (\<lambda>it h. map_option (Pair ()) (it_Next n it)) bs ()"
proof -
  have "it_Next n (it_Construct b v) = Some (it_Construct b (v + n))"
    if "bufs_ok h (add_mset b B)" "v + n \<le> bb_end b" for h b B v
    using that bufs_ok_bounds(4) [OF that(1)] by (simp add: it_Next_def)
  then show "length bs = n \<Longrightarrow> reads (\<lambda>it h. map_option (Pair ()) (it_Next n it)) bs ()"
    by (auto simp: reads_def)
qed

text \<open>What the functions do, with the iterator at the end.\<close>

lemma llc_writes: "\<exists>f. writes f (llc_bytes v) \<and> LlcSnapHeader_Serialize v = (\<lambda>it h. map_option snd (f it h))"
proof (intro exI conjI)
  show "writes (\<lambda>it h. do { (i, h) \<leftarrow> it_Write [0xaa, 0xaa, 0x03, 0, 0, 0] it h; it_WriteHtonU16 (ls_etherType v) i h }) (llc_bytes v)"
    unfolding llc_bytes_def writers by (intro writes_bind writes_bytes)
qed (simp add: fun_eq_iff LlcSnapHeader_Serialize_def Option.map_option_bind o_def case_prod_unfold map_conv_bind_option)

lemma llc_reads:
  "\<exists>f. reads f (llc_bytes v) (v0\<lparr>ls_etherType := ls_etherType v\<rparr>)
     \<and> LlcSnapHeader_Deserialize v0 = (\<lambda>it h. map_option (\<lambda>(r, _). (r, 8)) (f it h))"
proof (intro exI conjI)
  show "reads (\<lambda>it h. do { (_, i) \<leftarrow> map_option (Pair ()) (it_Next 6 it);
      (t, i) \<leftarrow> it_ReadNtohU16 i h; Some (v0\<lparr>ls_etherType := t\<rparr>, i) }) (llc_bytes v) (v0\<lparr>ls_etherType := ls_etherType v\<rparr>)"
    using reads_bind [OF reads_skip [of "[0xaa, 0xaa, 0x03, 0, 0, 0]" 6] reads_bind [OF reads_hton16 reads_none]]
    by (simp add: llc_bytes_def)
qed (simp add: fun_eq_iff LlcSnapHeader_Deserialize_def LlcSnapHeader_GetSerializedSize_def Option.map_option_bind
    Option.bind_map_option o_def case_prod_unfold Let_def)

lemma eth_writes:
  "macs_ok v \<Longrightarrow> \<exists>f. writes f (eth_bytes v) \<and> EthernetHeader_Serialize v = (\<lambda>it h. map_option snd (f it h))"
proof (intro exI conjI)
  assume ok: "macs_ok v"
  have "writes (\<lambda>it h. if eh_enPreambleSfd v then it_WriteU64 (eh_preambleSfd v) it h else Some (it, h))
      (if eh_enPreambleSfd v then to_lsb 8 (eh_preambleSfd v) else [])"
    by (simp add: writers writes_bytes writes_none)
  with ok show "writes (\<lambda>it h. do {
       (i, h) \<leftarrow> (if eh_enPreambleSfd v then it_WriteU64 (eh_preambleSfd v) it h else Some (it, h));
       (i, h) \<leftarrow> WriteTo_Mac48 (eh_destination v) i h;
       (i, h) \<leftarrow> WriteTo_Mac48 (eh_source v) i h;
       it_WriteHtonU16 (eh_lengthType v) i h }) (eth_bytes v)"
    unfolding eth_bytes_def writers WriteTo_Mac48_def macs_ok_def by (intro writes_bind) (simp_all add: writes_bytes)
qed (simp add: fun_eq_iff EthernetHeader_Serialize_def Option.map_option_bind o_def case_prod_unfold map_conv_bind_option)

text \<open>Reading a header with a preamble leaves \<open>m_preambleSfd\<close> alone and may clear the flag.\<close>

definition eth_read :: "ethernet_header \<Rightarrow> ethernet_header \<Rightarrow> ethernet_header" where
  "eth_read v0 v = v0\<lparr>eh_enPreambleSfd := eh_enPreambleSfd v \<and> eh_preambleSfd v \<noteq> 0,
     eh_destination := eh_destination v, eh_source := eh_source v, eh_lengthType := eh_lengthType v\<rparr>"

lemma eth_reads:
  assumes ok: "macs_ok v" and flag: "eh_enPreambleSfd v0 = eh_enPreambleSfd v"
  shows "\<exists>f. reads f (eth_bytes v) (eth_read v0 v)
     \<and> EthernetHeader_Deserialize v0 = (\<lambda>it h. map_option (\<lambda>(r, _). (r, EthernetHeader_GetSerializedSize r)) (f it h))"
proof (intro exI conjI)
  let ?pre = "if eh_enPreambleSfd v then to_lsb 8 (eh_preambleSfd v) else []"
  let ?v1 = "v0\<lparr>eh_enPreambleSfd := eh_enPreambleSfd v \<and> eh_preambleSfd v \<noteq> 0\<rparr>"
  have pre: "reads (\<lambda>it h. if eh_enPreambleSfd v0
      then map_option (\<lambda>(x, i). (v0\<lparr>eh_enPreambleSfd := x \<noteq> 0\<rparr>, i)) (it_ReadU64 it h) else Some (v0, it)) ?pre ?v1"
  proof (cases "eh_enPreambleSfd v")
    case True
    then show ?thesis using flag reads_map [OF reads_u64, of "\<lambda>x. v0\<lparr>eh_enPreambleSfd := x \<noteq> 0\<rparr>"] by simp
  next
    case False
    then show ?thesis using flag reads_none [of v0] by (cases v0) simp
  qed
  have d: "reads ReadFrom_Mac48 (eh_destination v) (eh_destination v)" "reads ReadFrom_Mac48 (eh_source v) (eh_source v)"
    using ok unfolding macs_ok_def ReadFrom_Mac48_def by (blast intro: reads_bytes)+
  show "reads (\<lambda>it h. do {
      (w, i) \<leftarrow> (if eh_enPreambleSfd v0
        then map_option (\<lambda>(x, i). (v0\<lparr>eh_enPreambleSfd := x \<noteq> 0\<rparr>, i)) (it_ReadU64 it h) else Some (v0, it));
      (d, i) \<leftarrow> ReadFrom_Mac48 i h; (s, i) \<leftarrow> ReadFrom_Mac48 i h; (t, i) \<leftarrow> it_ReadNtohU16 i h;
      Some (w\<lparr>eh_destination := d, eh_source := s, eh_lengthType := t\<rparr>, i) }) (eth_bytes v) (eth_read v0 v)"
    using reads_bind [OF pre reads_bind [OF d(1) reads_bind [OF d(2) reads_bind [OF reads_hton16 reads_none]]],
        of "\<lambda>w d s t. w\<lparr>eh_destination := d, eh_source := s, eh_lengthType := t\<rparr>" "eh_lengthType v"]
    by (simp add: eth_bytes_def eth_read_def)
qed (simp add: fun_eq_iff EthernetHeader_Deserialize_def Option.map_option_bind o_def case_prod_unfold Let_def)

section \<open>The classes\<close>

datatype header_value = Llc llc_snap_header | Eth ethernet_header | Fcs ethernet_trailer

definition llc_class :: "header_value header_class" where
  "llc_class = \<lparr>
     hd_GetSerializedSize = (\<lambda>v. case v of Llc x \<Rightarrow> LlcSnapHeader_GetSerializedSize x | _ \<Rightarrow> 0),
     hd_Serialize = (\<lambda>v it h. case v of Llc x \<Rightarrow> LlcSnapHeader_Serialize x it h | _ \<Rightarrow> None),
     hd_Deserialize = (\<lambda>v it h. case v of Llc x \<Rightarrow>
       map_option (\<lambda>(x, n). (Llc x, n)) (LlcSnapHeader_Deserialize x it h) | _ \<Rightarrow> None)\<rparr>"

definition eth_class :: "header_value header_class" where
  "eth_class = \<lparr>
     hd_GetSerializedSize = (\<lambda>v. case v of Eth x \<Rightarrow> EthernetHeader_GetSerializedSize x | _ \<Rightarrow> 0),
     hd_Serialize = (\<lambda>v it h. case v of Eth x \<Rightarrow> EthernetHeader_Serialize x it h | _ \<Rightarrow> None),
     hd_Deserialize = (\<lambda>v it h. case v of Eth x \<Rightarrow>
       map_option (\<lambda>(x, n). (Eth x, n)) (EthernetHeader_Deserialize x it h) | _ \<Rightarrow> None)\<rparr>"

definition fcs_class :: "header_value header_class" where
  "fcs_class = \<lparr>
     hd_GetSerializedSize = (\<lambda>v. case v of Fcs x \<Rightarrow> EthernetTrailer_GetSerializedSize x | _ \<Rightarrow> 0),
     hd_Serialize = (\<lambda>v it h. case v of Fcs x \<Rightarrow> EthernetTrailer_Serialize x it h | _ \<Rightarrow> None),
     hd_Deserialize = (\<lambda>v it h. case v of Fcs x \<Rightarrow>
       map_option (\<lambda>(x, n). (Fcs x, n)) (EthernetTrailer_Deserialize x it h) | _ \<Rightarrow> None)\<rparr>"

text \<open>Ethernet headers without a preamble; with one, \<open>Deserialize\<close> does not restore the header.\<close>

definition network_headers :: "header_value header_spec" where
  "network_headers = \<lparr>
     hs_headers = {llc_class, eth_class},
     hs_trailers = {fcs_class},
     hs_valid = (\<lambda>c v. case v of Llc x \<Rightarrow> c = llc_class
       | Eth x \<Rightarrow> c = eth_class \<and> macs_ok x \<and> \<not> eh_enPreambleSfd x | Fcs x \<Rightarrow> c = fcs_class),
     hs_enc = (\<lambda>c v. case v of Llc x \<Rightarrow> llc_bytes x | Eth x \<Rightarrow> eth_bytes x | Fcs x \<Rightarrow> fcs_bytes x),
     hs_read = (\<lambda>c v0 v. case (v0, v) of
         (Llc x0, Llc x) \<Rightarrow> Llc (x0\<lparr>ls_etherType := ls_etherType x\<rparr>)
       | (Eth x0, Eth x) \<Rightarrow> Eth (eth_read x0 x)
       | (Fcs x0, Fcs x) \<Rightarrow> Fcs (x0\<lparr>et_fcs := et_fcs x\<rparr>)
       | _ \<Rightarrow> v0)\<rparr>"

lemma classes_distinct: "llc_class \<noteq> eth_class" "llc_class \<noteq> fcs_class" "eth_class \<noteq> fcs_class"
proof -
  have l: "hd_GetSerializedSize llc_class (Llc x) = 8" "hd_GetSerializedSize eth_class (Llc x) = 0"
    "hd_GetSerializedSize fcs_class (Llc x) = 0" for x
    by (simp_all add: llc_class_def eth_class_def fcs_class_def LlcSnapHeader_GetSerializedSize_def)
  have f: "hd_GetSerializedSize eth_class (Fcs x) = 0" "hd_GetSerializedSize fcs_class (Fcs x) = 4" for x
    by (simp_all add: eth_class_def fcs_class_def EthernetTrailer_GetSerializedSize_def)
  show "llc_class \<noteq> eth_class" "llc_class \<noteq> fcs_class" using l by (metis zero_neq_numeral)+
  show "eth_class \<noteq> fcs_class" using f by (metis zero_neq_numeral)
qed

text \<open>From the sequences of writes and reads to the laws of a header.\<close>

lemma header_written:
  assumes "\<exists>f. writes f bs \<and> ser = (\<lambda>it h. map_option snd (f it h))"
    and "bufs_ok h (add_mset b B)" "writable b B (bb_start b) (length bs)"
  shows "\<exists>h'. ser (buf_Begin b) h = Some h' \<and> wrote h h' b B (bb_start b) bs"
proof -
  from assms(1) obtain f where f: "writes f bs" "ser = (\<lambda>it h. map_option snd (f it h))" by blast
  from f(1) [unfolded writes_def, rule_format, OF assms(2,3)] f(2) show ?thesis by (auto simp: buf_Begin_def)
qed

lemma header_found:
  assumes "\<exists>f. reads f bs r \<and> des = (\<lambda>it h. map_option (\<lambda>(r, _). (r, sz r)) (f it h))"
    and ok: "bufs_ok h (add_mset b B)" and con: "contents h b = bs @ xs"
  shows "des (buf_Begin b) h = Some (r, sz r)"
proof -
  from assms(1) obtain f where f: "reads f bs r" "des = (\<lambda>it h. map_option (\<lambda>(r, _). (r, sz r)) (f it h))" by blast
  have "bb_start b + length bs \<le> bb_end b" using bufs_ok_size(1,2) [OF ok] bufs_ok_bounds [OF ok] con by simp
  moreover have "slice h b (bb_start b) (length bs) = bs" using con by simp
  ultimately have "f (buf_Begin b) h = Some (r, it_Construct b (bb_start b + length bs))"
    using f(1) [unfolded reads_def, rule_format, OF ok] by (simp add: buf_Begin_def)
  then show ?thesis using f(2) by simp
qed

lemma Prev_End: "bufs_ok h (add_mset b B) \<Longrightarrow> n \<le> bb_end b \<Longrightarrow> it_Prev n (buf_End b) = Some (it_Construct b (bb_end b - n))"
  using bufs_ok_bounds(4) [of h b B] by (simp add: it_Prev_def buf_End_def)

lemma fcs_written:
  assumes ok: "bufs_ok h (add_mset b B)" and n: "4 \<le> bb_end b" and wr: "writable b B (bb_end b - 4) 4"
  shows "\<exists>h'. EthernetTrailer_Serialize v (buf_End b) h = Some h' \<and> wrote h h' b B (bb_end b - 4) (fcs_bytes v)"
  using WriteBytes_ok [OF ok, of "bb_end b - 4" "fcs_bytes v"] wr Prev_End [OF ok n]
  by (auto simp: EthernetTrailer_Serialize_def EthernetTrailer_GetSerializedSize_def writers fcs_bytes_def)

lemma fcs_found:
  assumes ok: "bufs_ok h (add_mset b B)" and con: "contents h b = xs @ fcs_bytes v"
  shows "EthernetTrailer_Deserialize v0 (buf_End b) h = Some (v0\<lparr>et_fcs := et_fcs v\<rparr>, 4)"
proof -
  have len: "bb_end b - bb_start b = length xs + 4" using bufs_ok_size(1,2) [OF ok] con by (simp add: fcs_bytes_def)
  then have n: "4 \<le> bb_end b" "bb_start b \<le> bb_end b - 4" "bb_end b - 4 + 4 \<le> bb_end b" "bb_end b - 4 - bb_start b = length xs"
    by linarith+
  have "slice h b (bb_end b - 4) (length (fcs_bytes v)) = fcs_bytes v" using con n(4) by (simp add: fcs_bytes_def)
  then have "it_ReadU32 (it_Construct b (bb_end b - 4)) h = Some (et_fcs v, it_Construct b (bb_end b))"
    using reads_u32 [of "et_fcs v", folded fcs_bytes_def, unfolded reads_def, rule_format, OF ok n(2)] n(1)
    by (simp add: fcs_bytes_def)
  then show ?thesis using Prev_End [OF ok n(1)]
    by (simp add: EthernetTrailer_Deserialize_def EthernetTrailer_GetSerializedSize_def)
qed

lemma bytes_length: "length (llc_bytes x) = 8" "length (fcs_bytes y) = 4"
  "macs_ok z \<Longrightarrow> length (eth_bytes z) = EthernetHeader_GetSerializedSize z"
  by (simp_all add: llc_bytes_def fcs_bytes_def eth_bytes_def macs_ok_def EthernetHeader_GetSerializedSize_def)

lemmas class_defs = llc_class_def eth_class_def fcs_class_def

interpretation nh: packet_classes network_headers
proof
  note cd = classes_distinct classes_distinct [symmetric]
  fix c v assume c: "c \<in> hs_headers network_headers \<union> hs_trailers network_headers" and v: "hs_valid network_headers c v"
  from c v show "hd_GetSerializedSize c v = length (hs_enc network_headers c v)"
    by (cases v) (auto simp: network_headers_def class_defs bytes_length LlcSnapHeader_GetSerializedSize_def
        EthernetTrailer_GetSerializedSize_def)
  from c v show "length (hs_enc network_headers c v) \<le> 2 ^ 31"
    by (cases v) (auto simp: network_headers_def bytes_length EthernetHeader_GetSerializedSize_def)
next
  note cd = classes_distinct classes_distinct [symmetric]
  fix c v h b B
  assume c: "c \<in> hs_headers network_headers" and v: "hs_valid network_headers c v" and ok: "bufs_ok h (add_mset b B)"
    and wr: "writable b B (bb_start b) (length (hs_enc network_headers c v))"
  show "\<exists>h'. hd_Serialize c v (buf_Begin b) h = Some h' \<and> wrote h h' b B (bb_start b) (hs_enc network_headers c v)"
  proof (cases v)
    case (Llc x)
    then show ?thesis using header_written [OF llc_writes ok, of x] c v wr cd by (auto simp: network_headers_def llc_class_def)
  next
    case (Eth x)
    then show ?thesis using header_written [OF eth_writes ok, of x] c v wr cd by (auto simp: network_headers_def eth_class_def)
  next
    case (Fcs x)
    then show ?thesis using c v cd by (auto simp: network_headers_def)
  qed
next
  note cd = classes_distinct classes_distinct [symmetric]
  fix c v v0 h b B xs
  assume c: "c \<in> hs_headers network_headers" and v: "hs_valid network_headers c v" "hs_valid network_headers c v0"
    and ok: "bufs_ok h (add_mset b B)" and con: "contents h b = hs_enc network_headers c v @ xs"
  show "hd_Deserialize c v0 (buf_Begin b) h = Some (hs_read network_headers c v0 v, length (hs_enc network_headers c v))"
  proof (cases v)
    case (Llc x)
    then obtain x0 where "v0 = Llc x0" using v cd by (cases v0) (auto simp: network_headers_def)
    then show ?thesis using header_found [where sz = "\<lambda>_. 8", OF llc_reads ok, of x xs x0] Llc v con cd
      by (auto simp: network_headers_def llc_class_def bytes_length)
  next
    case (Eth x)
    then obtain x0 where "v0 = Eth x0" using v cd by (cases v0) (auto simp: network_headers_def)
    then show ?thesis using header_found [OF eth_reads ok, of x x0 xs] Eth v con cd
      by (auto simp: network_headers_def eth_class_def bytes_length eth_read_def EthernetHeader_GetSerializedSize_def)
  next
    case (Fcs x)
    then show ?thesis using c v cd by (auto simp: network_headers_def)
  qed
next
  note cd = classes_distinct classes_distinct [symmetric]
  fix c v h b B
  let ?n = "length (hs_enc network_headers c v)"
  assume c: "c \<in> hs_trailers network_headers" and v: "hs_valid network_headers c v" and ok: "bufs_ok h (add_mset b B)"
    and n: "?n \<le> bb_end b" and wr: "writable b B (bb_end b - ?n) ?n"
  from c v cd obtain x where x: "v = Fcs x" "c = fcs_class" by (cases v) (auto simp: network_headers_def)
  then have e: "hs_enc network_headers c v = fcs_bytes x" "?n = 4" by (simp_all add: network_headers_def bytes_length)
  have s: "hd_Serialize c v it g = EthernetTrailer_Serialize x it g" for it g by (simp add: x fcs_class_def)
  show "\<exists>h'. hd_Serialize c v (buf_End b) h = Some h' \<and> wrote h h' b B (bb_end b - ?n) (hs_enc network_headers c v)"
    using fcs_written [OF ok, of x] n wr unfolding e s by (simp add: bytes_length)
next
  note cd = classes_distinct classes_distinct [symmetric]
  fix c v v0 h b B xs
  assume c: "c \<in> hs_trailers network_headers" and v: "hs_valid network_headers c v" "hs_valid network_headers c v0"
    and ok: "bufs_ok h (add_mset b B)" and con: "contents h b = xs @ hs_enc network_headers c v"
  from c v cd obtain x where x: "v = Fcs x" "c = fcs_class" by (cases v) (auto simp: network_headers_def)
  from c v cd obtain x0 where x0: "v0 = Fcs x0" by (cases v0) (auto simp: network_headers_def)
  have "contents h b = xs @ fcs_bytes x" using con x by (simp add: network_headers_def)
  from fcs_found [OF ok this, of x0]
  show "hd_Deserialize c v0 (buf_End b) h = Some (hs_read network_headers c v0 v, length (hs_enc network_headers c v))"
    unfolding x x0 by (simp add: network_headers_def fcs_class_def bytes_length)
qed

text \<open>A header with a preamble: the preamble that was sent is not read, and when it is zero, 8 bytes fewer
  are reported than the header has.\<close>

lemma preamble_not_restored:
  assumes "bufs_ok h (add_mset b B)" "contents h b = eth_bytes v @ xs" "macs_ok v" "eh_enPreambleSfd v" "eh_enPreambleSfd v0"
  shows "\<exists>r. EthernetHeader_Deserialize v0 (buf_Begin b) h = Some (r, if eh_preambleSfd v = 0 then 14 else 22)
    \<and> eh_preambleSfd r = eh_preambleSfd v0 \<and> length (eth_bytes v) = 22"
  using header_found [OF eth_reads assms(1), of v v0 xs] assms(2-)
  by (simp add: eth_read_def EthernetHeader_GetSerializedSize_def bytes_length)

section \<open>Properties\<close>

lemmas network_simps = network_headers_def class_defs llc_bytes_def fcs_bytes_def eth_bytes_def macs_ok_def lsb_lists

inductive_cases bspec_NewBytesE: "bspec_step S (NewBytes p bs) A r A'"
inductive_cases bspec_CopyE: "bspec_step S (CopyPacket q p) A r A'"
inductive_cases bspec_AddHeaderE: "bspec_step S (AddHeader p c v) A r A'"
inductive_cases bspec_AddTrailerE: "bspec_step S (AddTrailer p c v) A r A'"
inductive_cases bspec_CopyDataE: "bspec_step S (CopyData p n) A r A'"
inductive_cases bspec_AppendE: "bspec_step S (AppendPacket q p) A r A'"

text \<open>C1: a program of calls on packets with LLC/SNAP headers, Ethernet headers without preamble and
  Ethernet trailers never fails and returns what it would return if every packet were a list of bytes of
  its own, within these bounds: packets have at most \<open>size_limit\<close> bytes, \<open>RemoveAtStart\<close> is asked for at
  most $2^{31}$ bytes and \<open>CopyData\<close> for less than $2^{32}$, headers and trailers are read where one
  of their class was written (\<open>safe\<close>), and a packet is appended to another only when the two do not
  share their data and the appended one does not start with zero area that has bytes behind it
  (\<open>appends_ok\<close>). Within them, sharing the data between copies and fragments, the zero area, growing in
  place and the free list are observable in one way only: the bytes that \<open>AddPaddingAtEnd\<close> adds may be
  any, since the code does not set them to zero as \<open>packet.h\<close> says.\<close>

theorem packets_are_byte_lists:
  assumes "safe network_headers ops Map.empty" "appends_ok ops (packet_world_new g)"
  shows "\<exists>rs w A. byte_run ops (packet_world_new g) = Some (rs, w) \<and> bspec_run network_headers ops Map.empty rs A
    \<and> (\<forall>p. map_option (contents (pw_heap w)) (pw_bufs w p) = A p)"
proof -
  from nh.byte_run_refines [OF packet_world_new_inv assms] obtain rs w A where
    "byte_run ops (packet_world_new g) = Some (rs, w)" "bspec_run network_headers ops Map.empty rs A" "bytes_inv w A"
    by blast
  then show ?thesis by (auto simp: bytes_inv_def)
qed

definition sample_frame :: "header_value byte_op list" where
  "sample_frame =
     [NewBytes 0 [1, 2, 3], NewBytes 2 [9, 8], AppendPacket 2 0, AddHeader 0 llc_class (Llc \<lparr>ls_etherType = 0x86dd\<rparr>), CopyPacket 1 0,
      AddTrailer 1 fcs_class (Fcs \<lparr>et_calcFcs = True, et_fcs = 7\<rparr>), CopyData 1 4, CopyData 2 5,
      RemoveHeader 0 llc_class (Llc \<lparr>ls_etherType = 0\<rparr>)]"

lemma sample_frame_safe: "safe network_headers sample_frame Map.empty"
  by (auto simp: sample_frame_def network_headers_def bytes_length llc_bytes_def fcs_bytes_def
      elim!: bspec_NewBytesE bspec_AddHeaderE bspec_CopyE bspec_AddTrailerE bspec_CopyDataE bspec_AppendE)
    (rule exI [of _ "Llc \<lparr>ls_etherType = 0x86dd\<rparr>"], simp add: llc_bytes_def)

lemmas new_bytes_defs = packet_world_new_def pk_new_bytes_def set_buf_def buf_Initialize_def buf_Create_def
  buf_Allocate_def bh_empty_def upd_data_def mem_read_def mem_write_def buf_AddAtStart_def GetInternalEnd_def
  GetInternalSize_def note_zero_start_def buf_Begin_def it_Construct_def it_Write_def CheckNoZero_def stored_def
  forth_def put_bytes_def map_replicate_const move_buffer_def drop_ref_def buf_Recycle_def set_dirty_def

lemma sample_frame_appends: "appends_ok sample_frame (packet_world_new (\<lambda>_ _. 0))"
proof -
  let ?w = "packet_world_new (\<lambda>_ _. 0)"
  have "case pk_new_bytes 0 [1, 2, 3] ?w of None \<Rightarrow> True | Some w1 \<Rightarrow>
     (case pk_new_bytes 2 [9, 8] w1 of None \<Rightarrow> True | Some w2 \<Rightarrow>
        append_ok (AppendPacket 2 0 :: header_value byte_op) w2)"
    by (simp add: new_bytes_defs zero_first_def Let_def)
  then show ?thesis
    by (auto simp: sample_frame_def no_appends_ok simp del: append_ok.simps(1) split: option.splits)
qed

theorem packets_are_byte_lists_witness:
  "\<exists>rs w A. byte_run sample_frame (packet_world_new (\<lambda>_ _. 0)) = Some (rs, w)
    \<and> bspec_run network_headers sample_frame Map.empty rs A
    \<and> (\<forall>p. map_option (contents (pw_heap w)) (pw_bufs w p) = A p)"
  by (rule packets_are_byte_lists [OF sample_frame_safe sample_frame_appends])

text \<open>The frame check sequence.\<close>

lemma packet_crc_ok:
  assumes inv: "bytes_inv w A" and p: "A p = Some xs"
  shows "packet_crc p w = Some (CRC32Calculate xs)"
proof -
  from inv p obtain b where b: "pw_bufs w p = Some b" "contents (pw_heap w) b = xs"
    "bufs_ok (pw_heap w) (add_mset b (others p w))" by (rule bytes_inv_live)
  have sz: "buf_GetSize b = length xs" "length xs < 2 ^ 32"
    using bufs_ok_size [OF b(3)] b(2) by simp_all
  then show ?thesis using CopyData_ok(1) [OF b(3) sz(2)] b(1,2)
    by (simp add: packet_crc_def pk_GetSize_def pk_CopyData_def)
qed

text \<open>C19: \<open>CheckFcs\<close> accepts the bytes \<open>CalcFcs\<close> was called on, and rejects them when at most four
  consecutive bytes, and at least one, were changed.\<close>

theorem fcs_detects_bursts:
  assumes sent: "bytes_inv w A" "A p = Some (us @ xs @ vs)" and received: "bytes_inv w' A'" "A' q = Some (us @ ys @ vs)"
    and burst: "length xs = length ys" "length xs \<le> 4" and calc: "et_calcFcs v"
  shows "\<exists>v'. CalcFcs v p w = Some v' \<and> CheckFcs (v0\<lparr>et_calcFcs := True, et_fcs := et_fcs v'\<rparr>) q w' = Some (xs = ys)"
  using packet_crc_ok [OF sent] packet_crc_ok [OF received] CRC32_burst [OF burst, of us vs] calc
  by (auto simp: CalcFcs_def CheckFcs_def)

theorem fcs_detects_bursts_witness:
  "\<exists>w w' v'. pk_new_bytes 0 [1, 2, 3] (packet_world_new (\<lambda>_ _. 0)) = Some w
     \<and> pk_new_bytes 0 [1, 9, 3] (packet_world_new (\<lambda>_ _. 0)) = Some w'
     \<and> CalcFcs \<lparr>et_calcFcs = True, et_fcs = 0\<rparr> 0 w = Some v'
     \<and> CheckFcs \<lparr>et_calcFcs = True, et_fcs = et_fcs v'\<rparr> 0 w' = Some False"
proof -
  let ?w0 = "packet_world_new (\<lambda>_ _. 0)"
  have new: "\<exists>w A. pk_new_bytes 0 [1, x, 3] ?w0 = Some w \<and> bytes_inv w A \<and> A 0 = Some ([1] @ [x] @ [3])" for x
    using NewBytes_step [OF packet_world_new_inv, of network_headers 0 "[1, x, 3]" "\<lambda>_ _. 0"]
    by (fastforce elim!: bspec_NewBytesE)
  obtain w A where w: "pk_new_bytes 0 [1, 2, 3] ?w0 = Some w" "bytes_inv w A" "A 0 = Some ([1] @ [2] @ [3])"
    using new by blast
  obtain w' A' where w': "pk_new_bytes 0 [1, 9, 3] ?w0 = Some w'" "bytes_inv w' A'" "A' 0 = Some ([1] @ [9] @ [3])"
    using new by blast
  show ?thesis
    using fcs_detects_bursts [OF w(2,3) w'(2,3), of "\<lparr>et_calcFcs = True, et_fcs = 0\<rparr>" "\<lparr>et_calcFcs = True, et_fcs = 0\<rparr>"]
      w(1) w'(1) by auto
qed

end
