(* ===== verification/CbrLogger.thy ===== *)
theory CbrLogger
  imports StdString
begin

text \<open>
  The channel-busy-ratio logger of \<open>src/cbr-logger.{h,cc}\<close>: the observations it keeps, the busy
  intervals it records per trace context, the pruning of its sliding window and the ratios it
  computes. Simulation time is an argument \<open>now\<close> (seconds); the node filter installed by the
  scenario is an optional predicate, as the \<open>std::function\<close> member is.
\<close>

section \<open>State\<close>

record cbr_obs =
  ob_time :: double
  ob_busy :: bool

record cbr_resource_obs =
  ro_time :: double
  ro_busy :: u32
  ro_total :: u32

record busy_interval =
  startS :: double
  endS :: double

type_synonym node_filter = "u32 \<Rightarrow> double \<Rightarrow> bool"

record cbr_logger =
  cbr_obs_list :: "cbr_obs list"
  cbr_resourceObs :: "cbr_resource_obs list"
  cbr_busyIntervalsByContext :: "(string \<times> busy_interval list) list"
  cbr_nodeEvaluationFilter :: "node_filter option"
  cbr_evaluatedNodeIds :: "u32 list"
  cbr_window :: double
  cbr_step :: double
  cbr_evalStartS :: double
  cbr_evalEndS :: double
  cbr_writeCsv :: bool
  cbr_out :: "(double \<times> double \<times> double) list"

definition cbr_logger_new :: cbr_logger where
  "cbr_logger_new =
     \<lparr>cbr_obs_list = [], cbr_resourceObs = [], cbr_busyIntervalsByContext = [],
      cbr_nodeEvaluationFilter = None, cbr_evaluatedNodeIds = [], cbr_window = 1, cbr_step = 1 / 10,
      cbr_evalStartS = 0, cbr_evalEndS = - 1, cbr_writeCsv = False, cbr_out = []\<rparr>"

definition cbr_Setup_window :: "double \<Rightarrow> cbr_logger \<Rightarrow> cbr_logger" where
  "cbr_Setup_window windowS lg = lg\<lparr>cbr_window := windowS, cbr_writeCsv := False\<rparr>"

definition cbr_Setup :: "bool \<Rightarrow> double \<Rightarrow> double \<Rightarrow> cbr_logger \<Rightarrow> cbr_logger result" where
  \<comment> \<open>the flag says whether the output file could be opened; opening it truncates it\<close>
  "cbr_Setup opened windowS stepS lg =
     (if \<not> opened then Inl (Fatal ''Cannot open CBR output CSV'')
      else Inr (lg\<lparr>cbr_window := windowS, cbr_step := stepS, cbr_writeCsv := True, cbr_out := []\<rparr>))"

definition cbr_SetEvaluationWindow :: "double \<Rightarrow> double \<Rightarrow> cbr_logger \<Rightarrow> cbr_logger" where
  "cbr_SetEvaluationWindow s e lg = lg\<lparr>cbr_evalStartS := s, cbr_evalEndS := e\<rparr>"

definition cbr_SetNodeEvaluationFilter :: "node_filter \<Rightarrow> cbr_logger \<Rightarrow> cbr_logger" where
  "cbr_SetNodeEvaluationFilter f lg = lg\<lparr>cbr_nodeEvaluationFilter := Some f\<rparr>"

definition cbr_SetEvaluatedNodeIds :: "u32 list \<Rightarrow> cbr_logger \<Rightarrow> cbr_logger" where
  "cbr_SetEvaluatedNodeIds ids lg = lg\<lparr>cbr_evaluatedNodeIds := oset_of ids\<rparr>"

section \<open>Filters\<close>

definition cbr_IsInsideEvaluationWindow :: "cbr_logger \<Rightarrow> double \<Rightarrow> bool" where
  "cbr_IsInsideEvaluationWindow lg timeS \<longleftrightarrow>
     cbr_evalStartS lg \<le> timeS \<and> (cbr_evalEndS lg < 0 \<or> timeS \<le> cbr_evalEndS lg)"

definition TryParseNodeId :: "string \<Rightarrow> u32 option" where
  "TryParseNodeId context =
     (let marker = ''/NodeList/'' in
      case str_find marker context of
        None \<Rightarrow> None
      | Some start \<Rightarrow>
          (let idStart = start + length marker;
               idText = (case str_find_from ''/'' context idStart of
                           None \<Rightarrow> drop idStart context
                         | Some idEnd \<Rightarrow> take (idEnd - idStart) (drop idStart context));
               r = strtoul10 idText
           in if idText = [] then None
              else if \<not> ul_converted r \<or> ul_end r \<noteq> [] then None
              else Some (ucast (ul_value r))))"

definition filter_accepts :: "cbr_logger \<Rightarrow> u32 \<Rightarrow> double \<Rightarrow> bool" where
  "filter_accepts lg nodeId timeS =
     (case cbr_nodeEvaluationFilter lg of None \<Rightarrow> True | Some f \<Rightarrow> f nodeId timeS)"

definition ShouldRecordContext :: "cbr_logger \<Rightarrow> string \<Rightarrow> double \<Rightarrow> bool" where
  "ShouldRecordContext lg context timeS =
     (if \<not> cbr_IsInsideEvaluationWindow lg timeS then False
      else case cbr_nodeEvaluationFilter lg of
             None \<Rightarrow> True
           | Some f \<Rightarrow>
               (case TryParseNodeId context of None \<Rightarrow> False | Some nodeId \<Rightarrow> f nodeId timeS))"

section \<open>Pruning and recording\<close>

definition cbr_Prune :: "double \<Rightarrow> cbr_logger \<Rightarrow> cbr_logger" where
  "cbr_Prune now lg =
     (let cutoff = now - cbr_window lg in
      lg\<lparr>cbr_obs_list := dropWhile (\<lambda>o'. ob_time o' < cutoff) (cbr_obs_list lg),
         cbr_resourceObs := dropWhile (\<lambda>o'. ro_time o' < cutoff) (cbr_resourceObs lg),
         cbr_busyIntervalsByContext :=
           map (\<lambda>(c, is). (c, dropWhile (\<lambda>i. endS i < cutoff) is))
             (cbr_busyIntervalsByContext lg)\<rparr>)"

definition RecordObservation :: "double \<Rightarrow> bool \<Rightarrow> cbr_logger \<Rightarrow> cbr_logger" where
  "RecordObservation timeS busy lg =
     (if \<not> cbr_IsInsideEvaluationWindow lg timeS then lg
      else cbr_Prune timeS
        (lg\<lparr>cbr_obs_list := cbr_obs_list lg @ [\<lparr>ob_time = timeS, ob_busy = busy\<rparr>]\<rparr>))"

definition RecordResourceObservation :: "double \<Rightarrow> u32 \<Rightarrow> u32 \<Rightarrow> cbr_logger \<Rightarrow> cbr_logger" where
  "RecordResourceObservation timeS busyResources totalResources lg =
     (if \<not> cbr_IsInsideEvaluationWindow lg timeS then lg
      else if totalResources = 0 then lg
      else cbr_Prune timeS
        (lg\<lparr>cbr_resourceObs := cbr_resourceObs lg @
              [\<lparr>ro_time = timeS, ro_busy = min busyResources totalResources,
                ro_total = totalResources\<rparr>]\<rparr>))"

definition RecordSensingAlgorithm ::
    "double \<Rightarrow> string \<Rightarrow> u32 \<Rightarrow> nat \<Rightarrow> cbr_logger \<Rightarrow> cbr_logger" where
  \<comment> \<open>of the report and the candidate list the code reads two numbers: the initial size and the
    number of candidates (whose size is converted to \<open>uint32_t\<close> by \<open>std::min<uint32_t>\<close>)\<close>
  "RecordSensingAlgorithm now context initialSize candidates lg =
     (if \<not> ShouldRecordContext lg context now then lg
      else if initialSize = 0 then lg
      else (let availableResources = min (of_nat candidates) initialSize;
                busyResources = initialSize - availableResources
            in RecordResourceObservation now busyResources initialSize lg))"

definition seconds_of_ns :: "int \<Rightarrow> double" where
  \<comment> \<open>\<open>Time::GetSeconds\<close> at the default nanosecond resolution\<close>
  "seconds_of_ns t = real_of_int t / 1000000000"

definition RecordChannelOccupied :: "double \<Rightarrow> string \<Rightarrow> int \<Rightarrow> cbr_logger \<Rightarrow> cbr_logger" where
  "RecordChannelOccupied now context duration lg =
     (if \<not> ShouldRecordContext lg context now then lg
      else if duration = 0 \<or> duration < 0 then lg
      else let interval = \<lparr>startS = now, endS = now + seconds_of_ns duration\<rparr>;
               m = cbr_busyIntervalsByContext lg
           in cbr_Prune now
                (lg\<lparr>cbr_busyIntervalsByContext :=
                      omap_put context (omap_get [] m context @ [interval]) m\<rparr>))"

section \<open>The ratios\<close>

definition window_obs :: "('a \<Rightarrow> double) \<Rightarrow> double \<Rightarrow> double \<Rightarrow> 'a list \<Rightarrow> 'a list" where
  "window_obs t cutoff now xs = filter (\<lambda>x. cutoff \<le> t x \<and> t x \<le> now) xs"

definition ComputeSensingCbr :: "cbr_logger \<Rightarrow> double \<Rightarrow> double" where
  "ComputeSensingCbr lg now =
     (let cutoff = now - cbr_window lg;
          rs = window_obs ro_time cutoff now (cbr_resourceObs lg);
          busy = foldl (\<lambda>n x. n + ucast (ro_busy x)) (0::u64) rs;
          total = foldl (\<lambda>n x. n + ucast (ro_total x)) (0::u64) rs;
          os = window_obs ob_time cutoff now (cbr_obs_list lg);
          scalarTotal = length os;
          scalarBusy = length (filter ob_busy os)
      in if 0 < total then real (unat busy) / real (unat total)
         else if 0 < scalarTotal then real scalarBusy / real scalarTotal
         else - 1)"

fun merge_loop :: "double \<Rightarrow> double \<Rightarrow> double \<Rightarrow> busy_interval list \<Rightarrow> double" where
  "merge_loop busyS mergedStart mergedEnd [] = busyS + (mergedEnd - mergedStart)"
| "merge_loop busyS mergedStart mergedEnd (i # is) =
     (if startS i \<le> mergedEnd
      then merge_loop busyS mergedStart (max mergedEnd (endS i)) is
      else merge_loop (busyS + (mergedEnd - mergedStart)) (startS i) (endS i) is)"

definition clip_intervals :: "double \<Rightarrow> double \<Rightarrow> busy_interval list \<Rightarrow> busy_interval list" where
  "clip_intervals cutoff now is =
     filter (\<lambda>i. startS i < endS i)
       (map (\<lambda>i. \<lparr>startS = max (startS i) cutoff, endS = min (endS i) now\<rparr>) is)"

definition ComputeBusyFractionForContext ::
    "double \<Rightarrow> busy_interval list \<Rightarrow> double \<Rightarrow> double" where
  "ComputeBusyFractionForContext window intervals now =
     (let cutoff = now - window in
      case sort_key startS (clip_intervals cutoff now intervals) of
        [] \<Rightarrow> 0
      | c # cs \<Rightarrow> min 1 (merge_loop 0 (startS c) (endS c) cs / window))"

definition accumulate_context ::
    "cbr_logger \<Rightarrow> double \<Rightarrow> string \<times> busy_interval list \<Rightarrow> (u32 \<times> double \<times> nat) list
       \<Rightarrow> (u32 \<times> double \<times> nat) list" where
  "accumulate_context lg now kv m =
     (case TryParseNodeId (fst kv) of
        None \<Rightarrow> m
      | Some nodeId \<Rightarrow>
          if \<not> filter_accepts lg nodeId now then m
          else let aggregate = omap_get (0, 0) m nodeId in
               omap_put nodeId
                 (fst aggregate + ComputeBusyFractionForContext (cbr_window lg) (snd kv) now,
                  snd aggregate + 1) m)"

definition busyFractionByNode :: "cbr_logger \<Rightarrow> double \<Rightarrow> (u32 \<times> double \<times> nat) list" where
  "busyFractionByNode lg now =
     fold (accumulate_context lg now) (cbr_busyIntervalsByContext lg) []"

definition ComputeChannelOccupiedCbr :: "cbr_logger \<Rightarrow> double \<Rightarrow> double" where
  "ComputeChannelOccupiedCbr lg now =
     (let byNode = busyFractionByNode lg now;
          cbrSum = (\<Sum>(n, s, c)\<leftarrow>byNode. if 0 < c then s / real c else 0)
      in if cbr_evaluatedNodeIds lg \<noteq> [] then
           (let denominator = length (filter (\<lambda>n. filter_accepts lg n now)
                                        (cbr_evaluatedNodeIds lg))
            in if 0 < denominator then cbrSum / real denominator else 0)
         else if byNode = [] then 0
         else cbrSum / real (length byNode))"

definition ComputeCbr :: "double \<Rightarrow> cbr_logger \<Rightarrow> double \<times> cbr_logger" where
  "ComputeCbr now lg =
     (let lg' = cbr_Prune now lg in (min 1 (max 0 (ComputeChannelOccupiedCbr lg' now)), lg'))"

definition ComputeSensingExclusionRatio :: "double \<Rightarrow> cbr_logger \<Rightarrow> double \<times> cbr_logger" where
  "ComputeSensingExclusionRatio now lg =
     (let lg' = cbr_Prune now lg; sensingRatio = ComputeSensingCbr lg' now
      in (if 0 \<le> sensingRatio then min 1 (max 0 sensingRatio) else 0, lg'))"

definition cbr_Sample :: "double \<Rightarrow> cbr_logger \<Rightarrow> cbr_logger \<times> double" where
  \<comment> \<open>the second component is the delay after which the code schedules the next sample\<close>
  "cbr_Sample now lg =
     (let (cbr, lg1) = ComputeCbr now lg;
          (ratio, lg2) = ComputeSensingExclusionRatio now lg1
      in (if cbr_writeCsv lg2 \<and> cbr_IsInsideEvaluationWindow lg2 now
          then lg2\<lparr>cbr_out := cbr_out lg2 @ [(now, cbr, ratio)]\<rparr> else lg2,
          cbr_step lg2))"

definition cbr_Start :: "cbr_logger \<Rightarrow> double option" where
  "cbr_Start lg = (if cbr_writeCsv lg then Some (cbr_step lg) else None)"

section \<open>Merging intervals: the time covered\<close>

text \<open>
  The reference notion says nothing of clipping, sorting or merging. A recorded interval is busy from its
  start up to, not including, its end; \<open>busy_instants\<close> are the instants of the window at which some
  recorded interval is busy. However such a set of instants is written as consecutive half-open
  intervals, their lengths have the same sum (\<open>consecutive_total\<close>), which is the busy time.
\<close>

definition covered :: "busy_interval list \<Rightarrow> real set" where
  "covered is = {t. \<exists>i \<in> set is. startS i \<le> t \<and> t < endS i}"

definition busy_instants :: "double \<Rightarrow> busy_interval list \<Rightarrow> double \<Rightarrow> real set" where
  "busy_instants window is now = {t. now - window \<le> t \<and> t < now \<and> (\<exists>i \<in> set is. startS i \<le> t \<and> t < endS i)}"

definition spanned :: "(real \<times> real) list \<Rightarrow> real set" where
  "spanned ms = (\<Union>p \<in> set ms. {fst p..<snd p})"

definition consecutive :: "(real \<times> real) list \<Rightarrow> bool" where
  "consecutive ms \<longleftrightarrow> sorted_wrt (\<lambda>p q. snd p \<le> fst q) ms \<and> (\<forall>p \<in> set ms. fst p \<le> snd p)"

definition total_length :: "(real \<times> real) list \<Rightarrow> real" where
  "total_length ms = (\<Sum>p\<leftarrow>ms. snd p - fst p)"

fun merged :: "real \<Rightarrow> real \<Rightarrow> busy_interval list \<Rightarrow> (real \<times> real) list" where
  "merged s e [] = [(s, e)]"
| "merged s e (i # is) =
     (if startS i \<le> e then merged s (max e (endS i)) is
      else (s, e) # merged (startS i) (endS i) is)"

lemma merge_loop_total: "merge_loop b s e is = b + total_length (merged s e is)"
  by (induction s e "is" arbitrary: b rule: merged.induct) (simp_all add: total_length_def)

lemma covered_simps [simp]:
  "covered [] = {}" "covered (i # is) = {startS i..<endS i} \<union> covered is"
  by (auto simp: covered_def)

lemma spanned_simps [simp]: "spanned [] = {}" "spanned (p # ms) = {fst p..<snd p} \<union> spanned ms"
  by (simp_all add: spanned_def)

lemma total_length_simps [simp]: "total_length [] = 0" "total_length (p # ms) = snd p - fst p + total_length ms"
  by (simp_all add: total_length_def)

lemma consecutive_Nil [simp]: "consecutive []"
  by (simp add: consecutive_def)

lemma consecutive_Cons:
  "consecutive (p # ms) \<longleftrightarrow> fst p \<le> snd p \<and> (\<forall>q \<in> set ms. snd p \<le> fst q) \<and> consecutive ms"
  by (auto simp: consecutive_def)

lemma merged_span:
  assumes "s \<le> e" "sorted_wrt (\<lambda>i j. startS i \<le> startS j) is" "\<forall>i \<in> set is. s \<le> startS i"
    "\<forall>i \<in> set is. startS i \<le> endS i"
  shows "spanned (merged s e is) = {s..<e} \<union> covered is"
  using assms
proof (induction s e "is" rule: merged.induct)
  case (2 s e i "is")
  show ?case
  proof (cases "startS i \<le> e")
    case True
    have "{s..<max e (endS i)} = {s..<e} \<union> {startS i..<endS i}"
      using True "2.prems" by auto
    with True 2 show ?thesis by (auto simp: Un_assoc)
  next
    case False
    with 2 show ?thesis by auto
  qed
qed simp

lemma merged_starts: "p \<in> set (merged s e is) \<Longrightarrow> fst p = s \<or> fst p \<in> startS ` set is"
  by (induction s e "is" rule: merged.induct) (auto split: if_splits)

lemma merged_fst: "\<forall>i \<in> set is. s \<le> startS i \<Longrightarrow> p \<in> set (merged s e is) \<Longrightarrow> s \<le> fst p"
  using merged_starts by fastforce

lemma merged_consecutive:
  assumes "s \<le> e" "sorted_wrt (\<lambda>i j. startS i \<le> startS j) is" "\<forall>i \<in> set is. s \<le> startS i"
    "\<forall>i \<in> set is. startS i \<le> endS i"
  shows "consecutive (merged s e is)"
  using assms
proof (induction s e "is" rule: merged.induct)
  case (2 s e i "is")
  show ?case
  proof (cases "startS i \<le> e")
    case True
    with 2 show ?thesis by (auto simp: max_def)
  next
    case False
    have "e \<le> fst p" if "p \<in> set (merged (startS i) (endS i) is)" for p
      using merged_fst [OF _ that] "2.prems"(2) False by fastforce
    moreover have "consecutive (merged (startS i) (endS i) is)"
      using 2 False by simp
    ultimately show ?thesis
      using False "2.prems"(1) by (simp add: consecutive_Cons)
  qed
qed (simp add: consecutive_Cons)

lemma consecutive_total_nonneg: "consecutive ms \<Longrightarrow> 0 \<le> total_length ms"
  by (induction ms) (auto simp: consecutive_Cons)

lemma consecutive_total_bound:
  assumes "consecutive ms" "spanned ms \<subseteq> {lo..<hi}" "lo \<le> hi"
  shows "total_length ms \<le> hi - lo"
  using assms
proof (induction ms arbitrary: lo)
  case (Cons p ms)
  show ?case
  proof (cases "fst p = snd p")
    case True
    with Cons show ?thesis by (simp add: consecutive_Cons)
  next
    case False
    with Cons.prems have p: "lo \<le> fst p" "snd p \<le> hi"
      by (auto simp: consecutive_Cons)
    have "spanned ms \<subseteq> {snd p..<hi}"
      using Cons.prems(1,2) by (fastforce simp: consecutive_Cons spanned_def)
    with Cons p have "total_length ms \<le> hi - snd p"
      by (simp add: consecutive_Cons)
    with p show ?thesis by simp
  qed
qed simp

text \<open>The sum of the lengths depends on the set of instants only: the parts of two such lists up to the
  earlier of their first ends are the same, and what is left covers the same instants again.\<close>

lemma spanned_from:
  assumes "consecutive (q # ns)" "fst q \<le> a" "a \<le> snd q"
  shows "spanned ((a, snd q) # ns) = spanned (q # ns) \<inter> {a..}" "consecutive ((a, snd q) # ns)"
  using assms by (fastforce simp: consecutive_Cons spanned_def)+

lemma spanned_behind:
  assumes "consecutive (p # ms)"
  shows "spanned ms = spanned (p # ms) \<inter> {snd p..}"
  using spanned_from(1) [OF assms, of "snd p"] assms by (simp add: consecutive_Cons)

lemma spanned_first:
  assumes "consecutive (p # ms)" "consecutive (q # ns)" "spanned (p # ms) = spanned (q # ns)" "fst p < snd p"
  shows "fst q \<le> fst p"
proof -
  have "fst p \<in> spanned (q # ns)" using assms(3,4) by auto
  with assms(2) show ?thesis by (fastforce simp: consecutive_Cons spanned_def)
qed

lemma consecutive_total_empty: "consecutive ms \<Longrightarrow> spanned ms = {} \<Longrightarrow> total_length ms = 0"
  by (induction ms) (auto simp: consecutive_Cons)

lemma consecutive_total_step:
  assumes "consecutive (p # ms)" "consecutive (q # ns)" "spanned (p # ms) = spanned (q # ns)"
    "fst p < snd p" "fst q < snd q" "snd p \<le> snd q"
  shows "fst p = fst q" "consecutive ((snd p, snd q) # ns)" "spanned ms = spanned ((snd p, snd q) # ns)"
proof -
  show f: "fst p = fst q"
    using spanned_first [OF assms(1-4)] spanned_first [OF assms(2,1) assms(3) [symmetric] assms(5)] by simp
  show "consecutive ((snd p, snd q) # ns)"
    using spanned_from(2) [OF assms(2), of "snd p"] f assms(4,6) by simp
  show "spanned ms = spanned ((snd p, snd q) # ns)"
    using spanned_from(1) [OF assms(2), of "snd p"] spanned_behind [OF assms(1)] f assms(3,4,6) by simp
qed

lemma consecutive_total:
  "consecutive ms \<Longrightarrow> consecutive ns \<Longrightarrow> spanned ms = spanned ns \<Longrightarrow> total_length ms = total_length ns"
proof (induction "length ms + length ns" arbitrary: ms ns rule: less_induct)
  case less
  show ?case
  proof (cases "ms = [] \<or> ns = []")
    case True
    with less.prems show ?thesis using consecutive_total_empty by fastforce
  next
    case False
    then obtain p ms' q ns' where e: "ms = p # ms'" "ns = q # ns'" by (meson list.exhaust)
    note prems = less.prems [unfolded e]
    consider "fst p = snd p" | "fst q = snd q" | "fst p < snd p" "fst q < snd q" "snd p \<le> snd q"
      | "fst p < snd p" "fst q < snd q" "snd q \<le> snd p"
      using prems(1,2) by (fastforce simp: consecutive_Cons)
    then show ?thesis
    proof cases
      case 1
      with less.hyps [of ms' ns] prems e show ?thesis by (simp add: consecutive_Cons)
    next
      case 2
      with less.hyps [of ms ns'] prems e show ?thesis by (simp add: consecutive_Cons)
    next
      case 3
      note st = consecutive_total_step [OF prems 3]
      from less.hyps [of ms' "(snd p, snd q) # ns'", OF _ _ st(2,3)] prems(1) e st(1) show ?thesis
        by (simp add: consecutive_Cons)
    next
      case 4
      note st = consecutive_total_step [OF prems(2,1) prems(3) [symmetric] 4(2,1,3)]
      from less.hyps [of ns' "(snd q, snd p) # ms'", OF _ _ st(2,3)] prems(2) e st(1) show ?thesis
        by (simp add: consecutive_Cons)
    qed
  qed
qed

section \<open>Facts on the loop and on pruning\<close>

lemma clip_intervals_props:
  assumes "i \<in> set (clip_intervals cutoff now is)"
  shows "startS i < endS i" "cutoff \<le> startS i" "endS i \<le> now"
  using assms by (auto simp: clip_intervals_def)

text \<open>Clipping keeps exactly the busy instants of the window.\<close>

lemma covered_clip: "covered (clip_intervals (now - window) now is) = busy_instants window is now"
  by (force simp: covered_def busy_instants_def clip_intervals_def)

lemma sort_key_start_sorted:
  "sort_key startS is = c # cs \<Longrightarrow>
     sorted_wrt (\<lambda>i j. startS i \<le> startS j) cs \<and> (\<forall>i \<in> set cs. startS c \<le> startS i)"
  using sorted_sort_key [of startS "is"] by (simp add: sorted_map)

lemma sorted_clip_merged:
  assumes "sort_key startS (clip_intervals cutoff now is) = c # cs"
  defines "ms \<equiv> merged (startS c) (endS c) cs"
  shows "consecutive ms" "spanned ms = covered (clip_intervals cutoff now is)"
    "merge_loop 0 (startS c) (endS c) cs = total_length ms"
proof -
  have mem: "set (clip_intervals cutoff now is) = set (c # cs)"
    by (metis assms(1) set_sort)
  have "startS i < endS i" if "i \<in> set (c # cs)" for i
    using that clip_intervals_props(1) mem by blast
  then have le: "startS c \<le> endS c" "\<forall>i \<in> set cs. startS i \<le> endS i"
    by (auto simp: less_imp_le)
  note srt = sort_key_start_sorted [OF assms(1)]
  show "consecutive ms"
    unfolding ms_def using le srt by (intro merged_consecutive) auto
  have "spanned ms = {startS c..<endS c} \<union> covered cs"
    unfolding ms_def using le srt by (intro merged_span) auto
  also have "\<dots> = covered (clip_intervals cutoff now is)"
    using mem by (auto simp: covered_def)
  finally show "spanned ms = covered (clip_intervals cutoff now is)" .
  show "merge_loop 0 (startS c) (endS c) cs = total_length ms"
    by (simp add: ms_def merge_loop_total)
qed

lemma ComputeBusyFraction_decomposition:
  assumes "0 < window"
  shows "\<exists>ms. consecutive ms
    \<and> spanned ms = busy_instants window is now
    \<and> ComputeBusyFractionForContext window is now = total_length ms / window
    \<and> 0 \<le> total_length ms \<and> total_length ms \<le> window"
proof (cases "sort_key startS (clip_intervals (now - window) now is)")
  case Nil
  then have "clip_intervals (now - window) now is = []"
    by (metis set_sort set_empty)
  with Nil assms show ?thesis
    by (intro exI [of _ "[]"])
      (simp add: covered_clip [symmetric] ComputeBusyFractionForContext_def)
next
  case (Cons c cs)
  define ms where "ms = merged (startS c) (endS c) cs"
  note f = sorted_clip_merged [OF Cons, folded ms_def]
  have "spanned ms \<subseteq> {now - window..<now}"
    unfolding f(2) covered_clip by (auto simp: busy_instants_def)
  with f(1) assms have le: "total_length ms \<le> window"
    using consecutive_total_bound [of ms "now - window" now] by simp
  have "ComputeBusyFractionForContext window is now = min 1 (total_length ms / window)"
    by (simp add: ComputeBusyFractionForContext_def Cons f(3) ms_def [symmetric])
  also have "\<dots> = total_length ms / window"
    using le assms by (simp add: min_def)
  finally show ?thesis
    using f(1) f(2) [unfolded covered_clip] le consecutive_total_nonneg [OF f(1)] by blast
qed

lemma busy_fraction_bounds:
  assumes "0 < window"
  shows "0 \<le> ComputeBusyFractionForContext window is now"
    and "ComputeBusyFractionForContext window is now \<le> 1"
  using ComputeBusyFraction_decomposition [OF assms, of "is" now] assms by auto

lemma clip_intervals_prune:
  assumes "c \<le> cutoff"
  shows "clip_intervals cutoff now (dropWhile (\<lambda>i. endS i < c) is) = clip_intervals cutoff now is"
  using assms by (induction "is") (auto simp: clip_intervals_def)

lemma busy_fraction_prune:
  assumes "now' \<le> now"
  shows "ComputeBusyFractionForContext window (dropWhile (\<lambda>i. endS i < now' - window) is) now
    = ComputeBusyFractionForContext window is now"
  using assms by (simp add: ComputeBusyFractionForContext_def clip_intervals_prune)

lemma cbr_Prune_simps [simp]:
  "cbr_window (cbr_Prune now lg) = cbr_window lg"
  "cbr_nodeEvaluationFilter (cbr_Prune now lg) = cbr_nodeEvaluationFilter lg"
  "cbr_evaluatedNodeIds (cbr_Prune now lg) = cbr_evaluatedNodeIds lg"
  "cbr_evalStartS (cbr_Prune now lg) = cbr_evalStartS lg"
  "cbr_evalEndS (cbr_Prune now lg) = cbr_evalEndS lg"
  "cbr_step (cbr_Prune now lg) = cbr_step lg"
  "cbr_writeCsv (cbr_Prune now lg) = cbr_writeCsv lg"
  "cbr_out (cbr_Prune now lg) = cbr_out lg"
  by (simp_all add: cbr_Prune_def Let_def)

lemma filter_accepts_prune [simp]: "filter_accepts (cbr_Prune now lg) = filter_accepts lg"
  by (simp add: filter_accepts_def fun_eq_iff)

lemma accumulate_context_prune:
  assumes "now' \<le> now"
  shows "accumulate_context (cbr_Prune now' lg) now
      (c, dropWhile (\<lambda>i. endS i < now' - cbr_window lg) is) = accumulate_context lg now (c, is)"
  using busy_fraction_prune [OF assms, of "cbr_window lg" "is"]
  by (simp add: accumulate_context_def fun_eq_iff split: option.split)

lemma fold_map_cong: "(\<And>x. x \<in> set xs \<Longrightarrow> f (g x) = h x) \<Longrightarrow> fold f (map g xs) = fold h xs"
  by (induction xs) auto

lemma busyFractionByNode_prune:
  assumes "now' \<le> now"
  shows "busyFractionByNode (cbr_Prune now' lg) now = busyFractionByNode lg now"
proof -
  have "cbr_busyIntervalsByContext (cbr_Prune now' lg) =
      map (\<lambda>(c, is). (c, dropWhile (\<lambda>i. endS i < now' - cbr_window lg) is))
        (cbr_busyIntervalsByContext lg)"
    by (simp add: cbr_Prune_def Let_def)
  then show ?thesis
    unfolding busyFractionByNode_def
    by (simp, subst fold_map_cong [where h = "accumulate_context lg now"])
      (auto simp: accumulate_context_prune [OF assms])
qed

section \<open>The aggregation by node\<close>

definition contexts_of :: "cbr_logger \<Rightarrow> double \<Rightarrow> u32 \<Rightarrow> (string \<times> busy_interval list) list
    \<Rightarrow> double list" where
  \<comment> \<open>the busy fractions of the contexts that belong to a node, in the order of the map\<close>
  "contexts_of lg now n kvs =
     map (\<lambda>kv. ComputeBusyFractionForContext (cbr_window lg) (snd kv) now)
       (filter (\<lambda>kv. TryParseNodeId (fst kv) = Some n) kvs)"

lemma fold_accumulate_lookup:
  assumes "filter_accepts lg n now"
  shows "omap_get (0, 0) (fold (accumulate_context lg now) kvs m) n =
    (fst (omap_get (0, 0) m n) + sum_list (contexts_of lg now n kvs),
     snd (omap_get (0, 0) m n) + length (contexts_of lg now n kvs))"
  using assms
proof (induction kvs arbitrary: m)
  case (Cons kv kvs)
  then show ?case
    by (auto simp: accumulate_context_def omap_get_def contexts_of_def Let_def
        split: option.splits)
qed (simp add: contexts_of_def)

lemma fold_accumulate_keys:
  "fst ` set (fold (accumulate_context lg now) kvs m) =
     fst ` set m \<union> {n. filter_accepts lg n now \<and> (\<exists>kv \<in> set kvs. TryParseNodeId (fst kv) = Some n)}"
  by (induction kvs arbitrary: m)
    (auto simp: accumulate_context_def Let_def split: option.splits)

lemma fold_accumulate_ok:
  "omap_ok m \<Longrightarrow> omap_ok (fold (accumulate_context lg now) kvs m)"
  by (induction kvs arbitrary: m) (auto simp: accumulate_context_def Let_def split: option.splits)

lemma busyFractionByNode_ok: "omap_ok (busyFractionByNode lg now)"
  by (simp add: busyFractionByNode_def fold_accumulate_ok)

definition node_average :: "cbr_logger \<Rightarrow> double \<Rightarrow> u32 \<Rightarrow> double" where
  \<comment> \<open>the mean busy fraction over a node's contexts; a node without a trace counts as idle\<close>
  "node_average lg now n =
     (let fs = contexts_of lg now n (cbr_busyIntervalsByContext lg)
      in if fs = [] then 0 else sum_list fs / real (length fs))"

lemma busyFractionByNode_entry:
  assumes "(n, s, c) \<in> set (busyFractionByNode lg now)"
  shows "filter_accepts lg n now" "0 < c" "s / real c = node_average lg now n"
proof -
  have "n \<in> fst ` set (busyFractionByNode lg now)"
    using assms by force
  then have fa: "filter_accepts lg n now"
    and ex: "\<exists>kv \<in> set (cbr_busyIntervalsByContext lg). TryParseNodeId (fst kv) = Some n"
    unfolding busyFractionByNode_def fold_accumulate_keys by auto
  have "omap_get (0, 0) (busyFractionByNode lg now) n = (s, c)"
    using assms omap_ok_map_of [OF busyFractionByNode_ok] by (simp add: omap_get_def)
  then have sc: "s = sum_list (contexts_of lg now n (cbr_busyIntervalsByContext lg))"
    "c = length (contexts_of lg now n (cbr_busyIntervalsByContext lg))"
    using fold_accumulate_lookup [OF fa, of "cbr_busyIntervalsByContext lg" "[]"]
    by (simp_all add: busyFractionByNode_def omap_get_def)
  have ne: "contexts_of lg now n (cbr_busyIntervalsByContext lg) \<noteq> []"
    using ex by (auto simp: contexts_of_def filter_empty_conv)
  show "filter_accepts lg n now" by (fact fa)
  show "0 < c" using sc ne by simp
  show "s / real c = node_average lg now n"
    using sc ne by (simp add: node_average_def Let_def)
qed

lemma node_average_bounds:
  assumes "0 < cbr_window lg"
  shows "0 \<le> node_average lg now n \<and> node_average lg now n \<le> 1"
proof -
  define fs where "fs = contexts_of lg now n (cbr_busyIntervalsByContext lg)"
  have "\<forall>x \<in> set fs. 0 \<le> x \<and> x \<le> 1"
    using busy_fraction_bounds [OF assms] by (auto simp: fs_def contexts_of_def)
  then have "0 \<le> sum_list fs \<and> sum_list fs \<le> real (length fs)"
    using sum_list_bounds [of fs "\<lambda>x. x"] by simp
  then show ?thesis
    by (auto simp: node_average_def fs_def [symmetric] Let_def divide_le_eq)
qed

lemma cbrSum_eq:
  "(\<Sum>(n, s, c)\<leftarrow>busyFractionByNode lg now. if 0 < c then s / real c else 0)
     = (\<Sum>n\<leftarrow>map fst (busyFractionByNode lg now). node_average lg now n)"
proof -
  have "map (\<lambda>(n, s, c). if 0 < c then s / real c else 0) (busyFractionByNode lg now)
      = map (\<lambda>p. node_average lg now (fst p)) (busyFractionByNode lg now)"
  proof (rule map_cong [OF refl])
    fix p assume p: "p \<in> set (busyFractionByNode lg now)"
    obtain n s c where [simp]: "p = (n, s, c)" by (cases p)
    show "(case p of (n, s, c) \<Rightarrow> if 0 < c then s / real c else 0) = node_average lg now (fst p)"
      using busyFractionByNode_entry [of n s c lg now] p by simp
  qed
  then show ?thesis by (simp only: map_map comp_def)
qed

lemma node_average_no_context:
  assumes "filter_accepts lg n now" "n \<notin> fst ` set (busyFractionByNode lg now)"
  shows "node_average lg now n = 0"
proof -
  have "filter (\<lambda>kv. TryParseNodeId (fst kv) = Some n) (cbr_busyIntervalsByContext lg) = []"
    using assms unfolding busyFractionByNode_def fold_accumulate_keys
    by (auto simp: filter_empty_conv)
  then show ?thesis by (simp add: node_average_def contexts_of_def)
qed

text \<open>Trace paths.\<close>

lemma TryParseNodeId_show:
  "TryParseNodeId (''/NodeList/'' @ show_nat (unat (nodeId :: u32)) @ ''/'' @ rest) = Some nodeId"
proof -
  have lt: "unat nodeId < 2 ^ 64"
    using unsigned_less [of nodeId] by (auto intro: less_trans)
  let ?d = "show_nat (unat nodeId)" and ?m = "''/NodeList/''"
  let ?ctx = "?m @ ?d @ ''/'' @ rest"
  have "str_find ''/'' (?d @ ''/'' @ rest) = Some (length ?d)"
    using str_find_char [OF show_nat_no_slash, of "unat nodeId" rest] by simp
  moreover have "drop (length ?m) ?ctx = ?d @ ''/'' @ rest"
    by simp
  ultimately have "str_find_from ''/'' ?ctx (length ?m) = Some (length ?d + length ?m)"
    by (simp add: str_find_from_def del: append_Cons)
  moreover have "take (length ?d + length ?m - length ?m) (drop (length ?m) ?ctx) = ?d"
    by simp
  ultimately have "TryParseNodeId ?ctx = Some (ucast (of_nat (unat nodeId) :: u64))"
    unfolding TryParseNodeId_def Let_def str_find_prefix
    by (simp only: option.case add_0 strtoul10_show_nat [OF lt]) simp
  moreover have "(ucast (of_nat (unat nodeId) :: u64) :: u32) = nodeId"
    by (rule ucast_of_nat_unat)
  ultimately show ?thesis
    by simp
qed

section \<open>Properties\<close>

text \<open>C14: the busy fraction of a trace context is the length of time in the window at which one of the
  recorded intervals is busy, divided by the window: that set of instants can be written as consecutive
  intervals, and whichever way it is, the sum of their lengths divided by the window is the value
  computed. Intervals that reach beyond the window count with the part inside it, overlaps and
  duplicates count once, and the order in which \<open>std::sort\<close> leaves intervals with equal starts does
  not matter.\<close>

theorem busy_fraction_is_covered_time:
  assumes "0 < window"
  shows "(\<exists>ms. consecutive ms \<and> spanned ms = busy_instants window is now)
    \<and> (\<forall>ms. consecutive ms \<and> spanned ms = busy_instants window is now
         \<longrightarrow> ComputeBusyFractionForContext window is now = total_length ms / window)"
  using ComputeBusyFraction_decomposition [OF assms, of "is" now] consecutive_total by metis

text \<open>Two overlapping intervals, one of which begins before the window, and one that is still busy when
  the window ends.\<close>

theorem busy_fraction_is_covered_time_witness:
  "ComputeBusyFractionForContext 10
     [\<lparr>startS = - 3, endS = 2\<rparr>, \<lparr>startS = 9, endS = 12\<rparr>, \<lparr>startS = 1, endS = 3\<rparr>] 10 = 2 / 5"
proof -
  let ?is = "[\<lparr>startS = - 3, endS = 2\<rparr>, \<lparr>startS = 9, endS = 12\<rparr>, \<lparr>startS = 1, endS = (3::real)\<rparr>]"
  have ten: "0 < (10::real)" by simp
  have "consecutive [(0, 3), (9, 10::real)]"
    by (simp add: consecutive_Cons)
  moreover have "spanned [(0, 3), (9, 10::real)] = busy_instants 10 ?is 10"
    by (auto simp: busy_instants_def)
  ultimately have "ComputeBusyFractionForContext 10 ?is 10 = total_length [(0, 3), (9, 10)] / 10"
    using busy_fraction_is_covered_time [OF ten, of ?is 10] by blast
  then show ?thesis by simp
qed

text \<open>C26: when every traced node that passes the filter is one of the evaluated nodes, as the
  scenario sets it up, the channel busy ratio is the mean of the nodes' busy fractions over the
  evaluated nodes that pass the filter (nodes without a trace count as idle), it lies between 0 and
  1, and the clamping of \<open>ComputeCbr\<close> never changes it.\<close>

theorem cbr_is_mean_over_evaluated_nodes:
  assumes "0 < cbr_window lg" and "distinct (cbr_evaluatedNodeIds lg)"
    and "cbr_evaluatedNodeIds lg \<noteq> []"
    and "fst ` set (busyFractionByNode lg now) \<subseteq> set (cbr_evaluatedNodeIds lg)"
    and "nodes = filter (\<lambda>n. filter_accepts lg n now) (cbr_evaluatedNodeIds lg)"
  shows "fst (ComputeCbr now lg) = (\<Sum>n\<leftarrow>nodes. node_average lg now n) / real (length nodes)
    \<and> ComputeChannelOccupiedCbr lg now \<in> {0..1}"
proof -
  let ?by = "map fst (busyFractionByNode lg now)"
  have d: "distinct ?by" "distinct nodes"
    using omap_ok_distinct [OF busyFractionByNode_ok] assms(2) by (simp_all add: assms(5))
  have sub: "set ?by \<subseteq> set nodes"
    using assms(4) busyFractionByNode_entry(1) by (fastforce simp: assms(5))
  have "(\<Sum>n\<leftarrow>?by. node_average lg now n) = (\<Sum>n\<in>set ?by. node_average lg now n)"
    by (rule sum_list_distinct_conv_sum_set [OF d(1)])
  also have "\<dots> = (\<Sum>n\<in>set nodes. node_average lg now n)"
    using sub by (intro sum.mono_neutral_left)
      (auto intro!: node_average_no_context simp: assms(5))
  also have "\<dots> = (\<Sum>n\<leftarrow>nodes. node_average lg now n)"
    by (rule sum_list_distinct_conv_sum_set [OF d(2), symmetric])
  finally have sums: "(\<Sum>n\<leftarrow>?by. node_average lg now n) = (\<Sum>n\<leftarrow>nodes. node_average lg now n)" .
  have "0 \<le> (\<Sum>n\<leftarrow>nodes. node_average lg now n) \<and>
      (\<Sum>n\<leftarrow>nodes. node_average lg now n) \<le> real (length nodes)"
    using node_average_bounds [OF assms(1)] by (intro sum_list_bounds) auto
  then have b: "0 \<le> (\<Sum>n\<leftarrow>nodes. node_average lg now n) / real (length nodes)"
    "(\<Sum>n\<leftarrow>nodes. node_average lg now n) / real (length nodes) \<le> 1"
    by (auto simp: divide_le_eq)
  have eq: "ComputeChannelOccupiedCbr lg now =
      (\<Sum>n\<leftarrow>nodes. node_average lg now n) / real (length nodes)"
    using assms(3) sums
    by (simp add: ComputeChannelOccupiedCbr_def Let_def cbrSum_eq assms(5) [symmetric])
  moreover have "ComputeChannelOccupiedCbr (cbr_Prune now lg) now = ComputeChannelOccupiedCbr lg now"
    by (simp add: ComputeChannelOccupiedCbr_def busyFractionByNode_prune Let_def)
  ultimately show ?thesis
    using b by (simp add: ComputeCbr_def Let_def)
qed

definition sample_logger :: cbr_logger where
  "sample_logger = cbr_logger_new
     \<lparr>cbr_evaluatedNodeIds := [3, 5],
      cbr_busyIntervalsByContext := [(''/NodeList/3/D'', [\<lparr>startS = 19 / 2, endS = 12\<rparr>])]\<rparr>"

lemma sample_logger_path: "TryParseNodeId ''/NodeList/3/D'' = Some 3"
proof -
  have "show_nat 3 = ''3''"
    by (simp add: show_nat.simps digit_char_def char_of_eq_iff)
  then show ?thesis
    using TryParseNodeId_show [of 3 "''D''"] by simp
qed

lemma sample_logger_fields [simp]:
  "cbr_window sample_logger = 1" "cbr_evaluatedNodeIds sample_logger = [3, 5]"
  "cbr_nodeEvaluationFilter sample_logger = None"
  "cbr_busyIntervalsByContext sample_logger =
     [(''/NodeList/3/D'', [\<lparr>startS = 19 / 2, endS = 12\<rparr>])]"
  by (simp_all add: sample_logger_def cbr_logger_new_def)

theorem cbr_is_mean_over_evaluated_nodes_witness:
  "fst (ComputeCbr 10 sample_logger) = 1 / 4"
proof -
  have avg: "node_average sample_logger 10 3 = 1 / 2" "node_average sample_logger 10 5 = 0"
    by (simp_all add: node_average_def contexts_of_def sample_logger_path
        ComputeBusyFractionForContext_def clip_intervals_def)
  have "fst (ComputeCbr 10 sample_logger) =
      (\<Sum>n\<leftarrow>[3, 5]. node_average sample_logger 10 n) / real (length [3::u32, 5])"
  proof (rule cbr_is_mean_over_evaluated_nodes [THEN conjunct1])
    show "fst ` set (busyFractionByNode sample_logger 10) \<subseteq> set (cbr_evaluatedNodeIds sample_logger)"
      unfolding busyFractionByNode_def fold_accumulate_keys by (auto simp: sample_logger_path)
  qed (simp_all add: filter_accepts_def)
  then show ?thesis by (simp add: avg)
qed



text \<open>The node id is read back from the trace path that the scenario's wildcard
  \<open>/NodeList/*/DeviceList/\<close>... matches, for every node id, whatever follows the id and also
  when nothing does.\<close>

theorem TryParseNodeId_path:
  "TryParseNodeId (''/NodeList/'' @ show_nat (unat (nodeId :: u32)) @ ''/'' @ rest) = Some nodeId
   \<and> TryParseNodeId (''/NodeList/'' @ show_nat (unat nodeId)) = Some nodeId"
proof (intro conjI TryParseNodeId_show)
  have lt: "unat nodeId < 2 ^ 64"
    using unsigned_less [of nodeId] by (auto intro: less_trans)
  let ?d = "show_nat (unat nodeId)" and ?m = "''/NodeList/''"
  have "str_find_from ''/'' (?m @ ?d) (length ?m) = None"
    using str_find_char_None [OF show_nat_no_slash, of "unat nodeId"]
    by (simp add: str_find_from_def del: append_Cons)
  then have "TryParseNodeId (?m @ ?d) = Some (ucast (of_nat (unat nodeId) :: u64))"
    unfolding TryParseNodeId_def Let_def str_find_prefix
    by (simp only: option.case add_0) (simp add: strtoul10_show_nat [OF lt])
  moreover have "(ucast (of_nat (unat nodeId) :: u64) :: u32) = nodeId"
    by (rule ucast_of_nat_unat)
  ultimately show "TryParseNodeId (?m @ ?d) = Some nodeId"
    by (simp only:)
qed

end
