(* ===== verification/NodeTables.thy ===== *)
theory NodeTables
  imports Trajectory
begin

text \<open>
  The global tables that relate logical vehicles to physical devices
  (\<open>g_vehicleIdToNodeId\<close>, \<open>g_nodeIdToVehicleId\<close>, \<open>g_nodeIdToActiveTimeRangeS\<close> and
  \<open>g_dynamicActivePoolEnabled\<close>) and the questions the other components ask of them. What those
  clients rely on, that the two tables are inverse to each other, is the locale \<open>assignment\<close>.
\<close>

record node_tables =
  nt_vehicleToNode :: "u32 \<rightharpoonup> u32"
  nt_nodeToVehicle :: "u32 \<rightharpoonup> u32"
  nt_activeRange :: "u32 \<rightharpoonup> double \<times> double"
  nt_dynamic :: bool

definition ResolveVehicleIdForNode :: "node_tables \<Rightarrow> u32 \<Rightarrow> u32" where
  "ResolveVehicleIdForNode nt nodeId =
     (case nt_nodeToVehicle nt nodeId of None \<Rightarrow> kInvalidVehicleId | Some v \<Rightarrow> v)"

definition ResolveNodeIdForVehicle :: "node_tables \<Rightarrow> u32 \<Rightarrow> u32" where
  "ResolveNodeIdForVehicle nt vehicleId =
     (case nt_vehicleToNode nt vehicleId of None \<Rightarrow> - 1 | Some n \<Rightarrow> n)"

definition IsNodeAssignedToVehicle :: "node_tables \<Rightarrow> u32 \<Rightarrow> u32 \<Rightarrow> bool" where
  "IsNodeAssignedToVehicle nt nodeId vehicleId \<longleftrightarrow> ResolveVehicleIdForNode nt nodeId = vehicleId"

definition IsNodeActiveAtTime :: "node_tables \<Rightarrow> u32 \<Rightarrow> double \<Rightarrow> bool" where
  "IsNodeActiveAtTime nt nodeId timeS =
     (if nt_dynamic nt then ResolveVehicleIdForNode nt nodeId \<noteq> kInvalidVehicleId
      else case nt_activeRange nt nodeId of
             None \<Rightarrow> True
           | Some r \<Rightarrow> timeS + 1 / 1000000000 \<ge> fst r \<and> timeS \<le> snd r + 1 / 1000000000)"

text \<open>The tables are inverse partial functions, and the invalid id is in neither.\<close>

definition tables_ok :: "node_tables \<Rightarrow> bool" where
  "tables_ok nt \<longleftrightarrow>
     (\<forall>v n. nt_vehicleToNode nt v = Some n \<longrightarrow> nt_nodeToVehicle nt n = Some v)
   \<and> (\<forall>v n. nt_nodeToVehicle nt n = Some v \<longrightarrow> nt_vehicleToNode nt v = Some n)
   \<and> (\<forall>n. nt_nodeToVehicle nt n \<noteq> Some kInvalidVehicleId)
   \<and> (\<forall>v. nt_vehicleToNode nt v \<noteq> Some (- 1))"

section \<open>What the clients rely on\<close>

locale assignment =
  fixes vehicle_of :: "'t \<Rightarrow> u32 \<Rightarrow> u32"
    and node_of :: "'t \<Rightarrow> u32 \<Rightarrow> u32"
    and ok :: "'t \<Rightarrow> bool"
  assumes vehicle_of_node_of:
      "ok t \<Longrightarrow> node_of t v \<noteq> - 1 \<Longrightarrow> vehicle_of t (node_of t v) = v"
    and node_of_vehicle_of:
      "ok t \<Longrightarrow> vehicle_of t n \<noteq> kInvalidVehicleId \<Longrightarrow> node_of t (vehicle_of t n) = n"
begin

lemma vehicle_unique:
  assumes "ok t" "vehicle_of t n = vehicle_of t n'" "vehicle_of t n \<noteq> kInvalidVehicleId"
  shows "n = n'"
proof -
  have "n = node_of t (vehicle_of t n)"
    by (rule node_of_vehicle_of [OF assms(1,3), symmetric])
  also have "\<dots> = node_of t (vehicle_of t n')"
    by (simp only: assms(2))
  also have "\<dots> = n'"
    using assms(3) unfolding assms(2) by (rule node_of_vehicle_of [OF assms(1)])
  finally show ?thesis .
qed

text \<open>The vehicles of distinct devices that have one are distinct.\<close>

lemma distinct_vehicles:
  assumes "ok t" "distinct ns"
  shows "distinct (filter (\<lambda>v. v \<noteq> kInvalidVehicleId) (map (vehicle_of t) ns))"
  using assms(2)
proof (induction ns)
  case (Cons n ns)
  have "vehicle_of t n \<notin> vehicle_of t ` set ns" if "vehicle_of t n \<noteq> kInvalidVehicleId"
    using vehicle_unique [OF assms(1) _ that] Cons.prems by auto
  with Cons show ?case by auto
qed simp

end

lemma tables_ok_inverse:
  "tables_ok nt \<Longrightarrow> nt_vehicleToNode nt v = Some n \<longleftrightarrow> nt_nodeToVehicle nt n = Some v"
  unfolding tables_ok_def by blast

interpretation tables: assignment ResolveVehicleIdForNode ResolveNodeIdForVehicle tables_ok
proof
  fix t v
  assume ok: "tables_ok t" and "ResolveNodeIdForVehicle t v \<noteq> - 1"
  then obtain n where n: "nt_vehicleToNode t v = Some n"
    by (auto simp: ResolveNodeIdForVehicle_def split: option.splits)
  then have "nt_nodeToVehicle t n = Some v"
    using tables_ok_inverse [OF ok] by blast
  with n show "ResolveVehicleIdForNode t (ResolveNodeIdForVehicle t v) = v"
    by (simp add: ResolveVehicleIdForNode_def ResolveNodeIdForVehicle_def)
next
  fix t n
  assume ok: "tables_ok t" and "ResolveVehicleIdForNode t n \<noteq> kInvalidVehicleId"
  then obtain v where v: "nt_nodeToVehicle t n = Some v"
    by (auto simp: ResolveVehicleIdForNode_def split: option.splits)
  then have "nt_vehicleToNode t v = Some n"
    using tables_ok_inverse [OF ok] by blast
  with v show "ResolveNodeIdForVehicle t (ResolveVehicleIdForNode t n) = n"
    by (simp add: ResolveVehicleIdForNode_def ResolveNodeIdForVehicle_def)
qed

lemma active_has_vehicle:
  "nt_dynamic nt \<Longrightarrow> IsNodeActiveAtTime nt n t \<longleftrightarrow> ResolveVehicleIdForNode nt n \<noteq> kInvalidVehicleId"
  by (simp add: IsNodeActiveAtTime_def)

end
