(* ===== verification/KpiLogger.thy ===== *)
theory KpiLogger
  imports CbrLogger NodeTables
begin

text \<open>
  The KPI logger (\<open>class KpiLogger\<close>): transmissions with their eligible receivers, receptions,
  the sliding window over both, and the sample of packet reception ratio, inter-reception time,
  channel busy ratio and active vehicles.

  The global tables, the position of every device and \<open>Simulator::Now()\<close> are arguments; the
  channel busy ratio logger the code reaches by a pointer is passed in and returned. A \<open>NaN\<close>
  inter-reception time is \<open>None\<close>. The output file is the list of its rows.
\<close>

section \<open>State\<close>

record tx_event =
  tx_timeS :: double
  tx_vehicleId :: u32
  tx_seq :: u64
  tx_eligibleRxCount :: u32
  tx_rxDistanceAtTxM :: "(u32 \<times> double) list"

record rx_event =
  rx_timeS :: double
  rx_txVehicleId :: u32
  rx_rxVehicleId :: u32
  rx_seq :: u64
  rx_pirS :: "double option"

record kpi_sample =
  ks_timeS :: double
  ks_txPowerDbm :: double
  ks_beaconIntervalS :: double
  ks_activeVehicleCountCore :: double
  ks_prrAwareness :: double
  ks_pirS :: double
  ks_cbr :: double

record kpi_row =
  kr_time :: double
  kr_txPower :: double
  kr_beaconInterval :: double
  kr_activeVehicleCount :: u32
  kr_txCount :: u64
  kr_denom :: u64
  kr_numer :: u64
  kr_meanEligiblePerTx :: double
  kr_meanSuccessPerTx :: double
  kr_prr :: double
  kr_pirMean :: double
  kr_pirCount :: u64
  kr_cbr :: double

record kpi_logger =
  k_awarenessRangeM :: double
  k_kpiWindowS :: double
  k_sampleTimeS :: double
  k_evalStartS :: double
  k_evalEndS :: double
  k_enableCoreFilter :: bool
  k_coreAxis :: string
  k_coreMin :: double
  k_coreMax :: double
  k_hasCbrLogger :: bool
  k_currentP :: double
  k_currentTb :: double
  k_hasLatestSample :: bool
  k_latestSample :: kpi_sample
  k_lastProgressSecond :: int
  k_nodes :: "u32 list"
  k_ipToNodeId :: "u32 \<rightharpoonup> u32"
  k_txEvents :: "tx_event list"
  k_rxEvents :: "rx_event list"
  k_loggedRxTriples :: "(u32 \<times> u32 \<times> u64) set"
  k_lastRxTimePerPair :: "u32 \<times> u32 \<rightharpoonup> double"
  k_out :: "kpi_row list"
  k_progress :: "(int \<times> u32) list"

definition kpi_sample_new :: kpi_sample where
  "kpi_sample_new = \<lparr>ks_timeS = 0, ks_txPowerDbm = 0, ks_beaconIntervalS = 1 / 10,
     ks_activeVehicleCountCore = 0, ks_prrAwareness = 0, ks_pirS = 0, ks_cbr = 0\<rparr>"

definition kpi_logger_new :: kpi_logger where
  "kpi_logger_new =
     \<lparr>k_awarenessRangeM = 150, k_kpiWindowS = 1, k_sampleTimeS = 1 / 2, k_evalStartS = 0,
      k_evalEndS = - 1, k_enableCoreFilter = True, k_coreAxis = ''y'', k_coreMin = 0, k_coreMax = 0,
      k_hasCbrLogger = False, k_currentP = 23, k_currentTb = 1 / 10, k_hasLatestSample = False,
      k_latestSample = kpi_sample_new, k_lastProgressSecond = - 1, k_nodes = [],
      k_ipToNodeId = Map.empty, k_txEvents = [], k_rxEvents = [], k_loggedRxTriples = {},
      k_lastRxTimePerPair = Map.empty, k_out = [], k_progress = []\<rparr>"

definition kpi_Configure ::
    "u32 list \<Rightarrow> bool \<Rightarrow> bool \<Rightarrow> double \<Rightarrow> double \<Rightarrow> double \<Rightarrow> double \<Rightarrow> double \<Rightarrow> bool \<Rightarrow> string
      \<Rightarrow> double \<Rightarrow> double \<Rightarrow> kpi_logger \<Rightarrow> kpi_logger result" where
  \<comment> \<open>the second argument says whether a channel busy ratio logger is given, the third whether the
    output file could be opened\<close>
  "kpi_Configure nodes hasCbr opened awarenessRangeM kpiWindowS sampleTimeS evalStartS evalEndS
       enableCoreFilter coreAxis coreMin coreMax k =
     (let k' = k\<lparr>k_hasCbrLogger := hasCbr, k_awarenessRangeM := awarenessRangeM,
        k_kpiWindowS := kpiWindowS, k_sampleTimeS := sampleTimeS, k_evalStartS := evalStartS,
        k_evalEndS := evalEndS, k_enableCoreFilter := enableCoreFilter, k_coreAxis := coreAxis,
        k_coreMin := coreMin, k_coreMax := coreMax, k_nodes := k_nodes k @ nodes\<rparr>
      in if \<not> opened then Inl (Fatal ''Cannot open KPI output CSV'') else Inr (k'\<lparr>k_out := []\<rparr>))"

definition RegisterNodeIpv4 :: "u32 \<Rightarrow> u32 \<Rightarrow> kpi_logger \<Rightarrow> kpi_logger" where
  "RegisterNodeIpv4 nodeId addr k = k\<lparr>k_ipToNodeId := (k_ipToNodeId k)(addr \<mapsto> nodeId)\<rparr>"

definition ResolveNodeIdFromIpv4 :: "kpi_logger \<Rightarrow> u32 \<Rightarrow> u32" where
  "ResolveNodeIdFromIpv4 k addr = (case k_ipToNodeId k addr of None \<Rightarrow> - 1 | Some n \<Rightarrow> n)"

definition SetCurrentInputs :: "double \<Rightarrow> double \<Rightarrow> kpi_logger \<Rightarrow> kpi_logger" where
  "SetCurrentInputs pDbm tbS k = k\<lparr>k_currentP := pDbm, k_currentTb := tbS\<rparr>"

definition HasLatestSample :: "kpi_logger \<Rightarrow> bool" where
  "HasLatestSample k \<longleftrightarrow> k_hasLatestSample k"

definition GetLatestSample :: "kpi_logger \<Rightarrow> kpi_sample" where
  "GetLatestSample k = k_latestSample k"

section \<open>Filters and the window\<close>

definition kpi_IsInsideEvaluationWindow :: "kpi_logger \<Rightarrow> double \<Rightarrow> bool" where
  "kpi_IsInsideEvaluationWindow k timeS \<longleftrightarrow>
     timeS \<ge> k_evalStartS k \<and> (k_evalEndS k < 0 \<or> timeS \<le> k_evalEndS k)"

definition IsInsideCore :: "kpi_logger \<Rightarrow> vec3 \<Rightarrow> bool" where
  "IsInsideCore k position \<longleftrightarrow>
     \<not> k_enableCoreFilter k \<or>
     IsInsideCoreRegion (GetCoreCoordinate position (k_coreAxis k)) (k_coreMin k) (k_coreMax k)"

definition FindTxEvent :: "kpi_logger \<Rightarrow> u32 \<Rightarrow> u64 \<Rightarrow> tx_event option" where
  "FindTxEvent k txVehicleId seq =
     find (\<lambda>e. tx_vehicleId e = txVehicleId \<and> tx_seq e = seq) (rev (k_txEvents k))"

definition tx_key :: "tx_event \<Rightarrow> u32 \<times> u64" where
  "tx_key e = (tx_vehicleId e, tx_seq e)"

definition rx_txkey :: "rx_event \<Rightarrow> u32 \<times> u64" where
  "rx_txkey e = (rx_txVehicleId e, rx_seq e)"

definition rx_triple :: "rx_event \<Rightarrow> u32 \<times> u32 \<times> u64" where
  "rx_triple e = (rx_txVehicleId e, rx_rxVehicleId e, rx_seq e)"

text \<open>The loops of \<open>PruneOldEvents\<close>: from the front of the receptions while they are old, erasing
  their triples; then over all receptions, dropping those of forgotten transmissions.\<close>

fun pop_old_rx :: "double \<Rightarrow> rx_event list \<Rightarrow> (u32 \<times> u32 \<times> u64) set
    \<Rightarrow> rx_event list \<times> (u32 \<times> u32 \<times> u64) set" where
  "pop_old_rx cutoff [] logged = ([], logged)"
| "pop_old_rx cutoff (rx # rxs) logged =
     (if rx_timeS rx < cutoff then pop_old_rx cutoff rxs (logged - {rx_triple rx})
      else (rx # rxs, logged))"

fun remove_inactive_rx :: "(u32 \<times> u64) set \<Rightarrow> rx_event list \<Rightarrow> (u32 \<times> u32 \<times> u64) set
    \<Rightarrow> rx_event list \<times> (u32 \<times> u32 \<times> u64) set" where
  "remove_inactive_rx activeTxKeys [] logged = ([], logged)"
| "remove_inactive_rx activeTxKeys (rx # rxs) logged =
     (if rx_txkey rx \<in> activeTxKeys
      then let (rxs', logged') = remove_inactive_rx activeTxKeys rxs logged in (rx # rxs', logged')
      else remove_inactive_rx activeTxKeys rxs (logged - {rx_triple rx}))"

definition PruneOldEvents :: "double \<Rightarrow> kpi_logger \<Rightarrow> kpi_logger" where
  "PruneOldEvents now k =
     (let cutoff = now - k_kpiWindowS k;
          txEvents = dropWhile (\<lambda>tx. tx_timeS tx < cutoff) (k_txEvents k);
          activeTxKeys = tx_key ` set txEvents;
          (rxEvents, logged) = pop_old_rx cutoff (k_rxEvents k) (k_loggedRxTriples k);
          (rxEvents', logged') = remove_inactive_rx activeTxKeys rxEvents logged
      in k\<lparr>k_txEvents := txEvents, k_rxEvents := rxEvents', k_loggedRxTriples := logged'\<rparr>)"

section \<open>Logging a transmission\<close>

definition eligible_step ::
    "kpi_logger \<Rightarrow> node_tables \<Rightarrow> (u32 \<Rightarrow> vec3) \<Rightarrow> u32 \<Rightarrow> u32 \<Rightarrow> double \<Rightarrow> vec3 \<Rightarrow> u32
       \<Rightarrow> (u32 \<times> double) list \<Rightarrow> (u32 \<times> double) list" where
  "eligible_step k nt pos txVehicleId txNodeId timeS posTx node m =
     (if node = txNodeId then m
      else if \<not> IsNodeActiveAtTime nt node timeS then m
      else let rxVehicleId = ResolveVehicleIdForNode nt node in
        if rxVehicleId = kInvalidVehicleId \<or> rxVehicleId = txVehicleId then m
        else if \<not> IsInsideCore k (pos node) then m
        else let distanceM = Distance2d posTx (pos node) in
          if distanceM \<le> k_awarenessRangeM k then omap_put rxVehicleId distanceM m else m)"

definition LogTx ::
    "double \<Rightarrow> node_tables \<Rightarrow> (u32 \<Rightarrow> vec3) \<Rightarrow> u32 \<Rightarrow> u32 \<Rightarrow> u64 \<Rightarrow> double \<Rightarrow> vec3
       \<Rightarrow> kpi_logger \<Rightarrow> kpi_logger" where
  "LogTx now nt pos txVehicleId txNodeId seq timeS posTx k =
     (if txVehicleId = kInvalidVehicleId \<or> \<not> IsNodeActiveAtTime nt txNodeId timeS \<or>
         \<not> IsNodeAssignedToVehicle nt txNodeId txVehicleId \<or>
         \<not> kpi_IsInsideEvaluationWindow k timeS \<or> \<not> IsInsideCore k posTx
      then k
      else
        let m = fold (eligible_step k nt pos txVehicleId txNodeId timeS posTx) (k_nodes k) [];
            ev = \<lparr>tx_timeS = timeS, tx_vehicleId = txVehicleId, tx_seq = seq,
                  tx_eligibleRxCount = of_nat (length m), tx_rxDistanceAtTxM = m\<rparr>
        in PruneOldEvents now (k\<lparr>k_txEvents := k_txEvents k @ [ev]\<rparr>))"

section \<open>Logging a reception\<close>

definition LogRx ::
    "double \<Rightarrow> node_tables \<Rightarrow> u32 \<Rightarrow> u32 \<Rightarrow> u64 \<Rightarrow> double \<Rightarrow> vec3 \<Rightarrow> kpi_logger \<Rightarrow> kpi_logger" where
  "LogRx now nt txVehicleId rxVehicleId seq timeS posRx k =
     (let txNodeId = ResolveNodeIdForVehicle nt txVehicleId;
          rxNodeId = ResolveNodeIdForVehicle nt rxVehicleId
      in if \<not> kpi_IsInsideEvaluationWindow k timeS \<or> txNodeId = - 1 \<or> rxNodeId = - 1 \<or>
            \<not> IsNodeActiveAtTime nt txNodeId timeS \<or> \<not> IsNodeActiveAtTime nt rxNodeId timeS \<or>
            \<not> IsNodeAssignedToVehicle nt txNodeId txVehicleId \<or>
            \<not> IsNodeAssignedToVehicle nt rxNodeId rxVehicleId
         then k
         else case FindTxEvent k txVehicleId seq of
                None \<Rightarrow> k
              | Some txEvent \<Rightarrow>
                  if \<not> IsInsideCore k posRx then k
                  else if map_of (tx_rxDistanceAtTxM txEvent) rxVehicleId = None then k
                  else if (txVehicleId, rxVehicleId, seq) \<in> k_loggedRxTriples k then k
                  else
                    let pir = map_option (\<lambda>t. timeS - t) (k_lastRxTimePerPair k (txVehicleId, rxVehicleId));
                        ev = \<lparr>rx_timeS = timeS, rx_txVehicleId = txVehicleId,
                              rx_rxVehicleId = rxVehicleId, rx_seq = seq, rx_pirS = pir\<rparr>
                    in PruneOldEvents now
                         (k\<lparr>k_loggedRxTriples := insert (txVehicleId, rxVehicleId, seq) (k_loggedRxTriples k),
                            k_lastRxTimePerPair := (k_lastRxTimePerPair k)((txVehicleId, rxVehicleId) \<mapsto> timeS),
                            k_rxEvents := k_rxEvents k @ [ev]\<rparr>))"

section \<open>Sampling\<close>

definition CountActiveCoreVehicles ::
    "kpi_logger \<Rightarrow> node_tables \<Rightarrow> (u32 \<Rightarrow> vec3) \<Rightarrow> double \<Rightarrow> u32" where
  "CountActiveCoreVehicles k nt pos timeS =
     fold (\<lambda>node count.
       if \<not> IsNodeActiveAtTime nt node timeS then count
       else if ResolveVehicleIdForNode nt node = kInvalidVehicleId then count
       else if IsInsideCore k (pos node) then count + 1 else count) (k_nodes k) 0"

definition MaybePrintProgress :: "double \<Rightarrow> u32 \<Rightarrow> kpi_logger \<Rightarrow> kpi_logger" where
  "MaybePrintProgress timeS activeVehicleCount k =
     (let second = \<lfloor>timeS + 1 / 1000000000\<rfloor>
      in if second \<ge> 1 \<and> second \<noteq> k_lastProgressSecond k
         then k\<lparr>k_progress := k_progress k @ [(second, activeVehicleCount)],
                k_lastProgressSecond := second\<rparr>
         else k)"

definition sample_denom :: "kpi_logger \<Rightarrow> u64" where
  "sample_denom k = fold (\<lambda>tx d. d + ucast (tx_eligibleRxCount tx)) (k_txEvents k) 0"

definition unique_rx_triples :: "kpi_logger \<Rightarrow> (u32 \<times> u32 \<times> u64) set" where
  "unique_rx_triples k =
     rx_triple ` {rx \<in> set (k_rxEvents k). rx_txkey rx \<in> tx_key ` set (k_txEvents k)}"

definition sample_numer :: "kpi_logger \<Rightarrow> u64" where
  "sample_numer k = of_nat (card (unique_rx_triples k))"

definition pir_values :: "kpi_logger \<Rightarrow> double list" where
  "pir_values k = List.map_filter rx_pirS (k_rxEvents k)"

definition ratio_u64 :: "u64 \<Rightarrow> u64 \<Rightarrow> double" where
  \<comment> \<open>the quotient of two counters as doubles, 0 when the denominator is 0\<close>
  "ratio_u64 a b = (if 0 < b then real (unat a) / real (unat b) else 0)"

text \<open>The second component is the channel busy ratio logger, which \<open>ComputeCbr\<close> prunes; the third the
  delay after which the next sample is scheduled.\<close>

definition SampleAndWrite ::
    "double \<Rightarrow> node_tables \<Rightarrow> (u32 \<Rightarrow> vec3) \<Rightarrow> kpi_logger \<Rightarrow> cbr_logger
       \<Rightarrow> kpi_logger \<times> cbr_logger \<times> double" where
  "SampleAndWrite now nt pos k0 cbrLogger =
     (let k = PruneOldEvents now k0;
          denom = sample_denom k;
          numer = sample_numer k;
          prr = ratio_u64 numer denom;
          pirs = pir_values k;
          pirCount = of_nat (length pirs) :: u64;
          pirMean = (if 0 < pirCount then (\<Sum>p\<leftarrow>pirs. p) / real (unat pirCount) else 0);
          (cbr, cbrLogger') = (if k_hasCbrLogger k then ComputeCbr now cbrLogger else (0, cbrLogger));
          activeVehicleCount = CountActiveCoreVehicles k nt pos now;
          k1 = MaybePrintProgress now activeVehicleCount k;
          txCount = of_nat (length (k_txEvents k)) :: u64;
          row = \<lparr>kr_time = now, kr_txPower = k_currentP k, kr_beaconInterval = k_currentTb k,
                 kr_activeVehicleCount = activeVehicleCount, kr_txCount = txCount,
                 kr_denom = denom, kr_numer = numer,
                 kr_meanEligiblePerTx = ratio_u64 denom txCount,
                 kr_meanSuccessPerTx = ratio_u64 numer txCount, kr_prr = prr, kr_pirMean = pirMean,
                 kr_pirCount = pirCount, kr_cbr = cbr\<rparr>
      in (k1\<lparr>k_latestSample := \<lparr>ks_timeS = now, ks_txPowerDbm = k_currentP k,
               ks_beaconIntervalS = k_currentTb k,
               ks_activeVehicleCountCore = real (unat activeVehicleCount), ks_prrAwareness = prr,
               ks_pirS = pirMean, ks_cbr = cbr\<rparr>,
             k_hasLatestSample := True, k_out := k_out k1 @ [row]\<rparr>,
          cbrLogger', k_sampleTimeS k))"

section \<open>The window\<close>

lemma pop_old_rx_eq: "pop_old_rx cutoff rxs logged =
    (dropWhile (\<lambda>rx. rx_timeS rx < cutoff) rxs,
     logged - rx_triple ` set (takeWhile (\<lambda>rx. rx_timeS rx < cutoff) rxs))"
  by (induction cutoff rxs logged rule: pop_old_rx.induct) auto

lemma remove_inactive_rx_eq: "remove_inactive_rx active rxs logged =
    (filter (\<lambda>rx. rx_txkey rx \<in> active) rxs,
     logged - rx_triple ` {rx \<in> set rxs. rx_txkey rx \<notin> active})"
  by (induction active rxs logged rule: remove_inactive_rx.induct) auto

definition tx_receivers :: "tx_event \<Rightarrow> u32 set" where
  "tx_receivers tx = fst ` set (tx_rxDistanceAtTxM tx)"

definition tx_event_ok :: "tx_event \<Rightarrow> bool" where
  "tx_event_ok tx \<longleftrightarrow> distinct (map fst (tx_rxDistanceAtTxM tx))
     \<and> unat (tx_eligibleRxCount tx) = length (tx_rxDistanceAtTxM tx)"

text \<open>The triples are exactly those of the receptions, each reception is there once, and it belongs to
  a transmission of the window that counts its receiver; transmissions have different keys.\<close>

definition kpi_ok :: "kpi_logger \<Rightarrow> bool" where
  "kpi_ok k \<longleftrightarrow>
     k_loggedRxTriples k = rx_triple ` set (k_rxEvents k)
   \<and> distinct (map rx_triple (k_rxEvents k))
   \<and> (\<forall>rx \<in> set (k_rxEvents k). \<exists>tx \<in> set (k_txEvents k).
        tx_key tx = rx_txkey rx \<and> rx_rxVehicleId rx \<in> tx_receivers tx)
   \<and> distinct (map tx_key (k_txEvents k))
   \<and> (\<forall>tx \<in> set (k_txEvents k). tx_event_ok tx)"

lemma kpi_ok_prune:
  assumes "kpi_ok k"
  shows "kpi_ok (PruneOldEvents now k)"
proof -
  let ?old = "\<lambda>rx. rx_timeS rx < now - k_kpiWindowS k"
  define txs where "txs = dropWhile (\<lambda>tx. tx_timeS tx < now - k_kpiWindowS k) (k_txEvents k)"
  define rxs where "rxs = filter (\<lambda>rx. rx_txkey rx \<in> tx_key ` set txs) (dropWhile ?old (k_rxEvents k))"
  define drp where "drp = set (takeWhile ?old (k_rxEvents k))
    \<union> {rx \<in> set (dropWhile ?old (k_rxEvents k)). rx_txkey rx \<notin> tx_key ` set txs}"
  have P: "PruneOldEvents now k = k\<lparr>k_txEvents := txs, k_rxEvents := rxs,
      k_loggedRxTriples := k_loggedRxTriples k - rx_triple ` drp\<rparr>"
    by (simp add: PruneOldEvents_def pop_old_rx_eq remove_inactive_rx_eq txs_def rxs_def drp_def
        Let_def image_Un Diff_eq Int_assoc)
  have dist: "distinct (map rx_triple (k_rxEvents k))" and logged: "k_loggedRxTriples k = rx_triple ` set (k_rxEvents k)"
    and keys: "distinct (map tx_key (k_txEvents k))"
    using assms by (simp_all add: kpi_ok_def)
  have split: "set (k_rxEvents k) = set rxs \<union> drp"
    using set_append [of "takeWhile ?old (k_rxEvents k)" "dropWhile ?old (k_rxEvents k)"]
    by (auto simp: rxs_def drp_def)
  have "distinct (k_rxEvents k)" using dist by (simp add: distinct_map)
  then have "set (takeWhile ?old (k_rxEvents k)) \<inter> set (dropWhile ?old (k_rxEvents k)) = {}"
    by (metis distinct_append takeWhile_dropWhile_id)
  then have disj: "set rxs \<inter> drp = {}"
    by (auto simp: rxs_def drp_def)
  have inj: "inj_on rx_triple (set (k_rxEvents k))"
    using dist by (simp add: distinct_map)
  have "rx_triple ` set (k_rxEvents k) - rx_triple ` drp = rx_triple ` set rxs"
    using inj_on_image_set_diff [OF inj, of "set (k_rxEvents k)" drp] split disj by auto
  moreover have "distinct (map rx_triple rxs)"
  proof -
    have "distinct (map rx_triple (dropWhile ?old (k_rxEvents k)))"
      using dist by (metis distinct_append map_append takeWhile_dropWhile_id)
    then show ?thesis by (simp add: rxs_def distinct_map_filter)
  qed
  moreover have sub: "set txs \<subseteq> set (k_txEvents k)"
    unfolding txs_def by (rule dropWhile_subset)
  moreover have "distinct (map tx_key txs)"
    using keys unfolding txs_def by (metis distinct_append map_append takeWhile_dropWhile_id)
  moreover have "\<exists>tx \<in> set txs. tx_key tx = rx_txkey rx \<and> rx_rxVehicleId rx \<in> tx_receivers tx"
    if "rx \<in> set rxs" for rx
  proof -
    from that obtain tx where tx: "tx \<in> set txs" "tx_key tx = rx_txkey rx"
      by (auto simp: rxs_def)
    from that split assms obtain tx' where tx': "tx' \<in> set (k_txEvents k)" "tx_key tx' = rx_txkey rx"
      "rx_rxVehicleId rx \<in> tx_receivers tx'"
      unfolding kpi_ok_def by blast
    have "inj_on tx_key (set (k_txEvents k))" using keys by (simp add: distinct_map)
    with tx tx' sub have "tx = tx'" by (metis inj_onD subsetD)
    with tx tx' show ?thesis by blast
  qed
  ultimately show ?thesis
    using assms logged unfolding kpi_ok_def P by auto
qed

lemma prune_keys: "tx_key ` set (k_txEvents (PruneOldEvents now k)) \<subseteq> tx_key ` set (k_txEvents k)"
  using dropWhile_subset by (auto simp: PruneOldEvents_def Let_def case_prod_unfold dest!: set_dropWhileD)

lemma prune_length: "length (k_txEvents (PruneOldEvents now k)) \<le> length (k_txEvents k)"
  by (simp add: PruneOldEvents_def Let_def case_prod_unfold length_dropWhile_le)

section \<open>The eligible receivers\<close>

definition eligible_node ::
    "kpi_logger \<Rightarrow> node_tables \<Rightarrow> (u32 \<Rightarrow> vec3) \<Rightarrow> u32 \<Rightarrow> u32 \<Rightarrow> double \<Rightarrow> vec3 \<Rightarrow> u32 \<Rightarrow> bool" where
  "eligible_node k nt pos txVehicleId txNodeId timeS posTx node \<longleftrightarrow>
     node \<noteq> txNodeId \<and> IsNodeActiveAtTime nt node timeS
   \<and> ResolveVehicleIdForNode nt node \<notin> {kInvalidVehicleId, txVehicleId}
   \<and> IsInsideCore k (pos node) \<and> Distance2d posTx (pos node) \<le> k_awarenessRangeM k"

lemma eligible_step_eq: "eligible_step k nt pos v n t p node m =
    (if eligible_node k nt pos v n t p node
     then omap_put (ResolveVehicleIdForNode nt node) (Distance2d p (pos node)) m else m)"
  by (auto simp: eligible_step_def eligible_node_def Let_def)

lemma fold_eligible_ok:
  "omap_ok m \<Longrightarrow> omap_ok (fold (eligible_step k nt pos v n t p) nodes m)"
  by (induction nodes arbitrary: m) (simp_all add: eligible_step_eq)

lemma fold_eligible_keys:
  "fst ` set (fold (eligible_step k nt pos v n t p) nodes m)
     = fst ` set m \<union> ResolveVehicleIdForNode nt ` {node \<in> set nodes. eligible_node k nt pos v n t p node}"
  by (induction nodes arbitrary: m) (auto simp: eligible_step_eq)

lemma length_omap_u32:
  fixes m :: "(u32 \<times> 'a) list"
  assumes "omap_ok m" "x \<notin> fst ` set m"
  shows "unat (of_nat (length m) :: u32) = length m"
proof -
  have "length m = card (fst ` set m)"
    using omap_ok_distinct [OF assms(1)] distinct_card [of "map fst m"] by simp
  also have "\<dots> < card (UNIV :: u32 set)"
    using assms(2) by (intro psubset_card_mono) auto
  also have "card (UNIV :: u32 set) = 2 ^ 32" by (simp add: card_word)
  finally show ?thesis by (simp add: unsigned_of_nat take_bit_nat_eq_self)
qed

lemma tx_event_ok_eligible:
  "tx_event_ok \<lparr>tx_timeS = ts, tx_vehicleId = v, tx_seq = s,
     tx_eligibleRxCount = of_nat (length (fold (eligible_step k nt pos v n t p) nodes [])),
     tx_rxDistanceAtTxM = fold (eligible_step k nt pos v n t p) nodes []\<rparr>"
proof -
  let ?m = "fold (eligible_step k nt pos v n t p) nodes []"
  have ok: "omap_ok ?m" by (rule fold_eligible_ok) simp
  have "kInvalidVehicleId \<notin> fst ` set ?m"
    unfolding fold_eligible_keys by (auto simp: eligible_node_def)
  from length_omap_u32 [OF ok this] show ?thesis
    using omap_ok_distinct [OF ok] by (simp add: tx_event_ok_def)
qed

section \<open>Every operation keeps the window consistent\<close>

lemma LogTx_ok:
  assumes "kpi_ok k" "(v, s) \<notin> tx_key ` set (k_txEvents k)"
  shows "kpi_ok (LogTx now nt pos v n s t p k)"
proof -
  let ?m = "fold (eligible_step k nt pos v n t p) (k_nodes k) []"
  let ?ev = "\<lparr>tx_timeS = t, tx_vehicleId = v, tx_seq = s, tx_eligibleRxCount = of_nat (length ?m),
    tx_rxDistanceAtTxM = ?m\<rparr>"
  have "tx_key ?ev = (v, s)" by (simp add: tx_key_def)
  then have "kpi_ok (k\<lparr>k_txEvents := k_txEvents k @ [?ev]\<rparr>)"
    using assms tx_event_ok_eligible [of t v s k nt pos n t p "k_nodes k"]
    by (auto simp: kpi_ok_def)
  then show ?thesis
    using assms(1) kpi_ok_prune by (simp add: LogTx_def Let_def)
qed

lemma FindTxEvent_Some:
  "FindTxEvent k v s = Some tx \<Longrightarrow> tx \<in> set (k_txEvents k) \<and> tx_key tx = (v, s)"
  by (auto simp: FindTxEvent_def find_Some_iff tx_key_def) (metis nth_mem set_rev length_rev)

lemma LogRx_ok:
  assumes "kpi_ok k"
  shows "kpi_ok (LogRx now nt v r s t p k)"
proof -
  have new: "kpi_ok (k\<lparr>k_loggedRxTriples := insert (v, r, s) (k_loggedRxTriples k),
      k_lastRxTimePerPair := lp,
      k_rxEvents := k_rxEvents k @ [\<lparr>rx_timeS = t, rx_txVehicleId = v, rx_rxVehicleId = r,
         rx_seq = s, rx_pirS = pir\<rparr>]\<rparr>)"
    if tx: "FindTxEvent k v s = Some tx" "map_of (tx_rxDistanceAtTxM tx) r \<noteq> None"
      and fresh: "(v, r, s) \<notin> k_loggedRxTriples k" for tx lp pir
  proof -
    have "tx \<in> set (k_txEvents k)" "tx_key tx = (v, s)"
      using FindTxEvent_Some [OF tx(1)] by auto
    moreover have "r \<in> tx_receivers tx"
      using tx(2) by (simp add: tx_receivers_def map_of_eq_None_iff)
    moreover have "(v, r, s) \<notin> rx_triple ` set (k_rxEvents k)"
      using assms fresh by (simp add: kpi_ok_def)
    ultimately show ?thesis
      using assms by (auto simp: kpi_ok_def rx_triple_def rx_txkey_def)
  qed
  show ?thesis
    using assms new
    by (auto simp: LogRx_def Let_def intro!: kpi_ok_prune split: option.split)
qed
section \<open>Runs of the logger\<close>

text \<open>The calls the logger gets during a simulation, each with what it reads at that moment.\<close>

datatype kpi_op =
    OpTx double node_tables "u32 \<Rightarrow> vec3" u32 u32 u64 double vec3
  | OpRx double node_tables u32 u32 u64 double vec3
  | OpSample double node_tables "u32 \<Rightarrow> vec3"

fun kpi_step :: "kpi_op \<Rightarrow> kpi_logger \<times> cbr_logger \<Rightarrow> kpi_logger \<times> cbr_logger" where
  "kpi_step (OpTx now nt pos v n s t p) (k, c) = (LogTx now nt pos v n s t p k, c)"
| "kpi_step (OpRx now nt v r s t p) (k, c) = (LogRx now nt v r s t p k, c)"
| "kpi_step (OpSample now nt pos) (k, c) =
     (let (k', c', d) = SampleAndWrite now nt pos k c in (k', c'))"

definition kpi_run :: "kpi_op list \<Rightarrow> kpi_logger \<times> cbr_logger \<Rightarrow> kpi_logger \<times> cbr_logger" where
  "kpi_run ops s = fold kpi_step ops s"

fun op_tx_keys :: "kpi_op \<Rightarrow> (u32 \<times> u64) list" where
  "op_tx_keys (OpTx now nt pos v n s t p) = [(v, s)]"
| "op_tx_keys _ = []"

lemma SampleAndWrite_window:
  "k_txEvents (fst (SampleAndWrite now nt pos k c)) = k_txEvents (PruneOldEvents now k)"
  "k_rxEvents (fst (SampleAndWrite now nt pos k c)) = k_rxEvents (PruneOldEvents now k)"
  "k_loggedRxTriples (fst (SampleAndWrite now nt pos k c)) = k_loggedRxTriples (PruneOldEvents now k)"
  by (simp_all add: SampleAndWrite_def Let_def case_prod_unfold MaybePrintProgress_def)

lemma SampleAndWrite_ok: "kpi_ok k \<Longrightarrow> kpi_ok (fst (SampleAndWrite now nt pos k c))"
  using kpi_ok_prune [of k now] by (simp add: kpi_ok_def SampleAndWrite_window)

lemma kpi_step_ok:
  assumes "kpi_ok (fst s)" "set (op_tx_keys op) \<inter> tx_key ` set (k_txEvents (fst s)) = {}"
  shows "kpi_ok (fst (kpi_step op s))"
  using assms SampleAndWrite_ok
  by (cases s; cases op) (simp_all add: LogTx_ok LogRx_ok case_prod_unfold Let_def)

lemma kpi_step_keys:
  "tx_key ` set (k_txEvents (fst (kpi_step op s))) \<subseteq> set (op_tx_keys op) \<union> tx_key ` set (k_txEvents (fst s))"
  "length (k_txEvents (fst (kpi_step op s))) \<le> Suc (length (k_txEvents (fst s)))"
proof -
  obtain k c where s: "s = (k, c)" by (cases s)
  have *: "tx_key ` set (k_txEvents (fst (kpi_step op s))) \<subseteq> set (op_tx_keys op) \<union> tx_key ` set (k_txEvents k)
    \<and> length (k_txEvents (fst (kpi_step op s))) \<le> Suc (length (k_txEvents k))"
  proof (cases op)
    case (OpTx now nt pos v n sq t p)
    let ?m = "fold (eligible_step k nt pos v n t p) (k_nodes k) []"
    let ?ev = "\<lparr>tx_timeS = t, tx_vehicleId = v, tx_seq = sq, tx_eligibleRxCount = of_nat (length ?m),
      tx_rxDistanceAtTxM = ?m\<rparr>"
    have "tx_key ?ev = (v, sq)" by (simp add: tx_key_def)
    then show ?thesis
      using prune_keys [of now "k\<lparr>k_txEvents := k_txEvents k @ [?ev]\<rparr>"]
        prune_length [of now "k\<lparr>k_txEvents := k_txEvents k @ [?ev]\<rparr>"]
      by (auto simp: OpTx s LogTx_def Let_def)
  next
    case (OpRx now nt v r sq t p)
    have "tx_key ` set (k_txEvents (LogRx now nt v r sq t p k)) \<subseteq> tx_key ` set (k_txEvents k)
      \<and> length (k_txEvents (LogRx now nt v r sq t p k)) \<le> length (k_txEvents k)"
      unfolding LogRx_def Let_def
      by (simp split: option.split)
        (intro conjI impI allI order_trans [OF prune_keys] order_trans [OF prune_length]; simp)
    then show ?thesis by (simp add: OpRx s)
  next
    case (OpSample now nt pos)
    then show ?thesis
      using prune_keys [of now k] prune_length [of now k]
      by (simp add: s case_prod_unfold Let_def SampleAndWrite_window)
  qed
  from * show "tx_key ` set (k_txEvents (fst (kpi_step op s)))
      \<subseteq> set (op_tx_keys op) \<union> tx_key ` set (k_txEvents (fst s))"
    "length (k_txEvents (fst (kpi_step op s))) \<le> Suc (length (k_txEvents (fst s)))"
    by (simp_all add: s)
qed

lemma kpi_run_ok:
  assumes "kpi_ok (fst s)" "distinct (concat (map op_tx_keys ops))"
    "set (concat (map op_tx_keys ops)) \<inter> tx_key ` set (k_txEvents (fst s)) = {}"
  shows "kpi_ok (fst (kpi_run ops s))
    \<and> length (k_txEvents (fst (kpi_run ops s))) \<le> length ops + length (k_txEvents (fst s))"
  using assms
proof (induction ops arbitrary: s)
  case (Cons op ops)
  let ?s = "kpi_step op s"
  have "kpi_ok (fst ?s)"
    using Cons.prems by (intro kpi_step_ok) auto
  moreover have "set (concat (map op_tx_keys ops)) \<inter> tx_key ` set (k_txEvents (fst ?s)) = {}"
  proof -
    have "set (concat (map op_tx_keys ops)) \<inter> set (op_tx_keys op) = {}"
      using Cons.prems(2) by auto
    moreover have "set (concat (map op_tx_keys ops)) \<inter> tx_key ` set (k_txEvents (fst s)) = {}"
      using Cons.prems(3) by auto
    ultimately show ?thesis using kpi_step_keys(1) [of op s] by blast
  qed
  ultimately have "kpi_ok (fst (kpi_run ops ?s))
      \<and> length (k_txEvents (fst (kpi_run ops ?s))) \<le> length ops + length (k_txEvents (fst ?s))"
    using Cons.prems(2) by (intro Cons.IH) auto
  then show ?case
    using kpi_step_keys(2) [of op s] by (auto simp: kpi_run_def)
qed (simp add: kpi_run_def)

section \<open>The packet reception ratio\<close>

definition deliveries :: "kpi_logger \<Rightarrow> tx_event \<Rightarrow> u32 set" where
  "deliveries k tx = {r \<in> tx_receivers tx. (tx_vehicleId tx, r, tx_seq tx) \<in> k_loggedRxTriples k}"

lemma card_triples:
  assumes "distinct (map tx_key txs)"
    "T = (\<Union>tx \<in> set txs. (\<lambda>r. (tx_vehicleId tx, r, tx_seq tx)) ` D tx)" "\<forall>tx. finite (D tx)"
  shows "card T = (\<Sum>tx\<leftarrow>txs. card (D tx))"
  using assms(1,2)
proof (induction txs arbitrary: T)
  case (Cons tx txs)
  let ?f = "\<lambda>tx r. (tx_vehicleId tx, r, tx_seq tx)"
  let ?T = "\<Union>tx \<in> set txs. ?f tx ` D tx"
  have "?f tx ` D tx \<inter> ?T = {}"
    using Cons.prems(1) by (auto simp: tx_key_def image_iff)
  moreover have "finite ?T" "finite (?f tx ` D tx)"
    using assms(3) by auto
  moreover have "card (?f tx ` D tx) = card (D tx)"
    by (intro card_image) (auto simp: inj_on_def)
  ultimately have "card (?f tx ` D tx \<union> ?T) = card (D tx) + card ?T"
    by (simp add: card_Un_disjoint)
  then show ?case
    using Cons by (simp add: Cons.prems(2))
qed simp

lemma unique_rx_triples_eq:
  assumes "kpi_ok k"
  shows "unique_rx_triples k = (\<Union>tx \<in> set (k_txEvents k). (\<lambda>r. (tx_vehicleId tx, r, tx_seq tx)) ` deliveries k tx)"
    (is "_ = ?T")
proof
  show "unique_rx_triples k \<subseteq> ?T"
  proof
    fix x assume "x \<in> unique_rx_triples k"
    then obtain rx where rx: "rx \<in> set (k_rxEvents k)" "x = rx_triple rx"
      by (auto simp: unique_rx_triples_def)
    with assms obtain tx where tx: "tx \<in> set (k_txEvents k)" "tx_key tx = rx_txkey rx"
      "rx_rxVehicleId rx \<in> tx_receivers tx"
      unfolding kpi_ok_def by blast
    have "x \<in> k_loggedRxTriples k" using assms rx by (simp add: kpi_ok_def)
    with tx rx(2) show "x \<in> ?T"
      by (force simp: deliveries_def rx_triple_def rx_txkey_def tx_key_def)
  qed
  show "?T \<subseteq> unique_rx_triples k"
  proof
    fix x assume "x \<in> ?T"
    then obtain tx r where tx: "tx \<in> set (k_txEvents k)" "x = (tx_vehicleId tx, r, tx_seq tx)"
      "x \<in> k_loggedRxTriples k"
      by (auto simp: deliveries_def)
    then obtain rx where "rx \<in> set (k_rxEvents k)" "x = rx_triple rx"
      using assms by (auto simp: kpi_ok_def)
    with tx show "x \<in> unique_rx_triples k"
      by (force simp: unique_rx_triples_def rx_triple_def rx_txkey_def tx_key_def)
  qed
qed

lemma sample_numer_eq:
  assumes "kpi_ok k"
  shows "card (unique_rx_triples k) = (\<Sum>tx\<leftarrow>k_txEvents k. card (deliveries k tx))"
  using assms
  by (intro card_triples unique_rx_triples_eq)
    (auto simp: kpi_ok_def deliveries_def tx_receivers_def)

lemma fold_denom:
  assumes "unat d + (\<Sum>tx\<leftarrow>txs. unat (tx_eligibleRxCount tx)) < 2 ^ 64"
  shows "unat (fold (\<lambda>tx d. d + ucast (tx_eligibleRxCount tx)) txs (d :: u64))
    = unat d + (\<Sum>tx\<leftarrow>txs. unat (tx_eligibleRxCount tx))"
  using assms
proof (induction txs arbitrary: d)
  case (Cons tx txs)
  have "unat (d + ucast (tx_eligibleRxCount tx)) = unat d + unat (tx_eligibleRxCount tx)"
    using Cons.prems by (subst unat_add_lem [THEN iffD1]) (simp_all add: unat_ucast_u32_u64)
  with Cons show ?case by simp
qed simp

lemma sum_eligible_bound:
  "(\<Sum>tx\<leftarrow>txs. unat (tx_eligibleRxCount tx)) \<le> length txs * 2 ^ 32"
proof (induction txs)
  case (Cons tx txs)
  then show ?case using unat_u32_less [of "tx_eligibleRxCount tx"] by simp
qed simp

lemma card_tx_receivers: "tx_event_ok tx \<Longrightarrow> card (tx_receivers tx) = unat (tx_eligibleRxCount tx)"
  using distinct_card [of "map fst (tx_rxDistanceAtTxM tx)"] by (simp add: tx_event_ok_def tx_receivers_def)

lemma sample_denom_eq:
  assumes "kpi_ok k" "length (k_txEvents k) < 2 ^ 32"
  shows "unat (sample_denom k) = (\<Sum>tx\<leftarrow>k_txEvents k. card (tx_receivers tx))"
proof -
  let ?S = "\<Sum>tx\<leftarrow>k_txEvents k. unat (tx_eligibleRxCount tx)"
  have "?S < 2 ^ 64"
    using sum_eligible_bound [of "k_txEvents k"] assms(2) by simp
  then have "unat (sample_denom k) = ?S"
    using fold_denom [of 0 "k_txEvents k"] by (simp add: sample_denom_def)
  also have "?S = (\<Sum>tx\<leftarrow>k_txEvents k. card (tx_receivers tx))"
    using assms(1) card_tx_receivers by (intro arg_cong [where f = sum_list] map_cong) (auto simp: kpi_ok_def)
  finally show ?thesis .
qed

lemma deliveries_le: "card (deliveries k tx) \<le> card (tx_receivers tx)"
  by (intro card_mono) (auto simp: deliveries_def tx_receivers_def)

lemma sample_numer_le:
  assumes "kpi_ok k" "length (k_txEvents k) < 2 ^ 32"
  shows "unat (sample_numer k) = (\<Sum>tx\<leftarrow>k_txEvents k. card (deliveries k tx))"
    "unat (sample_numer k) \<le> unat (sample_denom k)"
proof -
  have le: "(\<Sum>tx\<leftarrow>k_txEvents k. card (deliveries k tx)) \<le> unat (sample_denom k)"
    unfolding sample_denom_eq [OF assms] by (intro sum_list_mono deliveries_le)
  then have "card (unique_rx_triples k) < 2 ^ 64"
    using unat_u64_less [of "sample_denom k"] by (simp add: sample_numer_eq [OF assms(1)])
  then show eq: "unat (sample_numer k) = (\<Sum>tx\<leftarrow>k_txEvents k. card (deliveries k tx))"
    by (simp add: sample_numer_def unsigned_of_nat take_bit_nat_eq_self sample_numer_eq [OF assms(1)])
  with le show "unat (sample_numer k) \<le> unat (sample_denom k)" by simp
qed

lemma kpi_Configure_ok:
  "kpi_Configure ns hc op aw w st es ee ecf ax lo hi kpi_logger_new = Inr k \<Longrightarrow>
     kpi_ok k \<and> k_txEvents k = []"
  by (auto simp: kpi_Configure_def kpi_logger_new_def kpi_ok_def Let_def split: if_splits)

lemma ratio_u64_bounds:
  assumes "unat a \<le> unat b"
  shows "0 \<le> ratio_u64 a b" "ratio_u64 a b \<le> 1"
proof -
  have *: "0 \<le> real m / real n \<and> real m / real n \<le> 1" if "m \<le> n" for m n :: nat
    using that by (cases "n = 0") (simp_all add: divide_le_eq_1)
  show "0 \<le> ratio_u64 a b" "ratio_u64 a b \<le> 1"
    using * [OF assms] unfolding ratio_u64_def by (simp_all only: split: if_split) simp_all
qed

text \<open>C2: in every run of a configured logger in which no vehicle uses a sequence number twice, a sample
  counts as opportunities the eligible receivers of the transmissions in the window, and as successes
  those of them whose reception was logged, each once. So successes never exceed opportunities and
  the packet reception ratio is between 0 and 1.\<close>

theorem kpi_sample_counts:
  assumes "kpi_Configure ns hc True aw w st es ee ecf ax lo hi kpi_logger_new = Inr k0"
    "distinct (concat (map op_tx_keys ops))" "length ops < 2 ^ 32"
    "kpi_run ops (k0, c0) = (k, c)" "SampleAndWrite now nt pos k c = (k', c', d)"
  shows "unat (kr_denom (last (k_out k'))) = (\<Sum>tx\<leftarrow>k_txEvents k'. card (tx_receivers tx))
    \<and> unat (kr_numer (last (k_out k'))) = (\<Sum>tx\<leftarrow>k_txEvents k'. card (deliveries k' tx))
    \<and> unat (kr_numer (last (k_out k'))) \<le> unat (kr_denom (last (k_out k')))
    \<and> 0 \<le> kr_prr (last (k_out k')) \<and> kr_prr (last (k_out k')) \<le> 1
    \<and> ks_prrAwareness (k_latestSample k') = kr_prr (last (k_out k'))"
proof -
  note k0 = kpi_Configure_ok [OF assms(1)]
  have run: "kpi_ok k" "length (k_txEvents k) < 2 ^ 32"
    using kpi_run_ok [of "(k0, c0)" ops] k0 assms(2-4) by auto
  let ?k = "PruneOldEvents now k"
  have ok: "kpi_ok ?k" "length (k_txEvents ?k) < 2 ^ 32"
    using kpi_ok_prune [OF run(1)] prune_length [of now k] run(2) by auto
  have k': "k' = fst (SampleAndWrite now nt pos k c)"
    using assms(5) by simp
  have win: "k_txEvents k' = k_txEvents ?k" "deliveries k' = deliveries ?k"
    by (simp_all add: k' SampleAndWrite_window deliveries_def fun_eq_iff)
  have row: "kr_denom (last (k_out k')) = sample_denom ?k" "kr_numer (last (k_out k')) = sample_numer ?k"
    "kr_prr (last (k_out k')) = ratio_u64 (sample_numer ?k) (sample_denom ?k)"
    "ks_prrAwareness (k_latestSample k') = ratio_u64 (sample_numer ?k) (sample_denom ?k)"
    by (simp_all add: k' SampleAndWrite_def Let_def case_prod_unfold)
  show ?thesis
    using sample_denom_eq [OF ok] sample_numer_le [OF ok] ratio_u64_bounds by (simp add: row win)
qed

text \<open>Two devices ten metres apart; the first transmits, the second receives, twice the same packet.\<close>

definition sample_tables :: node_tables where
  "sample_tables = \<lparr>nt_vehicleToNode = [101 \<mapsto> 0, 102 \<mapsto> 1], nt_nodeToVehicle = [0 \<mapsto> 101, 1 \<mapsto> 102],
     nt_activeRange = Map.empty, nt_dynamic = True\<rparr>"

definition sample_pos :: "u32 \<Rightarrow> vec3" where
  "sample_pos n = vec 0 (10 * real (unat n)) 0"

definition sample_kpi :: kpi_logger where
  "sample_kpi = kpi_logger_new\<lparr>k_coreMax := 100, k_nodes := [0, 1], k_enableCoreFilter := False\<rparr>"

definition sample_ops :: "kpi_op list" where
  "sample_ops = [OpTx 1 sample_tables sample_pos 101 0 0 1 (sample_pos 0),
     OpRx 1 sample_tables 101 102 0 1 (sample_pos 1), OpRx 1 sample_tables 101 102 0 1 (sample_pos 1)]"

lemma sample_Configure:
  "kpi_Configure [0, 1] False True 150 1 (1 / 2) 0 (- 1) False ''y'' 0 100 kpi_logger_new = Inr sample_kpi"
  by (simp add: kpi_Configure_def sample_kpi_def kpi_logger_new_def)

lemmas sample_kpi_simps = sample_ops_def sample_tables_def sample_pos_def sample_kpi_def kpi_logger_new_def
  kpi_run_def LogTx_def LogRx_def IsNodeActiveAtTime_def IsNodeAssignedToVehicle_def
  ResolveVehicleIdForNode_def ResolveNodeIdForVehicle_def kpi_IsInsideEvaluationWindow_def
  IsInsideCore_def kInvalidVehicleId_def eligible_step_def Distance2d_def PruneOldEvents_def
  tx_key_def rx_txkey_def rx_triple_def FindTxEvent_def

lemma sample_run_txEvents:
  "k_txEvents (fst (kpi_run sample_ops (sample_kpi, cbr_logger_new)))
     = [\<lparr>tx_timeS = 1, tx_vehicleId = 101, tx_seq = 0, tx_eligibleRxCount = 1,
         tx_rxDistanceAtTxM = [(102, 10)]\<rparr>]"
  by (simp add: sample_kpi_simps Let_def)

lemma sample_run_window: "k_kpiWindowS (fst (kpi_run sample_ops (sample_kpi, cbr_logger_new))) = 1"
  by (simp add: sample_kpi_simps Let_def)

theorem kpi_sample_counts_witness:
  "\<exists>k c k' c' d. kpi_run sample_ops (sample_kpi, cbr_logger_new) = (k, c)
    \<and> SampleAndWrite (3 / 2) sample_tables sample_pos k c = (k', c', d)
    \<and> unat (kr_denom (last (k_out k'))) = 1 \<and> kr_prr (last (k_out k')) \<le> 1"
proof -
  obtain k c where run: "kpi_run sample_ops (sample_kpi, cbr_logger_new) = (k, c)" by force
  obtain k' c' d where smp: "SampleAndWrite (3 / 2) sample_tables sample_pos k c = (k', c', d)"
    by (cases "SampleAndWrite (3 / 2) sample_tables sample_pos k c")
  have w: "k_kpiWindowS k = 1"
    using sample_run_window run by simp
  have "k_txEvents k' = k_txEvents (PruneOldEvents (3 / 2) k)"
    using SampleAndWrite_window(1) [of "3 / 2" sample_tables sample_pos k c] smp by simp
  also have "\<dots> = [\<lparr>tx_timeS = 1, tx_vehicleId = 101, tx_seq = 0, tx_eligibleRxCount = 1,
      tx_rxDistanceAtTxM = [(102, 10)]\<rparr>]"
    using sample_run_txEvents run w by (simp add: PruneOldEvents_def Let_def case_prod_unfold)
  finally have tx: "k_txEvents k' = \<dots>" .
  show ?thesis
    using kpi_sample_counts [OF sample_Configure _ _ run smp] run smp
    by (simp add: tx tx_receivers_def sample_ops_def)
qed

lemma fold_eligible_distance:
  assumes "tables_ok nt" "node \<in> set nodes" "eligible_node k nt pos v n t p node"
  shows "map_of (fold (eligible_step k nt pos v n t p) nodes m) (ResolveVehicleIdForNode nt node)
    = Some (Distance2d p (pos node))"
  using assms(2)
proof (induction nodes rule: rev_induct)
  case (snoc x nodes)
  let ?V = "ResolveVehicleIdForNode nt"
  have uniq: "x = node" if "?V x = ?V node"
    using tables.vehicle_unique [OF assms(1) that] assms(3) that by (simp add: eligible_node_def)
  let ?f = "fold (eligible_step k nt pos v n t p) nodes m"
  have step: "fold (eligible_step k nt pos v n t p) (nodes @ [x]) m
    = (if eligible_node k nt pos v n t p x then omap_put (?V x) (Distance2d p (pos x)) ?f else ?f)"
    by (simp only: fold_append fold.simps comp_apply id_apply eligible_step_eq [of k nt pos v n t p x])
  show ?case
  proof (cases "eligible_node k nt pos v n t p x \<and> ?V x = ?V node")
    case True
    then have "x = node" using uniq by blast
    with True show ?thesis unfolding step by simp
  next
    case False
    then have "x \<noteq> node" using assms(3) by blast
    with snoc have "map_of ?f (?V node) = Some (Distance2d p (pos node))" by simp
    with False show ?thesis unfolding step by auto
  qed
qed simp

lemma last_dropWhile: "xs \<noteq> [] \<Longrightarrow> \<not> P (last xs) \<Longrightarrow> last (dropWhile P xs) = last xs"
  by (induction xs) auto

text \<open>C25: a transmission that passes the filters is recorded with exactly the receivers the awareness
  range asks for: the vehicles of the other active devices inside the core and within range, each
  with the distance of its device.\<close>

theorem LogTx_receivers:
  assumes "tables_ok nt" "v \<noteq> kInvalidVehicleId" "ResolveVehicleIdForNode nt n = v"
    "IsNodeActiveAtTime nt n t" "kpi_IsInsideEvaluationWindow k t" "IsInsideCore k p"
    "now - k_kpiWindowS k \<le> t"
  shows "\<exists>tx. last (k_txEvents (LogTx now nt pos v n s t p k)) = tx
    \<and> tx_key tx = (v, s) \<and> tx_timeS tx = t
    \<and> tx_receivers tx = ResolveVehicleIdForNode nt ` {node \<in> set (k_nodes k). eligible_node k nt pos v n t p node}
    \<and> unat (tx_eligibleRxCount tx) = card (tx_receivers tx)
    \<and> (\<forall>node \<in> set (k_nodes k). eligible_node k nt pos v n t p node \<longrightarrow>
         map_of (tx_rxDistanceAtTxM tx) (ResolveVehicleIdForNode nt node) = Some (Distance2d p (pos node)))"
proof -
  let ?m = "fold (eligible_step k nt pos v n t p) (k_nodes k) []"
  let ?ev = "\<lparr>tx_timeS = t, tx_vehicleId = v, tx_seq = s, tx_eligibleRxCount = of_nat (length ?m),
    tx_rxDistanceAtTxM = ?m\<rparr>"
  have "LogTx now nt pos v n s t p k = PruneOldEvents now (k\<lparr>k_txEvents := k_txEvents k @ [?ev]\<rparr>)"
    using assms(2-6) by (simp add: LogTx_def IsNodeAssignedToVehicle_def Let_def)
  then have "last (k_txEvents (LogTx now nt pos v n s t p k)) = ?ev"
    using assms(7) last_dropWhile [of "k_txEvents k @ [?ev]" "\<lambda>tx. tx_timeS tx < now - k_kpiWindowS k"]
    by (simp add: PruneOldEvents_def Let_def case_prod_unfold)
  moreover have "tx_receivers ?ev
      = ResolveVehicleIdForNode nt ` {node \<in> set (k_nodes k). eligible_node k nt pos v n t p node}"
    using fold_eligible_keys [of k nt pos v n t p "k_nodes k" "[]"] by (simp add: tx_receivers_def)
  moreover have "unat (tx_eligibleRxCount ?ev) = card (tx_receivers ?ev)"
    using card_tx_receivers [OF tx_event_ok_eligible] by (rule sym)
  moreover have "map_of (tx_rxDistanceAtTxM ?ev) (ResolveVehicleIdForNode nt node) = Some (Distance2d p (pos node))"
    if "node \<in> set (k_nodes k)" "eligible_node k nt pos v n t p node" for node
    using fold_eligible_distance [OF assms(1) that] by simp
  ultimately show ?thesis
    by (intro exI [of _ ?ev]) (simp add: tx_key_def)
qed

lemma sample_tables_ok: "tables_ok sample_tables"
  by (auto simp: tables_ok_def sample_tables_def kInvalidVehicleId_def split: if_splits)

theorem LogTx_receivers_witness:
  "\<exists>tx. last (k_txEvents (LogTx 1 sample_tables sample_pos 101 0 0 1 (sample_pos 0) sample_kpi)) = tx
    \<and> tx_key tx = (101, 0) \<and> unat (tx_eligibleRxCount tx) = card (tx_receivers tx)"
proof -
  have "kInvalidVehicleId \<noteq> 101" "ResolveVehicleIdForNode sample_tables 0 = 101"
    "IsNodeActiveAtTime sample_tables 0 1" "kpi_IsInsideEvaluationWindow sample_kpi 1"
    "IsInsideCore sample_kpi (sample_pos 0)" "1 - k_kpiWindowS sample_kpi \<le> 1"
    by (simp_all add: sample_kpi_simps)
  from LogTx_receivers [OF sample_tables_ok this(1) [symmetric] this(2-6)] show ?thesis by blast
qed




end
