(* ===== verification/CamApplication.thy ===== *)
theory CamApplication
  imports KpiLogger TagBuffer
begin

text \<open>
  The application of one device (\<open>class CamApplication\<close>): it starts and stops the dissemination of
  CAMs as its device is given and loses a vehicle, tags and logs every CAM it sends, and logs the
  CAMs it receives.

  The CAM service, the BTP and GeoNetworking layers and the sockets are third-party objects: what the
  application asks of them is the list \<open>ca_calls\<close>, and what it reads back (whether \<open>Bind\<close> and
  \<open>Connect\<close> succeed, the tag, the source address and the station id of a received packet) is an
  argument. A null packet is \<open>None\<close>.
\<close>

section \<open>State\<close>

datatype ca_call =
    SetBTP
  | SetVDP
  | BtpSetVDP
  | SetStationProperties u32
  | SetRealTime bool
  | SetSocketTx
  | SetSocketRx
  | AddCATxPacketCallback
  | AddCARxPacketCallback
  | StartCamDissemination double
  | TerminateDissemination

record cam_app =
  ca_nodeId :: u32
  ca_groupIpv4 :: u32
  ca_port :: u16
  ca_socketOpen :: bool
  ca_hasBtp :: bool \<comment> \<open>\<open>m_btp\<close> and \<open>m_geoNet\<close>, which are created together\<close>
  ca_hasVdp :: bool
  ca_T_GenCamMax_ms :: int
  ca_T_GenCamMin_ms :: int
  ca_running :: bool
  ca_disseminating :: bool
  ca_useEtsiCamGeneration :: bool
  ca_assignedVehicleId :: u32
  ca_tGenCamMaxS :: double
  ca_nextKpiSequence :: u64
  ca_calls :: "ca_call list"

definition ca_call :: "ca_call \<Rightarrow> cam_app \<Rightarrow> cam_app" where
  "ca_call c a = a\<lparr>ca_calls := ca_calls a @ [c]\<rparr>"

text \<open>The limits of the CAM service have initial values of its own.\<close>

definition cam_app_new :: "int \<Rightarrow> int \<Rightarrow> cam_app" where
  "cam_app_new genMax genMin =
     \<lparr>ca_nodeId = 0, ca_groupIpv4 = 0, ca_port = 8000, ca_socketOpen = False, ca_hasBtp = False,
      ca_hasVdp = False, ca_T_GenCamMax_ms = genMax, ca_T_GenCamMin_ms = genMin, ca_running = False,
      ca_disseminating = False, ca_useEtsiCamGeneration = True,
      ca_assignedVehicleId = kInvalidVehicleId, ca_tGenCamMaxS = 1, ca_nextKpiSequence = 0,
      ca_calls = []\<rparr>"

definition cam_Setup :: "u32 \<Rightarrow> u32 \<Rightarrow> u16 \<Rightarrow> cam_app \<Rightarrow> cam_app" where
  "cam_Setup node groupIpv4 port a = a\<lparr>ca_nodeId := node, ca_groupIpv4 := groupIpv4, ca_port := port\<rparr>"

definition SetBeaconInterval :: "double \<Rightarrow> cam_app \<Rightarrow> cam_app" where
  "SetBeaconInterval tb a =
     (let tGen = max (1 / 10) tb;
          ms = llround (tGen * 1000);
          a' = a\<lparr>ca_tGenCamMaxS := tGen, ca_T_GenCamMax_ms := ms\<rparr>
      in if \<not> ca_useEtsiCamGeneration a then a'\<lparr>ca_T_GenCamMin_ms := ms\<rparr> else a')"

definition SetEtsiCamGeneration :: "bool \<Rightarrow> cam_app \<Rightarrow> cam_app" where
  "SetEtsiCamGeneration enable a = a\<lparr>ca_useEtsiCamGeneration := enable\<rparr>"

section \<open>Dissemination\<close>

definition ConfigureVehicleServiceState :: "cam_app \<Rightarrow> cam_app" where
  "ConfigureVehicleServiceState a =
     (if \<not> ca_hasBtp a then a
      else let stationId = (if ca_assignedVehicleId a = kInvalidVehicleId then ca_nodeId a
                            else ca_assignedVehicleId a)
           in ca_call (SetStationProperties stationId)
                (ca_call BtpSetVDP (ca_call SetVDP (a\<lparr>ca_hasVdp := True\<rparr>))))"

definition fmod1 :: "double \<Rightarrow> double" where
  \<comment> \<open>\<open>std::fmod(x, 1.0)\<close>, whose result has the sign of \<open>x\<close>\<close>
  "fmod1 x = (if 0 \<le> x then x - of_int \<lfloor>x\<rfloor> else x + of_int \<lfloor>- x\<rfloor>)"

definition GetDeterministicDesync :: "cam_app \<Rightarrow> double" where
  "GetDeterministicDesync a =
     (let identity = (if ca_assignedVehicleId a = kInvalidVehicleId then ca_nodeId a
                      else ca_assignedVehicleId a);
          fractional = fmod1 (real (unat (identity + 1)) * (6180339887498948 / 10000000000000000))
      in fractional * max (1 / 10) (ca_tGenCamMaxS a))"

definition StartCamIfReady :: "cam_app \<Rightarrow> cam_app" where
  "StartCamIfReady a =
     (if \<not> ca_running a \<or> ca_disseminating a \<or> ca_assignedVehicleId a = kInvalidVehicleId then a
      else let a1 = ca_call (SetStationProperties (ca_assignedVehicleId a)) a;
               desyncS = GetDeterministicDesync a1
           in (ca_call (StartCamDissemination desyncS) a1)\<lparr>ca_disseminating := True\<rparr>)"

definition StopCamIfRunning :: "cam_app \<Rightarrow> cam_app" where
  "StopCamIfRunning a =
     (if \<not> ca_disseminating a then a
      else (ca_call TerminateDissemination a)\<lparr>ca_disseminating := False\<rparr>)"

definition cam_AssignVehicle :: "u32 \<Rightarrow> cam_app \<Rightarrow> cam_app" where
  "cam_AssignVehicle vehicleId a =
     (let a1 = a\<lparr>ca_assignedVehicleId := vehicleId\<rparr>
      in if ca_running a1 then StartCamIfReady (ConfigureVehicleServiceState a1) else a1)"

definition cam_ReleaseVehicle :: "cam_app \<Rightarrow> cam_app" where
  "cam_ReleaseVehicle a =
     (let a1 = (StopCamIfRunning a)\<lparr>ca_assignedVehicleId := kInvalidVehicleId\<rparr>
      in if ca_running a1 then ConfigureVehicleServiceState a1 else a1)"

definition StartApplication :: "bool \<Rightarrow> bool \<Rightarrow> cam_app \<Rightarrow> cam_app result" where
  \<comment> \<open>the flags say whether \<open>Bind\<close> and \<open>Connect\<close> succeed\<close>
  "StartApplication bindOk connectOk a =
     (let a1 = a\<lparr>ca_running := True, ca_socketOpen := True\<rparr> in
      if \<not> bindOk then Inl (Fatal ''Bind failed'')
      else if \<not> connectOk then Inl (Fatal ''Connect failed'')
      else
        let a2 = ca_call SetBTP (a1\<lparr>ca_hasVdp := True, ca_hasBtp := True\<rparr>);
            a3 = ConfigureVehicleServiceState a2;
            a4 = fold ca_call [SetRealTime False, SetSocketTx, SetSocketRx, AddCATxPacketCallback,
                               AddCARxPacketCallback] a3
        in Inr (StartCamIfReady a4))"

definition StopApplication :: "cam_app \<Rightarrow> cam_app" where
  "StopApplication a =
     (let a1 = StopCamIfRunning (a\<lparr>ca_running := False\<rparr>)
      in if ca_socketOpen a1 then a1\<lparr>ca_socketOpen := False\<rparr> else a1)"

section \<open>Sending and receiving\<close>

text \<open>\<open>TagAndLogTx\<close>: the tag the packet gets (\<open>None\<close> when the callback returns early), the
  application and the logger afterwards. \<open>nowNs\<close> is \<open>Simulator::Now()\<close> in nanoseconds.\<close>

definition TagAndLogTx ::
    "int \<Rightarrow> node_tables \<Rightarrow> (u32 \<Rightarrow> vec3) \<Rightarrow> bool \<Rightarrow> cam_app \<times> kpi_logger
       \<Rightarrow> kpi_tag option \<times> cam_app \<times> kpi_logger" where
  "TagAndLogTx nowNs nt pos hasPacket s =
     (let (a, k) = s in
      if \<not> ca_running a \<or> ca_assignedVehicleId a = kInvalidVehicleId \<or> \<not> hasPacket
      then (None, a, k)
      else
        let kpiSeq = ca_nextKpiSequence a;
            a' = a\<lparr>ca_nextKpiSequence := kpiSeq + 1\<rparr>;
            tag = \<lparr>kt_sequence = kpiSeq, kt_txTimeNs = word_of_int nowNs,
                   kt_txVehicleId = ca_assignedVehicleId a\<rparr>;
            now = seconds_of_ns nowNs
        in (Some tag, a', LogTx now nt pos (ca_assignedVehicleId a) (ca_nodeId a) kpiSeq now
                            (pos (ca_nodeId a)) k))"

text \<open>A received packet: its size, its tag (the result of \<open>PeekPacketTag\<close>), the IPv4 address it
  came from and the station id of the decoded CAM.\<close>

record rx_packet =
  pk_size :: nat
  pk_tag :: "kpi_tag option"
  pk_srcIp :: u32
  pk_stationId :: u32

definition ReceiveCam ::
    "int \<Rightarrow> node_tables \<Rightarrow> (u32 \<Rightarrow> vec3) \<Rightarrow> rx_packet option \<Rightarrow> cam_app \<Rightarrow> kpi_logger \<Rightarrow> kpi_logger" where
  "ReceiveCam nowNs nt pos packet a k =
     (case packet of
        None \<Rightarrow> k
      | Some pk \<Rightarrow>
          if ca_assignedVehicleId a = kInvalidVehicleId \<or> pk_size pk = 0 then k
          else case pk_tag pk of
            None \<Rightarrow> k
          | Some tag \<Rightarrow>
              let txNodeId = ResolveNodeIdFromIpv4 k (pk_srcIp pk) in
              if txNodeId = - 1 then k
              else let kpiSeq = kt_sequence tag; txVehicleId = kt_txVehicleId tag in
                if txVehicleId = kInvalidVehicleId \<or> pk_stationId pk \<noteq> txVehicleId \<or>
                   \<not> IsNodeAssignedToVehicle nt txNodeId txVehicleId
                then k
                else LogRx (seconds_of_ns nowNs) nt txVehicleId (ca_assignedVehicleId a) kpiSeq
                       (seconds_of_ns nowNs) (pos (ca_nodeId a)) k)"

section \<open>Dissemination follows the assignment\<close>

text \<open>What the CAM service has been told: whether dissemination is on, and the last station id.\<close>

fun service_step :: "bool \<Rightarrow> ca_call \<Rightarrow> bool" where
  "service_step on (StartCamDissemination d) = True"
| "service_step on TerminateDissemination = False"
| "service_step on _ = on"

fun station_step :: "u32 option \<Rightarrow> ca_call \<Rightarrow> u32 option" where
  "station_step st (SetStationProperties i) = Some i"
| "station_step st _ = st"

definition service_on :: "ca_call list \<Rightarrow> bool" where
  "service_on cs = foldl service_step False cs"

definition told_station :: "ca_call list \<Rightarrow> u32 option" where
  "told_station cs = foldl station_step None cs"

definition station_id :: "cam_app \<Rightarrow> u32" where
  "station_id a = (if ca_assignedVehicleId a = kInvalidVehicleId then ca_nodeId a
                   else ca_assignedVehicleId a)"

definition cam_ok :: "cam_app \<Rightarrow> bool" where
  "cam_ok a \<longleftrightarrow>
     (ca_disseminating a \<longleftrightarrow> ca_running a \<and> ca_assignedVehicleId a \<noteq> kInvalidVehicleId)
   \<and> (service_on (ca_calls a) \<longleftrightarrow> ca_disseminating a)
   \<and> (ca_running a \<longrightarrow> ca_hasBtp a \<and> told_station (ca_calls a) = Some (station_id a))"

text \<open>The events in the life of an application after \<open>Setup\<close>.\<close>

inductive cam_step :: "cam_app \<Rightarrow> cam_app \<Rightarrow> bool" where
  start: "StartApplication b c a = Inr a' \<Longrightarrow> \<not> ca_running a \<Longrightarrow> cam_step a a'"
| stop: "cam_step a (StopApplication a)"
| assign: "v \<noteq> kInvalidVehicleId \<Longrightarrow> cam_step a (cam_AssignVehicle v a)"
| release: "cam_step a (cam_ReleaseVehicle a)"
| beacon: "cam_step a (SetBeaconInterval tb a)"
| etsi: "cam_step a (SetEtsiCamGeneration e a)"
| send: "TagAndLogTx nowNs nt pos p (a, k) = (t, a', k') \<Longrightarrow> cam_step a a'"

inductive cam_reachable :: "cam_app \<Rightarrow> bool" where
  init: "cam_reachable (cam_Setup node ip port (cam_app_new genMax genMin))"
| step: "cam_reachable a \<Longrightarrow> cam_step a a' \<Longrightarrow> cam_reachable a'"

lemma service_on_append [simp]:
  "service_on [] = False" "service_on (cs @ ds) = foldl service_step (service_on cs) ds"
  by (simp_all add: service_on_def)

lemma told_station_append [simp]:
  "told_station [] = None" "told_station (cs @ ds) = foldl station_step (told_station cs) ds"
  by (simp_all add: told_station_def)

lemma ca_call_simps [simp]:
  "ca_calls (ca_call c a) = ca_calls a @ [c]" "ca_running (ca_call c a) = ca_running a"
  "ca_disseminating (ca_call c a) = ca_disseminating a"
  "ca_assignedVehicleId (ca_call c a) = ca_assignedVehicleId a"
  "ca_hasBtp (ca_call c a) = ca_hasBtp a" "ca_nodeId (ca_call c a) = ca_nodeId a"
  by (simp_all add: ca_call_def)

lemmas cam_defs = cam_ok_def station_id_def StopCamIfRunning_def StartCamIfReady_def
  ConfigureVehicleServiceState_def Let_def

lemma StartApplication_ok:
  assumes "cam_ok a" "StartApplication b c a = Inr a'" "\<not> ca_running a"
  shows "cam_ok a'"
  using assms by (auto simp: StartApplication_def cam_defs split: if_splits)

lemma StopApplication_ok: "cam_ok a \<Longrightarrow> cam_ok (StopApplication a)"
  by (auto simp: StopApplication_def cam_defs)

lemma cam_AssignVehicle_ok: "cam_ok a \<Longrightarrow> v \<noteq> kInvalidVehicleId \<Longrightarrow> cam_ok (cam_AssignVehicle v a)"
  by (auto simp: cam_AssignVehicle_def cam_defs)

lemma cam_ReleaseVehicle_ok: "cam_ok a \<Longrightarrow> cam_ok (cam_ReleaseVehicle a)"
  by (auto simp: cam_ReleaseVehicle_def cam_defs)

lemma cam_settings_ok:
  "cam_ok a \<Longrightarrow> cam_ok (SetBeaconInterval tb a)" "cam_ok a \<Longrightarrow> cam_ok (SetEtsiCamGeneration e a)"
  by (simp_all add: SetBeaconInterval_def SetEtsiCamGeneration_def cam_ok_def station_id_def Let_def)

lemma cam_step_ok: "cam_step a a' \<Longrightarrow> cam_ok a \<Longrightarrow> cam_ok a'"
proof (induction rule: cam_step.induct)
  case (send nowNs nt pos p a k t a' k')
  then show ?case
    by (auto simp: TagAndLogTx_def cam_ok_def station_id_def Let_def split: if_splits)
qed (blast intro: StartApplication_ok StopApplication_ok cam_AssignVehicle_ok cam_ReleaseVehicle_ok
    cam_settings_ok)+

text \<open>C20: at every moment of an application's life the CAM service disseminates exactly when the
  application runs and its device has a vehicle, and then under the station id of that vehicle.\<close>

theorem cam_dissemination:
  assumes "cam_reachable a"
  shows "(service_on (ca_calls a) \<longleftrightarrow> ca_running a \<and> ca_assignedVehicleId a \<noteq> kInvalidVehicleId)
    \<and> (ca_disseminating a \<longleftrightarrow> service_on (ca_calls a))
    \<and> (service_on (ca_calls a) \<longrightarrow> told_station (ca_calls a) = Some (ca_assignedVehicleId a))"
proof -
  have "cam_ok a"
    using assms
  proof (induction rule: cam_reachable.induct)
    case (init node ip port genMax genMin)
    then show ?case by (simp add: cam_ok_def cam_Setup_def cam_app_new_def)
  next
    case (step a a')
    then show ?case using cam_step_ok by blast
  qed
  then show ?thesis
    by (auto simp: cam_ok_def station_id_def)
qed

text \<open>An application that is started and then given vehicle 7.\<close>

definition sample_cam_app :: cam_app where
  "sample_cam_app = cam_app_new 1000 100"

lemma sample_cam_reachable:
  "\<exists>a. cam_reachable a \<and> ca_running a \<and> ca_assignedVehicleId a = 7"
proof -
  obtain a where a: "StartApplication True True sample_cam_app = Inr a"
    by (simp add: StartApplication_def Let_def)
  have "sample_cam_app = cam_Setup 0 0 8000 (cam_app_new 1000 100)"
    by (simp add: sample_cam_app_def cam_Setup_def cam_app_new_def)
  then have "cam_reachable sample_cam_app"
    using cam_reachable.init by metis
  moreover have "\<not> ca_running sample_cam_app"
    by (simp add: sample_cam_app_def cam_app_new_def)
  ultimately have "cam_reachable a"
    using a cam_reachable.step cam_step.start by blast
  then have "cam_reachable (cam_AssignVehicle 7 a)"
    by (rule cam_reachable.step) (rule cam_step.assign, simp add: kInvalidVehicleId_def)
  moreover have "ca_running a"
    using a by (auto simp: StartApplication_def StartCamIfReady_def ConfigureVehicleServiceState_def Let_def)
  then have "ca_running (cam_AssignVehicle 7 a)" "ca_assignedVehicleId (cam_AssignVehicle 7 a) = 7"
    by (simp_all add: cam_AssignVehicle_def StartCamIfReady_def ConfigureVehicleServiceState_def Let_def)
  ultimately show ?thesis by blast
qed

theorem cam_dissemination_witness:
  "\<exists>a. cam_reachable a \<and> service_on (ca_calls a) \<and> told_station (ca_calls a) = Some 7"
proof -
  obtain a where a: "cam_reachable a" "ca_running a" "ca_assignedVehicleId a = 7"
    using sample_cam_reachable by blast
  then have "service_on (ca_calls a) \<and> told_station (ca_calls a) = Some 7"
    using cam_dissemination [OF a(1)] by (simp add: kInvalidVehicleId_def)
  with a(1) show ?thesis by blast
qed

section \<open>Sequence numbers\<close>

text \<open>The tags of a series of send callbacks, with what each of them reads.\<close>

primrec send_tags :: "(int \<times> node_tables \<times> (u32 \<Rightarrow> vec3)) list \<Rightarrow> cam_app \<Rightarrow> kpi_logger \<Rightarrow> kpi_tag list" where
  "send_tags [] a k = []"
| "send_tags (e # es) a k =
     (let (t, a', k') = TagAndLogTx (fst e) (fst (snd e)) (snd (snd e)) True (a, k)
      in (case t of None \<Rightarrow> [] | Some tag \<Rightarrow> [tag]) @ send_tags es a' k')"

lemma send_tags_sequences:
  "ca_running a \<Longrightarrow> ca_assignedVehicleId a \<noteq> kInvalidVehicleId \<Longrightarrow>
     map kt_sequence (send_tags es a k) = map (\<lambda>i. ca_nextKpiSequence a + of_nat i) [0..<length es]
   \<and> (\<forall>t \<in> set (send_tags es a k). kt_txVehicleId t = ca_assignedVehicleId a)"
proof (induction es arbitrary: a k)
  case (Cons e es)
  have "map (\<lambda>i. ca_nextKpiSequence a + of_nat i) [0..<Suc (length es)]
      = ca_nextKpiSequence a # map (\<lambda>i. ca_nextKpiSequence a + 1 + of_nat i) [0..<length es]"
    by (simp add: upt_conv_Cons map_Suc_upt [symmetric] comp_def ac_simps del: upt_Suc)
  then show ?case
    using Cons.prems Cons.IH [of "a\<lparr>ca_nextKpiSequence := ca_nextKpiSequence a + 1\<rparr>"]
    by (simp add: TagAndLogTx_def Let_def del: upt_Suc)
qed simp

text \<open>The CAMs a running application with a vehicle sends carry that vehicle's id and consecutive
  sequence numbers: no two of them are the same, up to \<open>2 ^ 64\<close> CAMs.\<close>

theorem cam_sequences_distinct:
  assumes "ca_running a" "ca_assignedVehicleId a \<noteq> kInvalidVehicleId" "length es \<le> 2 ^ 64"
  shows "length (send_tags es a k) = length es \<and> distinct (map kt_sequence (send_tags es a k))
    \<and> (\<forall>t \<in> set (send_tags es a k). kt_txVehicleId t = ca_assignedVehicleId a)"
proof -
  note s = send_tags_sequences [OF assms(1,2), of es k]
  have "inj_on (\<lambda>i. ca_nextKpiSequence a + of_nat i) {0..<length es}"
  proof (rule inj_onI)
    fix i j
    assume ij: "i \<in> {0..<length es}" "j \<in> {0..<length es}"
      and "ca_nextKpiSequence a + of_nat i = ca_nextKpiSequence a + of_nat j"
    then have "unat (of_nat i :: u64) = unat (of_nat j :: u64)" by simp
    moreover have "i < 18446744073709551616" "j < 18446744073709551616"
      using ij assms(3) by auto
    ultimately show "i = j" by (simp only: unat_of_nat_u64)
  qed
  then have "distinct (map kt_sequence (send_tags es a k))"
    using s by (simp add: distinct_map)
  moreover have "length (send_tags es a k) = length es"
    using arg_cong [OF conjunct1 [OF s], of length] by simp
  ultimately show ?thesis using s by blast
qed

theorem cam_sequences_distinct_witness:
  "\<exists>a. ca_running a \<and> distinct (map kt_sequence (send_tags
     [(0, sample_tables, sample_pos), (1, sample_tables, sample_pos)] a sample_kpi))"
proof -
  obtain a :: cam_app where a: "ca_running a" "ca_assignedVehicleId a = 7"
    using sample_cam_reachable by blast
  with cam_sequences_distinct [of a "[(0, sample_tables, sample_pos), (1, sample_tables, sample_pos)]"
      sample_kpi] show ?thesis
    by (auto simp: kInvalidVehicleId_def)
qed

end
