(* ===== verification/VehiclePool.thy ===== *)
theory VehiclePool
  imports CamApplication
begin

text \<open>
  The pool of physical devices (\<open>AssignVehicleToPool\<close>, \<open>ReleaseVehicleFromPool\<close> and the two loops
  that schedule them): a fixed set of devices is lent to the logical vehicles of the trajectory file
  while their tracks last. The global variables the operations share are one record. A missing or
  null \<open>Ptr\<close> in a table is an absent entry.
\<close>

section \<open>State and operations\<close>

record pool =
  pl_mobility :: mobility_map
  pl_tables :: node_tables
  pl_poolMobility :: "u32 \<rightharpoonup> pool_mobility"
  pl_free :: "u32 list"
  pl_active :: "u32 set"
  pl_apps :: "u32 \<rightharpoonup> cam_app"

definition kAssignmentEpsS :: double where
  "kAssignmentEpsS = 1 / 1000000"

definition AssignVehicleToPool :: "u32 \<Rightarrow> pool \<Rightarrow> pool result" where
  "AssignVehicleToPool vehicleId p =
     and_then (abort_if (\<not> nt_dynamic (pl_tables p))
       ''AssignVehicleToPool called while dynamic active pool is disabled'') (\<lambda>_.
     and_then (abort_if (nt_vehicleToNode (pl_tables p) vehicleId \<noteq> None)
       ''Vehicle is already assigned to a pool UE'') (\<lambda>_.
     and_then (abort_if (pl_free p = []) ''Dynamic active pool exhausted'') (\<lambda>_.
     let rowsIt = map_of (pl_mobility p) vehicleId in
     and_then (abort_if (rowsIt = None \<or> rowsIt = Some []) ''Cannot assign missing/empty mobility track'') (\<lambda>_.
     let nodeId = hd (pl_free p) in
     case pl_poolMobility p nodeId of
       None \<Rightarrow> Inl (Abort ''Missing pool mobility model'')
     | Some mob \<Rightarrow>
         and_then (mobility_AssignVehicle vehicleId rowsIt mob) (\<lambda>mob'.
           Inr (p\<lparr>pl_free := tl (pl_free p),
                  pl_tables := (pl_tables p)
                    \<lparr>nt_vehicleToNode := (nt_vehicleToNode (pl_tables p))(vehicleId \<mapsto> nodeId),
                     nt_nodeToVehicle := (nt_nodeToVehicle (pl_tables p))(nodeId \<mapsto> vehicleId)\<rparr>,
                  pl_active := insert vehicleId (pl_active p),
                  pl_poolMobility := (pl_poolMobility p)(nodeId \<mapsto> mob'),
                  pl_apps := (case pl_apps p nodeId of
                                None \<Rightarrow> pl_apps p
                              | Some a \<Rightarrow> (pl_apps p)(nodeId \<mapsto> cam_AssignVehicle vehicleId a))\<rparr>))))))"

definition ReleaseVehicleFromPool :: "u32 \<Rightarrow> pool \<Rightarrow> pool result" where
  "ReleaseVehicleFromPool vehicleId p =
     and_then (abort_if (\<not> nt_dynamic (pl_tables p))
       ''ReleaseVehicleFromPool called while dynamic active pool is disabled'') (\<lambda>_.
     case nt_vehicleToNode (pl_tables p) vehicleId of
       None \<Rightarrow> Inr p
     | Some nodeId \<Rightarrow>
         Inr (p\<lparr>pl_apps := (case pl_apps p nodeId of
                              None \<Rightarrow> pl_apps p
                            | Some a \<Rightarrow> (pl_apps p)(nodeId \<mapsto> cam_ReleaseVehicle a)),
                pl_poolMobility := (case pl_poolMobility p nodeId of
                              None \<Rightarrow> pl_poolMobility p
                            | Some m \<Rightarrow> (pl_poolMobility p)(nodeId \<mapsto> mobility_ReleaseVehicle m)),
                pl_tables := (pl_tables p)
                  \<lparr>nt_vehicleToNode := (nt_vehicleToNode (pl_tables p))(vehicleId := None),
                   nt_nodeToVehicle := (nt_nodeToVehicle (pl_tables p))(nodeId := None)\<rparr>,
                pl_active := pl_active p - {vehicleId},
                pl_free := pl_free p @ [nodeId]\<rparr>))"

primrec AssignInitialDynamicPoolVehicles :: "double \<Rightarrow> u32 list \<Rightarrow> pool \<Rightarrow> pool result" where
  "AssignInitialDynamicPoolVehicles initialTimeS [] p = Inr p"
| "AssignInitialDynamicPoolVehicles initialTimeS (v # vs) p =
     and_then (ComputeMobilityTimeRange (omap_get [] (pl_mobility p) v)) (\<lambda>range.
     and_then (if fst range \<le> initialTimeS + kAssignmentEpsS \<and> snd range + kAssignmentEpsS \<ge> initialTimeS
               then AssignVehicleToPool v p else Inr p)
       (AssignInitialDynamicPoolVehicles initialTimeS vs))"

text \<open>\<open>Seconds(x)\<close> as a number of nanoseconds: \<open>int64x64_t::Round\<close> rounds halves away from zero.\<close>

definition Seconds :: "double \<Rightarrow> int" where
  "Seconds x = llround (x * 1000000000)"

datatype pool_event = AssignEvent u32 | ReleaseEvent u32

text \<open>The calls of \<open>Simulator::Schedule\<close>, in order: the delay (the loop runs at time 0) and the event.\<close>

primrec ScheduleDynamicPoolAssignments ::
    "double \<Rightarrow> double \<Rightarrow> mobility_map \<Rightarrow> u32 list \<Rightarrow> (int \<times> pool_event) list result" where
  "ScheduleDynamicPoolAssignments initialTimeS simTimeSeconds mob [] = Inr []"
| "ScheduleDynamicPoolAssignments initialTimeS simTimeSeconds mob (v # vs) =
     and_then (ComputeMobilityTimeRange (omap_get [] mob v)) (\<lambda>range.
     let assign = (if fst range > initialTimeS + kAssignmentEpsS \<and> fst range \<le> simTimeSeconds
                   then [(Seconds (fst range), AssignEvent v)] else []);
         releaseTimeS = snd range + kAssignmentEpsS;
         release = (if releaseTimeS > initialTimeS + kAssignmentEpsS \<and> releaseTimeS \<le> simTimeSeconds
                    then [(Seconds releaseTimeS, ReleaseEvent v)] else [])
     in and_then (ScheduleDynamicPoolAssignments initialTimeS simTimeSeconds mob vs) (\<lambda>rest.
          Inr (assign @ release @ rest)))"

text \<open>The set-up of the pool in \<open>main\<close>, for the nodes of the container.\<close>

definition pool_add_node :: "u32 \<Rightarrow> pool \<Rightarrow> pool" where
  "pool_add_node nodeId p =
     p\<lparr>pl_poolMobility := (pl_poolMobility p)(nodeId \<mapsto>
         SetParkingPosition (GetInactiveParkingPosition nodeId) pool_mobility_new),
       pl_free := pl_free p @ [nodeId]\<rparr>"

definition pool_setup :: "mobility_map \<Rightarrow> u32 list \<Rightarrow> pool" where
  "pool_setup mob nodes = fold pool_add_node nodes
     \<lparr>pl_mobility = mob,
      pl_tables = \<lparr>nt_vehicleToNode = Map.empty, nt_nodeToVehicle = Map.empty,
                   nt_activeRange = Map.empty, nt_dynamic = True\<rparr>,
      pl_poolMobility = Map.empty, pl_free = [], pl_active = {}, pl_apps = Map.empty\<rparr>"

text \<open>The set-up of the applications in \<open>main\<close>, for one node of a dynamic pool.\<close>

definition pool_add_app :: "(u32 \<Rightarrow> cam_app) \<Rightarrow> u32 \<Rightarrow> pool \<Rightarrow> pool" where
  "pool_add_app fresh nodeId p =
     (let a = fresh nodeId; v = ResolveVehicleIdForNode (pl_tables p) nodeId;
          a' = (if v \<noteq> kInvalidVehicleId then cam_AssignVehicle v a else a)
      in p\<lparr>pl_apps := (pl_apps p)(nodeId \<mapsto> a')\<rparr>)"

section \<open>Consistency of the pool\<close>

text \<open>Every device is either free or lent to a vehicle, never both.\<close>

definition pool_devices_ok :: "pool \<Rightarrow> bool" where
  "pool_devices_ok p \<longleftrightarrow>
     distinct (pl_free p)
   \<and> set (pl_free p) \<inter> dom (nt_nodeToVehicle (pl_tables p)) = {}
   \<and> set (pl_free p) \<union> dom (nt_nodeToVehicle (pl_tables p)) = dom (pl_poolMobility p)
   \<and> - 1 \<notin> dom (pl_poolMobility p)
   \<and> pl_active p = dom (nt_vehicleToNode (pl_tables p))"

text \<open>The mobility model of a device follows the track of its vehicle, or is parked.\<close>

definition pool_mobility_follows :: "pool \<Rightarrow> bool" where
  "pool_mobility_follows p \<longleftrightarrow> (\<forall>n m. pl_poolMobility p n = Some m \<longrightarrow>
     pm_vehicleId m = ResolveVehicleIdForNode (pl_tables p) n
   \<and> pm_rows m = Option.bind (nt_nodeToVehicle (pl_tables p) n) (map_of (pl_mobility p)))"

text \<open>So does its application.\<close>

definition pool_apps_follow :: "pool \<Rightarrow> bool" where
  "pool_apps_follow p \<longleftrightarrow> (\<forall>n a. pl_apps p n = Some a \<longrightarrow>
     n \<in> dom (pl_poolMobility p) \<and> cam_ok a
   \<and> ca_assignedVehicleId a = ResolveVehicleIdForNode (pl_tables p) n)"

definition pool_ok :: "pool \<Rightarrow> bool" where
  "pool_ok p \<longleftrightarrow> tables_ok (pl_tables p) \<and> nt_dynamic (pl_tables p) \<and> pool_devices_ok p
     \<and> pool_mobility_follows p \<and> pool_apps_follow p"

lemma cam_assigned [simp]:
  "ca_assignedVehicleId (cam_AssignVehicle v a) = v"
  "ca_assignedVehicleId (cam_ReleaseVehicle a) = kInvalidVehicleId"
  by (simp_all add: cam_AssignVehicle_def cam_ReleaseVehicle_def StartCamIfReady_def
      ConfigureVehicleServiceState_def Let_def)

lemma tables_ok_ids:
  assumes "tables_ok nt"
  shows "nt_nodeToVehicle nt n \<noteq> Some kInvalidVehicleId" "nt_vehicleToNode nt v \<noteq> Some (- 1)"
  using assms unfolding tables_ok_def by blast+

lemma tables_okI:
  assumes "\<And>v n. nt_vehicleToNode nt v = Some n \<longleftrightarrow> nt_nodeToVehicle nt n = Some v"
    "\<And>n. nt_nodeToVehicle nt n \<noteq> Some kInvalidVehicleId" "\<And>v. nt_vehicleToNode nt v \<noteq> Some (- 1)"
  shows "tables_ok nt"
  using assms unfolding tables_ok_def by blast

lemma tables_ok_assign:
  assumes "tables_ok nt" "v \<noteq> kInvalidVehicleId" "n \<noteq> - 1" "nt_vehicleToNode nt v = None"
    "nt_nodeToVehicle nt n = None"
  shows "tables_ok (nt\<lparr>nt_vehicleToNode := (nt_vehicleToNode nt)(v \<mapsto> n),
                       nt_nodeToVehicle := (nt_nodeToVehicle nt)(n \<mapsto> v)\<rparr>)"
proof -
  let ?a = "(nt_vehicleToNode nt)(v \<mapsto> n)" and ?b = "(nt_nodeToVehicle nt)(n \<mapsto> v)"
  note inv = tables_ok_inverse [OF assms(1)]
  have "?a w = Some m \<longleftrightarrow> ?b m = Some w" for w m
    using inv [of w m] assms(4,5) by (cases "w = v"; cases "m = n") auto
  moreover have "?b m \<noteq> Some kInvalidVehicleId" "?a w \<noteq> Some (- 1)" for m w
    using tables_ok_ids [OF assms(1)] assms(2,3) by simp_all
  ultimately show ?thesis by (intro tables_okI) simp_all
qed

lemma tables_ok_release:
  assumes "tables_ok nt" "nt_vehicleToNode nt v = Some n"
  shows "tables_ok (nt\<lparr>nt_vehicleToNode := (nt_vehicleToNode nt)(v := None),
                       nt_nodeToVehicle := (nt_nodeToVehicle nt)(n := None)\<rparr>)"
proof -
  let ?a = "(nt_vehicleToNode nt)(v := None)" and ?b = "(nt_nodeToVehicle nt)(n := None)"
  note inv = tables_ok_inverse [OF assms(1)]
  have "nt_nodeToVehicle nt n = Some v" using inv assms(2) by blast
  then have "?a w = Some m \<longleftrightarrow> ?b m = Some w" for w m
    using inv [of w m] assms(2) by (cases "w = v"; cases "m = n") auto
  moreover have "?b m \<noteq> Some kInvalidVehicleId" "?a w \<noteq> Some (- 1)" for m w
    using tables_ok_ids [OF assms(1)] by simp_all
  ultimately show ?thesis by (intro tables_okI) simp_all
qed

lemma AssignVehicleToPool_Inr:
  assumes "AssignVehicleToPool v p = Inr p'"
  obtains n fs rows mob where "nt_dynamic (pl_tables p)" "nt_vehicleToNode (pl_tables p) v = None"
    "pl_free p = n # fs" "map_of (pl_mobility p) v = Some rows" "rows \<noteq> []"
    "pl_poolMobility p n = Some mob"
    "p' = p\<lparr>pl_free := fs,
        pl_tables := (pl_tables p)\<lparr>nt_vehicleToNode := (nt_vehicleToNode (pl_tables p))(v \<mapsto> n),
                                  nt_nodeToVehicle := (nt_nodeToVehicle (pl_tables p))(n \<mapsto> v)\<rparr>,
        pl_active := insert v (pl_active p),
        pl_poolMobility := (pl_poolMobility p)(n \<mapsto> NotifyCourseChange
          (mob\<lparr>pm_vehicleId := v, pm_rows := Some rows, pm_lastIndex := 0\<rparr>)),
        pl_apps := (case pl_apps p n of None \<Rightarrow> pl_apps p
                    | Some a \<Rightarrow> (pl_apps p)(n \<mapsto> cam_AssignVehicle v a))\<rparr>"
proof -
  obtain n fs where free: "pl_free p = n # fs"
    using assms by (cases "pl_free p") (auto simp: AssignVehicleToPool_def)
  obtain rows where rows: "map_of (pl_mobility p) v = Some rows" "rows \<noteq> []"
    using assms free by (cases "map_of (pl_mobility p) v") (auto simp: AssignVehicleToPool_def Let_def)
  obtain mob where mob: "pl_poolMobility p n = Some mob"
    using assms free rows by (cases "pl_poolMobility p n") (auto simp: AssignVehicleToPool_def Let_def)
  show thesis
    using that [of n fs rows mob] assms free rows mob
    by (auto simp: AssignVehicleToPool_def Let_def mobility_AssignVehicle_def)
qed

lemma AssignVehicleToPool_ok:
  assumes "pool_ok p" "v \<noteq> kInvalidVehicleId" "AssignVehicleToPool v p = Inr p'"
  shows "pool_ok p'"
proof -
  obtain n fs rows mob where "nt_dynamic (pl_tables p)" and a: "nt_vehicleToNode (pl_tables p) v = None" "pl_free p = n # fs"
    "map_of (pl_mobility p) v = Some rows" "rows \<noteq> []" "pl_poolMobility p n = Some mob"
    and p': "p' = p\<lparr>pl_free := fs,
        pl_tables := (pl_tables p)\<lparr>nt_vehicleToNode := (nt_vehicleToNode (pl_tables p))(v \<mapsto> n),
                                  nt_nodeToVehicle := (nt_nodeToVehicle (pl_tables p))(n \<mapsto> v)\<rparr>,
        pl_active := insert v (pl_active p),
        pl_poolMobility := (pl_poolMobility p)(n \<mapsto> NotifyCourseChange
          (mob\<lparr>pm_vehicleId := v, pm_rows := Some rows, pm_lastIndex := 0\<rparr>)),
        pl_apps := (case pl_apps p n of None \<Rightarrow> pl_apps p
                    | Some a \<Rightarrow> (pl_apps p)(n \<mapsto> cam_AssignVehicle v a))\<rparr>"
    by (rule AssignVehicleToPool_Inr [OF assms(3)])
  have ok: "tables_ok (pl_tables p)" "pool_devices_ok p" "pool_mobility_follows p" "pool_apps_follow p"
    using assms(1) by (simp_all add: pool_ok_def)
  have "n \<in> set (pl_free p)" using a(2) by simp
  then have n: "n \<noteq> - 1" "nt_nodeToVehicle (pl_tables p) n = None"
    using ok(2) a(5) by (auto simp: pool_devices_ok_def)
  have res: "ResolveVehicleIdForNode (pl_tables p') m
      = (if m = n then v else ResolveVehicleIdForNode (pl_tables p) m)" for m
    by (simp add: p' ResolveVehicleIdForNode_def)
  have "tables_ok (pl_tables p')"
    using tables_ok_assign [OF ok(1) assms(2) n(1) a(1) n(2)] by (simp add: p')
  moreover have "nt_dynamic (pl_tables p')"
    using assms(1) by (simp add: p' pool_ok_def)
  moreover have "pool_devices_ok p'"
    using ok(2) a(2) n by (auto simp: p' pool_devices_ok_def)
  moreover have "pool_mobility_follows p'"
    using ok(3) unfolding pool_mobility_follows_def res
    by (simp add: p' NotifyCourseChange_def a(3))
  moreover have "pool_apps_follow p'"
    using ok(4) cam_AssignVehicle_ok [OF _ assms(2)] unfolding pool_apps_follow_def res
    by (simp add: p' split: option.split)
  ultimately show ?thesis by (simp add: pool_ok_def)
qed

lemma ReleaseVehicleFromPool_ok:
  assumes "pool_ok p" "ReleaseVehicleFromPool v p = Inr p'"
  shows "pool_ok p'"
proof (cases "nt_vehicleToNode (pl_tables p) v")
  case None
  with assms show ?thesis by (simp add: ReleaseVehicleFromPool_def)
next
  case (Some n)
  have ok: "tables_ok (pl_tables p)" "pool_devices_ok p" "pool_mobility_follows p" "pool_apps_follow p"
    using assms(1) by (simp_all add: pool_ok_def)
  have nv: "nt_nodeToVehicle (pl_tables p) n = Some v"
    using ok(1) Some tables_ok_inverse by blast
  then obtain mob where mob: "pl_poolMobility p n = Some mob"
    using ok(2) unfolding pool_devices_ok_def by blast
  have p': "p' = p\<lparr>pl_apps := (case pl_apps p n of None \<Rightarrow> pl_apps p
                              | Some a \<Rightarrow> (pl_apps p)(n \<mapsto> cam_ReleaseVehicle a)),
      pl_poolMobility := (pl_poolMobility p)(n \<mapsto> mobility_ReleaseVehicle mob),
      pl_tables := (pl_tables p)\<lparr>nt_vehicleToNode := (nt_vehicleToNode (pl_tables p))(v := None),
                                nt_nodeToVehicle := (nt_nodeToVehicle (pl_tables p))(n := None)\<rparr>,
      pl_active := pl_active p - {v}, pl_free := pl_free p @ [n]\<rparr>"
    using assms(2) by (simp add: ReleaseVehicleFromPool_def Some mob)
  have res: "ResolveVehicleIdForNode (pl_tables p') m
      = (if m = n then kInvalidVehicleId else ResolveVehicleIdForNode (pl_tables p) m)" for m
    by (simp add: p' ResolveVehicleIdForNode_def)
  have "tables_ok (pl_tables p')"
    using tables_ok_release [OF ok(1) Some] by (simp add: p')
  moreover have "nt_dynamic (pl_tables p')"
    using assms(1) by (simp add: p' pool_ok_def)
  moreover have "pool_devices_ok p'"
    using ok(2) nv by (auto simp: p' pool_devices_ok_def)
  moreover have "pool_mobility_follows p'"
    using ok(3) unfolding pool_mobility_follows_def res
    by (simp add: p' mobility_ReleaseVehicle_def NotifyCourseChange_def)
  moreover have "pool_apps_follow p'"
    using ok(4) cam_ReleaseVehicle_ok unfolding pool_apps_follow_def res
    by (simp add: p' split: option.split)
  ultimately show ?thesis by (simp add: pool_ok_def)
qed

section \<open>Reachable pools\<close>

lemma pool_setup_state:
  assumes "distinct nodes" "- 1 \<notin> set nodes"
  shows "pool_ok (pool_setup mob nodes) \<and> pl_free (pool_setup mob nodes) = nodes
    \<and> pl_mobility (pool_setup mob nodes) = mob \<and> dom (pl_poolMobility (pool_setup mob nodes)) = set nodes
    \<and> dom (nt_vehicleToNode (pl_tables (pool_setup mob nodes))) = {}"
proof -
  have "pl_free (fold pool_add_node ns p) = pl_free p @ ns
      \<and> pl_mobility (fold pool_add_node ns p) = pl_mobility p
      \<and> pl_tables (fold pool_add_node ns p) = pl_tables p
      \<and> pl_active (fold pool_add_node ns p) = pl_active p
      \<and> pl_apps (fold pool_add_node ns p) = pl_apps p
      \<and> pl_poolMobility (fold pool_add_node ns p) = (\<lambda>n. if n \<in> set ns
          then Some (SetParkingPosition (GetInactiveParkingPosition n) pool_mobility_new)
          else pl_poolMobility p n)" for ns p
    by (induction ns arbitrary: p) (auto simp: pool_add_node_def fun_eq_iff)
  note f = this [of nodes]
  have "dom (\<lambda>n. if n \<in> set nodes then Some (g n) else Map.empty n) = set nodes" for g
    by (auto simp: dom_def)
  then show ?thesis
    using assms unfolding pool_setup_def
    by (simp add: f pool_ok_def pool_devices_ok_def pool_mobility_follows_def pool_apps_follow_def
        tables_ok_def SetParkingPosition_def NotifyCourseChange_def pool_mobility_new_def
        ResolveVehicleIdForNode_def dom_def)
qed

lemma AssignVehicleToPool_effect:
  assumes "AssignVehicleToPool v p = Inr p'"
  shows "dom (nt_vehicleToNode (pl_tables p')) = insert v (dom (nt_vehicleToNode (pl_tables p)))"
    "dom (pl_poolMobility p') = dom (pl_poolMobility p)" "pl_mobility p' = pl_mobility p"
  by (rule AssignVehicleToPool_Inr [OF assms]; auto)+

lemma ReleaseVehicleFromPool_effect:
  assumes "ReleaseVehicleFromPool v p = Inr p'"
  shows "dom (nt_vehicleToNode (pl_tables p')) = dom (nt_vehicleToNode (pl_tables p)) - {v}"
    "dom (pl_poolMobility p') = dom (pl_poolMobility p)" "pl_mobility p' = pl_mobility p"
proof -
  have d: "dom (case M n of None \<Rightarrow> M | Some m \<Rightarrow> M(n \<mapsto> f m)) = dom M" for M :: "u32 \<rightharpoonup> 'a" and f n
    by (cases "M n") auto
  have "dom (nt_vehicleToNode (pl_tables p')) = dom (nt_vehicleToNode (pl_tables p)) - {v}
    \<and> dom (pl_poolMobility p') = dom (pl_poolMobility p) \<and> pl_mobility p' = pl_mobility p"
  proof (cases "nt_vehicleToNode (pl_tables p) v")
    case None
    then have "p' = p" "v \<notin> dom (nt_vehicleToNode (pl_tables p))"
      using assms by (auto simp: ReleaseVehicleFromPool_def)
    then show ?thesis by simp
  next
    case (Some n)
    have "nt_vehicleToNode (pl_tables p') = (nt_vehicleToNode (pl_tables p))(v := None)"
      "pl_poolMobility p' = (case pl_poolMobility p n of None \<Rightarrow> pl_poolMobility p
         | Some m \<Rightarrow> (pl_poolMobility p)(n \<mapsto> mobility_ReleaseVehicle m))" "pl_mobility p' = pl_mobility p"
      using assms Some by (auto simp: ReleaseVehicleFromPool_def)
    then show ?thesis by (simp only: d dom_fun_upd) simp
  qed
  then show "dom (nt_vehicleToNode (pl_tables p')) = dom (nt_vehicleToNode (pl_tables p)) - {v}"
    "dom (pl_poolMobility p') = dom (pl_poolMobility p)" "pl_mobility p' = pl_mobility p" by blast+
qed

text \<open>Free devices and vehicles on the road add up to the size of the pool.\<close>

lemma pool_capacity:
  assumes "pool_ok p" "finite (dom (pl_poolMobility p))"
  shows "length (pl_free p) + card (dom (nt_vehicleToNode (pl_tables p))) = card (dom (pl_poolMobility p))"
proof -
  let ?V = "nt_vehicleToNode (pl_tables p)" and ?N = "nt_nodeToVehicle (pl_tables p)"
  have ok: "tables_ok (pl_tables p)" "pool_devices_ok p" using assms(1) by (simp_all add: pool_ok_def)
  note inv = tables_ok_inverse [OF ok(1)]
  have d: "distinct (pl_free p)" "set (pl_free p) \<inter> dom ?N = {}"
    "set (pl_free p) \<union> dom ?N = dom (pl_poolMobility p)"
    using ok(2) by (simp_all add: pool_devices_ok_def)
  have "bij_betw (\<lambda>v. the (?V v)) (dom ?V) (dom ?N)"
  proof (rule bij_betw_byWitness [where f' = "\<lambda>n. the (?N n)"])
    have VN: "\<exists>n. ?V v = Some n \<and> ?N n = Some v" if "v \<in> dom ?V" for v
      using that inv by blast
    have NV: "\<exists>v. ?N n = Some v \<and> ?V v = Some n" if "n \<in> dom ?N" for n
      using that inv by blast
    show "\<forall>v \<in> dom ?V. the (?N (the (?V v))) = v" using VN by force
    show "\<forall>n \<in> dom ?N. the (?V (the (?N n))) = n" using NV by force
    show "(\<lambda>v. the (?V v)) ` dom ?V \<subseteq> dom ?N" using VN by force
    show "(\<lambda>n. the (?N n)) ` dom ?N \<subseteq> dom ?V" using NV by force
  qed
  then have "card (dom ?V) = card (dom ?N)" by (rule bij_betw_same_card)
  moreover have "card (set (pl_free p)) = length (pl_free p)" using d(1) by (rule distinct_card)
  moreover have "finite (dom ?N)" using d(3) assms(2) by (metis finite_Un)
  ultimately show ?thesis
    using card_Un_disjoint [of "set (pl_free p)" "dom ?N"] d(2,3) by simp
qed

text \<open>Everything that happens to a pool: vehicles come and go, applications are added and live, and
  positions are asked for.\<close>

inductive pool_reachable :: "mobility_map \<Rightarrow> u32 list \<Rightarrow> pool \<Rightarrow> bool" for mob nodes where
  init: "distinct nodes \<Longrightarrow> - 1 \<notin> set nodes \<Longrightarrow> pool_reachable mob nodes (pool_setup mob nodes)"
| assign: "pool_reachable mob nodes p \<Longrightarrow> v \<noteq> kInvalidVehicleId \<Longrightarrow> AssignVehicleToPool v p = Inr p' \<Longrightarrow>
    pool_reachable mob nodes p'"
| release: "pool_reachable mob nodes p \<Longrightarrow> ReleaseVehicleFromPool v p = Inr p' \<Longrightarrow>
    pool_reachable mob nodes p'"
| add_app: "pool_reachable mob nodes p \<Longrightarrow> n \<in> set nodes \<Longrightarrow>
    pool_reachable mob nodes (pool_add_app (\<lambda>n. cam_Setup n ip port (cam_app_new genMax genMin)) n p)"
| app: "pool_reachable mob nodes p \<Longrightarrow> pl_apps p n = Some a \<Longrightarrow> cam_step a a' \<Longrightarrow>
    ca_assignedVehicleId a' = ca_assignedVehicleId a \<Longrightarrow>
    pool_reachable mob nodes (p\<lparr>pl_apps := (pl_apps p)(n \<mapsto> a')\<rparr>)"
| query: "pool_reachable mob nodes p \<Longrightarrow> pl_poolMobility p n = Some m \<Longrightarrow>
    pool_reachable mob nodes (p\<lparr>pl_poolMobility := (pl_poolMobility p)(n \<mapsto> query_mobility q m)\<rparr>)"

lemma query_mobility_simps [simp]:
  "pm_vehicleId (query_mobility q m) = pm_vehicleId m" "pm_rows (query_mobility q m) = pm_rows m"
  by (auto simp: query_mobility_def InterpolatePosition_def InterpolateVelocity_def Let_def
      case_prod_unfold split: option.split list.split)

lemma pool_add_app_ok:
  assumes "pool_ok p" "n \<in> dom (pl_poolMobility p)" "cam_ok (fresh n)"
    "ca_assignedVehicleId (fresh n) = kInvalidVehicleId"
  shows "pool_ok (pool_add_app fresh n p)"
  using assms cam_AssignVehicle_ok
  by (auto simp: pool_add_app_def pool_ok_def pool_devices_ok_def pool_mobility_follows_def
      pool_apps_follow_def Let_def)

lemma pool_set_app_ok:
  assumes "pool_ok p" "n \<in> dom (pl_poolMobility p)" "cam_ok a"
    "ca_assignedVehicleId a = ResolveVehicleIdForNode (pl_tables p) n"
  shows "pool_ok (p\<lparr>pl_apps := (pl_apps p)(n \<mapsto> a)\<rparr>)"
proof -
  have "pool_apps_follow (p\<lparr>pl_apps := (pl_apps p)(n \<mapsto> a)\<rparr>)"
    using assms by (simp add: pool_ok_def pool_apps_follow_def)
  with assms(1) show ?thesis
    by (simp add: pool_ok_def pool_devices_ok_def pool_mobility_follows_def)
qed

lemma pool_set_mobility_ok:
  assumes "pool_ok p" "pl_poolMobility p n = Some m" "pm_vehicleId m' = pm_vehicleId m" "pm_rows m' = pm_rows m"
  shows "pool_ok (p\<lparr>pl_poolMobility := (pl_poolMobility p)(n \<mapsto> m')\<rparr>)"
    and "dom ((pl_poolMobility p)(n \<mapsto> m')) = dom (pl_poolMobility p)"
proof -
  show d: "dom ((pl_poolMobility p)(n \<mapsto> m')) = dom (pl_poolMobility p)"
    using assms(2) by auto
  let ?p = "p\<lparr>pl_poolMobility := (pl_poolMobility p)(n \<mapsto> m')\<rparr>"
  have "pool_devices_ok ?p = pool_devices_ok p" "pool_apps_follow ?p = pool_apps_follow p"
    unfolding pool_devices_ok_def pool_apps_follow_def by (simp_all add: d del: dom_fun_upd fun_upd_apply)
  moreover have "pool_mobility_follows ?p"
    using assms unfolding pool_ok_def pool_mobility_follows_def by simp
  ultimately show "pool_ok ?p" using assms(1) by (simp add: pool_ok_def)
qed

text \<open>C5: whatever happens to a pool, every device is either free or lent to exactly one vehicle, the
  tables between vehicles and devices are inverse, a lent device moves along the track of its vehicle
  and its application speaks for that vehicle, a free one is parked and silent; and no device is ever
  lost: free devices and vehicles on the road always add up to the size of the pool.\<close>

theorem pool_consistent:
  assumes "pool_reachable mob nodes p"
  shows "pool_ok p \<and> pl_mobility p = mob \<and> dom (pl_poolMobility p) = set nodes
    \<and> length (pl_free p) + card (pl_active p) = length nodes"
proof -
  have "pool_ok p \<and> pl_mobility p = mob \<and> dom (pl_poolMobility p) = set nodes \<and> distinct nodes"
    using assms
  proof (induction rule: pool_reachable.induct)
    case init
    then show ?case using pool_setup_state by blast
  next
    case (assign p v p')
    then show ?case using AssignVehicleToPool_ok AssignVehicleToPool_effect by blast
  next
    case (release p v p')
    then show ?case using ReleaseVehicleFromPool_ok ReleaseVehicleFromPool_effect by metis
  next
    case (add_app p n ip port genMax genMin)
    let ?fresh = "\<lambda>n. cam_Setup n ip port (cam_app_new genMax genMin)"
    have "pool_ok (pool_add_app ?fresh n p)"
      using add_app by (intro pool_add_app_ok) (auto simp: cam_Setup_def cam_app_new_def cam_ok_def)
    with add_app show ?case by (simp add: pool_add_app_def Let_def)
  next
    case (app p n a a')
    have IH: "pool_ok p" using app.IH by blast
    then have f: "n \<in> dom (pl_poolMobility p)" "cam_ok a"
      "ca_assignedVehicleId a = ResolveVehicleIdForNode (pl_tables p) n"
      using app.hyps(2) unfolding pool_ok_def pool_apps_follow_def by blast+
    have "pool_ok (p\<lparr>pl_apps := (pl_apps p)(n \<mapsto> a')\<rparr>)"
      using pool_set_app_ok [OF IH f(1) cam_step_ok [OF app.hyps(3) f(2)]] app.hyps(4) f(3) by simp
    with app.IH show ?case by simp
  next
    case (query p n m q)
    then show ?case
      using pool_set_mobility_ok [OF _ query.hyps(2), of "query_mobility q m"]
      by (simp del: dom_fun_upd fun_upd_apply)
  qed
  note all = this
  have "pl_active p = dom (nt_vehicleToNode (pl_tables p))"
    using all by (simp add: pool_ok_def pool_devices_ok_def)
  with all show ?thesis
    using pool_capacity [of p] distinct_card [of nodes] by simp
qed

definition sample_pool :: pool where
  "sample_pool = pool_setup sample_mobility [0]"

lemma sample_pool_reachable: "pool_reachable sample_mobility [0] sample_pool"
  unfolding sample_pool_def by (rule pool_reachable.init) simp_all

theorem pool_consistent_witness:
  "\<exists>p. AssignVehicleToPool 1 sample_pool = Inr p \<and> pool_ok p
     \<and> length (pl_free p) + card (pl_active p) = 1"
proof -
  obtain p where p: "AssignVehicleToPool 1 sample_pool = Inr p"
    by (simp add: AssignVehicleToPool_def sample_pool_def pool_setup_def pool_add_node_def
        sample_mobility_def mobility_AssignVehicle_def)
  have "pool_reachable sample_mobility [0] p"
    by (rule pool_reachable.assign [OF sample_pool_reachable _ p]) (simp add: kInvalidVehicleId_def)
  from pool_consistent [OF this] p show ?thesis by auto
qed
section \<open>Running the schedule\<close>

fun do_pool_event :: "pool_event \<Rightarrow> pool \<Rightarrow> pool result" where
  "do_pool_event (AssignEvent v) p = AssignVehicleToPool v p"
| "do_pool_event (ReleaseEvent v) p = ReleaseVehicleFromPool v p"

primrec run_pool :: "pool_event list \<Rightarrow> pool \<Rightarrow> pool result" where
  "run_pool [] p = Inr p"
| "run_pool (e # es) p = and_then (do_pool_event e p) (run_pool es)"

text \<open>The simulator runs the scheduled events in order of time, and in the order they were scheduled
  among events of the same nanosecond.\<close>

definition pool_simulation :: "double \<Rightarrow> double \<Rightarrow> u32 list \<Rightarrow> pool \<Rightarrow> pool result" where
  "pool_simulation initialTimeS simTimeSeconds vs p =
     and_then (AssignInitialDynamicPoolVehicles initialTimeS vs p) (\<lambda>p0.
     and_then (ScheduleDynamicPoolAssignments initialTimeS simTimeSeconds (pl_mobility p) vs) (\<lambda>evs.
       run_pool (map snd (sort_key fst evs)) p0))"

lemma pool_assigned_finite:
  assumes "pool_ok p" "finite (dom (pl_poolMobility p))"
  shows "finite (dom (nt_vehicleToNode (pl_tables p)))"
proof -
  have ok: "tables_ok (pl_tables p)" "dom (nt_nodeToVehicle (pl_tables p)) \<subseteq> dom (pl_poolMobility p)"
    using assms(1) by (auto simp: pool_ok_def pool_devices_ok_def)
  have "dom (nt_vehicleToNode (pl_tables p))
      \<subseteq> (\<lambda>n. the (nt_nodeToVehicle (pl_tables p) n)) ` dom (nt_nodeToVehicle (pl_tables p))"
    using tables_ok_inverse [OF ok(1)] by force
  then show ?thesis
    using ok(2) assms(2) by (meson finite_imageI finite_subset)
qed

text \<open>An assignment succeeds when the vehicle is not on the road, has a track, and a device is free.\<close>

lemma AssignVehicleToPool_succeeds:
  assumes "pool_ok p" "finite (dom (pl_poolMobility p))" "v \<notin> dom (nt_vehicleToNode (pl_tables p))"
    "\<exists>rows. map_of (pl_mobility p) v = Some rows \<and> rows \<noteq> []"
    "card (dom (nt_vehicleToNode (pl_tables p))) < card (dom (pl_poolMobility p))"
  shows "\<exists>p'. AssignVehicleToPool v p = Inr p'"
proof -
  have "pl_free p \<noteq> []"
    using pool_capacity [OF assms(1,2)] assms(5) by auto
  moreover from this have "hd (pl_free p) \<in> dom (pl_poolMobility p)"
    using assms(1) by (auto simp: pool_ok_def pool_devices_ok_def dest!: hd_in_set)
  moreover have "nt_dynamic (pl_tables p)" using assms(1) by (simp add: pool_ok_def)
  ultimately show ?thesis
    using assms(3,4) by (auto simp: AssignVehicleToPool_def Let_def mobility_AssignVehicle_def)
qed

subsection \<open>Rounding to nanoseconds\<close>

lemma Seconds_mono: "x \<le> y \<Longrightarrow> Seconds x \<le> Seconds y"
  by (simp add: Seconds_def llround_mono)

lemma Seconds_eps_less:
  assumes "x \<le> y"
  shows "Seconds x < Seconds (y + kAssignmentEpsS)"
proof -
  have "of_int (Seconds x) \<le> x * 1000000000 + 1 / 2"
    using llround_near(2) [of "x * 1000000000"] by (simp add: Seconds_def)
  moreover have "(y + kAssignmentEpsS) * 1000000000 - 1 / 2 \<le> of_int (Seconds (y + kAssignmentEpsS))"
    using llround_near(1) [of "(y + kAssignmentEpsS) * 1000000000"] by (simp add: Seconds_def)
  ultimately have "of_int (Seconds x) < (of_int (Seconds (y + kAssignmentEpsS)) :: real)"
    using assms by (simp add: kAssignmentEpsS_def algebra_simps)
  then show ?thesis by simp
qed

subsection \<open>When tracks begin and end\<close>

definition first_time :: "mobility_map \<Rightarrow> u32 \<Rightarrow> double" where
  "first_time mob v = Min (row_timeS ` set (omap_get [] mob v))"

definition last_time :: "mobility_map \<Rightarrow> u32 \<Rightarrow> double" where
  "last_time mob v = Max (row_timeS ` set (omap_get [] mob v))"

definition has_track :: "mobility_map \<Rightarrow> u32 \<Rightarrow> bool" where
  "has_track mob v \<longleftrightarrow> omap_get [] mob v \<noteq> []"

lemma range_has_track:
  "has_track mob v \<Longrightarrow> ComputeMobilityTimeRange (omap_get [] mob v) = Inr (first_time mob v, last_time mob v)"
  by (simp add: has_track_def first_time_def last_time_def ComputeMobilityTimeRange_eq)

lemma first_le_last: "has_track mob v \<Longrightarrow> first_time mob v \<le> last_time mob v"
proof -
  assume "has_track mob v"
  then obtain r where "r \<in> set (omap_get [] mob v)"
    unfolding has_track_def by (meson list.set_sel(1))
  then show ?thesis
    unfolding first_time_def last_time_def by (intro order_trans [OF Min_le Max_ge]) auto
qed

lemma has_track_map_of: "has_track mob v \<Longrightarrow> \<exists>rows. map_of mob v = Some rows \<and> rows \<noteq> []"
  by (auto simp: has_track_def omap_get_def split: option.splits)

definition initially_active :: "mobility_map \<Rightarrow> double \<Rightarrow> u32 \<Rightarrow> bool" where
  "initially_active mob t0 v \<longleftrightarrow>
     first_time mob v \<le> t0 + kAssignmentEpsS \<and> last_time mob v + kAssignmentEpsS \<ge> t0"

text \<open>The vehicles a device is needed for at a nanosecond: from the beginning of their track until
  the release after its end.\<close>

definition occupying :: "mobility_map \<Rightarrow> u32 list \<Rightarrow> int \<Rightarrow> u32 set" where
  "occupying mob vs t =
     {v \<in> set vs. Seconds (first_time mob v) \<le> t \<and> t \<le> Seconds (last_time mob v + kAssignmentEpsS)}"

subsection \<open>The events of the schedule\<close>

lemma ScheduleDynamicPoolAssignments_events:
  assumes "\<forall>v \<in> set vs. has_track mob v" "distinct vs"
  shows "\<exists>evs. ScheduleDynamicPoolAssignments t0 st mob vs = Inr evs \<and> distinct evs
    \<and> (\<forall>t v. (t, AssignEvent v) \<in> set evs \<longleftrightarrow> v \<in> set vs \<and> t = Seconds (first_time mob v)
         \<and> t0 + kAssignmentEpsS < first_time mob v \<and> first_time mob v \<le> st)
    \<and> (\<forall>t v. (t, ReleaseEvent v) \<in> set evs \<longleftrightarrow> v \<in> set vs \<and> t = Seconds (last_time mob v + kAssignmentEpsS)
         \<and> t0 < last_time mob v \<and> last_time mob v + kAssignmentEpsS \<le> st)"
  using assms
proof (induction vs)
  case (Cons v vs)
  then obtain evs where evs: "ScheduleDynamicPoolAssignments t0 st mob vs = Inr evs" "distinct evs"
    "\<And>t w. (t, AssignEvent w) \<in> set evs \<longleftrightarrow> w \<in> set vs \<and> t = Seconds (first_time mob w)
         \<and> t0 + kAssignmentEpsS < first_time mob w \<and> first_time mob w \<le> st"
    "\<And>t w. (t, ReleaseEvent w) \<in> set evs \<longleftrightarrow> w \<in> set vs \<and> t = Seconds (last_time mob w + kAssignmentEpsS)
         \<and> t0 < last_time mob w \<and> last_time mob w + kAssignmentEpsS \<le> st"
    by auto
  have "v \<notin> set vs" using Cons.prems by simp
  then have "(t, AssignEvent v) \<notin> set evs" "(t, ReleaseEvent v) \<notin> set evs" for t
    using evs(3,4) by simp_all
  then show ?case
    using Cons.prems by (auto simp: range_has_track evs Let_def)
qed simp

lemma AssignInitial_ok:
  assumes "pool_ok p" "\<forall>v \<in> set vs. has_track (pl_mobility p) v" "distinct vs"
    "kInvalidVehicleId \<notin> set vs" "set vs \<inter> dom (nt_vehicleToNode (pl_tables p)) = {}"
    "finite (dom (pl_poolMobility p))"
    "card (dom (nt_vehicleToNode (pl_tables p)) \<union> {v \<in> set vs. initially_active (pl_mobility p) t0 v})
       \<le> card (dom (pl_poolMobility p))"
  shows "\<exists>p'. AssignInitialDynamicPoolVehicles t0 vs p = Inr p' \<and> pool_ok p'
    \<and> pl_mobility p' = pl_mobility p \<and> dom (pl_poolMobility p') = dom (pl_poolMobility p)
    \<and> dom (nt_vehicleToNode (pl_tables p'))
      = dom (nt_vehicleToNode (pl_tables p)) \<union> {v \<in> set vs. initially_active (pl_mobility p) t0 v}"
  using assms
proof (induction vs arbitrary: p)
  case (Cons v vs)
  let ?D = "\<lambda>p. dom (nt_vehicleToNode (pl_tables p))"
  have tr: "ComputeMobilityTimeRange (omap_get [] (pl_mobility p) v)
      = Inr (first_time (pl_mobility p) v, last_time (pl_mobility p) v)"
    using Cons.prems(2) by (simp add: range_has_track)
  show ?case
  proof (cases "initially_active (pl_mobility p) t0 v")
    case False
    then have "{w \<in> set (v # vs). initially_active (pl_mobility p) t0 w} = {w \<in> set vs. initially_active (pl_mobility p) t0 w}"
      by auto
    moreover have "AssignInitialDynamicPoolVehicles t0 (v # vs) p = AssignInitialDynamicPoolVehicles t0 vs p"
      using False by (auto simp: tr initially_active_def)
    ultimately show ?thesis using Cons.IH [of p] Cons.prems by simp
  next
    case True
    have eq: "?D p \<union> {w \<in> set (v # vs). initially_active (pl_mobility p) t0 w}
        = insert v (?D p) \<union> {w \<in> set vs. initially_active (pl_mobility p) t0 w}"
      using True by auto
    have v: "v \<notin> ?D p" "v \<noteq> kInvalidVehicleId" using Cons.prems(4,5) by auto
    have fin: "finite (?D p)"
      using pool_assigned_finite [OF Cons.prems(1,6)] .
    have "card (insert v (?D p)) \<le> card (dom (pl_poolMobility p))"
      using Cons.prems(7) unfolding eq by (rule order_trans [OF card_mono, rotated -1]) (use fin in auto)
    then have "card (?D p) < card (dom (pl_poolMobility p))"
      using v(1) fin by simp
    then obtain p1 where p1: "AssignVehicleToPool v p = Inr p1"
      using AssignVehicleToPool_succeeds [OF Cons.prems(1,6) v(1)] has_track_map_of Cons.prems(2) by auto
    note eff = AssignVehicleToPool_effect [OF p1]
    have "AssignInitialDynamicPoolVehicles t0 (v # vs) p = AssignInitialDynamicPoolVehicles t0 vs p1"
      using True by (simp add: tr initially_active_def p1)
    moreover have "\<exists>p'. AssignInitialDynamicPoolVehicles t0 vs p1 = Inr p' \<and> pool_ok p'
      \<and> pl_mobility p' = pl_mobility p1 \<and> dom (pl_poolMobility p') = dom (pl_poolMobility p1)
      \<and> ?D p' = ?D p1 \<union> {v \<in> set vs. initially_active (pl_mobility p1) t0 v}"
      using Cons.prems AssignVehicleToPool_ok [OF Cons.prems(1) v(2) p1] eq
      by (intro Cons.IH) (auto simp: eff)
    ultimately show ?thesis using eq by (simp add: eff)
  qed
qed simp
subsection \<open>The pool is large enough\<close>

text \<open>The vehicles on the road after part of the schedule.\<close>

definition on_road :: "mobility_map \<Rightarrow> double \<Rightarrow> u32 list \<Rightarrow> (int \<times> pool_event) list \<Rightarrow> u32 set" where
  "on_road mob t0 vs past = {v \<in> set vs.
     (initially_active mob t0 v \<or> AssignEvent v \<in> snd ` set past) \<and> ReleaseEvent v \<notin> snd ` set past}"

definition schedule_events :: "mobility_map \<Rightarrow> double \<Rightarrow> double \<Rightarrow> u32 list \<Rightarrow> (int \<times> pool_event) list \<Rightarrow> bool" where
  "schedule_events mob t0 st vs evs \<longleftrightarrow> distinct evs
    \<and> (\<forall>t v. (t, AssignEvent v) \<in> set evs \<longleftrightarrow> v \<in> set vs \<and> t = Seconds (first_time mob v)
         \<and> t0 + kAssignmentEpsS < first_time mob v \<and> first_time mob v \<le> st)
    \<and> (\<forall>t v. (t, ReleaseEvent v) \<in> set evs \<longleftrightarrow> v \<in> set vs \<and> t = Seconds (last_time mob v + kAssignmentEpsS)
         \<and> t0 < last_time mob v \<and> last_time mob v + kAssignmentEpsS \<le> st)"

lemma schedule_events_iff:
  assumes "schedule_events mob t0 st vs evs"
  shows "(t, AssignEvent v) \<in> set evs \<longleftrightarrow> v \<in> set vs \<and> t = Seconds (first_time mob v)
         \<and> t0 + kAssignmentEpsS < first_time mob v \<and> first_time mob v \<le> st"
    "(t, ReleaseEvent v) \<in> set evs \<longleftrightarrow> v \<in> set vs \<and> t = Seconds (last_time mob v + kAssignmentEpsS)
         \<and> t0 < last_time mob v \<and> last_time mob v + kAssignmentEpsS \<le> st"
  using assms unfolding schedule_events_def by blast+

lemma in_snd_image: "e \<in> snd ` set evs \<longleftrightarrow> (\<exists>t. (t, e) \<in> set evs)"
  by force

lemma schedule_events_sort: "schedule_events mob t0 st vs evs \<Longrightarrow> schedule_events mob t0 st vs (sort_key fst evs)"
  by (simp add: schedule_events_def distinct_sort)

lemma on_road_assign:
  assumes "schedule_events mob t0 st vs (xs @ (t, AssignEvent v) # ys)"
    "sorted (map fst (xs @ (t, AssignEvent v) # ys))" "\<forall>v \<in> set vs. has_track mob v"
    "\<forall>v \<in> set vs. t0 < last_time mob v"
  shows "v \<in> set vs" "v \<notin> on_road mob t0 vs xs" "insert v (on_road mob t0 vs xs) \<subseteq> occupying mob vs t"
    "on_road mob t0 vs (xs @ [(t, AssignEvent v)]) = insert v (on_road mob t0 vs xs)"
proof -
  let ?E = "xs @ (t, AssignEvent v) # ys"
  have v: "v \<in> set vs" "t = Seconds (first_time mob v)" "t0 + kAssignmentEpsS < first_time mob v"
    "first_time mob v \<le> st"
    using schedule_events_iff(1) [OF assms(1), of t v] by auto
  have before: "t' \<le> t" if "(t', e) \<in> set xs" for t' e
    using assms(2) that by (force simp: sorted_append)
  have after: "t \<le> t'" if "(t', e) \<in> set ys" for t' e
    using assms(2) that by (force simp: sorted_append)
  have A: "t' = Seconds (first_time mob w)" if "(t', AssignEvent w) \<in> set ?E" for t' w
    using schedule_events_iff(1) [OF assms(1)] that by blast
  have R: "t' = Seconds (last_time mob w + kAssignmentEpsS)" if "(t', ReleaseEvent w) \<in> set ?E" for t' w
    using schedule_events_iff(2) [OF assms(1)] that by blast
  show "v \<in> set vs" by (rule v(1))
  have notA: "AssignEvent v \<notin> snd ` set xs"
  proof
    assume "AssignEvent v \<in> snd ` set xs"
    then obtain t' where t': "(t', AssignEvent v) \<in> set xs" unfolding in_snd_image ..
    then have "t' = t" unfolding v(2) by (intro A) simp
    with t' have "\<not> distinct ?E" by auto
    with assms(1) show False unfolding schedule_events_def by blast
  qed
  have notR: "ReleaseEvent v \<notin> snd ` set xs"
  proof
    assume "ReleaseEvent v \<in> snd ` set xs"
    then obtain t' where t': "(t', ReleaseEvent v) \<in> set xs" by force
    then have "t' = Seconds (last_time mob v + kAssignmentEpsS)" using R by simp
    moreover have "t < Seconds (last_time mob v + kAssignmentEpsS)"
      unfolding v(2) using assms(3) v(1) first_le_last Seconds_eps_less by blast
    ultimately show False using before [OF t'] by simp
  qed
  have notI: "\<not> initially_active mob t0 v" using v(3) by (simp add: initially_active_def)
  show "v \<notin> on_road mob t0 vs xs" using notA notI by (simp add: on_road_def)
  show "on_road mob t0 vs (xs @ [(t, AssignEvent v)]) = insert v (on_road mob t0 vs xs)"
    using notA notR v(1) by (auto simp: on_road_def)
  have "w \<in> occupying mob vs t" if w: "w \<in> on_road mob t0 vs xs" for w
  proof -
    have wvs: "w \<in> set vs" and nr: "ReleaseEvent w \<notin> snd ` set xs" using w by (simp_all add: on_road_def)
    have "Seconds (first_time mob w) \<le> t"
    proof (cases "initially_active mob t0 w")
      case True
      then have "first_time mob w \<le> first_time mob v" using v(3) by (simp add: initially_active_def)
      then show ?thesis unfolding v(2) by (rule Seconds_mono)
    next
      case False
      then obtain t' where t': "(t', AssignEvent w) \<in> set xs" using w by (force simp: on_road_def)
      then have "t' = Seconds (first_time mob w)" by (intro A) simp
      with before [OF t'] show ?thesis by simp
    qed
    moreover have "t \<le> Seconds (last_time mob w + kAssignmentEpsS)"
    proof (cases "last_time mob w + kAssignmentEpsS \<le> st")
      case True
      then have "(Seconds (last_time mob w + kAssignmentEpsS), ReleaseEvent w) \<in> set ?E"
        using schedule_events_iff(2) [OF assms(1)] assms(4) wvs by blast
      with nr have "(Seconds (last_time mob w + kAssignmentEpsS), ReleaseEvent w) \<in> set ys" by force
      then show ?thesis by (rule after)
    next
      case False
      then show ?thesis unfolding v(2) using v(4) by (intro Seconds_mono) simp
    qed
    ultimately show ?thesis using wvs by (simp add: occupying_def)
  qed
  moreover have "v \<in> occupying mob vs t"
    using v(1,2) Seconds_eps_less first_le_last assms(3) by (auto simp: occupying_def intro: less_imp_le)
  ultimately show "insert v (on_road mob t0 vs xs) \<subseteq> occupying mob vs t" by blast
qed

lemma run_pool_succeeds:
  assumes "schedule_events mob t0 st vs (xs @ ys)" "sorted (map fst (xs @ ys))"
    "\<forall>v \<in> set vs. has_track mob v" "\<forall>v \<in> set vs. t0 < last_time mob v" "kInvalidVehicleId \<notin> set vs"
    "finite M" "\<forall>t. card (occupying mob vs t) \<le> card M"
    "pool_ok p" "pl_mobility p = mob" "dom (pl_poolMobility p) = M"
    "dom (nt_vehicleToNode (pl_tables p)) = on_road mob t0 vs xs"
  shows "\<exists>p'. run_pool (map snd ys) p = Inr p' \<and> pool_ok p'
    \<and> dom (nt_vehicleToNode (pl_tables p')) = on_road mob t0 vs (xs @ ys)"
  using assms(1,2,8-)
proof (induction ys arbitrary: xs p)
  case (Cons y ys)
  obtain t e where y: "y = (t, e)" by (cases y)
  show ?case
  proof (cases e)
    case (AssignEvent v)
    have E: "schedule_events mob t0 st vs (xs @ (t, AssignEvent v) # ys)"
      "sorted (map fst (xs @ (t, AssignEvent v) # ys))"
      using Cons.prems(1,2) by (simp_all add: y AssignEvent)
    note r = on_road_assign [OF E assms(3,4)]
    have "card (insert v (on_road mob t0 vs xs)) \<le> card M"
      using card_mono [OF _ r(3)] assms(7) order_trans by (force simp: occupying_def)
    then have "card (on_road mob t0 vs xs) < card M"
      using r(2) by (simp add: on_road_def)
    then obtain p1 where p1: "AssignVehicleToPool v p = Inr p1"
      using AssignVehicleToPool_succeeds [OF Cons.prems(3)] Cons.prems(4-6) r(1,2) assms(3,6)
        has_track_map_of by metis
    have "v \<noteq> kInvalidVehicleId" using r(1) assms(5) by blast
    then have "pool_ok p1" using AssignVehicleToPool_ok [OF Cons.prems(3) _ p1] by blast
    moreover note eff = AssignVehicleToPool_effect [OF p1]
    ultimately have "\<exists>p'. run_pool (map snd ys) p1 = Inr p' \<and> pool_ok p'
        \<and> dom (nt_vehicleToNode (pl_tables p')) = on_road mob t0 vs ((xs @ [y]) @ ys)"
      using Cons.prems r(4) by (intro Cons.IH) (simp_all add: y AssignEvent)
    then show ?thesis by (simp add: y AssignEvent p1)
  next
    case (ReleaseEvent v)
    obtain p1 where p1: "ReleaseVehicleFromPool v p = Inr p1"
      using Cons.prems(3) by (cases "nt_vehicleToNode (pl_tables p) v")
        (auto simp: ReleaseVehicleFromPool_def pool_ok_def)
    have "pool_ok p1" using ReleaseVehicleFromPool_ok [OF Cons.prems(3) p1] .
    moreover note eff = ReleaseVehicleFromPool_effect [OF p1]
    moreover have "on_road mob t0 vs (xs @ [y]) = on_road mob t0 vs xs - {v}"
      by (auto simp: on_road_def y ReleaseEvent)
    ultimately have "\<exists>p'. run_pool (map snd ys) p1 = Inr p' \<and> pool_ok p'
        \<and> dom (nt_vehicleToNode (pl_tables p')) = on_road mob t0 vs ((xs @ [y]) @ ys)"
      using Cons.prems by (intro Cons.IH) simp_all
    then show ?thesis by (simp add: y ReleaseEvent p1)
  qed
qed simp

text \<open>C10: when no more vehicles than there are devices have to be carried at the same nanosecond, from the
  beginning of their tracks to their release after the end, and every track ends after the start of
  the run, the whole schedule of assignments and releases runs without exhausting the pool; at the
  end exactly the vehicles whose release was due are off the road.\<close>

theorem pool_never_exhausted:
  assumes "distinct nodes" "- 1 \<notin> set nodes" "distinct vs" "kInvalidVehicleId \<notin> set vs"
    "\<forall>v \<in> set vs. has_track mob v \<and> t0 < last_time mob v"
    "\<forall>t. card (occupying mob vs t) \<le> length nodes"
  shows "\<exists>p. pool_simulation t0 st vs (pool_setup mob nodes) = Inr p \<and> pool_ok p
    \<and> dom (nt_vehicleToNode (pl_tables p)) = {v \<in> set vs. first_time mob v \<le> max (t0 + kAssignmentEpsS) st
         \<and> st < last_time mob v + kAssignmentEpsS}"
proof -
  let ?p = "pool_setup mob nodes" and ?M = "set nodes"
  have tr: "\<forall>v \<in> set vs. has_track mob v" "\<forall>v \<in> set vs. t0 < last_time mob v" using assms(5) by auto
  note s = pool_setup_state [OF assms(1,2), of mob]
  have cM: "card ?M = length nodes" using assms(1) by (rule distinct_card)
  let ?I = "{v \<in> set vs. initially_active mob t0 v}"
  have "?I \<subseteq> occupying mob vs (Seconds (t0 + kAssignmentEpsS))"
    using tr(2) by (auto simp: occupying_def initially_active_def intro!: Seconds_mono)
  then have "card ?I \<le> length nodes"
    using card_mono [of "occupying mob vs (Seconds (t0 + kAssignmentEpsS))" ?I] assms(6)
    by (force simp: occupying_def intro: order_trans)
  then obtain p0 where p0: "AssignInitialDynamicPoolVehicles t0 vs ?p = Inr p0" "pool_ok p0"
    "pl_mobility p0 = mob" "dom (pl_poolMobility p0) = ?M" "dom (nt_vehicleToNode (pl_tables p0)) = ?I"
    using AssignInitial_ok [of ?p vs t0] s tr(1) assms(3,4) cM by auto
  obtain evs where evs: "ScheduleDynamicPoolAssignments t0 st mob vs = Inr evs"
    "schedule_events mob t0 st vs evs"
    using ScheduleDynamicPoolAssignments_events [OF tr(1) assms(3), of t0 st]
    unfolding schedule_events_def by blast
  have "on_road mob t0 vs [] = ?I" by (simp add: on_road_def)
  with p0 have "\<exists>p'. run_pool (map snd (sort_key fst evs)) p0 = Inr p' \<and> pool_ok p'
      \<and> dom (nt_vehicleToNode (pl_tables p')) = on_road mob t0 vs ([] @ sort_key fst evs)"
    using schedule_events_sort [OF evs(2)] tr assms(4,6) cM
    by (intro run_pool_succeeds [where M = ?M and st = st]) simp_all
  moreover have "on_road mob t0 vs (sort_key fst evs) = {v \<in> set vs.
      first_time mob v \<le> max (t0 + kAssignmentEpsS) st \<and> st < last_time mob v + kAssignmentEpsS}"
  proof -
    have A: "AssignEvent v \<in> snd ` set evs \<longleftrightarrow> v \<in> set vs \<and> t0 + kAssignmentEpsS < first_time mob v \<and> first_time mob v \<le> st" for v
      by (simp add: in_snd_image schedule_events_iff [OF evs(2)])
    have R: "ReleaseEvent v \<in> snd ` set evs \<longleftrightarrow> v \<in> set vs \<and> t0 < last_time mob v \<and> last_time mob v + kAssignmentEpsS \<le> st" for v
      by (simp add: in_snd_image schedule_events_iff [OF evs(2)])
    have "initially_active mob t0 v \<longleftrightarrow> first_time mob v \<le> t0 + kAssignmentEpsS" if "v \<in> set vs" for v
      using tr(2) that by (auto simp: initially_active_def kAssignmentEpsS_def)
    then show ?thesis
      using tr(2) unfolding on_road_def by (auto simp: A R not_le)
  qed
  ultimately show ?thesis
    using p0(1) evs(1) s by (auto simp: pool_simulation_def)
qed

lemma sample_times:
  "first_time sample_mobility 1 = 0" "last_time sample_mobility 1 = 10"
  "first_time sample_mobility 2 = 10" "last_time sample_mobility 2 = 20"
  "has_track sample_mobility 1" "has_track sample_mobility 2"
  by (simp_all add: first_time_def last_time_def has_track_def sample_mobility_def sample_row_def omap_get_def)

theorem pool_never_exhausted_witness:
  "\<exists>p. pool_simulation 0 15 [1, 2] (pool_setup sample_mobility [0, 1]) = Inr p \<and> pool_ok p
     \<and> dom (nt_vehicleToNode (pl_tables p)) = {2}"
proof -
  have "card (occupying sample_mobility [1, 2] t) \<le> length [0 :: u32, 1]" for t
    by (rule order_trans [OF card_mono [of "{1, 2}"]]) (auto simp: occupying_def)
  moreover have "{v \<in> set [1, 2]. first_time sample_mobility v \<le> max (0 + kAssignmentEpsS) 15
      \<and> 15 < last_time sample_mobility v + kAssignmentEpsS} = {2}"
    by (auto simp: sample_times kAssignmentEpsS_def)
  ultimately show ?thesis
    using pool_never_exhausted [of "[0, 1]" "[1, 2]" sample_mobility 0 15]
    by (simp add: sample_times kInvalidVehicleId_def)
qed

text \<open>Two tracks of which the first ends at the very start, and two tracks that overlap without a common
  time stamp.\<close>

definition ended_mobility :: mobility_map where
  "ended_mobility = [(1, [sample_row 0 1 0]), (2, [sample_row 10 2 0, sample_row 20 2 80])]"

definition staggered_mobility :: mobility_map where
  "staggered_mobility = [(1, [sample_row 1 1 0, sample_row 10 1 50]), (2, [sample_row 5 2 0, sample_row 20 2 80])]"

lemmas pool_run_simps = pool_simulation_def pool_setup_def pool_add_node_def AssignVehicleToPool_def
  ReleaseVehicleFromPool_def mobility_AssignVehicle_def kAssignmentEpsS_def ComputeMobilityTimeRange_eq
  omap_get_def sample_row_def Seconds_def llround_def

text \<open>C33: a track whose last row is at the start of the run is given a device and never returns it: its
  release is not scheduled, because the release time is compared with the start plus the same
  tolerance that was added to it. With one device, a second vehicle that arrives ten seconds later
  finds the pool exhausted, though never more than one vehicle has a row at the same time.\<close>

theorem pool_leaks_ended_track:
  "ComputePeakActiveCountsForVehicles ended_mobility [1, 2] False ''y'' 0 0 = (1, 1)
    \<and> ScheduleDynamicPoolAssignments 0 30 ended_mobility [1, 2]
        = Inr [(10000000000, AssignEvent 2), (20000001000, ReleaseEvent 2)]
    \<and> pool_simulation 0 30 [1, 2] (pool_setup ended_mobility [0]) = Inl (Abort ''Dynamic active pool exhausted'')"
proof (intro conjI)
  show "ComputePeakActiveCountsForVehicles ended_mobility [1, 2] False ''y'' 0 0 = (1, 1)"
    by (simp add: ComputePeakActiveCountsForVehicles_def peak_vehicle_def peak_row_def peak_size_def
        insert_at_def oset_insert_def omap_get_def ended_mobility_def sample_row_def)
  show "ScheduleDynamicPoolAssignments 0 30 ended_mobility [1, 2]
      = Inr [(10000000000, AssignEvent 2), (20000001000, ReleaseEvent 2)]"
    by (simp add: pool_run_simps ended_mobility_def)
  then show "pool_simulation 0 30 [1, 2] (pool_setup ended_mobility [0]) = Inl (Abort ''Dynamic active pool exhausted'')"
    by (simp add: pool_run_simps ended_mobility_def)
qed

text \<open>C36: the check of \<open>main\<close> that the pool is large enough counts vehicles that have a row with the same
  time stamp; for tracks whose rows do not share time stamps it passes although the vehicles are on
  the road together, and the run then aborts.\<close>

theorem peak_check_misses_overlap:
  "ComputePeakActiveCountsForVehicles staggered_mobility [1, 2] False ''y'' 0 0 = (1, 1)
    \<and> pool_simulation 0 30 [1, 2] (pool_setup staggered_mobility [0])
        = Inl (Abort ''Dynamic active pool exhausted'')"
proof (intro conjI)
  show "ComputePeakActiveCountsForVehicles staggered_mobility [1, 2] False ''y'' 0 0 = (1, 1)"
    by (simp add: ComputePeakActiveCountsForVehicles_def peak_vehicle_def peak_row_def peak_size_def
        insert_at_def oset_insert_def omap_get_def staggered_mobility_def sample_row_def)
  show "pool_simulation 0 30 [1, 2] (pool_setup staggered_mobility [0]) = Inl (Abort ''Dynamic active pool exhausted'')"
    by (simp add: pool_run_simps staggered_mobility_def)
qed

end
