(* ===== verification/RadioInputs.thy ===== *)
theory RadioInputs
  imports VehiclePool
begin

text \<open>
  Applying inputs to the radio devices: the transmit power of every sidelink device, the scheduled
  open-loop inputs, and the source layer-2 ids.

  The NR devices are third-party objects. A device is \<open>None\<close> when it is not an \<open>NrUeNetDevice\<close>; the
  physical layers of its bandwidth parts are a list, \<open>None\<close> where one is missing. What
  \<open>LteUeRrc::GetSourceL2Id\<close> returns after the sidelink RRC was given an id is the function
  \<open>lte_source\<close>.
\<close>

section \<open>Transmit power\<close>

record nr_device =
  dev_phyTxPower :: "double option list"
  dev_hasNrSlRrc :: bool
  dev_sourceL2Id :: u32
  dev_macSourceL2Id :: "u32 option list" \<comment> \<open>the sidelink MAC of each bandwidth part, if it has one\<close>

type_synonym ue_devices = "nr_device option list"

primrec set_phy_powers :: "double \<Rightarrow> double option list \<Rightarrow> double option list result" where
  "set_phy_powers pDbm [] = Inr []"
| "set_phy_powers pDbm (phy # phys) =
     (case phy of
        None \<Rightarrow> Inl (Abort ''Missing NrUePhy'')
      | Some _ \<Rightarrow> and_then (set_phy_powers pDbm phys) (\<lambda>r. Inr (Some pDbm # r)))"

primrec ApplyTxPowerToAllUes :: "double \<Rightarrow> ue_devices \<Rightarrow> ue_devices result" where
  "ApplyTxPowerToAllUes pDbm [] = Inr []"
| "ApplyTxPowerToAllUes pDbm (d # ds) =
     (case d of
        None \<Rightarrow> Inl (Abort ''Device is not NrUeNetDevice'')
      | Some dev \<Rightarrow>
          and_then (set_phy_powers pDbm (dev_phyTxPower dev)) (\<lambda>phys.
          and_then (ApplyTxPowerToAllUes pDbm ds) (\<lambda>ds'.
            Inr (Some (dev\<lparr>dev_phyTxPower := phys\<rparr>) # ds'))))"

definition ApplyTxPowerAtTime ::
    "double \<Rightarrow> double \<Rightarrow> kpi_logger \<Rightarrow> ue_devices \<Rightarrow> (kpi_logger \<times> ue_devices) result" where
  "ApplyTxPowerAtTime pDbm fixedBeaconIntervalS logger ueDevs =
     (let logger' = SetCurrentInputs pDbm fixedBeaconIntervalS logger
      in and_then (ApplyTxPowerToAllUes pDbm ueDevs) (\<lambda>devs. Inr (logger', devs)))"

definition ApplyInputsAtTime ::
    "double \<Rightarrow> double \<Rightarrow> kpi_logger \<Rightarrow> ue_devices \<Rightarrow> (u32 \<rightharpoonup> cam_app)
       \<Rightarrow> (kpi_logger \<times> ue_devices \<times> (u32 \<rightharpoonup> cam_app)) result" where
  "ApplyInputsAtTime pDbm tbS logger ueDevs apps =
     (let logger' = SetCurrentInputs pDbm tbS logger;
          apps' = (\<lambda>n. map_option (SetBeaconInterval tbS) (apps n))
      in and_then (ApplyTxPowerToAllUes pDbm ueDevs) (\<lambda>devs. Inr (logger', devs, apps')))"

text \<open>The delays and inputs \<open>ScheduleInputUpdates\<close> passes to the simulator.\<close>

definition ScheduleInputUpdates :: "input_command list \<Rightarrow> (int \<times> double \<times> double) list" where
  "ScheduleInputUpdates sched =
     map (\<lambda>u. (Seconds (in_timeS u), in_txPowerDbm u, in_beaconIntervalS u)) sched"

section \<open>Source ids\<close>

definition source_l2_id :: "nat \<Rightarrow> u32" where
  "source_l2_id ueIndex = 1 + (of_nat ueIndex mod 254)"

primrec assign_l2_ids :: "(u32 \<Rightarrow> u32) \<Rightarrow> nat \<Rightarrow> ue_devices \<Rightarrow> ue_devices result" where
  "assign_l2_ids lte_source ueIndex [] = Inr []"
| "assign_l2_ids lte_source ueIndex (d # ds) =
     (case d of
        None \<Rightarrow> Inl (Abort ''Device is not NrUeNetDevice'')
      | Some dev \<Rightarrow>
          and_then (abort_if (\<not> dev_hasNrSlRrc dev) ''Missing NrSlUeRrc while assigning source L2 IDs'') (\<lambda>_.
          and_then (abort_if (lte_source (source_l2_id ueIndex) = 0)
            ''Failed to assign nonzero source L2 ID for UE device'') (\<lambda>_.
          and_then (assign_l2_ids lte_source (ueIndex + 1) ds) (\<lambda>ds'.
            Inr (Some (dev\<lparr>dev_sourceL2Id := source_l2_id ueIndex,
                           dev_macSourceL2Id := map (map_option (\<lambda>_. source_l2_id ueIndex))
                             (dev_macSourceL2Id dev)\<rparr>) # ds')))))"

definition AssignDeterministicSourceL2Ids :: "(u32 \<Rightarrow> u32) \<Rightarrow> ue_devices \<Rightarrow> ue_devices result" where
  "AssignDeterministicSourceL2Ids lte_source ueDevs = assign_l2_ids lte_source 0 ueDevs"

section \<open>Facts\<close>

lemma set_phy_powers_Inr:
  "set_phy_powers p phys = Inr r \<longleftrightarrow> None \<notin> set phys \<and> r = replicate (length phys) (Some p)"
  by (induction phys arbitrary: r) (auto split: option.splits)

definition device_powers :: "ue_devices \<Rightarrow> double option set" where
  "device_powers ds = (\<Union>d \<in> set ds. case d of None \<Rightarrow> {} | Some dev \<Rightarrow> set (dev_phyTxPower dev))"

lemma ApplyTxPowerToAllUes_powers:
  "ApplyTxPowerToAllUes p ds = Inr ds' \<Longrightarrow> device_powers ds' \<subseteq> {Some p} \<and> length ds' = length ds"
proof (induction ds arbitrary: ds')
  case (Cons d ds)
  from Cons.prems obtain dev ds1 where d: "d = Some dev" "ApplyTxPowerToAllUes p ds = Inr ds1"
    "ds' = Some (dev\<lparr>dev_phyTxPower := replicate (length (dev_phyTxPower dev)) (Some p)\<rparr>) # ds1"
    by (auto simp: set_phy_powers_Inr split: option.splits)
  with Cons.IH [OF d(2)] show ?case by (auto simp: device_powers_def)
qed (simp add: device_powers_def)

lemma unat_source_l2_id:
  assumes "i < 2 ^ 32"
  shows "unat (source_l2_id i) = 1 + i mod 254"
proof -
  have "unat (of_nat i mod 254 :: u32) = i mod 254"
    using assms by (simp add: unat_mod_distrib unat_of_nat_u32)
  moreover have "i mod 254 < 254" by simp
  ultimately show ?thesis
    unfolding source_l2_id_def by (subst unat_add_lem [THEN iffD1]) simp_all
qed

lemma assign_l2_ids_Inr:
  "assign_l2_ids lte i ds = Inr ds' \<Longrightarrow>
     map (map_option dev_sourceL2Id) ds' = map (\<lambda>j. Some (source_l2_id j)) [i..<i + length ds]"
proof (induction ds arbitrary: i ds')
  case (Cons d ds)
  from Cons.prems obtain dev ds1 where d: "d = Some dev" "assign_l2_ids lte (i + 1) ds = Inr ds1"
    "ds' = Some (dev\<lparr>dev_sourceL2Id := source_l2_id i,
       dev_macSourceL2Id := map (map_option (\<lambda>_. source_l2_id i)) (dev_macSourceL2Id dev)\<rparr>) # ds1"
    by (auto split: option.splits)
  with Cons.IH [OF d(2)] show ?case by (simp add: upt_conv_Cons del: upt_Suc)
qed simp

text \<open>When ids are assigned to at most 254 devices, and the pool has at most 250, all of them are
  different, none is zero and none is 255, the id left for the group: each fits the eight bits of
  the control information.\<close>

theorem source_l2_ids_distinct:
  assumes "AssignDeterministicSourceL2Ids lte_source ds = Inr ds'" "length ds \<le> 254"
  shows "distinct (map (map_option dev_sourceL2Id) ds')
    \<and> (\<forall>d \<in> set ds'. \<exists>dev. d = Some dev \<and> 1 \<le> unat (dev_sourceL2Id dev) \<and> unat (dev_sourceL2Id dev) \<le> 254)"
proof -
  have m: "map (map_option dev_sourceL2Id) ds' = map (\<lambda>j. Some (source_l2_id j)) [0..<length ds]"
    using assign_l2_ids_Inr [of lte_source 0 ds ds'] assms(1) by (simp add: AssignDeterministicSourceL2Ids_def)
  have u: "unat (source_l2_id j) = 1 + j" if "j < length ds" for j
    using that assms(2) by (simp add: unat_source_l2_id)
  have "inj_on (\<lambda>j. Some (source_l2_id j)) {0..<length ds}"
    using u by (intro inj_onI) (metis atLeastLessThan_iff add_left_cancel option.inject)
  then have "distinct (map (map_option dev_sourceL2Id) ds')"
    unfolding m by (simp add: distinct_map)
  moreover have "\<exists>dev. d = Some dev \<and> 1 \<le> unat (dev_sourceL2Id dev) \<and> unat (dev_sourceL2Id dev) \<le> 254"
    if "d \<in> set ds'" for d
  proof -
    have "map_option dev_sourceL2Id d \<in> set (map (map_option dev_sourceL2Id) ds')"
      using that by simp
    then obtain j where "j < length ds" "map_option dev_sourceL2Id d = Some (source_l2_id j)"
      unfolding m by auto
    then show ?thesis using u [of j] assms(2) by auto
  qed
  ultimately show ?thesis by blast
qed

definition sample_device :: nr_device where
  "sample_device = \<lparr>dev_phyTxPower = [Some 0], dev_hasNrSlRrc = True, dev_sourceL2Id = 0,
     dev_macSourceL2Id = [Some 0]\<rparr>"

theorem source_l2_ids_distinct_witness:
  "\<exists>ds'. AssignDeterministicSourceL2Ids id [Some sample_device, Some sample_device] = Inr ds'
     \<and> distinct (map (map_option dev_sourceL2Id) ds')"
proof -
  obtain ds' where ds': "AssignDeterministicSourceL2Ids id [Some sample_device, Some sample_device] = Inr ds'"
    by (simp add: AssignDeterministicSourceL2Ids_def sample_device_def source_l2_id_def)
  from source_l2_ids_distinct [OF this] ds' show ?thesis by auto
qed

end
