(* ===== verification/Json.thy ===== *)
theory Json
  imports StdString
begin

text \<open>
  The text helpers of the scenario around JSON and file names: \<open>DeriveSidecarPath\<close>, \<open>JsonEscape\<close>,
  \<open>WriteJsonArray\<close> and the three field extractors with which the controller's response is read.
  An extractor gives \<open>Inr None\<close> where the code returns \<open>false\<close>, and \<open>Inl\<close> where \<open>std::stod\<close>
  throws.
\<close>

abbreviation quote :: char where "quote \<equiv> CHR 0x22"
abbreviation backslash :: char where "backslash \<equiv> CHR 0x5C"

section \<open>Writing\<close>

definition DeriveSidecarPath :: "string \<Rightarrow> string \<Rightarrow> string" where
  "DeriveSidecarPath csvPath suffix =
     (case str_rfind ''.csv'' csvPath of
        Some pos \<Rightarrow> take pos csvPath @ suffix @ drop (pos + 4) csvPath
      | None \<Rightarrow> csvPath @ suffix)"

definition escape_char :: "char \<Rightarrow> string" where
  "escape_char c =
     (if c = backslash then [backslash, backslash]
      else if c = quote then [backslash, quote]
      else if c = CHR 0x0A then [backslash, CHR ''n'']
      else if c = CHR 0x0D then [backslash, CHR ''r'']
      else if c = CHR 0x09 then [backslash, CHR ''t'']
      else [c])"

definition JsonEscape :: "string \<Rightarrow> string" where
  "JsonEscape val = concat (map escape_char val)"

text \<open>How a double is printed (\<open>std::setprecision(12)\<close>) is a parameter.\<close>

definition WriteJsonArray :: "('v \<Rightarrow> string) \<Rightarrow> 'v list \<Rightarrow> string" where
  "WriteJsonArray show_double vals =
     ''['' @ concat (map (\<lambda>i. (if 0 < i then '','' else []) @ show_double (vals ! i)) [0..<length vals]) @ '']''"

section \<open>Extracting fields\<close>

definition json_needle :: "string \<Rightarrow> string" where
  "json_needle key = [quote] @ key @ [quote]"

text \<open>The position of the colon after the first occurrence of the quoted key.\<close>

definition json_colon :: "string \<Rightarrow> string \<Rightarrow> nat option" where
  "json_colon content key =
     (case str_find (json_needle key) content of
        None \<Rightarrow> None
      | Some pos \<Rightarrow> str_find_from '':'' content (pos + length (json_needle key)))"

definition number_char :: "char \<Rightarrow> bool" where
  "number_char c \<longleftrightarrow> is_digit c \<or> c = CHR ''-'' \<or> c = CHR ''+'' \<or> c = CHR ''.'' \<or> c = CHR ''e'' \<or> c = CHR ''E''"

definition ExtractJsonNumber :: "string \<Rightarrow> string \<Rightarrow> double option result" where
  "ExtractJsonNumber content key =
     (case json_colon content key of
        None \<Rightarrow> Inr None
      | Some pos \<Rightarrow>
          (let text = dropWhile is_space (drop (pos + 1) content);
               num = takeWhile number_char text
           in if num = [] then Inr None else and_then (stod num) (\<lambda>v. Inr (Some v))))"

definition ExtractJsonBool :: "string \<Rightarrow> string \<Rightarrow> bool option" where
  "ExtractJsonBool content key =
     (case json_colon content key of
        None \<Rightarrow> None
      | Some pos \<Rightarrow>
          (let text = dropWhile is_space (drop (pos + 1) content)
           in if take 4 text = ''true'' then Some True
              else if take 5 text = ''false'' then Some False
              else None))"

definition ExtractJsonString :: "string \<Rightarrow> string \<Rightarrow> string option" where
  "ExtractJsonString content key =
     (case json_colon content key of
        None \<Rightarrow> None
      | Some pos \<Rightarrow>
          (case str_find_from [quote] content (pos + 1) of
             None \<Rightarrow> None
           | Some p \<Rightarrow>
               (case str_find_from [quote] content (p + 1) of
                  None \<Rightarrow> None
                | Some e \<Rightarrow> Some (take (e - p - 1) (drop (p + 1) content)))))"

section \<open>Escaping is undone by a JSON reader\<close>

text \<open>The reader of the JSON grammar for what follows an opening quote: it stops at the first quote that
  is not escaped, knows the short escapes, and accepts no control character.\<close>

fun json_string_body :: "string \<Rightarrow> (string \<times> string) option" where
  "json_string_body [] = None"
| "json_string_body (c # s) =
     (if c = quote then Some ([], s)
      else if c = backslash then
        (case s of
           [] \<Rightarrow> None
         | d # s' \<Rightarrow>
             (case (if d = quote \<or> d = backslash \<or> d = CHR ''/'' then Some d
                    else if d = CHR ''n'' then Some (CHR 0x0A)
                    else if d = CHR ''r'' then Some (CHR 0x0D)
                    else if d = CHR ''t'' then Some (CHR 0x09)
                    else if d = CHR ''b'' then Some (CHR 0x08)
                    else if d = CHR ''f'' then Some (CHR 0x0C)
                    else None) of
                None \<Rightarrow> None
              | Some e \<Rightarrow> map_option (\<lambda>(t, r). (e # t, r)) (json_string_body s')))
      else if (of_char c :: nat) < 32 then None
      else map_option (\<lambda>(t, r). (c # t, r)) (json_string_body s))"

text \<open>The control characters \<open>JsonEscape\<close> takes care of.\<close>

definition json_printable :: "char \<Rightarrow> bool" where
  "json_printable c \<longleftrightarrow> 32 \<le> (of_char c :: nat) \<or> c \<in> {CHR 0x0A, CHR 0x0D, CHR 0x09}"

lemma json_string_body_escape:
  assumes "json_printable c"
  shows "json_string_body (escape_char c @ s) = map_option (\<lambda>(t, r). (c # t, r)) (json_string_body s)"
  using assms by (auto simp: escape_char_def json_printable_def)

text \<open>A string without control characters other than newline, carriage return and tabulator is read
  back by a JSON reader exactly as it was before escaping, and the closing quote after it is the one
  that ends it.\<close>

theorem JsonEscape_roundtrip:
  assumes "\<forall>c \<in> set s. json_printable c"
  shows "json_string_body (JsonEscape s @ quote # rest) = Some (s, rest)"
  using assms by (induction s) (simp_all add: JsonEscape_def json_string_body_escape)

theorem JsonEscape_roundtrip_witness:
  "json_string_body (JsonEscape [CHR ''a'', quote, backslash, CHR 0x0A] @ quote # ''}'')
     = Some ([CHR ''a'', quote, backslash, CHR 0x0A], ''}'')"
  by (rule JsonEscape_roundtrip) (simp add: json_printable_def)

text \<open>Other control characters are copied as they are, and a JSON reader rejects the result.\<close>

theorem JsonEscape_keeps_control:
  "JsonEscape [CHR 0x08] = [CHR 0x08] \<and> json_string_body (JsonEscape [CHR 0x08] @ [quote]) = None"
  by (simp add: JsonEscape_def escape_char_def)

section \<open>The field extractors\<close>

lemma json_colon_at:
  assumes "str_find (json_needle key) (pre @ json_needle key @ sp @ CHR '':'' # rest) = Some (length pre)"
    "CHR '':'' \<notin> set sp"
  shows "json_colon (pre @ json_needle key @ sp @ CHR '':'' # rest) key
    = Some (length pre + length (json_needle key) + length sp)"
  using str_find_char [OF assms(2), of rest]
  by (simp add: json_colon_def assms(1) str_find_from_def)

lemma dropWhile_spaces:
  assumes "\<forall>c \<in> set sp. is_space c" "t \<noteq> [] \<Longrightarrow> \<not> is_space (hd t)"
  shows "dropWhile is_space (sp @ t) = t"
  using assms by (induction sp) (cases t; auto)+

lemma takeWhile_number:
  assumes "\<forall>c \<in> set num. number_char c" "rest \<noteq> [] \<Longrightarrow> \<not> number_char (hd rest)"
  shows "takeWhile number_char (num @ rest) = num"
  using assms by (induction num) (cases rest; auto)+

lemma ExtractJsonNumber_value:
  assumes "content = pre @ json_needle key @ sp1 @ CHR '':'' # sp2 @ num @ rest"
    "str_find (json_needle key) content = Some (length pre)" "CHR '':'' \<notin> set sp1"
    "\<forall>c \<in> set sp2. is_space c" "num \<noteq> []" "\<forall>c \<in> set num. number_char c" "\<not> is_space (hd num)"
    "rest = [] \<or> \<not> number_char (hd rest)"
  shows "ExtractJsonNumber content key = and_then (stod num) (\<lambda>v. Inr (Some v))"
proof -
  let ?n = "length pre + length (json_needle key) + length sp1"
  have "json_colon content key = Some ?n"
    using json_colon_at [of key pre sp1 "sp2 @ num @ rest"] assms(1-3) by simp
  moreover have "drop (?n + 1) content = sp2 @ num @ rest"
    by (simp add: assms(1))
  moreover have "dropWhile is_space (sp2 @ num @ rest) = num @ rest"
    using assms(4,5,7) by (intro dropWhile_spaces) (simp_all add: hd_append)
  moreover have "takeWhile number_char (num @ rest) = num"
    using assms(6,8) by (intro takeWhile_number) auto
  ultimately show ?thesis
    using assms(5) by (simp add: ExtractJsonNumber_def Let_def)
qed

text \<open>The number of a field is found: when the quoted key occurs for the first time followed by a
  colon, spaces and a run of number characters, the value extracted is what \<open>std::stod\<close> makes of
  that run.\<close>

theorem ExtractJsonNumber_field:
  assumes "content = pre @ json_needle key @ sp1 @ CHR '':'' # sp2 @ num @ rest"
    "str_find (json_needle key) content = Some (length pre)" "CHR '':'' \<notin> set sp1"
    "\<forall>c \<in> set sp2. is_space c" "num \<noteq> []" "\<forall>c \<in> set num. number_char c" "\<not> is_space (hd num)"
    "rest = [] \<or> \<not> number_char (hd rest)" "stod num = Inr v"
  shows "ExtractJsonNumber content key = Inr (Some v)"
  using ExtractJsonNumber_value [OF assms(1-8)] assms(9) by simp

lemmas number_text_simps = is_space_def is_digit_def number_char_def digits_val_def digit_val_def

theorem ExtractJsonNumber_field_witness:
  "ExtractJsonNumber (''{'' @ json_needle ''p'' @ '': 7}'') ''p'' = Inr (Some 7)"
proof (rule ExtractJsonNumber_field [where pre = "''{''" and ?sp1.0 = "[]" and ?sp2.0 = "'' ''"
      and num = "''7''" and rest = "''}''"])
  show "str_find (json_needle ''p'') (''{'' @ json_needle ''p'' @ '': 7}'') = Some (length ''{'')"
    by (simp add: json_needle_def)
  show "stod ''7'' = Inr 7"
    by (simp add: stod_def split_sign_def stod_special_def strtod_decimal_def strtod_exponent_def
        pow10_def number_text_simps)
qed (simp_all add: number_text_simps)

text \<open>A field whose value is minus infinity, which Python's \<open>json\<close> module writes as \<open>-Infinity\<close>,
  makes \<open>std::stod\<close> throw: the extractor does not return \<open>false\<close>, so the fallback to the previous
  power for invalid responses is not reached. (Plain \<open>Infinity\<close> and \<open>NaN\<close> are reported as
  missing.)\<close>

theorem ExtractJsonNumber_minus_infinity:
  assumes "str_find (json_needle key) (pre @ json_needle key @ '':'' @ sp @ ''-Infinity'' @ rest) = Some (length pre)"
    "\<forall>c \<in> set sp. is_space c"
  shows "ExtractJsonNumber (pre @ json_needle key @ '':'' @ sp @ ''-Infinity'' @ rest) key = Inl InvalidArgument"
proof -
  have "ExtractJsonNumber (pre @ json_needle key @ '':'' @ sp @ ''-Infinity'' @ rest) key
      = and_then (stod ''-'') (\<lambda>v. Inr (Some v))"
    by (rule ExtractJsonNumber_value [where ?sp1.0 = "[]" and ?sp2.0 = sp and rest = "''Infinity'' @ rest"])
      (use assms in \<open>simp_all add: number_text_simps\<close>)
  moreover have "stod ''-'' = Inl InvalidArgument"
    by (simp add: stod_def split_sign_def stod_special_def strtod_decimal_def number_text_simps)
  ultimately show ?thesis by simp
qed

theorem ExtractJsonNumber_minus_infinity_witness:
  "ExtractJsonNumber (''{'' @ json_needle ''objective'' @ '':'' @ '' '' @ ''-Infinity'' @ ''}'') ''objective''
     = Inl InvalidArgument"
  by (rule ExtractJsonNumber_minus_infinity) (simp_all add: json_needle_def number_text_simps)

end
