(* ===== verification/DeepcBridge.thy ===== *)
theory DeepcBridge
  imports RadioInputs Json
begin

text \<open>
  The file bridge to the external DeePC controller (\<open>class DeepcFileBridge\<close>) and the periodic control
  step (\<open>RunDeepcBridgeStep\<close>). The bridge keeps a history of KPI samples; once it is full every new
  sample leads to one request, and the power of the response is applied if it is valid.

  The files and the wall clock are arguments: what waiting for the response file ends with is a
  \<open>reply\<close>. The logs are the lists of their rows, and the requests written are a list of records (the
  numbers of a request, not their decimal text). \<open>NaN\<close> and the infinities that stand for missing
  values in the log are \<open>None\<close>.
\<close>

section \<open>State\<close>

record deepc_request =
  rq_path :: string
  rq_step :: u32
  rq_timeS :: double
  rq_pastHorizon :: u32
  rq_futureHorizon :: u32
  rq_fixedBeaconIntervalS :: double
  rq_activeVehicleCountCore :: double
  rq_previousU :: "double list"
  rq_uIni :: "double list"
  rq_yIni :: "double list"
  rq_dIni :: "double list"

record applied_row =
  ar_step :: u32
  ar_timeS :: double
  ar_latestTimeS :: double
  ar_activeVehicleCountCore :: double
  ar_txPowerDbm :: double
  ar_beaconIntervalS :: double
  ar_success :: bool
  ar_solverStatus :: string
  ar_solveTimeS :: double
  ar_objective :: "double option"
  ar_maxUpResidual :: "double option"
  ar_maxYpResidual :: "double option"
  ar_maxDpResidual :: double
  ar_maxDfResidual :: double
  ar_predictedPrr :: "double option"
  ar_predictedPir :: "double option"
  ar_predictedCbr :: "double option"
  ar_responsePath :: string

record timing_row =
  tr_step :: u32
  tr_timeS :: double
  tr_latestTimeS :: double
  tr_activeVehicleCountCore :: double
  tr_waitTimeS :: double
  tr_solveTimeS :: double
  tr_success :: bool

record deepc_bridge =
  br_bridgeDir :: string
  br_requestDir :: string
  br_responseDir :: string
  br_pastHorizon :: u32
  br_futureHorizon :: u32
  br_timeoutS :: double
  br_minPowerDbm :: double
  br_maxPowerDbm :: double
  br_fixedBeaconIntervalS :: double
  br_samples :: "kpi_sample list"
  br_hasLastSample :: bool
  br_lastSampleTimeS :: double
  br_appliedOut :: "applied_row list"
  br_timingOut :: "timing_row list"
  br_requests :: "deepc_request list"

definition deepc_bridge_new :: deepc_bridge where
  "deepc_bridge_new = \<lparr>br_bridgeDir = [], br_requestDir = [], br_responseDir = [], br_pastHorizon = 20,
     br_futureHorizon = 10, br_timeoutS = 900, br_minPowerDbm = 10, br_maxPowerDbm = 23,
     br_fixedBeaconIntervalS = 1 / 10, br_samples = [], br_hasLastSample = False,
     br_lastSampleTimeS = - 1, br_appliedOut = [], br_timingOut = [], br_requests = []\<rparr>"

definition path_join :: "string \<Rightarrow> string \<Rightarrow> string" where
  \<comment> \<open>\<open>dir / name\<close> for a relative name\<close>
  "path_join dir name = (if dir = [] \<or> last dir = CHR ''/'' then dir @ name else dir @ ''/'' @ name)"

text \<open>The flags say whether the two logs could be opened.\<close>

definition bridge_Configure ::
    "string \<Rightarrow> u32 \<Rightarrow> u32 \<Rightarrow> double \<Rightarrow> double \<Rightarrow> double \<Rightarrow> double \<Rightarrow> bool \<Rightarrow> bool \<Rightarrow> deepc_bridge
       \<Rightarrow> deepc_bridge result" where
  "bridge_Configure bridgeDir pastHorizon futureHorizon timeoutS minPowerDbm maxPowerDbm
       fixedBeaconIntervalS appliedOpened timingOpened b =
     (let b' = b\<lparr>br_bridgeDir := bridgeDir, br_requestDir := path_join bridgeDir ''requests'',
        br_responseDir := path_join bridgeDir ''responses'', br_pastHorizon := pastHorizon,
        br_futureHorizon := futureHorizon, br_timeoutS := timeoutS, br_minPowerDbm := minPowerDbm,
        br_maxPowerDbm := maxPowerDbm, br_fixedBeaconIntervalS := fixedBeaconIntervalS\<rparr>
      in and_then (abort_if (\<not> appliedOpened) ''Cannot open DeePC applied-controls log'') (\<lambda>_.
         and_then (abort_if (\<not> timingOpened) ''Cannot open DeePC timing log'') (\<lambda>_.
           Inr (b'\<lparr>br_appliedOut := [], br_timingOut := []\<rparr>))))"

section \<open>The history buffer\<close>

definition PushSample :: "kpi_sample \<Rightarrow> deepc_bridge \<Rightarrow> bool \<times> deepc_bridge" where
  "PushSample sample b =
     (if br_hasLastSample b \<and> ks_timeS sample \<le> br_lastSampleTimeS b + 1 / 1000000000 then (False, b)
      else let samples = br_samples b @ [sample]
           in (True, b\<lparr>br_samples := drop (length samples - unat (br_pastHorizon b)) samples,
                       br_hasLastSample := True, br_lastSampleTimeS := ks_timeS sample\<rparr>))"

definition Ready :: "deepc_bridge \<Rightarrow> bool" where
  "Ready b \<longleftrightarrow> length (br_samples b) = unat (br_pastHorizon b)"

definition HistorySize :: "deepc_bridge \<Rightarrow> nat" where
  "HistorySize b = length (br_samples b)"

definition PastHorizon :: "deepc_bridge \<Rightarrow> u32" where
  "PastHorizon b = br_pastHorizon b"

definition BuildUIni :: "deepc_bridge \<Rightarrow> double list" where
  "BuildUIni b = map ks_txPowerDbm (br_samples b)"

definition BuildYIni :: "deepc_bridge \<Rightarrow> double list" where
  "BuildYIni b = concat (map (\<lambda>s. [ks_prrAwareness s, ks_pirS s, ks_cbr s]) (br_samples b))"

definition BuildDIni :: "deepc_bridge \<Rightarrow> double list" where
  "BuildDIni b = concat (map (\<lambda>s. [ks_activeVehicleCountCore s, ks_beaconIntervalS s]) (br_samples b))"

definition pad6 :: "nat \<Rightarrow> string" where
  \<comment> \<open>\<open>std::setw(6) << std::setfill('0')\<close>\<close>
  "pad6 n = replicate (6 - length (show_nat n)) CHR ''0'' @ show_nat n"

definition BuildStepPath :: "string \<Rightarrow> string \<Rightarrow> u32 \<Rightarrow> string" where
  "BuildStepPath dir prefix step =
     path_join dir (prefix @ ''_'' @ pad6 (unat step) @ ''.json'')"

definition request_of :: "string \<Rightarrow> u32 \<Rightarrow> double \<Rightarrow> input_command \<Rightarrow> deepc_bridge \<Rightarrow> deepc_request" where
  "request_of requestPath step timeS previousU b =
     \<lparr>rq_path = requestPath, rq_step = step, rq_timeS = timeS, rq_pastHorizon = br_pastHorizon b,
      rq_futureHorizon = br_futureHorizon b, rq_fixedBeaconIntervalS = br_fixedBeaconIntervalS b,
      rq_activeVehicleCountCore = ks_activeVehicleCountCore (last (br_samples b)),
      rq_previousU = [in_txPowerDbm previousU], rq_uIni = BuildUIni b, rq_yIni = BuildYIni b,
      rq_dIni = BuildDIni b\<rparr>"

definition WriteRequest :: "string \<Rightarrow> u32 \<Rightarrow> double \<Rightarrow> input_command \<Rightarrow> bool \<Rightarrow> deepc_bridge \<Rightarrow> deepc_bridge result" where
  \<comment> \<open>the flag says whether the temporary file could be opened; it is then renamed to the path\<close>
  "WriteRequest requestPath step timeS previousU opened b =
     and_then (abort_if (\<not> opened) ''Cannot write DeePC request'') (\<lambda>_.
       Inr (b\<lparr>br_requests := br_requests b @ [request_of requestPath step timeS previousU b]\<rparr>))"

section \<open>One request\<close>

text \<open>How the wait for the response file ends: it takes longer than the timeout, the file cannot be
  opened, or it is read after a wait.

  The wait polls: \<open>present i\<close> says whether the file exists at the \<open>i\<close>-th poll, \<open>clock i\<close> is the
  time elapsed when the \<open>i\<close>-th poll failed (or, after the loop, when it succeeded), and \<open>content\<close> what
  the file holds if it can be opened.\<close>

datatype reply = TimedOut | CannotOpen | Response double string

partial_function (option) await_response ::
    "(nat \<Rightarrow> bool) \<Rightarrow> (nat \<Rightarrow> double) \<Rightarrow> string option \<Rightarrow> double \<Rightarrow> nat \<Rightarrow> reply option" where
  "await_response present clock content timeoutS i =
     (if \<not> present i then
        (if clock i > timeoutS then Some TimedOut
         else await_response present clock content timeoutS (i + 1))
      else Some (case content of None \<Rightarrow> CannotOpen | Some c \<Rightarrow> Response (clock i) c))"

definition number_or :: "'v \<Rightarrow> (double \<Rightarrow> 'v) \<Rightarrow> string \<Rightarrow> string \<Rightarrow> 'v result" where
  \<comment> \<open>\<open>ExtractJsonNumber(content, key, v)\<close>, with the value \<open>v\<close> keeps when it returns \<open>false\<close>\<close>
  "number_or d f content key =
     and_then (ExtractJsonNumber content key) (\<lambda>v. Inr (case v of None \<Rightarrow> d | Some x \<Rightarrow> f x))"

text \<open>The fields of a response. The power is \<open>None\<close> when there is none; the other missing numbers keep
  the initial values of the code.\<close>

record deepc_response =
  rs_power :: "double option"
  rs_solveTimeS :: double
  rs_objective :: "double option"
  rs_maxUpResidual :: "double option"
  rs_maxYpResidual :: "double option"
  rs_maxDpResidual :: double
  rs_maxDfResidual :: double
  rs_predictedPrr :: "double option"
  rs_predictedPir :: "double option"
  rs_predictedCbr :: "double option"
  rs_success :: bool
  rs_solverStatus :: string

definition ReadResponse :: "string \<Rightarrow> deepc_response result" where
  "ReadResponse content =
     and_then (number_or None Some content ''tx_power_dbm'') (\<lambda>power.
     and_then (number_or 0 id content ''solve_time_s'') (\<lambda>solveTimeS.
     and_then (number_or None Some content ''objective'') (\<lambda>objective.
     and_then (number_or None Some content ''max_up_residual'') (\<lambda>maxUp.
     and_then (number_or None Some content ''max_yp_residual'') (\<lambda>maxYp.
     and_then (number_or 0 id content ''max_dp_residual'') (\<lambda>maxDp.
     and_then (number_or 0 id content ''max_df_residual'') (\<lambda>maxDf.
     and_then (number_or None Some content ''predicted_prr'') (\<lambda>prr.
     and_then (number_or None Some content ''predicted_pir_s'') (\<lambda>pir.
     and_then (number_or None Some content ''predicted_cbr'') (\<lambda>cbr.
       Inr \<lparr>rs_power = power, rs_solveTimeS = solveTimeS, rs_objective = objective,
            rs_maxUpResidual = maxUp, rs_maxYpResidual = maxYp, rs_maxDpResidual = maxDp,
            rs_maxDfResidual = maxDf, rs_predictedPrr = prr, rs_predictedPir = pir,
            rs_predictedCbr = cbr,
            rs_success = (case ExtractJsonBool content ''success'' of None \<Rightarrow> False | Some x \<Rightarrow> x),
            rs_solverStatus = (case ExtractJsonString content ''solver_status'' of
                                 None \<Rightarrow> ''missing'' | Some x \<Rightarrow> x)\<rparr>))))))))))"

text \<open>The response is accepted, and the power to apply.\<close>

definition response_success :: "deepc_response \<Rightarrow> deepc_bridge \<Rightarrow> bool" where
  "response_success r b =
     (case rs_power r of
        None \<Rightarrow> False
      | Some p \<Rightarrow> rs_success r \<and> p \<ge> br_minPowerDbm b - 1 / 1000000000 \<and> p \<le> br_maxPowerDbm b + 1 / 1000000000)"

definition applied_power :: "deepc_response \<Rightarrow> input_command \<Rightarrow> deepc_bridge \<Rightarrow> double" where
  "applied_power r previousU b =
     (if response_success r b then the (rs_power r) else in_txPowerDbm previousU)"

definition log_control ::
    "u32 \<Rightarrow> double \<Rightarrow> input_command \<Rightarrow> string \<Rightarrow> double \<Rightarrow> deepc_response \<Rightarrow> deepc_bridge \<Rightarrow> deepc_bridge" where
  "log_control step timeS previousU responsePath waitTimeS r b =
     (let latest = last (br_samples b); success = response_success r b in
      b\<lparr>br_appliedOut := br_appliedOut b @
           [\<lparr>ar_step = step, ar_timeS = timeS, ar_latestTimeS = ks_timeS latest,
             ar_activeVehicleCountCore = ks_activeVehicleCountCore latest,
             ar_txPowerDbm = applied_power r previousU b,
             ar_beaconIntervalS = br_fixedBeaconIntervalS b,
             ar_success = success, ar_solverStatus = rs_solverStatus r,
             ar_solveTimeS = rs_solveTimeS r, ar_objective = rs_objective r,
             ar_maxUpResidual = rs_maxUpResidual r, ar_maxYpResidual = rs_maxYpResidual r,
             ar_maxDpResidual = rs_maxDpResidual r, ar_maxDfResidual = rs_maxDfResidual r,
             ar_predictedPrr = rs_predictedPrr r, ar_predictedPir = rs_predictedPir r,
             ar_predictedCbr = rs_predictedCbr r, ar_responsePath = responsePath\<rparr>],
         br_timingOut := br_timingOut b @
           [\<lparr>tr_step = step, tr_timeS = timeS, tr_latestTimeS = ks_timeS latest,
             tr_activeVehicleCountCore = ks_activeVehicleCountCore latest,
             tr_waitTimeS = waitTimeS, tr_solveTimeS = rs_solveTimeS r,
             tr_success = success\<rparr>]\<rparr>)"

definition RequestControl ::
    "u32 \<Rightarrow> double \<Rightarrow> input_command \<Rightarrow> bool \<Rightarrow> reply \<Rightarrow> deepc_bridge
       \<Rightarrow> (input_command \<times> deepc_bridge) result" where
  "RequestControl step timeS previousU opened rep b0 =
     and_then (abort_if (\<not> Ready b0) ''DeePC control requested before history is ready'') (\<lambda>_.
     let requestPath = BuildStepPath (br_requestDir b0) ''request'' step;
         responsePath = BuildStepPath (br_responseDir b0) ''response'' step
     in and_then (WriteRequest requestPath step timeS previousU opened b0) (\<lambda>b.
     case rep of
       TimedOut \<Rightarrow> Inl (Abort ''Timed out waiting for DeePC response'')
     | CannotOpen \<Rightarrow> Inl (Abort ''Cannot open DeePC response'')
     | Response waitTimeS content \<Rightarrow>
         and_then (ReadResponse content) (\<lambda>r.
           Inr (\<lparr>in_timeS = timeS, in_txPowerDbm = applied_power r previousU b,
                 in_beaconIntervalS = br_fixedBeaconIntervalS b\<rparr>,
                log_control step timeS previousU responsePath waitTimeS r b))))"

section \<open>The control step\<close>

record control_state =
  cs_logger :: kpi_logger
  cs_devices :: ue_devices
  cs_bridge :: deepc_bridge

text \<open>The last component is the next step, if one is scheduled: its delay, command and number.\<close>

definition RunDeepcBridgeStep ::
    "double \<Rightarrow> double \<Rightarrow> double \<Rightarrow> double \<Rightarrow> double \<Rightarrow> bool \<Rightarrow> reply \<Rightarrow> input_command \<Rightarrow> u32 \<Rightarrow> control_state
       \<Rightarrow> (control_state \<times> (int \<times> input_command \<times> u32) option) result" where
  "RunDeepcBridgeStep now evalStartS evalEndS controlIntervalS fixedBeaconIntervalS opened rep previousU step s =
     (if now > evalEndS + 1 / 1000000000 then Inr (s, None)
      else
        let sample = GetLatestSample (cs_logger s);
            (pushed, b) =
              (if HasLatestSample (cs_logger s) \<and> ks_timeS sample + 1 / 1000000000 \<ge> evalStartS \<and>
                  ks_timeS sample \<le> evalEndS + 1 / 1000000000
               then PushSample sample (cs_bridge s) else (False, cs_bridge s))
        in and_then
             (if pushed \<and> Ready b
              then and_then (RequestControl step now previousU opened rep b) (\<lambda>(nextU, b').
                   and_then (ApplyTxPowerAtTime (in_txPowerDbm nextU) fixedBeaconIntervalS
                               (cs_logger s) (cs_devices s)) (\<lambda>(logger, devs).
                     Inr (s\<lparr>cs_logger := logger, cs_devices := devs, cs_bridge := b'\<rparr>, nextU, step + 1)))
              else Inr (s\<lparr>cs_bridge := b\<rparr>, previousU, step))
             (\<lambda>(s', nextU, nextStep).
               Inr (s', if now + controlIntervalS \<le> evalEndS + 1 / 1000000000
                        then Some (Seconds controlIntervalS, nextU, nextStep) else None)))"

section \<open>The history\<close>

text \<open>The samples of the history are at most \<open>pastHorizon\<close> many and their times increase by more than the
  tolerance.\<close>

definition bridge_ok :: "deepc_bridge \<Rightarrow> bool" where
  "bridge_ok b \<longleftrightarrow> length (br_samples b) \<le> unat (br_pastHorizon b)
     \<and> sorted_wrt (\<lambda>s t. ks_timeS s + 1 / 1000000000 < ks_timeS t) (br_samples b)
     \<and> (\<forall>s \<in> set (br_samples b). br_hasLastSample b \<and> ks_timeS s \<le> br_lastSampleTimeS b)"

lemma sorted_wrt_drop: "sorted_wrt R xs \<Longrightarrow> sorted_wrt R (drop n xs)"
  by (metis append_take_drop_id sorted_wrt_append)

definition keep_last :: "nat \<Rightarrow> 'a list \<Rightarrow> 'a list" where
  "keep_last n xs = drop (length xs - n) xs"

lemma keep_last_facts [simp]:
  "length (keep_last n xs) = min n (length xs)"
  "sorted_wrt R xs \<Longrightarrow> sorted_wrt R (keep_last n xs)"
  "set (keep_last n xs) \<subseteq> set xs"
  by (auto simp: keep_last_def sorted_wrt_drop dest: in_set_dropD)

lemma keep_last_snoc: "keep_last n (keep_last n xs @ [x]) = keep_last n (xs @ [x])"
proof (cases "length xs \<le> n")
  case False
  then have "keep_last n xs @ [x] = drop (length xs - n) (xs @ [x])"
    by (simp add: keep_last_def)
  moreover have "drop k (drop (length xs - n) ys) = drop (length xs - n + k) ys" for k and ys :: "'a list"
    by (simp add: add.commute)
  ultimately show ?thesis
    using False unfolding keep_last_def by (simp only: drop_drop length_drop) (simp add: Suc_diff_le add.commute)
qed (simp add: keep_last_def)

definition sample_fresh :: "kpi_sample \<Rightarrow> deepc_bridge \<Rightarrow> bool" where
  "sample_fresh s b \<longleftrightarrow> \<not> (br_hasLastSample b \<and> ks_timeS s \<le> br_lastSampleTimeS b + 1 / 1000000000)"

lemma PushSample_cases:
  "PushSample s b = (if sample_fresh s b
     then (True, b\<lparr>br_samples := keep_last (unat (br_pastHorizon b)) (br_samples b @ [s]),
                   br_hasLastSample := True, br_lastSampleTimeS := ks_timeS s\<rparr>)
     else (False, b))"
  by (auto simp: PushSample_def sample_fresh_def keep_last_def Let_def)

lemma bridge_ok_PushSample:
  assumes "bridge_ok b"
  shows "bridge_ok (snd (PushSample s b))"
proof (cases "sample_fresh s b")
  case True
  let ?xs = "br_samples b @ [s]"
  have "sorted_wrt (\<lambda>s t. ks_timeS s + 1 / 1000000000 < ks_timeS t) ?xs"
    using assms True by (fastforce simp: bridge_ok_def sample_fresh_def sorted_wrt_append)
  moreover have "\<forall>t \<in> set ?xs. ks_timeS t \<le> ks_timeS s"
    using assms True by (fastforce simp: bridge_ok_def sample_fresh_def)
  ultimately show ?thesis
    using True keep_last_facts(3) [of "unat (br_pastHorizon b)" ?xs]
    by (auto simp: PushSample_cases bridge_ok_def)
qed (use assms in \<open>simp add: PushSample_cases\<close>)

section \<open>One request\<close>

lemma applied_power_range:
  "applied_power r u b = in_txPowerDbm u \<or>
   br_minPowerDbm b - 1 / 1000000000 \<le> applied_power r u b \<and> applied_power r u b \<le> br_maxPowerDbm b + 1 / 1000000000"
  by (auto simp: applied_power_def response_success_def split: option.splits)

lemma applied_power_requests [simp]: "applied_power r u (b\<lparr>br_requests := x\<rparr>) = applied_power r u b"
  by (cases "rs_power r") (simp_all add: applied_power_def response_success_def)

abbreviation request_at :: "u32 \<Rightarrow> double \<Rightarrow> input_command \<Rightarrow> deepc_bridge \<Rightarrow> deepc_request" where
  "request_at step timeS u b \<equiv> request_of (BuildStepPath (br_requestDir b) ''request'' step) step timeS u b"

lemma RequestControl_InrE:
  assumes "RequestControl step timeS u opened rep b = Inr (v, b')"
  obtains w content r where "Ready b" "rep = Response w content" "ReadResponse content = Inr r"
    "v = \<lparr>in_timeS = timeS, in_txPowerDbm = applied_power r u b, in_beaconIntervalS = br_fixedBeaconIntervalS b\<rparr>"
    "b' = log_control step timeS u (BuildStepPath (br_responseDir b) ''response'' step) w r
            (b\<lparr>br_requests := br_requests b @ [request_at step timeS u b]\<rparr>)"
  using assms that unfolding RequestControl_def Let_def
  by (auto simp: WriteRequest_def split: reply.splits)

lemma RequestControl_ok:
  assumes "Ready b" "ReadResponse content = Inr r"
  shows "RequestControl step timeS u True (Response w content) b =
     Inr (\<lparr>in_timeS = timeS, in_txPowerDbm = applied_power r u b, in_beaconIntervalS = br_fixedBeaconIntervalS b\<rparr>,
          log_control step timeS u (BuildStepPath (br_responseDir b) ''response'' step) w r
            (b\<lparr>br_requests := br_requests b @ [request_at step timeS u b]\<rparr>))"
  using assms by (simp add: RequestControl_def WriteRequest_def)

lemma log_control_simps [simp]:
  "br_samples (log_control n t u p w r b) = br_samples b"
  "br_pastHorizon (log_control n t u p w r b) = br_pastHorizon b"
  "br_minPowerDbm (log_control n t u p w r b) = br_minPowerDbm b"
  "br_maxPowerDbm (log_control n t u p w r b) = br_maxPowerDbm b"
  "br_requestDir (log_control n t u p w r b) = br_requestDir b"
  "br_responseDir (log_control n t u p w r b) = br_responseDir b"
  "br_hasLastSample (log_control n t u p w r b) = br_hasLastSample b"
  "br_lastSampleTimeS (log_control n t u p w r b) = br_lastSampleTimeS b"
  "br_requests (log_control n t u p w r b) = br_requests b"
  "map ar_txPowerDbm (br_appliedOut (log_control n t u p w r b))
     = map ar_txPowerDbm (br_appliedOut b) @ [applied_power r u b]"
  by (simp_all add: log_control_def Let_def)

section \<open>Runs of the control loop\<close>

text \<open>The states of the loop: the control state, and the command and number of the step that is scheduled,
  if one is. Between two control steps everything else in the simulation may change the logger.\<close>

inductive control_run ::
    "double \<Rightarrow> double \<Rightarrow> double \<Rightarrow> double \<Rightarrow> control_state \<Rightarrow> input_command
       \<Rightarrow> control_state \<Rightarrow> (input_command \<times> u32) option \<Rightarrow> bool"
  for evalStartS evalEndS controlIntervalS fixedBeaconIntervalS s0 u0 where
  start: "control_run evalStartS evalEndS controlIntervalS fixedBeaconIntervalS s0 u0 s0 (Some (u0, 0))"
| others: "control_run evalStartS evalEndS controlIntervalS fixedBeaconIntervalS s0 u0 s p \<Longrightarrow>
     control_run evalStartS evalEndS controlIntervalS fixedBeaconIntervalS s0 u0 (s\<lparr>cs_logger := l\<rparr>) p"
| control: "control_run evalStartS evalEndS controlIntervalS fixedBeaconIntervalS s0 u0 s (Some (u, n)) \<Longrightarrow>
     RunDeepcBridgeStep now evalStartS evalEndS controlIntervalS fixedBeaconIntervalS opened rep u n s
       = Inr (s', nxt) \<Longrightarrow>
     control_run evalStartS evalEndS controlIntervalS fixedBeaconIntervalS s0 u0 s' (map_option snd nxt)"

definition power_in :: "deepc_bridge \<Rightarrow> double \<Rightarrow> bool" where
  "power_in b p \<longleftrightarrow> br_minPowerDbm b - 1 / 1000000000 \<le> p \<and> p \<le> br_maxPowerDbm b + 1 / 1000000000"

definition request_ok :: "deepc_request \<Rightarrow> bool" where
  "request_ok r \<longleftrightarrow> length (rq_uIni r) = unat (rq_pastHorizon r)
     \<and> length (rq_yIni r) = 3 * unat (rq_pastHorizon r)
     \<and> length (rq_dIni r) = 2 * unat (rq_pastHorizon r) \<and> length (rq_previousU r) = 1"

definition control_inv :: "deepc_bridge \<Rightarrow> control_state \<Rightarrow> (input_command \<times> u32) option \<Rightarrow> bool" where
  "control_inv b0 s p \<longleftrightarrow>
     bridge_ok (cs_bridge s)
     \<and> br_minPowerDbm (cs_bridge s) = br_minPowerDbm b0 \<and> br_maxPowerDbm (cs_bridge s) = br_maxPowerDbm b0
     \<and> br_requestDir (cs_bridge s) = br_requestDir b0 \<and> br_pastHorizon (cs_bridge s) = br_pastHorizon b0
     \<and> (\<forall>x \<in> device_powers (cs_devices s). \<exists>y. x = Some y \<and> power_in b0 y)
     \<and> (\<forall>y \<in> set (map ar_txPowerDbm (br_appliedOut (cs_bridge s))). power_in b0 y)
     \<and> (\<forall>r \<in> set (br_requests (cs_bridge s)). request_ok r)
     \<and> map rq_step (br_requests (cs_bridge s)) = map of_nat [0..<length (br_requests (cs_bridge s))]
     \<and> map rq_path (br_requests (cs_bridge s)) =
         map (\<lambda>n. BuildStepPath (br_requestDir b0) ''request'' (of_nat n)) [0..<length (br_requests (cs_bridge s))]
     \<and> (\<forall>u n. p = Some (u, n) \<longrightarrow> power_in b0 (in_txPowerDbm u) \<and> n = of_nat (length (br_requests (cs_bridge s))))"

lemma length_ini:
  "length (BuildUIni b) = length (br_samples b)" "length (BuildYIni b) = 3 * length (br_samples b)"
  "length (BuildDIni b) = 2 * length (br_samples b)"
  by (simp_all add: BuildUIni_def BuildYIni_def BuildDIni_def length_concat comp_def sum_list_triv)

lemma request_ok_of: "Ready b \<Longrightarrow> request_ok (request_of p n t u b)"
  by (simp add: request_ok_def request_of_def length_ini Ready_def)

definition pushed_bridge :: "double \<Rightarrow> double \<Rightarrow> control_state \<Rightarrow> bool \<times> deepc_bridge" where
  "pushed_bridge evalStartS evalEndS s =
     (let sample = GetLatestSample (cs_logger s)
      in if HasLatestSample (cs_logger s) \<and> ks_timeS sample + 1 / 1000000000 \<ge> evalStartS \<and>
            ks_timeS sample \<le> evalEndS + 1 / 1000000000
         then PushSample sample (cs_bridge s) else (False, cs_bridge s))"

lemma RunDeepcBridgeStep_InrE:
  assumes "RunDeepcBridgeStep now evalStartS evalEndS controlIntervalS fixedB opened rep u n s = Inr (s', nxt)"
  obtains (over) "s' = s" "nxt = None"
  | (idle) flag b where "pushed_bridge evalStartS evalEndS s = (flag, b)" "s' = s\<lparr>cs_bridge := b\<rparr>"
      "nxt = None \<or> nxt = Some (Seconds controlIntervalS, u, n)"
  | (request) b v b' logger devs where "pushed_bridge evalStartS evalEndS s = (True, b)"
      "RequestControl n now u opened rep b = Inr (v, b')"
      "ApplyTxPowerToAllUes (in_txPowerDbm v) (cs_devices s) = Inr devs"
      "s' = s\<lparr>cs_logger := logger, cs_devices := devs, cs_bridge := b'\<rparr>"
      "nxt = None \<or> nxt = Some (Seconds controlIntervalS, v, n + 1)"
proof (cases "now > evalEndS + 1 / 1000000000")
  case True
  with assms over show ?thesis by (simp add: RunDeepcBridgeStep_def)
next
  case False
  obtain flag b where fb: "pushed_bridge evalStartS evalEndS s = (flag, b)" by fastforce
  note step = assms [unfolded RunDeepcBridgeStep_def Let_def, folded pushed_bridge_def [unfolded Let_def], unfolded fb]
  show ?thesis
  proof (cases "flag \<and> Ready b")
    case True
    with step False obtain v b' where r: "RequestControl n now u opened rep b = Inr (v, b')"
      by (auto split: prod.splits)
    with step False True obtain devs where d: "ApplyTxPowerToAllUes (in_txPowerDbm v) (cs_devices s) = Inr devs"
      by (auto simp: ApplyTxPowerAtTime_def Let_def)
    from step False True r d fb show ?thesis
      by (intro request) (auto simp: ApplyTxPowerAtTime_def Let_def)
  next
    case False
    with step \<open>\<not> now > _\<close> fb show ?thesis
      by (intro idle) auto
  qed
qed

lemma pushed_bridge_ok:
  assumes "pushed_bridge evalStartS evalEndS s = (flag, b)" "bridge_ok (cs_bridge s)"
  shows "bridge_ok b \<and> br_minPowerDbm b = br_minPowerDbm (cs_bridge s) \<and> br_maxPowerDbm b = br_maxPowerDbm (cs_bridge s)
    \<and> br_requestDir b = br_requestDir (cs_bridge s) \<and> br_pastHorizon b = br_pastHorizon (cs_bridge s)
    \<and> br_requests b = br_requests (cs_bridge s) \<and> br_appliedOut b = br_appliedOut (cs_bridge s)"
proof -
  have "b = cs_bridge s \<or> b = snd (PushSample (GetLatestSample (cs_logger s)) (cs_bridge s))"
    using assms(1) by (auto simp: pushed_bridge_def Let_def split: if_splits)
  then show ?thesis
    using assms(2) bridge_ok_PushSample [of "cs_bridge s" "GetLatestSample (cs_logger s)"]
    by (auto simp: PushSample_cases)
qed

lemma bridge_ok_log [simp]: "bridge_ok (log_control n t u p w r b) = bridge_ok b"
  by (simp add: bridge_ok_def)

lemma bridge_ok_requests [simp]: "bridge_ok (b\<lparr>br_requests := x\<rparr>) = bridge_ok b"
  by (simp add: bridge_ok_def)

lemma control_inv_step:
  assumes "control_inv b0 s (Some (u, n))"
    "RunDeepcBridgeStep now evalStartS evalEndS controlIntervalS fixedB opened rep u n s = Inr (s', nxt)"
  shows "control_inv b0 s' (map_option snd nxt)"
  using assms(2)
proof (cases rule: RunDeepcBridgeStep_InrE)
  case over
  with assms(1) show ?thesis by (simp add: control_inv_def)
next
  case (idle flag b)
  with assms(1) pushed_bridge_ok [OF idle(1)] show ?thesis
    by (auto simp: control_inv_def)
next
  case (request b v b' logger devs)
  have b: "bridge_ok b" "br_minPowerDbm b = br_minPowerDbm b0" "br_maxPowerDbm b = br_maxPowerDbm b0"
    "br_requestDir b = br_requestDir b0" "br_pastHorizon b = br_pastHorizon b0"
    "br_requests b = br_requests (cs_bridge s)" "br_appliedOut b = br_appliedOut (cs_bridge s)"
    using pushed_bridge_ok [OF request(1)] assms(1) by (auto simp: control_inv_def)
  from request(2) obtain w content r where q: "Ready b"
    "v = \<lparr>in_timeS = now, in_txPowerDbm = applied_power r u b, in_beaconIntervalS = br_fixedBeaconIntervalS b\<rparr>"
    "b' = log_control n now u (BuildStepPath (br_responseDir b) ''response'' n) w r
            (b\<lparr>br_requests := br_requests b @ [request_at n now u b]\<rparr>)"
    by (elim RequestControl_InrE)
  have p: "power_in b0 (applied_power r u b)"
    using applied_power_range [of r u b] assms(1) b by (auto simp: power_in_def control_inv_def)
  have d: "\<forall>x \<in> device_powers devs. \<exists>y. x = Some y \<and> power_in b0 y"
    using ApplyTxPowerToAllUes_powers [OF request(3)] p q(2) by auto
  have reqs: "rq_step (request_at n now u b) = n" "rq_path (request_at n now u b) = BuildStepPath (br_requestDir b0) ''request'' n"
    "n = of_nat (length (br_requests (cs_bridge s)))"
    using assms(1) b by (auto simp: request_of_def control_inv_def)
  have s': "cs_bridge s' = b'" "cs_devices s' = devs" using request(4) by simp_all
  have b': "br_requests b' = br_requests (cs_bridge s) @ [request_at n now u b]"
    "map ar_txPowerDbm (br_appliedOut b') = map ar_txPowerDbm (br_appliedOut (cs_bridge s)) @ [applied_power r u b]"
    using q(3) b by simp_all
  have inv: "\<forall>y \<in> set (map ar_txPowerDbm (br_appliedOut (cs_bridge s))). power_in b0 y"
    "\<forall>r \<in> set (br_requests (cs_bridge s)). request_ok r"
    "map rq_step (br_requests (cs_bridge s)) = map of_nat [0..<length (br_requests (cs_bridge s))]"
    "map rq_path (br_requests (cs_bridge s)) =
       map (\<lambda>n. BuildStepPath (br_requestDir b0) ''request'' (of_nat n)) [0..<length (br_requests (cs_bridge s))]"
    using assms(1) unfolding control_inv_def by blast+
  have nxt: "power_in b0 (in_txPowerDbm v') \<and> m = of_nat (length (br_requests b'))"
    if "map_option snd nxt = Some (v', m)" for v' m
    using that request(5) p q(2) b'(1) reqs(3) by (auto simp: add.commute)
  show ?thesis
    unfolding control_inv_def s' b'(2)
  proof (intro conjI)
    show "bridge_ok b'" using q(3) b(1) by simp
    show "\<forall>x \<in> device_powers devs. \<exists>y. x = Some y \<and> power_in b0 y" by (rule d)
    show "\<forall>y \<in> set (map ar_txPowerDbm (br_appliedOut (cs_bridge s)) @ [applied_power r u b]). power_in b0 y"
      using inv(1) p by simp
    show "\<forall>r \<in> set (br_requests b'). request_ok r"
      using inv(2) request_ok_of [OF q(1)] by (simp add: b'(1))
    show "map rq_step (br_requests b') = map of_nat [0..<length (br_requests b')]"
      unfolding b'(1) using inv(3) reqs(1,3) by simp
    show "map rq_path (br_requests b') =
       map (\<lambda>n. BuildStepPath (br_requestDir b0) ''request'' (of_nat n)) [0..<length (br_requests b')]"
      unfolding b'(1) using inv(4) reqs(2,3) by simp
  qed (use q(3) b nxt in simp_all)
qed

lemma control_inv_logger [simp]: "control_inv b0 (s\<lparr>cs_logger := l\<rparr>) p = control_inv b0 s p"
  by (simp add: control_inv_def)

lemma control_inv_run:
  assumes "control_run evalStartS evalEndS controlIntervalS fixedB s0 u0 s p" "control_inv (cs_bridge s0) s0 (Some (u0, 0))"
  shows "control_inv (cs_bridge s0) s p"
  using assms
proof induction
  case (others s p l)
  then show ?case by simp
next
  case (control s u n now opened rep s' nxt)
  show ?case by (rule control_inv_step [OF control.IH control.hyps(2)]) (rule control.prems)
qed


text \<open>C8: in every run of the control loop that starts with a transmit power within the configured bounds
  and devices set to such a power, every device and every row of the log of applied controls has, at
  every moment, a power within the bounds (up to the tolerance of the acceptance test), whatever the
  external controller answers.\<close>

theorem closed_loop_power_safe:
  assumes "control_run evalStartS evalEndS controlIntervalS fixedBeaconIntervalS s0 u0 s p"
    "bridge_ok (cs_bridge s0)" "br_requests (cs_bridge s0) = []" "br_appliedOut (cs_bridge s0) = []"
    "power_in (cs_bridge s0) (in_txPowerDbm u0)"
    "\<forall>x \<in> device_powers (cs_devices s0). \<exists>y. x = Some y \<and> power_in (cs_bridge s0) y"
  shows "(\<forall>x \<in> device_powers (cs_devices s). \<exists>y. x = Some y \<and> power_in (cs_bridge s0) y)
    \<and> (\<forall>row \<in> set (br_appliedOut (cs_bridge s)). power_in (cs_bridge s0) (ar_txPowerDbm row))"
proof -
  have "control_inv (cs_bridge s0) s0 (Some (u0, 0))"
    using assms(2-6) by (simp add: control_inv_def)
  from control_inv_run [OF assms(1) this] show ?thesis
    unfolding control_inv_def by simp
qed


section \<open>File names\<close>

lemma digits_val_zeros: "digits_val (replicate k CHR ''0'' @ ds) = digits_val ds"
proof -
  have "foldl (\<lambda>n c. n * 10 + digit_val c) 0 (replicate k CHR ''0'') = 0"
    by (induction k) (simp_all add: digit_val_def)
  then show ?thesis by (simp add: digits_val_def)
qed

lemma digits_val_pad6: "digits_val (pad6 n) = n"
  by (simp add: pad6_def digits_val_zeros)

lemma BuildStepPath_inj:
  "BuildStepPath dir prefix m = BuildStepPath dir prefix n \<longleftrightarrow> m = n"
proof
  assume "BuildStepPath dir prefix m = BuildStepPath dir prefix n"
  then have "pad6 (unat m) = pad6 (unat n)"
    by (auto simp: BuildStepPath_def path_join_def split: if_splits)
  then have "unat m = unat n"
    by (metis digits_val_pad6)
  then show "m = n" by (simp add: word_unat_eq_iff)
qed simp

text \<open>C21: every request of a run carries, for the horizon it names, one past input, three past outputs and
  two past contexts per sample; requests are numbered from 0 without gaps in the order they are
  written, and up to the wrap-around of the counter no two of them share a file.\<close>

theorem requests_well_formed:
  assumes "control_run evalStartS evalEndS controlIntervalS fixedBeaconIntervalS s0 u0 s p"
    "bridge_ok (cs_bridge s0)" "br_requests (cs_bridge s0) = []" "br_appliedOut (cs_bridge s0) = []"
    "power_in (cs_bridge s0) (in_txPowerDbm u0)"
    "\<forall>x \<in> device_powers (cs_devices s0). \<exists>y. x = Some y \<and> power_in (cs_bridge s0) y"
  shows "(\<forall>r \<in> set (br_requests (cs_bridge s)). request_ok r)
    \<and> map rq_step (br_requests (cs_bridge s)) = map of_nat [0..<length (br_requests (cs_bridge s))]
    \<and> (length (br_requests (cs_bridge s)) \<le> 4294967296 \<longrightarrow> distinct (map rq_path (br_requests (cs_bridge s))))"
proof -
  have "control_inv (cs_bridge s0) s0 (Some (u0, 0))"
    using assms(2-6) by (simp add: control_inv_def)
  note inv = control_inv_run [OF assms(1) this, unfolded control_inv_def]
  let ?n = "length (br_requests (cs_bridge s))"
  have "distinct (map rq_path (br_requests (cs_bridge s)))" if "?n \<le> 4294967296"
  proof -
    have "inj_on (\<lambda>n. BuildStepPath (br_requestDir (cs_bridge s0)) ''request'' (of_nat n)) {0..<?n}"
    proof (intro inj_onI)
      fix i j assume ij: "i \<in> {0..<?n}" "j \<in> {0..<?n}"
        "BuildStepPath (br_requestDir (cs_bridge s0)) ''request'' (of_nat i) =
         BuildStepPath (br_requestDir (cs_bridge s0)) ''request'' (of_nat j)"
      then have "unat (of_nat i :: u32) = unat (of_nat j :: u32)"
        by (simp add: BuildStepPath_inj)
      with ij(1,2) that show "i = j" by (simp add: unat_of_nat_u32)
    qed
    then have "distinct (map (\<lambda>n. BuildStepPath (br_requestDir (cs_bridge s0)) ''request'' (of_nat n)) [0..<?n])"
      by (simp add: distinct_map)
    with inv show ?thesis by (simp only:)
  qed
  with inv show ?thesis by blast
qed

section \<open>The wait ends\<close>

text \<open>The poll that decides: the first at which the file is there or the time is over.\<close>

definition decides :: "(nat \<Rightarrow> bool) \<Rightarrow> (nat \<Rightarrow> double) \<Rightarrow> double \<Rightarrow> nat \<Rightarrow> bool" where
  "decides present clock timeoutS j \<longleftrightarrow> present j \<or> timeoutS < clock j"

lemma await_response_reaches:
  assumes "i \<le> j" "\<forall>m. i \<le> m \<longrightarrow> m < j \<longrightarrow> \<not> decides present clock timeoutS m" "decides present clock timeoutS j"
  shows "await_response present clock content timeoutS i =
    Some (if present j then (case content of None \<Rightarrow> CannotOpen | Some c \<Rightarrow> Response (clock j) c) else TimedOut)"
  using assms
proof (induction "j - i" arbitrary: i)
  case 0
  then have "j = i" "present i \<or> timeoutS < clock i" by (auto simp: decides_def)
  then show ?case by (subst await_response.simps) auto
next
  case (Suc k)
  then have "\<not> decides present clock timeoutS i" "Suc i \<le> j" "k = j - Suc i" by auto
  with Suc.hyps(1) [of "Suc i"] Suc.prems show ?case
    by (subst await_response.simps) (simp add: decides_def)
qed

lemma clock_grows:
  assumes "\<And>i. clock (Suc i) \<ge> clock i + 1 / 50" "clock 0 \<ge> (0::double)"
  shows "real i / 50 \<le> clock i"
proof (induction i)
  case (Suc i)
  with assms(1) [of i] show ?case by (simp add: add_divide_distrib)
qed (use assms(2) in simp)

text \<open>C40: the wait for a response ends. The first poll that finds the file, or that finds no file and is
  later than the timeout, decides it, with \<open>Timed out\<close> exactly if the file is not there; every poll
  before it finds no file and is not late. Since a failed poll sleeps 20 ms, it is at the latest the poll
  after \<open>timeoutS\<close> seconds.\<close>

theorem await_response_terminates:
  assumes "\<And>i. clock (Suc i) \<ge> clock i + 1 / 50" "clock 0 \<ge> 0"
  shows "\<exists>j \<le> nat \<lceil>50 * timeoutS\<rceil> + 1.
      (\<forall>i < j. \<not> present i \<and> clock i \<le> timeoutS) \<and> (present j \<or> timeoutS < clock j)
    \<and> await_response present clock content timeoutS 0 =
        Some (if present j then (case content of None \<Rightarrow> CannotOpen | Some c \<Rightarrow> Response (clock j) c) else TimedOut)"
proof -
  let ?k = "nat \<lceil>50 * timeoutS\<rceil> + 1"
  have "50 * timeoutS \<le> of_int \<lceil>50 * timeoutS\<rceil>" by simp
  also have "\<dots> \<le> real (nat \<lceil>50 * timeoutS\<rceil>)" by linarith
  finally have "decides present clock timeoutS ?k"
    using clock_grows [of clock ?k, OF assms] by (simp add: decides_def field_simps)
  then have j: "decides present clock timeoutS (LEAST j. decides present clock timeoutS j)"
      "(LEAST j. decides present clock timeoutS j) \<le> ?k"
    by (auto intro: LeastI Least_le)
  then obtain j where j: "decides present clock timeoutS j" "j \<le> ?k" "\<forall>i < j. \<not> decides present clock timeoutS i"
    using not_less_Least by blast
  from await_response_reaches [OF _ _ j(1), of 0 content] j(3)
  have "await_response present clock content timeoutS 0 =
      Some (if present j then (case content of None \<Rightarrow> CannotOpen | Some c \<Rightarrow> Response (clock j) c) else TimedOut)"
    by simp
  with j show ?thesis by (intro exI [of _ j]) (auto simp: decides_def not_less)
qed

text \<open>A file that is there at the fourth poll, and one that never comes within a tenth of a second.\<close>

theorem await_response_terminates_witness:
  "await_response (\<lambda>i. 3 \<le> i) (\<lambda>i. real i / 50) (Some ''{}'') 900 0 = Some (Response (3 / 50) ''{}'')
   \<and> await_response (\<lambda>_. False) (\<lambda>i. real i / 50) None (1 / 10) 0 = Some TimedOut"
proof
  from await_response_terminates [of "\<lambda>i. real i / 50" 900 "\<lambda>i. 3 \<le> i" "Some ''{}''"] obtain j where
    j: "\<forall>i < j. \<not> 3 \<le> i \<and> real i / 50 \<le> 900" "3 \<le> j \<or> 900 < real j / 50"
      "await_response (\<lambda>i. 3 \<le> i) (\<lambda>i. real i / 50) (Some ''{}'') 900 0 =
        Some (if 3 \<le> j then (case Some ''{}'' of None \<Rightarrow> CannotOpen | Some c \<Rightarrow> Response (real j / 50) c) else TimedOut)"
    by (auto simp: add_divide_distrib)
  have "\<not> 3 < j" using j(1) by auto
  moreover have "3 \<le> j" using j(2) \<open>\<not> 3 < j\<close> by auto
  ultimately have "j = 3" by simp
  with j(3) show "await_response (\<lambda>i. 3 \<le> i) (\<lambda>i. real i / 50) (Some ''{}'') 900 0 = Some (Response (3 / 50) ''{}'')"
    by simp
next
  from await_response_terminates [of "\<lambda>i. real i / 50" "1 / 10" "\<lambda>_. False" None]
  show "await_response (\<lambda>_. False) (\<lambda>i. real i / 50) None (1 / 10) 0 = Some TimedOut"
    by (auto simp: add_divide_distrib)
qed

section \<open>Requests are issued\<close>

text \<open>A sequence of control steps: each with its time, the state of the logger at it, and the response.\<close>

primrec control_steps ::
    "double \<Rightarrow> double \<Rightarrow> double \<Rightarrow> double \<Rightarrow> (double \<times> kpi_logger \<times> double \<times> string) list
       \<Rightarrow> input_command \<Rightarrow> u32 \<Rightarrow> control_state \<Rightarrow> control_state result" where
  "control_steps evalStartS evalEndS controlIntervalS fixedB [] u n s = Inr s"
| "control_steps evalStartS evalEndS controlIntervalS fixedB (i # is) u n s =
     (case i of (now, l, w, content) \<Rightarrow>
        and_then (RunDeepcBridgeStep now evalStartS evalEndS controlIntervalS fixedB True (Response w content)
                    u n (s\<lparr>cs_logger := l\<rparr>))
          (\<lambda>(s', nxt). case nxt of
             None \<Rightarrow> Inr s'
           | Some (d, u', n') \<Rightarrow> control_steps evalStartS evalEndS controlIntervalS fixedB is u' n' s'))"

definition devices_ok :: "ue_devices \<Rightarrow> bool" where
  "devices_ok ds \<longleftrightarrow> (\<forall>d \<in> set ds. \<exists>dev. d = Some dev \<and> None \<notin> set (dev_phyTxPower dev))"

lemma devices_ok_apply: "devices_ok ds \<Longrightarrow> \<exists>ds'. ApplyTxPowerToAllUes p ds = Inr ds' \<and> devices_ok ds'"
proof (induction ds)
  case (Cons d ds)
  from Cons.prems obtain dev where d: "d = Some dev" "None \<notin> set (dev_phyTxPower dev)" and "devices_ok ds"
    by (auto simp: devices_ok_def)
  with Cons.IH obtain ds' where ds': "ApplyTxPowerToAllUes p ds = Inr ds'" "devices_ok ds'" by blast
  have r: "set_phy_powers p (dev_phyTxPower dev) = Inr (replicate (length (dev_phyTxPower dev)) (Some p))"
    using d by (simp add: set_phy_powers_Inr)
  show ?case
    using ds' d by (simp add: r) (simp add: devices_ok_def)
qed (simp add: devices_ok_def)

definition step_input_ok :: "double \<Rightarrow> double \<Rightarrow> double \<Rightarrow> double \<times> kpi_logger \<times> double \<times> string \<Rightarrow> bool" where
  "step_input_ok evalStartS evalEndS controlIntervalS i \<longleftrightarrow>
     (case i of (now, l, w, content) \<Rightarrow>
        now \<le> evalEndS + 1 / 1000000000 \<and> now + controlIntervalS \<le> evalEndS + 1 / 1000000000
        \<and> HasLatestSample l \<and> evalStartS \<le> ks_timeS (GetLatestSample l) + 1 / 1000000000
        \<and> ks_timeS (GetLatestSample l) \<le> evalEndS + 1 / 1000000000 \<and> is_ok (ReadResponse content))"

abbreviation input_time :: "double \<times> kpi_logger \<times> double \<times> string \<Rightarrow> double" where
  "input_time i \<equiv> ks_timeS (GetLatestSample (fst (snd i)))"

lemma control_step_ok:
  fixes s :: control_state
  defines "b \<equiv> cs_bridge s"
  assumes "step_input_ok evalStartS evalEndS controlIntervalS (now, l, w, content)" "devices_ok (cs_devices s)"
    "sample_fresh (GetLatestSample l) b" "0 < unat (br_pastHorizon b)" "length (br_samples b) \<le> unat (br_pastHorizon b)"
  obtains s' u' n' where
    "RunDeepcBridgeStep now evalStartS evalEndS controlIntervalS fixedB True (Response w content) u n (s\<lparr>cs_logger := l\<rparr>)
       = Inr (s', Some (Seconds controlIntervalS, u', n'))"
    "devices_ok (cs_devices s')" "br_hasLastSample (cs_bridge s')"
    "br_lastSampleTimeS (cs_bridge s') = ks_timeS (GetLatestSample l)"
    "br_pastHorizon (cs_bridge s') = br_pastHorizon b"
    "length (br_samples (cs_bridge s')) = min (unat (br_pastHorizon b)) (length (br_samples b) + 1)"
    "length (br_requests (cs_bridge s')) = length (br_requests b) +
       (if unat (br_pastHorizon b) \<le> length (br_samples b) + 1 then 1 else 0)"
proof -
  let ?s = "s\<lparr>cs_logger := l\<rparr>"
  let ?b = "b\<lparr>br_samples := keep_last (unat (br_pastHorizon b)) (br_samples b @ [GetLatestSample l]),
              br_hasLastSample := True, br_lastSampleTimeS := ks_timeS (GetLatestSample l)\<rparr>"
  have push: "pushed_bridge evalStartS evalEndS ?s = (True, ?b)"
    using assms(2,4) by (auto simp: step_input_ok_def pushed_bridge_def PushSample_cases b_def Let_def)
  have unf: "RunDeepcBridgeStep now evalStartS evalEndS controlIntervalS fixedB True (Response w content) u n ?s
      = and_then
             (if Ready ?b
              then and_then (RequestControl n now u True (Response w content) ?b) (\<lambda>(nextU, b').
                   and_then (ApplyTxPowerAtTime (in_txPowerDbm nextU) fixedB l (cs_devices s)) (\<lambda>(logger, devs).
                     Inr (?s\<lparr>cs_logger := logger, cs_devices := devs, cs_bridge := b'\<rparr>, nextU, n + 1)))
              else Inr (?s\<lparr>cs_bridge := ?b\<rparr>, u, n))
             (\<lambda>(s', nextU, nextStep). Inr (s', Some (Seconds controlIntervalS, nextU, nextStep)))"
    using assms(2) push unfolding RunDeepcBridgeStep_def pushed_bridge_def Let_def
    by (simp add: step_input_ok_def)
  show ?thesis
  proof (cases "Ready ?b")
    case False
    then have h: "\<not> unat (br_pastHorizon b) \<le> length (br_samples b) + 1" by (simp add: Ready_def)
    have e: "RunDeepcBridgeStep now evalStartS evalEndS controlIntervalS fixedB True (Response w content) u n ?s
      = Inr (?s\<lparr>cs_bridge := ?b\<rparr>, Some (Seconds controlIntervalS, u, n))"
      unfolding unf using False by simp
    show ?thesis
      by (rule that [OF e]) (use h assms(3) in simp_all)
  next
    case True
    then have h: "unat (br_pastHorizon b) \<le> length (br_samples b) + 1" by (simp add: Ready_def)
    from assms(2) obtain r where r: "ReadResponse content = Inr r"
      by (auto simp: step_input_ok_def is_ok_iff)
    from devices_ok_apply [OF assms(3)] obtain devs where
      devs: "ApplyTxPowerToAllUes (applied_power r u ?b) (cs_devices s) = Inr devs" "devices_ok devs" by blast
    let ?b' = "log_control n now u (BuildStepPath (br_responseDir ?b) ''response'' n) w r
       (?b\<lparr>br_requests := br_requests ?b @ [request_at n now u ?b]\<rparr>)"
    let ?v = "\<lparr>in_timeS = now, in_txPowerDbm = applied_power r u ?b, in_beaconIntervalS = br_fixedBeaconIntervalS ?b\<rparr>"
    have e: "RunDeepcBridgeStep now evalStartS evalEndS controlIntervalS fixedB True (Response w content) u n ?s
      = Inr (?s\<lparr>cs_logger := SetCurrentInputs (applied_power r u ?b) fixedB l, cs_devices := devs, cs_bridge := ?b'\<rparr>,
             Some (Seconds controlIntervalS, ?v, n + 1))"
      unfolding unf RequestControl_ok [OF True r] using True devs(1) by (simp add: ApplyTxPowerAtTime_def)
    show ?thesis
      by (rule that [OF e]) (use h devs(2) in simp_all)
  qed
qed

lemma control_steps_count:
  assumes "\<forall>i \<in> set is. step_input_ok evalStartS evalEndS controlIntervalS i"
    "sorted_wrt (\<lambda>i j. input_time i + 1 / 1000000000 < input_time j) is"
    "br_hasLastSample (cs_bridge s) \<Longrightarrow> \<forall>i \<in> set is. br_lastSampleTimeS (cs_bridge s) + 1 / 1000000000 < input_time i"
    "devices_ok (cs_devices s)" "0 < unat (br_pastHorizon (cs_bridge s))"
    "length (br_samples (cs_bridge s)) \<le> unat (br_pastHorizon (cs_bridge s))"
  shows "\<exists>s'. control_steps evalStartS evalEndS controlIntervalS fixedB is u n s = Inr s'
    \<and> length (br_requests (cs_bridge s')) = length (br_requests (cs_bridge s))
        + (length is - (unat (br_pastHorizon (cs_bridge s)) - 1 - length (br_samples (cs_bridge s))))"
  using assms
proof (induction "is" arbitrary: u n s)
  case (Cons i "is")
  obtain now l w content where i: "i = (now, l, w, content)" by (cases i)
  let ?b = "cs_bridge s"
  have fresh: "sample_fresh (GetLatestSample l) ?b"
    using Cons.prems(3) by (auto simp: sample_fresh_def i)
  from Cons.prems(1) have ok: "step_input_ok evalStartS evalEndS controlIntervalS (now, l, w, content)"
    by (simp add: i)
  from control_step_ok [OF ok Cons.prems(4) fresh Cons.prems(5,6), of fixedB u n]
  obtain s1 u1 n1 where s1:
    "RunDeepcBridgeStep now evalStartS evalEndS controlIntervalS fixedB True (Response w content) u n (s\<lparr>cs_logger := l\<rparr>)
       = Inr (s1, Some (Seconds controlIntervalS, u1, n1))"
    "devices_ok (cs_devices s1)" "br_lastSampleTimeS (cs_bridge s1) = ks_timeS (GetLatestSample l)"
    "br_pastHorizon (cs_bridge s1) = br_pastHorizon ?b"
    "length (br_samples (cs_bridge s1)) = min (unat (br_pastHorizon ?b)) (length (br_samples ?b) + 1)"
    "length (br_requests (cs_bridge s1)) = length (br_requests ?b) +
       (if unat (br_pastHorizon ?b) \<le> length (br_samples ?b) + 1 then 1 else 0)" by metis
  have "\<exists>s'. control_steps evalStartS evalEndS controlIntervalS fixedB is u1 n1 s1 = Inr s'
    \<and> length (br_requests (cs_bridge s')) = length (br_requests (cs_bridge s1))
        + (length is - (unat (br_pastHorizon (cs_bridge s1)) - 1 - length (br_samples (cs_bridge s1))))"
  proof (rule Cons.IH)
    show "\<forall>j \<in> set is. br_lastSampleTimeS (cs_bridge s1) + 1 / 1000000000 < input_time j"
      using Cons.prems(2) by (simp add: s1(3) i)
  qed (use Cons.prems s1 in auto)
  then obtain s' where s': "control_steps evalStartS evalEndS controlIntervalS fixedB is u1 n1 s1 = Inr s'"
    "length (br_requests (cs_bridge s')) = length (br_requests (cs_bridge s1))
        + (length is - (unat (br_pastHorizon (cs_bridge s1)) - 1 - length (br_samples (cs_bridge s1))))" by blast
  have "control_steps evalStartS evalEndS controlIntervalS fixedB (i # is) u n s = Inr s'"
    using s1(1) s'(1) by (simp add: i)
  moreover have "length (br_requests (cs_bridge s')) = length (br_requests (cs_bridge s))
        + (length (i # is) - (unat (br_pastHorizon (cs_bridge s)) - 1 - length (br_samples (cs_bridge s))))"
    using s'(2) Cons.prems(5,6) unfolding s1(4-6) by (simp split: if_splits)
  ultimately show ?case by blast
qed simp

text \<open>C23: the controller is used: when a bridge with an empty history goes through control steps that each
  find a new sample of the evaluation window and get a readable response, nothing fails, and every
  step from the \<open>pastHorizon\<close>-th on issues one request.\<close>

theorem control_loop_live:
  assumes "br_samples (cs_bridge s) = []" "\<not> br_hasLastSample (cs_bridge s)" "br_requests (cs_bridge s) = []"
    "0 < unat (br_pastHorizon (cs_bridge s))" "devices_ok (cs_devices s)"
    "\<forall>i \<in> set is. step_input_ok evalStartS evalEndS controlIntervalS i"
    "sorted_wrt (\<lambda>i j. input_time i + 1 / 1000000000 < input_time j) is"
  shows "\<exists>s'. control_steps evalStartS evalEndS controlIntervalS fixedB is u n s = Inr s'
    \<and> length (br_requests (cs_bridge s')) = length is - (unat (br_pastHorizon (cs_bridge s)) - 1)"
  using control_steps_count [OF assms(6,7) _ assms(5,4), of fixedB u n] assms(1-3) by simp

definition logger_at :: "double \<Rightarrow> kpi_logger" where
  "logger_at t = kpi_logger_new\<lparr>k_hasLatestSample := True, k_latestSample := kpi_sample_new\<lparr>ks_timeS := t\<rparr>\<rparr>"

theorem control_loop_live_witness:
  "\<exists>s'. control_steps 10 90 (1 / 2) (1 / 10) [(21 / 2, logger_at (21 / 2), 0, []), (11, logger_at 11, 0, [])]
       \<lparr>in_timeS = 10, in_txPowerDbm = 20, in_beaconIntervalS = 1 / 10\<rparr> 0
       \<lparr>cs_logger = kpi_logger_new, cs_devices = [Some sample_device], cs_bridge = deepc_bridge_new\<lparr>br_pastHorizon := 2\<rparr>\<rparr> = Inr s'
     \<and> length (br_requests (cs_bridge s')) = 1"
proof -
  have ok: "is_ok (ReadResponse [])"
    by (simp add: ReadResponse_def number_or_def ExtractJsonNumber_def json_colon_def json_needle_def)
  let ?is = "[(21 / 2, logger_at (21 / 2), 0, []), (11, logger_at 11, 0, [])] :: (double \<times> kpi_logger \<times> double \<times> string) list"
  have "\<forall>i \<in> set ?is. step_input_ok 10 90 (1 / 2) i" "sorted_wrt (\<lambda>i j. input_time i + 1 / 1000000000 < input_time j) ?is"
    using ok by (simp_all add: step_input_ok_def logger_at_def HasLatestSample_def GetLatestSample_def)
  from control_loop_live [OF _ _ _ _ _ this, of
      "\<lparr>cs_logger = kpi_logger_new, cs_devices = [Some sample_device], cs_bridge = deepc_bridge_new\<lparr>br_pastHorizon := 2\<rparr>\<rparr>"
      "1 / 10" "\<lparr>in_timeS = 10, in_txPowerDbm = 20, in_beaconIntervalS = 1 / 10\<rparr>" 0]
  show ?thesis
    by (simp add: deepc_bridge_new_def devices_ok_def sample_device_def)
qed

section \<open>A run with a request\<close>

definition run_start :: control_state where
  "run_start = \<lparr>cs_logger = kpi_logger_new, cs_devices = [Some (sample_device\<lparr>dev_phyTxPower := [Some 20]\<rparr>)],
     cs_bridge = deepc_bridge_new\<lparr>br_pastHorizon := 1\<rparr>\<rparr>"

definition run_input :: input_command where
  "run_input = \<lparr>in_timeS = 10, in_txPowerDbm = 20, in_beaconIntervalS = 1 / 10\<rparr>"

lemma run_start_ok:
  "bridge_ok (cs_bridge run_start)" "br_requests (cs_bridge run_start) = []" "br_appliedOut (cs_bridge run_start) = []"
  "power_in (cs_bridge run_start) (in_txPowerDbm run_input)"
  "\<forall>x \<in> device_powers (cs_devices run_start). \<exists>y. x = Some y \<and> power_in (cs_bridge run_start) y"
  by (simp_all add: run_start_def run_input_def bridge_ok_def deepc_bridge_new_def power_in_def device_powers_def)

lemma run_with_request:
  "\<exists>s p. control_run 10 90 (1 / 2) (1 / 10) run_start run_input s p \<and> length (br_requests (cs_bridge s)) = 1"
proof -
  have ok: "step_input_ok 10 90 (1 / 2) (21 / 2, logger_at (21 / 2), 0, [])"
    by (simp add: step_input_ok_def logger_at_def HasLatestSample_def GetLatestSample_def
        ReadResponse_def number_or_def ExtractJsonNumber_def json_colon_def json_needle_def)
  have "devices_ok (cs_devices run_start)" "sample_fresh (GetLatestSample (logger_at (21 / 2))) (cs_bridge run_start)"
    "0 < unat (br_pastHorizon (cs_bridge run_start))"
    "length (br_samples (cs_bridge run_start)) \<le> unat (br_pastHorizon (cs_bridge run_start))"
    by (simp_all add: run_start_def devices_ok_def sample_fresh_def deepc_bridge_new_def)
  from control_step_ok [OF ok this, of "1 / 10" run_input 0] obtain s u n where
    "RunDeepcBridgeStep (21 / 2) 10 90 (1 / 2) (1 / 10) True (Response 0 []) run_input 0 (run_start\<lparr>cs_logger := logger_at (21 / 2)\<rparr>)
       = Inr (s, Some (Seconds (1 / 2), u, n))"
    "length (br_requests (cs_bridge s)) = length (br_requests (cs_bridge run_start)) +
       (if unat (br_pastHorizon (cs_bridge run_start)) \<le> length (br_samples (cs_bridge run_start)) + 1 then 1 else 0)"
    by metis
  moreover have "control_run 10 90 (1 / 2) (1 / 10) run_start run_input (run_start\<lparr>cs_logger := logger_at (21 / 2)\<rparr>) (Some (run_input, 0))"
    by (intro control_run.others control_run.start)
  ultimately have "control_run 10 90 (1 / 2) (1 / 10) run_start run_input s (map_option snd (Some (Seconds (1 / 2), u, n)))"
    by (elim control_run.control)
  moreover have "length (br_requests (cs_bridge s)) = 1"
    using \<open>length (br_requests (cs_bridge s)) = _\<close> by (simp add: run_start_def deepc_bridge_new_def)
  ultimately show ?thesis by blast
qed

theorem closed_loop_power_safe_witness:
  "\<exists>s p. control_run 10 90 (1 / 2) (1 / 10) run_start run_input s p \<and> length (br_requests (cs_bridge s)) = 1
     \<and> (\<forall>x \<in> device_powers (cs_devices s). \<exists>y. x = Some y \<and> power_in (cs_bridge run_start) y)"
  using run_with_request closed_loop_power_safe [OF _ run_start_ok] by blast

theorem requests_well_formed_witness:
  "\<exists>s p. control_run 10 90 (1 / 2) (1 / 10) run_start run_input s p \<and> length (br_requests (cs_bridge s)) = 1
     \<and> (\<forall>r \<in> set (br_requests (cs_bridge s)). request_ok r)"
  using run_with_request requests_well_formed [OF _ run_start_ok] by blast

end
