(* ===== verification/WaypointMobility.thy ===== *)
theory WaypointMobility
  imports VehiclePool
begin

text \<open>
  \<open>WaypointMobilityModel\<close> (\<open>src/src/mobility/model/waypoint-mobility-model.cc\<close>), which moves a node along
  a line of waypoints, and \<open>InstallWaypointMobility\<close>, which the scenario uses when every vehicle has a
  device of its own.

  Times are nanoseconds, \<open>int\<close>; \<open>Simulator::Now()\<close> is an argument. \<open>m_waypoints\<close> is a list, first element
  first. The mutable state that the const functions update is returned. A failed assertion of \<open>Update\<close> is
  \<open>None\<close>; in \<open>AddWaypoint\<close>, whose result already has an error for the fatal message on the order of
  waypoints, the assertion of \<open>DefaultSimulatorImpl::Schedule\<close> that a delay is not negative is an error too.
\<close>

section \<open>The model\<close>

record waypoint =
  wp_time :: int
  wp_position :: vec3

record waypoint_mobility =
  wm_first :: bool
  wm_lazyNotify :: bool
  wm_initialPositionIsWaypoint :: bool
  wm_waypoints :: "waypoint list"
  wm_current :: waypoint
  wm_next :: waypoint
  wm_velocity :: vec3
  wm_courseChanges :: nat
  wm_updates :: "int list" \<comment> \<open>the delays of the scheduled calls of \<open>Update\<close>\<close>

definition waypoint_new :: waypoint where
  "waypoint_new = \<lparr>wp_time = 0, wp_position = vec 0 0 0\<rparr>"

definition waypoint_mobility_new :: waypoint_mobility where
  "waypoint_mobility_new = \<lparr>wm_first = True, wm_lazyNotify = False, wm_initialPositionIsWaypoint = False,
     wm_waypoints = [], wm_current = waypoint_new, wm_next = waypoint_new, wm_velocity = vec 0 0 0,
     wm_courseChanges = 0, wm_updates = []\<rparr>"

definition wm_NotifyCourseChange :: "waypoint_mobility \<Rightarrow> waypoint_mobility" where
  "wm_NotifyCourseChange w = w\<lparr>wm_courseChanges := wm_courseChanges w + 1\<rparr>"

definition AddWaypoint :: "int \<Rightarrow> waypoint \<Rightarrow> waypoint_mobility \<Rightarrow> waypoint_mobility result" where
  "AddWaypoint now p w =
     and_then
       (if wm_first w then Inr (w\<lparr>wm_first := False, wm_current := p, wm_next := p\<rparr>)
        else and_then (abort_if (wm_waypoints w \<noteq> [] \<and> wp_time (last (wm_waypoints w)) \<ge> wp_time p)
               ''Waypoints must be added in ascending time order'') (\<lambda>_.
             Inr (w\<lparr>wm_waypoints := wm_waypoints w @ [p]\<rparr>)))
       (\<lambda>w'. if wm_lazyNotify w' then Inr w'
             else and_then (abort_if (wp_time p - now < 0) ''DefaultSimulatorImpl::Schedule(): Negative delay'') (\<lambda>_.
                    Inr (w'\<lparr>wm_updates := wm_updates w' @ [wp_time p - now]\<rparr>)))"

section \<open>Moving along the waypoints\<close>

definition seconds_between :: "int \<Rightarrow> int \<Rightarrow> double" where
  "seconds_between a b = of_int (b - a) / 1000000000"

definition wm_slope :: "waypoint \<Rightarrow> waypoint \<Rightarrow> vec3" where
  "wm_slope a b =
     (let t_span = seconds_between (wp_time a) (wp_time b); p = wp_position a; q = wp_position b
      in vec ((vec_x q - vec_x p) / t_span) ((vec_y q - vec_y p) / t_span) ((vec_z q - vec_z p) / t_span))"

text \<open>The branch of the loop in which no waypoint is left; \<open>- 1000000000\<close> is \<open>Seconds(-1.0)\<close>.\<close>

definition wm_end :: "int \<Rightarrow> waypoint_mobility \<Rightarrow> waypoint_mobility" where
  "wm_end now w =
     (if wp_time (wm_current w) \<le> wp_time (wm_next w)
      then wm_NotifyCourseChange
             (w\<lparr>wm_next := (wm_next w)\<lparr>wp_time := - 1000000000\<rparr>,
                wm_current := \<lparr>wp_time = now, wp_position = wp_position (wm_next w)\<rparr>,
                wm_velocity := vec 0 0 0\<rparr>)
      else w\<lparr>wm_current := (wm_current w)\<lparr>wp_time := now\<rparr>\<rparr>)"

text \<open>The loop; \<open>Inl\<close> is its early return, \<open>Inr\<close> its normal end with the value of \<open>newWaypoint\<close>.\<close>

function wm_loop :: "int \<Rightarrow> bool \<Rightarrow> waypoint_mobility \<Rightarrow> (waypoint_mobility + bool \<times> waypoint_mobility) option" where
  "wm_loop now newWaypoint w =
     (if now < wp_time (wm_next w) then Some (Inr (newWaypoint, w))
      else case wm_waypoints w of
             [] \<Rightarrow> Some (Inl (wm_end now w))
           | p # ps \<Rightarrow>
               (let a = wm_next w
                in if seconds_between (wp_time a) (wp_time p) > 0
                   then wm_loop now True (w\<lparr>wm_current := a, wm_next := p, wm_waypoints := ps, wm_velocity := wm_slope a p\<rparr>)
                   else None))"
  by pat_completeness auto
termination by (relation "measure (\<lambda>(now, new, w). length (wm_waypoints w))") auto

declare wm_loop.simps [simp del]

definition vec_advance :: "vec3 \<Rightarrow> vec3 \<Rightarrow> double \<Rightarrow> vec3" where
  "vec_advance p v t = vec (vec_x p + vec_x v * t) (vec_y p + vec_y v * t) (vec_z p + vec_z v * t)"

definition wm_Update :: "int \<Rightarrow> waypoint_mobility \<Rightarrow> waypoint_mobility option" where
  "wm_Update now w =
     (if now < wp_time (wm_current w) then Some w
      else case wm_loop now False w of
             None \<Rightarrow> None
           | Some (Inl w') \<Rightarrow> Some w'
           | Some (Inr (newWaypoint, w')) \<Rightarrow>
               (let c = wm_current w';
                    w'' = (if now > wp_time c
                           then w'\<lparr>wm_current := \<lparr>wp_time = now,
                                    wp_position = vec_advance (wp_position c) (wm_velocity w') (seconds_between (wp_time c) now)\<rparr>\<rparr>
                           else w')
                in Some (if newWaypoint then wm_NotifyCourseChange w'' else w'')))"

definition GetNextWaypoint :: "int \<Rightarrow> waypoint_mobility \<Rightarrow> (waypoint \<times> waypoint_mobility) option" where
  "GetNextWaypoint now w = map_option (\<lambda>w'. (wm_next w', w')) (wm_Update now w)"

definition WaypointsLeft :: "int \<Rightarrow> waypoint_mobility \<Rightarrow> (nat \<times> waypoint_mobility) option" where
  "WaypointsLeft now w = map_option (\<lambda>w'. (length (wm_waypoints w'), w')) (wm_Update now w)"

definition wm_DoGetPosition :: "int \<Rightarrow> waypoint_mobility \<Rightarrow> (vec3 \<times> waypoint_mobility) option" where
  "wm_DoGetPosition now w = map_option (\<lambda>w'. (wp_position (wm_current w'), w')) (wm_Update now w)"

definition wm_DoGetVelocity :: "waypoint_mobility \<Rightarrow> vec3" where
  "wm_DoGetVelocity w = wm_velocity w"

definition wm_DoSetPosition :: "int \<Rightarrow> vec3 \<Rightarrow> waypoint_mobility \<Rightarrow> waypoint_mobility result option" where
  "wm_DoSetPosition now position w =
     (if wm_first w \<and> wm_initialPositionIsWaypoint w
      then Some (AddWaypoint now \<lparr>wp_time = now, wp_position = position\<rparr> w)
      else map_option (\<lambda>w1.
             let w2 = w1\<lparr>wm_current := \<lparr>wp_time = max now (wp_time (wm_next w1)), wp_position = position\<rparr>,
                         wm_velocity := vec 0 0 0\<rparr>
             in Inr (if \<not> wm_first w2 \<and> now \<ge> wp_time (wm_current w2) then wm_NotifyCourseChange w2 else w2))
           (wm_Update now w))"

text \<open>\<open>std::numeric_limits<uint64_t>::infinity()\<close> is 0: an integer type has no infinity.\<close>

definition EndMobility :: "waypoint_mobility \<Rightarrow> waypoint_mobility" where
  "EndMobility w = w\<lparr>wm_waypoints := [], wm_current := (wm_current w)\<lparr>wp_time := 0\<rparr>,
     wm_next := (wm_next w)\<lparr>wp_time := 0\<rparr>, wm_first := True\<rparr>"

section \<open>A vehicle with a device of its own\<close>

primrec AddWaypoints :: "int \<Rightarrow> waypoint list \<Rightarrow> waypoint_mobility \<Rightarrow> waypoint_mobility result" where
  "AddWaypoints now [] w = Inr w"
| "AddWaypoints now (p # ps) w = and_then (AddWaypoint now p w) (AddWaypoints now ps)"

definition waypointEpsS :: double where
  "waypointEpsS = 1 / 1000000"

definition row_waypoint :: "mobility_row \<Rightarrow> waypoint" where
  "row_waypoint r = \<lparr>wp_time = Seconds (row_timeS r), wp_position = vec (row_xM r) (row_yM r) 0\<rparr>"

definition installed_waypoints :: "u32 \<Rightarrow> mobility_row list \<Rightarrow> waypoint list" where
  "installed_waypoints nodeId rows =
     (let parked = GetInactiveParkingPosition nodeId; front = row_timeS (hd rows)
      in (if front > 0
          then \<lparr>wp_time = Seconds 0, wp_position = parked\<rparr>
            # (if front > waypointEpsS then [\<lparr>wp_time = Seconds (front - waypointEpsS), wp_position = parked\<rparr>] else [])
          else [])
         @ map row_waypoint rows
         @ [\<lparr>wp_time = Seconds (row_timeS (last rows) + waypointEpsS), wp_position = parked\<rparr>])"

definition InstallWaypointMobility :: "u32 \<Rightarrow> mobility_row list \<Rightarrow> waypoint_mobility result" where
  "InstallWaypointMobility nodeId rows =
     and_then (abort_if (rows = []) ''Cannot install waypoint mobility from empty NGSIM track'') (\<lambda>_.
     AddWaypoints 0 (installed_waypoints nodeId rows) waypoint_mobility_new)"

section \<open>The line of waypoints\<close>

text \<open>The reference: where a node is that moves in straight lines at constant speed from one waypoint to
  the next, and stands before the first and after the last.\<close>

definition wp_between :: "waypoint \<Rightarrow> waypoint \<Rightarrow> int \<Rightarrow> vec3" where
  "wp_between a b t = vec_advance (wp_position a) (wm_slope a b) (seconds_between (wp_time a) t)"

fun track_at :: "waypoint list \<Rightarrow> int \<Rightarrow> vec3" where
  "track_at [] t = vec 0 0 0"
| "track_at [a] t = wp_position a"
| "track_at (a # b # ps) t =
     (if t \<le> wp_time a then wp_position a
      else if t < wp_time b then wp_between a b t else track_at (b # ps) t)"

section \<open>Whatever is asked for, the node is on its line\<close>

definition wm_path :: "waypoint_mobility \<Rightarrow> waypoint list" where
  "wm_path w =
     (if wp_time (wm_current w) < wp_time (wm_next w) then wm_current w # wm_next w # wm_waypoints w
      else if wp_time (wm_current w) = wp_time (wm_next w) then wm_next w # wm_waypoints w
      else [wm_current w])"

abbreviation in_time_order :: "waypoint list \<Rightarrow> bool" where
  "in_time_order ps \<equiv> sorted_wrt (\<lambda>a b. wp_time a < wp_time b) ps"

definition wm_ok :: "waypoint_mobility \<Rightarrow> bool" where
  "wm_ok w \<longleftrightarrow> in_time_order (wm_path w)
     \<and> (wp_time (wm_current w) < wp_time (wm_next w) \<longrightarrow> wm_velocity w = wm_slope (wm_current w) (wm_next w))
     \<and> (wp_time (wm_current w) = wp_time (wm_next w) \<longrightarrow> wm_current w = wm_next w)
     \<and> (wp_time (wm_next w) < wp_time (wm_current w) \<longrightarrow> wm_waypoints w = [])"

lemma track_at_later: "in_time_order (a # b # ps) \<Longrightarrow> wp_time b \<le> t \<Longrightarrow> track_at (a # b # ps) t = track_at (b # ps) t"
  by auto

lemma track_at_head: "t \<le> wp_time a \<Longrightarrow> track_at (a # ps) t = wp_position a"
  by (cases ps) auto

lemma track_at_last: "in_time_order (a # ps) \<Longrightarrow> wp_time (last (a # ps)) \<le> t \<Longrightarrow> track_at (a # ps) t = wp_position (last (a # ps))"
proof (induction ps arbitrary: a)
  case (Cons b ps)
  have "wp_time b \<le> wp_time (last (b # ps))" using Cons.prems(1) by (cases ps) (auto intro!: less_imp_le)
  with Cons show ?case using track_at_later [of a b ps t] by simp
qed simp

lemma wm_slope_advance:
  assumes "wp_time a \<le> now" "now < wp_time b"
  defines "c \<equiv> \<lparr>wp_time = now, wp_position = wp_between a b now\<rparr>"
  shows "wm_slope c b = wm_slope a b" "wp_between c b t = wp_between a b t"
proof -
  let ?s = "\<lambda>x y. seconds_between x y"
  have pos: "0 < ?s (wp_time a) (wp_time b)" "0 < ?s now (wp_time b)"
    using assms(1,2) by (simp_all add: seconds_between_def)
  have split: "?s (wp_time a) t = ?s (wp_time a) now + ?s now t" for t
    by (simp add: seconds_between_def diff_divide_distrib)
  have one: "(q - (p + (q - p) / ?s (wp_time a) (wp_time b) * ?s (wp_time a) now)) / ?s now (wp_time b)
      = (q - p) / ?s (wp_time a) (wp_time b)" for p q :: real
  proof -
    define k where "k = (q - p) / ?s (wp_time a) (wp_time b)"
    have "q - p = k * ?s (wp_time a) (wp_time b)" using pos(1) by (simp add: k_def)
    then have "q - (p + k * ?s (wp_time a) now) = k * ?s now (wp_time b)"
      using split [of "wp_time b"] by (simp add: algebra_simps)
    then show ?thesis using pos(2) by (simp add: k_def [symmetric])
  qed
  show slope: "wm_slope c b = wm_slope a b"
    by (simp add: c_def wm_slope_def wp_between_def vec_advance_def Let_def one [simplified times_divide_eq_left])
  show "wp_between c b t = wp_between a b t"
    unfolding wp_between_def [of c b t] slope
    by (simp add: c_def wp_between_def vec_advance_def split [of t] algebra_simps)
qed

lemma wp_between_start: "wp_between a b (wp_time a) = wp_position a"
  by (cases a) (simp add: wp_between_def vec_advance_def seconds_between_def vec_def)

lemma track_at_advance:
  assumes "wp_time a \<le> now" "now < wp_time b" "now \<le> t"
  shows "track_at (\<lparr>wp_time = now, wp_position = wp_between a b now\<rparr> # b # ps) t = track_at (a # b # ps) t"
proof (cases "t = now")
  case True
  with assms show ?thesis by (cases "now = wp_time a") (auto simp: wp_between_start)
next
  case False
  with assms show ?thesis by (simp add: wm_slope_advance(2))
qed

lemma wm_loop_ok:
  assumes "in_time_order (wm_next w # wm_waypoints w)" "wp_time (wm_current w) \<le> wp_time (wm_next w)"
    "wp_time (wm_next w) \<le> now"
  shows "(\<exists>w'. wm_loop now new w = Some (Inr (True, w')) \<and> in_time_order (wm_current w' # wm_next w' # wm_waypoints w')
      \<and> wp_time (wm_current w') \<le> now \<and> now < wp_time (wm_next w') \<and> wm_velocity w' = wm_slope (wm_current w') (wm_next w')
      \<and> (\<forall>t \<ge> now. track_at (wm_current w' # wm_next w' # wm_waypoints w') t = track_at (wm_next w # wm_waypoints w) t))
    \<or> (\<exists>w'. wm_loop now new w = Some (Inl w') \<and> wp_time (wm_current w') = now \<and> wp_time (wm_next w') < 0
      \<and> wm_waypoints w' = [] \<and> (\<forall>t \<ge> now. track_at (wm_next w # wm_waypoints w) t = wp_position (wm_current w')))"
  using assms
proof (induction now new w rule: wm_loop.induct)
  case (1 now new w)
  show ?case
  proof (cases "wm_waypoints w")
    case Nil
    with 1 have "wm_loop now new w = Some (Inl (wm_end now w))" by (subst wm_loop.simps) simp
    moreover have "wp_time (wm_current (wm_end now w)) = now" "wp_time (wm_next (wm_end now w)) < 0"
      "wm_waypoints (wm_end now w) = []" "wp_position (wm_current (wm_end now w)) = wp_position (wm_next w)"
      using Nil 1(3) by (simp_all add: wm_end_def wm_NotifyCourseChange_def)
    ultimately show ?thesis using Nil by auto
  next
    case (Cons p ps)
    define u where "u = w\<lparr>wm_current := wm_next w, wm_next := p, wm_waypoints := ps, wm_velocity := wm_slope (wm_next w) p\<rparr>"
    have u: "wm_next u = p" "wm_waypoints u = ps" "wm_current u = wm_next w" "wm_velocity u = wm_slope (wm_next w) p"
      by (simp_all add: u_def)
    have lt: "wp_time (wm_next w) < wp_time p" using 1(2) Cons by simp
    then have s: "0 < seconds_between (wp_time (wm_next w)) (wp_time p)" by (simp add: seconds_between_def)
    have step: "wm_loop now new w = wm_loop now True u"
      using 1(4) Cons s by (subst wm_loop.simps) (simp add: u_def Let_def)
    show ?thesis
    proof (cases "wp_time p \<le> now")
      case True
      have "in_time_order (p # ps)" using 1(2) Cons by simp
      then have ih: "in_time_order (wm_next u # wm_waypoints u)" "wp_time (wm_current u) \<le> wp_time (wm_next u)" "wp_time (wm_next u) \<le> now"
        using lt True u by simp_all
      have eq: "track_at (wm_next w # wm_waypoints w) t = track_at (wm_next u # wm_waypoints u) t" if "now \<le> t" for t
        using track_at_later [of "wm_next w" p ps t] 1(2) Cons True that u by simp
      have "\<not> now < wp_time (wm_next w)" using 1(4) by simp
      from 1(1) [OF this Cons refl s, folded u_def, OF ih] eq step show ?thesis by auto
    next
      case False
      then have "wm_loop now True u = Some (Inr (True, u))" using u by (subst wm_loop.simps) simp
      with False 1(2,4) Cons step u show ?thesis by (intro disjI1 exI [of _ u]) auto
    qed
  qed
qed

lemma wm_Update_ok:
  assumes "wm_ok w" "0 \<le> now"
  obtains w' where "wm_Update now w = Some w'" "wm_ok w'" "wp_position (wm_current w') = track_at (wm_path w) now"
    "\<And>t. now \<le> t \<Longrightarrow> track_at (wm_path w') t = track_at (wm_path w) t"
proof -
  let ?c = "wm_current w" and ?n = "wm_next w"
  have srt: "in_time_order (wm_path w)" using assms by (simp add: wm_ok_def)
  consider "now < wp_time ?c" | "wp_time ?c \<le> now" "now < wp_time ?n" | "wp_time ?c \<le> now" "wp_time ?n < wp_time ?c"
    | "wp_time ?n \<le> now" "wp_time ?c \<le> wp_time ?n" by linarith
  then show thesis
  proof cases
    case 1
    then have "wm_Update now w = Some w" by (simp add: wm_Update_def)
    moreover have "track_at (wm_path w) now = wp_position ?c"
      using 1 assms by (auto simp: wm_path_def wm_ok_def track_at_head)
    ultimately show thesis using that [of w] assms by simp
  next
    case 2
    then have lt: "wp_time ?c < wp_time ?n" by simp
    define d where "d = \<lparr>wp_time = now, wp_position = wp_between ?c ?n now\<rparr>"
    have v: "wm_velocity w = wm_slope ?c ?n" using lt assms by (simp add: wm_ok_def)
    have path: "wm_path w = ?c # ?n # wm_waypoints w" using lt by (simp add: wm_path_def)
    have "wm_loop now False w = Some (Inr (False, w))" using 2 by (subst wm_loop.simps) simp
    moreover have "wp_time ?c = now \<Longrightarrow> w\<lparr>wm_current := d\<rparr> = w"
      using wp_between_start [of ?c ?n] by (cases w; cases ?c) (auto simp: d_def)
    ultimately have u: "wm_Update now w = Some (w\<lparr>wm_current := d\<rparr>)"
      using 2 v by (auto simp: wm_Update_def Let_def d_def wp_between_def)
    have path': "wm_path (w\<lparr>wm_current := d\<rparr>) = d # ?n # wm_waypoints w" using 2 by (simp add: wm_path_def d_def)
    have tr: "track_at (d # ?n # wm_waypoints w) t = track_at (?c # ?n # wm_waypoints w) t" if "now \<le> t" for t
      unfolding d_def by (rule track_at_advance [OF 2 that])
    have "in_time_order (d # ?n # wm_waypoints w)" using srt 2 by (auto simp: path d_def)
    then have "wm_ok (w\<lparr>wm_current := d\<rparr>)"
      using 2 v path' wm_slope_advance(1) [OF 2] by (simp add: wm_ok_def) (simp add: d_def)
    moreover have "wp_position d = track_at (wm_path w) now"
      using tr [of now] track_at_head [of now d "?n # wm_waypoints w"] unfolding path by (simp add: d_def del: track_at.simps)
    ultimately show thesis using that [OF u] tr by (simp add: path path')
  next
    case 3
    then have e: "wm_waypoints w = []" "wm_path w = [?c]" using assms by (simp_all add: wm_ok_def wm_path_def)
    have "wm_loop now False w = Some (Inl (wm_end now w))" using e(1) 3 by (subst wm_loop.simps) simp
    then have u: "wm_Update now w = Some (wm_end now w)" using 3 by (simp add: wm_Update_def)
    have "wm_path (wm_end now w) = [?c\<lparr>wp_time := now\<rparr>]" "wm_waypoints (wm_end now w) = []"
      using 3 e by (simp_all add: wm_end_def wm_path_def)
    moreover have "wm_ok (wm_end now w)" using 3 calculation by (simp add: wm_ok_def) (simp add: wm_end_def)
    moreover have "wp_position (wm_current (wm_end now w)) = wp_position ?c" using 3 by (simp add: wm_end_def)
    ultimately show thesis using that [OF u] e by simp
  next
    case 4
    have srt': "in_time_order (?n # wm_waypoints w)" using srt 4 by (auto simp: wm_path_def split: if_splits)
    have eq: "track_at (wm_path w) t = track_at (?n # wm_waypoints w) t" if "now \<le> t" for t
      using 4 that srt by (auto simp: wm_path_def split: if_splits intro!: track_at_later)
    have nc: "\<not> now < wp_time ?c" using 4 by simp
    from wm_loop_ok [OF srt' 4(2,1), of False] show thesis
    proof (elim disjE exE conjE)
      fix w' assume l: "wm_loop now False w = Some (Inr (True, w'))"
        and a: "in_time_order (wm_current w' # wm_next w' # wm_waypoints w')" "wp_time (wm_current w') \<le> now"
          "now < wp_time (wm_next w')" "wm_velocity w' = wm_slope (wm_current w') (wm_next w')"
          "\<forall>t \<ge> now. track_at (wm_current w' # wm_next w' # wm_waypoints w') t = track_at (?n # wm_waypoints w) t"
      define d where "d = \<lparr>wp_time = now, wp_position = wp_between (wm_current w') (wm_next w') now\<rparr>"
      define x where "x = wm_NotifyCourseChange (w'\<lparr>wm_current := d\<rparr>)"
      have "wp_time (wm_current w') = now \<Longrightarrow> w'\<lparr>wm_current := d\<rparr> = w'"
        using wp_between_start [of "wm_current w'" "wm_next w'"] by (cases w'; cases "wm_current w'") (auto simp: d_def)
      then have u: "wm_Update now w = Some x"
        using l nc a(2,4) by (auto simp: wm_Update_def Let_def x_def d_def wp_between_def)
      have x: "wm_current x = d" "wm_next x = wm_next w'" "wm_waypoints x = wm_waypoints w'" "wm_velocity x = wm_velocity w'"
        by (simp_all add: x_def wm_NotifyCourseChange_def)
      have path': "wm_path x = d # wm_next w' # wm_waypoints w'" using a(3) by (simp add: wm_path_def x) (simp add: d_def)
      have tr: "track_at (wm_path x) t = track_at (wm_path w) t" if "now \<le> t" for t
        using track_at_advance [OF a(2,3) that, folded d_def] a(5) eq [OF that] that by (simp add: path')
      have "in_time_order (d # wm_next w' # wm_waypoints w')" using a(1,3) by (auto simp: d_def)
      then have "wm_ok x"
        using a(3,4) path' wm_slope_advance(1) [OF a(2,3)] by (simp add: wm_ok_def x) (simp add: d_def)
      moreover have "wp_position (wm_current x) = track_at (wm_path w) now"
        using tr [of now] track_at_head [of now d "wm_next w' # wm_waypoints w'"] unfolding path' x by (simp add: d_def del: track_at.simps)
      ultimately show thesis using that [OF u] tr by blast
    next
      fix w' assume l: "wm_loop now False w = Some (Inl w')"
        and a: "wp_time (wm_current w') = now" "wp_time (wm_next w') < 0" "wm_waypoints w' = []"
          "\<forall>t \<ge> now. track_at (?n # wm_waypoints w) t = wp_position (wm_current w')"
      have u: "wm_Update now w = Some w'" using l nc by (simp add: wm_Update_def)
      have path': "wm_path w' = [wm_current w']" using a(1,2) assms(2) by (simp add: wm_path_def)
      have "wm_ok w'" using a(1,2,3) assms(2) path' by (simp add: wm_ok_def)
      moreover have "wp_position (wm_current w') = track_at (wm_path w) now" using a(4) eq by simp
      ultimately show thesis using that [OF u] a(4) eq by (simp add: path')
    qed
  qed
qed

text \<open>The calls of \<open>Update\<close> at a sequence of times, scheduled or from position queries.\<close>

primrec wm_Updates :: "int list \<Rightarrow> waypoint_mobility \<Rightarrow> waypoint_mobility option" where
  "wm_Updates [] w = Some w"
| "wm_Updates (t # ts) w = (case wm_Update t w of None \<Rightarrow> None | Some w' \<Rightarrow> wm_Updates ts w')"

lemma wm_Updates_ok:
  "wm_ok w \<Longrightarrow> sorted ts \<Longrightarrow> \<forall>t \<in> set ts. 0 \<le> t \<Longrightarrow>
     \<exists>w'. wm_Updates ts w = Some w' \<and> wm_ok w' \<and> (\<forall>t. (\<forall>s \<in> set ts. s \<le> t) \<longrightarrow> track_at (wm_path w') t = track_at (wm_path w) t)"
proof (induction ts arbitrary: w)
  case (Cons t ts)
  have "0 \<le> t" using Cons.prems(3) by simp
  from wm_Update_ok [OF Cons.prems(1) this] obtain w1 where w1: "wm_Update t w = Some w1" "wm_ok w1"
    "\<forall>s \<ge> t. track_at (wm_path w1) s = track_at (wm_path w) s" by metis
  from Cons.IH [OF w1(2)] Cons.prems(2,3) w1(1,3) show ?case by auto
qed simp

lemma AddWaypoints_next:
  assumes "\<not> wm_first w" "in_time_order (wm_waypoints w @ ps)" "\<forall>p \<in> set ps. now \<le> wp_time p"
  shows "\<exists>w'. AddWaypoints now ps w = Inr w' \<and> wm_waypoints w' = wm_waypoints w @ ps \<and> wm_current w' = wm_current w
    \<and> wm_next w' = wm_next w \<and> wm_velocity w' = wm_velocity w"
  using assms
proof (induction ps arbitrary: w)
  case (Cons p ps)
  have ng: "\<not> (wm_waypoints w \<noteq> [] \<and> wp_time p \<le> wp_time (last (wm_waypoints w)))"
  proof (cases "wm_waypoints w = []")
    case False
    then have "last (wm_waypoints w) \<in> set (wm_waypoints w)" by simp
    with Cons.prems(2) show ?thesis by (simp add: sorted_wrt_append not_le)
  qed simp
  obtain w1 where w1: "AddWaypoint now p w = Inr w1" "\<not> wm_first w1" "wm_waypoints w1 = wm_waypoints w @ [p]"
    "wm_current w1 = wm_current w" "wm_next w1 = wm_next w" "wm_velocity w1 = wm_velocity w"
    using Cons.prems(1,3) ng by (cases "wm_lazyNotify w") (auto simp: AddWaypoint_def abort_if_def)
  with Cons.IH [of w1] Cons.prems(2,3) show ?case by auto
qed simp

lemma AddWaypoints_ok:
  assumes "in_time_order (p # ps)" "now \<le> wp_time p"
  obtains w where "AddWaypoints now (p # ps) waypoint_mobility_new = Inr w" "wm_ok w" "wm_path w = p # ps"
proof -
  obtain w1 where w1: "AddWaypoint now p waypoint_mobility_new = Inr w1" "\<not> wm_first w1" "wm_waypoints w1 = []"
    "wm_current w1 = p" "wm_next w1 = p" "wm_velocity w1 = vec 0 0 0"
    using assms(2) by (auto simp: AddWaypoint_def waypoint_mobility_new_def abort_if_def)
  have "\<forall>q \<in> set ps. now \<le> wp_time q" using assms by (auto intro: less_imp_le order.strict_trans1)
  with AddWaypoints_next [OF w1(2), of ps now] assms(1) w1(3) obtain w where
    w: "AddWaypoints now ps w1 = Inr w" "wm_waypoints w = ps" "wm_current w = p" "wm_next w = p"
    using w1(4,5) by auto
  have "wm_path w = p # ps" using w by (simp add: wm_path_def)
  moreover have "wm_ok w" using assms w calculation by (simp add: wm_ok_def)
  ultimately show thesis using that w(1) w1(1) by simp
qed

text \<open>A waypoint whose time has passed is not added: the delay of its \<open>Update\<close> would be negative, which
  \<open>Schedule\<close> rejects.\<close>

lemma AddWaypoint_in_the_past:
  assumes "wp_time p < now" "\<not> wm_lazyNotify w"
  shows "\<exists>e. AddWaypoint now p w = Inl e"
  using assms by (auto simp: AddWaypoint_def abort_if_def)

text \<open>C18: a node to which, in increasing order of time, waypoints are added whose times have not passed is,
  at every time and whatever was asked for and updated before, where straight motion between the waypoints
  puts it: at the first one until its time and at the last one after it. Neither the assertion of
  \<open>Schedule\<close> on negative delays nor one of \<open>Update\<close> fails.\<close>

theorem waypoint_position:
  assumes "in_time_order (p # ps)" "now \<le> wp_time p" "sorted (ts @ [t])" "\<forall>s \<in> set (ts @ [t]). 0 \<le> s"
  shows "\<exists>w w' w''. AddWaypoints now (p # ps) waypoint_mobility_new = Inr w \<and> wm_Updates ts w = Some w'
    \<and> wm_DoGetPosition t w' = Some (track_at (p # ps) t, w'')"
proof -
  obtain w where w: "AddWaypoints now (p # ps) waypoint_mobility_new = Inr w" "wm_ok w" "wm_path w = p # ps"
    by (rule AddWaypoints_ok [OF assms(1,2)])
  have s: "sorted ts" "\<forall>s \<in> set ts. 0 \<le> s" "\<forall>s \<in> set ts. s \<le> t" "0 \<le> t" using assms(3,4) by (auto simp: sorted_append)
  from wm_Updates_ok [OF w(2) s(1,2)] obtain w' where w': "wm_Updates ts w = Some w'" "wm_ok w'"
    "track_at (wm_path w') t = track_at (wm_path w) t" using s(3) by blast
  obtain w'' where "wm_Update t w' = Some w''" "wp_position (wm_current w'') = track_at (wm_path w') t"
    by (rule wm_Update_ok [OF w'(2) s(4)]) blast
  with w w' show ?thesis by (auto simp: wm_DoGetPosition_def)
qed

theorem waypoint_position_witness:
  "\<exists>w w' w''. AddWaypoints 0 [\<lparr>wp_time = 0, wp_position = vec 0 0 0\<rparr>, \<lparr>wp_time = 2000000000, wp_position = vec 0 8 0\<rparr>]
      waypoint_mobility_new = Inr w \<and> wm_Updates [100, 200] w = Some w'
    \<and> wm_DoGetPosition 1000000000 w' = Some (vec 0 4 0, w'')"
  using waypoint_position [of "\<lparr>wp_time = 0, wp_position = vec 0 0 0\<rparr>" "[\<lparr>wp_time = 2000000000, wp_position = vec 0 8 0\<rparr>]"
      0 "[100, 200]" 1000000000]
  by (simp add: wp_between_def vec_advance_def wm_slope_def seconds_between_def Let_def del: AddWaypoints.simps)

section \<open>Static and pooled devices agree\<close>

lemma track_at_append:
  "in_time_order (qs @ a # ps) \<Longrightarrow> wp_time a \<le> t \<Longrightarrow> track_at (qs @ a # ps) t = track_at (a # ps) t"
proof (induction qs)
  case (Cons q qs)
  then have IH: "track_at (qs @ a # ps) t = track_at (a # ps) t" by simp
  show ?case
  proof (cases qs)
    case Nil
    with Cons.prems show ?thesis using track_at_later [of q a ps t] by simp
  next
    case (Cons b bs)
    have "wp_time b \<le> t" using Cons Cons.prems by auto
    then show ?thesis using IH Cons Cons.prems track_at_later [of q b "bs @ a # ps" t] by simp
  qed
qed simp

lemma track_at_butlast:
  "in_time_order (ps @ [p]) \<Longrightarrow> ps \<noteq> [] \<Longrightarrow> t \<le> wp_time (last ps) \<Longrightarrow> track_at (ps @ [p]) t = track_at ps t"
proof (induction ps)
  case (Cons a ps)
  then show ?case by (cases ps) auto
qed simp

lemma track_at_nth:
  "in_time_order ps \<Longrightarrow> k + 1 < length ps \<Longrightarrow> wp_time (ps ! k) \<le> t \<Longrightarrow> t < wp_time (ps ! (k + 1)) \<Longrightarrow>
     track_at ps t = wp_between (ps ! k) (ps ! (k + 1)) t"
proof (induction k arbitrary: ps)
  case 0
  then obtain a b qs where "ps = a # b # qs" by (cases ps; cases "tl ps") auto
  with 0 show ?case by (auto simp: wp_between_start intro: antisym)
next
  case (Suc k)
  then obtain a b qs where ps: "ps = a # b # qs" by (cases ps; cases "tl ps") auto
  have "wp_time b \<le> wp_time ((b # qs) ! k)"
    using Suc.prems(1,2) ps by (cases k) (auto intro!: less_imp_le)
  then have "wp_time b \<le> t" using Suc.prems(3) ps by simp
  with track_at_later [of a b qs t] Suc ps show ?case by simp
qed


lemma sorted_wrt_cons_last:
  "sorted_wrt (<) (map f (x # xs)) \<Longrightarrow> (f x :: 'a :: linorder) \<le> f (last (x # xs))"
  by (cases xs rule: rev_cases) auto

lemma installed_in_order:
  assumes "rows \<noteq> []" "sorted_wrt (<) (map (\<lambda>r. Seconds (row_timeS r)) rows)"
    "row_timeS (hd rows) = 0 \<or> 2 * waypointEpsS \<le> row_timeS (hd rows)"
  shows "in_time_order (installed_waypoints n rows)"
proof -
  let ?f = "row_timeS (hd rows)" and ?l = "row_timeS (last rows)"
  obtain r rs where rows: "rows = r # rs" using assms(1) by (cases rows) auto
  have eps: "Seconds x < Seconds (x + waypointEpsS)" for x
    using Seconds_eps_less [of x x] by (simp add: waypointEpsS_def kAssignmentEpsS_def)
  have mid: "in_time_order (map row_waypoint rows)"
    using assms(2) by (simp add: sorted_wrt_map row_waypoint_def)
  have all: "Seconds ?f \<le> Seconds (row_timeS x) \<and> Seconds (row_timeS x) \<le> Seconds ?l" if "x \<in> set rows" for x
  proof -
    from that obtain as bs where sp: "rows = as @ x # bs" by (auto simp: in_set_conv_decomp)
    have "Seconds (row_timeS x) \<le> Seconds ?l"
      using sorted_wrt_cons_last [of "\<lambda>r. Seconds (row_timeS r)" x bs] assms(2) by (simp add: sp sorted_wrt_append)
    moreover have "Seconds ?f \<le> Seconds (row_timeS x)" using assms(2) sp by (cases as) (auto simp: sorted_wrt_append)
    ultimately show ?thesis by simp
  qed
  have "in_time_order (map row_waypoint rows @ [\<lparr>wp_time = Seconds (?l + waypointEpsS), wp_position = q\<rparr>])" for q
    using mid all eps [of ?l] by (force simp: sorted_wrt_append row_waypoint_def)
  moreover have "Seconds (?f - waypointEpsS) < Seconds (row_timeS x)" "Seconds (?f - waypointEpsS) < Seconds (?l + waypointEpsS)"
    if "x \<in> set rows" for x
    using eps [of "?f - waypointEpsS"] all [OF that] eps [of ?l] by simp_all
  moreover have "Seconds 0 < Seconds (?f - waypointEpsS)" if "2 * waypointEpsS \<le> ?f"
    using that Seconds_eps_less [of 0 "?f - 2 * waypointEpsS"]
    by (simp add: waypointEpsS_def kAssignmentEpsS_def algebra_simps)
  ultimately show ?thesis
    using assms(3) rows by (force simp: installed_waypoints_def Let_def row_waypoint_def waypointEpsS_def)
qed

lemma row_waypoints_linear:
  assumes "rows \<noteq> []" "sorted_wrt (<) (map row_timeS rows)"
    "\<forall>r \<in> set rows. of_int (Seconds (row_timeS r)) = row_timeS r * 1000000000"
    "Seconds (row_timeS (hd rows)) \<le> t" "t \<le> Seconds (row_timeS (last rows))"
  shows "track_at (map row_waypoint rows) t
    = vec (linear_at row_xM rows (of_int t / 1000000000)) (linear_at row_yM rows (of_int t / 1000000000)) 0"
proof -
  define s where "s = real_of_int t / 1000000000"
  have exact: "row_timeS r \<le> s \<longleftrightarrow> Seconds (row_timeS r) \<le> t" "s < row_timeS r \<longleftrightarrow> t < Seconds (row_timeS r)"
    "row_timeS r < s \<longleftrightarrow> Seconds (row_timeS r) < t" if "r \<in> set rows" for r
  proof -
    have "row_timeS r = of_int (Seconds (row_timeS r)) / 1000000000" using assms(3) that by simp
    then show "row_timeS r \<le> s \<longleftrightarrow> Seconds (row_timeS r) \<le> t" "s < row_timeS r \<longleftrightarrow> t < Seconds (row_timeS r)"
      "row_timeS r < s \<longleftrightarrow> Seconds (row_timeS r) < t"
      unfolding s_def by (simp_all add: divide_le_cancel divide_less_cancel)
  qed
  have ends: "hd rows \<in> set rows" "last rows \<in> set rows" using assms(1) by simp_all
  have srt: "sorted (map row_timeS rows)" using assms(2) strict_sorted_iff by blast
  have mono: "in_time_order (map row_waypoint rows)"
  proof -
    have "sorted_wrt (\<lambda>a b. row_timeS a < row_timeS b) rows" using assms(2) by (simp add: sorted_wrt_map)
    then have "sorted_wrt (\<lambda>a b. Seconds (row_timeS a) < Seconds (row_timeS b)) rows"
    proof (rule sorted_wrt_mono_rel [rotated])
      fix a b assume "a \<in> set rows" "b \<in> set rows" "row_timeS a < row_timeS b"
      then have "real_of_int (Seconds (row_timeS a)) < of_int (Seconds (row_timeS b))" using assms(3) by simp
      then show "Seconds (row_timeS a) < Seconds (row_timeS b)" by simp
    qed
    then show ?thesis by (simp add: sorted_wrt_map row_waypoint_def)
  qed
  have span: "seconds_between (Seconds (row_timeS r)) t = s - row_timeS r"
    "seconds_between (Seconds (row_timeS r)) (Seconds (row_timeS r')) = row_timeS r' - row_timeS r"
    if "r \<in> set rows" "r' \<in> set rows" for r r'
    using assms(3) that by (simp_all add: seconds_between_def s_def diff_divide_distrib)
  obtain r rs where rows: "rows = r # rs" using assms(1) by (cases rows) auto
  consider "t = Seconds (row_timeS (hd rows))" | "Seconds (row_timeS (hd rows)) < t" "t = Seconds (row_timeS (last rows))"
    | "row_timeS (hd rows) < s" "s < row_timeS (last rows)"
    using assms(4,5) exact(3) [OF ends(1)] exact(2) [OF ends(2)] by fastforce
  then show ?thesis
  proof cases
    case 1
    then have "s \<le> row_timeS (hd rows)" using exact(3) [OF ends(1)] by (simp add: not_less)
    then have "linear_at f rows s = f r" for f by (simp add: linear_at_def rows)
    moreover have "track_at (map row_waypoint rows) t = wp_position (row_waypoint r)"
      using 1 track_at_head [of t "row_waypoint r" "map row_waypoint rs"] by (simp add: rows row_waypoint_def)
    ultimately show ?thesis by (simp add: s_def [symmetric] row_waypoint_def)
  next
    case 2
    then have "\<not> s \<le> row_timeS (hd rows)" "row_timeS (last rows) \<le> s" using exact [OF ends(1)] exact [OF ends(2)] by auto
    moreover have "track_at (map row_waypoint rows) t = wp_position (row_waypoint (last rows))"
      using track_at_last [of "row_waypoint r" "map row_waypoint rs" t] mono 2(2) last_map [of rows row_waypoint]
      by (simp add: rows row_waypoint_def)
    ultimately show ?thesis by (simp add: s_def [symmetric] linear_at_def row_waypoint_def)
  next
    case 3
    let ?j = "row_before rows s"
    have "0 < length rows" using assms(1) by simp
    from seek_row_before [OF srt this 3] have j: "?j + 1 < length rows" "row_timeS (rows ! ?j) \<le> s" "s < row_timeS (rows ! (?j + 1))"
      by auto
    have mem: "rows ! ?j \<in> set rows" "rows ! (?j + 1) \<in> set rows" using j(1) by simp_all
    have "track_at (map row_waypoint rows) t = wp_between (row_waypoint (rows ! ?j)) (row_waypoint (rows ! (?j + 1))) t"
      using track_at_nth [OF mono, of ?j t] j exact(1) [OF mem(1)] exact(2) [OF mem(2)] by (simp add: row_waypoint_def)
    also have "\<dots> = vec (linear_at row_xM rows s) (linear_at row_yM rows s) 0"
      using 3 span(1) [OF mem(1) mem(1)] span(2) [OF mem]
      by (simp add: wp_between_def wm_slope_def vec_advance_def row_waypoint_def linear_at_def Let_def mult.commute)
    finally show ?thesis by (simp add: s_def)
  qed
qed

lemma track_at_installed:
  assumes "rows \<noteq> []" "in_time_order (installed_waypoints n rows)"
    "Seconds (row_timeS (hd rows)) \<le> t" "t \<le> Seconds (row_timeS (last rows))"
  shows "track_at (installed_waypoints n rows) t = track_at (map row_waypoint rows) t"
proof -
  obtain r rs where rows: "rows = r # rs" using assms(1) by (cases rows) auto
  obtain pre z where ps: "installed_waypoints n rows = pre @ map row_waypoint rows @ [z]"
    by (simp add: installed_waypoints_def Let_def)
  have io: "in_time_order (pre @ row_waypoint r # map row_waypoint rs @ [z])" using assms(2) [unfolded ps] by (simp add: rows)
  have "track_at (installed_waypoints n rows) t = track_at (map row_waypoint rows @ [z]) t"
    using track_at_append [OF io, of t] assms(3) unfolding ps by (simp add: rows row_waypoint_def)
  also have "\<dots> = track_at (map row_waypoint rows) t"
  proof (rule track_at_butlast)
    show "in_time_order (map row_waypoint rows @ [z])" using assms(2) by (simp add: ps sorted_wrt_append)
    show "t \<le> wp_time (last (map row_waypoint rows))"
      using assms(1,4) by (simp add: last_map row_waypoint_def)
  qed (use assms(1) in simp)
  finally show ?thesis .
qed

text \<open>C11: a vehicle is at the same place at the same time whether it has a device of its own, which moves
  along waypoints, or a device of the pool, which interpolates the track, and whatever positions were
  asked for before on either: for a track whose times are whole nanoseconds, between its first and its
  last row.\<close>

theorem static_and_pool_positions_agree:
  assumes "rows \<noteq> []" "sorted_wrt (<) (map row_timeS rows)"
    "\<forall>r \<in> set rows. of_int (Seconds (row_timeS r)) = row_timeS r * 1000000000"
    "row_timeS (hd rows) = 0 \<or> 2 * waypointEpsS \<le> row_timeS (hd rows)"
    "mobility_AssignVehicle v (Some rows) m = Inr m'"
    "sorted (ts @ [t])" "\<forall>s \<in> set (ts @ [t]). 0 \<le> s"
    "Seconds (row_timeS (hd rows)) \<le> t" "t \<le> Seconds (row_timeS (last rows))"
  shows "\<exists>w w' w''. InstallWaypointMobility n rows = Inr w \<and> wm_Updates ts w = Some w'
    \<and> wm_DoGetPosition t w' = Some (fst (InterpolatePosition (of_int t / 1000000000) (fold query_mobility qs m')), w'')"
proof -
  have srt: "sorted (map row_timeS rows)" using assms(2) strict_sorted_iff by blast
  have "sorted_wrt (\<lambda>a b. row_timeS a < row_timeS b) rows" using assms(2) by (simp add: sorted_wrt_map)
  then have "sorted_wrt (\<lambda>a b. Seconds (row_timeS a) < Seconds (row_timeS b)) rows"
  proof (rule sorted_wrt_mono_rel [rotated])
    fix a b assume "a \<in> set rows" "b \<in> set rows" "row_timeS a < row_timeS b"
    then have "real_of_int (Seconds (row_timeS a)) < of_int (Seconds (row_timeS b))" using assms(3) by simp
    then show "Seconds (row_timeS a) < Seconds (row_timeS b)" by simp
  qed
  then have "sorted_wrt (<) (map (\<lambda>r. Seconds (row_timeS r)) rows)" by (simp add: sorted_wrt_map)
  from installed_in_order [OF assms(1) this assms(4), of n] have io: "in_time_order (installed_waypoints n rows)" .
  obtain p ps where ps: "installed_waypoints n rows = p # ps"
    using assms(1) by (cases "installed_waypoints n rows") (auto simp: installed_waypoints_def Let_def)
  have first: "0 \<le> wp_time p"
    using ps assms(1,4) by (cases rows) (auto simp: installed_waypoints_def Let_def row_waypoint_def Seconds_def llround_def waypointEpsS_def split: if_splits)
  have "track_at (p # ps) t = vec (linear_at row_xM rows (of_int t / 1000000000)) (linear_at row_yM rows (of_int t / 1000000000)) 0"
    using track_at_installed [OF assms(1) io assms(8,9)] row_waypoints_linear [OF assms(1-3,8,9)] ps by simp
  moreover have "fst (InterpolatePosition (of_int t / 1000000000) (fold query_mobility qs m'))
      = vec (linear_at row_xM rows (of_int t / 1000000000)) (linear_at row_yM rows (of_int t / 1000000000)) 0"
    using Interpolate_track(1) fold_query_mobility [OF mobility_AssignVehicle_ok [OF assms(5) srt], of qs] by blast
  moreover obtain w where w: "AddWaypoints 0 (p # ps) waypoint_mobility_new = Inr w" "wm_ok w" "wm_path w = p # ps"
    using AddWaypoints_ok [of p ps 0] io ps first by auto
  moreover have s: "sorted ts" "\<forall>s \<in> set ts. 0 \<le> s" "\<forall>s \<in> set ts. s \<le> t" "0 \<le> t" using assms(6,7) by (auto simp: sorted_append)
  moreover obtain w' where w': "wm_Updates ts w = Some w'" "wm_ok w'" "track_at (wm_path w') t = track_at (wm_path w) t"
    using wm_Updates_ok [OF w(2) s(1,2)] s(3) by blast
  moreover obtain w'' where "wm_Update t w' = Some w''" "wp_position (wm_current w'') = track_at (wm_path w') t"
    by (rule wm_Update_ok [OF w'(2) s(4)]) blast
  ultimately show ?thesis
    using assms(1) ps by (auto simp: InstallWaypointMobility_def wm_DoGetPosition_def)
qed

theorem static_and_pool_positions_agree_witness:
  "\<exists>m' w w' w''. mobility_AssignVehicle 1 (Some [sample_row 1 1 0, sample_row 11 1 50]) pool_mobility_new = Inr m'
    \<and> InstallWaypointMobility 0 [sample_row 1 1 0, sample_row 11 1 50] = Inr w \<and> wm_Updates [7, 2000000000] w = Some w'
    \<and> wm_DoGetPosition 5000000000 w' = Some (fst (InterpolatePosition 5 (fold query_mobility [(True, 9)] m')), w'')"
proof -
  obtain m' where m': "mobility_AssignVehicle 1 (Some [sample_row 1 1 0, sample_row 11 1 50]) pool_mobility_new = Inr m'"
    by (simp add: mobility_AssignVehicle_def)
  have S: "Seconds 1 = 1000000000" "Seconds 11 = 11000000000" by (simp_all add: Seconds_def llround_def)
  show ?thesis
    using static_and_pool_positions_agree [OF _ _ _ _ m', of "[7, 2000000000]" 5000000000 0 "[(True, 9)]"] m'
    by (simp add: sample_row_def S waypointEpsS_def del: wm_Updates.simps)
qed

text \<open>\<open>EndMobility\<close> does not stop a node where it is. It means to set the time of the current waypoint to
  infinity, but an integer type has no infinity and the time becomes 0; the next update then takes the
  waypoint to which the node was moving for the last one, and the node jumps there.\<close>

theorem EndMobility_jumps:
  assumes "0 \<le> now"
  shows "\<exists>w'. wm_DoGetPosition now (EndMobility w) = Some (wp_position (wm_next w), w')"
proof -
  have "wm_loop now False (EndMobility w) = Some (Inl (wm_end now (EndMobility w)))"
    using assms by (subst wm_loop.simps) (simp add: EndMobility_def)
  with assms have "wm_Update now (EndMobility w) = Some (wm_end now (EndMobility w))"
    by (simp add: wm_Update_def EndMobility_def)
  moreover have "wp_position (wm_current (wm_end now (EndMobility w))) = wp_position (wm_next w)"
    by (simp add: wm_end_def wm_NotifyCourseChange_def EndMobility_def)
  ultimately show ?thesis by (simp add: wm_DoGetPosition_def)
qed

text \<open>A node half way from (0, 0) to (0, 8) that is told to end its movement.\<close>

definition half_way :: waypoint_mobility where
  "half_way = waypoint_mobility_new\<lparr>wm_first := False,
     wm_current := \<lparr>wp_time = 1000000000, wp_position = vec 0 4 0\<rparr>,
     wm_next := \<lparr>wp_time = 2000000000, wp_position = vec 0 8 0\<rparr>, wm_velocity := vec 0 4 0\<rparr>"

theorem EndMobility_jumps_witness:
  "wp_position (wm_current half_way) = vec 0 4 0
   \<and> (\<exists>w'. wm_DoGetPosition 1000000000 (EndMobility half_way) = Some (vec 0 8 0, w'))"
  using EndMobility_jumps [of 1000000000 half_way] by (simp add: half_way_def)

end
