(* ===== verification/Scenario.thy ===== *)
theory Scenario
  imports DeepcBridge WaypointMobility
begin

text \<open>
  The function \<open>main\<close> of the closed-loop program, up to \<open>Simulator::Run()\<close>: the command line options and
  their checks, the choice of the core region and of the vehicles, the devices with their mobility, the
  loggers, the applications, and what is scheduled before the run.

  The set-up of the NR stack is third-party code. Its result is the list of devices, one per node, an
  argument like the contents of the files, the addresses of the nodes and whether the output files
  could be opened. What the evaluation filter reads during the run, the tables and the positions at a
  time, is the argument \<open>env_world\<close>. An option that the code marks as not given by NaN is \<open>None\<close>.
\<close>

section \<open>Options\<close>

record scenario_options =
  op_simTimeSeconds :: double
  op_warmupS :: double
  op_cooldownS :: double
  op_port :: u16
  op_useInputSchedule :: bool
  op_etsiCamGeneration :: bool
  op_fixedBeaconIntervalS :: double
  op_txPower :: double
  op_slBitMap :: string
  op_slProbResourceKeep :: double
  op_awarenessRangeM :: double
  op_kpiWindowS :: double
  op_sampleTimeS :: double
  op_dynamicActivePool :: bool
  op_physicalUePoolSize :: u32
  op_maxVehicles :: u32
  op_enableCoreFilter :: bool
  op_coreAxis :: string
  op_coreGuardBandM :: double
  op_coreMin :: "double option"
  op_coreMax :: "double option"
  op_requireFullDataCoverage :: bool
  op_validateOnly :: bool
  op_enableDeepcBridge :: bool
  op_deepcBridgeDir :: string
  op_deepcControlIntervalS :: double
  op_deepcPastHorizon :: u32
  op_deepcFutureHorizon :: u32
  op_deepcResponseTimeoutS :: double
  op_minTxPowerDbm :: double
  op_maxTxPowerDbm :: double

definition kMaxPhysicalUePoolSize :: u32 where
  "kMaxPhysicalUePoolSize = 250"

definition default_options :: scenario_options where
  "default_options =
     \<lparr>op_simTimeSeconds = 300, op_warmupS = 10, op_cooldownS = 10, op_port = 8000, op_useInputSchedule = False,
      op_etsiCamGeneration = False, op_fixedBeaconIntervalS = 1 / 10, op_txPower = 20,
      op_slBitMap = ''1|1|1|1|1|1|0|0|0|1|1|1'', op_slProbResourceKeep = 0, op_awarenessRangeM = 200,
      op_kpiWindowS = 1, op_sampleTimeS = 1 / 2, op_dynamicActivePool = True,
      op_physicalUePoolSize = kMaxPhysicalUePoolSize, op_maxVehicles = 0, op_enableCoreFilter = True,
      op_coreAxis = ''auto'', op_coreGuardBandM = 120, op_coreMin = None, op_coreMax = None,
      op_requireFullDataCoverage = True, op_validateOnly = False, op_enableDeepcBridge = True,
      op_deepcBridgeDir = ''data/output/deepc_closed_loop_txpower/bridge'', op_deepcControlIntervalS = 1 / 2,
      op_deepcPastHorizon = 20, op_deepcFutureHorizon = 10, op_deepcResponseTimeoutS = 900,
      op_minTxPowerDbm = 10, op_maxTxPowerDbm = 23\<rparr>"

definition check_options :: "scenario_options \<Rightarrow> unit result" where
  "check_options op =
     and_then (abort_if (\<bar>op_kpiWindowS op - 1\<bar> > 1 / 1000000000)
       ''CBR window is fixed by the experiment definition: kpiWindow must be 1.0 s'') (\<lambda>_.
     and_then (abort_if (op_warmupS op < 0 \<or> op_cooldownS op < 0) ''warmup and cooldown must be non-negative'') (\<lambda>_.
     and_then (abort_if (op_warmupS op + op_cooldownS op \<ge> op_simTimeSeconds op)
       ''warmup + cooldown must be smaller than simTime'') (\<lambda>_.
     and_then (abort_if (\<not> op_enableDeepcBridge op)
       ''This executable is the closed-loop runner; enableDeepcBridge must be true'') (\<lambda>_.
     and_then (abort_if (op_useInputSchedule op) ''Closed-loop DeePC requires useInputSchedule=false'') (\<lambda>_.
     and_then (abort_if (op_etsiCamGeneration op)
       ''Tx-power DeePC requires fixed CAM generation: etsiCamGeneration=false'') (\<lambda>_.
     and_then (abort_if (\<bar>op_fixedBeaconIntervalS op - 1 / 10\<bar> > 1 / 1000000000)
       ''Tx-power DeePC keeps fixedBeaconInterval at 0.1 s'') (\<lambda>_.
     and_then (abort_if (\<bar>op_sampleTimeS op - 1 / 2\<bar> > 1 / 1000000000 \<or>
                         \<bar>op_deepcControlIntervalS op - op_sampleTimeS op\<bar> > 1 / 1000000000)
       ''Training alignment requires sampleTime=deepcControlInterval=0.5 s'') (\<lambda>_.
     and_then (abort_if (op_deepcPastHorizon op \<noteq> 20 \<or> op_deepcFutureHorizon op \<noteq> 10)
       ''This controller dataset requires Tini=20 and N=10'') (\<lambda>_.
     and_then (abort_if (op_deepcResponseTimeoutS op \<le> 0) ''deepcResponseTimeout must be positive'') (\<lambda>_.
     abort_if (op_minTxPowerDbm op \<ge> op_maxTxPowerDbm op \<or> op_txPower op < op_minTxPowerDbm op \<or>
               op_txPower op > op_maxTxPowerDbm op)
       ''Initial/minimum/maximum Tx power values are inconsistent''))))))))))"

section \<open>The core region and the vehicles\<close>

definition core_bounds :: "scenario_options \<Rightarrow> double \<Rightarrow> double \<Rightarrow> (double \<times> double) result" where
  "core_bounds op studyMin studyMax =
     (let mn = (case op_coreMin op of None \<Rightarrow> studyMin + op_coreGuardBandM op | Some v \<Rightarrow> v);
          mx = (case op_coreMax op of None \<Rightarrow> studyMax - op_coreGuardBandM op | Some v \<Rightarrow> v);
          (coreMin, coreMax) = (if mn > mx then (mx, mn) else (mn, mx))
      in and_then (abort_if (op_enableCoreFilter op \<and> coreMin \<ge> coreMax)
           ''Invalid core region. Reduce coreGuardBand or set coreMin/coreMax.'') (\<lambda>_.
         Inr (coreMin, coreMax)))"

record selection =
  sl_coreAxis :: string
  sl_coreMin :: double
  sl_coreMax :: double
  sl_vehicleIds :: "u32 list"
  sl_physicalUeCount :: u32

definition evalStartS :: "scenario_options \<Rightarrow> double" where
  "evalStartS op = op_warmupS op"

definition evalEndS :: "scenario_options \<Rightarrow> double" where
  "evalEndS op = op_simTimeSeconds op - op_cooldownS op"

definition select_vehicles :: "scenario_options \<Rightarrow> mobility_map \<Rightarrow> u32 list" where
  "select_vehicles op mob =
     (let vehicleIds = sort (map fst mob)
      in if op_maxVehicles op > 0 \<and> unat (op_maxVehicles op) < length vehicleIds
         then take (unat (op_maxVehicles op)) vehicleIds else vehicleIds)"

definition physical_ue_count :: "scenario_options \<Rightarrow> u32 list \<Rightarrow> u32" where
  "physical_ue_count op vehicleIds =
     (if op_dynamicActivePool op then min (op_physicalUePoolSize op) (of_nat (length vehicleIds))
      else of_nat (length vehicleIds))"

definition select_scenario :: "scenario_options \<Rightarrow> mobility_map \<Rightarrow> input_command list \<Rightarrow> selection result" where
  "select_scenario op mob sched =
     and_then (ResolveCoreAxis mob (op_coreAxis op)) (\<lambda>coreAxis.
     and_then (ComputeStudyBounds mob coreAxis) (\<lambda>(studyMin, studyMax).
     and_then (core_bounds op studyMin studyMax) (\<lambda>(coreMin, coreMax).
     let vehicleIds = select_vehicles op mob;
         peakCounts =
           ComputePeakActiveCountsForVehicles mob vehicleIds (op_enableCoreFilter op) coreAxis coreMin coreMax;
         physicalUeCount = physical_ue_count op vehicleIds
     in
     and_then (abort_if (vehicleIds = []) ''No logical vehicles selected from mobility CSV'') (\<lambda>_.
     and_then (abort_if (op_dynamicActivePool op \<and> op_physicalUePoolSize op = 0)
       ''physicalUePoolSize must be greater than zero when dynamicActivePool=true'') (\<lambda>_.
     and_then (abort_if (op_dynamicActivePool op \<and> op_physicalUePoolSize op > kMaxPhysicalUePoolSize)
       ''physicalUePoolSize too large for this experiment'') (\<lambda>_.
     and_then (abort_if (op_dynamicActivePool op \<and> fst peakCounts > physicalUeCount)
       ''Dynamic active pool exhausted by input data before simulation start'') (\<lambda>_.
     and_then (ValidateTenMinuteDataCoverage mob sched (op_simTimeSeconds op) (evalStartS op) (evalEndS op)
                 (op_useInputSchedule op) (op_requireFullDataCoverage op) vehicleIds) (\<lambda>_.
     Inr \<lparr>sl_coreAxis = coreAxis, sl_coreMin = coreMin, sl_coreMax = coreMax, sl_vehicleIds = vehicleIds,
          sl_physicalUeCount = physicalUeCount\<rparr>))))))))"

section \<open>Devices and mobility\<close>

text \<open>What \<open>main\<close> has set up when the run begins. \<open>wo_apps\<close> are the applications of the nodes; those
  that are also registered in \<open>g_apps\<close> are \<open>pl_apps\<close> of the pool.\<close>

record app_schedule =
  ap_startTime :: int
  ap_stopTime :: int

datatype main_event =
    CbrSampleEvent
  | PoolEvent pool_event
  | InputEvent double double
  | KpiSampleEvent
  | BridgeStepEvent input_command u32
  | StopEvent

record world =
  wo_pool :: pool
  wo_waypoints :: "u32 \<rightharpoonup> waypoint_mobility"
  wo_devices :: ue_devices
  wo_cbr :: cbr_logger
  wo_kpi :: kpi_logger
  wo_bridge :: deepc_bridge
  wo_apps :: "u32 \<rightharpoonup> cam_app"
  wo_appSchedule :: "u32 \<rightharpoonup> app_schedule"
  wo_events :: "(int \<times> main_event) list"

record environment =
  env_sort :: "mobility_row list \<Rightarrow> mobility_row list"
  env_mobilityFile :: "string option"
  env_inputFile :: "string option"
  env_devices :: "u32 list \<Rightarrow> ue_devices"
  env_lte_source :: "u32 \<Rightarrow> u32"
  env_address :: "u32 \<Rightarrow> u32"
  env_world :: "double \<Rightarrow> node_tables \<times> (u32 \<Rightarrow> vec3)"
  env_cbrOpened :: bool
  env_kpiOpened :: bool
  env_appliedOpened :: bool
  env_timingOpened :: bool
  env_genMax :: int
  env_genMin :: int

text \<open>Nodes are numbered in the order of their creation.\<close>

definition node_ids :: "u32 \<Rightarrow> u32 list" where
  "node_ids n = map of_nat [0..<unat n]"

primrec static_add_nodes :: "(u32 \<times> u32) list \<Rightarrow> pool \<times> (u32 \<rightharpoonup> waypoint_mobility) \<Rightarrow> (pool \<times> (u32 \<rightharpoonup> waypoint_mobility)) result" where
  "static_add_nodes [] w = Inr w"
| "static_add_nodes (x # xs) w =
     (let (nodeId, vehicleId) = x; (p, ways) = w; rows = omap_get [] (pl_mobility p) vehicleId; nt = pl_tables p in
      and_then (ComputeMobilityTimeRange rows) (\<lambda>range.
      and_then (InstallWaypointMobility nodeId rows) (\<lambda>mob.
      static_add_nodes xs
        (p\<lparr>pl_tables := nt\<lparr>nt_vehicleToNode := (nt_vehicleToNode nt)(vehicleId \<mapsto> nodeId),
                          nt_nodeToVehicle := (nt_nodeToVehicle nt)(nodeId \<mapsto> vehicleId),
                          nt_activeRange := (nt_activeRange nt)(nodeId \<mapsto> range)\<rparr>\<rparr>,
         ways(nodeId \<mapsto> mob)))))"

definition static_pool :: "mobility_map \<Rightarrow> pool" where
  "static_pool mob =
     \<lparr>pl_mobility = mob,
      pl_tables = \<lparr>nt_vehicleToNode = Map.empty, nt_nodeToVehicle = Map.empty,
                   nt_activeRange = Map.empty, nt_dynamic = False\<rparr>,
      pl_poolMobility = Map.empty, pl_free = [], pl_active = {}, pl_apps = Map.empty\<rparr>"

definition create_nodes ::
    "scenario_options \<Rightarrow> mobility_map \<Rightarrow> selection \<Rightarrow> (pool \<times> (u32 \<rightharpoonup> waypoint_mobility)) result" where
  "create_nodes op mob sel =
     (let nodes = node_ids (sl_physicalUeCount sel)
      in if op_dynamicActivePool op
         then and_then (AssignInitialDynamicPoolVehicles 0 (sl_vehicleIds sel) (pool_setup mob nodes)) (\<lambda>p.
                Inr (p, Map.empty))
         else static_add_nodes (zip nodes (sl_vehicleIds sel)) (static_pool mob, Map.empty))"

text \<open>The parts of the sidelink configuration that can fail, between the two assignments of source ids.\<close>

definition configure_devices :: "environment \<Rightarrow> scenario_options \<Rightarrow> u32 list \<Rightarrow> ue_devices result" where
  "configure_devices env op nodes =
     and_then (AssignDeterministicSourceL2Ids (env_lte_source env) (env_devices env nodes)) (\<lambda>devs.
     and_then (GetSlBitmapFromString (op_slBitMap op) []) (\<lambda>slBitMapVector.
     and_then (abort_if (slBitMapVector = []) ''Failed to generate sidelink bitmap'') (\<lambda>_.
     and_then (abort_if (\<not> op_slProbResourceKeep op \<le> 1) ''slProbResourceKeep must be in [0,1]'') (\<lambda>_.
     AssignDeterministicSourceL2Ids (env_lte_source env) devs))))"

section \<open>Loggers and applications\<close>

definition evaluation_filter ::
    "scenario_options \<Rightarrow> selection \<Rightarrow> u32 list \<Rightarrow> node_tables \<Rightarrow> (u32 \<Rightarrow> vec3) \<Rightarrow> u32 \<Rightarrow> double \<Rightarrow> bool" where
  "evaluation_filter op sel nodes nt pos nodeId timeS =
     (if \<not> IsNodeActiveAtTime nt nodeId timeS then False
      else if \<not> op_enableCoreFilter op then True
      else if nodeId \<notin> set nodes then False
      else IsInsideCoreRegion (GetCoreCoordinate (pos nodeId) (sl_coreAxis sel)) (sl_coreMin sel) (sl_coreMax sel))"

definition configure_cbr :: "environment \<Rightarrow> scenario_options \<Rightarrow> selection \<Rightarrow> u32 list \<Rightarrow> cbr_logger result" where
  "configure_cbr env op sel nodes =
     and_then (cbr_Setup (env_cbrOpened env) (op_kpiWindowS op) (op_sampleTimeS op) cbr_logger_new) (\<lambda>c.
       Inr (cbr_SetNodeEvaluationFilter
              (\<lambda>nodeId timeS. evaluation_filter op sel nodes (fst (env_world env timeS)) (snd (env_world env timeS)) nodeId timeS)
              (cbr_SetEvaluatedNodeIds nodes (cbr_SetEvaluationWindow (evalStartS op) (evalEndS op) c))))"

definition configure_kpi :: "environment \<Rightarrow> scenario_options \<Rightarrow> selection \<Rightarrow> u32 list \<Rightarrow> kpi_logger result" where
  "configure_kpi env op sel nodes =
     and_then (kpi_Configure nodes True (env_kpiOpened env) (op_awarenessRangeM op) (op_kpiWindowS op) (op_sampleTimeS op)
                 (evalStartS op) (evalEndS op) (op_enableCoreFilter op) (sl_coreAxis sel) (sl_coreMin sel) (sl_coreMax sel)
                 kpi_logger_new) (\<lambda>k.
       Inr (SetCurrentInputs (op_txPower op) (op_fixedBeaconIntervalS op)
              (fold (\<lambda>n. RegisterNodeIpv4 n (env_address env n)) nodes k)))"

definition groupAddress4 :: u32 where
  "groupAddress4 = 0xE1000000"

definition new_app :: "environment \<Rightarrow> scenario_options \<Rightarrow> u32 \<Rightarrow> cam_app" where
  "new_app env op nodeId =
     SetBeaconInterval (op_fixedBeaconIntervalS op)
       (SetEtsiCamGeneration (op_etsiCamGeneration op)
         (cam_Setup nodeId groupAddress4 (op_port op) (cam_app_new (env_genMax env) (env_genMin env))))"

definition appEarliestStartS :: double where
  \<comment> \<open>\<open>(slBearersActivationTime + camApplicationStartDelay).GetSeconds()\<close>\<close>
  "appEarliestStartS = 2 + 2 / 10"

definition app_schedule_new :: app_schedule where
  "app_schedule_new = \<lparr>ap_startTime = 0, ap_stopTime = 0\<rparr>"

definition install_app :: "environment \<Rightarrow> scenario_options \<Rightarrow> u32 \<Rightarrow> world \<Rightarrow> world" where
  "install_app env op nodeId w =
     (let nt = pl_tables (wo_pool w); v = ResolveVehicleIdForNode nt nodeId;
          a = new_app env op nodeId;
          app = (if v \<noteq> kInvalidVehicleId then cam_AssignVehicle v a else a);
          activeRange = (case nt_activeRange nt nodeId of None \<Rightarrow> (0, 0) | Some r \<Rightarrow> r);
          (appStartS, appStopS) =
            (if op_dynamicActivePool op then (appEarliestStartS, op_simTimeSeconds op)
             else (max appEarliestStartS (fst activeRange), min (op_simTimeSeconds op) (snd activeRange)));
          w' = w\<lparr>wo_apps := (wo_apps w)(nodeId \<mapsto> app)\<rparr>
      in if op_dynamicActivePool op \<or> appStopS > appStartS
         then w'\<lparr>wo_appSchedule := (wo_appSchedule w)(nodeId \<mapsto> \<lparr>ap_startTime = Seconds appStartS, ap_stopTime = Seconds appStopS\<rparr>),
                 wo_pool := (wo_pool w)\<lparr>pl_apps := (pl_apps (wo_pool w))(nodeId \<mapsto> app)\<rparr>\<rparr>
         else w'\<lparr>wo_appSchedule := (wo_appSchedule w)(nodeId \<mapsto> app_schedule_new)\<rparr>)"

text \<open>\<open>Application::DoInitialize\<close>, at time 0: the times at which an application is started and, if it is
  ever, stopped.\<close>

definition app_DoInitialize :: "app_schedule \<Rightarrow> int \<times> int option" where
  "app_DoInitialize s = (ap_startTime s, if ap_stopTime s \<noteq> 0 then Some (ap_stopTime s) else None)"

section \<open>The whole set-up\<close>

definition initial_input :: "scenario_options \<Rightarrow> input_command" where
  "initial_input op = \<lparr>in_timeS = evalStartS op, in_txPowerDbm = op_txPower op, in_beaconIntervalS = op_fixedBeaconIntervalS op\<rparr>"

definition schedule_run :: "scenario_options \<Rightarrow> mobility_map \<Rightarrow> input_command list \<Rightarrow> selection \<Rightarrow> (int \<times> main_event) list result" where
  "schedule_run op mob sched sel =
     and_then (if op_dynamicActivePool op
               then and_then (ScheduleDynamicPoolAssignments 0 (op_simTimeSeconds op) mob (sl_vehicleIds sel)) (\<lambda>evs.
                      Inr (map (\<lambda>(t, e). (t, PoolEvent e)) evs))
               else Inr []) (\<lambda>pool_events.
     Inr (pool_events
          @ (if op_useInputSchedule op then map (\<lambda>(t, p, tb). (t, InputEvent p tb)) (ScheduleInputUpdates sched) else [])
          @ [(Seconds (op_sampleTimeS op), KpiSampleEvent),
             (Seconds (evalStartS op + op_sampleTimeS op + 1 / 1000000), BridgeStepEvent (initial_input op) 0),
             (Seconds (op_simTimeSeconds op), StopEvent)]))"

definition prepare_world ::
    "environment \<Rightarrow> scenario_options \<Rightarrow> mobility_map \<Rightarrow> input_command list \<Rightarrow> selection \<Rightarrow> world result" where
  "prepare_world env op mob sched sel =
     (let nodes = node_ids (sl_physicalUeCount sel) in
      and_then (create_nodes op mob sel) (\<lambda>(pool, ways).
      and_then (configure_devices env op nodes) (\<lambda>devs.
      and_then (configure_cbr env op sel nodes) (\<lambda>cbr.
      and_then (configure_kpi env op sel nodes) (\<lambda>kpi.
      and_then (ApplyTxPowerToAllUes (op_txPower op) devs) (\<lambda>devs'.
      let w = fold (install_app env op) nodes
            \<lparr>wo_pool = pool, wo_waypoints = ways, wo_devices = devs', wo_cbr = cbr, wo_kpi = kpi,
             wo_bridge = deepc_bridge_new, wo_apps = Map.empty, wo_appSchedule = Map.empty,
             wo_events = (case cbr_Start cbr of None \<Rightarrow> [] | Some d \<Rightarrow> [(Seconds d, CbrSampleEvent)])\<rparr> in
      and_then (schedule_run op mob sched sel) (\<lambda>evs.
      and_then (bridge_Configure (op_deepcBridgeDir op) (op_deepcPastHorizon op) (op_deepcFutureHorizon op)
                  (op_deepcResponseTimeoutS op) (op_minTxPowerDbm op) (op_maxTxPowerDbm op)
                  (op_fixedBeaconIntervalS op) (env_appliedOpened env) (env_timingOpened env) deepc_bridge_new) (\<lambda>bridge.
      Inr (w\<lparr>wo_bridge := bridge, wo_events := wo_events w @ evs\<rparr>)))))))))"

datatype outcome =
    Validated "double \<times> double" "(double \<times> double) option"
  | Prepared world

definition main_setup :: "environment \<Rightarrow> scenario_options \<Rightarrow> outcome result" where
  "main_setup env op =
     and_then (check_options op) (\<lambda>_.
     and_then (LoadMobilityCsv (env_sort env) (env_mobilityFile env) []) (\<lambda>mob.
     and_then (if op_useInputSchedule op then LoadInputScheduleCsv (env_inputFile env) [] else Inr []) (\<lambda>sched.
     and_then (select_scenario op mob sched) (\<lambda>sel.
     if op_validateOnly op
     then and_then (ComputeMobilityTimeRangeForVehicles mob (sl_vehicleIds sel)) (\<lambda>range.
          if op_useInputSchedule op
          then and_then (ComputeInputScheduleTimeRange sched) (\<lambda>r. Inr (Validated range (Some r)))
          else Inr (Validated range None))
     else and_then (prepare_world env op mob sched sel) (\<lambda>w. Inr (Prepared w))))))"

section \<open>The core region\<close>

text \<open>C37: a guard band wider than half of the corridor is not rejected. The bounds are exchanged before they
  are compared, so the check that should tell the user to reduce the guard band can only fire when the
  bounds are equal; with a guard band at least as wide as the corridor the "core" contains all of it, and
  the filter that should exclude the edges lets every vehicle of the study region pass.\<close>

theorem inverted_core_region_accepted:
  assumes "op_coreMin op = None" "op_coreMax op = None" "studyMax - studyMin < 2 * op_coreGuardBandM op"
  shows "core_bounds op studyMin studyMax = Inr (studyMax - op_coreGuardBandM op, studyMin + op_coreGuardBandM op)
    \<and> (studyMax - studyMin \<le> op_coreGuardBandM op \<longrightarrow> (\<forall>c. studyMin \<le> c \<and> c \<le> studyMax \<longrightarrow>
         IsInsideCoreRegion c (studyMax - op_coreGuardBandM op) (studyMin + op_coreGuardBandM op)))"
  using assms by (auto simp: core_bounds_def abort_if_def IsInsideCoreRegion_def)

theorem inverted_core_region_accepted_witness:
  "core_bounds default_options 0 100 = Inr (- 20, 120) \<and> IsInsideCoreRegion 0 (- 20) 120"
  using inverted_core_region_accepted [of default_options 100 0] by (simp add: default_options_def)

section \<open>Applications\<close>

text \<open>C34: with a device per vehicle, an application whose vehicle has left before the bearers are active is
  meant to be left out, and its start and stop times are not set; but it is installed on the node, and the
  times that were not set mean "start at 0" and "never stop": the vehicle is assigned to it, it is started at
  time 0 and sends messages for the whole run.\<close>

theorem departed_vehicle_app_never_stops:
  assumes "\<not> op_dynamicActivePool op" "nt_activeRange (pl_tables (wo_pool w)) nodeId = Some (first, gone)"
    "gone \<le> appEarliestStartS" "ResolveVehicleIdForNode (pl_tables (wo_pool w)) nodeId = v" "v \<noteq> kInvalidVehicleId"
  shows "\<exists>app sch. wo_apps (install_app env op nodeId w) nodeId = Some app
    \<and> wo_appSchedule (install_app env op nodeId w) nodeId = Some sch \<and> app_DoInitialize sch = (0, None)
    \<and> (\<exists>started. StartApplication True True app = Inr started \<and> ca_disseminating started \<and> ca_assignedVehicleId started = v)"
proof -
  let ?a = "new_app env op nodeId"
  have late: "\<not> min (op_simTimeSeconds op) gone > max appEarliestStartS first" using assms(3) by simp
  have w: "wo_apps (install_app env op nodeId w) nodeId = Some (cam_AssignVehicle v ?a)"
    "wo_appSchedule (install_app env op nodeId w) nodeId = Some app_schedule_new"
    using assms late by (simp_all add: install_app_def Let_def)
  have a: "\<not> ca_running ?a" "\<not> ca_disseminating ?a"
    by (simp_all add: new_app_def SetBeaconInterval_def SetEtsiCamGeneration_def cam_Setup_def cam_app_new_def Let_def)
  then have "cam_AssignVehicle v ?a = ?a\<lparr>ca_assignedVehicleId := v\<rparr>" by (simp add: cam_AssignVehicle_def Let_def)
  then have "\<exists>started. StartApplication True True (cam_AssignVehicle v ?a) = Inr started
      \<and> ca_disseminating started \<and> ca_assignedVehicleId started = v"
    using a assms(5) by (simp add: StartApplication_def StartCamIfReady_def ConfigureVehicleServiceState_def ca_call_def Let_def)
  with w show ?thesis by (simp add: app_DoInitialize_def app_schedule_new_def)
qed

section \<open>The prepared world\<close>

lemma check_options_Inr:
  "check_options op = Inr u \<longleftrightarrow> \<bar>op_kpiWindowS op - 1\<bar> \<le> 1 / 1000000000 \<and> 0 \<le> op_warmupS op \<and> 0 \<le> op_cooldownS op
     \<and> op_warmupS op + op_cooldownS op < op_simTimeSeconds op \<and> op_enableDeepcBridge op \<and> \<not> op_useInputSchedule op
     \<and> \<not> op_etsiCamGeneration op \<and> \<bar>op_fixedBeaconIntervalS op - 1 / 10\<bar> \<le> 1 / 1000000000
     \<and> \<bar>op_sampleTimeS op - 1 / 2\<bar> \<le> 1 / 1000000000 \<and> \<bar>op_deepcControlIntervalS op - op_sampleTimeS op\<bar> \<le> 1 / 1000000000
     \<and> op_deepcPastHorizon op = 20 \<and> op_deepcFutureHorizon op = 10 \<and> 0 < op_deepcResponseTimeoutS op
     \<and> op_minTxPowerDbm op < op_maxTxPowerDbm op \<and> op_minTxPowerDbm op \<le> op_txPower op \<and> op_txPower op \<le> op_maxTxPowerDbm op"
  unfolding check_options_def and_then_eq_Inr abort_if_eq_Inr by (simp add: not_le not_less conj_ac)

lemma install_app_simps [simp]:
  "wo_devices (install_app env op n w) = wo_devices w" "wo_kpi (install_app env op n w) = wo_kpi w"
  "wo_cbr (install_app env op n w) = wo_cbr w" "wo_events (install_app env op n w) = wo_events w"
  "wo_waypoints (install_app env op n w) = wo_waypoints w"
  by (auto simp: install_app_def Let_def)

lemma fold_install_app_simps [simp]:
  "wo_devices (fold (install_app env op) ns w) = wo_devices w" "wo_kpi (fold (install_app env op) ns w) = wo_kpi w"
  "wo_cbr (fold (install_app env op) ns w) = wo_cbr w" "wo_events (fold (install_app env op) ns w) = wo_events w"
  by (induction ns arbitrary: w) simp_all

lemma main_setup_PreparedE:
  assumes "main_setup env op = Inr (Prepared w)"
  obtains mob sel pool ways devs cbr kpi devs' evs bridge where
    "check_options op = Inr ()" "LoadMobilityCsv (env_sort env) (env_mobilityFile env) [] = Inr mob"
    "select_scenario op mob [] = Inr sel" "create_nodes op mob sel = Inr (pool, ways)"
    "configure_devices env op (node_ids (sl_physicalUeCount sel)) = Inr devs"
    "configure_cbr env op sel (node_ids (sl_physicalUeCount sel)) = Inr cbr"
    "configure_kpi env op sel (node_ids (sl_physicalUeCount sel)) = Inr kpi"
    "ApplyTxPowerToAllUes (op_txPower op) devs = Inr devs'" "schedule_run op mob [] sel = Inr evs"
    "bridge_Configure (op_deepcBridgeDir op) (op_deepcPastHorizon op) (op_deepcFutureHorizon op)
       (op_deepcResponseTimeoutS op) (op_minTxPowerDbm op) (op_maxTxPowerDbm op)
       (op_fixedBeaconIntervalS op) (env_appliedOpened env) (env_timingOpened env) deepc_bridge_new = Inr bridge"
    "w = (fold (install_app env op) (node_ids (sl_physicalUeCount sel))
            \<lparr>wo_pool = pool, wo_waypoints = ways, wo_devices = devs', wo_cbr = cbr, wo_kpi = kpi,
             wo_bridge = deepc_bridge_new, wo_apps = Map.empty, wo_appSchedule = Map.empty,
             wo_events = (case cbr_Start cbr of None \<Rightarrow> [] | Some d \<Rightarrow> [(Seconds d, CbrSampleEvent)])\<rparr>)
          \<lparr>wo_bridge := bridge, wo_events := (case cbr_Start cbr of None \<Rightarrow> [] | Some d \<Rightarrow> [(Seconds d, CbrSampleEvent)]) @ evs\<rparr>"
proof -
  from assms obtain u mob sched sel where c: "check_options op = Inr u" "LoadMobilityCsv (env_sort env) (env_mobilityFile env) [] = Inr mob"
    "(if op_useInputSchedule op then LoadInputScheduleCsv (env_inputFile env) [] else Inr []) = Inr sched"
    "select_scenario op mob sched = Inr sel" "prepare_world env op mob sched sel = Inr w"
    by (auto simp: main_setup_def split: if_splits)
  have s: "sched = []" using c(1,3) by (simp add: check_options_Inr)
  from c(5) show thesis
    unfolding prepare_world_def Let_def s
    by (auto intro!: that [OF _ c(2) c(4) [unfolded s]] simp: c(1) split: prod.splits)
qed

section \<open>What the run starts from\<close>

lemma configure_bridge_simps:
  assumes "bridge_Configure dir past future timeout mn mx tb a t deepc_bridge_new = Inr b"
  shows "br_minPowerDbm b = mn" "br_maxPowerDbm b = mx" "br_pastHorizon b = past" "br_requests b = []" "br_appliedOut b = []" "bridge_ok b"
  using assms by (auto simp: bridge_Configure_def deepc_bridge_new_def bridge_ok_def Let_def)

text \<open>C7: whenever the set-up of \<open>main\<close> succeeds and the control loop runs from what it has prepared, with
  the command and the limits that \<open>main\<close> passes to it, every device and every logged control has at every
  moment a power within the limits of the command line, whatever the external controller answers, and
  every request is well formed.\<close>

theorem setup_then_power_safe:
  assumes "main_setup env op = Inr (Prepared w)"
    "control_run (evalStartS op) (evalEndS op) (op_deepcControlIntervalS op) (op_fixedBeaconIntervalS op)
       \<lparr>cs_logger = wo_kpi w, cs_devices = wo_devices w, cs_bridge = wo_bridge w\<rparr> (initial_input op) s p"
  shows "(\<forall>x \<in> device_powers (cs_devices s). \<exists>y. x = Some y
       \<and> op_minTxPowerDbm op - 1 / 1000000000 \<le> y \<and> y \<le> op_maxTxPowerDbm op + 1 / 1000000000)
    \<and> (\<forall>row \<in> set (br_appliedOut (cs_bridge s)).
       op_minTxPowerDbm op - 1 / 1000000000 \<le> ar_txPowerDbm row \<and> ar_txPowerDbm row \<le> op_maxTxPowerDbm op + 1 / 1000000000)
    \<and> (\<forall>r \<in> set (br_requests (cs_bridge s)). request_ok r)"
  using assms(1)
proof (rule main_setup_PreparedE)
  fix mob and sel :: selection and pool :: pool and ways devs cbr kpi devs' evs bridge
  let ?nodes = "node_ids (sl_physicalUeCount sel)"
  assume c: "check_options op = Inr ()" and d: "ApplyTxPowerToAllUes (op_txPower op) devs = Inr devs'"
    and b: "bridge_Configure (op_deepcBridgeDir op) (op_deepcPastHorizon op) (op_deepcFutureHorizon op)
       (op_deepcResponseTimeoutS op) (op_minTxPowerDbm op) (op_maxTxPowerDbm op)
       (op_fixedBeaconIntervalS op) (env_appliedOpened env) (env_timingOpened env) deepc_bridge_new = Inr bridge"
    and w: "w = (fold (install_app env op) ?nodes
            \<lparr>wo_pool = pool, wo_waypoints = ways, wo_devices = devs', wo_cbr = cbr, wo_kpi = kpi,
             wo_bridge = deepc_bridge_new, wo_apps = Map.empty, wo_appSchedule = Map.empty,
             wo_events = (case cbr_Start cbr of None \<Rightarrow> [] | Some d \<Rightarrow> [(Seconds d, CbrSampleEvent)])\<rparr>)
          \<lparr>wo_bridge := bridge, wo_events := (case cbr_Start cbr of None \<Rightarrow> [] | Some d \<Rightarrow> [(Seconds d, CbrSampleEvent)]) @ evs\<rparr>"
  let ?s = "\<lparr>cs_logger = wo_kpi w, cs_devices = wo_devices w, cs_bridge = wo_bridge w\<rparr>"
  note br = configure_bridge_simps [OF b]
  have p: "op_minTxPowerDbm op \<le> op_txPower op \<and> op_txPower op \<le> op_maxTxPowerDbm op"
    using c by (simp add: check_options_Inr)
  have pw: "power_in bridge = (\<lambda>y. op_minTxPowerDbm op - 1 / 1000000000 \<le> y \<and> y \<le> op_maxTxPowerDbm op + 1 / 1000000000)"
    using br by (simp add: power_in_def fun_eq_iff)
  have "control_inv (cs_bridge ?s) ?s (Some (initial_input op, 0))"
    using ApplyTxPowerToAllUes_powers [OF d] br p by (auto simp: control_inv_def w initial_input_def pw)
  from control_inv_run [OF assms(2) this] show ?thesis
    unfolding control_inv_def by (simp add: w pw)
qed

lemma AssignInitial_keeps:
  assumes "AssignInitialDynamicPoolVehicles t vs p = Inr p'" "pool_ok p" "kInvalidVehicleId \<notin> set vs"
  shows "pool_ok p' \<and> pl_mobility p' = pl_mobility p \<and> dom (pl_poolMobility p') = dom (pl_poolMobility p)"
  using assms
proof (induction vs arbitrary: p)
  case (Cons v vs)
  from Cons.prems(1) obtain p1 where p1: "p1 = p \<or> AssignVehicleToPool v p = Inr p1"
    "AssignInitialDynamicPoolVehicles t vs p1 = Inr p'" by (auto split: if_splits)
  have "pool_ok p1 \<and> pl_mobility p1 = pl_mobility p \<and> dom (pl_poolMobility p1) = dom (pl_poolMobility p)"
    using p1(1)
  proof
    assume a: "AssignVehicleToPool v p = Inr p1"
    have "v \<noteq> kInvalidVehicleId" using Cons.prems(3) by auto
    from AssignVehicleToPool_ok [OF Cons.prems(2) this a] AssignVehicleToPool_effect [OF a] show ?thesis by blast
  qed (use Cons.prems(2) in simp)
  with Cons.IH [OF p1(2)] Cons.prems(3) show ?case by simp
qed simp

lemma AssignInitial_mobility: "AssignInitialDynamicPoolVehicles t vs p = Inr p' \<Longrightarrow> pl_mobility p' = pl_mobility p"
proof (induction vs arbitrary: p)
  case (Cons v vs)
  then show ?case using AssignVehicleToPool_effect(3) by (fastforce split: if_splits)
qed simp

lemma AssignInitial_no_apps:
  "AssignInitialDynamicPoolVehicles t vs p = Inr p' \<Longrightarrow> pl_apps p = Map.empty \<Longrightarrow> pl_apps p' = Map.empty"
proof (induction vs arbitrary: p)
  case (Cons v vs)
  have "pl_apps q = Map.empty" if "AssignVehicleToPool v p = Inr q" for q
    using that Cons.prems(2) by (auto simp: AssignVehicleToPool_def Let_def split: option.splits)
  then show ?case using Cons by (auto split: if_splits)
qed simp

lemma pool_setup_no_apps: "pl_apps (pool_setup mob nodes) = Map.empty"
proof -
  have "pl_apps (fold pool_add_node ns p) = pl_apps p" for ns p
    by (induction ns arbitrary: p) (simp_all add: pool_add_node_def)
  then show ?thesis by (simp add: pool_setup_def)
qed

lemma install_app_mobility [simp]: "pl_mobility (wo_pool (fold (install_app env op) ns w)) = pl_mobility (wo_pool w)"
  by (induction ns arbitrary: w) (simp_all add: install_app_def Let_def)

lemma node_ids_facts:
  "distinct (node_ids n)" "length (node_ids n) = unat n" "x \<in> set (node_ids n) \<Longrightarrow> x < n"
proof -
  have u: "unat (of_nat i :: u32) = i" if "i < unat n" for i
    using that unat_u32_less [of n] by (simp add: unat_of_nat_u32)
  have "inj_on (of_nat :: nat \<Rightarrow> u32) {0..<unat n}" by (rule inj_on_inverseI [of _ unat]) (simp add: u)
  then show "distinct (node_ids n)" by (simp add: node_ids_def distinct_map)
  show "length (node_ids n) = unat n" by (simp add: node_ids_def)
  show "x < n" if "x \<in> set (node_ids n)" using that u by (auto simp: node_ids_def word_less_nat_alt)
qed

lemma pool_apps_installed:
  fixes env :: environment
  assumes "op_dynamicActivePool op" "pool_ok (wo_pool w)" "set ns \<subseteq> dom (pl_poolMobility (wo_pool w))"
    "wo_apps w = pl_apps (wo_pool w)"
  defines "w' \<equiv> fold (install_app env op) ns w"
  shows "pool_ok (wo_pool w') \<and> wo_apps w' = pl_apps (wo_pool w') \<and> dom (pl_apps (wo_pool w')) = dom (pl_apps (wo_pool w)) \<union> set ns
    \<and> pl_mobility (wo_pool w') = pl_mobility (wo_pool w) \<and> dom (pl_poolMobility (wo_pool w')) = dom (pl_poolMobility (wo_pool w))
    \<and> pl_free (wo_pool w') = pl_free (wo_pool w) \<and> pl_active (wo_pool w') = pl_active (wo_pool w)
    \<and> (\<forall>n \<in> set ns. wo_appSchedule w' n = Some \<lparr>ap_startTime = Seconds appEarliestStartS, ap_stopTime = Seconds (op_simTimeSeconds op)\<rparr>)
    \<and> (\<forall>n. n \<notin> set ns \<longrightarrow> wo_appSchedule w' n = wo_appSchedule w n)"
  unfolding w'_def using assms(2-4)
proof (induction ns arbitrary: w)
  case (Cons n ns)
  let ?p = "pool_add_app (new_app env op) n (wo_pool w)"
  have fresh: "cam_ok (new_app env op n)" "ca_assignedVehicleId (new_app env op n) = kInvalidVehicleId"
    by (simp_all add: new_app_def SetBeaconInterval_def SetEtsiCamGeneration_def cam_Setup_def cam_app_new_def cam_ok_def Let_def)
  have ok: "pool_ok ?p" using Cons.prems(1,2) fresh by (intro pool_add_app_ok) auto
  define u where "u = install_app env op n w"
  have u: "wo_pool u = ?p" "wo_apps u = pl_apps ?p"
    "wo_appSchedule u = (wo_appSchedule w)(n \<mapsto> \<lparr>ap_startTime = Seconds appEarliestStartS, ap_stopTime = Seconds (op_simTimeSeconds op)\<rparr>)"
    using assms(1) Cons.prems(3) by (simp_all add: u_def install_app_def pool_add_app_def Let_def)
  have f: "pl_mobility ?p = pl_mobility (wo_pool w)" "pl_poolMobility ?p = pl_poolMobility (wo_pool w)" "pl_free ?p = pl_free (wo_pool w)"
    "pl_active ?p = pl_active (wo_pool w)" "dom (pl_apps ?p) = insert n (dom (pl_apps (wo_pool w)))"
    by (simp_all add: pool_add_app_def Let_def)
  from Cons.IH [of u] ok Cons.prems(2) u f show ?case
    by (cases "n \<in> set ns") (auto simp: u_def [symmetric])
qed simp

text \<open>C15: with a pool, what \<open>main\<close> has prepared when the run begins is consistent: the pool invariant holds,
  with at most 250 devices of which each is free or lent to one vehicle, and every device has exactly one
  application, registered, starting when the bearers are active and stopping at the end of the run.\<close>

theorem setup_pool_consistent:
  assumes "main_setup env op = Inr (Prepared w)" "op_dynamicActivePool op"
    "kInvalidVehicleId \<notin> fst ` set (pl_mobility (wo_pool w))"
  shows "pool_ok (wo_pool w) \<and> card (dom (pl_poolMobility (wo_pool w))) \<le> 250
    \<and> length (pl_free (wo_pool w)) + card (pl_active (wo_pool w)) = card (dom (pl_poolMobility (wo_pool w)))
    \<and> wo_apps w = pl_apps (wo_pool w) \<and> dom (wo_apps w) = dom (pl_poolMobility (wo_pool w))
    \<and> (\<forall>n \<in> dom (wo_apps w). wo_appSchedule w n =
         Some \<lparr>ap_startTime = 2200000000, ap_stopTime = Seconds (op_simTimeSeconds op)\<rparr>)"
  using assms(1)
proof (rule main_setup_PreparedE)
  fix mob and sel :: selection and pool :: pool and ways devs cbr kpi devs' evs bridge
  let ?nodes = "node_ids (sl_physicalUeCount sel)"
  let ?w0 = "\<lparr>wo_pool = pool, wo_waypoints = ways, wo_devices = devs', wo_cbr = cbr, wo_kpi = kpi,
             wo_bridge = deepc_bridge_new, wo_apps = Map.empty, wo_appSchedule = Map.empty,
             wo_events = (case cbr_Start cbr of None \<Rightarrow> [] | Some d \<Rightarrow> [(Seconds d, CbrSampleEvent)])\<rparr>"
  assume s: "select_scenario op mob [] = Inr sel" and n: "create_nodes op mob sel = Inr (pool, ways)"
    and w: "w = (fold (install_app env op) ?nodes ?w0)
          \<lparr>wo_bridge := bridge, wo_events := (case cbr_Start cbr of None \<Rightarrow> [] | Some d \<Rightarrow> [(Seconds d, CbrSampleEvent)]) @ evs\<rparr>"
  have sel: "sl_physicalUeCount sel \<le> 250" "sl_vehicleIds sel = select_vehicles op mob"
    using s assms(2) by (auto simp: select_scenario_def Let_def physical_ue_count_def kMaxPhysicalUePoolSize_def not_less min_le_iff_disj split: prod.splits)
  have a: "AssignInitialDynamicPoolVehicles 0 (sl_vehicleIds sel) (pool_setup mob ?nodes) = Inr pool"
    using n assms(2) by (auto simp: create_nodes_def Let_def)
  have "- 1 \<notin> set ?nodes" using node_ids_facts(3) [of "- 1" "sl_physicalUeCount sel"] by auto
  note st = pool_setup_state [OF node_ids_facts(1) this, of mob]
  have mob: "pl_mobility pool = mob" using AssignInitial_mobility [OF a] st by simp
  then have "pl_mobility (wo_pool w) = mob" by (simp add: w)
  with assms(3) have "kInvalidVehicleId \<notin> fst ` set mob" by simp
  moreover have "set (sl_vehicleIds sel) \<subseteq> fst ` set mob"
    using set_take_subset [of _ "sort (map fst mob)"] by (auto simp: sel select_vehicles_def Let_def)
  ultimately have "kInvalidVehicleId \<notin> set (sl_vehicleIds sel)" by blast
  from AssignInitial_keeps [OF a _ this] st
  have p: "pool_ok pool" "dom (pl_poolMobility pool) = set ?nodes" by auto
  have pl: "pl_apps pool = Map.empty" using AssignInitial_no_apps [OF a] pool_setup_no_apps by blast
  have w0: "pool_ok (wo_pool ?w0)" "set ?nodes \<subseteq> dom (pl_poolMobility (wo_pool ?w0))" "wo_apps ?w0 = pl_apps (wo_pool ?w0)"
    using p pl by simp_all
  note i = pool_apps_installed [OF assms(2) w0, of env]
  let ?w = "fold (install_app env op) ?nodes ?w0"
  have sc: "Seconds appEarliestStartS = 2200000000" by (simp add: Seconds_def appEarliestStartS_def llround_def)
  have fin: "finite (dom (pl_poolMobility pool))" using p(2) by simp
  have act: "pl_active pool = dom (nt_vehicleToNode (pl_tables pool))" using p(1) by (simp add: pool_ok_def pool_devices_ok_def)
  have cd: "card (dom (pl_poolMobility pool)) = unat (sl_physicalUeCount sel)"
    using p(2) node_ids_facts(1,2) [of "sl_physicalUeCount sel"] by (simp add: distinct_card)
  have le: "unat (sl_physicalUeCount sel) \<le> 250" using sel(1) by (simp add: word_le_nat_alt)
  show ?thesis
    using i pool_capacity [OF p(1) fin] p pl cd le act sc by (simp add: w)
qed

text \<open>A run with one vehicle, which drives after seven seconds.\<close>

definition sample_environment :: environment where
  "sample_environment =
     \<lparr>env_sort = sort_key row_timeS, env_mobilityFile = Some sevens_csv, env_inputFile = None,
      env_devices = map (\<lambda>_. Some sample_device), env_lte_source = id, env_address = id,
      env_world = (\<lambda>_. (pl_tables (static_pool []), \<lambda>_. vec 0 0 0)), env_cbrOpened = True, env_kpiOpened = True,
      env_appliedOpened = True, env_timingOpened = True, env_genMax = 1000, env_genMin = 100\<rparr>"

definition sample_options :: scenario_options where
  "sample_options = default_options\<lparr>op_requireFullDataCoverage := False, op_coreAxis := ''y''\<rparr>"

lemma sample_setup: "\<exists>w. main_setup sample_environment sample_options = Inr (Prepared w) \<and> pl_mobility (wo_pool w) = [(7, [sevens_row])]"
proof -
  have c: "check_options sample_options = Inr ()"
    by (simp add: check_options_Inr sample_options_def default_options_def)
  have l: "LoadMobilityCsv (env_sort sample_environment) (env_mobilityFile sample_environment) [] = Inr [(7, [sevens_row])]"
    by (simp add: sample_environment_def load_sevens)
  obtain sel where s: "select_scenario sample_options [(7, [sevens_row])] [] = Inr sel" "sl_physicalUeCount sel = 1" "sl_vehicleIds sel = [7]"
    by (simp add: select_scenario_def sample_options_def default_options_def Let_def ResolveCoreAxis_def ComputeStudyBounds_def
        finite_extent_def extent_def min_inf_def max_inf_def core_bounds_def select_vehicles_def physical_ue_count_def
        kMaxPhysicalUePoolSize_def ComputePeakActiveCountsForVehicles_def peak_vehicle_def peak_row_def peak_size_def
        insert_at_def oset_insert_def omap_get_def ValidateTenMinuteDataCoverage_def row_coordinate_def sevens_row_def)
  have n: "node_ids 1 = [0]" by (simp add: node_ids_def)
  have p: "create_nodes sample_options [(7, [sevens_row])] sel = Inr (pool_setup [(7, [sevens_row])] [0], Map.empty)"
    by (simp add: create_nodes_def s n sample_options_def default_options_def ComputeMobilityTimeRange_def finite_extent_def
        extent_def min_inf_def max_inf_def omap_get_def kAssignmentEpsS_def pool_setup_def pool_add_node_def sevens_row_def)
  have b: "GetSlBitmapFromString (op_slBitMap sample_options) [] = Inr [True, True, True, True, True, True, False, False, False, True, True, True]"
    unfolding sample_options_def default_options_def by code_simp
  define dev where "dev = sample_device\<lparr>dev_sourceL2Id := 1, dev_macSourceL2Id := [Some 1]\<rparr>"
  have d: "configure_devices sample_environment sample_options [0] = Inr [Some dev]"
    unfolding configure_devices_def b
    by (simp add: sample_environment_def AssignDeterministicSourceL2Ids_def source_l2_id_def sample_device_def dev_def
        sample_options_def default_options_def)
  have d': "ApplyTxPowerToAllUes (op_txPower sample_options) [Some dev] = Inr [Some (dev\<lparr>dev_phyTxPower := [Some 20]\<rparr>)]"
    by (simp add: dev_def sample_device_def sample_options_def default_options_def)
  obtain cbr where cbr: "configure_cbr sample_environment sample_options sel [0] = Inr cbr"
    by (simp add: configure_cbr_def cbr_Setup_def sample_environment_def)
  obtain kpi where kpi: "configure_kpi sample_environment sample_options sel [0] = Inr kpi"
    by (simp add: configure_kpi_def kpi_Configure_def sample_environment_def Let_def)
  obtain evs where evs: "schedule_run sample_options [(7, [sevens_row])] [] sel = Inr evs"
    by (simp add: schedule_run_def s sample_options_def default_options_def ComputeMobilityTimeRange_def finite_extent_def
        extent_def min_inf_def max_inf_def omap_get_def Let_def)
  have "\<exists>bridge. bridge_Configure (op_deepcBridgeDir sample_options) (op_deepcPastHorizon sample_options) (op_deepcFutureHorizon sample_options)
       (op_deepcResponseTimeoutS sample_options) (op_minTxPowerDbm sample_options) (op_maxTxPowerDbm sample_options)
       (op_fixedBeaconIntervalS sample_options) (env_appliedOpened sample_environment) (env_timingOpened sample_environment) deepc_bridge_new = Inr bridge"
    by (simp add: bridge_Configure_def sample_environment_def Let_def)
  then obtain bridge where br: "bridge_Configure (op_deepcBridgeDir sample_options) (op_deepcPastHorizon sample_options) (op_deepcFutureHorizon sample_options)
       (op_deepcResponseTimeoutS sample_options) (op_minTxPowerDbm sample_options) (op_maxTxPowerDbm sample_options)
       (op_fixedBeaconIntervalS sample_options) (env_appliedOpened sample_environment) (env_timingOpened sample_environment) deepc_bridge_new = Inr bridge"
    by blast
  have m: "pl_mobility (pool_setup [(7, [sevens_row])] [0]) = [(7, [sevens_row])]"
    by (simp add: pool_setup_def pool_add_node_def)
  note m1 = install_app_mobility [of _ _ "[0]", simplified]
  obtain w where w: "prepare_world sample_environment sample_options [(7, [sevens_row])] [] sel = Inr w"
    "pl_mobility (wo_pool w) = [(7, [sevens_row])]"
    unfolding prepare_world_def s(2) n Let_def p d by (simp add: d' cbr kpi evs br m m1 del: ApplyTxPowerToAllUes.simps)
  have o: "\<not> op_useInputSchedule sample_options" "\<not> op_validateOnly sample_options" by (simp_all add: sample_options_def default_options_def)
  have "main_setup sample_environment sample_options = Inr (Prepared w)"
    unfolding main_setup_def by (simp add: c l o s(1) w(1))
  with w(2) show ?thesis by blast
qed

theorem setup_then_power_safe_witness:
  "\<exists>w s. main_setup sample_environment sample_options = Inr (Prepared w)
     \<and> control_run (evalStartS sample_options) (evalEndS sample_options) (op_deepcControlIntervalS sample_options)
         (op_fixedBeaconIntervalS sample_options) \<lparr>cs_logger = wo_kpi w, cs_devices = wo_devices w, cs_bridge = wo_bridge w\<rparr>
         (initial_input sample_options) s (Some (initial_input sample_options, 0))
     \<and> (\<forall>x \<in> device_powers (cs_devices s). \<exists>y. x = Some y \<and> y \<le> 23 + 1 / 1000000000)"
proof -
  obtain w where w: "main_setup sample_environment sample_options = Inr (Prepared w)" using sample_setup by blast
  note r = control_run.start [of "evalStartS sample_options" "evalEndS sample_options" "op_deepcControlIntervalS sample_options"
    "op_fixedBeaconIntervalS sample_options" "\<lparr>cs_logger = wo_kpi w, cs_devices = wo_devices w, cs_bridge = wo_bridge w\<rparr>"
    "initial_input sample_options"]
  have "op_maxTxPowerDbm sample_options = 23" by (simp add: sample_options_def default_options_def)
  with setup_then_power_safe [OF w r] w r show ?thesis by metis
qed

theorem setup_pool_consistent_witness:
  "\<exists>w. main_setup sample_environment sample_options = Inr (Prepared w) \<and> pool_ok (wo_pool w)
     \<and> length (pl_free (wo_pool w)) + card (pl_active (wo_pool w)) = card (dom (pl_poolMobility (wo_pool w)))"
proof -
  obtain w where w: "main_setup sample_environment sample_options = Inr (Prepared w)" "pl_mobility (wo_pool w) = [(7, [sevens_row])]"
    using sample_setup by blast
  have "op_dynamicActivePool sample_options" by (simp add: sample_options_def default_options_def)
  from setup_pool_consistent [OF w(1) this] w show ?thesis by (auto simp: kInvalidVehicleId_def)
qed

definition departed_world :: world where
  "departed_world = \<lparr>wo_pool = (static_pool [])\<lparr>pl_tables := \<lparr>nt_vehicleToNode = [7 \<mapsto> 0], nt_nodeToVehicle = [0 \<mapsto> 7],
       nt_activeRange = [0 \<mapsto> (0, 1)], nt_dynamic = False\<rparr>\<rparr>, wo_waypoints = Map.empty, wo_devices = [],
     wo_cbr = cbr_logger_new, wo_kpi = kpi_logger_new, wo_bridge = deepc_bridge_new, wo_apps = Map.empty,
     wo_appSchedule = Map.empty, wo_events = []\<rparr>"

theorem departed_vehicle_app_never_stops_witness:
  "\<exists>sch. wo_appSchedule (install_app sample_environment (default_options\<lparr>op_dynamicActivePool := False\<rparr>) 0 departed_world) 0 = Some sch
     \<and> app_DoInitialize sch = (0, None)"
  using departed_vehicle_app_never_stops [of "default_options\<lparr>op_dynamicActivePool := False\<rparr>" departed_world 0 0 1 7 sample_environment]
  by (auto simp: departed_world_def appEarliestStartS_def ResolveVehicleIdForNode_def kInvalidVehicleId_def)

text \<open>The bound on the number of devices is only checked for a pool: with a device per vehicle and more than
  254 vehicles, source ids are given twice.\<close>

lemma static_source_ids_collide:
  assumes "configure_devices env op nodes = Inr ds" "254 < length ds"
  shows "\<not> distinct (map (map_option dev_sourceL2Id) ds)"
proof -
  from assms(1) obtain devs where "assign_l2_ids (env_lte_source env) 0 devs = Inr ds"
    by (auto simp: configure_devices_def AssignDeterministicSourceL2Ids_def)
  from assign_l2_ids_Inr [OF this] have m: "map (map_option dev_sourceL2Id) ds = map (\<lambda>j. Some (source_l2_id j)) [0..<length devs]"
    by simp
  then have "length devs = length ds" by (metis length_map length_upt minus_nat.diff_0)
  then have at: "map (map_option dev_sourceL2Id) ds ! j = Some (source_l2_id j)" if "j < length ds" for j
    unfolding m using that by simp
  have "source_l2_id 254 = source_l2_id 0" by (simp add: source_l2_id_def)
  with at [of 0] at [of 254] assms(2) have "map (map_option dev_sourceL2Id) ds ! 0 = map (map_option dev_sourceL2Id) ds ! 254"
    by fastforce
  moreover have "0 < length (map (map_option dev_sourceL2Id) ds)" "254 < length (map (map_option dev_sourceL2Id) ds)" using assms(2) by auto
  ultimately show ?thesis by (metis nth_eq_iff_index_eq zero_neq_numeral)
qed

end
