(* ===== verification/Spec2Isabelle.thy ===== *)
theory Spec2Isabelle
  imports SchedulerChoice SimulatorRuns VehicleData Packets RngStream BufferDefects TagListSerialize NetworkHeaders Scenario
begin

text \<open>
  A verification development for the V2X closed-loop simulation of this repository: the scenario
  program \<open>scratch/nr_v2x_ngsim_deepc_closed_loop_deepc.cc\<close>, its channel busy ratio logger, and the
  discrete-event core of ns-3 it runs on. Paths are relative to the root of the repository.

  \<^bold>\<open>The program.\<close> A file of vehicle trajectories (NGSIM) is replayed. Every vehicle that is on the
  road drives a device with a sidelink radio and sends cooperative awareness messages (CAMs). Each
  CAM carries a packet tag; sent and received CAMs are logged, and from these logs and from what the
  radio reports of its channel the key performance indicators (KPIs) of the last window are computed
  periodically. An external controller (DeePC) reads the KPIs from request files and answers with the
  transmit power and the beacon interval of the next period, which the program applies to all
  devices. The number of devices is fixed before the run, so that devices are either owned by a
  vehicle for the whole run (static mode) or lent to the vehicles that are present (pool mode).
  Everything happens in events of the ns-3 simulator.

  \<^bold>\<open>Scenario program\<close> (\<open>scratch/nr_v2x_ngsim_deepc_closed_loop_deepc.cc\<close>).
  \<^item> \<open>Trajectory\<close>: the rows of the two input files and their loaders (\<open>LoadMobilityCsv\<close>,
    \<open>LoadInputScheduleCsv\<close>), extents, data coverage, peak numbers of vehicles, the slot bitmap and
    \<open>NgsimPoolMobilityModel\<close>. Lemmas: what the loaders accept and how the rows end up in tracks;
    the cached index of the mobility model never changes what it answers.
  \<^item> \<open>NodeTables\<close>: the global tables between vehicles and nodes, with the locale \<open>assignment\<close> for
    what their clients rely on.
  \<^item> \<open>KpiLogger\<close>: \<open>class KpiLogger\<close>. Lemmas: the windows and indices of the logger agree in every
    reachable state; which nodes are eligible receivers; a reception counts once.
  \<^item> \<open>CamApplication\<close>: \<open>class CamApplication\<close>. Lemmas: dissemination is on exactly when a vehicle
    is assigned and the application runs; sequence numbers.
  \<^item> \<open>VehiclePool\<close>: \<open>AssignVehicleToPool\<close>, \<open>ReleaseVehicleFromPool\<close> and the loops that schedule
    them. Lemmas: tables, free list, mobility models and applications agree in every reachable
    state; the pool is large enough for the peak the program computes, except in the case shown.
  \<^item> \<open>RadioInputs\<close>, \<open>Json\<close>, \<open>DeepcBridge\<close>: applying inputs to all devices, the text of requests
    and responses, \<open>class DeepcFileBridge\<close> with the control step and the wait for the response.
    Lemmas: every power that reaches a radio is finite and in the configured range; the history
    and the requests have the configured shape; requests are issued once the history is full.
  \<^item> \<open>VehicleData\<close>: \<open>NgsimVehicleDataProvider\<close>, the content of a CAM.
  \<^item> \<open>WaypointMobility\<close>: static mode; \<open>WaypointMobilityModel\<close>
    (\<open>src/mobility/model/waypoint-mobility-model.cc\<close>) and its agreement with the pool mode.
  \<^item> \<open>Scenario\<close>: \<open>main\<close> up to \<open>Simulator::Run()\<close>, which establishes the invariants above, with
    \<open>src/network/model/application.cc\<close>.
  \<^item> \<open>CbrLogger\<close>: \<open>src/cbr-logger.{cc,h}\<close>. Lemmas: clipping, sorting and merging the busy intervals
    computes the length of the set of busy instants of the window; the ratio is a mean over the evaluated
    nodes; pruning loses nothing.

  \<^bold>\<open>The simulator\<close> (\<open>src/core/model\<close>).
  \<^item> \<open>EventList\<close>: \<open>scheduler.h\<close>, and the contract of an event list as the locales \<open>event_list\<close> and
    \<open>event_list_remove\<close>; \<open>timed_event_list\<close> and \<open>timed_event_list_remove\<close> weaken it to events that
    are not earlier than the last one removed, which is all the simulator needs.
  \<^item> \<open>ListScheduler\<close>, \<open>MapScheduler\<close>, \<open>HeapScheduler\<close>, \<open>PriorityQueueScheduler\<close>,
    \<open>CalendarScheduler\<close>: the five implementations, each an interpretation of the strongest contract
    it fulfils. The binary heap does not fulfil that of \<open>Remove\<close> (\<open>SchedulerChoice\<close>).
  \<^item> \<open>SchedulerDispatch\<close>: the object behind a \<open>Ptr<Scheduler>\<close>, an interpretation again.
  \<^item> \<open>DefaultSimulator\<close>, \<open>SimulatorRuns\<close>: \<open>DefaultSimulatorImpl\<close>, \<open>EventId\<close> and \<open>EventImpl\<close>. The
    code an event runs is any program of simulator calls (\<open>prog\<close>). Lemmas: events run in order of
    time and then of their ids, the clock never goes back, cancelled events do not run (what is called is
    read off \<open>impl_Invoke\<close>, and is what a recording client receives), the choice
    and the change of the event list cannot be observed, runs end when delays are positive.
  \<^item> \<open>RngStream\<close>: \<open>rng-stream.cc\<close>, \<open>rng-seed-manager.cc\<close> and the parts of
    \<open>random-variable-stream.cc\<close> the scenario uses. Lemmas: the arithmetic on doubles is exact, and
    streams and substreams are positions in one sequence.

  \<^bold>\<open>Packets\<close> (\<open>src/network/model\<close>).
  \<^item> \<open>TagBuffer\<close>: \<open>tag-buffer.cc\<close>, with the serialisation of the tag of a CAM.
  \<^item> \<open>SharedLists\<close>: linked lists with shared tails and reference counts, as a heap of next pointers.
  \<^item> \<open>PacketTagList\<close>: \<open>packet-tag-list.{cc,h}\<close> on that heap. The locale \<open>lawful_tag\<close> says what a
    list needs of a tag class. \<open>TagListSerialize\<close>: its serialised form, with the round trip.
  \<^item> \<open>Packets\<close>: the calls of \<open>packet.cc\<close> on packet tags, and the refinement by which packets simply
    have lists of tags of their own. The locale \<open>tag_classes\<close> collects the laws of all the tags a
    program uses; it is interpreted on the tag of the scenario.
  \<^item> \<open>ByteBuffer\<close>: \<open>buffer.{cc,h}\<close>, the windows of buffers on shared data with a zero area and a dirty
    area, and the heap with its free list. \<open>BufferWindows\<close>: the invariant of all buffers that exist
    (\<open>bufs_ok\<close>), the bytes a buffer stands for (\<open>contents\<close>), and that every operation does to them
    what it does to a list and nothing to the bytes of another buffer.
  \<^item> \<open>BufferIterator\<close>: \<open>Buffer::Iterator\<close>. Lemmas: writing outside of the zero area changes just the bytes
    written; every reader and writer by the bytes it reads or writes.
  \<^item> \<open>BufferCopies\<close>, \<open>BufferSerialize\<close>: copies, appending, and the serialised form with its round trip.
    \<open>BufferDefects\<close> has the two cases in which appending fails.
  \<^item> \<open>PacketBytes\<close>: the calls of \<open>packet.cc\<close> on bytes, headers and trailers. Its locale
    \<open>packet_classes\<close> has the laws of header and trailer classes; under them packets refine lists of
    bytes (\<open>bspec_step\<close>), for packets of up to \<open>size_limit\<close> bytes (a quarter of what a \<open>uint32_t\<close>
    counts, so that no position wraps around), with the bytes of padding left open, as the code does not
    initialise them. Appending a packet is covered where it works (\<open>appends_ok\<close>).
  \<^item> \<open>NetworkHeaders\<close>: \<open>network/utils/\<close> with the LLC/SNAP and Ethernet headers and the frame check
    sequence, on which \<open>packet_classes\<close> is interpreted, with the Ethernet header without preamble: a
    preamble is not read back (\<open>preamble_not_restored\<close>). \<open>Crc32\<close>: \<open>crc32.cc\<close>; the table is the bitwise
    division, and an error burst of up to four bytes changes the checksum.

  \<^bold>\<open>Foundations.\<close> \<open>V2xPrelude\<close> has the machine types, failures, the ordered maps of the C++ library
  and facts on lists; \<open>StdString\<close> has the string functions and number parsers the code calls.

  \<^bold>\<open>Conventions.\<close>
  \<^item> \<open>double\<close> is the type of real numbers, and a NaN or an infinity that the code uses as a marker is
    \<open>None\<close>. Only in \<open>RngStream\<close> are operations on doubles rounded, by an arbitrary function with the
    properties IEEE 754 guarantees.
  \<^item> \<open>uint32_t\<close> and \<open>uint64_t\<close> are words where width or wrap-around matters. Sizes, indices of
    vectors and reference counts are \<open>nat\<close>; each theory says which other counters are.
  \<^item> An abort, a failed assertion, a thrown exception and undefined behaviour are values, \<open>Inl\<close> or
    \<open>None\<close>, so that a theorem that an operation gives \<open>Some\<close> or \<open>Inr\<close> excludes them.
  \<^item> A null \<open>Ptr\<close> is \<open>None\<close>; a \<open>std::map\<close> is an association list in increasing order of its keys or,
    where the order is not used, a map.
  \<^item> \<open>Simulator::Now()\<close> is an argument of every component above the simulator. Files are arguments or
    lists of rows; third-party objects (NR devices, the CAM service, sockets) are parameters, and
    the calls made to them are recorded.

  \<^bold>\<open>Loops.\<close> Loops over a container are structural recursions. A loop that can run forever is a
  \<open>partial_function (option)\<close>: \<open>Simulator::Run\<close> and \<open>Destroy\<close>, the transfer between event lists, the
  wait for the response, and the traversals of tag lists. That they return is proved: of the run when
  delays are positive, of the wait by the first poll after its time-out, and of the traversals in every state the calls on
  packets can reach. \<open>process_events n\<close> is the run cut off after \<open>n\<close> events; it is used for
  what holds after any number of events, not as fuel.

  \<^bold>\<open>Not modelled.\<close> Of the scenario program: \<open>WriteMetadataJson\<close>, which only prints the options to a file,
  \<open>ConnectCbrTraces\<close>, which only registers callbacks by their names, and the configuration of the NR
  stack in \<open>main\<close>, whose modules are not part of this repository. The program for data set generation
  is the closed-loop program without its controller and is not modelled again. Of ns-3: the type system and attributes, the threads of the
  simulator, the byte tags, metadata and nix vector of a packet with the serialised forms that
  contain them, which record what other code did to the packet and which the scenario never reads, and the
  protocol modules, whose code runs below the socket the scenario sends on: of them only the link-layer
  headers are modelled, as the clients of the byte buffer.
\<close>

end
